(* ===== verification/Prelude.thy ===== *)
theory Prelude
  imports Complex_Main "HOL-Library.AList" "HOL-Library.Word" "HOL-Library.List_Lexorder"
    "HOL-Library.Multiset"
begin

unbundle bit_operations_syntax

text \<open>
  Shared vocabulary of the development: the types the theories name, the error values,
  the model of a JavaScript \<open>Map\<close> (an association list whose keys are distinct and kept in
  insertion order, so that iteration order is part of the model), buffers as lists of bytes
  with the \<open>subarray\<close> read, and the little-endian integer fields of Node's \<open>Buffer\<close>.
\<close>

named_theorems js_map_simps "facts about get, set and delete of a JavaScript Map"
named_theorems buf_simps "facts about slices and integer fields of a buffer"

declare add_2_eq_Suc [simp del] add_2_eq_Suc' [simp del]

type_synonym byte = "8 word"
type_synonym bytes = "byte list"

text \<open>
  A JavaScript string: its UTF-16 code units. \<open>lit\<close> writes one out.
\<close>

type_synonym jstr = "nat list"

definition lit :: "string \<Rightarrow> jstr" where
  "lit s = map of_char s"

lemma lit_simps [simp]: "lit [] = []" "lit (c # s) = of_char c # lit s"
  by (simp_all add: lit_def)

section \<open>Errors\<close>

text \<open>
  The exceptions the modelled code throws, by class. A \<open>LockError\<close> carries the code
  \<open>ELOCKED\<close>, \<open>WalSealed\<close> the code \<open>WAL_SEALED\<close>; \<open>IoError\<close> is a failed system call.
\<close>

datatype js_error =
    TypeError string
  | RangeError string
  | SyntaxError string
  | Error string
  | CorruptFrameError string nat
  | UniqueViolationError jstr
  | LockError string
  | WalSealed
  | IoError string

abbreviation map_result :: "('a \<Rightarrow> 'b) \<Rightarrow> 'e + 'a \<Rightarrow> 'e + 'b" where
  "map_result f r \<equiv> map_sum (\<lambda>e. e) f r"

section \<open>JavaScript Maps: association lists in insertion order\<close>

type_synonym ('k, 'v) jmap = "('k \<times> 'v) list"

abbreviation jget :: "('k, 'v) jmap \<Rightarrow> 'k \<Rightarrow> 'v option" where
  "jget m k \<equiv> map_of m k"

abbreviation jset :: "'k \<Rightarrow> 'v \<Rightarrow> ('k, 'v) jmap \<Rightarrow> ('k, 'v) jmap" where
  "jset k v m \<equiv> AList.update k v m"

abbreviation jdel :: "'k \<Rightarrow> ('k, 'v) jmap \<Rightarrow> ('k, 'v) jmap" where
  "jdel k m \<equiv> AList.delete k m"

abbreviation jkeys :: "('k, 'v) jmap \<Rightarrow> 'k list" where
  "jkeys m \<equiv> map fst m"

definition jmap_ok :: "('k, 'v) jmap \<Rightarrow> bool" where
  "jmap_ok m \<longleftrightarrow> distinct (jkeys m)"

lemma jget_set [js_map_simps, simp]:
  "jget (jset k v m) k' = (if k' = k then Some v else jget m k')"
  by (simp add: update_conv')

lemma jget_del [js_map_simps, simp]:
  "jget (jdel k m) k' = (if k' = k then None else jget m k')"
  by (simp add: delete_conv')

lemma jget_updates: "jget (jdel k m) = (jget m)(k := None)" "jget (jset k v m) = (jget m)(k := Some v)"
  by (simp_all add: fun_eq_iff)

lemma jmap_ok_Nil [simp]: "jmap_ok []"
  by (simp add: jmap_ok_def)

lemma jmap_ok_Cons [simp]: "jmap_ok (p # m) \<longleftrightarrow> fst p \<notin> fst ` set m \<and> jmap_ok m"
  by (auto simp: jmap_ok_def)

lemma jmap_ok_set [js_map_simps, simp]: "jmap_ok m \<Longrightarrow> jmap_ok (jset k v m)"
  by (simp add: jmap_ok_def distinct_update)

lemma jmap_ok_del [js_map_simps, simp]: "jmap_ok m \<Longrightarrow> jmap_ok (jdel k m)"
  by (simp add: jmap_ok_def distinct_delete)

lemma jget_mem: "jmap_ok m \<Longrightarrow> (k, v) \<in> set m \<longleftrightarrow> jget m k = Some v"
  by (auto simp: jmap_ok_def)

lemma set_jkeys_set [js_map_simps, simp]: "fst ` set (jset k v m) = insert k (fst ` set m)"
  by (simp flip: dom_map_of_conv_image_fst add: update_conv')

lemma set_jkeys_del [js_map_simps, simp]: "fst ` set (jdel k m) = fst ` set m - {k}"
  by (simp flip: dom_map_of_conv_image_fst add: delete_conv')

lemma jdel_absent: "k \<notin> fst ` set m \<Longrightarrow> jdel k m = m"
  by (simp add: delete_id)

lemma jset_absent: "k \<notin> fst ` set m \<Longrightarrow> jset k v m = m @ [(k, v)]"
  by (induction m) auto

lemma jget_None_iff: "jget m k = None \<longleftrightarrow> k \<notin> fst ` set m"
  by (simp add: map_of_eq_None_iff)

lemma option_eqI: "(\<And>s. a = Some s \<longleftrightarrow> b = Some s) \<Longrightarrow> a = b"
  by (cases a; cases b) auto

text \<open>A sum over the entries of a Map, kept up to date by its owner.\<close>

definition jsum :: "('k \<Rightarrow> 'v \<Rightarrow> int) \<Rightarrow> ('k, 'v) jmap \<Rightarrow> int" where
  "jsum f m = sum_list (map (\<lambda>(k, v). f k v) m)"

lemma jsum_Nil [simp]: "jsum f [] = 0"
  by (simp add: jsum_def)

lemma jsum_Cons [simp]: "jsum f ((k, v) # m) = f k v + jsum f m"
  by (simp add: jsum_def)

lemma jsum_set: "jmap_ok m \<Longrightarrow>
    jsum f (jset k v m) = jsum f m + f k v - (case jget m k of None \<Rightarrow> 0 | Some u \<Rightarrow> f k u)"
proof (induction m)
  case (Cons p m)
  obtain k' v' where p: "p = (k', v')" by (cases p)
  show ?case
  proof (cases "k' = k")
    case True
    then show ?thesis by (simp add: p)
  next
    case False
    with Cons show ?thesis by (simp add: p)
  qed
qed simp

lemma jsum_del: "jmap_ok m \<Longrightarrow>
    jsum f (jdel k m) = jsum f m - (case jget m k of None \<Rightarrow> 0 | Some u \<Rightarrow> f k u)"
proof (induction m)
  case (Cons p m)
  obtain k' v' where p: "p = (k', v')" by (cases p)
  show ?case
  proof (cases "k' = k")
    case True
    with Cons.prems have "jget m k = None" by (simp add: p jget_None_iff)
    with True Cons show ?thesis by (simp add: p jdel_absent jget_None_iff)
  next
    case False
    with Cons show ?thesis by (simp add: p)
  qed
qed simp

lemma length_jset: "length (jset k v m) = (if k \<in> fst ` set m then length m else Suc (length m))"
  by (induction m) auto

text \<open>Collecting results until the first error, as a generator that throws does.\<close>

fun collect :: "('e + 'a) list \<Rightarrow> 'e + 'a list" where
  "collect [] = Inr []"
| "collect (Inl e # rs) = Inl e"
| "collect (Inr x # rs) = map_result (\<lambda>xs. x # xs) (collect rs)"

lemma collect_Inr [simp]: "collect (map Inr xs) = Inr xs"
  by (induction xs) auto

section \<open>The first position from \<open>p\<close> on\<close>

definition first_at :: "(nat \<Rightarrow> bool) \<Rightarrow> nat \<Rightarrow> nat \<Rightarrow> bool" where
  "first_at Q p s \<longleftrightarrow> p \<le> s \<and> Q s \<and> (\<forall>j. p \<le> j \<longrightarrow> j < s \<longrightarrow> \<not> Q j)"

lemma first_at_shift:
  assumes "p \<le> q" "\<And>j. p \<le> j \<Longrightarrow> j < q \<Longrightarrow> \<not> Q j"
  shows "first_at Q p s \<longleftrightarrow> first_at Q q s"
proof
  assume f: "first_at Q p s"
  then have "\<not> s < q" using assms(2) by (auto simp: first_at_def)
  with f assms(1) show "first_at Q q s" by (auto simp: first_at_def)
next
  assume f: "first_at Q q s"
  have "\<not> Q j" if "p \<le> j" "j < s" for j
    using f assms(2) that by (cases "j < q") (auto simp: first_at_def)
  with f assms(1) show "first_at Q p s" by (auto simp: first_at_def)
qed

lemma first_at_here: "Q p \<Longrightarrow> first_at Q p s \<longleftrightarrow> s = p"
  by (auto simp: first_at_def)

lemma first_at_none: "(\<And>j. p \<le> j \<Longrightarrow> \<not> Q j) \<Longrightarrow> \<not> first_at Q p s"
  by (auto simp: first_at_def)

section \<open>Buffers and their integer fields\<close>

text \<open>\<open>buf.subarray(i, j)\<close> (and the copy \<open>Buffer.from\<close> takes of it).\<close>

definition subarray :: "'a list \<Rightarrow> nat \<Rightarrow> nat \<Rightarrow> 'a list" where
  "subarray buf i j = take (j - i) (drop i buf)"

lemma length_subarray [buf_simps]: "j \<le> length buf \<Longrightarrow> length (subarray buf i j) = j - i"
  by (simp add: subarray_def)

lemma subarray_append_left [buf_simps]:
  "j \<le> length xs \<Longrightarrow> subarray (xs @ ys) i j = subarray xs i j"
  by (cases "i \<le> j") (auto simp: subarray_def)

lemma subarray_append_right [buf_simps]:
  "length xs \<le> i \<Longrightarrow> subarray (xs @ ys) i j = subarray ys (i - length xs) (j - length xs)"
  by (simp add: subarray_def)

lemma subarray_all [simp]: "subarray xs 0 (length xs) = xs"
  by (simp add: subarray_def)

text \<open>Reading past a prefix: the form the frame proofs use.\<close>

lemma subarray_past: "subarray (xs @ ys) (length xs + i) (length xs + j) = subarray ys i j"
  by (simp add: subarray_def)

lemma subarray_split:
  assumes "i \<le> j" "j \<le> k"
  shows "subarray xs i k = subarray xs i j @ subarray xs j k"
proof -
  have "k - i = (j - i) + (k - j)" using assms by simp
  then show ?thesis
    using assms by (simp only: subarray_def take_add drop_drop le_add_diff_inverse2)
qed

lemma subarray_take: "j \<le> m \<Longrightarrow> subarray (take m xs) i j = subarray xs i j"
  by (cases "i \<le> j") (simp_all add: subarray_def drop_take min_def)

lemma subarray_middle: "subarray (xs @ ys @ zs) (length xs) (length xs + length ys) = ys"
  by (simp add: subarray_def)

text \<open>\<open>writeUIntLE\<close> and \<open>readUIntLE\<close> for a field of \<open>n\<close> bytes.\<close>

fun le_bytes :: "nat \<Rightarrow> nat \<Rightarrow> bytes" where
  "le_bytes 0 v = []"
| "le_bytes (Suc n) v = of_nat v # le_bytes n (v div 256)"

fun le_nat :: "bytes \<Rightarrow> nat" where
  "le_nat [] = 0"
| "le_nat (b # bs) = unat b + 256 * le_nat bs"

lemma length_le_bytes [simp]: "length (le_bytes n v) = n"
  by (induction n arbitrary: v) auto

lemma unat_byte_lt: "unat (b :: byte) < 256"
  using unsigned_less [of b] by simp

lemma unat_of_nat_byte: "unat (of_nat v :: byte) = v mod 256"
  by (simp add: unat_of_nat)

lemma le_nat_le_bytes_mod: "le_nat (le_bytes n v) = v mod 256 ^ n"
proof (induction n arbitrary: v)
  case (Suc n)
  have "v mod 256 ^ Suc n = v mod 256 + 256 * ((v div 256) mod 256 ^ n)"
    by (metis mod_mult2_eq power_Suc add.commute)
  then show ?case by (simp add: Suc.IH unat_of_nat_byte)
qed simp

lemma le_nat_le_bytes [simp]: "v < 256 ^ n \<Longrightarrow> le_nat (le_bytes n v) = v"
  by (simp add: le_nat_le_bytes_mod)

lemma le_nat_bound: "le_nat bs < 256 ^ length bs"
proof (induction bs)
  case (Cons b bs)
  have "unat b < 256" using unsigned_less[of b] by simp
  with Cons show ?case by simp
qed simp

lemma le_bytes_le_nat [simp]: "length bs = n \<Longrightarrow> le_bytes n (le_nat bs) = bs"
proof (induction bs arbitrary: n)
  case (Cons b bs)
  then obtain m where n: "n = Suc m" and m: "length bs = m" by auto
  have lt: "unat b < 256" using unsigned_less[of b] by simp
  then have "(unat b + 256 * le_nat bs) div 256 = le_nat bs" by simp
  moreover have "(of_nat (unat b + 256 * le_nat bs) :: byte) = b"
    by (simp add: word_unat_eq_iff unat_of_nat_byte del: of_nat_add) (use lt in simp)
  ultimately show ?case by (simp add: n m Cons.IH)
qed simp

definition u8_at :: "bytes \<Rightarrow> nat \<Rightarrow> nat" where
  "u8_at buf p = le_nat (subarray buf p (p + 1))"

definition u16_at :: "bytes \<Rightarrow> nat \<Rightarrow> nat" where
  "u16_at buf p = le_nat (subarray buf p (p + 2))"

definition u32_at :: "bytes \<Rightarrow> nat \<Rightarrow> nat" where
  "u32_at buf p = le_nat (subarray buf p (p + 4))"

text \<open>\<open>writeBigInt64LE\<close> and \<open>readBigInt64LE\<close>: two's complement.\<close>

definition int64_ok :: "int \<Rightarrow> bool" where
  "int64_ok z \<longleftrightarrow> - (2 ^ 63) \<le> z \<and> z < 2 ^ 63"

definition le_int64 :: "int \<Rightarrow> bytes" where
  "le_int64 z = le_bytes 8 (nat (z mod 2 ^ 64))"

definition int64_le :: "bytes \<Rightarrow> int" where
  "int64_le bs = (let u = int (le_nat bs) in if u < 2 ^ 63 then u else u - 2 ^ 64)"

definition i64_at :: "bytes \<Rightarrow> nat \<Rightarrow> int" where
  "i64_at buf p = int64_le (subarray buf p (p + 8))"

lemma length_le_int64 [simp]: "length (le_int64 z) = 8"
  by (simp add: le_int64_def)

lemma int64_le_le_int64 [simp]: "int64_ok z \<Longrightarrow> int64_le (le_int64 z) = z"
proof -
  assume ok: "int64_ok z"
  have lt: "nat (z mod 2 ^ 64) < 256 ^ 8" by simp
  have u: "int (le_nat (le_bytes 8 (nat (z mod 2 ^ 64)))) = z mod 2 ^ 64"
    by (simp add: le_nat_le_bytes [OF lt] del: le_bytes.simps)
  show ?thesis
  proof (cases "0 \<le> z")
    case True
    with ok have "z mod 2 ^ 64 = z" by (simp add: int64_ok_def)
    with ok u show ?thesis by (simp add: int64_le_def le_int64_def int64_ok_def Let_def)
  next
    case False
    have "(z + 2 ^ 64) mod 2 ^ 64 = z + 2 ^ 64"
      using False ok by (intro mod_pos_pos_trivial) (simp_all add: int64_ok_def)
    then have "z mod 2 ^ 64 = z + 2 ^ 64"
      by (simp only: mod_add_self2)
    with False ok u show ?thesis by (simp add: int64_le_def le_int64_def int64_ok_def Let_def)
  qed
qed

lemma field_at_drop:
  "u8_at buf (p + i) = u8_at (drop p buf) i"
  "u16_at buf (p + i) = u16_at (drop p buf) i"
  "u32_at buf (p + i) = u32_at (drop p buf) i"
  "i64_at buf (p + i) = i64_at (drop p buf) i"
  "subarray buf (p + i) (p + j) = subarray (drop p buf) i j"
  by (simp_all add: u8_at_def u16_at_def u32_at_def i64_at_def subarray_def add.commute)

lemma field_at_append:
  "p + 1 \<le> length xs \<Longrightarrow> u8_at (xs @ ys) p = u8_at xs p"
  "p + 2 \<le> length xs \<Longrightarrow> u16_at (xs @ ys) p = u16_at xs p"
  "p + 4 \<le> length xs \<Longrightarrow> u32_at (xs @ ys) p = u32_at xs p"
  "p + 8 \<le> length xs \<Longrightarrow> i64_at (xs @ ys) p = i64_at xs p"
  by (simp_all add: u8_at_def u16_at_def u32_at_def i64_at_def subarray_append_left)

lemma field_at_here:
  "v < 2 ^ 8 \<Longrightarrow> u8_at (le_bytes 1 v @ ys) 0 = v"
  "v < 2 ^ 16 \<Longrightarrow> u16_at (le_bytes 2 v @ ys) 0 = v"
  "v < 2 ^ 32 \<Longrightarrow> u32_at (le_bytes 4 v @ ys) 0 = v"
  "int64_ok z \<Longrightarrow> i64_at (le_int64 z @ ys) 0 = z"
  using le_nat_le_bytes [of v 1] le_nat_le_bytes [of v 2] le_nat_le_bytes [of v 4]
  by (simp_all add: u8_at_def u16_at_def u32_at_def i64_at_def subarray_def del: le_bytes.simps)

lemma field_at_skip [buf_simps]:
  "length xs \<le> p \<Longrightarrow> u8_at (xs @ ys) p = u8_at ys (p - length xs)"
  "length xs \<le> p \<Longrightarrow> u16_at (xs @ ys) p = u16_at ys (p - length xs)"
  "length xs \<le> p \<Longrightarrow> u32_at (xs @ ys) p = u32_at ys (p - length xs)"
  "length xs \<le> p \<Longrightarrow> i64_at (xs @ ys) p = i64_at ys (p - length xs)"
  by (simp_all add: u8_at_def u16_at_def u32_at_def i64_at_def subarray_def)

lemma subarray_here [buf_simps]: "subarray (xs @ ys) 0 (length xs) = xs"
  by (simp add: subarray_def)

lemma subarray_empty [buf_simps, simp]: "subarray xs i i = []"
  by (simp add: subarray_def)

lemma subarray_subarray:
  "j' \<le> j - i \<Longrightarrow> subarray (subarray xs i j) i' j' = subarray xs (i + i') (i + j')"
  by (simp add: subarray_def drop_take min_def add.commute)

lemma field_at_subarray [buf_simps]:
  "p + 1 \<le> j - i \<Longrightarrow> u8_at (subarray xs i j) p = u8_at xs (i + p)"
  "p + 2 \<le> j - i \<Longrightarrow> u16_at (subarray xs i j) p = u16_at xs (i + p)"
  "p + 4 \<le> j - i \<Longrightarrow> u32_at (subarray xs i j) p = u32_at xs (i + p)"
  "p + 8 \<le> j - i \<Longrightarrow> i64_at (subarray xs i j) p = i64_at xs (i + p)"
  by (simp_all add: u8_at_def u16_at_def u32_at_def i64_at_def subarray_subarray add.assoc)

section \<open>JavaScript's \<open>Number(bigint)\<close>\<close>

text \<open>
  \<open>readBigInt64LE\<close> yields an integer and \<open>Number(...)\<close> rounds it to the nearest double:
  exact up to \<open>2^53\<close> in magnitude, otherwise rounded to a multiple of a power of two,
  ties to even.
\<close>

definition round_even_shift :: "nat \<Rightarrow> nat \<Rightarrow> nat" where
  "round_even_shift n s =
     (let q = n div 2 ^ s; r = n mod 2 ^ s; half = 2 ^ s div 2
      in (if s = 0 then n
          else if r > half \<or> (r = half \<and> odd q) then (q + 1) * 2 ^ s
          else q * 2 ^ s))"

fun bit_width :: "nat \<Rightarrow> nat" where
  "bit_width n = (if n = 0 then 0 else Suc (bit_width (n div 2)))"

declare bit_width.simps [simp del]

definition to_number :: "int \<Rightarrow> int" where
  "to_number z =
     (if \<bar>z\<bar> \<le> 2 ^ 53 then z
      else sgn z * int (round_even_shift (nat \<bar>z\<bar>) (bit_width (nat \<bar>z\<bar>) - 53)))"

lemma to_number_exact [simp]: "\<bar>z\<bar> \<le> 2 ^ 53 \<Longrightarrow> to_number z = z"
  by (simp add: to_number_def)

lemma to_number_eq_0 [simp]: "to_number 0 = 0"
  by (simp add: to_number_def)

end
