(* ===== verification/OrderedIndex.thy ===== *)
theory OrderedIndex
  imports Prelude
begin

text \<open>
  What an ordered index promises: a sorted list of (key, value) entries, ordered by key and
  then by value, with insert, delete, rank access and the bounded range scan. The skip list
  of \<open>packages/minidb/src/skiplist.ts\<close> is shown to implement it; the store, the dt columns
  and the range indexes use it. The order is that of \<open>cmpNumber\<close> and \<open>cmpString\<close>, the two
  comparators the repository passes.
\<close>

named_theorems oi_simps "facts about ordered indexes"

section \<open>Entries and their order\<close>

definition nodeLess :: "('k::linorder \<times> 'v::linorder) \<Rightarrow> ('k \<times> 'v) \<Rightarrow> bool" where
  "nodeLess a b \<longleftrightarrow> fst a < fst b \<or> (fst a = fst b \<and> snd a < snd b)"

lemma nodeLess_irrefl [simp]: "\<not> nodeLess a a"
  by (simp add: nodeLess_def)

lemma nodeLess_trans: "nodeLess a b \<Longrightarrow> nodeLess b c \<Longrightarrow> nodeLess a c"
  by (auto simp: nodeLess_def)

lemma nodeLess_total: "nodeLess a b \<or> a = b \<or> nodeLess b a"
  by (cases a; cases b) (auto simp: nodeLess_def)

lemma nodeLess_asym: "nodeLess a b \<Longrightarrow> \<not> nodeLess b a"
  by (auto simp: nodeLess_def)

definition oi_sorted :: "('k::linorder \<times> 'v::linorder) list \<Rightarrow> bool" where
  "oi_sorted xs \<longleftrightarrow> sorted_wrt (\<lambda>a b. \<not> nodeLess b a) xs"

definition oi_strict :: "('k::linorder \<times> 'v::linorder) list \<Rightarrow> bool" where
  "oi_strict xs \<longleftrightarrow> sorted_wrt nodeLess xs"

lemma oi_strict_sorted: "oi_strict xs \<Longrightarrow> oi_sorted xs"
  unfolding oi_strict_def oi_sorted_def by (erule sorted_wrt_mono_rel [rotated]) (simp add: nodeLess_asym)

lemma oi_strict_Nil [simp]: "oi_strict []"
  by (simp add: oi_strict_def)

lemma oi_strict_distinct: "oi_strict xs \<Longrightarrow> distinct xs"
  by (induction xs) (auto simp: oi_strict_def)

lemma oi_sorted_keys: "oi_sorted xs \<Longrightarrow> sorted (map fst xs)"
  unfolding oi_sorted_def sorted_map
  by (erule sorted_wrt_mono_rel [rotated]) (auto simp: nodeLess_def not_less)

section \<open>Operations\<close>

definition oi_insert :: "('k::linorder \<times> 'v::linorder) \<Rightarrow> ('k \<times> 'v) list \<Rightarrow> ('k \<times> 'v) list" where
  "oi_insert e xs = takeWhile (\<lambda>a. nodeLess a e) xs @ e # dropWhile (\<lambda>a. nodeLess a e) xs"

definition oi_delete :: "('k::linorder \<times> 'v::linorder) \<Rightarrow> ('k \<times> 'v) list \<Rightarrow> ('k \<times> 'v) list" where
  "oi_delete e xs = remove1 e xs"

text \<open>The options of a range scan; absent bounds and an absent count are \<open>None\<close>.\<close>

record 'k range_options =
  gte :: "'k option"
  gt :: "'k option"
  lte :: "'k option"
  lt :: "'k option"
  roffset :: nat
  rcount :: "nat option"
  rreverse :: bool

definition no_range :: "'k range_options" where
  "no_range = \<lparr> gte = None, gt = None, lte = None, lt = None, roffset = 0, rcount = None,
                rreverse = False \<rparr>"

definition below :: "'k::linorder range_options \<Rightarrow> 'k \<Rightarrow> bool" where
  "below r k \<longleftrightarrow> (case lte r of None \<Rightarrow> True | Some b \<Rightarrow> k \<le> b) \<and>
                (case lt r of None \<Rightarrow> True | Some b \<Rightarrow> k < b)"

definition above :: "'k::linorder range_options \<Rightarrow> 'k \<Rightarrow> bool" where
  "above r k \<longleftrightarrow> (case gte r of None \<Rightarrow> True | Some b \<Rightarrow> b \<le> k) \<and>
                (case gt r of None \<Rightarrow> True | Some b \<Rightarrow> b < k)"

text \<open>
  Where a forward scan starts: with both \<open>gte\<close> and \<open>gt\<close> given, the bound is that of \<open>gte\<close>,
  taken strictly. A reverse scan with both \<open>lte\<close> and \<open>lt\<close> starts at \<open>lte\<close>.
\<close>

definition from_start :: "'k::linorder range_options \<Rightarrow> 'k \<Rightarrow> bool" where
  "from_start r k \<longleftrightarrow>
     (case gte r of
        Some b \<Rightarrow> if gt r \<noteq> None then b < k else b \<le> k
      | None \<Rightarrow> (case gt r of Some b \<Rightarrow> b < k | None \<Rightarrow> True))"

definition from_end :: "'k::linorder range_options \<Rightarrow> 'k \<Rightarrow> bool" where
  "from_end r k \<longleftrightarrow>
     (case lte r of
        Some b \<Rightarrow> k \<le> b
      | None \<Rightarrow> (case lt r of Some b \<Rightarrow> k < b | None \<Rightarrow> True))"

definition window :: "'k range_options \<Rightarrow> 'a list \<Rightarrow> 'a list" where
  "window r xs = (case rcount r of None \<Rightarrow> drop (roffset r) xs
                  | Some n \<Rightarrow> take n (drop (roffset r) xs))"

definition oi_range :: "'k::linorder range_options \<Rightarrow> ('k \<times> 'v) list \<Rightarrow> ('k \<times> 'v) list" where
  "oi_range r xs =
     window r
       (if rreverse r
        then filter (\<lambda>e. from_end r (fst e) \<and> above r (fst e)) (rev xs)
        else filter (\<lambda>e. from_start r (fst e) \<and> below r (fst e)) xs)"

section \<open>Facts\<close>

lemma set_oi_insert [oi_simps, simp]: "set (oi_insert e xs) = insert e (set xs)"
proof -
  have "set xs = set (takeWhile (\<lambda>a. nodeLess a e) xs) \<union> set (dropWhile (\<lambda>a. nodeLess a e) xs)"
    by (metis set_append takeWhile_dropWhile_id)
  then show ?thesis by (auto simp: oi_insert_def)
qed

lemma length_oi_insert [oi_simps, simp]: "length (oi_insert e xs) = Suc (length xs)"
  by (simp add: oi_insert_def)
     (metis length_append takeWhile_dropWhile_id)

lemma dropWhile_head: "dropWhile P xs = y # ys \<Longrightarrow> \<not> P y"
  by (metis hd_dropWhile list.distinct(1) list.sel(1))

lemma sorted_wrt_put_between:
  "sorted_wrt P (t @ d) \<Longrightarrow> (\<And>a. a \<in> set t \<Longrightarrow> P a e) \<Longrightarrow> (\<And>b. b \<in> set d \<Longrightarrow> P e b) \<Longrightarrow>
     sorted_wrt P (t @ e # d)"
  by (auto simp: sorted_wrt_append)

lemma oi_insert_sorted:
  assumes "oi_sorted xs"
  shows "oi_sorted (oi_insert e xs)"
proof -
  let ?t = "takeWhile (\<lambda>a. nodeLess a e) xs" and ?d = "dropWhile (\<lambda>a. nodeLess a e) xs"
  have xs: "sorted_wrt (\<lambda>a b. \<not> nodeLess b a) (?t @ ?d)" using assms by (simp add: oi_sorted_def)
  have t: "nodeLess a e" if "a \<in> set ?t" for a using that by (auto dest: set_takeWhileD)
  have d: "\<not> nodeLess b e" if "b \<in> set ?d" for b
  proof (cases ?d)
    case Nil
    with that show ?thesis by simp
  next
    case (Cons y ys)
    then have y: "\<not> nodeLess y e" by (rule dropWhile_head)
    have "b = y \<or> \<not> nodeLess b y" using xs that unfolding Cons sorted_wrt_append by auto
    with y show ?thesis using nodeLess_total [of y b] nodeLess_trans by blast
  qed
  show ?thesis
    unfolding oi_sorted_def oi_insert_def
    by (rule sorted_wrt_put_between [OF xs]) (use t d nodeLess_asym in blast)+
qed

lemma oi_insert_strict:
  assumes "oi_strict xs" "e \<notin> set xs"
  shows "oi_strict (oi_insert e xs)"
proof -
  let ?t = "takeWhile (\<lambda>a. nodeLess a e) xs" and ?d = "dropWhile (\<lambda>a. nodeLess a e) xs"
  have xs: "sorted_wrt nodeLess (?t @ ?d)" using assms(1) by (simp add: oi_strict_def)
  have t: "nodeLess a e" if "a \<in> set ?t" for a using that by (auto dest: set_takeWhileD)
  have d: "nodeLess e b" if "b \<in> set ?d" for b
  proof (cases ?d)
    case Nil
    with that show ?thesis by simp
  next
    case (Cons y ys)
    then have "\<not> nodeLess y e" by (rule dropWhile_head)
    moreover have "y \<noteq> e" using assms(2) Cons by (metis list.set_intros(1) set_dropWhileD)
    ultimately have y: "nodeLess e y" using nodeLess_total [of e y] by blast
    have "b = y \<or> nodeLess y b" using xs that unfolding Cons sorted_wrt_append by auto
    with y show ?thesis using nodeLess_trans by blast
  qed
  show ?thesis
    unfolding oi_strict_def oi_insert_def
    by (rule sorted_wrt_put_between [OF xs]) (use t d in blast)+
qed

lemma sorted_wrt_remove1: "sorted_wrt P xs \<Longrightarrow> sorted_wrt P (remove1 x xs)"
  by (induction xs) (auto dest: notin_set_remove1 [rotated])

lemma oi_delete_sorted: "oi_sorted xs \<Longrightarrow> oi_sorted (oi_delete e xs)"
  by (simp add: oi_sorted_def oi_delete_def sorted_wrt_remove1)

lemma oi_delete_strict: "oi_strict xs \<Longrightarrow> oi_strict (oi_delete e xs)"
  by (simp add: oi_strict_def oi_delete_def sorted_wrt_remove1)

lemma set_oi_delete: "oi_strict xs \<Longrightarrow> set (oi_delete e xs) = set xs - {e}"
  by (simp add: oi_delete_def oi_strict_distinct)

text \<open>A list that places every key \<open>k\<close> with \<open>g k = Some v\<close> at \<open>v\<close>, and nothing else.\<close>

definition placed :: "('v::linorder \<times> 'k::linorder) list \<Rightarrow> ('k \<Rightarrow> 'v option) \<Rightarrow> bool" where
  "placed xs g \<longleftrightarrow> oi_strict xs \<and> set xs = {(v, k). g k = Some v}"

lemma placed_Nil [simp]: "placed [] g \<longleftrightarrow> g = (\<lambda>k. None)"
  by (auto simp: placed_def fun_eq_iff) (metis not_None_eq)

lemma placed_delete: "placed xs g \<Longrightarrow> g k = Some v \<Longrightarrow> placed (oi_delete (v, k) xs) (g(k := None))"
  by (auto simp: placed_def oi_delete_strict set_oi_delete)

lemma placed_insert: "placed xs g \<Longrightarrow> g k = None \<Longrightarrow> placed (oi_insert (v, k) xs) (g(k := Some v))"
  by (auto simp: placed_def intro!: oi_insert_strict)

lemma placed_empty_iff:
  assumes "placed xs g"
  shows "xs = [] \<longleftrightarrow> g = (\<lambda>k. None)"
proof
  assume "xs = []"
  then show "g = (\<lambda>k. None)" using assms by simp
next
  assume "g = (\<lambda>k. None)"
  then have "set xs = {}" using assms by (simp add: placed_def)
  then show "xs = []" by simp
qed

lemma oi_strict_unique: "oi_strict xs \<Longrightarrow> oi_strict ys \<Longrightarrow> set xs = set ys \<Longrightarrow> xs = ys"
proof (induction xs arbitrary: ys)
  case Nil
  then show ?case by simp
next
  case (Cons x xs)
  from Cons.prems(3) obtain y ys' where ys: "ys = y # ys'" by (cases ys) auto
  have x: "\<forall>b \<in> set xs. nodeLess x b" "oi_strict xs" and y: "\<forall>b \<in> set ys'. nodeLess y b" "oi_strict ys'"
    using Cons.prems(1,2) by (auto simp: oi_strict_def ys)
  have "x = y"
  proof (rule ccontr)
    assume "x \<noteq> y"
    then have "x \<in> set ys'" "y \<in> set xs" using Cons.prems(3) by (auto simp: ys)
    with x y show False using nodeLess_asym by blast
  qed
  moreover have "x \<notin> set xs" "y \<notin> set ys'" using x y by auto
  ultimately have "set xs = set ys'" using Cons.prems(3) by (auto simp: ys)
  then show ?case using Cons.IH x(2) y(2) by (simp add: ys \<open>x = y\<close>)
qed

lemma placed_unique: "placed xs g \<Longrightarrow> placed ys g \<Longrightarrow> xs = ys"
  by (simp add: placed_def oi_strict_unique)

lemma oi_range_Nil [simp]: "oi_range r [] = []"
  by (simp add: oi_range_def window_def split: option.splits)

lemma oi_range_no_range [simp]: "oi_range no_range xs = xs"
  by (simp add: no_range_def oi_range_def from_start_def below_def window_def)

text \<open>The indexes answer (value, key) entries as (key, value) pairs.\<close>

lemma window_swap: "window r (map f xs) = map f (window r xs)"
  by (simp add: window_def take_map drop_map split: option.splits)

lemma filter_swap: "filter (\<lambda>(k, v). P v k) (map prod.swap xs) = map prod.swap (filter (\<lambda>e. P (fst e) (snd e)) xs)"
  by (induction xs) auto

lemma set_oi_range: "rcount r = None \<Longrightarrow> roffset r = 0 \<Longrightarrow> \<not> rreverse r \<Longrightarrow>
    set (oi_range r xs) = {e \<in> set xs. from_start r (fst e) \<and> below r (fst e)}"
  by (auto simp: oi_range_def window_def)

text \<open>Without conflicting bounds a scan returns exactly the entries in range.\<close>

lemma from_start_above: "gte r = None \<or> gt r = None \<Longrightarrow> from_start r k = above r k"
  by (auto simp: from_start_def above_def split: option.splits)

lemma from_end_below: "lte r = None \<or> lt r = None \<Longrightarrow> from_end r k = below r k"
  by (auto simp: from_end_def below_def split: option.splits)

lemma oi_range_exact:
  "gte r = None \<or> gt r = None \<Longrightarrow> lte r = None \<or> lt r = None \<Longrightarrow>
     oi_range r xs = window r (filter (\<lambda>e. above r (fst e) \<and> below r (fst e))
       (if rreverse r then rev xs else xs))"
  by (simp add: oi_range_def from_start_above from_end_below conj_commute)

lemma window_all [simp]: "rcount r = None \<Longrightarrow> roffset r = 0 \<Longrightarrow> window r xs = xs"
  by (simp add: window_def)

section \<open>Keys as strings of UTF-16 code units\<close>

text \<open>
  A canonical key is a string of bytes (\<open>toString('binary')\<close>), compared by code unit.
\<close>

type_synonym kstr = "nat list"

definition toKStr :: "bytes \<Rightarrow> kstr" where
  "toKStr b = map unat b"

definition fromKStr :: "kstr \<Rightarrow> bytes" where
  "fromKStr k = map of_nat k"

definition kstr_ok :: "kstr \<Rightarrow> bool" where
  "kstr_ok k \<longleftrightarrow> list_all (\<lambda>c. c < 256) k"

lemma fromKStr_toKStr [simp]: "fromKStr (toKStr b) = b"
  by (simp add: fromKStr_def toKStr_def o_def)

lemma kstr_ok_toKStr [simp]: "kstr_ok (toKStr b)"
  by (auto simp: kstr_ok_def toKStr_def list_all_iff unat_byte_lt)

lemma toKStr_fromKStr [simp]: "kstr_ok k \<Longrightarrow> toKStr (fromKStr k) = k"
  by (induction k) (auto simp: kstr_ok_def toKStr_def fromKStr_def unat_of_nat)

text \<open>The bounds of a prefix scan enclose exactly the keys with the prefix.\<close>

lemma list_less_append_iff: "(xs::nat list) @ ys < xs @ zs \<longleftrightarrow> ys < zs"
  by (induction xs) auto

lemma prefix_bounds:
  fixes k p :: "nat list"
  assumes "list_all (\<lambda>c. c < 65535) k"
  shows "p \<le> k \<and> k < p @ [65535] \<longleftrightarrow> take (length p) k = p"
  using assms
proof (induction p arbitrary: k)
  case Nil
  then show ?case by (cases k) auto
next
  case (Cons c p)
  show ?case
  proof (cases k)
    case (Cons d k')
    with Cons.IH [of k'] Cons.prems show ?thesis by auto
  qed simp
qed

section \<open>The interface\<close>

text \<open>
  What a client of an index may rely on. \<open>items\<close> lists the entries in order; the choices an
  insertion makes for itself (the levels of a new node) are its first argument.
\<close>

locale ordered_index =
  fixes empty :: "'s"
    and ins :: "'c \<Rightarrow> 'k::linorder \<Rightarrow> 'v::linorder \<Rightarrow> 's \<Rightarrow> 's"
    and del :: "'k \<Rightarrow> 'v \<Rightarrow> 's \<Rightarrow> bool \<times> 's"
    and rng :: "'k range_options \<Rightarrow> 's \<Rightarrow> ('k \<times> 'v) list"
    and items :: "'s \<Rightarrow> ('k \<times> 'v) list"
    and inv :: "'s \<Rightarrow> bool"
  assumes inv_empty: "inv empty" and items_empty: "items empty = []"
    and inv_ins: "inv s \<Longrightarrow> inv (ins c k v s)"
    and items_ins: "inv s \<Longrightarrow> items (ins c k v s) = oi_insert (k, v) (items s)"
    and inv_del: "inv s \<Longrightarrow> inv (snd (del k v s))"
    and items_del: "inv s \<Longrightarrow> items (snd (del k v s)) = oi_delete (k, v) (items s)"
    and del_found: "inv s \<Longrightarrow> fst (del k v s) \<longleftrightarrow> (k, v) \<in> set (items s)"
    and items_sorted: "inv s \<Longrightarrow> oi_sorted (items s)"
    and range_items: "inv s \<Longrightarrow> rng r s = oi_range r (items s)"

text \<open>A client runs inserts and deletes; the same run on the sorted list.\<close>

datatype ('c, 'k, 'v) oi_op = OI_Insert 'c 'k 'v | OI_Delete 'k 'v

fun oi_step ::
  "('c \<Rightarrow> 'k \<Rightarrow> 'v \<Rightarrow> 's \<Rightarrow> 's) \<Rightarrow> ('k \<Rightarrow> 'v \<Rightarrow> 's \<Rightarrow> bool \<times> 's) \<Rightarrow> ('c, 'k, 'v) oi_op \<Rightarrow> 's \<Rightarrow> 's" where
  "oi_step ins del (OI_Insert c k v) s = ins c k v s"
| "oi_step ins del (OI_Delete k v) s = snd (del k v s)"

fun oi_apply :: "('c, 'k::linorder, 'v::linorder) oi_op \<Rightarrow> ('k \<times> 'v) list \<Rightarrow> ('k \<times> 'v) list" where
  "oi_apply (OI_Insert c k v) es = oi_insert (k, v) es"
| "oi_apply (OI_Delete k v) es = oi_delete (k, v) es"

context ordered_index
begin

lemma step_refines:
  assumes "inv s"
  shows "inv (oi_step ins del a s)" "items (oi_step ins del a s) = oi_apply a (items s)"
  using assms by (cases a; simp add: inv_ins inv_del items_ins items_del)+

lemma run_inv: "inv s \<Longrightarrow> inv (fold (oi_step ins del) as s)"
  by (induction as arbitrary: s) (simp_all add: step_refines)

lemma run_refines: "inv s \<Longrightarrow> items (fold (oi_step ins del) as s) = fold oi_apply as (items s)"
  by (induction as arbitrary: s) (simp_all add: step_refines)

lemma run_from_empty:
  "inv (fold (oi_step ins del) as empty)"
  "items (fold (oi_step ins del) as empty) = fold oi_apply as []"
  using run_inv [OF inv_empty] run_refines [OF inv_empty] by (simp_all add: items_empty)

text \<open>A scan without conflicting bounds, offset and count gives the entries in range, in order.\<close>

lemma range_exact:
  assumes "inv s" "gte r = None \<or> gt r = None" "lte r = None \<or> lt r = None"
    "roffset r = 0" "rcount r = None" "\<not> rreverse r"
  shows "rng r s = filter (\<lambda>e. above r (fst e) \<and> below r (fst e)) (items s)"
  using assms by (simp add: range_items oi_range_exact)

lemma moved_entry:
  assumes "inv s" "oi_strict (items s)" "(k', v) \<notin> set (items s)"
  shows "set (items (ins c k' v (snd (del k v s)))) = insert (k', v) (set (items s) - {(k, v)})"
  using assms by (simp add: items_ins items_del inv_del set_oi_delete)

end

text \<open>The sorted list itself is an ordered index; the components above it use it.\<close>

interpretation oi_list: ordered_index "[]" "\<lambda>c k v. oi_insert (k, v)"
  "\<lambda>k v es. ((k, v) \<in> set es, oi_delete (k, v) es)" oi_range "\<lambda>es. es" oi_sorted
  by unfold_locales (simp_all add: oi_insert_sorted oi_delete_sorted oi_sorted_def [of "[]"])

end
