(* ===== verification/SkipList.thy ===== *)
theory SkipList
  imports OrderedIndex
begin

text \<open>
  The skip list of \<open>packages/minidb/src/skiplist.ts\<close> as the code has it: nodes in a heap,
  each with an array of levels (forward pointer and span), a header with all levels, backward
  pointers, the tail, and a search that goes down the levels. The levels a new node gets come
  from a list of coin flips (\<open>Math.random() < P\<close>). The loops that follow pointers carry fuel;
  every use passes one more than the number of nodes, and the refinement shows that this is
  enough. What is proved: every operation implements the sorted list of \<open>OrderedIndex\<close>,
  the spans and backward pointers included.
\<close>

section \<open>State\<close>

definition MAX_LEVEL :: nat where "MAX_LEVEL = 32"

record level =
  forward :: "nat option"
  span :: int

record ('k, 'v) node =
  nkey :: 'k
  nval :: 'v
  backward :: "nat option"
  levels :: "level list"

record ('k, 'v) skiplist =
  hdr :: "level list"
  nodes :: "('k, 'v) node list"
  sl_tail :: "nat option"
  sl_length :: int
  sl_level :: nat

text \<open>A node variable of the code points at the header or at a node of the heap.\<close>

datatype place = Hdr | Nd nat

definition no_level :: level where
  "no_level = \<lparr> forward = None, span = 0 \<rparr>"

definition empty_skiplist :: "('k, 'v) skiplist" where
  "empty_skiplist = \<lparr> hdr = replicate MAX_LEVEL no_level, nodes = [], sl_tail = None,
                      sl_length = 0, sl_level = 1 \<rparr>"

definition lev :: "('k, 'v) skiplist \<Rightarrow> place \<Rightarrow> nat \<Rightarrow> level" where
  "lev sl x i = (case x of Hdr \<Rightarrow> hdr sl ! i | Nd a \<Rightarrow> levels (nodes sl ! a) ! i)"

definition upd_node ::
  "nat \<Rightarrow> (('k, 'v) node \<Rightarrow> ('k, 'v) node) \<Rightarrow> ('k, 'v) skiplist \<Rightarrow> ('k, 'v) skiplist" where
  "upd_node a f sl = sl\<lparr> nodes := (nodes sl)[a := f (nodes sl ! a)] \<rparr>"

definition set_lev :: "place \<Rightarrow> nat \<Rightarrow> level \<Rightarrow> ('k, 'v) skiplist \<Rightarrow> ('k, 'v) skiplist" where
  "set_lev x i l sl =
     (case x of
        Hdr \<Rightarrow> sl\<lparr> hdr := (hdr sl)[i := l] \<rparr>
      | Nd a \<Rightarrow> upd_node a (\<lambda>n. n\<lparr> levels := (levels n)[i := l] \<rparr>) sl)"

definition entry :: "('k, 'v) skiplist \<Rightarrow> nat \<Rightarrow> 'k \<times> 'v" where
  "entry sl a = (nkey (nodes sl ! a), nval (nodes sl ! a))"

definition fuel :: "('k, 'v) skiplist \<Rightarrow> nat" where
  "fuel sl = Suc (length (nodes sl))"

section \<open>Searching\<close>

text \<open>
  The inner loop on level \<open>i\<close>: follow forward pointers while \<open>c\<close> holds of the next node,
  adding up the spans; and the outer loop, from the level below \<open>i\<close> down to 0, with the
  node and the rank reached on every level (the element at index 0 is level 0's).
\<close>

fun advance ::
  "nat \<Rightarrow> ('k, 'v) skiplist \<Rightarrow> ('k \<times> 'v \<Rightarrow> bool) \<Rightarrow> nat \<Rightarrow> place \<Rightarrow> int \<Rightarrow> place \<times> int" where
  "advance 0 sl c i x rk = (x, rk)"
| "advance (Suc n) sl c i x rk =
     (case forward (lev sl x i) of
        None \<Rightarrow> (x, rk)
      | Some f \<Rightarrow>
          if c (entry sl f) then advance n sl c i (Nd f) (rk + span (lev sl x i)) else (x, rk))"

fun descend ::
  "('k, 'v) skiplist \<Rightarrow> ('k \<times> 'v \<Rightarrow> bool) \<Rightarrow> nat \<Rightarrow> place \<Rightarrow> int \<Rightarrow> (place \<times> int) list" where
  "descend sl c 0 x rk = []"
| "descend sl c (Suc i) x rk =
     (case advance (fuel sl) sl c i x rk of (x', rk') \<Rightarrow> descend sl c i x' rk' @ [(x', rk')])"

definition search :: "('k, 'v) skiplist \<Rightarrow> ('k \<times> 'v \<Rightarrow> bool) \<Rightarrow> (place \<times> int) list" where
  "search sl c = descend sl c (sl_level sl) Hdr 0"

section \<open>Insert\<close>

fun randomLevel :: "nat \<Rightarrow> bool list \<Rightarrow> nat" where
  "randomLevel lvl [] = lvl"
| "randomLevel lvl (coin # coins) =
     (if coin \<and> lvl < MAX_LEVEL then randomLevel (lvl + 1) coins else lvl)"

definition link_level ::
  "nat \<Rightarrow> (place \<times> int) list \<Rightarrow> nat \<Rightarrow> ('k, 'v) skiplist \<Rightarrow> ('k, 'v) skiplist" where
  "link_level x path i sl =
     (case path ! i of (u, r) \<Rightarrow>
        let l = lev sl u i; r0 = snd (path ! 0) in
        set_lev u i \<lparr> forward = Some x, span = r0 - r + 1 \<rparr>
          (set_lev (Nd x) i \<lparr> forward = forward l, span = span l - (r0 - r) \<rparr> sl))"

definition widen_level :: "(place \<times> int) list \<Rightarrow> nat \<Rightarrow> ('k, 'v) skiplist \<Rightarrow> ('k, 'v) skiplist" where
  "widen_level path i sl =
     (let u = fst (path ! i); l = lev sl u i in set_lev u i (l\<lparr> span := span l + 1 \<rparr>) sl)"

definition raise_level :: "nat \<Rightarrow> ('k, 'v) skiplist \<Rightarrow> ('k, 'v) skiplist" where
  "raise_level lvl sl =
     (if lvl > sl_level sl then
        (fold (\<lambda>i s. set_lev Hdr i ((lev s Hdr i)\<lparr> span := sl_length s \<rparr>) s) [sl_level sl..<lvl] sl)
          \<lparr> sl_level := lvl \<rparr>
      else sl)"

definition sl_insert ::
  "bool list \<Rightarrow> 'k::linorder \<Rightarrow> 'v::linorder \<Rightarrow> ('k, 'v) skiplist \<Rightarrow> ('k, 'v) skiplist" where
  "sl_insert coins key val sl =
     (let path0 = search sl (\<lambda>e. nodeLess e (key, val));
          lvl = randomLevel 1 coins;
          path = path0 @ replicate (lvl - sl_level sl) (Hdr, 0);
          sl1 = raise_level lvl sl;
          x = length (nodes sl1);
          sl2 = sl1\<lparr> nodes := nodes sl1 @ [\<lparr> nkey = key, nval = val, backward = None,
                                               levels = replicate lvl no_level \<rparr>] \<rparr>;
          sl3 = fold (link_level x path) [0..<lvl] sl2;
          sl4 = fold (widen_level path) [lvl..<sl_level sl3] sl3;
          u0 = fst (path ! 0);
          sl5 = upd_node x (\<lambda>n. n\<lparr> backward := (case u0 of Hdr \<Rightarrow> None | Nd a \<Rightarrow> Some a) \<rparr>) sl4;
          sl6 = (case forward (lev sl5 (Nd x) 0) of
                   Some f \<Rightarrow> upd_node f (\<lambda>n. n\<lparr> backward := Some x \<rparr>) sl5
                 | None \<Rightarrow> sl5\<lparr> sl_tail := Some x \<rparr>)
      in sl6\<lparr> sl_length := sl_length sl6 + 1 \<rparr>)"

section \<open>Delete\<close>

definition unlink_level ::
  "nat \<Rightarrow> (place \<times> int) list \<Rightarrow> nat \<Rightarrow> ('k, 'v) skiplist \<Rightarrow> ('k, 'v) skiplist" where
  "unlink_level x path i sl =
     (let u = fst (path ! i); l = lev sl u i in
      if forward l = Some x then
        set_lev u i \<lparr> forward = forward (lev sl (Nd x) i), span = span l + (span (lev sl (Nd x) i) - 1) \<rparr> sl
      else set_lev u i (l\<lparr> span := span l - 1 \<rparr>) sl)"

fun lower_level :: "level list \<Rightarrow> nat \<Rightarrow> nat" where
  "lower_level h 0 = 0"
| "lower_level h (Suc n) =
     (if Suc n > 1 \<and> forward (h ! n) = None then lower_level h n else Suc n)"

definition deleteNode :: "nat \<Rightarrow> (place \<times> int) list \<Rightarrow> ('k, 'v) skiplist \<Rightarrow> ('k, 'v) skiplist" where
  "deleteNode x path sl =
     (let sl1 = fold (unlink_level x path) [0..<sl_level sl] sl;
          sl2 = (case forward (lev sl1 (Nd x) 0) of
                   Some f \<Rightarrow> upd_node f (\<lambda>n. n\<lparr> backward := backward (nodes sl1 ! x) \<rparr>) sl1
                 | None \<Rightarrow> sl1\<lparr> sl_tail := backward (nodes sl1 ! x) \<rparr>);
          sl3 = sl2\<lparr> sl_level := lower_level (hdr sl2) (sl_level sl2) \<rparr>
      in sl3\<lparr> sl_length := sl_length sl3 - 1 \<rparr>)"

definition sl_delete ::
  "'k::linorder \<Rightarrow> 'v::linorder \<Rightarrow> ('k, 'v) skiplist \<Rightarrow> bool \<times> ('k, 'v) skiplist" where
  "sl_delete key val sl =
     (let path = search sl (\<lambda>e. nodeLess e (key, val)) in
      case forward (lev sl (fst (path ! 0)) 0) of
        None \<Rightarrow> (False, sl)
      | Some x \<Rightarrow> if entry sl x = (key, val) then (True, deleteNode x path sl) else (False, sl))"

section \<open>Rank and range\<close>

definition lowerBound :: "'k::linorder \<Rightarrow> bool \<Rightarrow> ('k, 'v) skiplist \<Rightarrow> nat option" where
  "lowerBound bound strict sl =
     forward (lev sl (fst (search sl (\<lambda>(k, v). if strict then k \<le> bound else k < bound) ! 0)) 0)"

definition getRank :: "'k::linorder \<Rightarrow> 'v::linorder \<Rightarrow> ('k, 'v) skiplist \<Rightarrow> int option" where
  "getRank key val sl =
     (case search sl (\<lambda>e. nodeLess e (key, val) \<or> e = (key, val)) ! 0 of
        (Hdr, rank) \<Rightarrow> None
      | (Nd a, rank) \<Rightarrow> if entry sl a = (key, val) then Some (rank - 1) else None)"

fun rank_advance ::
  "nat \<Rightarrow> ('k, 'v) skiplist \<Rightarrow> int \<Rightarrow> nat \<Rightarrow> place \<Rightarrow> int \<Rightarrow> place \<times> int" where
  "rank_advance 0 sl target i x traversed = (x, traversed)"
| "rank_advance (Suc n) sl target i x traversed =
     (case forward (lev sl x i) of
        None \<Rightarrow> (x, traversed)
      | Some f \<Rightarrow>
          if traversed + span (lev sl x i) \<le> target
          then rank_advance n sl target i (Nd f) (traversed + span (lev sl x i))
          else (x, traversed))"

fun rank_descend ::
  "('k, 'v) skiplist \<Rightarrow> int \<Rightarrow> nat \<Rightarrow> place \<Rightarrow> int \<Rightarrow> place option" where
  "rank_descend sl target 0 x traversed = None"
| "rank_descend sl target (Suc i) x traversed =
     (case rank_advance (fuel sl) sl target i x traversed of
        (x', t') \<Rightarrow> if t' = target then Some x' else rank_descend sl target i x' t')"

definition getByRank :: "int \<Rightarrow> ('k, 'v) skiplist \<Rightarrow> ('k \<times> 'v) option" where
  "getByRank rank sl =
     (if rank < 0 \<or> rank \<ge> sl_length sl then None
      else case rank_descend sl (rank + 1) (sl_level sl) Hdr 0 of
        Some (Nd a) \<Rightarrow> Some (entry sl a)
      | _ \<Rightarrow> None)"

definition dec :: "nat option \<Rightarrow> nat option" where
  "dec n = map_option (\<lambda>k. k - 1) n"

text \<open>The loop of a scan: stop out of bounds, skip the offset, stop when the count is used up.\<close>

fun walk ::
  "nat \<Rightarrow> ('k, 'v) skiplist \<Rightarrow> (nat \<Rightarrow> nat option) \<Rightarrow> ('k \<Rightarrow> bool) \<Rightarrow> nat option \<Rightarrow> nat \<Rightarrow> nat option \<Rightarrow>
     ('k \<times> 'v) list" where
  "walk 0 sl step ok x offset cnt = []"
| "walk (Suc n) sl step ok x offset cnt =
     (case x of
        None \<Rightarrow> []
      | Some a \<Rightarrow>
          if \<not> ok (nkey (nodes sl ! a)) then []
          else if offset > 0 then walk n sl step ok (step a) (offset - 1) cnt
          else if cnt \<noteq> Some 0 then entry sl a # walk n sl step ok (step a) offset (dec cnt)
          else [])"

definition range_start :: "'k::linorder range_options \<Rightarrow> ('k, 'v) skiplist \<Rightarrow> nat option" where
  "range_start r sl =
     (if gte r \<noteq> None \<or> gt r \<noteq> None
      then lowerBound (case gte r of Some b \<Rightarrow> b | None \<Rightarrow> the (gt r)) (gt r \<noteq> None) sl
      else forward (lev sl Hdr 0))"

definition range_end :: "'k::linorder range_options \<Rightarrow> ('k, 'v) skiplist \<Rightarrow> nat option" where
  "range_end r sl =
     (let before = (\<lambda>after. case after of Some a \<Rightarrow> backward (nodes sl ! a) | None \<Rightarrow> sl_tail sl) in
      case lte r of
        Some b \<Rightarrow> before (lowerBound b True sl)
      | None \<Rightarrow> (case lt r of
          Some b \<Rightarrow> before (lowerBound b False sl)
        | None \<Rightarrow> sl_tail sl))"

definition sl_range :: "'k::linorder range_options \<Rightarrow> ('k, 'v) skiplist \<Rightarrow> ('k \<times> 'v) list" where
  "sl_range r sl =
     (if rreverse r
      then walk (fuel sl) sl (\<lambda>a. backward (nodes sl ! a)) (above r) (range_end r sl)
             (roffset r) (rcount r)
      else walk (fuel sl) sl (\<lambda>a. forward (lev sl (Nd a) 0)) (below r) (range_start r sl)
             (roffset r) (rcount r))"

text \<open>
  The generator \<open>iterate\<close>: its state is the node it stands at with the offset and the count left.
  \<open>iter_next\<close> resumes it until the next entry or the end; \<open>iter_take\<close> is a caller that asks for
  at most \<open>m\<close> entries.
\<close>

type_synonym iter = "nat option \<times> nat \<times> nat option"

definition iter_start :: "'k::linorder range_options \<Rightarrow> ('k, 'v) skiplist \<Rightarrow> iter" where
  "iter_start r sl = (if rreverse r then range_end r sl else range_start r sl, roffset r, rcount r)"

definition iter_step :: "'k range_options \<Rightarrow> ('k, 'v) skiplist \<Rightarrow> nat \<Rightarrow> nat option" where
  "iter_step r sl a = (if rreverse r then backward (nodes sl ! a) else forward (lev sl (Nd a) 0))"

definition iter_ok :: "'k::linorder range_options \<Rightarrow> 'k \<Rightarrow> bool" where
  "iter_ok r k = (if rreverse r then above r k else below r k)"

fun iter_next ::
  "nat \<Rightarrow> 'k::linorder range_options \<Rightarrow> ('k, 'v) skiplist \<Rightarrow> iter \<Rightarrow> (('k \<times> 'v) \<times> iter) option" where
  "iter_next 0 r sl st = None"
| "iter_next (Suc n) r sl (x, offset, cnt) =
     (case x of
        None \<Rightarrow> None
      | Some a \<Rightarrow>
          if \<not> iter_ok r (nkey (nodes sl ! a)) then None
          else if offset > 0 then iter_next n r sl (iter_step r sl a, offset - 1, cnt)
          else if cnt \<noteq> Some 0 then Some (entry sl a, (iter_step r sl a, offset, dec cnt))
          else None)"

fun iter_take :: "nat \<Rightarrow> 'k::linorder range_options \<Rightarrow> ('k, 'v) skiplist \<Rightarrow> iter \<Rightarrow> ('k \<times> 'v) list" where
  "iter_take 0 r sl st = []"
| "iter_take (Suc m) r sl st =
     (case iter_next (fuel sl) r sl st of None \<Rightarrow> [] | Some (e, st') \<Rightarrow> e # iter_take m r sl st')"

definition toArray :: "('k, 'v) skiplist \<Rightarrow> ('k \<times> 'v) list" where
  "toArray sl = walk (fuel sl) sl (\<lambda>a. forward (lev sl (Nd a) 0)) (\<lambda>k. True)
                  (forward (lev sl Hdr 0)) 0 None"

section \<open>Cells\<close>

text \<open>The number of levels at a place that can be read and written.\<close>

definition nlev :: "('k, 'v) skiplist \<Rightarrow> place \<Rightarrow> nat" where
  "nlev sl x = (case x of Hdr \<Rightarrow> length (hdr sl)
     | Nd a \<Rightarrow> if a < length (nodes sl) then length (levels (nodes sl ! a)) else 0)"

lemma nth_list_update_any:
  "xs[i := x] ! j = (if i = j \<and> i < length xs then x else xs ! j)"
  by (cases "i < length xs") (auto simp: nth_list_update list_update_beyond)

lemma lev_set_lev:
  "i < nlev sl x \<Longrightarrow> lev (set_lev x i l sl) y j = (if y = x \<and> j = i then l else lev sl y j)"
  by (cases x; cases y) (auto simp: lev_def set_lev_def nlev_def upd_node_def nth_list_update_any split: if_splits)

lemma nlev_set_lev [simp]: "nlev (set_lev x i l sl) y = nlev sl y"
  by (cases x; cases y) (auto simp: set_lev_def nlev_def upd_node_def nth_list_update_any)

lemma set_lev_frame [simp]:
  "length (nodes (set_lev x i l sl)) = length (nodes sl)"
  "nkey (nodes (set_lev x i l sl) ! a) = nkey (nodes sl ! a)"
  "nval (nodes (set_lev x i l sl) ! a) = nval (nodes sl ! a)"
  "backward (nodes (set_lev x i l sl) ! a) = backward (nodes sl ! a)"
  "length (levels (nodes (set_lev x i l sl) ! a)) = length (levels (nodes sl ! a))"
  "length (hdr (set_lev x i l sl)) = length (hdr sl)"
  "sl_tail (set_lev x i l sl) = sl_tail sl" "sl_length (set_lev x i l sl) = sl_length sl"
  "sl_level (set_lev x i l sl) = sl_level sl"
  by (cases x; simp add: set_lev_def upd_node_def nth_list_update_any)+

text \<open>Everything but the levels is the same in two states.\<close>

definition same_frame :: "('k, 'v) skiplist \<Rightarrow> ('k, 'v) skiplist \<Rightarrow> bool" where
  "same_frame sl sl' \<longleftrightarrow>
     length (nodes sl') = length (nodes sl) \<and> length (hdr sl') = length (hdr sl) \<and>
     (\<forall>a. nkey (nodes sl' ! a) = nkey (nodes sl ! a) \<and> nval (nodes sl' ! a) = nval (nodes sl ! a) \<and>
        backward (nodes sl' ! a) = backward (nodes sl ! a) \<and>
        length (levels (nodes sl' ! a)) = length (levels (nodes sl ! a))) \<and>
     sl_tail sl' = sl_tail sl \<and> sl_length sl' = sl_length sl \<and> sl_level sl' = sl_level sl"

lemma same_frame_refl [simp]: "same_frame sl sl"
  by (simp add: same_frame_def)

lemma same_frame_trans: "same_frame a b \<Longrightarrow> same_frame b c \<Longrightarrow> same_frame a c"
  by (simp add: same_frame_def)

lemma same_frame_set_lev [simp]: "same_frame sl (set_lev x i l sl)"
  by (simp add: same_frame_def)

lemma same_frame_fold: "(\<And>i s. same_frame s (f i s)) \<Longrightarrow> same_frame sl (fold f is sl)"
  by (induction "is" arbitrary: sl) (auto intro: same_frame_trans)

lemma same_frame_nlev: "same_frame sl sl' \<Longrightarrow> nlev sl' y = nlev sl y"
  by (cases y) (simp_all add: same_frame_def nlev_def)

lemma same_frame_entry: "same_frame sl sl' \<Longrightarrow> entry sl' = entry sl"
  by (rule ext) (simp add: same_frame_def entry_def)

section \<open>The abstraction\<close>

text \<open>
  The nodes of the list by position: the header is position 0, the node at address
  \<open>ps ! j\<close> is position \<open>j + 1\<close>. On level \<open>i\<close> a place points at the next position whose node
  has more than \<open>i\<close> levels, and the span is the distance there, or to the last position.
\<close>

definition atp :: "nat list \<Rightarrow> nat \<Rightarrow> place" where
  "atp ps p = (if p = 0 then Hdr else Nd (ps ! (p - 1)))"

definition hgt :: "('k, 'v) skiplist \<Rightarrow> nat list \<Rightarrow> nat \<Rightarrow> nat" where
  "hgt sl ps p = (if p = 0 then sl_level sl else length (levels (nodes sl ! (ps ! (p - 1)))))"

definition next_pos :: "(nat \<Rightarrow> nat) \<Rightarrow> nat \<Rightarrow> nat \<Rightarrow> nat \<Rightarrow> nat option \<Rightarrow> bool" where
  "next_pos h n i p qo \<longleftrightarrow>
     (case qo of
        None \<Rightarrow> (\<forall>q. p < q \<and> q \<le> n \<longrightarrow> h q \<le> i)
      | Some q \<Rightarrow> p < q \<and> q \<le> n \<and> i < h q \<and> (\<forall>j. p < j \<and> j < q \<longrightarrow> h j \<le> i))"

definition cell_ok :: "nat list \<Rightarrow> (nat \<Rightarrow> nat) \<Rightarrow> nat \<Rightarrow> nat \<Rightarrow> level \<Rightarrow> bool" where
  "cell_ok ps h i p l \<longleftrightarrow>
     (\<exists>qo. next_pos h (length ps) i p qo \<and> forward l = map_option (\<lambda>q. ps ! (q - 1)) qo \<and>
        span l = int (case qo of None \<Rightarrow> length ps | Some q \<Rightarrow> q) - int p)"

definition cells_ok :: "('k, 'v) skiplist \<Rightarrow> nat list \<Rightarrow> bool" where
  "cells_ok sl ps \<longleftrightarrow>
     (\<forall>p \<le> length ps. \<forall>i < hgt sl ps p. cell_ok ps (hgt sl ps) i p (lev sl (atp ps p) i))"

definition shape_ok :: "('k, 'v) skiplist \<Rightarrow> nat list \<Rightarrow> bool" where
  "shape_ok sl ps \<longleftrightarrow>
     distinct ps \<and> (\<forall>a \<in> set ps. a < length (nodes sl) \<and> 1 \<le> length (levels (nodes sl ! a)) \<and>
       length (levels (nodes sl ! a)) \<le> sl_level sl) \<and>
     length (hdr sl) = MAX_LEVEL \<and> 1 \<le> sl_level sl \<and> sl_level sl \<le> MAX_LEVEL \<and>
     (\<forall>i. sl_level sl \<le> i \<and> i < MAX_LEVEL \<longrightarrow> forward (hdr sl ! i) = None) \<and>
     sl_length sl = int (length ps)"

definition back_ok :: "('k, 'v) skiplist \<Rightarrow> nat list \<Rightarrow> bool" where
  "back_ok sl ps \<longleftrightarrow>
     (\<forall>j < length ps. backward (nodes sl ! (ps ! j)) = (if j = 0 then None else Some (ps ! (j - 1)))) \<and>
     sl_tail sl = (if ps = [] then None else Some (last ps))"

definition sl_rep :: "('k::linorder, 'v::linorder) skiplist \<Rightarrow> nat list \<Rightarrow> bool" where
  "sl_rep sl ps \<longleftrightarrow> shape_ok sl ps \<and> cells_ok sl ps \<and> back_ok sl ps \<and> oi_sorted (map (entry sl) ps)"

lemma empty_rep: "sl_rep empty_skiplist []"
  by (auto simp: sl_rep_def shape_ok_def cells_ok_def back_ok_def cell_ok_def empty_skiplist_def
      no_level_def hgt_def lev_def atp_def next_pos_def oi_sorted_def MAX_LEVEL_def
      intro!: exI [of _ None])

lemma atp_0 [simp]: "atp ps 0 = Hdr" and atp_Suc [simp]: "atp ps (Suc j) = Nd (ps ! j)"
  by (simp_all add: atp_def)

lemma hgt_0 [simp]: "hgt sl ps 0 = sl_level sl"
  and hgt_Suc [simp]: "hgt sl ps (Suc j) = length (levels (nodes sl ! (ps ! j)))"
  by (simp_all add: hgt_def)

lemma next_pos_unique: "next_pos h n i p a \<Longrightarrow> next_pos h n i p b \<Longrightarrow> a = b"
  by (cases a; cases b; simp add: next_pos_def) (meson leD linorder_neqE_nat)+

lemma next_pos_cong:
  assumes "\<And>q. p < q \<Longrightarrow> q \<le> n \<Longrightarrow> h q = h' q"
  shows "next_pos h n i p qo = next_pos h' n i p qo"
proof (cases qo)
  case None
  then show ?thesis using assms by (auto simp: next_pos_def)
next
  case (Some q)
  have "(\<forall>j. p < j \<and> j < q \<longrightarrow> h j \<le> i) = (\<forall>j. p < j \<and> j < q \<longrightarrow> h' j \<le> i)" if "q \<le> n"
    using assms that by auto
  with Some assms [of q] show ?thesis by (auto simp: next_pos_def)
qed

lemma cell_ok_cong:
  "(\<And>q. p < q \<Longrightarrow> q \<le> length ps \<Longrightarrow> h q = h' q) \<Longrightarrow> cell_ok ps h i p l = cell_ok ps h' i p l"
  using next_pos_cong [of p "length ps" h h'] by (simp add: cell_ok_def)

lemma atp_inj: "distinct ps \<Longrightarrow> p \<le> length ps \<Longrightarrow> q \<le> length ps \<Longrightarrow> atp ps p = atp ps q \<longleftrightarrow> p = q"
  by (auto simp: atp_def nth_eq_iff_index_eq)

lemma hgt_nlev:
  assumes "shape_ok sl ps" "p \<le> length ps"
  shows "hgt sl ps p \<le> nlev sl (atp ps p)"
  using assms by (cases p) (auto simp: shape_ok_def nlev_def)

lemma hgt_pos:
  assumes "shape_ok sl ps" "p \<le> length ps"
  shows "0 < hgt sl ps p" "hgt sl ps p \<le> sl_level sl"
proof -
  have "ps ! (p - 1) \<in> set ps" if "0 < p" using that assms(2) by (intro nth_mem) simp
  with assms(1) show "0 < hgt sl ps p" "hgt sl ps p \<le> sl_level sl"
    by (auto simp: shape_ok_def hgt_def Suc_le_eq)
qed

section \<open>Searching finds the predecessors\<close>

text \<open>The last position up to \<open>r\<close> that has level \<open>i\<close>.\<close>

definition is_pred :: "(nat \<Rightarrow> nat) \<Rightarrow> nat \<Rightarrow> nat \<Rightarrow> nat \<Rightarrow> bool" where
  "is_pred h r i p \<longleftrightarrow> p \<le> r \<and> i < h p \<and> (\<forall>q. p < q \<and> q \<le> r \<longrightarrow> h q \<le> i)"

lemma is_pred_unique: "is_pred h r i p \<Longrightarrow> is_pred h r i q \<Longrightarrow> p = q"
  unfolding is_pred_def by (meson leD linorder_neqE_nat)

definition splits_at :: "('k \<times> 'v \<Rightarrow> bool) \<Rightarrow> ('k \<times> 'v) list \<Rightarrow> nat \<Rightarrow> bool" where
  "splits_at c es r \<longleftrightarrow> r \<le> length es \<and> (\<forall>j < length es. c (es ! j) \<longleftrightarrow> j < r)"

lemma advance_spec:
  assumes cells: "cells_ok sl ps" and split: "splits_at c (map (entry sl) ps) r"
  shows "p \<le> r \<Longrightarrow> i < hgt sl ps p \<Longrightarrow> r - p < fl \<Longrightarrow>
    \<exists>p'. advance fl sl c i (atp ps p) (int p) = (atp ps p', int p') \<and> is_pred (hgt sl ps) r i p'"
proof (induction fl arbitrary: p)
  case (Suc fl)
  have r: "r \<le> length ps" using split by (simp add: splits_at_def)
  then have "cell_ok ps (hgt sl ps) i p (lev sl (atp ps p) i)"
    using cells Suc.prems by (simp add: cells_ok_def)
  then obtain qo where nx: "next_pos (hgt sl ps) (length ps) i p qo"
    and fwd: "forward (lev sl (atp ps p) i) = map_option (\<lambda>q. ps ! (q - 1)) qo"
    and spn: "span (lev sl (atp ps p) i) = int (case qo of None \<Rightarrow> length ps | Some q \<Rightarrow> q) - int p"
    by (auto simp: cell_ok_def)
  show ?case
  proof (cases qo)
    case None
    with nx Suc.prems r have "is_pred (hgt sl ps) r i p" by (auto simp: next_pos_def is_pred_def)
    with None fwd show ?thesis by (intro exI [of _ p]) simp
  next
    case (Some q)
    with nx have q: "p < q" "q \<le> length ps" "i < hgt sl ps q"
      "\<And>j. p < j \<Longrightarrow> j < q \<Longrightarrow> hgt sl ps j \<le> i" by (auto simp: next_pos_def)
    have c: "c (entry sl (ps ! (q - 1))) \<longleftrightarrow> q \<le> r"
      using split q by (auto simp: splits_at_def)
    show ?thesis
    proof (cases "q \<le> r")
      case True
      have atq: "Nd (ps ! (q - 1)) = atp ps q" using q(1) by (simp add: atp_def)
      have "advance (Suc fl) sl c i (atp ps p) (int p) = advance fl sl c i (atp ps q) (int q)"
        using fwd spn Some c True by (simp flip: atq)
      with Suc.IH [of q] True q Suc.prems(3) show ?thesis by auto
    next
      case False
      with q Suc.prems have "is_pred (hgt sl ps) r i p" by (auto simp: is_pred_def)
      with False fwd Some c show ?thesis by (intro exI [of _ p]) simp
    qed
  qed
qed simp

definition path_ok :: "('k, 'v) skiplist \<Rightarrow> nat list \<Rightarrow> nat \<Rightarrow> nat \<Rightarrow> (place \<times> int) list \<Rightarrow> bool" where
  "path_ok sl ps r m path \<longleftrightarrow>
     length path = m \<and> (\<forall>i < m. \<exists>p. path ! i = (atp ps p, int p) \<and> is_pred (hgt sl ps) r i p)"

lemma descend_spec:
  assumes cells: "cells_ok sl ps" and split: "splits_at c (map (entry sl) ps) r"
    and fuel: "r < fuel sl"
  shows "p \<le> r \<Longrightarrow> m \<le> hgt sl ps p \<Longrightarrow> path_ok sl ps r m (descend sl c m (atp ps p) (int p))"
proof (induction m arbitrary: p)
  case (Suc m)
  obtain p' where p': "advance (fuel sl) sl c m (atp ps p) (int p) = (atp ps p', int p')"
      "is_pred (hgt sl ps) r m p'"
    using advance_spec [OF cells split Suc.prems(1), of m "fuel sl"] Suc.prems
      less_imp_diff_less [OF fuel, of p] by auto
  have "path_ok sl ps r m (descend sl c m (atp ps p') (int p'))"
    by (rule Suc.IH) (use p'(2) in \<open>auto simp: is_pred_def\<close>)
  with p' show ?case by (auto simp: path_ok_def nth_append less_Suc_eq)
qed (simp add: path_ok_def)

lemma fuel_enough: "shape_ok sl ps \<Longrightarrow> length ps < fuel sl"
proof -
  assume s: "shape_ok sl ps"
  then have "card (set ps) \<le> card {..<length (nodes sl)}" by (intro card_mono) (auto simp: shape_ok_def)
  with s show ?thesis by (simp add: shape_ok_def distinct_card fuel_def)
qed

lemma search_spec:
  assumes "shape_ok sl ps" "cells_ok sl ps" "splits_at c (map (entry sl) ps) r"
  shows "path_ok sl ps r (sl_level sl) (search sl c)"
proof -
  have "r < fuel sl" using fuel_enough [OF assms(1)] assms(3) by (simp add: splits_at_def)
  from descend_spec [OF assms(2,3) this, of 0 "sl_level sl"] show ?thesis by (simp add: search_def)
qed

text \<open>Level 0 ends at \<open>r\<close> itself: every node has level 0.\<close>

lemma is_pred_0:
  assumes "shape_ok sl ps" "r \<le> length ps"
  shows "is_pred (hgt sl ps) r 0 p \<longleftrightarrow> p = r"
proof -
  have "is_pred (hgt sl ps) r 0 r" using hgt_pos(1) [OF assms] by (simp add: is_pred_def)
  then show ?thesis using is_pred_unique by blast
qed

lemma search_0:
  assumes "shape_ok sl ps" "cells_ok sl ps" "splits_at c (map (entry sl) ps) r"
  shows "search sl c ! 0 = (atp ps r, int r)"
proof -
  have r: "r \<le> length ps" using assms(3) by (simp add: splits_at_def)
  have "0 < sl_level sl" using assms(1) by (simp add: shape_ok_def)
  with search_spec [OF assms] is_pred_0 [OF assms(1) r] show ?thesis by (auto simp: path_ok_def)
qed

lemma forward_0:
  assumes "shape_ok sl ps" "cells_ok sl ps" "p \<le> length ps"
  shows "forward (lev sl (atp ps p) 0) = (if p < length ps then Some (ps ! p) else None)"
proof -
  have "cell_ok ps (hgt sl ps) 0 p (lev sl (atp ps p) 0)"
    using assms hgt_pos(1) [OF assms(1,3)] by (simp add: cells_ok_def)
  then obtain qo where nx: "next_pos (hgt sl ps) (length ps) 0 p qo"
    and fwd: "forward (lev sl (atp ps p) 0) = map_option (\<lambda>q. ps ! (q - 1)) qo"
    by (auto simp: cell_ok_def)
  have "next_pos (hgt sl ps) (length ps) 0 p (if p < length ps then Some (p + 1) else None)"
    using assms(3) hgt_pos(1) [OF assms(1), of "p + 1"] by (auto simp: next_pos_def)
  from next_pos_unique [OF nx this] fwd show ?thesis by auto
qed

section \<open>Insertion refines\<close>

text \<open>Where positions go when a node is put behind position \<open>r\<close>.\<close>

definition ins :: "nat \<Rightarrow> nat \<Rightarrow> nat" where
  "ins r p = (if p \<le> r then p else Suc p)"

definition put_at :: "nat \<Rightarrow> 'a \<Rightarrow> 'a list \<Rightarrow> 'a list" where
  "put_at r x ps = take r ps @ x # drop r ps"

lemma length_put_at [simp]: "r \<le> length ps \<Longrightarrow> length (put_at r x ps) = Suc (length ps)"
  by (simp add: put_at_def)

lemma nth_put_at:
  "r \<le> length ps \<Longrightarrow> j \<le> length ps \<Longrightarrow>
     put_at r x ps ! j = (if j < r then ps ! j else if j = r then x else ps ! (j - 1))"
  by (auto simp: put_at_def nth_append nth_Cons' min_def)

lemma set_put_at [simp]: "set (put_at r x ps) = insert x (set ps)"
proof -
  have "set ps = set (take r ps) \<union> set (drop r ps)" by (metis append_take_drop_id set_append)
  then show ?thesis by (auto simp: put_at_def)
qed

lemma distinct_put_at:
  assumes "distinct ps" "x \<notin> set ps"
  shows "distinct (put_at r x ps)"
proof -
  have "set (take r ps) \<inter> set (drop r ps) = {}"
    using assms(1) by (rule set_take_disj_set_drop_if_distinct) simp
  moreover have "x \<notin> set (take r ps)" "x \<notin> set (drop r ps)"
    using assms(2) by (auto dest: in_set_takeD in_set_dropD)
  moreover have "distinct (take r ps)" "distinct (drop r ps)" using assms(1) by simp_all
  ultimately show ?thesis
    unfolding put_at_def distinct_append distinct.simps list.set by blast
qed

lemma atp_put_ins:
  "r \<le> length ps \<Longrightarrow> p \<le> length ps \<Longrightarrow> atp (put_at r x ps) (ins r p) = atp ps p"
  by (auto simp: atp_def ins_def nth_put_at)

lemma atp_put_new: "r \<le> length ps \<Longrightarrow> atp (put_at r x ps) (Suc r) = Nd x"
  by (simp add: nth_put_at)

lemma ins_cases:
  assumes "p' \<le> Suc n" "r \<le> n"
  obtains "p' = Suc r" | p where "p \<le> n" "p' = ins r p"
proof (cases "p' \<le> r")
  case True
  with assms that(2) [of p'] show thesis by (simp add: ins_def)
next
  case False
  show thesis
  proof (cases "p' = Suc r")
    case False
    with \<open>\<not> p' \<le> r\<close> have "p' - 1 \<le> n" "p' = ins r (p' - 1)" using assms by (auto simp: ins_def)
    then show thesis by (rule that(2))
  qed (rule that(1))
qed

text \<open>The heights after the insertion, and the next positions with them.\<close>

definition ins_height :: "(nat \<Rightarrow> nat) \<Rightarrow> nat \<Rightarrow> nat \<Rightarrow> nat \<Rightarrow> nat" where
  "ins_height h r l p = (if p \<le> r then h p else if p = Suc r then l else h (p - 1))"

lemma ins_height_ins [simp]: "ins_height h r l (ins r p) = h p"
  by (auto simp: ins_height_def ins_def)

lemma ins_height_new [simp]: "ins_height h r l (Suc r) = l"
  by (simp add: ins_height_def)

lemma ins_less: "ins r p < ins r q \<longleftrightarrow> p < q"
  by (auto simp: ins_def)

lemma ins_ne: "ins r p \<noteq> Suc r"
  by (auto simp: ins_def)

lemma ball_positions:
  "r \<le> n \<Longrightarrow> (\<forall>q. ins r p < q \<and> q \<le> Suc n \<longrightarrow> P q) \<longleftrightarrow>
     (p \<le> r \<longrightarrow> P (Suc r)) \<and> (\<forall>q. p < q \<and> q \<le> n \<longrightarrow> P (ins r q))"
proof -
  assume r: "r \<le> n"
  have n: "ins r q \<le> Suc n \<longleftrightarrow> q \<le> n" for q using r by (auto simp: ins_def)
  have new: "ins r p < Suc r \<longleftrightarrow> p \<le> r" by (auto simp: ins_def)
  show ?thesis
  proof (intro iffI conjI impI allI)
    fix q assume a: "(p \<le> r \<longrightarrow> P (Suc r)) \<and> (\<forall>q. p < q \<and> q \<le> n \<longrightarrow> P (ins r q))"
      and q: "ins r p < q \<and> q \<le> Suc n"
    show "P q"
    proof (cases rule: ins_cases [OF conjunct2 [OF q] r])
      case 1
      with a q new show ?thesis by simp
    next
      case (2 k)
      with a q ins_less show ?thesis by simp
    qed
  qed (use r new n ins_less in auto)
qed

lemma next_pos_ins:
  assumes nx: "next_pos h n i p qo" and r: "r \<le> n"
    and skip: "p \<le> r \<longrightarrow> l \<le> i \<or> (\<exists>q. qo = Some q \<and> q \<le> r)"
  shows "next_pos (ins_height h r l) (Suc n) i (ins r p) (map_option (ins r) qo)"
proof (cases qo)
  case None
  then show ?thesis using nx skip ball_positions [OF r] by (simp add: next_pos_def)
next
  case (Some q)
  with nx have q: "p < q" "q \<le> n" "i < h q" "\<forall>j. p < j \<and> j < q \<longrightarrow> h j \<le> i"
    by (auto simp: next_pos_def)
  have "ins_height h r l j \<le> i" if j: "ins r p < j" "j < ins r q" for j
  proof -
    consider "j \<le> r" | "j = Suc r" | "Suc r < j" by linarith
    then show ?thesis
    proof cases
      case 1
      then have "p < j" "j < q" using j by (auto simp: ins_def split: if_splits)
      with 1 q(4) show ?thesis by (simp add: ins_height_def)
    next
      case 2
      with j skip Some show ?thesis by (auto simp: ins_def split: if_splits)
    next
      case 3
      then have "p < j - 1" "j - 1 < q" using j by (auto simp: ins_def split: if_splits)
      with 3 q(4) show ?thesis by (simp add: ins_height_def)
    qed
  qed
  moreover have "ins r q \<le> Suc n" using q(2) by (simp add: ins_def)
  ultimately show ?thesis using q Some by (simp add: next_pos_def ins_less)
qed

lemma next_pos_ins_pred:
  assumes pr: "is_pred h r i p" and r: "r \<le> n" and il: "i < l"
  shows "next_pos (ins_height h r l) (Suc n) i (ins r p) (Some (Suc r))"
proof -
  have "ins_height h r l j \<le> i" if "p < j" "j < Suc r" for j
    using pr that by (auto simp: is_pred_def ins_height_def)
  then show ?thesis using pr r il by (auto simp: next_pos_def is_pred_def ins_def)
qed

lemma next_pos_new:
  assumes nx: "next_pos h n i p qo" and pr: "is_pred h r i p" and r: "r \<le> n"
  shows "next_pos (ins_height h r l) (Suc n) i (Suc r) (map_option (ins r) qo)"
proof (cases qo)
  case None
  have "ins_height h r l q \<le> i" if "Suc r < q" "q \<le> Suc n" for q
  proof -
    have "p < q - 1" "q - 1 \<le> n" using pr that by (auto simp: is_pred_def)
    with nx None that show ?thesis by (auto simp: next_pos_def ins_height_def)
  qed
  with None show ?thesis by (auto simp: next_pos_def)
next
  case (Some q)
  with nx have q: "p < q" "q \<le> n" "i < h q" "\<forall>j. p < j \<and> j < q \<longrightarrow> h j \<le> i"
    by (auto simp: next_pos_def)
  have qr: "r < q" using pr q by (auto simp: is_pred_def not_less [symmetric])
  have "ins_height h r l j \<le> i" if "Suc r < j" "j < Suc q" for j
  proof -
    have "p < j - 1" "j - 1 < q" using pr that by (auto simp: is_pred_def)
    with q(4) that show ?thesis by (auto simp: ins_height_def)
  qed
  with qr q Some show ?thesis by (auto simp: next_pos_def ins_def ins_height_def)
qed

lemma next_pos_pred_gt:
  assumes "next_pos h n i p qo" "is_pred h r i p" "qo = Some q"
  shows "r < q"
proof (rule ccontr)
  assume "\<not> r < q"
  then have "h q \<le> i" using assms by (auto simp: is_pred_def next_pos_def)
  with assms show False by (simp add: next_pos_def)
qed

lemma next_pos_not_pred:
  assumes "next_pos h n i p qo" "\<not> is_pred h r i p" "p \<le> r" "i < h p" "r \<le> n"
  shows "\<exists>q. qo = Some q \<and> q \<le> r"
proof -
  from assms obtain q where q: "p < q" "q \<le> r" "i < h q"
    unfolding is_pred_def by (auto simp: not_le)
  show ?thesis
  proof (cases qo)
    case None
    with assms(1,5) q show ?thesis by (auto simp: next_pos_def)
  next
    case (Some a)
    have "\<not> q < a" using assms(1) q Some by (auto simp: next_pos_def)
    with q Some show ?thesis by auto
  qed
qed

section \<open>The loops that write levels\<close>

lemma link_frame: "same_frame sl (link_level x path i sl)"
  by (simp add: link_level_def Let_def split: prod.splits)
     (meson same_frame_set_lev same_frame_trans)

lemma lev_link:
  assumes "\<And>i. i < m \<Longrightarrow> i < nlev sl (Nd x) \<and> i < nlev sl (fst (path ! i)) \<and> fst (path ! i) \<noteq> Nd x"
  shows "lev (fold (link_level x path) [0..<m] sl) y j =
    (if j < m \<and> y = Nd x then
       \<lparr> forward = forward (lev sl (fst (path ! j)) j),
         span = span (lev sl (fst (path ! j)) j) - (snd (path ! 0) - snd (path ! j)) \<rparr>
     else if j < m \<and> y = fst (path ! j) then
       \<lparr> forward = Some x, span = snd (path ! 0) - snd (path ! j) + 1 \<rparr>
     else lev sl y j)"
  using assms
proof (induction m arbitrary: y j)
  case (Suc m)
  define s where "s = fold (link_level x path) [0..<m] sl"
  have fr: "same_frame sl s" unfolding s_def by (rule same_frame_fold) (rule link_frame)
  obtain u r where u: "path ! m = (u, r)" by (cases "path ! m")
  have IH: "lev s y j =
    (if j < m \<and> y = Nd x then
       \<lparr> forward = forward (lev sl (fst (path ! j)) j),
         span = span (lev sl (fst (path ! j)) j) - (snd (path ! 0) - snd (path ! j)) \<rparr>
     else if j < m \<and> y = fst (path ! j) then
       \<lparr> forward = Some x, span = snd (path ! 0) - snd (path ! j) + 1 \<rparr>
     else lev sl y j)" for y j
    unfolding s_def using Suc by simp
  have m: "m < nlev s (Nd x)" "m < nlev s u" "u \<noteq> Nd x"
    using Suc.prems [of m] u by (simp_all add: same_frame_nlev [OF fr])
  have here: "lev s u m = lev sl u m" by (simp add: IH)
  have "fold (link_level x path) [0..<Suc m] sl = link_level x path m s" by (simp add: s_def)
  also have "\<dots> = set_lev u m \<lparr> forward = Some x, span = snd (path ! 0) - r + 1 \<rparr>
      (set_lev (Nd x) m \<lparr> forward = forward (lev sl u m),
         span = span (lev sl u m) - (snd (path ! 0) - r) \<rparr> s)"
    by (simp add: link_level_def Let_def u here)
  finally show ?case
    using m by (cases "j = m") (auto simp: lev_set_lev IH u less_Suc_eq)
qed simp

lemma widen_frame: "same_frame sl (widen_level path i sl)"
  by (simp add: widen_level_def Let_def)

lemma lev_widen:
  assumes "\<And>i. a \<le> i \<Longrightarrow> i < b \<Longrightarrow> i < nlev sl (fst (path ! i))"
  shows "lev (fold (widen_level path) [a..<b] sl) y j =
    (if a \<le> j \<and> j < b \<and> y = fst (path ! j) then (lev sl y j)\<lparr> span := span (lev sl y j) + 1 \<rparr>
     else lev sl y j)"
  using assms
proof (induction b arbitrary: y j)
  case (Suc b)
  show ?case
  proof (cases "a \<le> b")
    case True
    define s where "s = fold (widen_level path) [a..<b] sl"
    let ?u = "fst (path ! b)"
    have fr: "same_frame sl s" unfolding s_def by (rule same_frame_fold) (rule widen_frame)
    have IH: "lev s y j =
      (if a \<le> j \<and> j < b \<and> y = fst (path ! j) then (lev sl y j)\<lparr> span := span (lev sl y j) + 1 \<rparr>
       else lev sl y j)" for y j
      unfolding s_def using Suc by simp
    have b: "b < nlev s ?u" using Suc.prems [of b] True by (simp add: same_frame_nlev [OF fr])
    have here: "lev s ?u b = lev sl ?u b" by (simp add: IH)
    have "fold (widen_level path) [a..<Suc b] sl = widen_level path b s"
      using True by (simp add: s_def)
    also have "\<dots> = set_lev ?u b ((lev sl ?u b)\<lparr> span := span (lev sl ?u b) + 1 \<rparr>) s"
      by (simp add: widen_level_def Let_def here)
    finally show ?thesis
      using b True by (cases "j = b") (auto simp: lev_set_lev IH less_Suc_eq)
  qed simp
qed simp

lemma lev_raise:
  assumes "lvl \<le> length (hdr sl)"
  shows "lev (raise_level lvl sl) y j =
    (if sl_level sl \<le> j \<and> j < lvl \<and> y = Hdr then (lev sl Hdr j)\<lparr> span := sl_length sl \<rparr> else lev sl y j)"
    "same_frame (sl\<lparr> sl_level := max lvl (sl_level sl) \<rparr>) (raise_level lvl sl)"
proof -
  let ?f = "\<lambda>i s. set_lev Hdr i ((lev s Hdr i)\<lparr> span := sl_length s \<rparr>) s"
  have fr: "same_frame s (fold ?f is s)" for "is" and s :: "('a, 'b) skiplist"
    by (rule same_frame_fold) simp
  have len: "sl_length (fold ?f is s) = sl_length s" for "is" and s :: "('a, 'b) skiplist"
    using fr [of s "is"] by (simp add: same_frame_def)
  have f: "lev (fold ?f [a..<b] sl) y j =
    (if a \<le> j \<and> j < b \<and> y = Hdr then (lev sl Hdr j)\<lparr> span := sl_length sl \<rparr> else lev sl y j)"
    if "b \<le> length (hdr sl)" for a b
    using that
  proof (induction b arbitrary: y j)
    case (Suc b)
    show ?case
    proof (cases "a \<le> b")
      case True
      define s where "s = fold ?f [a..<b] sl"
      have "b < nlev s Hdr" using Suc.prems fr [of sl "[a..<b]"]
        by (simp add: s_def same_frame_def nlev_def)
      moreover have "fold ?f [a..<Suc b] sl = set_lev Hdr b ((lev s Hdr b)\<lparr> span := sl_length sl \<rparr>) s"
        using True by (simp add: s_def len)
      moreover have "lev s y j = (if a \<le> j \<and> j < b \<and> y = Hdr then (lev sl Hdr j)\<lparr> span := sl_length sl \<rparr>
          else lev sl y j)" for y j
        unfolding s_def using Suc by simp
      ultimately show ?thesis
        using True by (cases "j = b") (auto simp: lev_set_lev less_Suc_eq)
    qed simp
  qed simp
  have up: "lev (s\<lparr> sl_level := l \<rparr>) z k = lev s z k" for s :: "('a, 'b) skiplist" and l z k
    by (simp add: lev_def split: place.splits)
  show "lev (raise_level lvl sl) y j =
    (if sl_level sl \<le> j \<and> j < lvl \<and> y = Hdr then (lev sl Hdr j)\<lparr> span := sl_length sl \<rparr> else lev sl y j)"
    using f [OF assms, of "sl_level sl"] by (auto simp: raise_level_def up)
  show "same_frame (sl\<lparr> sl_level := max lvl (sl_level sl) \<rparr>) (raise_level lvl sl)"
    using fr [of sl "[sl_level sl..<lvl]"] by (auto simp: raise_level_def same_frame_def)
qed

lemma raise_frame:
  assumes "lvl \<le> length (hdr sl)"
  shows "sl_level (raise_level lvl sl) = max lvl (sl_level sl)"
    "length (nodes (raise_level lvl sl)) = length (nodes sl)"
    "entry (raise_level lvl sl) = entry sl"
    "hgt (raise_level lvl sl) ps (Suc j) = hgt sl ps (Suc j)"
    "backward (nodes (raise_level lvl sl) ! a) = backward (nodes sl ! a)"
    "length (levels (nodes (raise_level lvl sl) ! a)) = length (levels (nodes sl ! a))"
    "length (hdr (raise_level lvl sl)) = length (hdr sl)"
    "sl_tail (raise_level lvl sl) = sl_tail sl" "sl_length (raise_level lvl sl) = sl_length sl"
  using lev_raise(2) [OF assms] by (auto simp: same_frame_def entry_def)

lemma raise_level_ok:
  assumes shape: "shape_ok sl ps" and cells: "cells_ok sl ps" and lvl: "lvl \<le> MAX_LEVEL"
  shows "shape_ok (raise_level lvl sl) ps" "cells_ok (raise_level lvl sl) ps"
proof -
  let ?s = "raise_level lvl sl"
  have len: "lvl \<le> length (hdr sl)" using shape lvl by (simp add: shape_ok_def)
  note fr = raise_frame [OF len]
  have lev: "lev ?s y j =
      (if sl_level sl \<le> j \<and> j < lvl \<and> y = Hdr then (lev sl Hdr j)\<lparr> span := sl_length sl \<rparr> else lev sl y j)"
    for y j by (rule lev_raise(1)) (rule len)
  have "forward (hdr ?s ! i) = forward (hdr sl ! i)" for i
    using arg_cong [OF lev [of Hdr i], of forward] by (simp add: lev_def split: if_splits)
  then show "shape_ok ?s ps" using shape lvl fr by (auto simp: shape_ok_def le_max_iff_disj)
  have h: "hgt ?s ps q = hgt sl ps q" if "0 < q" for q
    using fr(4) [of ps "q - 1"] that by (cases q) simp_all
  have nx: "next_pos (hgt ?s ps) n i p qo = next_pos (hgt sl ps) n i p qo" for n i p qo
    by (rule next_pos_cong) (simp add: h)
  show "cells_ok ?s ps" unfolding cells_ok_def
  proof (intro allI impI)
    fix p i assume p: "p \<le> length ps" and i: "i < hgt ?s ps p"
    show "cell_ok ps (hgt ?s ps) i p (lev ?s (atp ps p) i)"
    proof (cases "p = 0 \<and> sl_level sl \<le> i")
      case True
      have no: "hgt sl ps q \<le> i" if "0 < q" "q \<le> length ps" for q
        using hgt_pos(2) [OF shape that(2)] True by simp
      have "i < lvl" "i < MAX_LEVEL" using i True fr(1) lvl by auto
      moreover have "forward (lev sl Hdr i) = None"
        using shape True \<open>i < MAX_LEVEL\<close> by (simp add: shape_ok_def lev_def)
      ultimately show ?thesis
        using True no shape
        by (auto simp: cell_ok_def nx lev next_pos_def shape_ok_def h intro!: exI [of _ None])
    next
      case False
      then have i': "i < hgt sl ps p" using i h [of p] fr(1) by (cases "p = 0") auto
      have "\<not> (sl_level sl \<le> i \<and> i < lvl \<and> atp ps p = Hdr)"
        using False by (auto simp: atp_def split: if_splits)
      then have "lev ?s (atp ps p) i = lev sl (atp ps p) i" by (auto simp: lev)
      with cells p i' show ?thesis by (simp add: cells_ok_def cell_ok_def nx)
    qed
  qed
qed

lemma raise_path_ok:
  assumes shape: "shape_ok sl ps" and lvl: "lvl \<le> MAX_LEVEL" and r: "r \<le> length ps"
    and path: "path_ok sl ps r (sl_level sl) path"
  shows "path_ok (raise_level lvl sl) ps r (max lvl (sl_level sl))
    (path @ replicate (lvl - sl_level sl) (Hdr, 0))"
  unfolding path_ok_def
proof (intro conjI allI impI)
  let ?s = "raise_level lvl sl"
  have len: "lvl \<le> length (hdr sl)" using shape lvl by (simp add: shape_ok_def)
  note fr = raise_frame [OF len]
  have h: "hgt ?s ps q = hgt sl ps q" if "0 < q" for q
    using fr(4) [of ps "q - 1"] that by (cases q) simp_all
  show "length (path @ replicate (lvl - sl_level sl) (Hdr, 0)) = max lvl (sl_level sl)"
    using path by (simp add: path_ok_def)
  fix i assume i: "i < max lvl (sl_level sl)"
  show "\<exists>p. (path @ replicate (lvl - sl_level sl) (Hdr, 0)) ! i = (atp ps p, int p) \<and>
      is_pred (hgt ?s ps) r i p"
  proof (cases "i < sl_level sl")
    case True
    with path obtain p where p: "path ! i = (atp ps p, int p)" "is_pred (hgt sl ps) r i p"
      by (auto simp: path_ok_def)
    have "is_pred (hgt ?s ps) r i p"
      using p(2) h True fr(1) by (cases "p = 0") (auto simp: is_pred_def)
    with p(1) path True show ?thesis by (intro exI [of _ p]) (simp add: path_ok_def nth_append)
  next
    case False
    have "hgt ?s ps q \<le> i" if "0 < q" "q \<le> r" for q
      using hgt_pos(2) [OF shape, of q] h that r False by simp
    then have "is_pred (hgt ?s ps) r i 0" using i False fr(1) by (auto simp: is_pred_def)
    moreover have "(path @ replicate (lvl - sl_level sl) (Hdr, 0)) ! i = (Hdr, 0)"
      using path i False by (auto simp: path_ok_def nth_append)
    ultimately show ?thesis by (intro exI [of _ 0]) simp
  qed
qed

lemma nth_put_ins:
  assumes "r \<le> length ps" "0 < q" "q \<le> length ps"
  shows "put_at r x ps ! (ins r q - 1) = ps ! (q - 1)"
proof (cases "q \<le> r")
  case True
  then have "q - 1 < r" using assms by simp
  with True assms show ?thesis by (simp add: ins_def nth_put_at)
qed (use assms in \<open>simp add: ins_def nth_put_at\<close>)

lemma insert_cells:
  fixes s s' :: "('k, 'v) skiplist" and ps r lvl path x
  defines "h \<equiv> hgt s ps" and "n \<equiv> length ps" and "ps' \<equiv> put_at r x ps"
  assumes shape: "shape_ok s ps" and cells: "cells_ok s ps" and r: "r \<le> n"
    and path: "path_ok s ps r (sl_level s) path" and lvl: "lvl \<le> sl_level s"
    and lev': "\<And>y j. y = Nd x \<and> j < lvl \<or> (\<exists>p \<le> n. y = atp ps p) \<Longrightarrow> lev s' y j =
      (if j < lvl \<and> y = Nd x then
         \<lparr> forward = forward (lev s (fst (path ! j)) j),
           span = span (lev s (fst (path ! j)) j) - (int r - snd (path ! j)) \<rparr>
       else if j < lvl \<and> y = fst (path ! j) then \<lparr> forward = Some x, span = int r - snd (path ! j) + 1 \<rparr>
       else if lvl \<le> j \<and> j < sl_level s \<and> y = fst (path ! j)
         then (lev s y j)\<lparr> span := span (lev s y j) + 1 \<rparr>
       else lev s y j)"
    and hgt': "\<And>q. q \<le> Suc n \<Longrightarrow> hgt s' ps' q = ins_height h r lvl q"
    and fresh: "x \<notin> set ps"
  shows "cells_ok s' ps'"
  unfolding cells_ok_def
proof (intro allI impI)
  have len': "length ps' = Suc n" using r by (simp add: ps'_def n_def)
  fix p' i assume p': "p' \<le> length ps'" and i: "i < hgt s' ps' p'"
  have cong: "cell_ok ps' (hgt s' ps') i p' l = cell_ok ps' (ins_height h r lvl) i p' l" for l
    by (rule cell_ok_cong) (simp add: hgt' len')
  have old: "\<exists>qo. next_pos h n i p qo \<and> forward (lev s (atp ps p) i) = map_option (\<lambda>q. ps ! (q - 1)) qo \<and>
      span (lev s (atp ps p) i) = int (case qo of None \<Rightarrow> n | Some q \<Rightarrow> q) - int p"
    if "p \<le> n" "i < h p" for p
    using cells that unfolding cells_ok_def cell_ok_def h_def n_def by blast
  have pred: "\<exists>p. path ! i = (atp ps p, int p) \<and> is_pred h r i p" if "i < sl_level s"
    using path that by (simp add: path_ok_def h_def)
  have fwd: "map_option (\<lambda>q. ps ! (q - 1)) qo = map_option (\<lambda>q. ps' ! (q - 1)) (map_option (ins r) qo)"
    if "next_pos h n i p qo" for p qo
    using that nth_put_ins [OF r [unfolded n_def]] by (cases qo) (auto simp: next_pos_def n_def ps'_def)
  show "cell_ok ps' (hgt s' ps') i p' (lev s' (atp ps' p') i)"
    unfolding cong
  proof (cases rule: ins_cases [OF p' [unfolded len'] r])
    case 1
    then have il: "i < lvl" using i r hgt' [of "Suc r"] by (simp del: hgt_Suc)
    then obtain u where u: "path ! i = (atp ps u, int u)" "is_pred h r i u"
      using pred lvl by auto
    have un: "u \<le> n" "i < h u" using u(2) r by (auto simp: is_pred_def)
    obtain qo where qo: "next_pos h n i u qo" "forward (lev s (atp ps u) i) = map_option (\<lambda>q. ps ! (q - 1)) qo"
      "span (lev s (atp ps u) i) = int (case qo of None \<Rightarrow> n | Some q \<Rightarrow> q) - int u"
      using old [OF un] by blast
    have at: "atp ps' p' = Nd x" using 1 r by (simp add: ps'_def nth_put_at n_def)
    have "next_pos (ins_height h r lvl) (Suc n) i p' (map_option (ins r) qo)"
      unfolding 1 by (rule next_pos_new [OF qo(1) u(2) r])
    moreover have "ins r q = Suc q" if "qo = Some q" for q
      using next_pos_pred_gt [OF qo(1) u(2) that] by (simp add: ins_def)
    moreover have "lev s' (atp ps' p') i = \<lparr> forward = forward (lev s (atp ps u) i),
        span = span (lev s (atp ps u) i) - (int r - int u) \<rparr>"
      using il u(1) by (simp add: at lev' [of "Nd x"])
    ultimately show "cell_ok ps' (ins_height h r lvl) i p' (lev s' (atp ps' p') i)"
      using qo(2,3) fwd [OF qo(1)] 1 unfolding cell_ok_def len'
      by (cases qo) (auto intro!: exI [of _ "map_option (ins r) qo"])
  next
    case (2 p)
    have ih: "i < h p" using i p' 2 by (simp add: hgt' len')
    have at: "atp ps' p' = atp ps p" using 2 r by (simp add: ps'_def atp_put_ins n_def)
    have "h p \<le> sl_level s" using hgt_pos(2) [OF shape, of p] 2(1) by (simp add: h_def n_def)
    then obtain u where u: "path ! i = (atp ps u, int u)" "is_pred h r i u"
      using pred ih by auto
    have un: "u \<le> n" using u(2) r by (auto simp: is_pred_def)
    have same: "atp ps p = atp ps u \<longleftrightarrow> p = u"
      using atp_inj [of ps p u] shape 2(1) un by (simp add: shape_ok_def n_def)
    obtain qo where qo: "next_pos h n i p qo" "forward (lev s (atp ps p) i) = map_option (\<lambda>q. ps ! (q - 1)) qo"
      "span (lev s (atp ps p) i) = int (case qo of None \<Rightarrow> n | Some q \<Rightarrow> q) - int p"
      using old [OF 2(1) ih] by blast
    have nx: "atp ps p \<noteq> Nd x"
      using fresh 2(1) by (auto simp: atp_def n_def)
    note lev'' = lev' [OF disjI2, of "atp ps p", OF exI [of _ p], OF conjI, OF 2(1) refl]
    show "cell_ok ps' (ins_height h r lvl) i p' (lev s' (atp ps' p') i)"
    proof (cases "p = u")
      case eq: True
      have pr: "p \<le> r" using u(2) eq by (simp add: is_pred_def)
      show ?thesis
      proof (cases "i < lvl")
        case True
        have "next_pos (ins_height h r lvl) (Suc n) i p' (Some (Suc r))"
          unfolding 2(2) eq by (rule next_pos_ins_pred [OF u(2) r True])
        moreover have "ps' ! r = x" using r by (simp add: ps'_def nth_put_at n_def)
        moreover have "lev s' (atp ps' p') i = \<lparr> forward = Some x, span = int r - int u + 1 \<rparr>"
          using True nx u(1) eq lev'' [of i] by (simp add: at)
        ultimately show ?thesis
          using eq pr 2(2) unfolding cell_ok_def len'
          by (auto simp: ins_def intro!: exI [of _ "Some (Suc r)"])
      next
        case False
        have "next_pos (ins_height h r lvl) (Suc n) i p' (map_option (ins r) qo)"
          unfolding 2(2) by (rule next_pos_ins [OF qo(1) r]) (use False in simp)
        moreover have "ins r q = Suc q" if "qo = Some q" for q
          using next_pos_pred_gt [OF qo(1) _ that, of r] u(2) eq by (simp add: ins_def)
        moreover have "lev s' (atp ps' p') i = (lev s (atp ps p) i)\<lparr> span := span (lev s (atp ps p) i) + 1 \<rparr>"
          using False u(1) eq nx \<open>h p \<le> sl_level s\<close> ih lev'' [of i] by (simp add: at)
        ultimately show ?thesis
          using qo(2,3) fwd [OF qo(1)] pr 2(2) unfolding cell_ok_def len'
          by (cases qo) (auto simp: ins_def intro!: exI [of _ "map_option (ins r) qo"])
      qed
    next
      case ne: False
      have lv: "lev s' (atp ps' p') i = lev s (atp ps p) i"
        using nx same ne u(1) lev'' [of i] by (simp add: at)
      have skip: "p \<le> r \<longrightarrow> (\<exists>q. qo = Some q \<and> q \<le> r)"
        using next_pos_not_pred [OF qo(1) _ _ ih r] is_pred_unique u(2) ne by blast
      have "next_pos (ins_height h r lvl) (Suc n) i p' (map_option (ins r) qo)"
        unfolding 2(2) by (rule next_pos_ins [OF qo(1) r]) (use skip in blast)
      moreover have "int (case map_option (ins r) qo of None \<Rightarrow> Suc n | Some q \<Rightarrow> q) - int p' =
          int (case qo of None \<Rightarrow> n | Some q \<Rightarrow> q) - int p"
        using skip qo(1) 2(2) by (cases qo) (auto simp: ins_def next_pos_def)
      ultimately show ?thesis
        using qo(2,3) fwd [OF qo(1)] unfolding cell_ok_def lv len' by (intro exI [of _ "map_option (ins r) qo"]) simp
    qed
  qed
qed

section \<open>Where a sorted list splits\<close>

definition down_closed :: "('k::linorder \<times> 'v::linorder \<Rightarrow> bool) \<Rightarrow> bool" where
  "down_closed c \<longleftrightarrow> (\<forall>a b. \<not> nodeLess b a \<longrightarrow> c b \<longrightarrow> c a)"

lemma splits_takeWhile:
  assumes "oi_sorted es" "down_closed c"
  shows "splits_at c es (length (takeWhile c es))"
proof -
  have "c (es ! j) \<longleftrightarrow> j < length (takeWhile c es)" if "j < length es" for j
  proof
    let ?r = "length (takeWhile c es)"
    assume c: "c (es ! j)"
    show "j < ?r"
    proof (rule ccontr)
      assume "\<not> j < ?r"
      then have r: "?r \<le> j" "?r < length es" using that by auto
      then have no: "\<not> c (es ! ?r)" by (intro nth_length_takeWhile)
      have "?r = j \<or> \<not> nodeLess (es ! j) (es ! ?r)"
        using assms(1) r that unfolding oi_sorted_def sorted_wrt_iff_nth_less
        by (metis le_neq_implies_less)
      with no c assms(2) show False unfolding down_closed_def by metis
    qed
  next
    assume "j < length (takeWhile c es)"
    then have "takeWhile c es ! j \<in> set (takeWhile c es)" "takeWhile c es ! j = es ! j"
      by (rule nth_mem, rule takeWhile_nth)
    then show "c (es ! j)" by (metis set_takeWhileD)
  qed
  then show ?thesis by (simp add: splits_at_def length_takeWhile_le)
qed

lemma down_closed_less: "down_closed (\<lambda>e. nodeLess e t)"
  unfolding down_closed_def using nodeLess_trans nodeLess_total by metis

lemma down_closed_le: "down_closed (\<lambda>e. nodeLess e t \<or> e = t)"
  unfolding down_closed_def using nodeLess_trans nodeLess_total by metis

lemma down_closed_key:
  "down_closed (\<lambda>(k, v). if strict then k \<le> bound else k < bound)"
  by (auto simp: down_closed_def nodeLess_def not_less)

lemma oi_insert_put:
  "oi_insert e es = put_at (length (takeWhile (\<lambda>a. nodeLess a e) es)) e es"
  by (simp add: oi_insert_def put_at_def flip: takeWhile_eq_take dropWhile_eq_drop)

lemma map_put_at: "map f (put_at r x ps) = put_at r (f x) (map f ps)"
  by (simp add: put_at_def take_map drop_map)

section \<open>Insert\<close>

lemma randomLevel_range: "1 \<le> n \<Longrightarrow> n \<le> MAX_LEVEL \<Longrightarrow> 1 \<le> randomLevel n coins \<and> randomLevel n coins \<le> MAX_LEVEL"
  by (induction n coins rule: randomLevel.induct) (auto simp: MAX_LEVEL_def)

text \<open>A node added to the heap, and its backward pointers.\<close>

definition add_node :: "('k, 'v) node \<Rightarrow> ('k, 'v) skiplist \<Rightarrow> ('k, 'v) skiplist" where
  "add_node nd sl = sl\<lparr> nodes := nodes sl @ [nd] \<rparr>"

definition link_back :: "nat \<Rightarrow> nat option \<Rightarrow> ('k, 'v) skiplist \<Rightarrow> ('k, 'v) skiplist" where
  "link_back x b sl =
     (let s1 = upd_node x (\<lambda>n. n\<lparr> backward := b \<rparr>) sl in
      case forward (lev s1 (Nd x) 0) of
        Some f \<Rightarrow> upd_node f (\<lambda>n. n\<lparr> backward := Some x \<rparr>) s1
      | None \<Rightarrow> s1\<lparr> sl_tail := Some x \<rparr>)"

lemma sl_insert_alt:
  "sl_insert coins key val sl =
     (let lvl = randomLevel 1 coins;
          path = search sl (\<lambda>e. nodeLess e (key, val)) @ replicate (lvl - sl_level sl) (Hdr, 0);
          s = raise_level lvl sl;
          x = length (nodes s);
          s2 = add_node \<lparr> nkey = key, nval = val, backward = None, levels = replicate lvl no_level \<rparr> s;
          s3 = fold (link_level x path) [0..<lvl] s2;
          s4 = fold (widen_level path) [lvl..<sl_level s3] s3;
          s5 = link_back x (case fst (path ! 0) of Hdr \<Rightarrow> None | Nd a \<Rightarrow> Some a) s4
      in s5\<lparr> sl_length := sl_length s5 + 1 \<rparr>)"
  by (simp add: sl_insert_def add_node_def link_back_def Let_def)

lemma upd_node_lev:
  assumes "\<And>n. levels (f n) = levels n"
  shows "lev (upd_node a f sl) = lev sl"
  by (intro ext) (auto simp: lev_def upd_node_def nth_list_update_any assms split: place.splits)

lemma field_frame [simp]:
  "lev (sl\<lparr> sl_tail := t \<rparr>) = lev sl" "entry (sl\<lparr> sl_tail := t \<rparr>) = entry sl"
  "lev (sl\<lparr> sl_length := l \<rparr>) = lev sl" "entry (sl\<lparr> sl_length := l \<rparr>) = entry sl"
  "lev (sl\<lparr> sl_level := m \<rparr>) = lev sl" "entry (sl\<lparr> sl_level := m \<rparr>) = entry sl"
  by (intro ext; simp add: lev_def entry_def split: place.splits)+

lemma upd_back_frame [simp]:
  "lev (upd_node a (\<lambda>n. n\<lparr> backward := b \<rparr>) sl) = lev sl"
  "entry (upd_node a (\<lambda>n. n\<lparr> backward := b \<rparr>) sl) = entry sl"
  "length (nodes (upd_node a (\<lambda>n. n\<lparr> backward := b \<rparr>) sl)) = length (nodes sl)"
  "length (levels (nodes (upd_node a (\<lambda>n. n\<lparr> backward := b \<rparr>) sl) ! c)) = length (levels (nodes sl ! c))"
  "hdr (upd_node a (\<lambda>n. n\<lparr> backward := b \<rparr>) sl) = hdr sl"
  "sl_level (upd_node a (\<lambda>n. n\<lparr> backward := b \<rparr>) sl) = sl_level sl"
  "sl_length (upd_node a (\<lambda>n. n\<lparr> backward := b \<rparr>) sl) = sl_length sl"
  "sl_tail (upd_node a (\<lambda>n. n\<lparr> backward := b \<rparr>) sl) = sl_tail sl"
  "backward (nodes (upd_node a (\<lambda>n. n\<lparr> backward := b \<rparr>) sl) ! c) =
     (if c = a \<and> a < length (nodes sl) then b else backward (nodes sl ! c))"
  by (rule upd_node_lev, simp) (auto simp: entry_def upd_node_def nth_list_update_any)

lemma link_back_frame:
  "lev (link_back x b sl) = lev sl" "entry (link_back x b sl) = entry sl"
  "length (nodes (link_back x b sl)) = length (nodes sl)"
  "length (levels (nodes (link_back x b sl) ! c)) = length (levels (nodes sl ! c))"
  "hdr (link_back x b sl) = hdr sl" "sl_level (link_back x b sl) = sl_level sl"
  "sl_length (link_back x b sl) = sl_length sl"
  by (auto simp: link_back_def Let_def split: option.splits)

lemma link_back_back:
  assumes "x < length (nodes sl)"
  shows "backward (nodes (link_back x b sl) ! c) =
      (case forward (lev sl (Nd x) 0) of
         Some f \<Rightarrow> if c = f \<and> f < length (nodes sl) then Some x else if c = x then b else backward (nodes sl ! c)
       | None \<Rightarrow> if c = x then b else backward (nodes sl ! c))"
    "sl_tail (link_back x b sl) =
      (case forward (lev sl (Nd x) 0) of Some f \<Rightarrow> sl_tail sl | None \<Rightarrow> Some x)"
  using assms by (auto simp: link_back_def Let_def split: option.splits)

lemma add_node_frame:
  "y \<noteq> Nd (length (nodes sl)) \<Longrightarrow> lev (add_node nd sl) y = lev sl y" if "\<And>a. y = Nd a \<Longrightarrow> a < length (nodes sl)"
  using that by (intro ext) (auto simp: lev_def add_node_def nth_append split: place.splits)

lemma insert_rep:
  assumes rep: "sl_rep sl ps"
  shows "\<exists>ps'. sl_rep (sl_insert coins key val sl) ps' \<and>
    map (entry (sl_insert coins key val sl)) ps' = oi_insert (key, val) (map (entry sl) ps)"
proof -
  from rep have shape0: "shape_ok sl ps" and cells0: "cells_ok sl ps" and backs: "back_ok sl ps"
    and sorted: "oi_sorted (map (entry sl) ps)" by (auto simp: sl_rep_def)
  let ?c = "\<lambda>e. nodeLess e (key, val)"
  define r where "r = length (takeWhile ?c (map (entry sl) ps))"
  define lvl where "lvl = randomLevel 1 coins"
  define s where "s = raise_level lvl sl"
  define path where "path = search sl ?c @ replicate (lvl - sl_level sl) (Hdr, 0)"
  define x where "x = length (nodes s)"
  define nd where "nd = \<lparr> nkey = key, nval = val, backward = None, levels = replicate lvl no_level \<rparr>"
  define s2 where "s2 = add_node nd s"
  define s3 where "s3 = fold (link_level x path) [0..<lvl] s2"
  define s4 where "s4 = fold (widen_level path) [lvl..<sl_level s3] s3"
  define s5 where "s5 = link_back x (case fst (path ! 0) of Hdr \<Rightarrow> None | Nd a \<Rightarrow> Some a) s4"
  define s' where "s' = s5\<lparr> sl_length := sl_length s5 + 1 \<rparr>"
  have s': "sl_insert coins key val sl = s'"
    by (simp add: sl_insert_alt Let_def s'_def s5_def s4_def s3_def s2_def s_def x_def path_def lvl_def nd_def)
  have lvl: "1 \<le> lvl" "lvl \<le> MAX_LEVEL"
    using randomLevel_range [of 1 coins] by (auto simp: lvl_def MAX_LEVEL_def)
  have split: "splits_at ?c (map (entry sl) ps) r"
    unfolding r_def by (rule splits_takeWhile [OF sorted down_closed_less])
  then have r: "r \<le> length ps" by (simp add: splits_at_def)
  have len: "lvl \<le> length (hdr sl)" using shape0 lvl by (simp add: shape_ok_def)
  note fr = raise_frame [OF len, folded s_def]
  have shape: "shape_ok s ps" and cells: "cells_ok s ps"
    unfolding s_def using raise_level_ok [OF shape0 cells0 lvl(2)] by auto
  have path: "path_ok s ps r (sl_level s) path"
    unfolding path_def s_def fr(1) [unfolded s_def]
    by (rule raise_path_ok [OF shape0 lvl(2) r search_spec [OF shape0 cells0 split]])
  have L: "lvl \<le> sl_level s" by (simp add: fr(1))
  have fresh: "x \<notin> set ps" using shape by (auto simp: shape_ok_def x_def)
  have pathD: "\<exists>p. path ! i = (atp ps p, int p) \<and> is_pred (hgt s ps) r i p" if "i < sl_level s" for i
    using path that by (simp add: path_ok_def)
  have path0: "path ! 0 = (atp ps r, int r)"
  proof -
    obtain p where p: "path ! 0 = (atp ps p, int p)" "is_pred (hgt s ps) r 0 p"
      using pathD [of 0] L lvl by auto
    with is_pred_0 [OF shape r] show ?thesis by simp
  qed
  have nl: "i < nlev s (fst (path ! i)) \<and> fst (path ! i) \<noteq> Nd x \<and> (\<forall>a. fst (path ! i) = Nd a \<longrightarrow> a < x)"
    if il: "i < sl_level s" for i
  proof -
    obtain p where p: "path ! i = (atp ps p, int p)" "is_pred (hgt s ps) r i p" using pathD [OF il] by blast
    then have pn: "p \<le> length ps" "i < hgt s ps p" using r by (auto simp: is_pred_def)
    with hgt_nlev [OF shape pn(1)] have "i < nlev s (atp ps p)" by simp
    moreover have "\<forall>a. atp ps p = Nd a \<longrightarrow> a \<in> set ps" using pn(1) by (auto simp: atp_def)
    ultimately show ?thesis using p(1) shape fresh by (auto simp: shape_ok_def x_def)
  qed
  have nlev2: "nlev s2 y = (if y = Nd x then lvl else nlev s y)" for y
    by (cases y) (auto simp: s2_def add_node_def nlev_def nth_append x_def nd_def)
  have lev2: "lev s2 y = lev s y" if "y \<noteq> Nd x" "\<forall>a. y = Nd a \<longrightarrow> a < x" for y
    unfolding s2_def by (rule add_node_frame) (use that in \<open>auto simp: x_def\<close>)
  have f23: "same_frame s2 s3" unfolding s3_def by (rule same_frame_fold) (rule link_frame)
  have f34: "same_frame s3 s4" unfolding s4_def by (rule same_frame_fold) (rule widen_frame)
  have f24: "same_frame s2 s4" by (rule same_frame_trans [OF f23 f34])
  have level3: "sl_level s3 = sl_level s" using f23 by (simp add: same_frame_def s2_def add_node_def)
  have lev3: "lev s3 y j =
    (if j < lvl \<and> y = Nd x then
       \<lparr> forward = forward (lev s2 (fst (path ! j)) j),
         span = span (lev s2 (fst (path ! j)) j) - (snd (path ! 0) - snd (path ! j)) \<rparr>
     else if j < lvl \<and> y = fst (path ! j) then
       \<lparr> forward = Some x, span = snd (path ! 0) - snd (path ! j) + 1 \<rparr>
     else lev s2 y j)" for y j
    unfolding s3_def by (rule lev_link) (use nl L in \<open>auto simp: nlev2\<close>)
  have lev4: "lev s4 y j = (if lvl \<le> j \<and> j < sl_level s \<and> y = fst (path ! j)
      then (lev s3 y j)\<lparr> span := span (lev s3 y j) + 1 \<rparr> else lev s3 y j)" for y j
    unfolding s4_def level3
    by (rule lev_widen) (use nl in \<open>auto simp: same_frame_nlev [OF f23] nlev2\<close>)
  have lev': "lev s' = lev s4" by (simp add: s'_def s5_def link_back_frame)
  have entries: "entry s' = entry s2" using f24
    by (simp add: s'_def s5_def link_back_frame same_frame_entry)
  have hts: "length (levels (nodes s' ! a)) = length (levels (nodes s2 ! a))" for a
    using f24 by (simp add: s'_def s5_def link_back_frame same_frame_def)
  have old2: "nodes s2 ! a = nodes s ! a" if "a \<in> set ps" for a
    using shape that by (simp add: s2_def add_node_def nth_append shape_ok_def)
  have new2: "nodes s2 ! x = nd" by (simp add: s2_def add_node_def x_def)
  let ?ps = "put_at r x ps"
  have hgt': "hgt s' ?ps q = ins_height (hgt s ps) r lvl q" if "q \<le> Suc (length ps)" for q
  proof (cases q)
    case 0
    then show ?thesis
      using f24 by (simp add: ins_height_def s'_def s5_def link_back_frame same_frame_def s2_def add_node_def)
  next
    case (Suc j)
    have mem: "ps ! i \<in> set ps" if "i < length ps" for i using that by simp
    have old: "nodes s2 ! (ps ! i) = nodes s ! (ps ! i)" if "i < length ps" for i
      using old2 [OF mem [OF that]] .
    show ?thesis
      using that r Suc new2 old by (auto simp: ins_height_def hts nth_put_at nd_def hgt_def)
  qed
  have cells': "cells_ok s' ?ps"
  proof (rule insert_cells [OF shape cells r path L _ hgt' fresh])
    fix y j assume y: "y = Nd x \<and> j < lvl \<or> (\<exists>p \<le> length ps. y = atp ps p)"
    have small: "lev s2 y j = lev s y j" if "y \<noteq> Nd x"
    proof (rule fun_cong [OF lev2 [OF that]])
      show "\<forall>a. y = Nd a \<longrightarrow> a < x"
        using y that shape by (auto simp: atp_def x_def shape_ok_def split: if_splits)
    qed
    have upath: "lev s2 (fst (path ! j)) j = lev s (fst (path ! j)) j" "fst (path ! j) \<noteq> Nd x"
      if "j < sl_level s"
      using lev2 [of "fst (path ! j)"] nl [OF that] by auto
    show "lev s' y j =
      (if j < lvl \<and> y = Nd x then
         \<lparr> forward = forward (lev s (fst (path ! j)) j),
           span = span (lev s (fst (path ! j)) j) - (int r - snd (path ! j)) \<rparr>
       else if j < lvl \<and> y = fst (path ! j) then \<lparr> forward = Some x, span = int r - snd (path ! j) + 1 \<rparr>
       else if lvl \<le> j \<and> j < sl_level s \<and> y = fst (path ! j)
         then (lev s y j)\<lparr> span := span (lev s y j) + 1 \<rparr>
       else lev s y j)"
    proof (cases "y = Nd x")
      case True
      then have "j < lvl" using y fresh by (auto simp: atp_def split: if_splits)
      with True upath L show ?thesis unfolding lev' by (auto simp: lev4 lev3 path0)
    next
      case False
      with small upath L show ?thesis unfolding lev' by (auto simp: lev4 lev3 path0)
    qed
  qed
  have es: "entry s2 a = entry sl a" if "a \<in> set ps" for a
    using old2 [OF that] fr(3) by (simp add: entry_def fun_eq_iff)
  have ex: "entry s2 x = (key, val)" by (simp add: entry_def new2 nd_def)
  have "map (entry s') ?ps = put_at r (key, val) (map (entry sl) ps)"
    using es ex by (simp add: entries map_put_at cong: map_cong)
  then have ent: "map (entry s') ?ps = oi_insert (key, val) (map (entry sl) ps)"
    by (simp add: oi_insert_put r_def)
  have frame': "length (nodes s') = Suc x" "length (hdr s') = length (hdr s)" "sl_level s' = sl_level s"
    "sl_length s' = sl_length s + 1"
    using f24 by (simp_all add: s'_def s5_def link_back_frame same_frame_def s2_def add_node_def x_def)
  have shape': "shape_ok s' ?ps"
  proof -
    have "a < length (nodes s') \<and> 1 \<le> length (levels (nodes s' ! a)) \<and>
        length (levels (nodes s' ! a)) \<le> sl_level s'" if "a \<in> set ?ps" for a
    proof (cases "a = x")
      case True
      then show ?thesis using lvl L by (simp add: frame' hts new2 nd_def)
    next
      case False
      with that have a: "a \<in> set ps" by simp
      with shape show ?thesis by (auto simp: shape_ok_def frame' hts old2 x_def)
    qed
    moreover have "distinct ?ps"
      using shape fresh by (simp add: distinct_put_at shape_ok_def)
    moreover have "forward (hdr s' ! i) = None" if "sl_level s' \<le> i" "i < MAX_LEVEL" for i
    proof -
      have "lev s' Hdr i = lev s Hdr i"
        unfolding lev' using that L lev2 [of Hdr] by (simp add: lev4 lev3 frame'(3))
      with shape that show ?thesis by (simp add: lev_def shape_ok_def frame'(3))
    qed
    ultimately show ?thesis
      using shape r by (simp add: shape_ok_def frame')
  qed
  have back': "back_ok s' ?ps"
  proof -
    have xlen: "x < length (nodes s4)" using f24 by (simp add: same_frame_def s2_def add_node_def x_def)
    have fwdx: "forward (lev s4 (Nd x) 0) = (if r < length ps then Some (ps ! r) else None)"
      using forward_0 [OF shape' cells', of "Suc r"] r by (simp add: nth_put_at flip: lev')
    have b4: "backward (nodes s4 ! a) = backward (nodes sl ! a)" if "a \<in> set ps" for a
      using f24 old2 [OF that] fr(5) by (simp add: same_frame_def)
    have t4: "sl_tail s4 = sl_tail sl" using f24 fr(8) by (simp add: same_frame_def s2_def add_node_def)
    have plen: "ps ! r < length (nodes s4)" if "r < length ps"
      using f24 shape that by (auto simp: same_frame_def s2_def add_node_def shape_ok_def less_Suc_eq)
    have b': "backward (nodes s' ! c) =
        (if r < length ps \<and> c = ps ! r then Some x
         else if c = x then (if r = 0 then None else Some (ps ! (r - 1))) else backward (nodes s4 ! c))" for c
      using plen link_back_back(1) [OF xlen] by (auto simp: s'_def s5_def fwdx path0 atp_def)
    have t': "sl_tail s' = (if r < length ps then sl_tail s4 else Some x)"
      using link_back_back(2) [OF xlen] by (simp add: s'_def s5_def fwdx)
    have dist: "distinct ps" using shape by (simp add: shape_ok_def)
    have "backward (nodes s' ! (?ps ! j)) = (if j = 0 then None else Some (?ps ! (j - 1)))"
      if j: "j \<le> length ps" for j
    proof -
      consider "j < r" | "j = r" | "j = Suc r" | "Suc r < j" by linarith
      then show ?thesis
      proof cases
        case 1
        then have ne: "\<not> (r < length ps \<and> ps ! j = ps ! r)" using dist by (auto simp: nth_eq_iff_index_eq)
        have mem: "ps ! j \<in> set ps" using 1 r by simp
        with fresh have "ps ! j \<noteq> x" by blast
        then have "backward (nodes s' ! (ps ! j)) = backward (nodes sl ! (ps ! j))"
          unfolding b' if_not_P [OF ne] by (simp add: b4 [OF mem])
        also have "\<dots> = (if j = 0 then None else Some (ps ! (j - 1)))"
          using backs 1 r by (simp add: back_ok_def)
        finally show ?thesis using 1 r by (simp add: nth_put_at)
      next
        case 2
        have ne: "\<not> (r < length ps \<and> x = ps ! r)" using fresh by auto
        have "backward (nodes s' ! x) = (if r = 0 then None else Some (ps ! (r - 1)))"
          unfolding b' if_not_P [OF ne] by (simp only: if_P [OF refl])
        then show ?thesis using 2 r by (simp add: nth_put_at)
      next
        case 3
        have "backward (nodes s' ! (ps ! r)) = Some x"
          unfolding b' using 3 j by simp
        then show ?thesis using 3 r j by (simp add: nth_put_at)
      next
        case 4
        then have m: "ps ! (j - 1) \<in> set ps" "ps ! (j - 1) \<noteq> ps ! r"
          using dist j by (auto simp: nth_eq_iff_index_eq)
        with 4 r j backs fresh show ?thesis
          by (auto simp: nth_put_at b' b4 back_ok_def)
      qed
    qed
    moreover have "sl_tail s' = Some (last ?ps)"
    proof (cases "r < length ps")
      case True
      then have "last ?ps = last ps" "ps \<noteq> []" by (auto simp: put_at_def)
      with True backs show ?thesis by (simp add: t' t4 back_ok_def)
    next
      case False
      then show ?thesis using r by (simp add: t' put_at_def)
    qed
    moreover have "?ps \<noteq> []" by (simp add: put_at_def)
    ultimately show ?thesis using r by (simp add: back_ok_def less_Suc_eq_le)
  qed
  have "oi_sorted (map (entry s') ?ps)" unfolding ent by (rule oi_insert_sorted) (rule sorted)
  with shape' cells' back' ent show ?thesis
    unfolding s' sl_rep_def by blast
qed

section \<open>Deletion refines\<close>

definition del_at :: "nat \<Rightarrow> 'a list \<Rightarrow> 'a list" where
  "del_at r ps = take r ps @ drop (Suc r) ps"

lemma length_del_at [simp]: "r < length ps \<Longrightarrow> length (del_at r ps) = length ps - 1"
  by (simp add: del_at_def)

lemma nth_del_at:
  "r < length ps \<Longrightarrow> j < length ps - 1 \<Longrightarrow> del_at r ps ! j = ps ! (if j < r then j else Suc j)"
  by (auto simp: del_at_def nth_append min_def)

lemma atp_del_at:
  assumes "r < length ps" "p \<le> length ps - 1"
  shows "atp (del_at r ps) p = atp ps (ins r p)"
proof (cases p)
  case (Suc j)
  with assms show ?thesis by (auto simp: nth_del_at ins_def)
qed (simp add: ins_def)

lemma del_at_set:
  assumes "distinct ps" "r < length ps"
  shows "set (del_at r ps) = set ps - {ps ! r}" "distinct (del_at r ps)"
proof -
  have split: "ps = take r ps @ ps ! r # drop (Suc r) ps" using assms(2) by (rule id_take_nth_drop)
  define a b where "a = take r ps" and "b = drop (Suc r) ps"
  have d: "distinct (a @ ps ! r # b)" and s: "set ps = set (a @ ps ! r # b)"
    using split assms(1) by (simp_all only: a_def b_def flip: split)
  then show "set (del_at r ps) = set ps - {ps ! r}" "distinct (del_at r ps)"
    unfolding del_at_def a_def [symmetric] b_def [symmetric] by auto
qed

lemma remove1_del_at:
  assumes "r < length es" "es ! r = e" "\<forall>j < r. es ! j \<noteq> e"
  shows "remove1 e es = del_at r es"
proof -
  have "e \<notin> set (take r es)" using assms(1,3) by (auto simp: in_set_conv_nth)
  moreover have "es = take r es @ e # drop (Suc r) es"
    using id_take_nth_drop [OF assms(1)] assms(2) by simp
  ultimately show ?thesis
    unfolding del_at_def by (metis remove1.simps(2) remove1_append)
qed

lemma map_del_at: "map f (del_at r ps) = del_at r (map f ps)"
  by (simp add: del_at_def take_map drop_map)

text \<open>The next positions without position \<open>r + 1\<close>.\<close>

lemma next_pos_del:
  assumes nx: "next_pos h (Suc n) i (ins r p) (map_option (ins r) qo)" and r: "r \<le> n"
  shows "next_pos (\<lambda>q. h (ins r q)) n i p qo"
proof -
  have inj: "ins r q \<le> Suc n \<longleftrightarrow> q \<le> n" for q using r by (auto simp: ins_def)
  show ?thesis
    using nx by (cases qo) (auto simp: next_pos_def ins_less inj)
qed

lemma next_pos_del_skip:
  assumes nx: "next_pos h (Suc n) i (ins r p) (Some (Suc r))"
    and nx2: "next_pos h (Suc n) i (Suc r) (map_option (ins r) qo)" and r: "r \<le> n"
  shows "next_pos (\<lambda>q. h (ins r q)) n i p qo"
proof -
  have p: "p \<le> r" using nx by (auto simp: next_pos_def ins_def split: if_splits)
  have inj: "ins r q \<le> Suc n \<longleftrightarrow> q \<le> n" for q using r by (auto simp: ins_def)
  have low: "h (ins r j) \<le> i" if "p < j" "j \<le> r" for j
    using nx that p by (auto simp: next_pos_def ins_def)
  have high: "Suc r < ins r j \<longleftrightarrow> r < j" for j by (auto simp: ins_def)
  show ?thesis
  proof (cases qo)
    case None
    have "h (ins r q) \<le> i" if "p < q" "q \<le> n" for q
      using low [of q] nx2 None that by (cases "q \<le> r") (auto simp: next_pos_def high inj)
    with None show ?thesis by (simp add: next_pos_def)
  next
    case (Some q)
    have "h (ins r j) \<le> i" if "p < j" "j < q" for j
      using low [of j] nx2 Some that by (cases "j \<le> r") (auto simp: next_pos_def high ins_less)
    with nx2 Some p show ?thesis by (auto simp: next_pos_def inj high)
  qed
qed

text \<open>A next position on the other side of the removed one, or behind it.\<close>

lemma next_pos_ins_form:
  assumes nx: "next_pos h (Suc n) i (ins r p) qo" and r: "r \<le> n" and ne: "qo \<noteq> Some (Suc r)"
  obtains qo' where "qo = map_option (ins r) qo'" "next_pos (\<lambda>q. h (ins r q)) n i p qo'"
proof (cases qo)
  case None
  with nx next_pos_del [OF _ r, of h i p None] that [of None] show thesis by simp
next
  case (Some q)
  with nx have qn: "q \<le> Suc n" by (simp add: next_pos_def)
  show thesis
  proof (cases rule: ins_cases [OF qn r])
    case 1
    with ne Some show thesis by simp
  next
    case (2 k)
    with nx Some next_pos_del [OF _ r, of h i p "Some k"] that [of "Some k"] show thesis by simp
  qed
qed

lemma unlink_frame: "same_frame sl (unlink_level x path i sl)"
  by (simp add: unlink_level_def Let_def)

lemma lev_unlink:
  assumes "\<And>i. i < m \<Longrightarrow> i < nlev sl (fst (path ! i))"
  shows "lev (fold (unlink_level x path) [0..<m] sl) y j =
    (if j < m \<and> y = fst (path ! j) then
       (if forward (lev sl y j) = Some x
        then \<lparr> forward = forward (lev sl (Nd x) j), span = span (lev sl y j) + (span (lev sl (Nd x) j) - 1) \<rparr>
        else (lev sl y j)\<lparr> span := span (lev sl y j) - 1 \<rparr>)
     else lev sl y j)"
  using assms
proof (induction m arbitrary: y j)
  case (Suc m)
  define s where "s = fold (unlink_level x path) [0..<m] sl"
  let ?u = "fst (path ! m)"
  have fr: "same_frame sl s" unfolding s_def by (rule same_frame_fold) (rule unlink_frame)
  have IH: "lev s y j =
    (if j < m \<and> y = fst (path ! j) then
       (if forward (lev sl y j) = Some x
        then \<lparr> forward = forward (lev sl (Nd x) j), span = span (lev sl y j) + (span (lev sl (Nd x) j) - 1) \<rparr>
        else (lev sl y j)\<lparr> span := span (lev sl y j) - 1 \<rparr>)
     else lev sl y j)" for y j
    unfolding s_def using Suc by simp
  have b: "m < nlev s ?u" using Suc.prems [of m] by (simp add: same_frame_nlev [OF fr])
  have here: "lev s z m = lev sl z m" for z by (simp add: IH)
  define l where "l = (if forward (lev sl ?u m) = Some x
        then \<lparr> forward = forward (lev sl (Nd x) m), span = span (lev sl ?u m) + (span (lev sl (Nd x) m) - 1) \<rparr>
        else (lev sl ?u m)\<lparr> span := span (lev sl ?u m) - 1 \<rparr>)"
  have "fold (unlink_level x path) [0..<Suc m] sl = unlink_level x path m s" by (simp add: s_def)
  also have "\<dots> = set_lev ?u m l s" by (simp add: unlink_level_def Let_def here l_def)
  finally have step: "lev (fold (unlink_level x path) [0..<Suc m] sl) y j =
      (if y = ?u \<and> j = m then l else lev s y j)"
    using b by (simp add: lev_set_lev)
  show ?case
    unfolding step IH l_def by (cases "j = m") (simp_all add: less_Suc_eq)
qed simp

lemma lower_level_le: "lower_level h n \<le> n"
  by (induction n) auto

lemma lower_level_pos: "1 \<le> n \<Longrightarrow> 1 \<le> lower_level h n"
  by (induction n) auto

lemma lower_level_none: "lower_level h n \<le> i \<Longrightarrow> i < n \<Longrightarrow> forward (h ! i) = None"
  by (induction n) (auto split: if_splits simp: less_Suc_eq)

lemma delete_cells:
  fixes s s' :: "('k, 'v) skiplist" and ps r path
  defines "h \<equiv> hgt s ps" and "n \<equiv> length ps - 1" and "ps' \<equiv> del_at r ps" and "x \<equiv> ps ! r"
  assumes shape: "shape_ok s ps" and cells: "cells_ok s ps" and r: "r < length ps"
    and path: "path_ok s ps r (sl_level s) path"
    and lev': "\<And>y j. lev s' y j =
      (if j < sl_level s \<and> y = fst (path ! j) then
         (if forward (lev s y j) = Some x
          then \<lparr> forward = forward (lev s (Nd x) j), span = span (lev s y j) + (span (lev s (Nd x) j) - 1) \<rparr>
          else (lev s y j)\<lparr> span := span (lev s y j) - 1 \<rparr>)
       else lev s y j)"
    and hgt': "\<And>q. 0 < q \<Longrightarrow> q \<le> n \<Longrightarrow> hgt s' ps' q = h (ins r q)" and hgt0: "hgt s' ps' 0 \<le> h 0"
  shows "cells_ok s' ps'"
  unfolding cells_ok_def
proof (intro allI impI)
  have len: "length ps = Suc n" "r \<le> n" "length ps' = n" using r by (auto simp: n_def ps'_def)
  have dist: "distinct ps" using shape by (simp add: shape_ok_def)
  fix p i assume p: "p \<le> length ps'" and i: "i < hgt s' ps' p"
  have cong: "cell_ok ps' (hgt s' ps') i p l = cell_ok ps' (\<lambda>q. h (ins r q)) i p l" for l
    by (rule cell_ok_cong) (simp add: hgt' len)
  have ih: "i < h (ins r p)"
    using i hgt0 hgt' [of p] p by (cases "p = 0") (auto simp: ins_def len)
  have insp: "ins r p \<le> Suc n" using p by (simp add: ins_def len)
  have old: "\<exists>qo. next_pos h (Suc n) i p qo \<and> forward (lev s (atp ps p) i) = map_option (\<lambda>q. ps ! (q - 1)) qo \<and>
      span (lev s (atp ps p) i) = int (case qo of None \<Rightarrow> Suc n | Some q \<Rightarrow> q) - int p"
    if "p \<le> Suc n" "i < h p" for p
    using cells that unfolding cells_ok_def cell_ok_def h_def len(1) by blast
  obtain qo where qo: "next_pos h (Suc n) i (ins r p) qo"
      "forward (lev s (atp ps (ins r p)) i) = map_option (\<lambda>q. ps ! (q - 1)) qo"
      "span (lev s (atp ps (ins r p)) i) = int (case qo of None \<Rightarrow> Suc n | Some q \<Rightarrow> q) - int (ins r p)"
    using old [OF insp ih] by blast
  have at: "atp ps' p = atp ps (ins r p)"
    using p r by (simp add: ps'_def atp_del_at)
  have il: "i < sl_level s"
    using hgt_pos(2) [OF shape, of "ins r p"] ih insp by (simp add: h_def len)
  then obtain u where u: "path ! i = (atp ps u, int u)" "is_pred h r i u"
    using path by (auto simp: path_ok_def h_def)
  have un: "u \<le> r" using u(2) by (simp add: is_pred_def)
  have same: "atp ps (ins r p) = atp ps u \<longleftrightarrow> ins r p = u"
    using atp_inj [OF dist, of "ins r p" u] insp un len by simp
  have low: "ins r p = p" if "ins r p = u" using that un by (auto simp: ins_def split: if_splits)
  have nth: "ps ! (ins r q - 1) = ps' ! (q - 1)" if "0 < q" "q \<le> n" for q
    using nth_del_at [OF r, of "q - 1"] that by (auto simp: ps'_def ins_def len)
  show "cell_ok ps' (hgt s' ps') i p (lev s' (atp ps' p) i)"
    unfolding cong
  proof (cases "qo = Some (Suc r)")
    case True
    with qo(1) have pr: "ins r p \<le> r" "is_pred h r i (ins r p)"
      using ih by (auto simp: next_pos_def is_pred_def)
    then have pu: "ins r p = u" using is_pred_unique [OF u(2)] by simp
    have hx: "i < h (Suc r)" using qo(1) True by (simp add: next_pos_def)
    obtain q2 where q2: "next_pos h (Suc n) i (Suc r) q2"
        "forward (lev s (Nd x) i) = map_option (\<lambda>q. ps ! (q - 1)) q2"
        "span (lev s (Nd x) i) = int (case q2 of None \<Rightarrow> Suc n | Some q \<Rightarrow> q) - int (Suc r)"
      using old [of "Suc r", OF _ hx] len by (auto simp: x_def)
    have q2n: "Suc r < q" "q \<le> Suc n" if "q2 = Some q" for q
      using q2(1) that by (simp_all add: next_pos_def)
    define qn where "qn = map_option (\<lambda>q. q - 1) q2"
    have q2': "q2 = map_option (ins r) qn"
      using q2n by (cases q2) (auto simp: qn_def ins_def)
    have nx: "next_pos (\<lambda>q. h (ins r q)) n i p qn"
      by (rule next_pos_del_skip [OF qo(1) [unfolded True] q2(1) [unfolded q2'] len(2)])
    have "lev s' (atp ps' p) i = \<lparr> forward = forward (lev s (Nd x) i),
        span = span (lev s (atp ps (ins r p)) i) + (span (lev s (Nd x) i) - 1) \<rparr>"
      unfolding at using il u(1) pu qo(2) True by (simp add: lev' x_def)
    moreover have "map_option (\<lambda>q. ps ! (q - 1)) q2 = map_option (\<lambda>q. ps' ! (q - 1)) qn"
      using nx nth unfolding q2' by (cases qn) (auto simp: next_pos_def)
    moreover have "int (case q2 of None \<Rightarrow> Suc n | Some q \<Rightarrow> q) - 1 = int (case qn of None \<Rightarrow> n | Some q \<Rightarrow> q)"
      using q2n by (cases q2) (auto simp: qn_def)
    moreover have "ins r p = p" using low pu by simp
    ultimately show "cell_ok ps' (\<lambda>q. h (ins r q)) i p (lev s' (atp ps' p) i)"
      using nx q2(2,3) qo(3) True unfolding cell_ok_def len(3) by (intro exI [of _ qn]) simp
  next
    case False
    from next_pos_ins_form [OF qo(1) len(2) False] obtain qn where
      qn: "qo = map_option (ins r) qn" "next_pos (\<lambda>q. h (ins r q)) n i p qn" by blast
    have fwd: "map_option (\<lambda>q. ps ! (q - 1)) qo = map_option (\<lambda>q. ps' ! (q - 1)) qn"
      using qn(2) nth unfolding qn(1) by (cases qn) (auto simp: next_pos_def)
    have qpos: "0 < q" "q \<le> Suc n" if "qo = Some q" for q using qo(1) that by (auto simp: next_pos_def)
    have notx: "forward (lev s (atp ps (ins r p)) i) \<noteq> Some x"
    proof
      assume "forward (lev s (atp ps (ins r p)) i) = Some x"
      then obtain q where q: "qo = Some q" "ps ! (q - 1) = ps ! r" by (auto simp: qo(2) x_def)
      then have "q - 1 = r" using nth_eq_iff_index_eq [OF dist, of "q - 1" r] qpos [OF q(1)] r len by auto
      with q(1) False qpos show False by auto
    qed
    show "cell_ok ps' (\<lambda>q. h (ins r q)) i p (lev s' (atp ps' p) i)"
    proof (cases "ins r p = u")
      case True
      have "lev s' (atp ps' p) i = (lev s (atp ps (ins r p)) i)
          \<lparr> span := span (lev s (atp ps (ins r p)) i) - 1 \<rparr>"
        unfolding at using il u(1) True notx by (simp add: lev')
      moreover have "ins r q = Suc q" if "qn = Some q" for q
        using next_pos_pred_gt [OF qo(1), of r "ins r q"] u(2) True that qn(1) by (auto simp: ins_def split: if_splits)
      then have "int (case qo of None \<Rightarrow> Suc n | Some q \<Rightarrow> q) - 1 = int (case qn of None \<Rightarrow> n | Some q \<Rightarrow> q)"
        unfolding qn(1) by (cases qn) simp_all
      ultimately show ?thesis
        using qn(2) qo(2,3) fwd low [OF True] unfolding cell_ok_def len(3) by (intro exI [of _ qn]) simp
    next
      case ne: False
      have lv: "lev s' (atp ps' p) i = lev s (atp ps (ins r p)) i"
        unfolding at using same ne u(1) by (simp add: lev')
      have "int (case qo of None \<Rightarrow> Suc n | Some q \<Rightarrow> q) - int (ins r p) =
          int (case qn of None \<Rightarrow> n | Some q \<Rightarrow> q) - int p"
      proof (cases "p \<le> r")
        case True
        then have insp': "ins r p = p" by (simp add: ins_def)
        have "\<not> is_pred h r i (ins r p)" using is_pred_unique [OF u(2)] ne by blast
        from next_pos_not_pred [OF qo(1) this _ ih] True insp' len obtain q where
          "qo = Some q" "q \<le> r" by auto
        then show ?thesis using qn(1) insp' by (auto simp: ins_def split: if_splits)
      next
        case False
        then have "ins r p = Suc p" by (simp add: ins_def)
        moreover have "ins r q = Suc q" if "qn = Some q" for q
          using qn(2) that False by (simp add: next_pos_def ins_def)
        ultimately show ?thesis unfolding qn(1) by (cases qn) simp_all
      qed
      then show ?thesis
        using qn(2) qo(2,3) fwd unfolding cell_ok_def lv len(3) by (intro exI [of _ qn]) simp
    qed
  qed
qed

definition link_out :: "nat \<Rightarrow> ('k, 'v) skiplist \<Rightarrow> ('k, 'v) skiplist" where
  "link_out x sl = (case forward (lev sl (Nd x) 0) of
      Some f \<Rightarrow> upd_node f (\<lambda>n. n\<lparr> backward := backward (nodes sl ! x) \<rparr>) sl
    | None \<Rightarrow> sl\<lparr> sl_tail := backward (nodes sl ! x) \<rparr>)"

lemma link_out_frame:
  shows "lev (link_out x sl) = lev sl" "entry (link_out x sl) = entry sl"
    "length (nodes (link_out x sl)) = length (nodes sl)"
    "length (levels (nodes (link_out x sl) ! c)) = length (levels (nodes sl ! c))"
    "hdr (link_out x sl) = hdr sl" "sl_level (link_out x sl) = sl_level sl" "sl_length (link_out x sl) = sl_length sl"
    "backward (nodes (link_out x sl) ! c) =
      (if forward (lev sl (Nd x) 0) = Some c \<and> c < length (nodes sl) then backward (nodes sl ! x)
       else backward (nodes sl ! c))"
    "sl_tail (link_out x sl) =
      (if forward (lev sl (Nd x) 0) = None then backward (nodes sl ! x) else sl_tail sl)"
  by (auto simp: link_out_def split: option.splits)

lemma hgt_next_none:
  assumes shape: "shape_ok sl ps" and cells: "cells_ok sl ps" and none: "forward (hdr sl ! i) = None"
    and i: "i < sl_level sl" and a: "a \<in> set ps"
  shows "length (levels (nodes sl ! a)) \<le> i"
proof -
  have "cell_ok ps (hgt sl ps) i 0 (lev sl Hdr i)"
    using cells i unfolding cells_ok_def by (metis atp_0 hgt_0 le0)
  then have nx: "next_pos (hgt sl ps) (length ps) i 0 None"
    using none by (auto simp: cell_ok_def lev_def)
  obtain j where "j < length ps" "a = ps ! j" using a by (auto simp: in_set_conv_nth)
  with nx show ?thesis by (auto simp: next_pos_def dest: spec [of _ "Suc j"])
qed

lemma delete_shape:
  fixes sl s :: "('k, 'v) skiplist"
  assumes shape: "shape_ok sl ps" and cells: "cells_ok s (del_at r ps)" and r: "r < length ps"
    and frame: "length (nodes s) = length (nodes sl)" "length (hdr s) = length (hdr sl)"
      "\<And>a. length (levels (nodes s ! a)) = length (levels (nodes sl ! a))"
      "sl_level s = sl_level sl" "sl_length s = sl_length sl"
    and up: "\<And>i. sl_level sl \<le> i \<Longrightarrow> hdr s ! i = hdr sl ! i"
  shows "shape_ok (s\<lparr> sl_level := lower_level (hdr s) (sl_level s), sl_length := sl_length s - 1 \<rparr>) (del_at r ps)"
    "cells_ok (s\<lparr> sl_level := lower_level (hdr s) (sl_level s), sl_length := sl_length s - 1 \<rparr>) (del_at r ps)"
proof -
  let ?l = "lower_level (hdr s) (sl_level s)"
  let ?s = "s\<lparr> sl_level := ?l, sl_length := sl_length s - 1 \<rparr>"
  have dist: "distinct ps" using shape by (simp add: shape_ok_def)
  note ds = del_at_set [OF dist r]
  have pos: "1 \<le> ?l" "?l \<le> sl_level sl"
    using lower_level_pos [of "sl_level s"] lower_level_le [of "hdr s" "sl_level s"] shape frame(4)
    by (simp_all add: shape_ok_def)
  have shape1: "shape_ok (s\<lparr> sl_length := sl_length s - 1 \<rparr>) (del_at r ps)"
    using shape r ds frame up by (auto simp: shape_ok_def)
  have "hgt (s\<lparr> sl_length := sl_length s - 1 \<rparr>) = hgt s" by (intro ext) (simp add: hgt_def)
  with cells have cells1: "cells_ok (s\<lparr> sl_length := sl_length s - 1 \<rparr>) (del_at r ps)"
    by (simp add: cells_ok_def)
  have short: "length (levels (nodes s ! a)) \<le> ?l" if a: "a \<in> set (del_at r ps)" for a
  proof (cases "?l < sl_level s")
    case True
    have "forward (hdr s ! ?l) = None" by (rule lower_level_none [OF order_refl True])
    with hgt_next_none [OF shape1 cells1, of ?l a] a True show ?thesis by simp
  next
    case False
    with shape1 a show ?thesis using lower_level_le [of "hdr s" "sl_level s"] by (auto simp: shape_ok_def)
  qed
  have none: "forward (hdr s ! i) = None" if "?l \<le> i" "i < MAX_LEVEL" for i
    using lower_level_none [OF that(1)] shape1 that by (cases "i < sl_level s") (auto simp: shape_ok_def)
  show "shape_ok ?s (del_at r ps)"
    using shape1 short none pos by (auto simp: shape_ok_def frame(4))
  have h: "hgt ?s (del_at r ps) q = hgt s (del_at r ps) q" if "0 < q" for q
    using that by (simp add: hgt_def)
  have c: "cell_ok (del_at r ps) (hgt ?s (del_at r ps)) i p l = cell_ok (del_at r ps) (hgt s (del_at r ps)) i p l" for i p l
    by (rule cell_ok_cong) (rule h, simp)
  have le: "hgt ?s (del_at r ps) p \<le> hgt s (del_at r ps) p" for p
    using pos by (simp add: hgt_def frame(4))
  have lv: "lev ?s = lev s" by simp
  show "cells_ok ?s (del_at r ps)"
    unfolding cells_ok_def c lv
  proof (intro allI impI)
    fix p i assume "p \<le> length (del_at r ps)" "i < hgt ?s (del_at r ps) p"
    with cells le [of p] show "cell_ok (del_at r ps) (hgt s (del_at r ps)) i p (lev s (atp (del_at r ps) p) i)"
      unfolding cells_ok_def using order_less_le_trans by blast
  qed
qed

lemma delete_back:
  fixes sl s :: "('k, 'v) skiplist"
  assumes backs: "back_ok sl ps" and dist: "distinct ps" and r: "r < length ps"
    and bk: "\<And>c. c \<in> set ps \<Longrightarrow> backward (nodes s ! c) =
      (if Suc r < length ps \<and> c = ps ! Suc r then backward (nodes sl ! (ps ! r)) else backward (nodes sl ! c))"
    and tl: "sl_tail s = (if Suc r < length ps then sl_tail sl else backward (nodes sl ! (ps ! r)))"
  shows "back_ok s (del_at r ps)"
proof -
  have old: "backward (nodes sl ! (ps ! j)) = (if j = 0 then None else Some (ps ! (j - 1)))" if "j < length ps" for j
    using backs that by (simp add: back_ok_def)
  have new: "backward (nodes s ! (ps ! j)) =
      (if j = Suc r then backward (nodes sl ! (ps ! r)) else backward (nodes sl ! (ps ! j)))" if "j < length ps" for j
  proof -
    have "(Suc r < length ps \<and> ps ! j = ps ! Suc r) \<longleftrightarrow> j = Suc r"
      using nth_eq_iff_index_eq [OF dist that] that by auto
    with bk [of "ps ! j"] that show ?thesis by simp
  qed
  have "backward (nodes s ! (del_at r ps ! j)) = (if j = 0 then None else Some (del_at r ps ! (j - 1)))"
    if j: "j < length ps - 1" for j
  proof -
    consider "j < r" | "j = r" | "r < j" by linarith
    then show ?thesis
    proof cases
      case 1
      with j r have "del_at r ps ! j = ps ! j" "j < length ps" "j \<noteq> Suc r" by (simp_all add: nth_del_at)
      moreover have "del_at r ps ! (j - 1) = ps ! (j - 1)" using 1 j r by (cases j) (simp_all add: nth_del_at)
      ultimately show ?thesis by (simp add: new old)
    next
      case 2
      with j r have "del_at r ps ! j = ps ! Suc r" "Suc r < length ps" by (simp_all add: nth_del_at)
      moreover have "del_at r ps ! (j - 1) = ps ! (j - 1)" if "0 < j" using 2 j r that by (simp add: nth_del_at)
      ultimately show ?thesis using 2 r by (simp add: new old)
    next
      case 3
      with j r have "del_at r ps ! j = ps ! Suc j" "Suc j < length ps" "j \<noteq> r" "j \<noteq> 0" by (simp_all add: nth_del_at)
      moreover have "del_at r ps ! (j - 1) = ps ! j" using 3 j r by (cases j) (simp_all add: nth_del_at)
      ultimately show ?thesis by (simp add: new old)
    qed
  qed
  moreover have "sl_tail s = (if del_at r ps = [] then None else Some (last (del_at r ps)))"
  proof (cases "Suc r < length ps")
    case True
    then have "drop (Suc r) ps \<noteq> []" "ps \<noteq> []" by auto
    then have "last (del_at r ps) = last ps" "del_at r ps \<noteq> []" by (simp_all add: del_at_def last_drop)
    with True backs \<open>ps \<noteq> []\<close> show ?thesis by (simp add: tl back_ok_def)
  next
    case False
    then have eq: "del_at r ps = take r ps" by (simp add: del_at_def)
    have "last (take r ps) = ps ! (r - 1)" if "0 < r" using that r last_conv_nth [of "take r ps"] by (cases ps) (auto simp: min_def)
    moreover have "take r ps = [] \<longleftrightarrow> r = 0" using r by auto
    ultimately show ?thesis using False r unfolding eq by (simp add: tl old)
  qed
  ultimately show ?thesis using r by (simp add: back_ok_def)
qed

lemma sl_delete_absent:
  assumes rep: "sl_rep sl ps" and no: "(key, val) \<notin> set (map (entry sl) ps)"
  shows "sl_delete key val sl = (False, sl)"
proof -
  let ?c = "\<lambda>e. nodeLess e (key, val)"
  define r where "r = length (takeWhile ?c (map (entry sl) ps))"
  from rep have shape: "shape_ok sl ps" and cells: "cells_ok sl ps" and sorted: "oi_sorted (map (entry sl) ps)"
    by (auto simp: sl_rep_def)
  have split: "splits_at ?c (map (entry sl) ps) r"
    unfolding r_def by (rule splits_takeWhile [OF sorted down_closed_less])
  then have r: "r \<le> length ps" by (simp add: splits_at_def)
  have "entry sl (ps ! r) \<noteq> (key, val)" if "r < length ps"
    using no that by (metis length_map nth_map nth_mem)
  then show ?thesis
    unfolding sl_delete_def Let_def search_0 [OF shape cells split] fst_conv forward_0 [OF shape cells r]
    by simp
qed

lemma delete_rep:
  assumes rep: "sl_rep sl ps" and mem: "(key, val) \<in> set (map (entry sl) ps)"
  shows "fst (sl_delete key val sl) \<and> (\<exists>ps'. sl_rep (snd (sl_delete key val sl)) ps' \<and>
    map (entry (snd (sl_delete key val sl))) ps' = oi_delete (key, val) (map (entry sl) ps))"
proof -
  from rep have shape: "shape_ok sl ps" and cells: "cells_ok sl ps" and backs: "back_ok sl ps"
    and sorted: "oi_sorted (map (entry sl) ps)" by (auto simp: sl_rep_def)
  let ?c = "\<lambda>e. nodeLess e (key, val)"
  define es where "es = map (entry sl) ps"
  define r where "r = length (takeWhile ?c (map (entry sl) ps))"
  define path where "path = search sl ?c"
  have split: "splits_at ?c (map (entry sl) ps) r"
    unfolding r_def by (rule splits_takeWhile [OF sorted down_closed_less])
  obtain k where k: "k < length ps" "entry sl (ps ! k) = (key, val)"
    using mem by (auto simp: in_set_conv_nth)
  have le: "r \<le> k" using split k by (force simp: splits_at_def)
  then have r: "r < length ps" using k(1) by simp
  have er: "entry sl (ps ! r) = (key, val)"
  proof (cases "r = k")
    case False
    with le have "r < k" by simp
    then have "\<not> nodeLess (entry sl (ps ! k)) (entry sl (ps ! r))"
      using sorted k(1) r unfolding oi_sorted_def sorted_wrt_iff_nth_less
      by (metis length_map nth_map)
    moreover have "\<not> nodeLess (entry sl (ps ! r)) (key, val)" using split r by (auto simp: splits_at_def)
    ultimately show ?thesis using nodeLess_total k(2) by metis
  qed (simp add: k)
  define x where "x = ps ! r"
  define s where "s = fold (unlink_level x path) [0..<sl_level sl] sl"
  define s2 where "s2 = link_out x s"
  define s' where "s' = s2\<lparr> sl_level := lower_level (hdr s2) (sl_level s2), sl_length := sl_length s2 - 1 \<rparr>"
  have path: "path_ok sl ps r (sl_level sl) path"
    unfolding path_def by (rule search_spec [OF shape cells split])
  have "sl_delete key val sl = (True, deleteNode x path sl)"
    unfolding sl_delete_def Let_def search_0 [OF shape cells split] fst_conv
      forward_0 [OF shape cells less_imp_le [OF r]]
    using r er by (simp add: x_def path_def)
  also have "deleteNode x path sl = s'"
    unfolding deleteNode_def Let_def s'_def s2_def link_out_def s_def by simp
  finally have del: "sl_delete key val sl = (True, s')" .
  note out = link_out_frame [where x = x and sl = s, folded s2_def]
  have fr: "same_frame sl s" unfolding s_def by (rule same_frame_fold) (rule unlink_frame)
  have dist: "distinct ps" using shape by (simp add: shape_ok_def)
  have nl: "i < nlev sl (fst (path ! i)) \<and> fst (path ! i) \<noteq> Nd x" if il: "i < sl_level sl" for i
  proof -
    obtain p where p: "path ! i = (atp ps p, int p)" "is_pred (hgt sl ps) r i p"
      using path il by (auto simp: path_ok_def)
    then have pn: "p \<le> r" "p \<le> length ps" "i < hgt sl ps p" using r by (auto simp: is_pred_def)
    have "Nd x = atp ps (Suc r)" by (simp add: x_def)
    then have "atp ps p \<noteq> Nd x" using atp_inj [OF dist pn(2), of "Suc r"] r pn(1) by simp
    with hgt_nlev [OF shape pn(2)] pn p(1) show ?thesis by simp
  qed
  have lev1: "lev s y j = (if j < sl_level sl \<and> y = fst (path ! j) then
       (if forward (lev sl y j) = Some x
        then \<lparr> forward = forward (lev sl (Nd x) j), span = span (lev sl y j) + (span (lev sl (Nd x) j) - 1) \<rparr>
        else (lev sl y j)\<lparr> span := span (lev sl y j) - 1 \<rparr>)
     else lev sl y j)" for y j
    unfolding s_def by (rule lev_unlink) (use nl in blast)
  have lenS: "length (levels (nodes s2 ! a)) = length (levels (nodes sl ! a))" for a
    using fr by (simp add: out same_frame_def)
  have cells2: "cells_ok s2 (del_at r ps)"
  proof (rule delete_cells [OF shape cells r path])
    show "lev s2 y j = (if j < sl_level sl \<and> y = fst (path ! j) then
       (if forward (lev sl y j) = Some (ps ! r)
        then \<lparr> forward = forward (lev sl (Nd (ps ! r)) j), span = span (lev sl y j) + (span (lev sl (Nd (ps ! r)) j) - 1) \<rparr>
        else (lev sl y j)\<lparr> span := span (lev sl y j) - 1 \<rparr>)
     else lev sl y j)" for y j
      unfolding out(1) by (rule lev1 [unfolded x_def])
    show "hgt s2 (del_at r ps) q = hgt sl ps (ins r q)" if "0 < q" "q \<le> length ps - 1" for q
      using that r nth_del_at [OF r, of "q - 1"] by (auto simp: hgt_def ins_def lenS)
    show "hgt s2 (del_at r ps) 0 \<le> hgt sl ps 0" using fr by (simp add: out same_frame_def)
  qed
  have up: "hdr s2 ! i = hdr sl ! i" if "sl_level sl \<le> i" for i
    using lev1 [of Hdr i] that by (simp add: lev_def out)
  have frames: "length (nodes s2) = length (nodes sl)" "length (hdr s2) = length (hdr sl)"
      "sl_level s2 = sl_level sl" "sl_length s2 = sl_length sl"
    using fr by (simp_all add: out same_frame_def)
  note shape' = delete_shape [OF shape cells2 r frames(1,2) lenS frames(3,4) up, folded s'_def]
  have fwdx: "forward (lev s (Nd x) 0) = (if Suc r < length ps then Some (ps ! Suc r) else None)"
  proof -
    have "0 < sl_level sl" using shape by (simp add: shape_ok_def)
    then have ne: "\<not> (0 < sl_level sl \<and> Nd x = fst (path ! 0))" using nl [of 0] by auto
    have "lev s (Nd x) 0 = lev sl (Nd x) 0" unfolding lev1 if_not_P [OF ne] ..
    with forward_0 [OF shape cells, of "Suc r"] r show ?thesis by (simp add: x_def)
  qed
  have bx: "backward (nodes s ! a) = backward (nodes sl ! a)" for a
    using fr by (simp add: same_frame_def)
  have "back_ok s2 (del_at r ps)"
  proof (rule delete_back [OF backs dist r])
    fix c assume "c \<in> set ps"
    then have "c < length (nodes s)" using fr shape by (auto simp: same_frame_def shape_ok_def)
    then show "backward (nodes s2 ! c) = (if Suc r < length ps \<and> c = ps ! Suc r
        then backward (nodes sl ! (ps ! r)) else backward (nodes sl ! c))"
      unfolding out(8) fwdx bx unfolding x_def by auto
  next
    show "sl_tail s2 = (if Suc r < length ps then sl_tail sl else backward (nodes sl ! (ps ! r)))"
      unfolding out(9) fwdx bx unfolding x_def using fr by (simp add: same_frame_def)
  qed
  then have back': "back_ok s' (del_at r ps)" by (simp add: s'_def back_ok_def)
  have ents: "entry s' = entry sl" by (simp add: s'_def out same_frame_entry [OF fr])
  have "\<forall>j < r. map (entry sl) ps ! j \<noteq> (key, val)"
  proof (intro allI impI)
    fix j assume "j < r"
    then have "nodeLess (map (entry sl) ps ! j) (key, val)"
      using split r by (simp add: splits_at_def del: nth_map)
    then show "map (entry sl) ps ! j \<noteq> (key, val)" by (metis nodeLess_irrefl)
  qed
  then have "remove1 (key, val) (map (entry sl) ps) = del_at r (map (entry sl) ps)"
    using r er by (intro remove1_del_at) simp_all
  then have ent: "map (entry s') (del_at r ps) = oi_delete (key, val) (map (entry sl) ps)"
    by (simp add: ents map_del_at oi_delete_def)
  have "oi_sorted (map (entry s') (del_at r ps))"
    unfolding ent by (rule oi_delete_sorted) (rule sorted)
  with shape' back' ent show ?thesis
    unfolding del sl_rep_def fst_conv snd_conv by blast
qed

section \<open>Scans\<close>

text \<open>The shared loop of a scan on a list of nodes.\<close>

definition walk_list :: "('k \<Rightarrow> bool) \<Rightarrow> nat \<Rightarrow> nat option \<Rightarrow> ('k \<times> 'v) list \<Rightarrow> ('k \<times> 'v) list" where
  "walk_list ok offset cnt es =
     (let hits = drop offset (takeWhile (\<lambda>e. ok (fst e)) es) in
      case cnt of None \<Rightarrow> hits | Some n \<Rightarrow> take n hits)"

text \<open>The list of nodes a walk still has before it.\<close>

definition first_node :: "nat list \<Rightarrow> nat option" where
  "first_node as = (case as of [] \<Rightarrow> None | a # _ \<Rightarrow> Some a)"

fun chain :: "(nat \<Rightarrow> nat option) \<Rightarrow> nat list \<Rightarrow> bool" where
  "chain step [] = True"
| "chain step (a # as) = (step a = first_node as \<and> chain step as)"

lemma chainI:
  "\<forall>j < length as. step (as ! j) = (if Suc j < length as then Some (as ! Suc j) else None) \<Longrightarrow> chain step as"
proof (induction as)
  case (Cons a as)
  then have "step a = first_node as" by (cases as) (auto simp: first_node_def)
  moreover have "chain step as"
    by (rule Cons.IH) (use Cons.prems in \<open>auto simp: All_less_Suc2\<close>)
  ultimately show ?case by simp
qed simp

lemma walk_spec:
  assumes "chain step as" "length as < fl"
  shows "walk fl sl step ok (first_node as) offset cnt = walk_list ok offset cnt (map (entry sl) as)"
  using assms
proof (induction as arbitrary: fl offset cnt)
  case Nil
  then show ?case by (cases fl) (auto simp: walk_list_def first_node_def split: option.splits)
next
  case (Cons a as)
  obtain n where n: "fl = Suc n" "length as < n" using Cons.prems(2) by (cases fl) auto
  have st: "step a = first_node as" and ch: "chain step as" using Cons.prems(1) by auto
  have key: "fst (entry sl a) = nkey (nodes sl ! a)" by (simp add: entry_def)
  have IH: "walk n sl step ok (step a) offset' cnt' = walk_list ok offset' cnt' (map (entry sl) as)" for offset' cnt'
    unfolding st by (rule Cons.IH [OF ch n(2)])
  show ?case
    unfolding first_node_def
    by (cases cnt; cases offset; cases "ok (nkey (nodes sl ! a))")
       (auto simp: n(1) IH walk_list_def key dec_def Let_def take_Cons' split: option.splits)
qed

lemma walk_list_window:
  "walk_list ok (roffset r) (rcount r) es = window r (takeWhile (\<lambda>e. ok (fst e)) es)"
  by (simp add: walk_list_def window_def Let_def)

lemma forward_chain:
  assumes rep: "sl_rep sl ps" and r: "r \<le> length ps"
  shows "chain (\<lambda>a. forward (lev sl (Nd a) 0)) (drop r ps)"
    "forward (lev sl (atp ps r) 0) = first_node (drop r ps)" "length (drop r ps) < fuel sl"
proof -
  from rep have shape: "shape_ok sl ps" and cells: "cells_ok sl ps" by (auto simp: sl_rep_def)
  show "chain (\<lambda>a. forward (lev sl (Nd a) 0)) (drop r ps)"
  proof (intro chainI allI impI)
    fix j assume "j < length (drop r ps)"
    then have "r + j < length ps" "Suc j < length (drop r ps) \<longleftrightarrow> Suc (r + j) < length ps" by auto
    then show "forward (lev sl (Nd (drop r ps ! j)) 0) =
        (if Suc j < length (drop r ps) then Some (drop r ps ! Suc j) else None)"
      using forward_0 [OF shape cells, of "Suc (r + j)"] by simp
  qed
  show "forward (lev sl (atp ps r) 0) = first_node (drop r ps)"
    using forward_0 [OF shape cells r] r by (auto simp: first_node_def Cons_nth_drop_Suc [symmetric])
  show "length (drop r ps) < fuel sl" using fuel_enough [OF shape] by simp
qed

lemma backward_chain:
  assumes rep: "sl_rep sl ps" and r: "r \<le> length ps"
  shows "chain (\<lambda>a. backward (nodes sl ! a)) (rev (take r ps))"
    "(if r = 0 then None else Some (ps ! (r - 1))) = first_node (rev (take r ps))"
    "length (rev (take r ps)) < fuel sl"
proof -
  from rep have shape: "shape_ok sl ps" and backs: "back_ok sl ps" by (auto simp: sl_rep_def)
  let ?as = "rev (take r ps)"
  have at: "?as ! k = ps ! (r - Suc k)" if "k < r" for k
    using that r nth_take [of "r - Suc k" r ps] by (simp add: rev_nth min_absorb2)
  show "chain (\<lambda>a. backward (nodes sl ! a)) ?as"
  proof (intro chainI allI impI)
    fix j assume j: "j < length ?as"
    have "?as ! j = ps ! (r - Suc j)" using j r by (intro at) simp
    moreover have "?as ! Suc j = ps ! (r - Suc j - 1)" if "Suc j < r" using at [OF that] by simp
    moreover have "r - Suc j < length ps" using j r by simp
    ultimately show "backward (nodes sl ! (?as ! j)) = (if Suc j < length ?as then Some (?as ! Suc j) else None)"
      using backs j r by (auto simp: back_ok_def min_def)
  qed
  show "(if r = 0 then None else Some (ps ! (r - 1))) = first_node ?as"
  proof (cases r)
    case (Suc k)
    with r have "?as = ps ! k # rev (take k ps)" by (simp add: take_Suc_conv_app_nth)
    with Suc show ?thesis by (simp add: first_node_def)
  qed (simp add: first_node_def)
  show "length ?as < fuel sl" using fuel_enough [OF shape] r by simp
qed

section \<open>Scans refine\<close>

lemma splits_drop_take:
  assumes "splits_at c es r"
  shows "drop r es = filter (\<lambda>e. \<not> c e) es" "take r es = filter c es"
proof -
  define a b where "a = take r es" and "b = drop r es"
  have es: "es = a @ b" by (simp add: a_def b_def)
  have r: "r \<le> length es" using assms by (simp add: splits_at_def)
  have "c e" if "e \<in> set a" for e
    using that assms r by (auto simp: a_def in_set_conv_nth splits_at_def)
  moreover have "\<not> c e" if mem: "e \<in> set b" for e
  proof -
    obtain j where "j < length b" "e = b ! j" using mem by (auto simp: in_set_conv_nth)
    with r have "e = es ! (r + j)" "r + j < length es" by (auto simp: b_def)
    with assms show ?thesis by (auto simp: splits_at_def)
  qed
  ultimately have "filter (\<lambda>e. \<not> c e) a = []" "filter (\<lambda>e. \<not> c e) b = b" "filter c a = a" "filter c b = []"
    by (simp_all add: filter_id_conv filter_empty_conv)
  then show "drop r es = filter (\<lambda>e. \<not> c e) es" "take r es = filter c es"
    unfolding a_def [symmetric] b_def [symmetric] unfolding es by simp_all
qed

lemma lowerBound_spec:
  assumes rep: "sl_rep sl ps"
  obtains r where "splits_at (\<lambda>(k, v). if strict then k \<le> bound else k < bound) (map (entry sl) ps) r"
    "r \<le> length ps" "lowerBound bound strict sl = forward (lev sl (atp ps r) 0)"
    "lowerBound bound strict sl = (if r < length ps then Some (ps ! r) else None)"
proof -
  let ?c = "\<lambda>(k, v). if strict then k \<le> bound else k < bound"
  define r where "r = length (takeWhile ?c (map (entry sl) ps))"
  from rep have shape: "shape_ok sl ps" and cells: "cells_ok sl ps" and sorted: "oi_sorted (map (entry sl) ps)"
    by (auto simp: sl_rep_def)
  have split: "splits_at ?c (map (entry sl) ps) r"
    unfolding r_def by (rule splits_takeWhile [OF sorted down_closed_key])
  then have r: "r \<le> length ps" by (simp add: splits_at_def)
  have "lowerBound bound strict sl = forward (lev sl (atp ps r) 0)"
    unfolding lowerBound_def search_0 [OF shape cells split] by simp
  with that split r forward_0 [OF shape cells r] show thesis by simp
qed

lemma takeWhile_filter_sorted:
  assumes "oi_sorted es" "\<And>a b. a \<le> b \<Longrightarrow> c b \<Longrightarrow> c a"
  shows "takeWhile (\<lambda>e. c (fst e)) es = filter (\<lambda>e. c (fst e)) es"
  using oi_sorted_keys [OF assms(1)]
proof (induction es)
  case (Cons e es)
  have "filter (\<lambda>e. c (fst e)) es = []" if "\<not> c (fst e)"
    using Cons.prems that assms(2) by (auto simp: filter_empty_conv)
  with Cons show ?case by auto
qed simp

lemma takeWhile_filter_rev:
  assumes "oi_sorted es" "\<And>a b. a \<le> b \<Longrightarrow> c a \<Longrightarrow> c b"
  shows "takeWhile (\<lambda>e. c (fst e)) (rev es) = filter (\<lambda>e. c (fst e)) (rev es)"
  using oi_sorted_keys [OF assms(1)]
proof (induction es rule: rev_induct)
  case (snoc e es)
  have "filter (\<lambda>e. c (fst e)) (rev es) = []" if "\<not> c (fst e)"
    using snoc.prems that assms(2) by (auto simp: filter_empty_conv sorted_append)
  with snoc show ?case by (auto simp: sorted_append)
qed simp

lemma sorted_filter_oi: "oi_sorted es \<Longrightarrow> oi_sorted (filter P es)"
  by (simp add: oi_sorted_def sorted_wrt_filter)

lemma range_start_rep:
  assumes rep: "sl_rep sl ps"
  obtains q where "q \<le> length ps" "range_start r sl = first_node (drop q ps)"
    "drop q (map (entry sl) ps) = filter (\<lambda>e. from_start r (fst e)) (map (entry sl) ps)"
proof (cases "gte r = None \<and> gt r = None")
  case True
  then have fs: "from_start r = (\<lambda>k. True)" by (auto simp: from_start_def)
  have "range_start r sl = first_node (drop 0 ps)"
    using True forward_chain(2) [OF rep, of 0] by (simp add: range_start_def)
  then show thesis by (rule that [of 0, rotated]) (simp_all add: fs)
next
  case False
  let ?es = "map (entry sl) ps"
  let ?b = "case gte r of Some b \<Rightarrow> b | None \<Rightarrow> the (gt r)" and ?s = "gt r \<noteq> None"
  obtain q where q: "splits_at (\<lambda>(k, v). if ?s then k \<le> ?b else k < ?b) ?es q" "q \<le> length ps"
      "lowerBound ?b ?s sl = forward (lev sl (atp ps q) 0)"
    by (rule lowerBound_spec [OF rep])
  have cond: "(\<not> (case e of (k, v) \<Rightarrow> if ?s then k \<le> ?b else k < ?b)) = from_start r (fst e)" for e
    using False by (cases e) (auto simp: from_start_def not_le not_less split: option.splits)
  have "drop q ?es = filter (\<lambda>e. from_start r (fst e)) ?es"
    using splits_drop_take(1) [OF q(1)] unfolding cond .
  moreover have "range_start r sl = first_node (drop q ps)"
    using q(3) False forward_chain(2) [OF rep q(2)] by (auto simp: range_start_def)
  ultimately show thesis using that q(2) by blast
qed

lemma range_end_rep:
  assumes rep: "sl_rep sl ps"
  obtains q where "q \<le> length ps" "range_end r sl = first_node (rev (take q ps))"
    "take q (map (entry sl) ps) = filter (\<lambda>e. from_end r (fst e)) (map (entry sl) ps)"
proof -
  let ?es = "map (entry sl) ps"
  from rep have backs: "back_ok sl ps" by (auto simp: sl_rep_def)
  have before: "(case lowerBound b s sl of Some a \<Rightarrow> backward (nodes sl ! a) | None \<Rightarrow> sl_tail sl) =
      first_node (rev (take q ps))"
    if "q \<le> length ps" "lowerBound b s sl = (if q < length ps then Some (ps ! q) else None)" for b s q
    unfolding backward_chain(2) [OF rep that(1), symmetric]
    using that backs by (cases "q < length ps") (auto simp: back_ok_def last_conv_nth)
  have tail: "sl_tail sl = first_node (rev (take (length ps) ps))"
    unfolding backward_chain(2) [OF rep order_refl, symmetric]
    using backs by (auto simp: back_ok_def last_conv_nth)
  have bound: "\<exists>q \<le> length ps. (case lowerBound b s sl of Some a \<Rightarrow> backward (nodes sl ! a) | None \<Rightarrow> sl_tail sl) =
        first_node (rev (take q ps)) \<and> take q ?es = filter (\<lambda>e. if s then fst e \<le> b else fst e < b) ?es" for b s
  proof -
    obtain q where q: "splits_at (\<lambda>(k, v). if s then k \<le> b else k < b) ?es q" "q \<le> length ps"
        "lowerBound b s sl = (if q < length ps then Some (ps ! q) else None)"
      by (rule lowerBound_spec [OF rep])
    have "take q ?es = filter (\<lambda>e. if s then fst e \<le> b else fst e < b) ?es"
      using splits_drop_take(2) [OF q(1)] by (simp add: case_prod_beta')
    with before [OF q(2,3)] q(2) show ?thesis by blast
  qed
  consider b where "lte r = Some b" | b where "lte r = None" "lt r = Some b" | "lte r = None" "lt r = None"
    by (cases "lte r"; cases "lt r") auto
  then show thesis
  proof cases
    case 1
    then have "range_end r sl = (case lowerBound b True sl of Some a \<Rightarrow> backward (nodes sl ! a) | None \<Rightarrow> sl_tail sl)"
      "from_end r = (\<lambda>k. k \<le> b)" by (auto simp: range_end_def from_end_def Let_def)
    with bound [of b True] that show thesis by auto
  next
    case 2
    then have "range_end r sl = (case lowerBound b False sl of Some a \<Rightarrow> backward (nodes sl ! a) | None \<Rightarrow> sl_tail sl)"
      "from_end r = (\<lambda>k. k < b)" by (auto simp: range_end_def from_end_def Let_def)
    with bound [of b False] that show thesis by auto
  next
    case 3
    then have "range_end r sl = sl_tail sl" "from_end r = (\<lambda>k. True)"
      by (auto simp: range_end_def from_end_def)
    with tail that [of "length ps"] show thesis by simp
  qed
qed

text \<open>A scan is a walk over a chain of nodes that hold the entries from its start on.\<close>

lemma scan_rep:
  assumes rep: "sl_rep sl ps"
  obtains as where "chain (iter_step r sl) as" "length as < fuel sl" "fst (iter_start r sl) = first_node as"
    "walk_list (iter_ok r) (roffset r) (rcount r) (map (entry sl) as) = oi_range r (map (entry sl) ps)"
proof -
  let ?es = "map (entry sl) ps"
  from rep have sorted: "oi_sorted ?es" by (auto simp: sl_rep_def)
  have down: "below r b \<Longrightarrow> below r a" if "a \<le> b" for a b
    using that by (auto simp: below_def split: option.splits)
  have up: "above r a \<Longrightarrow> above r b" if "a \<le> b" for a b
    using that by (auto simp: above_def split: option.splits)
  show thesis
  proof (cases "rreverse r")
    case False
    obtain q where q: "q \<le> length ps" "range_start r sl = first_node (drop q ps)"
      "drop q ?es = filter (\<lambda>e. from_start r (fst e)) ?es" by (rule range_start_rep [OF rep])
    have "takeWhile (\<lambda>e. below r (fst e)) (drop q ?es) = filter (\<lambda>e. below r (fst e)) (drop q ?es)"
      unfolding q(3) by (rule takeWhile_filter_sorted [OF sorted_filter_oi [OF sorted] down])
    then have tw: "takeWhile (\<lambda>e. below r (fst e)) (drop q ?es) =
        filter (\<lambda>e. from_start r (fst e) \<and> below r (fst e)) ?es"
      unfolding q(3) by (simp add: conj_commute)
    have "iter_step r sl = (\<lambda>a. forward (lev sl (Nd a) 0))" "iter_ok r = below r"
      using False by (auto simp: iter_step_def iter_ok_def)
    with that [of "drop q ps"] forward_chain [OF rep q(1)] q(2) tw False show thesis
      by (simp add: walk_list_window oi_range_def iter_start_def flip: drop_map)
  next
    case True
    obtain q where q: "q \<le> length ps" "range_end r sl = first_node (rev (take q ps))"
      "take q ?es = filter (\<lambda>e. from_end r (fst e)) ?es" by (rule range_end_rep [OF rep])
    have "takeWhile (\<lambda>e. above r (fst e)) (rev (take q ?es)) = filter (\<lambda>e. above r (fst e)) (rev (take q ?es))"
      unfolding q(3) by (rule takeWhile_filter_rev [OF sorted_filter_oi [OF sorted] up])
    then have tw: "takeWhile (\<lambda>e. above r (fst e)) (rev (take q ?es)) =
        filter (\<lambda>e. from_end r (fst e) \<and> above r (fst e)) (rev ?es)"
      unfolding q(3) rev_filter [symmetric] by (simp add: conj_commute)
    have "iter_step r sl = (\<lambda>a. backward (nodes sl ! a))" "iter_ok r = above r"
      using True by (auto simp: iter_step_def iter_ok_def)
    moreover have "map (entry sl) (rev (take q ps)) = rev (take q ?es)" by (simp add: rev_map take_map)
    ultimately show thesis
      using that [of "rev (take q ps)"] backward_chain [OF rep q(1)] q(2) tw True
      by (simp only: walk_list_window oi_range_def iter_start_def if_True fst_conv)
  qed
qed

lemma sl_range_rep:
  assumes rep: "sl_rep sl ps"
  shows "sl_range r sl = oi_range r (map (entry sl) ps)"
proof -
  obtain as where as: "chain (iter_step r sl) as" "length as < fuel sl" "fst (iter_start r sl) = first_node as"
    "walk_list (iter_ok r) (roffset r) (rcount r) (map (entry sl) as) = oi_range r (map (entry sl) ps)"
    by (rule scan_rep [OF rep])
  have "sl_range r sl = walk (fuel sl) sl (iter_step r sl) (iter_ok r) (fst (iter_start r sl)) (roffset r) (rcount r)"
    by (cases "rreverse r")
       (simp_all add: sl_range_def iter_start_def iter_step_def [abs_def] iter_ok_def [abs_def])
  also have "\<dots> = oi_range r (map (entry sl) ps)"
    unfolding as(3) by (subst walk_spec [OF as(1,2)]) (rule as(4))
  finally show ?thesis .
qed

lemma toArray_rep: "sl_rep sl ps \<Longrightarrow> toArray sl = map (entry sl) ps"
  using forward_chain [of sl ps 0] walk_spec [of "\<lambda>a. forward (lev sl (Nd a) 0)" ps "fuel sl" sl "\<lambda>k. True" 0 None]
  by (simp add: toArray_def walk_list_def)

section \<open>The generator\<close>

lemma iter_next_fuel:
  "chain (iter_step r sl) as \<Longrightarrow> length as < n \<Longrightarrow> length as < n' \<Longrightarrow>
     iter_next n r sl (first_node as, offset, cnt) = iter_next n' r sl (first_node as, offset, cnt)"
proof (induction as arbitrary: n n' offset)
  case Nil
  then show ?case by (cases n; cases n') (simp_all add: first_node_def)
next
  case (Cons a as)
  obtain k k' where k: "n = Suc k" "n' = Suc k'" "length as < k" "length as < k'"
    using Cons.prems(2,3) by (cases n; cases n') auto
  have st: "iter_step r sl a = first_node as" and ch: "chain (iter_step r sl) as" using Cons.prems(1) by auto
  show ?case using Cons.IH [OF ch k(3,4), of "offset - 1"]
    by (simp add: k(1,2) first_node_def [of "a # as"] st)
qed

lemma iter_take_spec:
  assumes "chain (iter_step r sl) as" "length as < fuel sl"
  shows "iter_take m r sl (first_node as, offset, cnt) =
    take m (walk_list (iter_ok r) offset cnt (map (entry sl) as))"
  using assms
proof (induction as arbitrary: m offset cnt)
  case Nil
  then show ?case
    by (cases m) (auto simp: first_node_def walk_list_def fuel_def split: option.splits)
next
  case (Cons a as)
  have st: "iter_step r sl a = first_node as" and ch: "chain (iter_step r sl) as" and len: "length as < fuel sl"
    using Cons.prems by auto
  obtain k where k: "fuel sl = Suc k" "length as < k" using Cons.prems(2) by (cases "fuel sl") auto
  have key: "fst (entry sl a) = nkey (nodes sl ! a)" by (simp add: entry_def)
  note IH = Cons.IH [OF ch len]
  have skip: "iter_next k r sl (first_node as, offset', cnt') = iter_next (fuel sl) r sl (first_node as, offset', cnt')"
    for offset' cnt' by (rule iter_next_fuel [OF ch k(2) len])
  have here: "iter_next (fuel sl) r sl (first_node (a # as), offset, cnt) =
      (if \<not> iter_ok r (nkey (nodes sl ! a)) then None
       else if offset > 0 then iter_next (fuel sl) r sl (first_node as, offset - 1, cnt)
       else if cnt \<noteq> Some 0 then Some (entry sl a, (first_node as, offset, dec cnt)) else None)"
    by (subst k(1)) (simp add: first_node_def [of "a # as"] st skip)
  show ?case
  proof (cases m)
    case (Suc m')
    have step: "iter_take m r sl (first_node (a # as), offset, cnt) =
      (if \<not> iter_ok r (nkey (nodes sl ! a)) then []
       else if offset > 0 then iter_take m r sl (first_node as, offset - 1, cnt)
       else if cnt \<noteq> Some 0 then entry sl a # iter_take m' r sl (first_node as, offset, dec cnt) else [])"
      using here by (simp add: Suc)
    show ?thesis
      unfolding step IH
      by (cases cnt; cases offset) (auto simp: Suc walk_list_def key dec_def Let_def take_Cons' min_def)
  qed simp
qed

lemma iterate_rep:
  assumes rep: "sl_rep sl ps"
  shows "iter_take m r sl (iter_start r sl) = take m (oi_range r (map (entry sl) ps))"
proof -
  obtain as where as: "chain (iter_step r sl) as" "length as < fuel sl" "fst (iter_start r sl) = first_node as"
    "walk_list (iter_ok r) (roffset r) (rcount r) (map (entry sl) as) = oi_range r (map (entry sl) ps)"
    by (rule scan_rep [OF rep])
  have "iter_start r sl = (first_node as, roffset r, rcount r)"
    using as(3) by (simp add: iter_start_def)
  with iter_take_spec [OF as(1,2)] as(4) show ?thesis by simp
qed

section \<open>Ranks\<close>

lemma sorted_last_le:
  assumes sorted: "oi_sorted es" and mem: "e \<in> set es"
  defines "r \<equiv> length (filter (\<lambda>a. nodeLess a e \<or> a = e) es)"
  shows "es ! (r - 1) = e \<and> 0 < r \<and> r \<le> length es"
proof -
  let ?c = "\<lambda>a. nodeLess a e \<or> a = e"
  have split: "splits_at ?c es (length (takeWhile ?c es))"
    by (rule splits_takeWhile [OF sorted down_closed_le])
  have r: "r = length (takeWhile ?c es)"
    unfolding r_def splits_drop_take(2) [OF split, symmetric]
    by (simp add: length_takeWhile_le min_absorb2)
  obtain j where j: "j < length es" "es ! j = e" using mem by (auto simp: in_set_conv_nth)
  then have jr: "j < r" "r \<le> length es" using split by (auto simp: splits_at_def r)
  have "es ! (r - 1) = e"
  proof (cases "j = r - 1")
    case False
    with jr have "\<not> nodeLess (es ! (r - 1)) (es ! j)"
      using sorted unfolding oi_sorted_def sorted_wrt_iff_nth_less by simp
    moreover have "r - 1 < length es" "r - 1 < r" using jr by simp_all
    then have "?c (es ! (r - 1))" using split unfolding splits_at_def r [symmetric] by blast
    ultimately show ?thesis using j(2) by auto
  qed (use j in simp)
  with jr show ?thesis by simp
qed

lemma getRank_rep:
  assumes rep: "sl_rep sl ps"
  defines "es \<equiv> map (entry sl) ps"
  shows "getRank key val sl =
    (if (key, val) \<in> set es
     then Some (int (length (filter (\<lambda>e. nodeLess e (key, val) \<or> e = (key, val)) es)) - 1) else None)"
proof -
  let ?c = "\<lambda>e. nodeLess e (key, val) \<or> e = (key, val)"
  define r where "r = length (takeWhile ?c es)"
  from rep have shape: "shape_ok sl ps" and cells: "cells_ok sl ps" and sorted: "oi_sorted es"
    by (auto simp: sl_rep_def es_def)
  have split: "splits_at ?c es r"
    unfolding r_def by (rule splits_takeWhile [OF sorted down_closed_le])
  then have r: "r \<le> length ps" by (simp add: splits_at_def es_def)
  have cnt: "length (filter ?c es) = r"
    unfolding splits_drop_take(2) [OF split, symmetric] using r by (simp add: es_def)
  have last: "es ! (r - 1) = (key, val) \<longleftrightarrow> (key, val) \<in> set es" if "0 < r"
  proof
    have "r - 1 < length es" using that r by (simp add: es_def)
    moreover assume "es ! (r - 1) = (key, val)"
    ultimately show "(key, val) \<in> set es" by (metis nth_mem)
  next
    assume "(key, val) \<in> set es"
    from sorted_last_le [OF sorted this] show "es ! (r - 1) = (key, val)" unfolding cnt by blast
  qed
  have none: "(key, val) \<notin> set es" if "r = 0"
    using split that by (auto simp: splits_at_def in_set_conv_nth)
  have at: "search sl ?c ! 0 = (atp ps r, int r)"
    by (rule search_0 [OF shape cells split [unfolded es_def]])
  show ?thesis
  proof (cases r)
    case 0
    with none show ?thesis by (simp add: getRank_def at)
  next
    case (Suc k)
    then have "entry sl (ps ! k) = (key, val) \<longleftrightarrow> (key, val) \<in> set es"
      using last r by (simp add: es_def)
    then show ?thesis unfolding cnt by (simp add: getRank_def at Suc)
  qed
qed

lemma rank_advance_spec:
  assumes cells: "cells_ok sl ps" and r: "r \<le> length ps"
  shows "p \<le> r \<Longrightarrow> i < hgt sl ps p \<Longrightarrow> r - p < fl \<Longrightarrow>
    \<exists>p'. rank_advance fl sl (int r) i (atp ps p) (int p) = (atp ps p', int p') \<and> is_pred (hgt sl ps) r i p'"
proof (induction fl arbitrary: p)
  case (Suc fl)
  then have "cell_ok ps (hgt sl ps) i p (lev sl (atp ps p) i)"
    using cells r by (simp add: cells_ok_def)
  then obtain qo where nx: "next_pos (hgt sl ps) (length ps) i p qo"
    and fwd: "forward (lev sl (atp ps p) i) = map_option (\<lambda>q. ps ! (q - 1)) qo"
    and spn: "span (lev sl (atp ps p) i) = int (case qo of None \<Rightarrow> length ps | Some q \<Rightarrow> q) - int p"
    by (auto simp: cell_ok_def)
  show ?case
  proof (cases qo)
    case None
    with nx Suc.prems r have "is_pred (hgt sl ps) r i p" by (auto simp: next_pos_def is_pred_def)
    with None fwd show ?thesis by (intro exI [of _ p]) simp
  next
    case (Some q)
    with nx have q: "p < q" "q \<le> length ps" "i < hgt sl ps q"
      "\<And>j. p < j \<Longrightarrow> j < q \<Longrightarrow> hgt sl ps j \<le> i" by (auto simp: next_pos_def)
    show ?thesis
    proof (cases "q \<le> r")
      case True
      have atq: "Nd (ps ! (q - 1)) = atp ps q" using q(1) by (simp add: atp_def)
      have "rank_advance (Suc fl) sl (int r) i (atp ps p) (int p) =
          rank_advance fl sl (int r) i (atp ps q) (int q)"
        using fwd spn Some True by (simp flip: atq)
      with Suc.IH [of q] True q Suc.prems(3) show ?thesis by auto
    next
      case False
      with q Suc.prems have "is_pred (hgt sl ps) r i p" by (auto simp: is_pred_def)
      with False fwd spn Some show ?thesis by (intro exI [of _ p]) simp
    qed
  qed
qed simp

lemma rank_descend_spec:
  assumes shape: "shape_ok sl ps" and cells: "cells_ok sl ps" and r: "r \<le> length ps"
  shows "p \<le> r \<Longrightarrow> 0 < m \<Longrightarrow> m \<le> hgt sl ps p \<Longrightarrow> rank_descend sl (int r) m (atp ps p) (int p) = Some (atp ps r)"
proof (induction m arbitrary: p)
  case (Suc m)
  have "r - p < fuel sl" using fuel_enough [OF shape] r by simp
  then obtain p' where p': "rank_advance (fuel sl) sl (int r) m (atp ps p) (int p) = (atp ps p', int p')"
      "is_pred (hgt sl ps) r m p'"
    using rank_advance_spec [OF cells r Suc.prems(1), of m "fuel sl"] Suc.prems by auto
  show ?case
  proof (cases "p' = r")
    case False
    have "0 < m" using is_pred_0 [OF shape r] p'(2) False by (cases m) auto
    moreover have "p' \<le> r" "m \<le> hgt sl ps p'" using p'(2) by (auto simp: is_pred_def)
    ultimately show ?thesis using Suc.IH p'(1) False by simp
  qed (use p' in simp)
qed simp

lemma getByRank_rep:
  assumes rep: "sl_rep sl ps"
  shows "getByRank rank sl =
    (if 0 \<le> rank \<and> rank < int (length ps) then Some (map (entry sl) ps ! nat rank) else None)"
proof -
  from rep have shape: "shape_ok sl ps" and cells: "cells_ok sl ps" by (auto simp: sl_rep_def)
  show ?thesis
  proof (cases "0 \<le> rank \<and> rank < int (length ps)")
    case True
    define r where "r = Suc (nat rank)"
    have r: "r \<le> length ps" "rank + 1 = int r" using True by (auto simp: r_def)
    have "0 < sl_level sl" using shape by (simp add: shape_ok_def)
    then have "rank_descend sl (rank + 1) (sl_level sl) Hdr 0 = Some (atp ps r)"
      using rank_descend_spec [OF shape cells r(1), of 0 "sl_level sl"] r(2) by simp
    moreover have "nat rank < length ps" using True by (simp add: nat_less_iff)
    ultimately show ?thesis using True shape by (simp add: getByRank_def shape_ok_def r_def)
  next
    case False
    with shape show ?thesis by (auto simp: getByRank_def shape_ok_def)
  qed
qed

section \<open>The skip list is an ordered index\<close>

definition sl_ok :: "('k::linorder, 'v::linorder) skiplist \<Rightarrow> bool" where
  "sl_ok sl \<longleftrightarrow> (\<exists>ps. sl_rep sl ps)"

lemma sl_okE:
  assumes "sl_ok sl"
  obtains ps where "sl_rep sl ps" "toArray sl = map (entry sl) ps"
  using assms toArray_rep by (auto simp: sl_ok_def)

interpretation sl: ordered_index empty_skiplist sl_insert sl_delete sl_range toArray sl_ok
proof unfold_locales
  show "sl_ok (empty_skiplist :: ('k::linorder, 'v::linorder) skiplist)"
    unfolding sl_ok_def using empty_rep by blast
  show "toArray (empty_skiplist :: ('k::linorder, 'v::linorder) skiplist) = []"
    using toArray_rep [OF empty_rep] by simp
next
  fix s :: "('k::linorder, 'v::linorder) skiplist" and c k v r
  assume "sl_ok s"
  then obtain ps where ps: "sl_rep s ps" "toArray s = map (entry s) ps" by (rule sl_okE)
  obtain ps' where ins: "sl_rep (sl_insert c k v s) ps'"
      "map (entry (sl_insert c k v s)) ps' = oi_insert (k, v) (map (entry s) ps)"
    using insert_rep [OF ps(1)] by blast
  show "sl_ok (sl_insert c k v s)" using ins(1) by (auto simp: sl_ok_def)
  show "toArray (sl_insert c k v s) = oi_insert (k, v) (toArray s)"
    using toArray_rep [OF ins(1)] ins(2) ps(2) by simp
  have "sl_ok (snd (sl_delete k v s)) \<and> toArray (snd (sl_delete k v s)) = oi_delete (k, v) (toArray s) \<and>
      (fst (sl_delete k v s) \<longleftrightarrow> (k, v) \<in> set (toArray s))"
  proof (cases "(k, v) \<in> set (map (entry s) ps)")
    case True
    from delete_rep [OF ps(1) this] obtain ps2 where del: "fst (sl_delete k v s)"
      "sl_rep (snd (sl_delete k v s)) ps2"
      "map (entry (snd (sl_delete k v s))) ps2 = oi_delete (k, v) (map (entry s) ps)" by blast
    with toArray_rep [OF del(2)] ps(2) True show ?thesis by (auto simp: sl_ok_def)
  next
    case False
    with sl_delete_absent [OF ps(1) False] ps show ?thesis
      by (auto simp: sl_ok_def oi_delete_def remove1_idem)
  qed
  then show "sl_ok (snd (sl_delete k v s))" "toArray (snd (sl_delete k v s)) = oi_delete (k, v) (toArray s)"
    "fst (sl_delete k v s) \<longleftrightarrow> (k, v) \<in> set (toArray s)" by blast+
  show "oi_sorted (toArray s)" using ps by (simp add: sl_rep_def)
  show "sl_range r s = oi_range r (toArray s)" using sl_range_rep [OF ps(1)] ps(2) by simp
qed

abbreviation sl_run ::
  "(bool list, 'k::linorder, 'v::linorder) oi_op list \<Rightarrow> ('k, 'v) skiplist" where
  "sl_run as \<equiv> fold (oi_step sl_insert sl_delete) as empty_skiplist"

section \<open>Properties\<close>

text \<open>C12: The skip list, started empty and run through any inserts and deletes with any coin
  flips, holds what a sorted list holds after the same operations: \<open>toArray\<close> lists it, the length
  counts it, a delete answers whether the entry was there, \<open>range\<close> returns the sorted list's scan
  for all options, and \<open>iterate\<close> yields the same entries one by one, however early its caller stops.\<close>

theorem skiplist_refines_sorted_list:
  fixes as :: "(bool list, 'k::linorder, 'v::linorder) oi_op list"
  shows "toArray (sl_run as) = fold oi_apply as [] \<and> oi_sorted (fold oi_apply as []) \<and>
    sl_length (sl_run as) = int (length (fold oi_apply as [])) \<and>
    fst (sl_delete key val (sl_run as)) = ((key, val) \<in> set (fold oi_apply as [])) \<and>
    sl_range r (sl_run as) = oi_range r (fold oi_apply as []) \<and>
    iter_take m r (sl_run as) (iter_start r (sl_run as)) = take m (oi_range r (fold oi_apply as []))"
proof -
  have ok: "sl_ok (sl_run as)" by (rule sl.run_from_empty)
  have items: "toArray (sl_run as) = fold oi_apply as []" by (rule sl.run_from_empty)
  from ok obtain ps where ps: "sl_rep (sl_run as) ps" "toArray (sl_run as) = map (entry (sl_run as)) ps"
    by (rule sl_okE)
  then have "sl_length (sl_run as) = int (length (toArray (sl_run as)))"
    by (simp add: sl_rep_def shape_ok_def)
  then show ?thesis
    using sl.items_sorted [OF ok] sl.del_found [OF ok] sl.range_items [OF ok] iterate_rep [OF ps(1)]
    unfolding items ps(2) [symmetric] by simp
qed

text \<open>Ranks: \<open>getByRank\<close> returns the entry at that place of the sorted list and null outside of
  it, and the rank \<open>getRank\<close> gives for an entry, if it is there, is the place where
  \<open>getByRank\<close> finds it: the spans kept on all levels are right after any inserts and deletes.\<close>

theorem skiplist_ranks:
  fixes as :: "(bool list, 'k::linorder, 'v::linorder) oi_op list"
  shows "getByRank rank (sl_run as) =
      (if 0 \<le> rank \<and> rank < int (length (fold oi_apply as [])) then Some (fold oi_apply as [] ! nat rank)
       else None) \<and>
    (case getRank key val (sl_run as) of
       Some i \<Rightarrow> getByRank i (sl_run as) = Some (key, val)
     | None \<Rightarrow> (key, val) \<notin> set (fold oi_apply as []))"
proof -
  define sl where "sl = sl_run as"
  define es where "es = fold oi_apply as []"
  obtain ps where ps: "sl_rep sl ps" "es = map (entry sl) ps"
    unfolding sl_def es_def using sl_okE [OF sl.run_from_empty(1)] sl.run_from_empty(2) by metis
  define r where "r = length (filter (\<lambda>e. nodeLess e (key, val) \<or> e = (key, val)) es)"
  have get: "getByRank i sl = (if 0 \<le> i \<and> i < int (length es) then Some (es ! nat i) else None)" for i
    using getByRank_rep [OF ps(1)] ps(2) by simp
  have rank: "getRank key val sl = (if (key, val) \<in> set es then Some (int r - 1) else None)"
    using getRank_rep [OF ps(1)] ps(2) by (simp add: r_def)
  have sorted: "oi_sorted es" using ps by (simp add: sl_rep_def)
  have "es ! (r - 1) = (key, val) \<and> 0 < r \<and> r \<le> length es" if mem: "(key, val) \<in> set es"
    using sorted_last_le [OF sorted mem] by (simp add: r_def)
  with get rank show ?thesis
    unfolding sl_def [symmetric] es_def [symmetric] by (auto simp: nat_diff_distrib)
qed

end
