(* ===== verification/Crc32.thy ===== *)
theory Crc32
  imports Prelude
begin

text \<open>
  The table-driven CRC-32 of \<open>packages/minidb/src/crc32.ts\<close>: the 256-entry table and the
  byte loop, the bitwise reference it is equal to, continuation over chunks, and what the
  checksum is used for: a change confined to four consecutive bytes is always detected.
\<close>

section \<open>The code\<close>

definition POLY :: "32 word" where
  "POLY = 0xedb88320"

definition table_round :: "32 word \<Rightarrow> 32 word" where
  "table_round c = (if c AND 1 \<noteq> 0 then POLY XOR drop_bit 1 c else drop_bit 1 c)"

definition buildTable :: "32 word list" where
  "buildTable = map (\<lambda>n. (table_round ^^ 8) (of_nat n)) [0..<256]"

definition crc_byte :: "32 word \<Rightarrow> byte \<Rightarrow> 32 word" where
  "crc_byte c b = buildTable ! unat ((c XOR ucast b) AND 0xff) XOR drop_bit 8 c"

fun crc_loop :: "32 word \<Rightarrow> bytes \<Rightarrow> 32 word" where
  "crc_loop c [] = c"
| "crc_loop c (b # bs) = crc_loop (crc_byte c b) bs"

definition crc32 :: "bytes \<Rightarrow> 32 word \<Rightarrow> 32 word" where
  "crc32 buf prev = crc_loop (prev XOR 0xffffffff) buf XOR 0xffffffff"

section \<open>The bitwise reference\<close>

definition crc_byte_ref :: "32 word \<Rightarrow> byte \<Rightarrow> 32 word" where
  "crc_byte_ref c b = (table_round ^^ 8) (c XOR ucast b)"

lemma table_round_alt:
  "table_round c = drop_bit 1 c XOR (if bit c 0 then POLY else 0)"
proof -
  have "c AND 1 \<noteq> 0 \<longleftrightarrow> bit c 0"
    by (simp add: and_one_eq odd_iff_mod_2_eq_one bit_0)
  then show ?thesis
    by (simp add: table_round_def xor.commute)
qed

lemma table_round_xor: "table_round (a XOR b) = table_round a XOR table_round b"
  by (simp add: table_round_alt bit_xor_iff drop_bit_xor)
     (auto simp: ac_simps)

lemma table_round_pow_xor:
  "(table_round ^^ n) (a XOR b) = (table_round ^^ n) a XOR (table_round ^^ n) b"
  by (induction n) (simp_all add: table_round_xor)

lemma table_round_pow_low_zero:
  "(\<And>i. i < n \<Longrightarrow> \<not> bit x i) \<Longrightarrow> (table_round ^^ n) x = drop_bit n x"
  by (induction n) (simp_all add: table_round_alt bit_drop_bit_eq)

lemma buildTable_nth: "n < 256 \<Longrightarrow> buildTable ! n = (table_round ^^ 8) (of_nat n)"
  unfolding buildTable_def by (subst nth_map) (simp_all only: length_upt nth_upt add_0 diff_zero)

lemma crc_byte_eq_ref: "crc_byte c b = crc_byte_ref c b"
proof -
  let ?y = "c XOR ucast b :: 32 word"
  let ?lo = "take_bit 8 ?y" and ?hi = "push_bit 8 (drop_bit 8 ?y)"
  have lo_eq: "?y AND 0xff = ?lo"
    by (simp add: take_bit_eq_mask mask_eq_exp_minus_1)
  have split: "?y = ?lo XOR ?hi"
  proof (rule bit_word_eqI)
    fix n show "bit ?y n = bit (?lo XOR ?hi) n" if "n < LENGTH(32)"
      using that by (cases "n < 8") (simp_all add: bit_simps)
  qed
  have "unat ?lo < 256"
    using take_bit_nat_less_exp [of 8 "unat ?y"] by (simp only: unsigned_take_bit_eq) simp
  then have lo: "buildTable ! unat ?lo = (table_round ^^ 8) ?lo"
    by (simp add: buildTable_nth del: funpow.simps)
  have hi: "(table_round ^^ 8) ?hi = drop_bit 8 ?hi"
    by (rule table_round_pow_low_zero) (simp only: bit_push_bit_iff not_le [symmetric] simp_thms)
  have "drop_bit 8 ?hi = drop_bit 8 c"
    by (rule bit_word_eqI) (auto simp: bit_simps dest: bit_imp_le_length)
  with lo hi show ?thesis
    unfolding crc_byte_def crc_byte_ref_def lo_eq
    by (simp only: table_round_pow_xor [of 8 ?lo ?hi, folded split])
qed

lemma crc_loop_append: "crc_loop c (xs @ ys) = crc_loop (crc_loop c xs) ys"
  by (induction xs arbitrary: c) auto

lemma crc32_Nil [simp]: "crc32 [] p = p"
  by (simp add: crc32_def xor.assoc)

lemma crc32_append: "crc32 (xs @ ys) p = crc32 ys (crc32 xs p)"
  by (simp add: crc32_def crc_loop_append xor.assoc)

section \<open>Injectivity of the byte step\<close>

lemma xor_cancel_right: "x XOR z = y XOR z \<longleftrightarrow> x = (y :: 'a::len word)"
proof
  assume "x XOR z = y XOR z"
  then have "(x XOR z) XOR z = (y XOR z) XOR z" by (simp only:)
  then show "x = y" by (simp add: xor.assoc)
qed simp

lemma xor_cancel_left: "z XOR x = z XOR y \<longleftrightarrow> x = (y :: 'a::len word)"
  by (simp only: xor_cancel_right xor.commute [of z])

lemma table_round_top: "bit (table_round c) 31 = bit c 0"
proof -
  have "bit POLY 31" by (simp add: POLY_def)
  moreover have "\<not> bit (drop_bit 1 c) 31"
    by (auto simp: bit_drop_bit_eq dest: bit_imp_le_length)
  ultimately show ?thesis
    by (simp add: table_round_alt bit_xor_iff)
qed

lemma table_round_inj: "table_round a = table_round b \<Longrightarrow> a = b"
proof -
  assume eq: "table_round a = table_round b"
  then have b0: "bit a 0 = bit b 0"
    using table_round_top [of a] table_round_top [of b] by simp
  have "drop_bit 1 a = drop_bit 1 b"
  proof -
    from eq b0 show ?thesis by (simp only: table_round_alt xor_cancel_right)
  qed
  show "a = b"
  proof (rule bit_word_eqI)
    fix n assume "n < LENGTH(32)"
    show "bit a n = bit b n"
    proof (cases n)
      case (Suc m)
      have "bit (drop_bit 1 a) m = bit (drop_bit 1 b) m"
        by (simp only: \<open>drop_bit 1 a = drop_bit 1 b\<close>)
      with Suc show ?thesis by (simp add: bit_drop_bit_eq)
    qed (simp add: b0)
  qed
qed

lemma table_round_pow_inj: "(table_round ^^ n) a = (table_round ^^ n) b \<Longrightarrow> a = b"
  by (induction n) (auto dest: table_round_inj)

lemma crc_byte_inj_state: "crc_byte c b = crc_byte d b \<Longrightarrow> c = d"
  by (auto simp: crc_byte_eq_ref crc_byte_ref_def xor_cancel_right dest: table_round_pow_inj)

lemma crc_loop_inj_state: "crc_loop c bs = crc_loop d bs \<Longrightarrow> c = d"
  by (induction bs arbitrary: c d) (auto dest: crc_byte_inj_state)

text \<open>A run of at most four bytes enters the checksum as one 32-bit word.\<close>

fun run_word :: "bytes \<Rightarrow> 32 word" where
  "run_word [] = 0"
| "run_word (b # bs) = ucast b XOR push_bit 8 (run_word bs)"

lemma byte_bit_high: "8 \<le> n \<Longrightarrow> \<not> bit (b :: byte) n"
  using bit_imp_le_length [of b n] by auto

lemma run_word_high: "8 * length bs \<le> n \<Longrightarrow> \<not> bit (run_word bs) n"
proof (induction bs arbitrary: n)
  case (Cons b bs)
  then have "8 \<le> n" and "8 * length bs \<le> n - 8" by simp_all
  with Cons.IH [of "n - 8"] byte_bit_high [of n b] show ?case
    by (simp add: bit_xor_iff bit_push_bit_iff bit_unsigned_iff)
qed simp

lemma crc_loop_run: "length bs \<le> 4 \<Longrightarrow>
  crc_loop c bs = (table_round ^^ (8 * length bs)) (c XOR run_word bs)"
proof (induction bs arbitrary: c)
  case (Cons b bs)
  let ?w = "run_word bs"
  from Cons.prems have len: "length bs \<le> 3" by simp
  have "(table_round ^^ 8) (push_bit 8 ?w) = drop_bit 8 (push_bit 8 ?w)"
    by (rule table_round_pow_low_zero) (simp add: bit_push_bit_iff)
  also have "\<dots> = ?w"
  proof (rule bit_word_eqI)
    fix n show "bit (drop_bit 8 (push_bit 8 ?w)) n = bit ?w n" if "n < LENGTH(32)"
      using that len run_word_high [of bs n]
      by (cases "n < 24") (simp_all add: bit_push_bit_iff bit_drop_bit_eq)
  qed
  finally have w: "(table_round ^^ 8) (push_bit 8 ?w) = ?w" .
  have "crc_loop c (b # bs) = (table_round ^^ (8 * length bs)) (crc_byte c b XOR ?w)"
    using Cons.IH len by simp
  also have "crc_byte c b XOR ?w = (table_round ^^ 8) (c XOR run_word (b # bs))"
    by (simp only: crc_byte_eq_ref crc_byte_ref_def table_round_pow_xor w run_word.simps xor.assoc)
  also have "(table_round ^^ (8 * length bs)) ((table_round ^^ 8) z) =
      (table_round ^^ (8 * length (b # bs))) z" for z
  proof -
    have "8 * length (b # bs) = 8 * length bs + 8" by simp
    then show ?thesis by (simp only: funpow_add comp_apply)
  qed
  finally show ?case .
qed simp

lemma run_word_inj:
  "length xs = length ys \<Longrightarrow> length xs \<le> 4 \<Longrightarrow> run_word xs = run_word ys \<Longrightarrow> xs = ys"
proof (induction xs ys rule: list_induct2)
  case (Cons x xs y ys)
  have bits: "bit (ucast x XOR push_bit 8 (run_word xs)) n =
      bit (ucast y XOR push_bit 8 (run_word ys)) n" for n
    using Cons.prems by simp
  have "x = y"
  proof (rule bit_word_eqI)
    fix n assume "n < LENGTH(8)"
    then show "bit x n = bit y n" using bits [of n]
      by (simp add: bit_xor_iff bit_push_bit_iff bit_unsigned_iff)
  qed
  moreover have "run_word xs = run_word ys"
  proof (rule bit_word_eqI)
    fix n assume n: "n < LENGTH(32)"
    show "bit (run_word xs) n = bit (run_word ys) n"
    proof (cases "n < 24")
      case True
      then show ?thesis using bits [of "n + 8"] byte_bit_high [of "n + 8"]
        by (simp add: bit_xor_iff bit_push_bit_iff bit_unsigned_iff)
    next
      case False
      then show ?thesis
        using Cons.hyps Cons.prems run_word_high [of xs n] run_word_high [of ys n] by simp
    qed
  qed
  ultimately show ?case using Cons by simp
qed simp

lemma crc_loop_burst:
  assumes "length xs = length ys" "length xs \<le> 4"
    and "crc_loop c (pre @ xs @ post) = crc_loop c (pre @ ys @ post)"
  shows "xs = ys"
proof -
  let ?d = "crc_loop c pre"
  from assms(3) have "crc_loop ?d xs = crc_loop ?d ys"
    by (simp add: crc_loop_append) (rule crc_loop_inj_state)
  then have "?d XOR run_word xs = ?d XOR run_word ys"
    using assms(1,2) by (auto simp: crc_loop_run dest: table_round_pow_inj)
  then show ?thesis
    using assms(1,2) by (auto simp: xor_cancel_left intro: run_word_inj)
qed

lemma crc32_burst:
  "length xs = length ys \<Longrightarrow> length xs \<le> 4 \<Longrightarrow>
   crc32 (pre @ xs @ post) p = crc32 (pre @ ys @ post) p \<Longrightarrow> xs = ys"
  unfolding crc32_def xor_cancel_right by (rule crc_loop_burst)

section \<open>Properties\<close>

text \<open>The reference: CRC-32 with no table, one round per bit.\<close>

definition crc32_ref :: "bytes \<Rightarrow> 32 word \<Rightarrow> 32 word" where
  "crc32_ref buf prev = foldl crc_byte_ref (prev XOR 0xffffffff) buf XOR 0xffffffff"

lemma crc_loop_foldl: "crc_loop c bs = foldl crc_byte_ref c bs"
  by (induction bs arbitrary: c) (simp_all add: crc_byte_eq_ref)

text \<open>The table-driven checksum equals the bitwise reference on every input, and a
  checksum computed chunk by chunk (each call continuing from the previous result, as the
  file scanner does) equals the checksum of the whole.\<close>

theorem crc32_table_and_chunks:
  "crc32 buf prev = crc32_ref buf prev \<and> crc32 (xs @ ys) prev = crc32 ys (crc32 xs prev)"
  by (simp add: crc32_append) (simp add: crc32_def crc32_ref_def crc_loop_foldl)

text \<open>C27: two inputs that differ only inside a run of at most four bytes at the same
  place, with anything before and after, never have the same checksum.\<close>

theorem crc32_detects_burst:
  assumes "length xs = length ys" "length xs \<le> 4" "xs \<noteq> ys"
  shows "crc32 (pre @ xs @ post) prev \<noteq> crc32 (pre @ ys @ post) prev"
  using crc32_burst [OF assms(1,2), of pre post prev] assms(3) by blast

theorem crc32_detects_burst_witness:
  "crc32 ([7] @ [1, 2] @ [9]) 0 \<noteq> crc32 ([7] @ [1, 3] @ [9]) 0"
  by (rule crc32_detects_burst) simp_all

end
