(* ===== verification/Codec.thy ===== *)
theory Codec
  imports Crc32
begin

text \<open>
  The binary record format of \<open>packages/minidb/src/codec.ts\<close>, shared by the WAL and the
  snapshot: encoding and reading one frame, and the body of a BATCH frame. Buffers are byte
  lists; the fields are the little-endian integers of the prelude. What is proved here: a
  frame and a batch body read back as what was written, reading looks at the bytes of the
  frame only, and a damaged frame body is rejected.
\<close>

section \<open>Constants and frames\<close>

definition MAGIC :: bytes where
  "MAGIC = [0x4d, 0x44]"

definition TYPE_SET :: nat where "TYPE_SET = 1"
definition TYPE_DEL :: nat where "TYPE_DEL = 2"
definition TYPE_BATCH :: nat where "TYPE_BATCH = 3"
definition HEADER_SIZE :: nat where "HEADER_SIZE = 22"
definition CRC_SIZE :: nat where "CRC_SIZE = 4"
definition MAX_KEY_LEN :: nat where "MAX_KEY_LEN = 0xffff"
definition MAX_VAL_LEN :: nat where "MAX_VAL_LEN = 0xffffffff"
definition SUB_HEADER :: nat where "SUB_HEADER = 1 + 2 + 4 + 4 + 8"

lemmas size_defs = HEADER_SIZE_def CRC_SIZE_def MAX_KEY_LEN_def MAX_VAL_LEN_def SUB_HEADER_def

lemmas type_defs = TYPE_SET_def TYPE_DEL_def TYPE_BATCH_def

record frame =
  ftype :: nat
  fkey :: bytes
  fvalue :: bytes
  fmeta :: "bytes option"
  fexpire :: int

record batch_op =
  btype :: nat
  bkey :: bytes
  bvalue :: "bytes option"
  bmeta :: "bytes option"
  bexpire :: int

text \<open>\<open>value ?? EMPTY\<close> and \<open>meta ?? EMPTY\<close>.\<close>

definition or_empty :: "bytes option \<Rightarrow> bytes" where
  "or_empty b = (case b of None \<Rightarrow> [] | Some v \<Rightarrow> v)"

text \<open>A metadata blob of length 0 reads back as \<open>null\<close>.\<close>

definition meta_or_null :: "bytes \<Rightarrow> bytes option" where
  "meta_or_null m = (if m = [] then None else Some m)"

section \<open>Encoding one frame\<close>

text \<open>The bytes after the magic and before the checksum: what the checksum covers.\<close>

definition frame_body :: "nat \<Rightarrow> bytes \<Rightarrow> bytes \<Rightarrow> bytes \<Rightarrow> int \<Rightarrow> bytes" where
  "frame_body type key val met expireAt =
     le_bytes 1 type @ le_bytes 1 0 @ le_bytes 2 (length key) @ le_bytes 4 (length val) @
     le_bytes 4 (length met) @ le_int64 expireAt @ key @ val @ met"

definition encodeFrame ::
  "nat \<Rightarrow> bytes \<Rightarrow> bytes option \<Rightarrow> bytes option \<Rightarrow> int \<Rightarrow> js_error + bytes" where
  "encodeFrame type key value meta expireAt =
     (let val = or_empty value; met = or_empty meta in
      if length key > MAX_KEY_LEN then Inl (RangeError ''key too large'')
      else if length val > MAX_VAL_LEN then Inl (RangeError ''value too large'')
      else if length met > MAX_VAL_LEN then Inl (RangeError ''meta too large'')
      else if type > 255 then Inl (RangeError ''out of range'')
      else if \<not> int64_ok expireAt then Inl (RangeError ''out of range'')
      else let body = frame_body type key val met expireAt
        in Inr (MAGIC @ body @ le_bytes 4 (unat (crc32 body 0))))"

section \<open>Reading one frame\<close>

definition magic_at :: "bytes \<Rightarrow> nat \<Rightarrow> bool" where
  "magic_at buf pos \<longleftrightarrow> subarray buf pos (pos + 2) = MAGIC"

definition frame_at :: "bytes \<Rightarrow> nat \<Rightarrow> nat \<Rightarrow> nat \<Rightarrow> nat \<Rightarrow> frame" where
  "frame_at buf pos keyLen valLen metaLen =
     (let keyStart = pos + HEADER_SIZE; metaStart = keyStart + keyLen + valLen in
      \<lparr> ftype = u8_at buf (pos + 2),
        fkey = subarray buf keyStart (keyStart + keyLen),
        fvalue = subarray buf (keyStart + keyLen) (keyStart + keyLen + valLen),
        fmeta = (if metaLen \<noteq> 0 then Some (subarray buf metaStart (metaStart + metaLen)) else None),
        fexpire = to_number (i64_at buf (pos + 14)) \<rparr>)"

definition readFrameAt :: "bytes \<Rightarrow> nat \<Rightarrow> (frame \<times> nat) option" where
  "readFrameAt buf pos =
     (if length buf - pos < HEADER_SIZE then None
      else if \<not> magic_at buf pos then None
      else let keyLen = u16_at buf (pos + 4);
               valLen = u32_at buf (pos + 6);
               metaLen = u32_at buf (pos + 10);
               frameLen = HEADER_SIZE + keyLen + valLen + metaLen + CRC_SIZE in
      if keyLen > MAX_KEY_LEN then None
      else if frameLen < HEADER_SIZE + CRC_SIZE then None
      else if length buf - pos < frameLen then None
      else let stored = u32_at buf (pos + frameLen - CRC_SIZE);
               computed = unat (crc32 (subarray buf (pos + 2) (pos + frameLen - CRC_SIZE)) 0) in
      if stored \<noteq> computed then None
      else Some (frame_at buf pos keyLen valLen metaLen, frameLen))"

section \<open>Batch bodies\<close>

text \<open>One op of a batch body; each field write throws when its value does not fit.\<close>

definition encode_batch_op :: "batch_op \<Rightarrow> js_error + bytes" where
  "encode_batch_op p =
     (let key = bkey p; val = or_empty (bvalue p); met = or_empty (bmeta p) in
      if btype p > 255 \<or> length key > 0xffff \<or> length val > 0xffffffff
         \<or> length met > 0xffffffff \<or> \<not> int64_ok (bexpire p)
      then Inl (RangeError ''out of range'')
      else Inr (le_bytes 1 (btype p) @ le_bytes 2 (length key) @ le_bytes 4 (length val) @
                le_bytes 4 (length met) @ le_int64 (bexpire p) @ key @ val @ met))"

fun encode_batch_loop :: "batch_op list \<Rightarrow> js_error + bytes" where
  "encode_batch_loop [] = Inr []"
| "encode_batch_loop (p # ps) =
     (case encode_batch_op p of Inl e \<Rightarrow> Inl e
      | Inr b \<Rightarrow> map_result (\<lambda>bs. b @ bs) (encode_batch_loop ps))"

definition encodeBatchOps :: "batch_op list \<Rightarrow> js_error + bytes" where
  "encodeBatchOps ops =
     (if length ops > 0xffff then Inl (RangeError ''out of range'')
      else map_result (\<lambda>bs. le_bytes 2 (length ops) @ bs) (encode_batch_loop ops))"

fun decode_batch_loop :: "bytes \<Rightarrow> nat \<Rightarrow> nat \<Rightarrow> js_error + batch_op list" where
  "decode_batch_loop body off 0 = Inr []"
| "decode_batch_loop body off (Suc n) =
     (if off + SUB_HEADER > length body then Inl (RangeError ''batch op header truncated'')
      else let type = u8_at body off;
               keyLen = u16_at body (off + 1);
               valLen = u32_at body (off + 3);
               metaLen = u32_at body (off + 7);
               expireAt = to_number (i64_at body (off + 11));
               keyStart = off + SUB_HEADER in
      if keyStart + keyLen + valLen + metaLen > length body
      then Inl (RangeError ''batch op payload truncated'')
      else let valStart = keyStart + keyLen; metaStart = valStart + valLen;
               op = \<lparr> btype = type, bkey = subarray body keyStart (keyStart + keyLen),
                      bvalue = Some (subarray body valStart (valStart + valLen)),
                      bmeta = (if metaLen \<noteq> 0 then Some (subarray body metaStart (metaStart + metaLen))
                               else None),
                      bexpire = expireAt \<rparr> in
      map_result (\<lambda>ops. op # ops) (decode_batch_loop body (metaStart + metaLen) n))"

definition decodeBatchOps :: "bytes \<Rightarrow> js_error + batch_op list" where
  "decodeBatchOps body =
     (if length body < 2 then Inr [] else decode_batch_loop body 2 (u16_at body 0))"

text \<open>The disk-mode scan of a batch body: values stay as offsets into the file.\<close>

record batch_op_ref =
  rtype :: nat
  rkey :: bytes
  rmeta :: "bytes option"
  rexpire :: int
  rvalueOff :: nat
  rvalLen :: nat

fun scan_batch_loop :: "bytes \<Rightarrow> nat \<Rightarrow> nat \<Rightarrow> nat \<Rightarrow> js_error + batch_op_ref list" where
  "scan_batch_loop body bodyOff off 0 = Inr []"
| "scan_batch_loop body bodyOff off (Suc n) =
     (if off + SUB_HEADER > length body then Inl (RangeError ''batch op header truncated'')
      else let type = u8_at body off;
               keyLen = u16_at body (off + 1);
               valLen = u32_at body (off + 3);
               metaLen = u32_at body (off + 7);
               expireAt = to_number (i64_at body (off + 11));
               keyStart = off + SUB_HEADER in
      if keyStart + keyLen + valLen + metaLen > length body
      then Inl (RangeError ''batch op payload truncated'')
      else let metaStart = keyStart + keyLen + valLen;
               op = \<lparr> rtype = type, rkey = subarray body keyStart (keyStart + keyLen),
                      rmeta = (if metaLen \<noteq> 0 then Some (subarray body metaStart (metaStart + metaLen))
                               else None),
                      rexpire = expireAt,
                      rvalueOff = bodyOff + keyStart + keyLen,
                      rvalLen = valLen \<rparr> in
      map_result (\<lambda>ops. op # ops) (scan_batch_loop body bodyOff (metaStart + metaLen) n))"

definition scanBatchOpRefs :: "bytes \<Rightarrow> nat \<Rightarrow> js_error + batch_op_ref list" where
  "scanBatchOpRefs body bodyOff =
     (if length body < 2 then Inr [] else scan_batch_loop body bodyOff 2 (u16_at body 0))"

section \<open>Encoding and reading agree\<close>

text \<open>What \<open>encodeFrame\<close> accepts.\<close>

definition frame_fits :: "nat \<Rightarrow> bytes \<Rightarrow> bytes option \<Rightarrow> bytes option \<Rightarrow> int \<Rightarrow> bool" where
  "frame_fits type key value meta e \<longleftrightarrow>
     length key \<le> MAX_KEY_LEN \<and> length (or_empty value) \<le> MAX_VAL_LEN \<and>
     length (or_empty meta) \<le> MAX_VAL_LEN \<and> type \<le> 255 \<and> int64_ok e"

definition frame_bytes :: "nat \<Rightarrow> bytes \<Rightarrow> bytes option \<Rightarrow> bytes option \<Rightarrow> int \<Rightarrow> bytes" where
  "frame_bytes type key value meta e =
     (let body = frame_body type key (or_empty value) (or_empty meta) e
      in MAGIC @ body @ le_bytes 4 (unat (crc32 body 0)))"

lemma encodeFrame_fits:
  "frame_fits type key value meta e \<Longrightarrow>
     encodeFrame type key value meta e = Inr (frame_bytes type key value meta e)"
  by (simp add: encodeFrame_def frame_fits_def frame_bytes_def Let_def)

lemma encodeFrame_Inr_iff:
  "encodeFrame type key value meta e = Inr bs \<longleftrightarrow>
     frame_fits type key value meta e \<and> bs = frame_bytes type key value meta e"
  by (auto simp: encodeFrame_def frame_fits_def frame_bytes_def Let_def)

lemma length_frame_body:
  "length (frame_body t k v m e) = HEADER_SIZE - 2 + length k + length v + length m"
  by (simp add: frame_body_def HEADER_SIZE_def)

lemma length_MAGIC [simp]: "length MAGIC = 2"
  by (simp add: MAGIC_def)

lemma length_frame_bytes:
  "length (frame_bytes t k v m e) =
     HEADER_SIZE + length k + length (or_empty v) + length (or_empty m) + CRC_SIZE"
  by (simp add: frame_bytes_def Let_def length_frame_body size_defs)

lemma unat32_lt: "unat (c :: 32 word) < 2 ^ 32"
  using unsigned_less [of c] by simp

lemma field_take_drop:
  "u8_at buf p = le_nat (take 1 (drop p buf))"
  "u16_at buf p = le_nat (take 2 (drop p buf))"
  "u32_at buf p = le_nat (take 4 (drop p buf))"
  "i64_at buf p = int64_le (take 8 (drop p buf))"
  by (simp_all add: u8_at_def u16_at_def u32_at_def i64_at_def subarray_def)

lemma magic_at_drop: "magic_at buf p = magic_at (drop p buf) 0"
  by (simp add: magic_at_def subarray_def)

lemma frame_at_drop: "frame_at buf p kl vl ml = frame_at (drop p buf) 0 kl vl ml"
  by (simp add: frame_at_def Let_def field_take_drop size_defs subarray_def add_ac)

lemma readFrameAt_drop: "readFrameAt buf p = readFrameAt (drop p buf) 0"
proof -
  have *: "p + (22 + n) - 4 = p + (18 + n)" for n by simp
  show ?thesis
    unfolding readFrameAt_def Let_def magic_at_drop [of buf p] frame_at_drop [of buf p] size_defs
    by (simp add: field_take_drop subarray_def add_ac cong: if_cong)
qed

text \<open>The frame a read at the start of an encoding returns.\<close>

definition frame_read :: "nat \<Rightarrow> bytes \<Rightarrow> bytes option \<Rightarrow> bytes option \<Rightarrow> int \<Rightarrow> frame" where
  "frame_read type key value meta e =
     \<lparr> ftype = type, fkey = key, fvalue = or_empty value, fmeta = meta_or_null (or_empty meta),
       fexpire = to_number e \<rparr>"

lemma frame_bytes_fields:
  assumes "frame_fits t k v m e"
  shows "u8_at (frame_bytes t k v m e @ ys) 2 = t"
    "u16_at (frame_bytes t k v m e @ ys) 4 = length k"
    "u32_at (frame_bytes t k v m e @ ys) 6 = length (or_empty v)"
    "u32_at (frame_bytes t k v m e @ ys) 10 = length (or_empty m)"
    "i64_at (frame_bytes t k v m e @ ys) 14 = e"
  using assms
  by (simp_all add: frame_bytes_def frame_body_def Let_def field_at_skip field_at_here
      frame_fits_def size_defs del: le_bytes.simps One_nat_def)

lemma frame_bytes_slices:
  fixes t k v m e ys
  defines "enc \<equiv> frame_bytes t k v m e @ ys" and "lk \<equiv> length k"
    and "lv \<equiv> length (or_empty v)" and "lm \<equiv> length (or_empty m)"
  shows "subarray enc 0 2 = MAGIC"
    "subarray enc 22 (22 + lk) = k"
    "subarray enc (22 + lk) (22 + lk + lv) = or_empty v"
    "subarray enc (22 + lk + lv) (22 + lk + lv + lm) = or_empty m"
    "subarray enc 2 (22 + lk + lv + lm) = frame_body t k (or_empty v) (or_empty m) e"
    "u32_at enc (22 + lk + lv + lm) = unat (crc32 (frame_body t k (or_empty v) (or_empty m) e) 0)"
  by (simp_all add: enc_def lk_def lv_def lm_def frame_bytes_def frame_body_def Let_def subarray_def
      field_at_skip field_at_here unat32_lt [simplified] del: le_bytes.simps)

lemma readFrameAt_frame_bytes:
  assumes "frame_fits t k v m e"
  shows "readFrameAt (frame_bytes t k v m e @ ys) 0 =
           Some (frame_read t k v m e, length (frame_bytes t k v m e))"
proof -
  note f = frame_bytes_fields [OF assms, of ys] and s = frame_bytes_slices [of t k v m e ys]
  have len: "length (frame_bytes t k v m e @ ys) =
      26 + length k + length (or_empty v) + length (or_empty m) + length ys"
    by (simp add: length_frame_bytes size_defs)
  have mag: "magic_at (frame_bytes t k v m e @ ys) 0"
    using s(1) by (simp add: magic_at_def)
  have fr: "frame_at (frame_bytes t k v m e @ ys) 0 (length k) (length (or_empty v))
      (length (or_empty m)) = frame_read t k v m e"
    using f s(2-4) by (simp add: frame_at_def frame_read_def Let_def size_defs meta_or_null_def)
  show ?thesis
    using assms f(2-4) s(5,6) mag fr len
    by (simp add: readFrameAt_def Let_def frame_fits_def size_defs length_frame_bytes add.assoc)
qed

lemma readFrameAt_SomeD:
  assumes "readFrameAt buf p = Some (fr, n)"
  shows "n = 26 + u16_at buf (p + 4) + u32_at buf (p + 6) + u32_at buf (p + 10)"
    "p + n \<le> length buf" "magic_at buf p"
    "fr = frame_at buf p (u16_at buf (p + 4)) (u32_at buf (p + 6)) (u32_at buf (p + 10))"
    "u32_at buf (p + n - CRC_SIZE) = unat (crc32 (subarray buf (p + 2) (p + n - CRC_SIZE)) 0)"
proof -
  let ?n = "26 + u16_at buf (p + 4) + u32_at buf (p + 6) + u32_at buf (p + 10)"
  have all: "n = ?n \<and> \<not> length buf - p < ?n \<and> magic_at buf p \<and>
      fr = frame_at buf p (u16_at buf (p + 4)) (u32_at buf (p + 6)) (u32_at buf (p + 10)) \<and>
      u32_at buf (p + ?n - CRC_SIZE) = unat (crc32 (subarray buf (p + 2) (p + ?n - CRC_SIZE)) 0)"
    using assms unfolding readFrameAt_def Let_def
    by (simp only: size_defs split: if_splits) (auto simp: size_defs add_ac)
  then show "n = ?n" "magic_at buf p"
    "fr = frame_at buf p (u16_at buf (p + 4)) (u32_at buf (p + 6)) (u32_at buf (p + 10))"
    "u32_at buf (p + n - CRC_SIZE) = unat (crc32 (subarray buf (p + 2) (p + n - CRC_SIZE)) 0)"
    by blast+
  from all show "p + n \<le> length buf" by linarith
qed

lemma readFrameAt_bounds:
  assumes "readFrameAt buf p = Some (fr, n)"
  shows "p + n \<le> length buf" "HEADER_SIZE + CRC_SIZE \<le> n"
  using readFrameAt_SomeD(1,2) [OF assms] by (simp_all add: size_defs)

text \<open>A read looks at the bytes of the frame and at nothing behind it.\<close>

lemma frame_at_append:
  "22 + kl + vl + ml \<le> length xs \<Longrightarrow> frame_at (xs @ ys) 0 kl vl ml = frame_at xs 0 kl vl ml"
  by (simp add: frame_at_def Let_def size_defs field_at_append subarray_append_left)

lemma readFrameAt_append_eq:
  assumes "26 + u16_at xs 4 + u32_at xs 6 + u32_at xs 10 \<le> length xs"
  shows "readFrameAt (xs @ ys) 0 = readFrameAt xs 0"
proof -
  have "\<not> length (xs @ ys) - 0 < HEADER_SIZE" "\<not> length xs - 0 < HEADER_SIZE"
    using assms by (simp_all add: size_defs)
  with assms show ?thesis
    by (simp add: readFrameAt_def Let_def magic_at_def frame_at_append field_at_append
        subarray_append_left size_defs cong: if_cong)
qed

lemma readFrameAt_append:
  assumes "readFrameAt xs 0 = Some (fr, n)"
  shows "readFrameAt (xs @ ys) 0 = Some (fr, n)"
  using readFrameAt_append_eq [of xs ys] readFrameAt_SomeD(1,2) [OF assms] assms by simp

lemma readFrameAt_prefix:
  assumes "readFrameAt (xs @ ys) 0 = Some (fr, n)" "n \<le> length xs"
  shows "readFrameAt xs 0 = Some (fr, n)"
proof -
  have n: "n = 26 + u16_at xs 4 + u32_at xs 6 + u32_at xs 10"
    using readFrameAt_SomeD(1) [OF assms(1)] assms(2) by (simp add: field_at_append)
  with assms(2) have "readFrameAt (xs @ ys) 0 = readFrameAt xs 0"
    by (intro readFrameAt_append_eq) simp
  with assms(1) show ?thesis by simp
qed

lemma readFrameAt_local:
  assumes "readFrameAt buf p = Some (fr, n)" "subarray buf p (p + n) = subarray buf' q (q + n)"
  shows "readFrameAt buf' q = Some (fr, n)"
proof -
  let ?xs = "take n (drop p buf)"
  have "n \<le> length (drop p buf)" using readFrameAt_bounds(1) [OF assms(1)] unfolding length_drop by linarith
  then have len: "length ?xs = n" by (simp only: length_take min_absorb2)
  have "readFrameAt (?xs @ drop n (drop p buf)) 0 = Some (fr, n)"
    using assms(1) by (simp only: append_take_drop_id readFrameAt_drop [of buf p])
  then have x: "readFrameAt ?xs 0 = Some (fr, n)"
    by (rule readFrameAt_prefix) (simp only: len)
  have "take n (drop q buf') = ?xs" using assms(2) by (simp add: subarray_def)
  then have "drop q buf' = ?xs @ drop n (drop q buf')" by (metis append_take_drop_id)
  then show ?thesis
    using readFrameAt_append [OF x] readFrameAt_drop [of buf' q] by metis
qed

section \<open>Batch bodies read back\<close>

definition op_fits :: "batch_op \<Rightarrow> bool" where
  "op_fits p \<longleftrightarrow> btype p \<le> 255 \<and> length (bkey p) \<le> 0xffff \<and>
     length (or_empty (bvalue p)) \<le> 0xffffffff \<and> length (or_empty (bmeta p)) \<le> 0xffffffff \<and>
     int64_ok (bexpire p)"

definition op_bytes :: "batch_op \<Rightarrow> bytes" where
  "op_bytes p =
     le_bytes 1 (btype p) @ le_bytes 2 (length (bkey p)) @ le_bytes 4 (length (or_empty (bvalue p))) @
     le_bytes 4 (length (or_empty (bmeta p))) @ le_int64 (bexpire p) @ bkey p @
     or_empty (bvalue p) @ or_empty (bmeta p)"

text \<open>What the decoder makes of an op: no value and an empty one are the same, an empty
  metadata blob is none, and the expiry goes through a double.\<close>

definition op_read :: "batch_op \<Rightarrow> batch_op" where
  "op_read p =
     \<lparr> btype = btype p, bkey = bkey p, bvalue = Some (or_empty (bvalue p)),
       bmeta = meta_or_null (or_empty (bmeta p)), bexpire = to_number (bexpire p) \<rparr>"

lemma encode_batch_op_iff:
  "encode_batch_op p = Inr bs \<longleftrightarrow> op_fits p \<and> bs = op_bytes p"
  by (auto simp: encode_batch_op_def op_fits_def op_bytes_def Let_def)

lemma encode_batch_loop_iff:
  "encode_batch_loop ps = Inr bs \<longleftrightarrow> list_all op_fits ps \<and> bs = concat (map op_bytes ps)"
proof (induction ps arbitrary: bs)
  case (Cons p ps)
  show ?case
  proof (cases "encode_batch_op p")
    case (Inl err)
    then have "\<not> op_fits p" using encode_batch_op_iff [of p "op_bytes p"] by auto
    with Inl show ?thesis by simp
  next
    case (Inr b)
    then have b: "op_fits p" "b = op_bytes p" using encode_batch_op_iff [of p b] by auto
    show ?thesis
    proof (cases "encode_batch_loop ps")
      case (Inl err)
      then have "\<not> list_all op_fits ps" using Cons.IH [of "concat (map op_bytes ps)"] by auto
      with Inl Inr b show ?thesis by simp
    next
      case (Inr r)
      with Cons.IH [of r] \<open>encode_batch_op p = Inr b\<close> b show ?thesis by auto
    qed
  qed
qed auto

lemma encodeBatchOps_iff:
  "encodeBatchOps ps = Inr bs \<longleftrightarrow>
     length ps \<le> 0xffff \<and> list_all op_fits ps \<and>
     bs = le_bytes 2 (length ps) @ concat (map op_bytes ps)"
proof (cases "encode_batch_loop ps")
  case (Inl err)
  then have "\<not> list_all op_fits ps"
    using encode_batch_loop_iff [of ps "concat (map op_bytes ps)"] by simp
  with Inl show ?thesis by (simp add: encodeBatchOps_def)
next
  case (Inr r)
  with encode_batch_loop_iff [of ps r] show ?thesis by (auto simp: encodeBatchOps_def)
qed

lemma length_op_bytes:
  "length (op_bytes p) =
     19 + length (bkey p) + length (or_empty (bvalue p)) + length (or_empty (bmeta p))"
  by (simp add: op_bytes_def)

lemma op_bytes_fields:
  assumes "op_fits p"
  shows "u8_at (op_bytes p @ ys) 0 = btype p"
    "u16_at (op_bytes p @ ys) 1 = length (bkey p)"
    "u32_at (op_bytes p @ ys) 3 = length (or_empty (bvalue p))"
    "u32_at (op_bytes p @ ys) 7 = length (or_empty (bmeta p))"
    "i64_at (op_bytes p @ ys) 11 = bexpire p"
  using assms
  by (simp_all add: op_bytes_def field_at_skip field_at_here op_fits_def
      del: le_bytes.simps One_nat_def)

lemma op_bytes_slices:
  fixes p ys
  defines "enc \<equiv> op_bytes p @ ys" and "lk \<equiv> length (bkey p)"
    and "lv \<equiv> length (or_empty (bvalue p))" and "lm \<equiv> length (or_empty (bmeta p))"
  shows "subarray enc 19 (19 + lk) = bkey p"
    "subarray enc (19 + lk) (19 + lk + lv) = or_empty (bvalue p)"
    "subarray enc (19 + lk + lv) (19 + lk + lv + lm) = or_empty (bmeta p)"
  by (simp_all add: enc_def lk_def lv_def lm_def op_bytes_def subarray_def
      del: le_bytes.simps)

lemma decode_batch_step:
  assumes "op_fits p"
  shows "decode_batch_loop (pre @ op_bytes p @ rest) (length pre) (Suc n) =
    map_result (\<lambda>ops. op_read p # ops)
      (decode_batch_loop (pre @ op_bytes p @ rest) (length (pre @ op_bytes p)) n)"
proof -
  let ?b = "pre @ op_bytes p @ rest" and ?o = "length pre"
  note f = op_bytes_fields [OF assms, of rest] and s = op_bytes_slices [of p rest]
  have fields: "u8_at ?b ?o = btype p" "u16_at ?b (?o + 1) = length (bkey p)"
    "u32_at ?b (?o + 3) = length (or_empty (bvalue p))"
    "u32_at ?b (?o + 7) = length (or_empty (bmeta p))" "i64_at ?b (?o + 11) = bexpire p"
    using f by (simp_all add: field_at_skip)
  have slices: "subarray ?b (?o + i) (?o + j) = subarray (op_bytes p @ rest) i j" for i j
    by (rule subarray_past)
  show ?thesis
    using s slices [of 19 "19 + length (bkey p)"]
      slices [of "19 + length (bkey p)" "19 + length (bkey p) + length (or_empty (bvalue p))"]
      slices [of "19 + length (bkey p) + length (or_empty (bvalue p))"
        "19 + length (bkey p) + length (or_empty (bvalue p)) + length (or_empty (bmeta p))"]
    by (simp add: fields Let_def SUB_HEADER_def length_op_bytes op_read_def meta_or_null_def
        add.assoc del: One_nat_def)
qed

lemma decode_batch_concat:
  "list_all op_fits ps \<Longrightarrow>
     decode_batch_loop (pre @ concat (map op_bytes ps) @ post) (length pre) (length ps) =
     Inr (map op_read ps)"
proof (induction ps arbitrary: pre)
  case (Cons p ps)
  then have IH: "decode_batch_loop ((pre @ op_bytes p) @ concat (map op_bytes ps) @ post)
      (length (pre @ op_bytes p)) (length ps) = Inr (map op_read ps)"
    by (intro Cons.IH) simp
  from Cons.prems have p: "op_fits p" by simp
  show ?case
    using decode_batch_step [OF p, of pre "concat (map op_bytes ps) @ post" "length ps"] IH
    by (simp del: decode_batch_loop.simps)
qed simp

lemma decode_encode_batch:
  assumes "encodeBatchOps ps = Inr bs"
  shows "decodeBatchOps (bs @ post) = Inr (map op_read ps)"
proof -
  from assms have ps: "length ps \<le> 0xffff" "list_all op_fits ps"
      and bs: "bs = le_bytes 2 (length ps) @ concat (map op_bytes ps)"
    by (auto simp: encodeBatchOps_iff)
  have "u16_at (bs @ post) 0 = length ps"
    using ps(1) by (simp add: bs field_at_here del: le_bytes.simps)
  moreover have "decode_batch_loop (bs @ post) 2 (length ps) = Inr (map op_read ps)"
    using decode_batch_concat [OF ps(2), of "le_bytes 2 (length ps)" post]
    by (simp add: bs del: le_bytes.simps)
  ultimately show ?thesis
    by (simp add: decodeBatchOps_def bs del: le_bytes.simps)
qed

section \<open>The disk-mode scan of a batch body\<close>

text \<open>The op a reference stands for, its value read from the file.\<close>

definition load_op :: "bytes \<Rightarrow> batch_op_ref \<Rightarrow> batch_op" where
  "load_op file r =
     \<lparr> btype = rtype r, bkey = rkey r,
       bvalue = Some (subarray file (rvalueOff r) (rvalueOff r + rvalLen r)),
       bmeta = rmeta r, bexpire = rexpire r \<rparr>"

lemma scan_batch_loop_load:
  "map_result (map (load_op (pre @ body @ post))) (scan_batch_loop body (length pre) off n) =
   decode_batch_loop body off n"
proof (induction n arbitrary: off)
  case (Suc n)
  have sub: "subarray (pre @ body @ post) (length pre + i) (length pre + j) = subarray body i j"
    if "j \<le> length body" for i j
    using that by (simp add: subarray_past subarray_append_left)
  let ?k = "u16_at body (off + 1)" and ?v = "u32_at body (off + 3)" and ?m = "u32_at body (off + 7)"
  show ?case
  proof (cases "off + SUB_HEADER + ?k + ?v + ?m \<le> length body")
    case True
    have "subarray (pre @ body @ post) (length pre + (off + SUB_HEADER + ?k))
        (length pre + (off + SUB_HEADER + ?k + ?v)) =
      subarray body (off + SUB_HEADER + ?k) (off + SUB_HEADER + ?k + ?v)"
      by (rule sub) (use True in linarith)
    with True Suc.IH [of "off + SUB_HEADER + ?k + ?v + ?m"] show ?thesis
      by (simp add: Let_def load_op_def sum.map_comp o_def add.assoc flip: Suc.IH)
  next
    case False
    then show ?thesis by (simp add: Let_def)
  qed
qed simp

lemma scanBatchOpRefs_load:
  "map_result (map (load_op (pre @ body @ post))) (scanBatchOpRefs body (length pre)) =
   decodeBatchOps body"
  by (simp add: scanBatchOpRefs_def decodeBatchOps_def scan_batch_loop_load)

section \<open>Damage is detected\<close>

lemma subarray_patch:
  assumes "length mid = length mid'" "j \<le> length pre \<or> length pre + length mid \<le> i"
  shows "subarray (pre @ mid' @ post) i j = subarray (pre @ mid @ post) i j"
  using assms(2)
proof
  assume "j \<le> length pre"
  then show ?thesis by (simp add: subarray_append_left)
next
  assume "length pre + length mid \<le> i"
  with assms(1) show ?thesis by (simp add: subarray_def)
qed

text \<open>
  A run of at most four damaged bytes that leaves the magic, the length fields and the
  trailer alone is caught by the checksum.
\<close>

lemma damaged_frame_rejected:
  assumes fits: "frame_fits t k v m e" and enc: "frame_bytes t k v m e = pre @ mid @ post"
    and len: "length mid' = length mid" "length mid \<le> 4" and ne: "mid' \<noteq> mid"
    and where_: "14 \<le> length pre \<or> 2 \<le> length pre \<and> length pre + length mid \<le> 4"
    and post: "CRC_SIZE \<le> length post"
  shows "readFrameAt (pre @ mid' @ post @ ys) 0 = None"
proof (rule ccontr)
  let ?enc = "pre @ mid @ post @ ys" and ?bad = "pre @ mid' @ post @ ys"
  assume "readFrameAt ?bad 0 \<noteq> None"
  then obtain fr n where r: "readFrameAt ?bad 0 = Some (fr, n)" by auto
  have g: "readFrameAt ?enc 0 = Some (frame_read t k v m e, length (pre @ mid @ post))"
    using readFrameAt_frame_bytes [OF fits, of ys] by (simp add: enc)
  have keep: "subarray ?bad i j = subarray ?enc i j"
    if "4 \<le> i \<and> j \<le> 14 \<or> length pre + length mid \<le> i" for i j
    by (rule subarray_patch) (use that where_ len in auto)
  have n: "n = length pre + length mid + length post"
    using readFrameAt_SomeD(1) [OF r] readFrameAt_SomeD(1) [OF g]
    by (simp add: u16_at_def u32_at_def keep)
  define c where "c = length post - CRC_SIZE"
  have c: "n - CRC_SIZE = length pre + length mid + c" "c \<le> length post"
    using n post by (simp_all add: c_def)
  have stored: "u32_at ?bad (n - CRC_SIZE) = u32_at ?enc (n - CRC_SIZE)"
    unfolding u32_at_def by (rule arg_cong [where f = le_nat], rule keep) (simp add: c)
  have cut: "subarray (pre @ x @ post @ ys) 2 (n - CRC_SIZE) = drop 2 pre @ x @ take c post"
    if "length x = length mid" for x
    using that where_ c by (auto simp: subarray_def)
  have "crc32 (drop 2 pre @ mid' @ take c post) 0 = crc32 (drop 2 pre @ mid @ take c post) 0"
    using readFrameAt_SomeD(5) [OF r] readFrameAt_SomeD(5) [OF g] stored cut [of mid]
      cut [of mid'] len n
    by (simp add: word_unat_eq_iff add.assoc)
  with len have "mid' = mid" by (intro crc32_burst) auto
  with ne show False ..
qed

text \<open>A damaged trailer does not match either.\<close>

lemma damaged_trailer_rejected:
  assumes fits: "frame_fits t k v m e" and enc: "frame_bytes t k v m e = pre @ trailer"
    and len: "length trailer = CRC_SIZE" "length bad = CRC_SIZE" and ne: "bad \<noteq> trailer"
  shows "readFrameAt (pre @ bad @ ys) 0 = None"
proof (rule ccontr)
  assume "readFrameAt (pre @ bad @ ys) 0 \<noteq> None"
  then obtain fr n where r: "readFrameAt (pre @ bad @ ys) 0 = Some (fr, n)" by auto
  have g: "readFrameAt (pre @ trailer @ ys) 0 =
      Some (frame_read t k v m e, length (pre @ trailer))"
    using readFrameAt_frame_bytes [OF fits, of ys] by (simp add: enc)
  have pre: "22 \<le> length pre"
    using arg_cong [OF enc, of length] len by (simp add: length_frame_bytes size_defs)
  have keep: "subarray (pre @ bad @ ys) i j = subarray (pre @ trailer @ ys) i j"
    if "j \<le> length pre" for i j
    by (rule subarray_patch) (use that len in auto)
  have n: "n = length pre + 4"
    using readFrameAt_SomeD(1) [OF r] readFrameAt_SomeD(1) [OF g] len(1) pre
    by (simp add: u16_at_def u32_at_def keep size_defs)
  have "le_nat bad = le_nat trailer"
    using readFrameAt_SomeD(5) [OF r] readFrameAt_SomeD(5) [OF g] len
    by (simp add: n size_defs keep u32_at_def subarray_def)
  then have "bad = trailer"
    using le_bytes_le_nat [OF len(1)] le_bytes_le_nat [OF len(2)] by metis
  with ne show False ..
qed

section \<open>Properties\<close>

text \<open>C21: a record that \<open>encodeFrame\<close> accepts reads back as itself from any position of any
  buffer, whatever precedes and follows it: same type, key and value, an empty metadata blob
  as none, and the expiry exactly when it is at most \<open>2^53\<close> in magnitude (it passes through
  a double); the length reported is the length written.\<close>

theorem frame_roundtrip:
  assumes "encodeFrame type key value meta e = Inr bs"
  shows "readFrameAt (pre @ bs @ post) (length pre) =
    Some (\<lparr> ftype = type, fkey = key, fvalue = or_empty value,
            fmeta = meta_or_null (or_empty meta), fexpire = to_number e \<rparr>, length bs)"
  using readFrameAt_frame_bytes [of type key "value" meta e post] assms
  by (simp add: encodeFrame_Inr_iff readFrameAt_drop [of _ "length pre"] frame_read_def)

lemma encode_small:
  "encodeFrame 2 [7] (Some [2, 3]) None 5 = Inr (frame_bytes 2 [7] (Some [2, 3]) None 5)"
  by (rule encodeFrame_fits) (simp add: frame_fits_def size_defs or_empty_def int64_ok_def)

theorem frame_roundtrip_witness:
  "readFrameAt ([9] @ frame_bytes 2 [7] (Some [2, 3]) None 5 @ [8]) (length [9 :: byte]) =
    Some (\<lparr> ftype = 2, fkey = [7], fvalue = or_empty (Some [2, 3]),
            fmeta = meta_or_null (or_empty None), fexpire = to_number 5 \<rparr>,
          length (frame_bytes 2 [7] (Some [2, 3]) None 5))"
  by (rule frame_roundtrip [OF encode_small])

text \<open>\<open>encodeFrame\<close> throws exactly when a field does not fit its place in the format, and
  then it is a \<open>RangeError\<close>; otherwise the frame has the length of the header, the three
  parts and the trailer.\<close>

lemma encodeFrame_total:
  "(\<exists>msg. encodeFrame type key value meta e = Inl (RangeError msg)) \<and> \<not> frame_fits type key value meta e \<or>
   (\<exists>bs. encodeFrame type key value meta e = Inr bs \<and> frame_fits type key value meta e \<and>
     length bs = HEADER_SIZE + length key + length (or_empty value) + length (or_empty meta) + CRC_SIZE)"
proof (cases "frame_fits type key value meta e")
  case True
  then show ?thesis by (simp add: encodeFrame_fits length_frame_bytes)
next
  case False
  then show ?thesis by (auto simp: encodeFrame_def frame_fits_def Let_def)
qed

text \<open>C24: a frame with one run of at most four damaged bytes, anywhere in its expiry, key,
  value or metadata, in its type and flags, or in its trailer, does not read, whatever
  follows it.\<close>

theorem damage_detected:
  assumes "encodeFrame type key value meta e = Inr (pre @ mid @ post)"
    and "length mid' = length mid" "length mid \<le> 4" "mid' \<noteq> mid"
    and "14 \<le> length pre \<and> CRC_SIZE \<le> length post \<or>
      2 \<le> length pre \<and> length pre + length mid \<le> 4 \<or> post = [] \<and> length mid = CRC_SIZE"
  shows "readFrameAt (pre @ mid' @ post @ ys) 0 = None"
proof -
  from assms(1) have fits: "frame_fits type key value meta e"
      and enc: "frame_bytes type key value meta e = pre @ mid @ post"
    by (auto simp: encodeFrame_Inr_iff)
  have len: "length pre + length mid + length post \<ge> 26"
    using arg_cong [OF enc, of length] by (simp add: length_frame_bytes size_defs)
  from assms(5) consider "14 \<le> length pre \<and> CRC_SIZE \<le> length post"
    | "2 \<le> length pre \<and> length pre + length mid \<le> 4" | "post = [] \<and> length mid = CRC_SIZE" by blast
  then show ?thesis
  proof cases
    case 1
    then show ?thesis using damaged_frame_rejected [OF fits enc assms(2-4)] by blast
  next
    case 2
    then have "CRC_SIZE \<le> length post" using len by (simp add: size_defs)
    with 2 show ?thesis using damaged_frame_rejected [OF fits enc assms(2-4)] by blast
  next
    case 3
    then show ?thesis
      using damaged_trailer_rejected [OF fits, of pre mid mid' ys] enc assms(2,4) by simp
  qed
qed

theorem damage_detected_witness:
  "readFrameAt (take 22 (frame_bytes 2 [7] (Some [2, 3]) None 5) @ [6] @
      drop 23 (frame_bytes 2 [7] (Some [2, 3]) None 5) @ [8]) 0 = None"
proof (rule damage_detected)
  let ?f = "frame_bytes 2 [7] (Some [2, 3]) None 5"
  have nth: "?f ! 22 = 7" by (simp add: frame_bytes_def frame_body_def Let_def MAGIC_def
        le_int64_def nth_append del: le_bytes.simps)
  have len: "length ?f = 29" by (simp add: length_frame_bytes size_defs or_empty_def del: One_nat_def)
  have "?f = take 22 ?f @ ?f ! 22 # drop (Suc 22) ?f"
    by (rule id_take_nth_drop) (simp only: len, (simp only: less_num_simps)?)
  then show "encodeFrame 2 [7] (Some [2, 3]) None 5 = Inr (take 22 ?f @ [7] @ drop 23 ?f)"
    by (simp add: encode_small nth)
  show "14 \<le> length (take 22 ?f) \<and> CRC_SIZE \<le> length (drop 23 ?f) \<or>
      2 \<le> length (take 22 ?f) \<and> length (take 22 ?f) + length [7 :: byte] \<le> 4 \<or>
      drop 23 ?f = [] \<and> length [7 :: byte] = CRC_SIZE"
    by (simp add: len CRC_SIZE_def)
qed simp_all

text \<open>C26: a batch body the encoder produces decodes to the ops that went in (an absent value
  as an empty one, an empty metadata blob as none), also with bytes behind it.\<close>

theorem batch_roundtrip:
  assumes "encodeBatchOps ops = Inr body"
  shows "decodeBatchOps (body @ post) = Inr (map op_read ops)"
  by (rule decode_encode_batch) (rule assms)

theorem batch_roundtrip_witness:
  "decodeBatchOps ((le_bytes 2 1 @ op_bytes \<lparr> btype = 2, bkey = [7], bvalue = None, bmeta = None, bexpire = 0 \<rparr>) @ [4])
   = Inr [op_read \<lparr> btype = 2, bkey = [7], bvalue = None, bmeta = None, bexpire = 0 \<rparr>]"
  using batch_roundtrip [of "[\<lparr> btype = 2, bkey = [7], bvalue = None, bmeta = None, bexpire = 0 \<rparr>]"]
  by (simp add: encodeBatchOps_iff op_fits_def or_empty_def int64_ok_def del: le_bytes.simps)

text \<open>On every body, corrupt ones included, the scan that leaves values on disk fails
  exactly when the decoder fails and with the same error, and otherwise its references, read
  back from a file that has the body at that offset, are the decoded ops.\<close>

theorem batch_scan_is_decode:
  "map_result (map (load_op (pre @ body @ post))) (scanBatchOpRefs body (length pre)) =
   decodeBatchOps body"
  by (rule scanBatchOpRefs_load)

end
