(* ===== verification/FileIO.thy ===== *)
theory FileIO
  imports Prelude
begin

text \<open>
  The two loops the sources write around Node's synchronous and positioned system calls. A file is
  the list of its bytes. \<open>readSync\<close> of a regular file returns what is there up to its end; a loop asks
  again until it has every byte and throws when a call returns none. A write may take fewer bytes than
  asked for: \<open>io n\<close> is the answer of the \<open>n\<close>-th call, an error or the number of bytes it would take.
\<close>

definition readSync :: "bytes \<Rightarrow> nat \<Rightarrow> nat \<Rightarrow> bytes" where
  "readSync fd pos len = take len (drop pos fd)"

function read_loop :: "js_error \<Rightarrow> bytes \<Rightarrow> nat \<Rightarrow> nat \<Rightarrow> js_error + bytes" where
  "read_loop err fd off len =
     (if len = 0 then Inr []
      else let r = readSync fd off len in
           if r = [] then Inl err
           else map_result (\<lambda>rest. r @ rest) (read_loop err fd (off + length r) (len - length r)))"
  by auto
termination
  by (relation "measure (\<lambda>(err, fd, off, len). len)") (auto simp: readSync_def)

declare read_loop.simps [simp del]

lemma read_loop_ok: "off + len \<le> length fd \<Longrightarrow> read_loop err fd off len = Inr (subarray fd off (off + len))"
  by (subst read_loop.simps, subst read_loop.simps)
     (auto simp: Let_def readSync_def subarray_def min_def)

function write_loop :: "js_error \<Rightarrow> (nat \<Rightarrow> js_error + nat) \<Rightarrow> nat \<Rightarrow> bytes \<Rightarrow> bytes \<Rightarrow> js_error option \<times> nat \<times> bytes" where
  "write_loop err io n buf dst =
     (if buf = [] then (None, n, dst)
      else case io n of
        Inl e \<Rightarrow> (Some e, n + 1, dst)
      | Inr m \<Rightarrow>
          let w = min m (length buf) in
          if w = 0 then (Some err, n + 1, dst)
          else write_loop err io (n + 1) (drop w buf) (dst @ take w buf))"
  by auto
termination
  by (relation "measure (\<lambda>(err, io, n, buf, dst). length buf)") auto

declare write_loop.simps [simp del]

lemma write_loop_ok: "write_loop err io n buf dst = (None, n', dst') \<Longrightarrow> dst' = dst @ buf"
proof (induction err io n buf dst rule: write_loop.induct)
  case (1 err io n buf dst)
  show ?case
  proof (cases "buf = []")
    case True
    with "1.prems" show ?thesis by (simp add: write_loop.simps [of err io n "[]"])
  next
    case False
    with "1.prems" obtain m where m: "io n = Inr m" by (subst (asm) write_loop.simps) (auto split: sum.splits)
    have w: "min m (length buf) \<noteq> 0"
    proof
      assume "min m (length buf) = 0"
      with "1.prems" False m show False by (subst (asm) write_loop.simps) (simp add: Let_def)
    qed
    have "write_loop err io (n + 1) (drop (min m (length buf)) buf) (dst @ take (min m (length buf)) buf) = (None, n', dst')"
      using "1.prems" by (subst (asm) write_loop.simps) (simp only: Let_def if_not_P [OF False] if_not_P [OF w] m sum.case)
    from "1.IH" [OF False m refl w this] show ?thesis by simp
  qed
qed

lemma write_loop_good:
  assumes "\<forall>n. \<exists>m > 0. io n = Inr m"
  shows "\<exists>n'. write_loop err io n buf dst = (None, n', dst @ buf)"
proof (induction err io\<equiv>io n buf dst rule: write_loop.induct)
  case (1 err n buf dst)
  show ?case
  proof (cases "buf = []")
    case True
    then show ?thesis by (simp add: write_loop.simps [of err io n "[]"])
  next
    case False
    obtain m where m: "io n = Inr m" "m > 0" using assms by blast
    have w: "min m (length buf) \<noteq> 0" using m(2) False by simp
    from "1.hyps" [OF False m(1) refl w] show ?thesis
      by (subst write_loop.simps) (simp add: Let_def False m(1) w)
  qed
qed

end
