(* ===== verification/FrameScan.thy ===== *)
theory FrameScan
  imports Codec FileIO
begin

text \<open>
  Reading streams of frames (\<open>packages/minidb/src/codec.ts\<close>): \<open>parseBuffer\<close> over a
  whole buffer in strict and resync mode, the file scanner \<open>scanFrameRefsFd\<close> that leaves
  values on disk (chunked checksum, chunked search for the magic), and the incremental
  \<open>FrameParser\<close>. What is proved: a stream of encodings parses to its frames, a torn tail
  costs only itself, damage between frames costs only the damaged bytes, the file scanner
  and \<open>parseBuffer\<close> agree on every file, and the incremental parser does not depend on how
  the stream is cut into chunks.
\<close>

section \<open>Finding the magic\<close>

text \<open>\<open>buf.indexOf(MAGIC)\<close> and \<open>buf.indexOf(MAGIC, start)\<close>.\<close>

fun find_magic :: "bytes \<Rightarrow> nat option" where
  "find_magic [] = None"
| "find_magic (x # xs) = (if magic_at (x # xs) 0 then Some 0 else map_option Suc (find_magic xs))"

definition index_of_magic :: "bytes \<Rightarrow> nat \<Rightarrow> nat option" where
  "index_of_magic buf start = map_option ((+) start) (find_magic (drop start buf))"

lemma magic_at_Suc [simp]: "magic_at (x # xs) (Suc i) = magic_at xs i"
  by (simp add: magic_at_def subarray_def)

lemma magic_at_length: "magic_at buf i \<Longrightarrow> i + 2 \<le> length buf"
  by (auto simp: magic_at_def subarray_def MAGIC_def dest: arg_cong [where f = length])

lemma find_magic_Some:
  "find_magic buf = Some i \<longleftrightarrow> magic_at buf i \<and> (\<forall>j<i. \<not> magic_at buf j)"
proof (induction buf arbitrary: i)
  case Nil
  show ?case by (auto dest: magic_at_length)
next
  case (Cons x xs)
  show ?case
  proof (cases i)
    case 0
    then show ?thesis by (auto split: option.splits)
  next
    case (Suc n)
    then show ?thesis using Cons.IH [of n] by (auto simp: less_Suc_eq_0_disj)
  qed
qed

lemma find_magic_None: "find_magic buf = None \<longleftrightarrow> (\<forall>i. \<not> magic_at buf i)"
proof (induction buf)
  case Nil
  show ?case by (auto dest: magic_at_length)
next
  case (Cons x xs)
  have "(\<forall>i. \<not> magic_at (x # xs) i) \<longleftrightarrow> \<not> magic_at (x # xs) 0 \<and> (\<forall>i. \<not> magic_at xs i)"
    by (metis magic_at_Suc old.nat.exhaust)
  with Cons show ?case by simp
qed

lemma magic_at_drop_add: "magic_at (drop p buf) i = magic_at buf (p + i)"
  by (simp add: magic_at_def subarray_def add.commute)

lemma index_of_magic_Some:
  "index_of_magic buf p = Some i \<longleftrightarrow> first_at (magic_at buf) p i"
proof
  assume "index_of_magic buf p = Some i"
  then obtain k where k: "find_magic (drop p buf) = Some k" "i = p + k"
    by (auto simp: index_of_magic_def)
  then show "first_at (magic_at buf) p i"
    by (auto simp: find_magic_Some magic_at_drop_add first_at_def dest: le_Suc_ex)
next
  assume r: "first_at (magic_at buf) p i"
  then have "find_magic (drop p buf) = Some (i - p)"
    by (auto simp: find_magic_Some magic_at_drop_add first_at_def)
  with r show "index_of_magic buf p = Some i" by (simp add: index_of_magic_def first_at_def)
qed

lemma index_of_magic_None:
  "index_of_magic buf p = None \<longleftrightarrow> (\<forall>j \<ge> p. \<not> magic_at buf j)"
  by (auto simp: index_of_magic_def find_magic_None magic_at_drop_add dest: le_Suc_ex)

section \<open>Parsing a whole buffer\<close>

datatype corrupt_mode = Resync | Strict

record 'f parse_result =
  frames :: "'f list"
  corruptRanges :: "(nat \<times> nat) list"
  eofOffset :: nat

text \<open>The inner loop of the resync: the next position whose frame validates.\<close>

function resync_scan :: "bytes \<Rightarrow> nat \<Rightarrow> nat option" where
  "resync_scan buf scan =
     (if scan + 1 < length buf then
        case index_of_magic buf scan of
          None \<Rightarrow> None
        | Some s \<Rightarrow> if readFrameAt buf s \<noteq> None then Some s else resync_scan buf (s + 1)
      else None)"
  by auto
termination
  by (relation "measure (\<lambda>(buf, scan). length buf - scan)")
     (auto simp: index_of_magic_Some first_at_def dest: magic_at_length)

declare resync_scan.simps [simp del]

lemma readFrameAt_magic: "readFrameAt buf p \<noteq> None \<Longrightarrow> magic_at buf p"
  using readFrameAt_SomeD(3) by (cases "readFrameAt buf p") auto

lemma readFrameAt_no_magic: "\<not> magic_at buf p \<Longrightarrow> readFrameAt buf p = None"
  using readFrameAt_magic by blast

definition reads_at :: "bytes \<Rightarrow> nat \<Rightarrow> bool" where
  "reads_at buf p \<longleftrightarrow> readFrameAt buf p \<noteq> None"

lemma not_reads_at: "\<not> reads_at buf p \<longleftrightarrow> readFrameAt buf p = None"
  by (simp only: reads_at_def not_not)

lemma resync_scan_Some:
  "resync_scan buf p = Some s \<longleftrightarrow> first_at (reads_at buf) p s"
proof (induction buf p rule: resync_scan.induct)
  case (1 buf p)
  note unfold = resync_scan.simps [of buf p]
  consider (short) "\<not> p + 1 < length buf" | (none) "p + 1 < length buf" "index_of_magic buf p = None"
    | (some) t where "p + 1 < length buf" "index_of_magic buf p = Some t"
    by (cases "index_of_magic buf p") auto
  then show ?case
  proof cases
    case short
    have "\<not> reads_at buf j" if "p \<le> j" for j
      using magic_at_length [of buf j] readFrameAt_magic [of buf j] short that
      by (auto simp: reads_at_def)
    then show ?thesis using short by (simp add: unfold first_at_none)
  next
    case none
    then have "\<not> reads_at buf j" if "p \<le> j" for j
      using that by (simp add: index_of_magic_None readFrameAt_no_magic not_reads_at)
    then show ?thesis using none by (simp add: unfold first_at_none)
  next
    case (some t)
    then have t: "p \<le> t" and skip: "\<And>j. p \<le> j \<Longrightarrow> j < t \<Longrightarrow> \<not> reads_at buf j"
      by (auto simp: index_of_magic_Some first_at_def readFrameAt_no_magic not_reads_at)
    show ?thesis
    proof (cases "reads_at buf t")
      case True
      with some have "resync_scan buf p = Some t" by (simp add: unfold reads_at_def)
      moreover have "first_at (reads_at buf) p s \<longleftrightarrow> s = t"
        using first_at_shift [of p t "reads_at buf", OF t skip] first_at_here [of "reads_at buf" t]
          True by simp
      ultimately show ?thesis by auto
    next
      case False
      have skip': "\<not> reads_at buf j" if "p \<le> j" "j < t + 1" for j
        using skip False that by (cases "j = t") auto
      have "resync_scan buf p = resync_scan buf (t + 1)"
        using some False by (simp add: unfold not_reads_at)
      moreover have "resync_scan buf (t + 1) = Some s \<longleftrightarrow> first_at (reads_at buf) (t + 1) s"
        using "1.IH" [OF some] False by (simp add: not_reads_at)
      ultimately show ?thesis
        using first_at_shift [of p "t + 1" "reads_at buf", OF _ skip'] t by simp
    qed
  qed
qed

lemma resync_scan_None: "resync_scan buf p = None \<longleftrightarrow> (\<forall>j \<ge> p. \<not> reads_at buf j)"
proof
  assume none: "resync_scan buf p = None"
  show "\<forall>j \<ge> p. \<not> reads_at buf j"
  proof (rule ccontr)
    assume "\<not> (\<forall>j \<ge> p. \<not> reads_at buf j)"
    then have "\<exists>j. p \<le> j \<and> reads_at buf j" by auto
    then have "first_at (reads_at buf) p (LEAST j. p \<le> j \<and> reads_at buf j)"
      by (rule LeastI2_wellorder_ex) (auto simp: first_at_def not_le [symmetric])
    with none show False by (simp flip: resync_scan_Some)
  qed
next
  assume "\<forall>j \<ge> p. \<not> reads_at buf j"
  then have "resync_scan buf p \<noteq> Some s" for s
    by (simp add: resync_scan_Some first_at_none)
  then show "resync_scan buf p = None" by (cases "resync_scan buf p") auto
qed

abbreviation add_frame :: "'f \<Rightarrow> 'f parse_result \<Rightarrow> 'f parse_result" where
  "add_frame f r \<equiv> r\<lparr> frames := f # frames r \<rparr>"

abbreviation add_range :: "nat \<times> nat \<Rightarrow> 'f parse_result \<Rightarrow> 'f parse_result" where
  "add_range c r \<equiv> r\<lparr> corruptRanges := c # corruptRanges r \<rparr>"

abbreviation stop_at :: "(nat \<times> nat) list \<Rightarrow> nat \<Rightarrow> 'f parse_result" where
  "stop_at cs pos \<equiv> \<lparr> frames = [], corruptRanges = cs, eofOffset = pos \<rparr>"

function parse_loop :: "bytes \<Rightarrow> corrupt_mode \<Rightarrow> nat \<Rightarrow> frame parse_result" where
  "parse_loop buf onCorrupt pos =
     (if pos \<ge> length buf then stop_at [] pos
      else case readFrameAt buf pos of
        Some (frame, frameLen) \<Rightarrow> add_frame frame (parse_loop buf onCorrupt (pos + frameLen))
      | None \<Rightarrow>
          (if onCorrupt = Strict then stop_at [(pos, length buf)] pos
           else case resync_scan buf (pos + 1) of
             None \<Rightarrow> stop_at [(pos, length buf)] pos
           | Some resume \<Rightarrow> add_range (pos, resume) (parse_loop buf onCorrupt resume)))"
  by auto
termination
  by (relation "measure (\<lambda>(buf, onCorrupt, pos). length buf - pos)")
     (auto simp: resync_scan_Some first_at_def size_defs dest!: readFrameAt_bounds(2))

declare parse_loop.simps [simp del]

text \<open>The four turns of the loop, as an induction rule.\<close>

lemma parse_loop_induct [case_names finished frame bad resync]:
  fixes buf :: bytes
  assumes done_: "\<And>pos. length buf \<le> pos \<Longrightarrow> parse_loop buf c pos = stop_at [] pos \<Longrightarrow> P pos"
    and frame_: "\<And>pos f n. pos < length buf \<Longrightarrow> readFrameAt buf pos = Some (f, n) \<Longrightarrow>
      pos + n \<le> length buf \<Longrightarrow> 0 < n \<Longrightarrow>
      parse_loop buf c pos = add_frame f (parse_loop buf c (pos + n)) \<Longrightarrow> P (pos + n) \<Longrightarrow> P pos"
    and bad_: "\<And>pos. pos < length buf \<Longrightarrow> \<not> reads_at buf pos \<Longrightarrow>
      c = Strict \<or> (\<forall>j \<ge> pos. \<not> reads_at buf j) \<Longrightarrow>
      parse_loop buf c pos = stop_at [(pos, length buf)] pos \<Longrightarrow> P pos"
    and resync_: "\<And>pos r. pos < r \<Longrightarrow> r < length buf \<Longrightarrow> c = Resync \<Longrightarrow>
      \<not> reads_at buf pos \<Longrightarrow> resync_scan buf (pos + 1) = Some r \<Longrightarrow>
      parse_loop buf c pos = add_range (pos, r) (parse_loop buf c r) \<Longrightarrow> P r \<Longrightarrow> P pos"
  shows "P pos"
proof (induction "length buf - pos" arbitrary: pos rule: less_induct)
  case less
  show ?case
  proof (cases "length buf \<le> pos")
    case True
    then show ?thesis by (intro done_) (simp_all add: parse_loop.simps [of buf])
  next
    case len: False
    show ?thesis
    proof (cases "readFrameAt buf pos")
      case (Some fn)
      obtain f n where fn: "fn = (f, n)" by (cases fn)
      note b = readFrameAt_bounds [OF Some [unfolded fn]]
      show ?thesis
      proof (rule frame_)
        show "parse_loop buf c pos = add_frame f (parse_loop buf c (pos + n))"
          using len Some by (simp add: parse_loop.simps [of buf c pos] fn)
        show "P (pos + n)" by (rule less) (use b len in \<open>simp add: size_defs\<close>)
      qed (use b len Some fn in \<open>simp_all add: size_defs\<close>)
    next
      case None
      show ?thesis
      proof (cases "c = Strict \<or> resync_scan buf (pos + 1) = None")
        case True
        have "c = Strict \<or> (\<forall>j \<ge> pos. \<not> reads_at buf j)"
        proof (cases "c = Strict")
          case False
          then have "\<forall>j \<ge> pos + 1. \<not> reads_at buf j" using True by (simp add: resync_scan_None)
          then have "\<not> reads_at buf j" if "pos \<le> j" for j
            using None that by (cases "j = pos") (simp_all add: not_reads_at)
          then show ?thesis by simp
        qed simp
        with True None len show ?thesis
          by (intro bad_) (auto simp: parse_loop.simps [of buf c pos] not_reads_at)
      next
        case False
        then obtain r where r: "resync_scan buf (pos + 1) = Some r" "c = Resync"
          by (cases c) auto
        then have "reads_at buf r" "pos < r" by (auto simp: resync_scan_Some first_at_def)
        then have rlen: "r < length buf"
          using magic_at_length [OF readFrameAt_magic [of buf r]] by (simp add: reads_at_def)
        show ?thesis
        proof (rule resync_)
          show "parse_loop buf c pos = add_range (pos, r) (parse_loop buf c r)"
            using len None r by (subst parse_loop.simps) simp
          show "P r" by (rule less) (use rlen \<open>pos < r\<close> in simp)
        qed (use r rlen None \<open>pos < r\<close> in \<open>simp_all add: not_reads_at\<close>)
      qed
    qed
  qed
qed

definition parseBuffer :: "bytes \<Rightarrow> corrupt_mode \<Rightarrow> frame parse_result" where
  "parseBuffer buf onCorrupt = parse_loop buf onCorrupt 0"

section \<open>Streams of encodings\<close>

text \<open>A frame as the encoder is given it, and what the reader returns for it.\<close>

record frame_input =
  itype :: nat
  ikey :: bytes
  ivalue :: "bytes option"
  imeta :: "bytes option"
  iexpire :: int

definition input_fits :: "frame_input \<Rightarrow> bool" where
  "input_fits i \<longleftrightarrow> frame_fits (itype i) (ikey i) (ivalue i) (imeta i) (iexpire i)"

definition input_bytes :: "frame_input \<Rightarrow> bytes" where
  "input_bytes i = frame_bytes (itype i) (ikey i) (ivalue i) (imeta i) (iexpire i)"

definition input_frame :: "frame_input \<Rightarrow> frame" where
  "input_frame i = frame_read (itype i) (ikey i) (ivalue i) (imeta i) (iexpire i)"

definition stream :: "frame_input list \<Rightarrow> bytes" where
  "stream is = concat (map input_bytes is)"

lemma stream_simps [simp]:
  "stream [] = []" "stream (i # is) = input_bytes i @ stream is"
  "stream (is @ js) = stream is @ stream js"
  by (simp_all add: stream_def)

lemma length_input_bytes: "26 \<le> length (input_bytes i)"
  by (simp add: input_bytes_def length_frame_bytes size_defs)

lemma input_bytes_neq_Nil [simp]: "input_bytes i \<noteq> []"
  using length_input_bytes [of i] by auto

lemma read_input:
  "input_fits i \<Longrightarrow> readFrameAt (input_bytes i @ ys) 0 = Some (input_frame i, length (input_bytes i))"
  by (simp add: input_fits_def input_bytes_def input_frame_def readFrameAt_frame_bytes)

lemma read_input_at:
  "input_fits i \<Longrightarrow>
     readFrameAt (pre @ input_bytes i @ ys) (length pre) = Some (input_frame i, length (input_bytes i))"
  by (simp add: readFrameAt_drop [of _ "length pre"] read_input)

abbreviation add_frames :: "'f list \<Rightarrow> 'f parse_result \<Rightarrow> 'f parse_result" where
  "add_frames fs r \<equiv> r\<lparr> frames := fs @ frames r \<rparr>"

lemma parse_loop_stream:
  "list_all input_fits is \<Longrightarrow>
     parse_loop (pre @ stream is @ post) c (length pre) =
     add_frames (map input_frame is)
       (parse_loop (pre @ stream is @ post) c (length pre + length (stream is)))"
proof (induction "is" arbitrary: pre)
  case (Cons i "is")
  let ?b = "pre @ stream (i # is) @ post"
  from Cons.prems have i: "input_fits i" and rest: "list_all input_fits is" by auto
  have "parse_loop ?b c (length pre) =
      add_frame (input_frame i) (parse_loop ?b c (length pre + length (input_bytes i)))"
    using read_input_at [OF i, of pre "stream is @ post"] by (subst parse_loop.simps) simp
  also have "parse_loop ?b c (length pre + length (input_bytes i)) =
      add_frames (map input_frame is) (parse_loop ?b c (length pre + length (stream (i # is))))"
    using Cons.IH [OF rest, of "pre @ input_bytes i"] by (simp add: add.assoc)
  finally show ?case by simp
qed simp

lemma parse_loop_end: "parse_loop buf c (length buf) = stop_at [] (length buf)"
  by (simp add: parse_loop.simps [of buf])

lemma parse_stream:
  "list_all input_fits is \<Longrightarrow>
     parseBuffer (stream is) c =
     \<lparr> frames = map input_frame is, corruptRanges = [], eofOffset = length (stream is) \<rparr>"
  using parse_loop_stream [of "is" "[]" "[]" c] parse_loop_end [of "stream is"]
  by (simp add: parseBuffer_def)

text \<open>A tail in which no frame reads: strict keeps what precedes it, and so does resync.\<close>

lemma parse_loop_bad_tail:
  assumes "pos < length buf" "\<And>j. pos \<le> j \<Longrightarrow> \<not> reads_at buf j"
  shows "parse_loop buf c pos = stop_at [(pos, length buf)] pos"
proof -
  have "resync_scan buf (pos + 1) = None"
    using assms(2) by (simp add: resync_scan_None)
  with assms show ?thesis by (simp add: parse_loop.simps [of buf] not_reads_at)
qed

lemma parse_loop_strict_bad:
  "pos < length buf \<Longrightarrow> \<not> reads_at buf pos \<Longrightarrow>
     parse_loop buf Strict pos = stop_at [(pos, length buf)] pos"
  by (simp add: parse_loop.simps [of buf] not_reads_at)

lemma parse_stream_bad_tail:
  assumes "list_all input_fits is" "tail \<noteq> []"
    and "c = Strict \<and> \<not> reads_at tail 0 \<or> (\<forall>j. \<not> reads_at tail j)"
  shows "parseBuffer (stream is @ tail) c =
     \<lparr> frames = map input_frame is,
       corruptRanges = [(length (stream is), length (stream is) + length tail)],
       eofOffset = length (stream is) \<rparr>"
proof -
  let ?b = "stream is @ tail" and ?n = "length (stream is)"
  have drop: "readFrameAt ?b (?n + j) = readFrameAt tail j" for j
    by (simp add: readFrameAt_drop [of ?b] readFrameAt_drop [of tail])
  have "parse_loop ?b c ?n = stop_at [(?n, length ?b)] ?n"
    using assms(3)
  proof
    assume "c = Strict \<and> \<not> reads_at tail 0"
    with drop [of 0] assms(2) show ?thesis by (simp add: parse_loop_strict_bad reads_at_def)
  next
    assume none: "\<forall>j. \<not> reads_at tail j"
    have "\<not> reads_at ?b j" if "?n \<le> j" for j
      using none drop [of "j - ?n"] that by (simp add: reads_at_def)
    with assms(2) show ?thesis by (intro parse_loop_bad_tail) auto
  qed
  with parse_loop_stream [OF assms(1), of "[]" tail c] show ?thesis
    by (simp add: parseBuffer_def)
qed

text \<open>The frames that are whole in the first \<open>n\<close> bytes of a stream.\<close>

fun whole_frames :: "nat \<Rightarrow> frame_input list \<Rightarrow> frame_input list" where
  "whole_frames n [] = []"
| "whole_frames n (i # is) =
     (if length (input_bytes i) \<le> n then i # whole_frames (n - length (input_bytes i)) is else [])"

lemma whole_frames_all: "length (stream is) \<le> n \<Longrightarrow> whole_frames n is = is"
  by (induction n "is" rule: whole_frames.induct) auto

lemma whole_frames_length: "length (stream (whole_frames n is)) \<le> n"
  by (induction n "is" rule: whole_frames.induct) auto

lemma whole_frames_fits: "list_all input_fits is \<Longrightarrow> list_all input_fits (whole_frames n is)"
  by (induction n "is" rule: whole_frames.induct) auto

lemma cut_frame_not_read:
  assumes "input_fits i" "n < length (input_bytes i)"
  shows "\<not> reads_at (take n (input_bytes i)) 0"
proof
  assume "reads_at (take n (input_bytes i)) 0"
  then obtain fr m where r: "readFrameAt (take n (input_bytes i)) 0 = Some (fr, m)"
    by (auto simp: reads_at_def)
  from readFrameAt_append [OF r, of "drop n (input_bytes i)"] read_input [OF assms(1), of "[]"]
  have "m = length (input_bytes i)" by simp
  with readFrameAt_bounds(1) [OF r] assms(2) show False by simp
qed

lemma take_stream_split:
  "\<exists>tail. take n (stream is) = stream (whole_frames n is) @ tail \<and>
     (tail = [] \<or> (\<exists>i \<in> set is. \<exists>m < length (input_bytes i). tail = take m (input_bytes i)))"
proof (induction n "is" rule: whole_frames.induct)
  case (2 n i "is")
  show ?case
  proof (cases "length (input_bytes i) \<le> n")
    case True
    with "2.IH" obtain tail where
      "take (n - length (input_bytes i)) (stream is) = stream (whole_frames (n - length (input_bytes i)) is) @ tail"
      "tail = [] \<or> (\<exists>i \<in> set is. \<exists>m < length (input_bytes i). tail = take m (input_bytes i))"
      by auto
    with True show ?thesis by (intro exI [of _ tail]) auto
  next
    case False
    then show ?thesis
      by (intro exI [of _ "take n (input_bytes i)"]) (force simp: not_le)
  qed
qed simp

lemma parse_torn_strict:
  fixes n "is"
  defines "m \<equiv> length (stream (whole_frames n is))" and "l \<equiv> min n (length (stream is))"
  assumes "list_all input_fits is"
  shows "parseBuffer (take n (stream is)) Strict =
     \<lparr> frames = map input_frame (whole_frames n is),
       corruptRanges = (if m = l then [] else [(m, l)]), eofOffset = m \<rparr>"
proof -
  obtain tail where t: "take n (stream is) = stream (whole_frames n is) @ tail"
      "tail = [] \<or> (\<exists>i \<in> set is. \<exists>m < length (input_bytes i). tail = take m (input_bytes i))"
    using take_stream_split by blast
  have w: "list_all input_fits (whole_frames n is)" by (rule whole_frames_fits) fact
  have l: "l = m + length tail"
    using arg_cong [OF t(1), of length] by (simp add: m_def l_def min.commute)
  show ?thesis
  proof (cases "tail = []")
    case True
    with l t(1) parse_stream [OF w] show ?thesis by (simp add: m_def)
  next
    case False
    with t(2) assms(3) have "\<not> reads_at tail 0"
      by (auto simp: list_all_iff cut_frame_not_read)
    with parse_stream_bad_tail [OF w False, of Strict] l t(1) False show ?thesis
      by (simp add: m_def)
  qed
qed

text \<open>Damage between two runs of frames: resync loses the damaged bytes only.\<close>

lemma parse_resync_gap:
  assumes "list_all input_fits is" "list_all input_fits (j # js)" "junk \<noteq> []"
    and bad: "\<And>i. i < length junk \<Longrightarrow> \<not> reads_at (junk @ stream (j # js)) i"
  shows "parseBuffer (stream is @ junk @ stream (j # js)) Resync =
     \<lparr> frames = map input_frame (is @ j # js),
       corruptRanges = [(length (stream is), length (stream is) + length junk)],
       eofOffset = length (stream is @ junk @ stream (j # js)) \<rparr>"
proof -
  let ?b = "stream is @ junk @ stream (j # js)" and ?n = "length (stream is)"
  have drop: "readFrameAt ?b (?n + i) = readFrameAt (junk @ stream (j # js)) i" for i
    by (simp add: readFrameAt_drop [of ?b] readFrameAt_drop [of "junk @ stream (j # js)"]
        del: stream_simps)
  have bad0: "readFrameAt ?b ?n = None"
    using bad [of 0] drop [of 0] assms(3) by (simp add: not_reads_at del: stream_simps)
  have "readFrameAt ?b (?n + length junk) \<noteq> None"
    using assms(2) read_input_at [of j junk "stream js"] by (subst drop) simp
  moreover have "\<not> reads_at ?b i" if "?n + 1 \<le> i" "i < ?n + length junk" for i
    using bad [of "i - ?n"] drop [of "i - ?n"] that by (simp add: reads_at_def del: stream_simps)
  ultimately have "resync_scan ?b (?n + 1) = Some (?n + length junk)"
    using assms(3) by (simp add: resync_scan_Some first_at_def reads_at_def Suc_le_eq
        del: stream_simps)
  then have "parse_loop ?b Resync ?n =
      add_range (?n, ?n + length junk) (parse_loop ?b Resync (?n + length junk))"
    using bad0 assms(3) by (subst parse_loop.simps) (simp del: stream_simps)
  moreover have "parse_loop ?b Resync (?n + length junk) =
      \<lparr> frames = map input_frame (j # js), corruptRanges = [], eofOffset = length ?b \<rparr>"
    using parse_loop_stream [OF assms(2), of "stream is @ junk" "[]" Resync] parse_loop_end [of ?b]
    by (simp add: add.assoc del: stream_simps)
  ultimately show ?thesis
    using parse_loop_stream [OF assms(1), of "[]" "junk @ stream (j # js)" Resync]
    by (simp add: parseBuffer_def del: stream_simps(1,2))
qed

text \<open>On every buffer: strict mode finds a prefix of what resync finds, and what it
  reports as intact parses cleanly on its own.\<close>

lemma parse_strict_prefix:
  "\<exists>rest. frames (parse_loop buf Resync pos) = frames (parse_loop buf Strict pos) @ rest"
proof (induction pos rule: parse_loop_induct [where buf = buf and c = Strict])
  case (frame pos f n)
  then have "parse_loop buf Resync pos = add_frame f (parse_loop buf Resync (pos + n))"
    by (simp add: parse_loop.simps [of buf Resync pos])
  with frame show ?case by auto
qed auto

lemma parse_eof_bound: "pos \<le> length buf \<Longrightarrow> eofOffset (parse_loop buf c pos) \<le> length buf"
  by (induction pos rule: parse_loop_induct [where buf = buf and c = c]) auto

lemma parse_eof_start: "pos \<le> eofOffset (parse_loop buf c pos)"
  by (induction pos rule: parse_loop_induct [where buf = buf and c = c]) auto

text \<open>The corrupt ranges are not empty, in order, apart from each other and in the buffer.\<close>

fun ranges_from :: "nat \<Rightarrow> (nat \<times> nat) list \<Rightarrow> nat \<Rightarrow> bool" where
  "ranges_from lo [] hi = True"
| "ranges_from lo ((a, b) # rs) hi \<longleftrightarrow> lo \<le> a \<and> a < b \<and> b \<le> hi \<and> ranges_from b rs hi"

lemma ranges_from_mono: "ranges_from lo rs hi \<Longrightarrow> lo' \<le> lo \<Longrightarrow> ranges_from lo' rs hi"
  by (cases rs) auto

lemma parse_ranges: "ranges_from pos (corruptRanges (parse_loop buf c pos)) (length buf)"
  by (induction pos rule: parse_loop_induct [where buf = buf and c = c])
     (auto intro: ranges_from_mono)

text \<open>Cut off at the end of valid data, a strictly parsed buffer is clean.\<close>

lemma parse_strict_cut:
  "pos \<le> length buf \<Longrightarrow>
     parse_loop (take (eofOffset (parse_loop buf Strict pos)) buf) Strict pos =
     \<lparr> frames = frames (parse_loop buf Strict pos), corruptRanges = [],
       eofOffset = eofOffset (parse_loop buf Strict pos) \<rparr>"
proof (induction pos rule: parse_loop_induct [where buf = buf and c = Strict])
  case (frame pos f n)
  let ?e = "eofOffset (parse_loop buf Strict (pos + n))"
  have e: "pos + n \<le> ?e" "?e \<le> length buf"
    using parse_eof_start parse_eof_bound frame.hyps by auto
  have "subarray buf pos (pos + n) = subarray (take ?e buf) pos (pos + n)"
    using e by (simp add: subarray_def drop_take min_def)
  with readFrameAt_local frame.hyps(2)
  have "readFrameAt (take ?e buf) pos = Some (f, n)" by blast
  with frame e show ?case by (subst parse_loop.simps) auto
qed (auto simp: parse_loop.simps [of "take _ _"] min_def)

section \<open>Scanning a file without its values\<close>

text \<open>
  A file descriptor is the bytes of the file; \<open>readSync\<close> of a regular file returns what is
  there up to the end of the file. \<open>readExactSync\<close> asks again until it has every byte.
\<close>

definition CRC_CHUNK :: nat where "CRC_CHUNK = 2 ^ 20"
definition MAGIC_SCAN_CHUNK :: nat where "MAGIC_SCAN_CHUNK = 2 ^ 20"

function readExactSync :: "bytes \<Rightarrow> nat \<Rightarrow> nat \<Rightarrow> js_error + bytes" where
  "readExactSync fd pos len =
     (if len = 0 then Inr []
      else let r = readSync fd pos len in
           if r = [] then Inl (Error ''codec: short read past EOF'')
           else map_result (\<lambda>rest. r @ rest) (readExactSync fd (pos + length r) (len - length r)))"
  by auto
termination
  by (relation "measure (\<lambda>(fd, pos, len). len)") (auto simp: readSync_def)

declare readExactSync.simps [simp del]

function crc_chunks :: "bytes \<Rightarrow> 32 word \<Rightarrow> nat \<Rightarrow> nat \<Rightarrow> js_error + 32 word" where
  "crc_chunks fd crc crcPos crcLeft =
     (if crcLeft = 0 then Inr crc
      else let len = min CRC_CHUNK crcLeft in
           case readExactSync fd crcPos len of
             Inl e \<Rightarrow> Inl e
           | Inr buf \<Rightarrow> crc_chunks fd (crc32 buf crc) (crcPos + len) (crcLeft - len))"
  by auto
termination
  by (relation "measure (\<lambda>(fd, crc, crcPos, crcLeft). crcLeft)") (auto simp: CRC_CHUNK_def)

declare crc_chunks.simps [simp del]

record frame_ref =
  rftype :: nat
  rfkey :: bytes
  rfmeta :: "bytes option"
  rfexpire :: int
  frameOff :: nat
  valueOff :: nat
  valLen :: nat
  frameLen :: nat

definition readFrameRefAt :: "bytes \<Rightarrow> nat \<Rightarrow> nat \<Rightarrow> js_error + frame_ref option" where
  "readFrameRefAt fd pos fsize =
     (if fsize - pos < HEADER_SIZE then Inr None
      else case readExactSync fd pos HEADER_SIZE of
        Inl e \<Rightarrow> Inl e
      | Inr header \<Rightarrow>
        if \<not> magic_at header 0 then Inr None
        else let type = u8_at header 2;
                 keyLen = u16_at header 4;
                 vLen = u32_at header 6;
                 metaLen = u32_at header 10;
                 fLen = HEADER_SIZE + keyLen + vLen + metaLen + CRC_SIZE in
        if keyLen > MAX_KEY_LEN then Inr None
        else if fLen < HEADER_SIZE + CRC_SIZE then Inr None
        else if fsize - pos < fLen then Inr None
        else case crc_chunks fd 0 (pos + 2) (fLen - CRC_SIZE - 2) of
          Inl e \<Rightarrow> Inl e
        | Inr crc \<Rightarrow>
        (case readExactSync fd (pos + fLen - CRC_SIZE) CRC_SIZE of
          Inl e \<Rightarrow> Inl e
        | Inr stored \<Rightarrow>
        if u32_at stored 0 \<noteq> unat crc then Inr None
        else let keyStart = pos + HEADER_SIZE;
                 vOff = keyStart + keyLen;
                 metaStart = vOff + vLen in
        case readExactSync fd keyStart keyLen of
          Inl e \<Rightarrow> Inl e
        | Inr key \<Rightarrow>
        (case (if metaLen \<noteq> 0 then map_result Some (readExactSync fd metaStart metaLen)
               else Inr None) of
          Inl e \<Rightarrow> Inl e
        | Inr meta \<Rightarrow>
          Inr (Some \<lparr> rftype = type, rfkey = key, rfmeta = meta,
                      rfexpire = to_number (i64_at header 14),
                      frameOff = pos, valueOff = vOff, valLen = vLen, frameLen = fLen \<rparr>))))"

function findMagicSync :: "bytes \<Rightarrow> nat \<Rightarrow> nat \<Rightarrow> nat option" where
  "findMagicSync fd pos fsize =
     (if pos < fsize then
        let len = min MAGIC_SCAN_CHUNK (fsize - pos);
            chunk = readSync fd pos len;
            n = length chunk in
        if n = 0 then None
        else case find_magic chunk of
          Some idx \<Rightarrow> Some (pos + idx)
        | None \<Rightarrow> if n < length MAGIC then None
                  else findMagicSync fd (pos + (n - (length MAGIC - 1))) fsize
      else None)"
  by auto
termination
  by (relation "measure (\<lambda>(fd, pos, fsize). fsize - pos)") auto

declare findMagicSync.simps [simp del]

text \<open>The two facts that make the chunks invisible.\<close>

lemma readExactSync_ok:
  "pos + len \<le> length fd \<Longrightarrow> readExactSync fd pos len = Inr (subarray fd pos (pos + len))"
  by (cases "len = 0")
     (auto simp: readExactSync.simps [of fd pos] readExactSync.simps [of fd _ 0] readSync_def
       subarray_def)

lemma readExactSync_short:
  "length fd < pos + len \<Longrightarrow> 0 < len \<Longrightarrow>
     readExactSync fd pos len = Inl (Error ''codec: short read past EOF'')"
  by (subst readExactSync.simps, simp add: readSync_def Let_def,
      subst readExactSync.simps, auto simp: readSync_def Let_def)

lemma crc_chunks_ok:
  "pos + left \<le> length fd \<Longrightarrow>
     crc_chunks fd c pos left = Inr (crc32 (subarray fd pos (pos + left)) c)"
proof (induction fd c pos left rule: crc_chunks.induct)
  case (1 fd c pos left)
  show ?case
  proof (cases "left = 0")
    case False
    let ?n = "min CRC_CHUNK left"
    have r: "readExactSync fd pos ?n = Inr (subarray fd pos (pos + ?n))"
      by (rule readExactSync_ok) (use "1.prems" in auto)
    have split: "subarray fd pos (pos + left) =
        subarray fd pos (pos + ?n) @ subarray fd (pos + ?n) (pos + ?n + (left - ?n))"
      using subarray_split [of pos "pos + ?n" "pos + left" fd] by simp
    have "crc_chunks fd c pos left =
        crc_chunks fd (crc32 (subarray fd pos (pos + ?n)) c) (pos + ?n) (left - ?n)"
      using False r by (simp add: crc_chunks.simps [of fd c pos left] Let_def)
    also have "\<dots> = Inr (crc32 (subarray fd (pos + ?n) (pos + ?n + (left - ?n)))
        (crc32 (subarray fd pos (pos + ?n)) c))"
      by (rule "1.IH" [OF False refl r]) (use "1.prems" in auto)
    finally show ?thesis by (simp only: split crc32_append)
  qed (simp add: crc_chunks.simps)
qed

lemma findMagicSync_index:
  "findMagicSync fd pos (length fd) = index_of_magic fd pos"
proof (induction "length fd - pos" arbitrary: pos rule: less_induct)
  case less
  note unfold = findMagicSync.simps [of fd pos]
  show ?case
  proof (cases "pos < length fd")
    case False
    then have "\<forall>j \<ge> pos. \<not> magic_at fd j" using magic_at_length by fastforce
    then have "index_of_magic fd pos = None" by (simp add: index_of_magic_None)
    with False show ?thesis by (simp add: unfold)
  next
    case len: True
    let ?n = "min MAGIC_SCAN_CHUNK (length fd - pos)"
    have chunk: "readSync fd pos ?n = subarray fd pos (pos + ?n)" "length (readSync fd pos ?n) = ?n"
      by (auto simp: readSync_def subarray_def)
    have n0: "0 < ?n" using len by (simp add: MAGIC_SCAN_CHUNK_def)
    with chunk(2) have c0: "readSync fd pos ?n \<noteq> []" by (metis length_0_conv less_numeral_extra(3))
    have inside: "magic_at (readSync fd pos ?n) j \<longleftrightarrow> magic_at fd (pos + j) \<and> j + 2 \<le> ?n" for j
    proof (cases "j + 2 \<le> ?n")
      case True
      then have "subarray (readSync fd pos ?n) j (j + 2) = subarray fd (pos + j) (pos + j + 2)"
        by (simp add: readSync_def subarray_def drop_take min_def add.commute)
      with True show ?thesis by (simp add: magic_at_def add.assoc)
    next
      case False
      with magic_at_length [of "readSync fd pos ?n" j] chunk(2) show ?thesis by auto
    qed
    show ?thesis
    proof (cases "find_magic (readSync fd pos ?n)")
      case (Some i)
      then have "first_at (magic_at fd) pos (pos + i)"
        by (auto simp: find_magic_Some inside first_at_def dest!: le_Suc_ex)
      with Some len n0 c0 chunk(2) show ?thesis
        by (simp add: unfold Let_def flip: index_of_magic_Some)
    next
      case None
      have none: "\<not> magic_at fd j" if "pos \<le> j" "j < pos + (?n - 1)" for j
      proof -
        have "j - pos + 2 \<le> ?n" using that by linarith
        with None [unfolded find_magic_None, rule_format, of "j - pos"] that(1) show ?thesis
          by (simp add: inside)
      qed
      show ?thesis
      proof (cases "?n < 2")
        case True
        then have "length fd - pos < 2" by (simp add: MAGIC_SCAN_CHUNK_def split: if_splits)
        then have "\<forall>j \<ge> pos. \<not> magic_at fd j" using magic_at_length by fastforce
        then have "index_of_magic fd pos = None" by (simp add: index_of_magic_None)
        with True None len n0 c0 chunk(2) show ?thesis
          by (simp add: unfold Let_def)
      next
        case False
        have "findMagicSync fd pos (length fd) = findMagicSync fd (pos + (?n - 1)) (length fd)"
          using False None len n0 c0 chunk(2) by (simp add: unfold Let_def)
        also have "\<dots> = index_of_magic fd (pos + (?n - 1))"
          by (rule less) (use False len in auto)
        also have "\<dots> = index_of_magic fd pos"
          using first_at_shift [of pos "pos + (?n - 1)" "magic_at fd", OF _ none]
          by (intro option_eqI) (simp add: index_of_magic_Some)
        finally show ?thesis .
      qed
    qed
  qed
qed

lemma magic_at_subarray: "i + 2 \<le> j \<Longrightarrow> magic_at (subarray buf i j) 0 \<longleftrightarrow> magic_at buf i"
  by (simp add: magic_at_def subarray_subarray)

text \<open>The reference for a frame read at \<open>pos\<close>: its value is an offset and a length.\<close>

definition ref_of :: "nat \<Rightarrow> frame \<times> nat \<Rightarrow> frame_ref" where
  "ref_of pos = (\<lambda>(fr, n).
     \<lparr> rftype = ftype fr, rfkey = fkey fr, rfmeta = fmeta fr, rfexpire = fexpire fr,
       frameOff = pos, valueOff = pos + HEADER_SIZE + length (fkey fr),
       valLen = length (fvalue fr), frameLen = n \<rparr>)"

lemma readFrameRefAt_read:
  "readFrameRefAt fd pos (length fd) = Inr (map_option (ref_of pos) (readFrameAt fd pos))"
proof (cases "length fd - pos < HEADER_SIZE")
  case True
  then show ?thesis by (simp add: readFrameRefAt_def readFrameAt_def)
next
  case False
  then have len: "pos + 22 \<le> length fd" by (simp add: size_defs)
  let ?k = "u16_at fd (pos + 4)" and ?v = "u32_at fd (pos + 6)" and ?m = "u32_at fd (pos + 10)"
  let ?n = "26 + ?k + ?v + ?m"
  have header: "readExactSync fd pos 22 = Inr (subarray fd pos (pos + 22))"
    by (rule readExactSync_ok) (rule len)
  note fields = field_at_subarray [of _ "pos + 22" pos fd] magic_at_subarray [of pos "pos + 22" fd]
  show ?thesis
  proof (cases "magic_at fd pos \<and> ?k \<le> MAX_KEY_LEN \<and> pos + ?n \<le> length fd")
    case bad: False
    have "readFrameAt fd pos = None"
      using bad False by (auto simp: readFrameAt_def Let_def size_defs)
    moreover have "readFrameRefAt fd pos (length fd) = Inr None"
      using bad False header by (auto simp: readFrameRefAt_def Let_def size_defs fields)
    ultimately show ?thesis by simp
  next
    case good: True
    have crc: "crc_chunks fd 0 (pos + 2) (?n - 6) =
        Inr (crc32 (subarray fd (pos + 2) (pos + ?n - 4)) 0)"
      using crc_chunks_ok [of "pos + 2" "?n - 6" fd 0] good by (simp add: add.commute add.left_commute)
    have trailer: "readExactSync fd (pos + ?n - 4) 4 = Inr (subarray fd (pos + ?n - 4) (pos + ?n))"
      using readExactSync_ok [of "pos + ?n - 4" 4 fd] good by (simp add: add.commute add.left_commute)
    have key: "readExactSync fd (pos + 22) ?k = Inr (subarray fd (pos + 22) (pos + 22 + ?k))"
      using readExactSync_ok [of "pos + 22" ?k fd] good by simp
    have meta: "readExactSync fd (pos + 22 + ?k + ?v) ?m =
        Inr (subarray fd (pos + 22 + ?k + ?v) (pos + 22 + ?k + ?v + ?m))"
      using readExactSync_ok [of "pos + 22 + ?k + ?v" ?m fd] good by simp
    have stored: "u32_at (subarray fd (pos + ?n - 4) (pos + ?n)) 0 = u32_at fd (pos + ?n - 4)"
      by (simp add: field_at_subarray)
    show ?thesis
      using good False header crc trailer key meta stored
      by (simp add: readFrameRefAt_def readFrameAt_def Let_def size_defs fields ref_of_def
          frame_at_def length_subarray add_ac)
  qed
qed

lemma findMagicSync_ge: "findMagicSync fd pos fsize = Some s \<Longrightarrow> pos \<le> s"
proof (induction fd pos fsize rule: findMagicSync.induct)
  case (1 fd pos fsize)
  show ?case
    using "1.prems"
    by (subst (asm) findMagicSync.simps)
       (auto simp: Let_def split: if_splits option.splits dest!: "1.IH" [OF _ refl refl refl])
qed

lemma readFrameRefAt_frameLen:
  "readFrameRefAt fd pos fsize = Inr (Some r) \<Longrightarrow> 26 \<le> frameLen r"
  by (auto simp: readFrameRefAt_def Let_def size_defs split: if_splits sum.splits)

function resync_scan_fd :: "bytes \<Rightarrow> nat \<Rightarrow> nat \<Rightarrow> js_error + nat option" where
  "resync_scan_fd fd fsize scan =
     (if scan + 1 < fsize then
        case findMagicSync fd scan fsize of
          None \<Rightarrow> Inr None
        | Some s \<Rightarrow>
          (case readFrameRefAt fd s fsize of
             Inl e \<Rightarrow> Inl e
           | Inr (Some r) \<Rightarrow> Inr (Some s)
           | Inr None \<Rightarrow> resync_scan_fd fd fsize (s + 1))
      else Inr None)"
  by auto
termination
  by (relation "measure (\<lambda>(fd, fsize, scan). fsize - scan)") (auto dest: findMagicSync_ge)

declare resync_scan_fd.simps [simp del]

lemma resync_scan_fd_ge: "resync_scan_fd fd fsize scan = Inr (Some s) \<Longrightarrow> scan \<le> s"
proof (induction fd fsize scan rule: resync_scan_fd.induct)
  case (1 fd fsize scan)
  note eq = "1.prems" [unfolded resync_scan_fd.simps [of fd fsize scan]]
  then have lt: "scan + 1 < fsize" by (simp split: if_splits)
  with eq obtain t where t: "findMagicSync fd scan fsize = Some t" by (cases "findMagicSync fd scan fsize") auto
  with eq lt obtain r where r: "readFrameRefAt fd t fsize = Inr r"
    by (cases "readFrameRefAt fd t fsize") auto
  show ?case
  proof (cases r)
    case None
    with eq lt t r have "resync_scan_fd fd fsize (t + 1) = Inr (Some s)" by simp
    from "1.IH" [OF lt t r None this] findMagicSync_ge [OF t] show ?thesis by simp
  next
    case (Some x)
    with eq lt t r findMagicSync_ge [OF t] show ?thesis by simp
  qed
qed

function scan_refs_loop :: "bytes \<Rightarrow> corrupt_mode \<Rightarrow> nat \<Rightarrow> nat \<Rightarrow> js_error + frame_ref parse_result" where
  "scan_refs_loop fd onCorrupt fsize pos =
     (if pos \<ge> fsize then Inr (stop_at [] pos)
      else case readFrameRefAt fd pos fsize of
        Inl e \<Rightarrow> Inl e
      | Inr (Some r) \<Rightarrow>
          map_result (add_frame r) (scan_refs_loop fd onCorrupt fsize (pos + frameLen r))
      | Inr None \<Rightarrow>
          (if onCorrupt = Strict then Inr (stop_at [(pos, fsize)] pos)
           else case resync_scan_fd fd fsize (pos + 1) of
             Inl e \<Rightarrow> Inl e
           | Inr None \<Rightarrow> Inr (stop_at [(pos, fsize)] pos)
           | Inr (Some resume) \<Rightarrow>
               map_result (add_range (pos, resume)) (scan_refs_loop fd onCorrupt fsize resume)))"
  by auto
termination
  by (relation "measure (\<lambda>(fd, onCorrupt, fsize, pos). fsize - pos)")
     (auto dest: resync_scan_fd_ge readFrameRefAt_frameLen)

declare scan_refs_loop.simps [simp del]

definition scanFrameRefsFd :: "bytes \<Rightarrow> corrupt_mode \<Rightarrow> nat \<Rightarrow> js_error + frame_ref parse_result" where
  "scanFrameRefsFd fd onCorrupt startOffset = scan_refs_loop fd onCorrupt (length fd) startOffset"

lemma resync_scan_fd_eq: "resync_scan_fd fd (length fd) p = Inr (resync_scan fd p)"
proof (induction fd p rule: resync_scan.induct)
  case (1 fd p)
  show ?case
    using 1
    by (subst resync_scan_fd.simps, subst resync_scan.simps)
       (auto simp: findMagicSync_index readFrameRefAt_read split: option.splits)
qed

text \<open>The scan from \<open>pos\<close>, as a parse from \<open>pos\<close> that keeps only references.\<close>

definition same_scan :: "bytes \<Rightarrow> frame_ref parse_result \<Rightarrow> frame parse_result \<Rightarrow> bool" where
  "same_scan fd r p \<longleftrightarrow>
     corruptRanges r = corruptRanges p \<and> eofOffset r = eofOffset p \<and>
     list_all2 (\<lambda>ref fr. readFrameAt fd (frameOff ref) = Some (fr, frameLen ref) \<and>
       ref = ref_of (frameOff ref) (fr, frameLen ref)) (frames r) (frames p)"

lemma scan_refs_loop_parse:
  "\<exists>r. scan_refs_loop fd c (length fd) pos = Inr r \<and> same_scan fd r (parse_loop fd c pos)"
proof (induction pos rule: parse_loop_induct [where buf = fd and c = c])
  case (finished pos)
  then show ?case by (simp add: scan_refs_loop.simps [of fd c _ pos] same_scan_def)
next
  case (frame pos f n)
  then obtain r where r: "scan_refs_loop fd c (length fd) (pos + n) = Inr r"
      "same_scan fd r (parse_loop fd c (pos + n))" by auto
  have "readFrameRefAt fd pos (length fd) = Inr (Some (ref_of pos (f, n)))"
    using frame.hyps(2) by (simp add: readFrameRefAt_read)
  then have "scan_refs_loop fd c (length fd) pos = Inr (add_frame (ref_of pos (f, n)) r)"
    using frame.hyps(1) r(1) by (simp add: scan_refs_loop.simps [of fd c _ pos] ref_of_def)
  with frame.hyps r(2) show ?case by (simp add: same_scan_def ref_of_def)
next
  case (bad pos)
  then have "c = Strict \<or> resync_scan fd (pos + 1) = None"
    by (auto simp: resync_scan_None)
  with bad show ?case
    by (auto simp: scan_refs_loop.simps [of fd c _ pos] same_scan_def readFrameRefAt_read
        not_reads_at resync_scan_fd_eq)
next
  case (resync pos r)
  then obtain s where s: "scan_refs_loop fd Resync (length fd) r = Inr s"
      "same_scan fd s (parse_loop fd Resync r)" by auto
  with resync show ?case
    by (subst scan_refs_loop.simps)
       (simp add: same_scan_def readFrameRefAt_read not_reads_at resync_scan_fd_eq)
qed

text \<open>A reference points at its value.\<close>

lemma ref_of_value:
  assumes "readFrameAt fd pos = Some (fr, n)"
  shows "subarray fd (valueOff (ref_of pos (fr, n))) (valueOff (ref_of pos (fr, n)) + valLen (ref_of pos (fr, n)))
    = fvalue fr"
  using readFrameAt_SomeD(1,2,4) [OF assms]
  by (simp add: ref_of_def frame_at_def Let_def size_defs length_subarray)

section \<open>The incremental parser\<close>

text \<open>
  The state of a \<open>FrameParser\<close>. \<open>feed\<close> is a generator: what it yields before it throws is
  already with the consumer, so a turn returns the frames, the error if any, and the state.
  On an error \<open>pending\<close> keeps its old value, while \<open>offset\<close> has advanced over the frames
  yielded in this call.
\<close>

record parser =
  pending :: bytes
  poffset :: nat

record feed_result =
  yielded :: "frame list"
  thrown :: "js_error option"
  endPos :: nat
  endOff :: nat

abbreviation yield_frame :: "frame \<Rightarrow> feed_result \<Rightarrow> feed_result" where
  "yield_frame f r \<equiv> r\<lparr> yielded := f # yielded r \<rparr>"

function feed_loop :: "bytes \<Rightarrow> nat \<Rightarrow> nat \<Rightarrow> feed_result" where
  "feed_loop buf pos off =
     (if length buf - pos < HEADER_SIZE
      then \<lparr> yielded = [], thrown = None, endPos = pos, endOff = off \<rparr>
      else if \<not> magic_at buf pos then
        (case index_of_magic buf (pos + 1) of
           None \<Rightarrow> \<lparr> yielded = [], thrown = Some (CorruptFrameError ''magic not found'' (off + pos)),
                     endPos = pos, endOff = off \<rparr>
         | Some next_pos \<Rightarrow> feed_loop buf next_pos off)
      else let keyLen = u16_at buf (pos + 4);
               vLen = u32_at buf (pos + 6);
               metaLen = u32_at buf (pos + 10);
               fLen = HEADER_SIZE + keyLen + vLen + metaLen + CRC_SIZE in
      if length buf - pos < fLen
      then \<lparr> yielded = [], thrown = None, endPos = pos, endOff = off \<rparr>
      else if u32_at buf (pos + fLen - CRC_SIZE)
              \<noteq> unat (crc32 (subarray buf (pos + 2) (pos + fLen - CRC_SIZE)) 0)
      then \<lparr> yielded = [], thrown = Some (CorruptFrameError ''crc mismatch'' (off + pos)),
             endPos = pos, endOff = off \<rparr>
      else yield_frame (frame_at buf pos keyLen vLen metaLen) (feed_loop buf (pos + fLen) (off + fLen)))"
  by auto
termination
  by (relation "measure (\<lambda>(buf, pos, off). length buf - pos)")
     (auto simp: index_of_magic_Some first_at_def size_defs)

declare feed_loop.simps [simp del]

definition feed :: "parser \<Rightarrow> bytes \<Rightarrow> frame list \<times> js_error option \<times> parser" where
  "feed p chunk =
     (let buf = (if pending p \<noteq> [] then pending p @ chunk else chunk);
          r = feed_loop buf 0 (poffset p) in
      (yielded r, thrown r,
       case thrown r of
         Some e \<Rightarrow> p\<lparr> poffset := endOff r \<rparr>
       | None \<Rightarrow> \<lparr> pending = (if endPos r < length buf then drop (endPos r) buf else []),
                   poffset = endOff r \<rparr>))"

definition finish :: "parser \<Rightarrow> (js_error + nat) \<times> parser" where
  "finish p =
     (if pending p \<noteq> []
      then (Inl (CorruptFrameError ''torn tail'' (poffset p)), p\<lparr> pending := [] \<rparr>)
      else (Inr (poffset p), p))"

definition new_parser :: parser where
  "new_parser = \<lparr> pending = [], poffset = 0 \<rparr>"

text \<open>Feeding a stream chunk by chunk, stopping at the first error.\<close>

fun feed_all :: "parser \<Rightarrow> bytes list \<Rightarrow> frame list \<times> js_error option \<times> parser" where
  "feed_all p [] = ([], None, p)"
| "feed_all p (c # cs) =
     (case feed p c of
        (fs, Some e, p') \<Rightarrow> (fs, Some e, p')
      | (fs, None, p') \<Rightarrow> (case feed_all p' cs of (gs, e, p'') \<Rightarrow> (fs @ gs, e, p'')))"

text \<open>A prefix of a frame waits for more.\<close>

lemma feed_loop_read:
  assumes "readFrameAt buf pos = Some (f, n)"
  shows "feed_loop buf pos off = yield_frame f (feed_loop buf (pos + n) (off + n))"
proof -
  note r = readFrameAt_SomeD [OF assms]
  then show ?thesis
    by (subst feed_loop.simps) (auto simp: Let_def size_defs add_ac)
qed

lemma feed_loop_wait:
  assumes "input_fits i" "m < length (input_bytes i)"
  shows "feed_loop (pre @ take m (input_bytes i)) (length pre) off =
    \<lparr> yielded = [], thrown = None, endPos = length pre, endOff = off \<rparr>"
proof (cases "m < 22")
  case True
  with assms(2) show ?thesis by (simp add: feed_loop.simps size_defs)
next
  case False
  let ?t = "take m (input_bytes i)"
  have cat: "input_bytes i = ?t @ drop m (input_bytes i)" by simp
  note r = readFrameAt_SomeD [OF read_input [OF assms(1), of "[]", simplified]]
  have len: "length ?t = m" using assms(2) by simp
  have f: "u16_at ?t 4 = u16_at (input_bytes i) 4" "u32_at ?t 6 = u32_at (input_bytes i) 6"
      "u32_at ?t 10 = u32_at (input_bytes i) 10"
    by (subst (2) cat, rule field_at_append [symmetric], use False len in simp)+
  have mag: "magic_at ?t 0"
    using r(3) False by (simp add: magic_at_def subarray_take)
  have drop: "drop (length pre) (pre @ ?t) = ?t" by simp
  have "magic_at (pre @ ?t) (length pre)"
    using mag by (simp add: magic_at_drop [of _ "length pre"])
  with r(1) f len assms(2) False show ?thesis
    by (subst feed_loop.simps) (simp add: Let_def size_defs field_at_skip)
qed

lemma feed_loop_stream:
  "list_all input_fits is \<Longrightarrow>
     feed_loop (pre @ take m (stream is)) (length pre) off =
     \<lparr> yielded = map input_frame (whole_frames m is), thrown = None,
       endPos = length pre + length (stream (whole_frames m is)),
       endOff = off + length (stream (whole_frames m is)) \<rparr>"
proof (induction "is" arbitrary: pre m off)
  case Nil
  then show ?case by (simp add: feed_loop.simps size_defs)
next
  case (Cons i "is")
  then have i: "input_fits i" and rest: "list_all input_fits is" by auto
  show ?case
  proof (cases "length (input_bytes i) \<le> m")
    case False
    with feed_loop_wait [OF i, of m pre off] show ?thesis by simp
  next
    case True
    let ?n = "length (input_bytes i)"
    have t: "take m (stream (i # is)) = input_bytes i @ take (m - ?n) (stream is)"
      using True by simp
    have "readFrameAt (pre @ input_bytes i @ take (m - ?n) (stream is)) (length pre) =
        Some (input_frame i, ?n)"
      by (rule read_input_at [OF i])
    with Cons.IH [OF rest, of "pre @ input_bytes i" "m - ?n" "off + ?n"] True show ?thesis
      unfolding t by (simp add: feed_loop_read add.assoc)
  qed
qed

text \<open>
  Feeding the next chunk of a stream: with \<open>n\<close> bytes fed, the frames whole in them have been
  yielded, \<open>offset\<close> is their length and \<open>pending\<close> the rest.
\<close>

definition fed :: "frame_input list \<Rightarrow> nat \<Rightarrow> parser" where
  "fed is n =
     (let m = length (stream (whole_frames n is)) in
      \<lparr> pending = subarray (stream is) m n, poffset = m \<rparr>)"

lemma whole_frames_append:
  "whole_frames (length (stream js) + n) (js @ is) = js @ whole_frames n is"
  by (induction js) auto

lemma whole_frames_prefix: "\<exists>ks. is = whole_frames n is @ ks"
  by (induction n "is" rule: whole_frames.induct) auto

lemma feed_concat:
  "(if pending p \<noteq> [] then pending p @ chunk else chunk) = pending p @ chunk"
  by simp

lemma feed_stream:
  assumes fits: "list_all input_fits is" and n: "n + length c \<le> length (stream is)"
    and c: "c = subarray (stream is) n (n + length c)"
  shows "\<exists>fs. feed (fed is n) c = (fs, None, fed is (n + length c)) \<and>
    map input_frame (whole_frames n is) @ fs = map input_frame (whole_frames (n + length c) is)"
proof -
  let ?w = "whole_frames n is" and ?m = "length (stream (whole_frames n is))"
  obtain ks where ks: "is = ?w @ ks" using whole_frames_prefix by blast
  have m: "?m \<le> n" by (rule whole_frames_length)
  let ?l = "n + length c - ?m"
  have st: "stream is = stream ?w @ stream ks" using arg_cong [OF ks, of stream] by simp
  have "subarray (stream is) ?m n @ c = subarray (stream is) ?m (n + length c)"
    using subarray_split [OF m, of "n + length c" "stream is"] c by simp
  also have "\<dots> = take ?l (stream ks)"
    by (subst st) (simp add: subarray_def)
  finally have buf: "subarray (stream is) ?m n @ c = take ?l (stream ks)" .
  have fits': "list_all input_fits ks" using fits by (subst (asm) ks) simp
  have whole: "whole_frames (n + length c) is = ?w @ whole_frames ?l ks"
    using whole_frames_append [of ?w ?l ks] m ks by simp
  let ?v = "length (stream (whole_frames ?l ks))"
  have v: "?v \<le> ?l" by (rule whole_frames_length)
  have r: "feed_loop (take ?l (stream ks)) 0 ?m =
      \<lparr> yielded = map input_frame (whole_frames ?l ks), thrown = None, endPos = ?v, endOff = ?m + ?v \<rparr>"
    using feed_loop_stream [OF fits', of "[]" ?l ?m] by simp
  have len: "length (take ?l (stream ks)) = ?l"
    using n arg_cong [OF st, of length] by simp
  have pend: "(if ?v < length (take ?l (stream ks)) then drop ?v (take ?l (stream ks)) else []) =
      subarray (stream is) (?m + ?v) (n + length c)"
  proof -
    have "subarray (stream is) (?m + ?v) (n + length c) = drop ?v (take ?l (stream ks))"
      by (subst st) (simp add: subarray_def drop_take)
    then show ?thesis using len v by auto
  qed
  have p: "pending (fed is n) @ c = take ?l (stream ks)" "poffset (fed is n) = ?m"
    using buf by (simp_all add: fed_def Let_def)
  have fin: "fed is (n + length c) =
      \<lparr> pending = subarray (stream is) (?m + ?v) (n + length c), poffset = ?m + ?v \<rparr>"
    by (simp add: fed_def whole Let_def)
  have "feed (fed is n) c = (map input_frame (whole_frames ?l ks), None, fed is (n + length c))"
    unfolding feed_def feed_concat unfolding Let_def p r fin feed_result.simps option.case pend
    by (rule refl)
  with whole show ?thesis by simp
qed

lemma feed_all_stream:
  "list_all input_fits is \<Longrightarrow> subarray (stream is) n (n + length (concat cs)) = concat cs \<Longrightarrow>
     n + length (concat cs) \<le> length (stream is) \<Longrightarrow>
     \<exists>fs. feed_all (fed is n) cs = (fs, None, fed is (n + length (concat cs))) \<and>
       map input_frame (whole_frames n is) @ fs =
         map input_frame (whole_frames (n + length (concat cs)) is)"
proof (induction cs arbitrary: n)
  case (Cons c cs)
  let ?k = "n + length c"
  have split: "subarray (stream is) n (n + length (concat (c # cs))) =
      subarray (stream is) n ?k @ subarray (stream is) ?k (?k + length (concat cs))"
    using subarray_split [of n ?k "n + length (concat (c # cs))"] by (simp add: add.assoc)
  have "length (subarray (stream is) n ?k) = length c"
    using Cons.prems(3) by (simp add: length_subarray)
  with split Cons.prems(2) have c: "c = subarray (stream is) n ?k"
      and cs: "subarray (stream is) ?k (?k + length (concat cs)) = concat cs"
    by (metis append_eq_append_conv concat.simps(2))+
  obtain fs where fs: "feed (fed is n) c = (fs, None, fed is ?k)"
      "map input_frame (whole_frames n is) @ fs = map input_frame (whole_frames ?k is)"
    using feed_stream [OF Cons.prems(1) _ c] Cons.prems(3) by auto
  obtain gs where gs: "feed_all (fed is ?k) cs = (gs, None, fed is (?k + length (concat cs)))"
      "map input_frame (whole_frames ?k is) @ gs =
        map input_frame (whole_frames (?k + length (concat cs)) is)"
    using Cons.IH [OF Cons.prems(1) cs] Cons.prems(3) by (auto simp: add.assoc)
  from fs gs show ?case
    by (intro exI [of _ "fs @ gs"]) (simp add: add.assoc flip: append_assoc)
qed simp

section \<open>Properties\<close>

text \<open>An encodable record for the witnesses.\<close>

definition sample_input :: "nat \<Rightarrow> frame_input" where
  "sample_input t = \<lparr> itype = t, ikey = [7], ivalue = Some [2, 3], imeta = None, iexpire = 0 \<rparr>"

lemma sample_input_fits: "t \<le> 255 \<Longrightarrow> input_fits (sample_input t)"
  by (simp add: sample_input_def input_fits_def frame_fits_def size_defs or_empty_def int64_ok_def)

text \<open>C9: recovery of a torn file in strict mode: cut a stream of encoded records at any
  byte, and the parser returns exactly the records that are whole before the cut, reports
  where valid data ends, and marks the rest (and only the rest) as corrupt.\<close>

theorem strict_recovers_whole_prefix:
  assumes "list_all input_fits is"
  shows "parseBuffer (take n (stream is)) Strict =
     (let m = length (stream (whole_frames n is)); l = min n (length (stream is)) in
      \<lparr> frames = map input_frame (whole_frames n is),
        corruptRanges = (if m = l then [] else [(m, l)]), eofOffset = m \<rparr>)"
  using parse_torn_strict [OF assms] by (simp add: Let_def)

theorem strict_recovers_whole_prefix_witness:
  "parseBuffer (take 40 (stream [sample_input 2, sample_input 3])) Strict =
     (let m = length (stream (whole_frames 40 [sample_input 2, sample_input 3]));
          l = min 40 (length (stream [sample_input 2, sample_input 3])) in
      \<lparr> frames = map input_frame (whole_frames 40 [sample_input 2, sample_input 3]),
        corruptRanges = (if m = l then [] else [(m, l)]), eofOffset = m \<rparr>)"
  by (rule strict_recovers_whole_prefix) (simp add: sample_input_fits)

text \<open>C22: in resync mode damage costs only the damaged bytes: if in a stretch between two runs
  of encoded records no position reads as a frame, the parser returns all the records of both
  runs, reports that stretch as the one corrupt range, and reads to the end.\<close>

theorem resync_skips_only_damage:
  assumes "list_all input_fits is" "list_all input_fits (j # js)" "junk \<noteq> []"
    and "\<forall>i < length junk. readFrameAt (junk @ stream (j # js)) i = None"
  shows "parseBuffer (stream is @ junk @ stream (j # js)) Resync =
     \<lparr> frames = map input_frame (is @ j # js),
       corruptRanges = [(length (stream is), length (stream is) + length junk)],
       eofOffset = length (stream is @ junk @ stream (j # js)) \<rparr>"
  using assms by (intro parse_resync_gap) (auto simp: not_reads_at)

theorem resync_skips_only_damage_witness:
  "parseBuffer (stream [sample_input 2] @ [0] @ stream [sample_input 3]) Resync =
     \<lparr> frames = map input_frame ([sample_input 2] @ sample_input 3 # []),
       corruptRanges = [(length (stream [sample_input 2]), length (stream [sample_input 2]) + length [0 :: byte])],
       eofOffset = length (stream [sample_input 2] @ [0] @ stream [sample_input 3]) \<rparr>"
proof (rule resync_skips_only_damage)
  have "\<not> magic_at ([0] @ stream [sample_input 3]) 0"
    by (simp add: magic_at_def subarray_def MAGIC_def)
  then show "\<forall>i < length [0 :: byte]. readFrameAt ([0] @ stream [sample_input 3]) i = None"
    using readFrameAt_no_magic by simp
qed (simp_all add: sample_input_fits)

text \<open>On every buffer, damaged in any way, the frames strict mode returns are a prefix of
  those resync mode returns, the corrupt ranges of either mode are in order, apart, not empty
  and inside the buffer, and a buffer cut where strict mode says valid data ends parses to the
  same frames with nothing corrupt.\<close>

theorem parse_any_buffer:
  "(\<exists>rest. frames (parseBuffer buf Resync) = frames (parseBuffer buf Strict) @ rest) \<and>
   ranges_from 0 (corruptRanges (parseBuffer buf c)) (length buf) \<and>
   parseBuffer (take (eofOffset (parseBuffer buf Strict)) buf) Strict =
     \<lparr> frames = frames (parseBuffer buf Strict), corruptRanges = [],
       eofOffset = eofOffset (parseBuffer buf Strict) \<rparr>"
  using parse_strict_prefix [of buf 0] parse_ranges [of 0 buf c] parse_strict_cut [of 0 buf]
  by (simp add: parseBuffer_def)

text \<open>C17: the file scanner that leaves values on disk (chunked checksum, chunked search for
  the magic) never fails on a file it can read, and finds on every file, in both modes, the
  frames, the corrupt ranges and the end offset of \<open>parseBuffer\<close>; each reference carries the
  type, key, metadata and expiry of its frame and points at its value.\<close>

theorem file_scan_is_parse:
  "\<exists>r. scanFrameRefsFd fd c 0 = Inr r \<and>
     corruptRanges r = corruptRanges (parseBuffer fd c) \<and>
     eofOffset r = eofOffset (parseBuffer fd c) \<and>
     list_all2 (\<lambda>ref fr. rftype ref = ftype fr \<and> rfkey ref = fkey fr \<and> rfmeta ref = fmeta fr \<and>
         rfexpire ref = fexpire fr \<and>
         subarray fd (valueOff ref) (valueOff ref + valLen ref) = fvalue fr)
       (frames r) (frames (parseBuffer fd c))"
proof -
  obtain r where r: "scan_refs_loop fd c (length fd) 0 = Inr r" "same_scan fd r (parse_loop fd c 0)"
    using scan_refs_loop_parse by blast
  have step: "rftype ref = ftype fr \<and> rfkey ref = fkey fr \<and> rfmeta ref = fmeta fr \<and>
      rfexpire ref = fexpire fr \<and> subarray fd (valueOff ref) (valueOff ref + valLen ref) = fvalue fr"
    if f: "readFrameAt fd (frameOff ref) = Some (fr, frameLen ref) \<and>
      ref = ref_of (frameOff ref) (fr, frameLen ref)" for ref fr
  proof -
    from f have ref: "ref_of (frameOff ref) (fr, frameLen ref) = ref" by simp
    note v = ref_of_value [OF conjunct1 [OF f], unfolded ref]
    have "rftype ref = ftype fr \<and> rfkey ref = fkey fr \<and> rfmeta ref = fmeta fr \<and> rfexpire ref = fexpire fr"
      using arg_cong [OF ref, of rftype] arg_cong [OF ref, of rfkey] arg_cong [OF ref, of rfmeta]
        arg_cong [OF ref, of rfexpire] by (simp add: ref_of_def)
    with v show ?thesis by blast
  qed
  from r(2) have "list_all2 (\<lambda>ref fr. readFrameAt fd (frameOff ref) = Some (fr, frameLen ref) \<and>
       ref = ref_of (frameOff ref) (fr, frameLen ref)) (frames r) (frames (parse_loop fd c 0))"
    unfolding same_scan_def by blast
  then have "list_all2 (\<lambda>ref fr. rftype ref = ftype fr \<and> rfkey ref = fkey fr \<and> rfmeta ref = fmeta fr \<and>
         rfexpire ref = fexpire fr \<and>
         subarray fd (valueOff ref) (valueOff ref + valLen ref) = fvalue fr)
       (frames r) (frames (parse_loop fd c 0))"
    by (rule list_all2_mono) (rule step)
  with r show ?thesis
    unfolding scanFrameRefsFd_def parseBuffer_def same_scan_def by blast
qed

text \<open>C23: the incremental parser does not depend on how a stream is cut into chunks: fed any
  chunks that make up the first \<open>n\<close> bytes of a stream of encoded records, it yields the
  records whole in them and throws nothing; \<open>finish\<close> returns \<open>n\<close> when the last record is
  whole and otherwise throws at the offset where the torn record starts.\<close>

theorem parser_chunk_invariant:
  assumes "list_all input_fits is" "concat cs = take n (stream is)" "n \<le> length (stream is)"
  shows "\<exists>p. feed_all new_parser cs = (map input_frame (whole_frames n is), None, p) \<and>
     fst (finish p) =
       (let m = length (stream (whole_frames n is)) in
        if m = n then Inr n else Inl (CorruptFrameError ''torn tail'' m))"
proof -
  have len: "length (concat cs) = n" using assms(2,3) by simp
  have zero: "whole_frames 0 is = []" by (cases "is") simp_all
  have start: "fed is 0 = new_parser" by (simp add: fed_def zero new_parser_def Let_def)
  have "subarray (stream is) 0 (0 + length (concat cs)) = concat cs"
    using assms(2) len by (simp add: subarray_def)
  from feed_all_stream [OF assms(1) this] assms(3) len
  have f: "feed_all new_parser cs = (map input_frame (whole_frames n is), None, fed is n)"
    by (simp add: start zero)
  let ?m = "length (stream (whole_frames n is))"
  have "?m \<le> n" by (rule whole_frames_length)
  moreover have "length (pending (fed is n)) = n - ?m" "poffset (fed is n) = ?m"
    using assms(3) by (simp_all add: fed_def Let_def length_subarray)
  ultimately have "fst (finish (fed is n)) = (if ?m = n then Inr n else Inl (CorruptFrameError ''torn tail'' ?m))"
    by (auto simp: finish_def)
  with f show ?thesis by (simp add: Let_def)
qed

theorem parser_chunk_invariant_witness:
  "\<exists>p. feed_all new_parser [take 5 (stream [sample_input 2]), drop 5 (stream [sample_input 2])] =
       (map input_frame (whole_frames (length (stream [sample_input 2])) [sample_input 2]), None, p) \<and>
     fst (finish p) =
       (let m = length (stream (whole_frames (length (stream [sample_input 2])) [sample_input 2])) in
        if m = length (stream [sample_input 2]) then Inr (length (stream [sample_input 2]))
        else Inl (CorruptFrameError ''torn tail'' m))"
  by (rule parser_chunk_invariant) (simp_all add: sample_input_fits del: stream_simps(2))

text \<open>When a frame is bad, the offset in the error counts the frames consumed in the same
  \<open>feed\<close> call twice: after one good record of \<open>m\<close> bytes at the start of the stream, a bad
  frame right behind it is reported at \<open>2 * m\<close>, not at \<open>m\<close>, where it starts.\<close>

theorem parser_error_offset_doubled:
  assumes "input_fits i" "HEADER_SIZE \<le> length bad" "\<forall>j. \<not> magic_at bad j"
  shows "fst (snd (feed new_parser (input_bytes i @ bad))) =
    Some (CorruptFrameError ''magic not found'' (2 * length (input_bytes i)))"
proof -
  let ?b = "input_bytes i @ bad" and ?m = "length (input_bytes i)"
  have r: "feed_loop ?b 0 0 = yield_frame (input_frame i) (feed_loop ?b ?m ?m)"
    using feed_loop_read [OF read_input [OF assms(1)]] by simp
  have no: "\<not> magic_at ?b (?m + j)" for j
    using assms(3) magic_at_drop_add [of ?m ?b j] by simp
  then have "index_of_magic ?b (?m + 1) = None"
    unfolding index_of_magic_None by (metis add.assoc le_iff_add)
  moreover have "\<not> magic_at ?b ?m" using no [of 0] by simp
  ultimately have "thrown (feed_loop ?b ?m ?m) =
      Some (CorruptFrameError ''magic not found'' (?m + ?m))"
    using assms(2) by (subst feed_loop.simps) simp
  then show ?thesis by (simp add: feed_def new_parser_def r mult_2 Let_def)
qed

theorem parser_error_offset_doubled_witness:
  "fst (snd (feed new_parser (input_bytes (sample_input 2) @ replicate 22 0))) =
    Some (CorruptFrameError ''magic not found'' (2 * length (input_bytes (sample_input 2))))"
proof (rule parser_error_offset_doubled)
  have "\<not> magic_at (replicate n 0) j" for n j
  proof
    assume "magic_at (replicate n 0) j"
    then have s: "subarray (replicate n (0 :: byte)) j (j + 2) = MAGIC" by (simp add: magic_at_def)
    have "set MAGIC \<subseteq> {0}" unfolding s [symmetric] by (auto simp: subarray_def dest!: in_set_takeD in_set_dropD)
    then show False by (simp add: MAGIC_def)
  qed
  then show "\<forall>j. \<not> magic_at (replicate 22 0) j" by blast
qed (simp_all add: sample_input_fits HEADER_SIZE_def)

end
