(* ===== verification/MinHeap.thy ===== *)
theory MinHeap
  imports Prelude
begin

text \<open>
  The binary min-heap of expiry times in \<open>packages/minidb/src/store.ts\<close> (class \<open>MinHeap\<close>):
  an array whose element \<open>i\<close> is not later than its children \<open>2i+1\<close> and \<open>2i+2\<close>. What is
  proved: push and pop keep the heap order and the multiset of entries, and the top is
  an earliest entry.
\<close>

section \<open>The code\<close>

record 'k heap_entry =
  ht :: int
  hk :: 'k
  hseq :: nat

type_synonym 'k min_heap = "'k heap_entry list"

definition swap :: "'a list \<Rightarrow> nat \<Rightarrow> nat \<Rightarrow> 'a list" where
  "swap a p i = a[p := a ! i, i := a ! p]"

fun sift_up :: "'k min_heap \<Rightarrow> nat \<Rightarrow> 'k min_heap" where
  "sift_up a i =
     (if i = 0 then a
      else let p = (i - 1) div 2 in
           if ht (a ! p) \<le> ht (a ! i) then a else sift_up (swap a p i) p)"

declare sift_up.simps [simp del]

definition push :: "'k heap_entry \<Rightarrow> 'k min_heap \<Rightarrow> 'k min_heap" where
  "push item a = sift_up (a @ [item]) (length a)"

definition smallest :: "'k min_heap \<Rightarrow> nat \<Rightarrow> nat" where
  "smallest a i =
     (let l = 2 * i + 1; r = l + 1;
          s = (if l < length a \<and> ht (a ! l) < ht (a ! i) then l else i)
      in if r < length a \<and> ht (a ! r) < ht (a ! s) then r else s)"

lemma smallest_cases:
  obtains "smallest a i = i" | "smallest a i = 2 * i + 1" "2 * i + 1 < length a"
  | "smallest a i = 2 * i + 2" "2 * i + 2 < length a"
proof -
  have "smallest a i = i \<or> smallest a i = 2 * i + 1 \<and> 2 * i + 1 < length a \<or>
      smallest a i = 2 * i + 2 \<and> 2 * i + 2 < length a"
    unfolding smallest_def Let_def by (simp split: if_splits)
  with that show thesis by blast
qed

function sift_down :: "'k min_heap \<Rightarrow> nat \<Rightarrow> 'k min_heap" where
  "sift_down a i =
     (let s = smallest a i in if s = i then a else sift_down (swap a s i) s)"
  by auto
termination
proof (relation "measure (\<lambda>(a, i). length a - i)")
  fix a :: "'k min_heap" and i s
  assume "s = smallest a i" "s \<noteq> i"
  then show "((swap a s i, s), a, i) \<in> measure (\<lambda>(a, i). length a - i)"
    by (cases rule: smallest_cases [of a i]) (auto simp: swap_def)
qed simp

declare sift_down.simps [simp del]

definition pop :: "'k min_heap \<Rightarrow> 'k heap_entry option \<times> 'k min_heap" where
  "pop a =
     (case a of
        [] \<Rightarrow> (None, [])
      | first # _ \<Rightarrow>
          (let last_item = last a; a' = butlast a in
           if a' \<noteq> [] then (Some first, sift_down (a'[0 := last_item]) 0) else (Some first, a')))"

definition peek :: "'k min_heap \<Rightarrow> 'k heap_entry option" where
  "peek a = (if a = [] then None else Some (a ! 0))"

section \<open>The heap order\<close>

definition parent :: "nat \<Rightarrow> nat" where
  "parent i = (i - 1) div 2"

definition is_heap :: "'k min_heap \<Rightarrow> bool" where
  "is_heap a \<longleftrightarrow> (\<forall>i < length a. 0 < i \<longrightarrow> ht (a ! parent i) \<le> ht (a ! i))"

text \<open>The order holds everywhere but above \<open>i\<close>, and around \<open>i\<close> it holds across it.\<close>

definition heap_above :: "'k min_heap \<Rightarrow> nat \<Rightarrow> bool" where
  "heap_above a i \<longleftrightarrow>
     (\<forall>j < length a. 0 < j \<longrightarrow> j \<noteq> i \<longrightarrow> ht (a ! parent j) \<le> ht (a ! j)) \<and>
     (\<forall>j < length a. 0 < j \<longrightarrow> parent j = i \<longrightarrow> 0 < i \<longrightarrow> ht (a ! parent i) \<le> ht (a ! j))"

definition heap_below :: "'k min_heap \<Rightarrow> nat \<Rightarrow> bool" where
  "heap_below a i \<longleftrightarrow>
     (\<forall>j < length a. 0 < j \<longrightarrow> parent j \<noteq> i \<longrightarrow> ht (a ! parent j) \<le> ht (a ! j)) \<and>
     (\<forall>j < length a. 0 < j \<longrightarrow> parent j = i \<longrightarrow> 0 < i \<longrightarrow> ht (a ! parent i) \<le> ht (a ! j))"

lemma parent_less: "0 < i \<Longrightarrow> parent i < i"
  by (simp add: parent_def)

lemma parent_eq_iff: "0 < j \<Longrightarrow> parent j = i \<longleftrightarrow> j = 2 * i + 1 \<or> j = 2 * i + 2"
  by (auto simp: parent_def)

lemma length_swap [simp]: "length (swap a p i) = length a"
  by (simp add: swap_def)

lemma nth_swap:
  "p < length a \<Longrightarrow> i < length a \<Longrightarrow>
     swap a p i ! j = (if j = i then a ! p else if j = p then a ! i else a ! j)"
  by (auto simp: swap_def nth_list_update)

lemma mset_swap_eq [simp]: "p < length a \<Longrightarrow> i < length a \<Longrightarrow> mset (swap a p i) = mset a"
  unfolding swap_def by (rule mset_swap)

lemma sift_up_eq:
  "sift_up a i = (if i = 0 then a else if ht (a ! parent i) \<le> ht (a ! i) then a
     else sift_up (swap a (parent i) i) (parent i))"
  unfolding parent_def by (subst sift_up.simps) (simp add: Let_def)

lemma heap_above_step:
  assumes i: "0 < i" "i < length a" and h: "heap_above a i" and p: "p = parent i"
    and gt: "\<not> ht (a ! p) \<le> ht (a ! i)"
  shows "heap_above (swap a p i) p"
proof -
  let ?b = "swap a p i"
  have pi: "p < i" unfolding p using i(1) by (rule parent_less)
  have n: "?b ! j = (if j = i then a ! p else if j = p then a ! i else a ! j)" for j
    by (rule nth_swap) (use pi i in auto)
  have up: "ht (a ! parent j) \<le> ht (a ! j)" if "j < length a" "0 < j" "j \<noteq> i" for j
    using h that by (simp add: heap_above_def)
  have across: "ht (a ! p) \<le> ht (a ! j)" if "j < length a" "0 < j" "parent j = i" for j
    using h that i p by (simp add: heap_above_def)
  have A: "ht (?b ! parent j) \<le> ht (?b ! j)" if j: "j < length a" "0 < j" "j \<noteq> p" for j
  proof (cases "j = i")
    case True
    then show ?thesis using gt pi by (simp add: n flip: p)
  next
    case False
    then show ?thesis
      using up [OF j(1,2)] across [OF j(1,2)] gt j(3) by (cases "parent j = p") (simp_all add: n)
  qed
  have B: "ht (?b ! parent p) \<le> ht (?b ! j)"
    if j: "j < length a" "0 < j" "parent j = p" "0 < p" for j
  proof -
    have pp: "parent p < p" using j(4) by (rule parent_less)
    have jp: "j \<noteq> p" using parent_less [OF j(2)] j(3) by auto
    have a: "ht (a ! parent p) \<le> ht (a ! p)"
      by (rule up) (use j(4) pi i in auto)
    have "ht (a ! p) \<le> ht (?b ! j)"
      using up [OF j(1,2)] j(3) jp by (cases "j = i") (simp_all add: n)
    with a have "ht (a ! parent p) \<le> ht (?b ! j)" by simp
    moreover have "?b ! parent p = a ! parent p" using pp pi by (simp add: n)
    ultimately show ?thesis by simp
  qed
  from A B show ?thesis by (auto simp: heap_above_def)
qed

lemma sift_up_heap:
  "i < length a \<Longrightarrow> heap_above a i \<Longrightarrow> is_heap (sift_up a i) \<and> mset (sift_up a i) = mset a"
proof (induction i arbitrary: a rule: less_induct)
  case (less i)
  show ?case
  proof (cases "i = 0 \<or> ht (a ! parent i) \<le> ht (a ! i)")
    case True
    then have "sift_up a i = a" by (subst sift_up_eq) auto
    moreover have "is_heap a" using True less.prems by (auto simp: heap_above_def is_heap_def)
    ultimately show ?thesis by simp
  next
    case False
    then have i: "0 < i" and gt: "\<not> ht (a ! parent i) \<le> ht (a ! i)" by auto
    have p: "parent i < i" using i by (rule parent_less)
    have "heap_above (swap a (parent i) i) (parent i)"
      by (rule heap_above_step [OF i less.prems refl gt])
    with less.IH [OF p, of "swap a (parent i) i"] less.prems(1) p
    have "is_heap (sift_up (swap a (parent i) i) (parent i)) \<and>
      mset (sift_up (swap a (parent i) i) (parent i)) = mset a" by simp
    moreover have "sift_up a i = sift_up (swap a (parent i) i) (parent i)"
      using False by (subst sift_up_eq) simp
    ultimately show ?thesis by simp
  qed
qed

lemma push_heap:
  assumes "is_heap a"
  shows "is_heap (push x a) \<and> mset (push x a) = add_mset x (mset a)"
proof -
  have "ht ((a @ [x]) ! parent j) \<le> ht ((a @ [x]) ! j)"
    if "j < length a" "0 < j" for j
    using that assms parent_less [of j] by (auto simp: is_heap_def nth_append)
  moreover have False if "j < length (a @ [x])" "0 < j" "parent j = length a" for j
    using that parent_less [of j] by simp
  ultimately have "heap_above (a @ [x]) (length a)"
    by (auto simp: heap_above_def less_Suc_eq)
  from sift_up_heap [OF _ this] show ?thesis by (simp add: push_def)
qed

lemma smallest_min:
  "ht (a ! smallest a i) \<le> ht (a ! i)"
  "2 * i + 1 < length a \<Longrightarrow> ht (a ! smallest a i) \<le> ht (a ! (2 * i + 1))"
  "2 * i + 2 < length a \<Longrightarrow> ht (a ! smallest a i) \<le> ht (a ! (2 * i + 2))"
  unfolding smallest_def Let_def by (auto simp: add_2_eq_Suc' split: if_splits)

lemma length_sift_down [simp]: "length (sift_down a i) = length a"
  by (induction a i rule: sift_down.induct) (subst sift_down.simps, simp add: Let_def)

lemma length_pop: "a \<noteq> [] \<Longrightarrow> length (snd (pop a)) < length a"
  by (cases a) (simp_all add: pop_def Let_def)

lemma smallest_spec:
  assumes "i < length a"
  shows "smallest a i < length a" "ht (a ! smallest a i) \<le> ht (a ! i)"
    "\<And>j. j < length a \<Longrightarrow> 0 < j \<Longrightarrow> parent j = i \<Longrightarrow> ht (a ! smallest a i) \<le> ht (a ! j)"
    "smallest a i = i \<or> parent (smallest a i) = i \<and> 0 < smallest a i"
proof -
  show "smallest a i < length a" by (cases rule: smallest_cases [of a i]) (use assms in auto)
  show "ht (a ! smallest a i) \<le> ht (a ! i)" by (rule smallest_min)
  show "ht (a ! smallest a i) \<le> ht (a ! j)" if "j < length a" "0 < j" "parent j = i" for j
    using that(1,3) smallest_min(2,3) [of i a] unfolding parent_eq_iff [OF that(2)] by blast
  show "smallest a i = i \<or> parent (smallest a i) = i \<and> 0 < smallest a i"
    by (cases rule: smallest_cases [of a i]) (simp_all add: parent_def)
qed

lemma sift_down_heap:
  "i < length a \<Longrightarrow> heap_below a i \<Longrightarrow> is_heap (sift_down a i) \<and> mset (sift_down a i) = mset a"
proof (induction a i rule: sift_down.induct)
  case (1 a i)
  let ?s = "smallest a i"
  note s = smallest_spec [OF "1.prems"(1)]
  have ok: "ht (a ! parent j) \<le> ht (a ! j)" if "j < length a" "0 < j" "parent j \<noteq> i" for j
    using "1.prems"(2) that by (auto simp: heap_below_def)
  show ?case
  proof (cases "?s = i")
    case True
    have "ht (a ! parent j) \<le> ht (a ! j)" if "j < length a" "0 < j" for j
      using ok [OF that] s(3) [OF that] True by (cases "parent j = i") auto
    with True show ?thesis by (auto simp: sift_down.simps [of a] is_heap_def)
  next
    case False
    with s(4) have ps: "parent ?s = i" "0 < ?s" by auto
    let ?b = "swap a ?s i"
    have n: "?b ! j = (if j = i then a ! ?s else if j = ?s then a ! i else a ! j)" for j
      using s(1) "1.prems"(1) by (simp add: nth_swap)
    have ne: "parent j \<noteq> j" if "0 < j" for j using parent_less [OF that] by simp
    have A: "ht (?b ! parent j) \<le> ht (?b ! j)" if j: "j < length a" "0 < j" "parent j \<noteq> ?s" for j
    proof -
      consider "j = i" | "j = ?s" | "j \<noteq> i" "j \<noteq> ?s" "parent j = i" | "j \<noteq> i" "j \<noteq> ?s" "parent j \<noteq> i"
        by blast
      then show ?thesis
      proof cases
        case 1
        have "ht (a ! parent i) \<le> ht (a ! ?s)"
          using "1.prems"(2) s(1) ps j 1 by (auto simp: heap_below_def)
        then show ?thesis using 1 j ne [of i] by (simp add: n)
      next
        case 2
        then show ?thesis using ps s(2) False by (simp add: n)
      next
        case 3
        then show ?thesis using s(3) [OF j(1,2)] j(3) by (simp add: n)
      next
        case 4
        then show ?thesis using ok [OF j(1,2)] j(3) by (simp add: n)
      qed
    qed
    have B: "ht (?b ! parent ?s) \<le> ht (?b ! j)" if j: "j < length a" "0 < j" "parent j = ?s" for j
    proof -
      have "j \<noteq> i" "j \<noteq> ?s"
        using parent_less [OF j(2)] parent_less [OF ps(2)] ps j(3) by auto
      then show ?thesis using ok [OF j(1,2)] ps j(3) False by (simp add: n)
    qed
    from A B have "heap_below ?b ?s" by (auto simp: heap_below_def)
    with "1.IH" [OF refl False] s(1) have
      "is_heap (sift_down ?b ?s) \<and> mset (sift_down ?b ?s) = mset ?b" by simp
    moreover have "sift_down a i = sift_down ?b ?s"
      using False by (simp add: sift_down.simps [of a i] Let_def)
    ultimately show ?thesis using s(1) "1.prems"(1) by simp
  qed
qed

lemma pop_empty [simp]: "pop [] = (None, [])"
  by (simp add: pop_def)

lemma pop_heap:
  assumes "is_heap a" "a \<noteq> []"
  shows "\<exists>a'. pop a = (Some (a ! 0), a') \<and> is_heap a' \<and> mset a = add_mset (a ! 0) (mset a')"
proof (cases "butlast a = []")
  case True
  with assms(2) obtain x where "a = [x]" by (cases a; cases "tl a") auto
  then show ?thesis by (auto simp: pop_def is_heap_def)
next
  case False
  obtain first rest where a: "a = first # rest" using assms(2) by (cases a) auto
  with False have r: "rest \<noteq> []" by auto
  let ?b = "(butlast a)[0 := last a]"
  have b: "?b = last rest # butlast rest" using r by (simp add: a)
  have nth: "?b ! j = a ! j" if "0 < j" "j < length ?b" for j
    using that r by (auto simp: a nth_butlast nth_Cons split: nat.split)
  have "ht (?b ! parent j) \<le> ht (?b ! j)" if j: "j < length ?b" "0 < j" "parent j \<noteq> 0" for j
    using assms(1) nth [of j] nth [of "parent j"] parent_less [OF j(2)] j
    by (auto simp: is_heap_def)
  then have "heap_below ?b 0" by (auto simp: heap_below_def)
  moreover have "0 < length ?b" using False by (cases "butlast a") simp_all
  ultimately have h: "is_heap (sift_down ?b 0) \<and> mset (sift_down ?b 0) = mset ?b"
    by (intro sift_down_heap)
  have "mset ?b = mset rest"
    unfolding b by (metis append_butlast_last_id mset.simps(2) mset_append
        add_mset_add_single mset_single_iff_right r union_commute)
  with h show ?thesis using False r by (auto simp: pop_def Let_def a)
qed

lemma heap_top_least:
  assumes "is_heap a" "i < length a"
  shows "ht (a ! 0) \<le> ht (a ! i)"
  using assms(2)
proof (induction i rule: less_induct)
  case (less i)
  show ?case
  proof (cases "i = 0")
    case False
    then have p: "parent i < i" by (intro parent_less) simp
    with less have "ht (a ! 0) \<le> ht (a ! parent i)" by simp
    also have "\<dots> \<le> ht (a ! i)" using assms(1) less.prems False by (simp add: is_heap_def)
    finally show ?thesis .
  qed simp
qed

lemma peek_least: "is_heap a \<Longrightarrow> peek a = Some e \<Longrightarrow> e \<in> set a \<and> (\<forall>x \<in> set a. ht e \<le> ht x)"
  using heap_top_least by (auto simp: peek_def in_set_conv_nth split: if_splits)

lemma peek_None [simp]: "peek a = None \<longleftrightarrow> a = []"
  by (simp add: peek_def)

lemma is_heap_Nil [simp]: "is_heap []"
  by (simp add: is_heap_def)

lemma pop_peek: "is_heap a \<Longrightarrow> peek a = Some e \<Longrightarrow>
    \<exists>a'. pop a = (Some e, a') \<and> is_heap a' \<and> mset a = add_mset e (mset a')"
  using pop_heap [of a] by (auto simp: peek_def split: if_splits)

lemma length_push [simp]: "is_heap a \<Longrightarrow> length (push x a) = Suc (length a)"
  using push_heap [of a x] by (metis size_add_mset size_mset)

lemma set_push [simp]: "is_heap a \<Longrightarrow> set (push x a) = insert x (set a)"
  using push_heap [of a x] by (metis set_mset_add_mset_insert set_mset_mset)

end
