(* ===== verification/Store.thy ===== *)
theory Store
  imports OrderedIndex MinHeap
begin

text \<open>
  The in-memory primary index of \<open>packages/minidb/src/store.ts\<close>: a Map from canonical keys
  to records, the ordered key index, the heap of expiry times, and the byte and expiry
  counters. Values are bytes in memory or locations on disk, which an injected reader
  resolves. The current time is an argument of every operation that reads the clock, and the
  \<open>onExpire\<close> notifications an operation sends are part of its result.
\<close>

section \<open>Records and state\<close>

datatype loc_file = Snapshot | Wal

record value_loc =
  lfile :: loc_file
  loff :: nat
  llen :: nat

datatype value_ref = Memory bytes | Disk value_loc

text \<open>The dt columns of a record: names and finite numbers.\<close>

type_synonym dt = "(jstr \<times> rat) list"

record store_rec =
  sref :: value_ref
  sexpire :: int
  sseq :: nat
  sdt :: "dt option"

type_synonym notice = "kstr \<times> store_rec"

record store =
  smap :: "(kstr, store_rec) jmap"
  order :: "(kstr \<times> kstr) list"
  heap :: "kstr min_heap"
  seqno :: nat
  sbytes :: int
  expiring :: int
  maxPerTick :: nat
  expireTimeBudgetMs :: int
  expireAggressive :: bool

record store_entry =
  ekey :: bytes
  evalue :: bytes
  eexpire :: int
  edt :: "dt option"

definition new_store :: "nat \<Rightarrow> int \<Rightarrow> store" where
  "new_store perTick budget =
     \<lparr> smap = [], order = [], heap = [], seqno = 0, sbytes = 0, expiring = 0,
       maxPerTick = perTick, expireTimeBudgetMs = budget, expireAggressive = False \<rparr>"

definition DISK_REF_BYTES :: nat where
  "DISK_REF_BYTES = 64"

text \<open>\<open>!r.expireAt || r.expireAt > now\<close>.\<close>

definition is_live :: "int \<Rightarrow> store_rec \<Rightarrow> bool" where
  "is_live now r \<longleftrightarrow> sexpire r = 0 \<or> sexpire r > now"

definition store_size :: "int \<Rightarrow> store \<Rightarrow> nat" where
  "store_size now st =
     (if expiring st = 0 then length (smap st)
      else length (filter (\<lambda>(k, r). is_live now r) (smap st)))"

section \<open>Bytes\<close>

text \<open>\<open>jb\<close> is the length of the JSON text of \<open>{ dt }\<close> in UTF-8.\<close>

definition metaBytes :: "(dt \<Rightarrow> nat) \<Rightarrow> dt option \<Rightarrow> nat" where
  "metaBytes jb d = (case d of None \<Rightarrow> 0 | Some x \<Rightarrow> jb x)"

definition refBytes :: "value_ref \<Rightarrow> nat" where
  "refBytes ref = (case ref of Memory v \<Rightarrow> length v | Disk loc \<Rightarrow> DISK_REF_BYTES)"

definition rec_bytes :: "(dt \<Rightarrow> nat) \<Rightarrow> kstr \<Rightarrow> store_rec \<Rightarrow> int" where
  "rec_bytes jb k r = int (length k + refBytes (sref r) + metaBytes jb (sdt r))"

definition recordBytes :: "(dt \<Rightarrow> nat) \<Rightarrow> kstr \<Rightarrow> store \<Rightarrow> int" where
  "recordBytes jb k st = (case jget (smap st) k of None \<Rightarrow> 0 | Some r \<Rightarrow> rec_bytes jb k r)"

definition estimateSetBytes :: "(dt \<Rightarrow> nat) \<Rightarrow> kstr \<Rightarrow> bytes \<Rightarrow> dt option \<Rightarrow> bool \<Rightarrow> int" where
  "estimateSetBytes jb k value d countValue =
     int (length k + (if countValue then length value else DISK_REF_BYTES) + metaBytes jb d)"

section \<open>Removing and expiring\<close>

definition remove :: "(dt \<Rightarrow> nat) \<Rightarrow> kstr \<Rightarrow> store \<Rightarrow> bool \<times> store" where
  "remove jb k st =
     (case jget (smap st) k of
        None \<Rightarrow> (False, st)
      | Some r \<Rightarrow>
          (True, st\<lparr> smap := jdel k (smap st),
                     sbytes := sbytes st - rec_bytes jb k r,
                     expiring := (if sexpire r \<noteq> 0 then expiring st - 1 else expiring st),
                     order := oi_delete (k, k) (order st) \<rparr>))"

definition expireKey :: "(dt \<Rightarrow> nat) \<Rightarrow> kstr \<Rightarrow> store_rec \<Rightarrow> store \<Rightarrow> store \<times> notice list" where
  "expireKey jb k r st =
     (case remove jb k st of (ok, st') \<Rightarrow> (st', if ok then [(k, r)] else []))"

definition store_del :: "(dt \<Rightarrow> nat) \<Rightarrow> kstr \<Rightarrow> store \<Rightarrow> bool \<times> store" where
  "store_del jb k st = remove jb k st"

section \<open>Writing\<close>

definition rebuildHeap :: "store \<Rightarrow> store" where
  "rebuildHeap st =
     st\<lparr> heap := fold (\<lambda>(k, r) h.
           if sexpire r \<noteq> 0 then push \<lparr> ht = sexpire r, hk = k, hseq = sseq r \<rparr> h else h)
         (smap st) [] \<rparr>"

definition setRef ::
  "(dt \<Rightarrow> nat) \<Rightarrow> kstr \<Rightarrow> value_ref \<Rightarrow> int \<Rightarrow> dt option \<Rightarrow> store \<Rightarrow> store" where
  "setRef jb k ref expireAt d st =
     (let prev = jget (smap st) k;
          ex1 = (case prev of Some r \<Rightarrow> if sexpire r \<noteq> 0 then expiring st - 1 else expiring st
                 | None \<Rightarrow> expiring st);
          by1 = sbytes st - recordBytes jb k st;
          seq = seqno st + 1;
          r = \<lparr> sref = ref, sexpire = expireAt, sseq = seq, sdt = d \<rparr>;
          st1 = st\<lparr> smap := jset k r (smap st), seqno := seq,
                    sbytes := by1 + rec_bytes jb k r,
                    expiring := ex1,
                    order := (if prev = None then oi_insert (k, k) (order st) else order st) \<rparr>
      in if expireAt \<noteq> 0 then
           let st2 = st1\<lparr> expiring := ex1 + 1,
                          heap := push \<lparr> ht = expireAt, hk = k, hseq = seq \<rparr> (heap st1) \<rparr>
           in if length (heap st2) > length (smap st2) * 2 + 64 then rebuildHeap st2 else st2
         else st1)"

definition store_set ::
  "(dt \<Rightarrow> nat) \<Rightarrow> kstr \<Rightarrow> bytes \<Rightarrow> int \<Rightarrow> dt option \<Rightarrow> store \<Rightarrow> store" where
  "store_set jb k value expireAt d st = setRef jb k (Memory value) expireAt d st"

section \<open>Reading\<close>

type_synonym value_reader = "value_loc \<Rightarrow> js_error + bytes"

definition materialize :: "value_reader option \<Rightarrow> value_ref \<Rightarrow> js_error + bytes" where
  "materialize rd ref =
     (case ref of
        Memory v \<Rightarrow> Inr v
      | Disk loc \<Rightarrow>
          (case rd of
             None \<Rightarrow> Inl (Error ''Store cannot read disk-backed value without a ValueReader'')
           | Some f \<Rightarrow> f loc))"

definition getRecord ::
  "(dt \<Rightarrow> nat) \<Rightarrow> int \<Rightarrow> kstr \<Rightarrow> store \<Rightarrow> store_rec option \<times> store \<times> notice list" where
  "getRecord jb now k st =
     (case jget (smap st) k of
        None \<Rightarrow> (None, st, [])
      | Some r \<Rightarrow>
          if sexpire r \<noteq> 0 \<and> sexpire r \<le> now then (None, expireKey jb k r st)
          else (Some r, st, []))"

definition store_get ::
  "(dt \<Rightarrow> nat) \<Rightarrow> value_reader option \<Rightarrow> int \<Rightarrow> kstr \<Rightarrow> store \<Rightarrow>
     (js_error + bytes option) \<times> store \<times> notice list" where
  "store_get jb rd now k st =
     (case getRecord jb now k st of
        (None, st', ns) \<Rightarrow> (Inr None, st', ns)
      | (Some r, st', ns) \<Rightarrow> (map_result Some (materialize rd (sref r)), st', ns))"

definition store_has :: "(dt \<Rightarrow> nat) \<Rightarrow> int \<Rightarrow> kstr \<Rightarrow> store \<Rightarrow> bool \<times> store \<times> notice list" where
  "store_has jb now k st =
     (case getRecord jb now k st of (r, st', ns) \<Rightarrow> (r \<noteq> None, st', ns))"

definition entry_of :: "value_reader option \<Rightarrow> kstr \<Rightarrow> store_rec \<Rightarrow> js_error + store_entry" where
  "entry_of rd k r =
     map_result (\<lambda>v. \<lparr> ekey = fromKStr k, evalue = v, eexpire = sexpire r, edt = sdt r \<rparr>)
       (materialize rd (sref r))"

definition entries :: "value_reader option \<Rightarrow> int \<Rightarrow> store \<Rightarrow> js_error + store_entry list" where
  "entries rd now st =
     collect (map (\<lambda>(k, r). entry_of rd k r) (filter (\<lambda>(k, r). is_live now r) (smap st)))"

fun scan_nodes ::
  "(dt \<Rightarrow> nat) \<Rightarrow> value_reader option \<Rightarrow> int \<Rightarrow> kstr list \<Rightarrow> store \<Rightarrow>
     (js_error + store_entry list) \<times> store \<times> notice list" where
  "scan_nodes jb rd now [] st = (Inr [], st, [])"
| "scan_nodes jb rd now (k # ks) st =
     (case getRecord jb now k st of
        (None, st', ns) \<Rightarrow>
          (case scan_nodes jb rd now ks st' of (es, st'', ms) \<Rightarrow> (es, st'', ns @ ms))
      | (Some r, st', ns) \<Rightarrow>
          (case entry_of rd k r of
             Inl e \<Rightarrow> (Inl e, st', ns)
           | Inr x \<Rightarrow>
               (case scan_nodes jb rd now ks st' of
                  (es, st'', ms) \<Rightarrow> (map_result (\<lambda>xs. x # xs) es, st'', ns @ ms))))"

definition store_scan ::
  "(dt \<Rightarrow> nat) \<Rightarrow> value_reader option \<Rightarrow> int \<Rightarrow> kstr range_options \<Rightarrow> store \<Rightarrow>
     (js_error + store_entry list) \<times> store \<times> notice list" where
  "store_scan jb rd now opts st =
     scan_nodes jb rd now (map fst (oi_range opts (order st))) st"

definition prefix_options :: "kstr \<Rightarrow> nat option \<Rightarrow> kstr range_options" where
  "prefix_options p limit =
     no_range\<lparr> gte := Some p, lt := Some (p @ [65535]), rcount := limit \<rparr>"

definition store_prefix ::
  "(dt \<Rightarrow> nat) \<Rightarrow> value_reader option \<Rightarrow> int \<Rightarrow> kstr \<Rightarrow> nat option \<Rightarrow> store \<Rightarrow>
     (js_error + store_entry list) \<times> store \<times> notice list" where
  "store_prefix jb rd now p limit st = store_scan jb rd now (prefix_options p limit) st"

fun raw_nodes :: "(dt \<Rightarrow> nat) \<Rightarrow> int \<Rightarrow> kstr list \<Rightarrow> store \<Rightarrow> kstr list \<times> store \<times> notice list" where
  "raw_nodes jb now [] st = ([], st, [])"
| "raw_nodes jb now (k # ks) st =
     (case getRecord jb now k st of
        (r, st', ns) \<Rightarrow>
          (case raw_nodes jb now ks st' of
             (out, st'', ms) \<Rightarrow> (if r = None then out else k # out, st'', ns @ ms)))"

definition rawKeys ::
  "(dt \<Rightarrow> nat) \<Rightarrow> int \<Rightarrow> kstr range_options \<Rightarrow> store \<Rightarrow> kstr list \<times> store \<times> notice list" where
  "rawKeys jb now opts st = raw_nodes jb now (map fst (oi_range opts (order st))) st"

definition remapLocs ::
  "(kstr \<Rightarrow> value_loc \<Rightarrow> store_rec \<Rightarrow> value_loc option) \<Rightarrow> store \<Rightarrow> store" where
  "remapLocs remap st =
     st\<lparr> smap := map (\<lambda>(k, r).
           case sref r of
             Memory v \<Rightarrow> (k, r)
           | Disk loc \<Rightarrow>
               (case remap k loc r of
                  None \<Rightarrow> (k, r)
                | Some loc' \<Rightarrow> (k, r\<lparr> sref := Disk loc' \<rparr>)))
         (smap st) \<rparr>"

section \<open>Active expiration\<close>

lemma expireKey_heap [simp]: "expireKey jb k r st = (st', ns) \<Longrightarrow> heap st' = heap st"
  by (auto simp: expireKey_def remove_def split: option.splits)

text \<open>
  \<open>clock n\<close> is what \<open>Date.now()\<close> returns when the loop asks for it in turn \<open>n\<close>.
\<close>

function active_loop ::
  "(dt \<Rightarrow> nat) \<Rightarrow> int \<Rightarrow> int \<Rightarrow> (nat \<Rightarrow> int) \<Rightarrow> nat \<Rightarrow> nat \<Rightarrow> store \<Rightarrow> nat \<times> store \<times> notice list" where
  "active_loop jb now deadline clock n reaped st =
     (if heap st = [] \<or> ht (heap st ! 0) > now then (reaped, st, [])
      else if n \<ge> maxPerTick st \<and> n mod 16 = 0 \<and> clock n \<ge> deadline then (reaped, st, [])
      else let e = heap st ! 0; st1 = st\<lparr> heap := snd (pop (heap st)) \<rparr> in
        case jget (smap st1) (hk e) of
          None \<Rightarrow> active_loop jb now deadline clock (n + 1) reaped st1
        | Some r \<Rightarrow>
            if sseq r = hseq e \<and> sexpire r \<noteq> 0 \<and> sexpire r \<le> now then
              (case expireKey jb (hk e) r st1 of
                 (st2, ns) \<Rightarrow>
                   (case active_loop jb now deadline clock (n + 1) (reaped + 1) st2 of
                      (k, st3, ms) \<Rightarrow> (k, st3, ns @ ms)))
            else active_loop jb now deadline clock (n + 1) reaped st1)"
  by auto
termination
  by (relation "measure (\<lambda>(jb, now, deadline, clock, n, reaped, st). length (heap st))")
     (auto simp: length_pop dest!: sym [of "(_, _)"])

declare active_loop.simps [simp del]

definition activeExpire ::
  "(dt \<Rightarrow> nat) \<Rightarrow> int \<Rightarrow> (nat \<Rightarrow> int) \<Rightarrow> store \<Rightarrow> store \<times> notice list" where
  "activeExpire jb now clock st =
     (let budget = (if expireAggressive st then max (expireTimeBudgetMs st) 10
                    else expireTimeBudgetMs st)
      in case active_loop jb now (now + budget) clock 0 0 st of
           (reaped, st', ns) \<Rightarrow> (st'\<lparr> expireAggressive := (reaped \<ge> maxPerTick st') \<rparr>, ns))"

fun reap_loop ::
  "(dt \<Rightarrow> nat) \<Rightarrow> int \<Rightarrow> notice list \<Rightarrow> nat \<Rightarrow> store \<Rightarrow> nat \<times> store \<times> notice list" where
  "reap_loop jb now [] n st = (n, st, [])"
| "reap_loop jb now ((k, r) # rs) n st =
     (if sexpire r \<noteq> 0 \<and> sexpire r \<le> now then
        (case expireKey jb k r st of
           (st', ns) \<Rightarrow>
             (case reap_loop jb now rs (n + 1) st' of (m, st'', ms) \<Rightarrow> (m, st'', ns @ ms)))
      else reap_loop jb now rs n st)"

definition reapExpired :: "(dt \<Rightarrow> nat) \<Rightarrow> int \<Rightarrow> store \<Rightarrow> nat \<times> store \<times> notice list" where
  "reapExpired jb now st = reap_loop jb now (smap st) 0 st"

section \<open>The invariant\<close>

definition ttl_entry :: "kstr \<Rightarrow> store_rec \<Rightarrow> kstr heap_entry" where
  "ttl_entry k r = \<lparr> ht = sexpire r, hk = k, hseq = sseq r \<rparr>"

definition has_ttl :: "kstr \<Rightarrow> store_rec \<Rightarrow> int" where
  "has_ttl k r = (if sexpire r \<noteq> 0 then 1 else 0)"

text \<open>
  The ordered index holds the keys of the Map, the counters count, and the heap has an
  entry for every record with an expiry (it may have stale ones).
\<close>

definition heap_covers :: "(kstr, store_rec) jmap \<Rightarrow> kstr min_heap \<Rightarrow> bool" where
  "heap_covers m h \<longleftrightarrow> (\<forall>(k, r) \<in> set m. sexpire r \<noteq> 0 \<longrightarrow> ttl_entry k r \<in> set h)"

definition store_ok :: "(dt \<Rightarrow> nat) \<Rightarrow> store \<Rightarrow> bool" where
  "store_ok jb st \<longleftrightarrow>
     jmap_ok (smap st) \<and>
     oi_strict (order st) \<and> set (order st) = (\<lambda>k. (k, k)) ` fst ` set (smap st) \<and>
     sbytes st = jsum (rec_bytes jb) (smap st) \<and>
     expiring st = jsum has_ttl (smap st) \<and>
     is_heap (heap st) \<and> heap_covers (smap st) (heap st)"

lemma store_ok_new [simp]: "store_ok jb (new_store n b)"
  by (simp add: store_ok_def new_store_def heap_covers_def)

text \<open>What a reader can see at time \<open>now\<close>.\<close>

definition live :: "int \<Rightarrow> store \<Rightarrow> kstr \<Rightarrow> store_rec option" where
  "live now st k = (case jget (smap st) k of
     None \<Rightarrow> None | Some r \<Rightarrow> if is_live now r then Some r else None)"

lemma heap_coversD:
  "heap_covers m h \<Longrightarrow> jmap_ok m \<Longrightarrow> jget m k = Some r \<Longrightarrow> sexpire r \<noteq> 0 \<Longrightarrow> ttl_entry k r \<in> set h"
  by (auto simp: heap_covers_def jget_mem)

lemma heap_coversI:
  "(\<And>k r. jget m k = Some r \<Longrightarrow> sexpire r \<noteq> 0 \<Longrightarrow> ttl_entry k r \<in> set h) \<Longrightarrow> jmap_ok m \<Longrightarrow>
     heap_covers m h"
  by (auto simp: heap_covers_def jget_mem)

lemma pair_image_notin: "k \<notin> A \<Longrightarrow> (k, k) \<notin> (\<lambda>k. (k, k)) ` A"
  by auto

lemma remove_ok:
  assumes "store_ok jb st"
  shows "store_ok jb (snd (remove jb k st))"
proof (cases "jget (smap st) k")
  case None
  then show ?thesis using assms by (simp add: remove_def)
next
  case (Some r)
  note ok = assms [unfolded store_ok_def]
  let ?m = "jdel k (smap st)"
  have "set (oi_delete (k, k) (order st)) = (\<lambda>k. (k, k)) ` fst ` set ?m"
    using ok by (auto simp: set_oi_delete image_iff)
  moreover have "jsum (rec_bytes jb) ?m = sbytes st - rec_bytes jb k r"
      "jsum has_ttl ?m = (if sexpire r \<noteq> 0 then expiring st - 1 else expiring st)"
    using ok Some by (auto simp: jsum_del has_ttl_def)
  moreover have "heap_covers ?m (heap st)"
    by (rule heap_coversI) (use ok in \<open>auto dest: heap_coversD split: if_splits\<close>)
  ultimately show ?thesis
    using ok Some by (simp add: store_ok_def remove_def oi_delete_strict)
qed

lemma rebuild_fold:
  "is_heap h \<Longrightarrow>
     is_heap (fold (\<lambda>(k, r) h. if sexpire r \<noteq> 0 then push \<lparr> ht = sexpire r, hk = k, hseq = sseq r \<rparr> h else h) m h) \<and>
     set (fold (\<lambda>(k, r) h. if sexpire r \<noteq> 0 then push \<lparr> ht = sexpire r, hk = k, hseq = sseq r \<rparr> h else h) m h) =
       set h \<union> {ttl_entry k r |k r. (k, r) \<in> set m \<and> sexpire r \<noteq> 0} \<and>
     length (fold (\<lambda>(k, r) h. if sexpire r \<noteq> 0 then push \<lparr> ht = sexpire r, hk = k, hseq = sseq r \<rparr> h else h) m h) =
       length h + length (filter (\<lambda>(k, r). sexpire r \<noteq> 0) m)"
proof (induction m arbitrary: h)
  case (Cons p m)
  obtain k r where p: "p = (k, r)" by (cases p)
  show ?case
  proof (cases "sexpire r = 0")
    case True
    with Cons.IH [OF Cons.prems] show ?thesis by (auto simp: p)
  next
    case False
    let ?x = "\<lparr> ht = sexpire r, hk = k, hseq = sseq r \<rparr>"
    have "is_heap (push ?x h)" using push_heap [OF Cons.prems] by simp
    from Cons.IH [OF this] Cons.prems False show ?thesis by (auto simp: p ttl_entry_def)
  qed
qed simp

lemma rebuildHeap_ok:
  shows "is_heap (heap (rebuildHeap st))" "heap_covers (smap st) (heap (rebuildHeap st))"
    "length (heap (rebuildHeap st)) \<le> length (smap st)" "smap (rebuildHeap st) = smap st"
  using rebuild_fold [of "[]" "smap st"] by (auto simp: rebuildHeap_def heap_covers_def)

lemma rebuildHeap_store_ok:
  assumes "store_ok jb st"
  shows "store_ok jb (rebuildHeap st)"
proof -
  have "smap (rebuildHeap st) = smap st" "order (rebuildHeap st) = order st"
    "sbytes (rebuildHeap st) = sbytes st" "expiring (rebuildHeap st) = expiring st"
    by (simp_all add: rebuildHeap_def)
  then show ?thesis
    using assms rebuildHeap_ok(1,2) [of st] unfolding store_ok_def by simp
qed

text \<open>The state after the Map, the counters and the ordered index are updated.\<close>

lemma setRef_eq:
  fixes jb k ref e d st
  defines "r \<equiv> \<lparr> sref = ref, sexpire = e, sseq = seqno st + 1, sdt = d \<rparr>"
  defines "h \<equiv> (if e \<noteq> 0 then push (ttl_entry k r) (heap st) else heap st)"
  defines "st2 \<equiv> st\<lparr> smap := jset k r (smap st), seqno := seqno st + 1,
      sbytes := sbytes st - recordBytes jb k st + rec_bytes jb k r,
      order := (if jget (smap st) k = None then oi_insert (k, k) (order st) else order st),
      expiring := expiring st - (case jget (smap st) k of None \<Rightarrow> 0 | Some u \<Rightarrow> has_ttl k u) + has_ttl k r,
      heap := h \<rparr>"
  shows "setRef jb k ref e d st =
    (if e \<noteq> 0 \<and> length h > length (smap st2) * 2 + 64 then rebuildHeap st2 else st2)"
  by (cases "e = 0"; cases "jget (smap st) k")
     (simp_all add: setRef_def Let_def r_def h_def st2_def has_ttl_def ttl_entry_def)

lemma setRef_ok:
  assumes "store_ok jb st"
  shows "store_ok jb (setRef jb k ref e d st)"
proof -
  note ok = assms [unfolded store_ok_def]
  define r where "r = \<lparr> sref = ref, sexpire = e, sseq = seqno st + 1, sdt = d \<rparr>"
  define h where "h = (if e \<noteq> 0 then push (ttl_entry k r) (heap st) else heap st)"
  let ?m = "jset k r (smap st)"
  let ?o = "if jget (smap st) k = None then oi_insert (k, k) (order st) else order st"
  have m: "jmap_ok ?m" using ok by simp
  have o1: "oi_strict ?o"
    using ok by (auto intro!: oi_insert_strict simp: jget_None_iff)
  have o2: "set ?o = (\<lambda>k. (k, k)) ` fst ` set ?m"
    using ok jget_None_iff [of "smap st" k] by (auto simp: image_iff)
  have b: "jsum (rec_bytes jb) ?m = sbytes st - recordBytes jb k st + rec_bytes jb k r"
    using ok by (simp add: jsum_set recordBytes_def)
  have x: "jsum has_ttl ?m =
      expiring st - (case jget (smap st) k of None \<Rightarrow> 0 | Some u \<Rightarrow> has_ttl k u) + has_ttl k r"
    using ok by (simp add: jsum_set)
  have h1: "is_heap h" using ok push_heap by (auto simp: h_def)
  have h2: "heap_covers ?m h"
  proof (rule heap_coversI [OF _ m])
    fix k' r' assume "jget ?m k' = Some r'" "sexpire r' \<noteq> 0"
    then show "ttl_entry k' r' \<in> set h"
      using ok heap_coversD [of "smap st" "heap st" k' r']
      by (auto simp: h_def r_def split: if_splits)
  qed
  define st2 where "st2 = st\<lparr> smap := ?m, seqno := seqno st + 1,
      sbytes := sbytes st - recordBytes jb k st + rec_bytes jb k r, order := ?o,
      expiring := expiring st - (case jget (smap st) k of None \<Rightarrow> 0 | Some u \<Rightarrow> has_ttl k u) + has_ttl k r,
      heap := h \<rparr>"
  have sel: "smap st2 = ?m" "order st2 = ?o" "heap st2 = h"
    "sbytes st2 = sbytes st - recordBytes jb k st + rec_bytes jb k r"
    "expiring st2 = expiring st - (case jget (smap st) k of None \<Rightarrow> 0 | Some u \<Rightarrow> has_ttl k u) + has_ttl k r"
    by (simp_all add: st2_def)
  have "store_ok jb st2"
    unfolding store_ok_def sel by (intro conjI m o1 o2 b [symmetric] x [symmetric] h1 h2)
  with rebuildHeap_store_ok show ?thesis
    unfolding setRef_eq [of jb k ref e d st, folded r_def, folded h_def, folded st2_def] by simp
qed

text \<open>Frequent rewrites of TTL keys do not let the heap grow without bound.\<close>

lemma setRef_heap_bound:
  assumes "store_ok jb st" "e \<noteq> 0"
  shows "length (heap (setRef jb k ref e d st)) \<le> 2 * length (smap (setRef jb k ref e d st)) + 64"
proof -
  have le: "length (heap (rebuildHeap s)) \<le> 2 * length (smap (rebuildHeap s)) + 64" for s
    using rebuildHeap_ok(3,4) [of s] by simp
  show ?thesis
    using le assms(2) unfolding setRef_eq [of jb k ref e d st] by (simp split: if_splits)
qed

section \<open>What the operations do, seen through the live view\<close>

lemma smap_setRef: "smap (setRef jb k ref e d st) =
    jset k \<lparr> sref = ref, sexpire = e, sseq = seqno st + 1, sdt = d \<rparr> (smap st)"
  unfolding setRef_eq by (simp add: rebuildHeap_def)

lemma live_setRef: "live now (setRef jb k ref e d st) =
    (live now st)(k := if e = 0 \<or> e > now
       then Some \<lparr> sref = ref, sexpire = e, sseq = seqno st + 1, sdt = d \<rparr> else None)"
  by (rule ext) (simp add: live_def smap_setRef is_live_def)

lemma smap_remove: "smap (snd (remove jb k st)) = jdel k (smap st)"
  by (simp add: remove_def jdel_absent jget_None_iff split: option.splits)

lemma seqno_remove [simp]: "seqno (snd (remove jb k st)) = seqno st"
  by (simp add: remove_def split: option.splits)

lemma live_remove: "live now (snd (remove jb k st)) = (live now st)(k := None)"
  by (rule ext) (simp add: live_def smap_remove)

lemma fst_remove: "fst (remove jb k st) \<longleftrightarrow> jget (smap st) k \<noteq> None"
  by (simp add: remove_def split: option.splits)

lemma expireKey_eq:
  "expireKey jb k r st = (snd (remove jb k st), if jget (smap st) k = None then [] else [(k, r)])"
  by (simp add: expireKey_def remove_def split: option.splits)

text \<open>
  The read paths reap what has expired and change nothing else: the view of every later
  time stays, and the notices are the expired records removed.
\<close>

definition reaps :: "(dt \<Rightarrow> nat) \<Rightarrow> int \<Rightarrow> store \<Rightarrow> store \<Rightarrow> notice list \<Rightarrow> bool" where
  "reaps jb now st st' ns \<longleftrightarrow>
     (\<forall>k. jget (smap st') k = (if k \<in> fst ` set ns then None else jget (smap st) k)) \<and>
     (\<forall>(k, r) \<in> set ns. jget (smap st) k = Some r \<and> \<not> is_live now r) \<and>
     distinct (map fst ns) \<and> seqno st' = seqno st \<and>
     (store_ok jb st \<longrightarrow> store_ok jb st')"

lemma reaps_refl [simp]: "reaps jb now st st []"
  by (simp add: reaps_def)

lemma reapsD:
  assumes "reaps jb now st st' ns"
  shows "jget (smap st') k = (if k \<in> fst ` set ns then None else jget (smap st) k)"
    "(k, r) \<in> set ns \<Longrightarrow> jget (smap st) k = Some r \<and> \<not> is_live now r"
    "distinct (map fst ns)" "store_ok jb st \<Longrightarrow> store_ok jb st'" "seqno st' = seqno st"
  using assms by (auto simp: reaps_def)

lemma reaps_trans:
  assumes a: "reaps jb now st st1 ns" and b: "reaps jb now st1 st2 ms"
  shows "reaps jb now st st2 (ns @ ms)"
proof -
  have disj: "k \<notin> fst ` set ns" if "(k, r) \<in> set ms" for k r
    using reapsD(2) [OF b that] reapsD(1) [OF a, of k] by (auto split: if_splits)
  have "jget (smap st2) k = (if k \<in> fst ` set (ns @ ms) then None else jget (smap st) k)" for k
    using reapsD(1) [OF a, of k] reapsD(1) [OF b, of k] by auto
  moreover have "jget (smap st) k = Some r \<and> \<not> is_live now r" if "(k, r) \<in> set ms" for k r
    using reapsD(2) [OF b that] reapsD(1) [OF a, of k] disj [OF that] by auto
  moreover have "k \<notin> fst ` set ns" if "k \<in> fst ` set ms" for k
  proof -
    from that obtain r where "(k, r) \<in> set ms" by auto
    then show ?thesis by (rule disj)
  qed
  then have "fst ` set ns \<inter> fst ` set ms = {}" by blast
  then have "distinct (map fst (ns @ ms))"
    using reapsD(3) [OF a] reapsD(3) [OF b] by simp
  ultimately show ?thesis
    using reapsD(2) [OF a] reapsD(4,5) [OF a] reapsD(4,5) [OF b] unfolding reaps_def by auto
qed

lemma reaps_live: "reaps jb now st st' ns \<Longrightarrow> now \<le> now' \<Longrightarrow> live now' st' = live now' st"
proof (rule ext)
  fix k assume r: "reaps jb now st st' ns" and le: "now \<le> now'"
  show "live now' st' k = live now' st k"
  proof (cases "k \<in> fst ` set ns")
    case True
    then obtain r where "(k, r) \<in> set ns" by auto
    with r have "jget (smap st) k = Some r" "\<not> is_live now r" by (auto simp: reaps_def)
    with le True r show ?thesis by (auto simp: live_def reaps_def is_live_def)
  next
    case False
    with r show ?thesis by (simp add: live_def reaps_def)
  qed
qed

lemma reaps_ok: "reaps jb now st st' ns \<Longrightarrow> store_ok jb st \<Longrightarrow> store_ok jb st'"
  by (simp add: reaps_def)

lemma expireKey_reaps:
  assumes "jget (smap st) k = Some r" "\<not> is_live now r" "expireKey jb k r st = (st', ns)"
  shows "reaps jb now st st' ns \<and> ns = [(k, r)]"
  using assms remove_ok [of jb st k] by (auto simp: expireKey_eq reaps_def smap_remove)

lemma getRecord_reaps:
  assumes "getRecord jb now k st = (res, st', ns)"
  shows "reaps jb now st st' ns \<and> res = live now st k"
proof (cases "jget (smap st) k")
  case None
  with assms show ?thesis by (auto simp: getRecord_def live_def)
next
  case (Some r)
  show ?thesis
  proof (cases "is_live now r")
    case True
    with assms Some show ?thesis by (auto simp: getRecord_def live_def is_live_def)
  next
    case False
    then have "expireKey jb k r st = (st', ns)" "res = None"
      using assms Some by (auto simp: getRecord_def is_live_def)
    with expireKey_reaps [OF Some False] Some False show ?thesis by (auto simp: live_def)
  qed
qed

lemma raw_nodes_reaps:
  "raw_nodes jb now ks st = (out, st', ns) \<Longrightarrow>
     reaps jb now st st' ns \<and> out = filter (\<lambda>k. live now st k \<noteq> None) ks"
proof (induction ks arbitrary: st out st' ns)
  case (Cons k ks)
  obtain r st1 ns1 where g: "getRecord jb now k st = (r, st1, ns1)" by (cases "getRecord jb now k st")
  obtain o2 st2 ns2 where w: "raw_nodes jb now ks st1 = (o2, st2, ns2)"
    by (cases "raw_nodes jb now ks st1")
  note g' = getRecord_reaps [OF g] and w' = Cons.IH [OF w]
  have "live now st1 = live now st" using reaps_live [OF conjunct1 [OF g']] by simp
  with g g' w w' Cons.prems show ?case by (auto intro: reaps_trans)
qed simp

lemma scan_nodes_reaps:
  "scan_nodes jb rd now ks st = (res, st', ns) \<Longrightarrow>
     reaps jb now st st' ns \<and>
     res = collect (map (\<lambda>k. entry_of rd k (the (live now st k)))
       (filter (\<lambda>k. live now st k \<noteq> None) ks))"
proof (induction ks arbitrary: st res st' ns)
  case (Cons k ks)
  obtain r st1 ns1 where g: "getRecord jb now k st = (r, st1, ns1)" by (cases "getRecord jb now k st")
  obtain o2 st2 ns2 where w: "scan_nodes jb rd now ks st1 = (o2, st2, ns2)"
    by (cases "scan_nodes jb rd now ks st1")
  note g' = getRecord_reaps [OF g] and w' = Cons.IH [OF w]
  have l: "live now st1 = live now st" using reaps_live [OF conjunct1 [OF g']] by simp
  show ?case
  proof (cases r)
    case None
    with g g' w w' l Cons.prems show ?thesis by (auto intro: reaps_trans)
  next
    case (Some x)
    with g g' w w' l Cons.prems show ?thesis
      by (cases "entry_of rd k x") (auto intro: reaps_trans)
  qed
qed simp

section \<open>Size\<close>

lemma jsum_has_ttl_0: "jsum has_ttl m = 0 \<longleftrightarrow> (\<forall>(k, r) \<in> set m. sexpire r = 0)"
proof (induction m)
  case (Cons p m)
  obtain k r where p: "p = (k, r)" by (cases p)
  have "0 \<le> jsum has_ttl m" "0 \<le> has_ttl k r" by (induction m) (auto simp: has_ttl_def)
  then have "jsum has_ttl (p # m) = 0 \<longleftrightarrow> has_ttl k r = 0 \<and> jsum has_ttl m = 0"
    unfolding p jsum_Cons by linarith
  also have "has_ttl k r = 0 \<longleftrightarrow> sexpire r = 0" by (simp add: has_ttl_def)
  finally show ?case unfolding Cons.IH by (simp add: p)
qed simp

lemma store_size_live:
  assumes "store_ok jb st"
  shows "store_size now st = card {k. live now st k \<noteq> None}"
proof -
  have ok: "jmap_ok (smap st)" "expiring st = jsum has_ttl (smap st)"
    using assms by (auto simp: store_ok_def)
  let ?f = "filter (\<lambda>(k, r). is_live now r) (smap st)"
  have "distinct (map fst ?f)"
    using ok(1) unfolding jmap_ok_def by (rule distinct_map_filter)
  then have "length ?f = card (fst ` set ?f)"
    by (metis distinct_card length_map list.set_map)
  also have "fst ` set ?f = {k. live now st k \<noteq> None}"
    using ok(1) by (force simp: live_def jget_mem split: option.splits)
  finally have len: "length ?f = card {k. live now st k \<noteq> None}" .
  moreover have "?f = smap st" if "expiring st = 0"
    using that ok(2) by (auto simp: jsum_has_ttl_0 is_live_def intro!: filter_True)
  ultimately show ?thesis by (auto simp: store_size_def)
qed

section \<open>Ordered and prefix scans\<close>

lemma order_keys:
  assumes "store_ok jb st"
  shows "sorted (map fst (order st))" "distinct (map fst (order st))"
    "set (map fst (order st)) = fst ` set (smap st)"
proof -
  have o1: "oi_strict (order st)" and o2: "set (order st) = (\<lambda>k. (k, k)) ` fst ` set (smap st)"
    using assms by (auto simp: store_ok_def)
  show "sorted (map fst (order st))"
    by (rule oi_sorted_keys) (rule oi_strict_sorted, rule o1)
  have "inj_on fst (set (order st))" by (rule inj_onI) (auto simp: o2)
  then show "distinct (map fst (order st))"
    using oi_strict_distinct [OF o1] by (simp add: distinct_map)
  show "set (map fst (order st)) = fst ` set (smap st)"
    by (simp add: o2 image_image)
qed

lemma live_key: "live now st k = Some r \<Longrightarrow> k \<in> fst ` set (smap st)"
  using jget_None_iff [of "smap st" k] by (auto simp: live_def split: option.splits)

text \<open>The keys with a prefix that are live, in order.\<close>

definition live_with_prefix :: "int \<Rightarrow> kstr \<Rightarrow> store \<Rightarrow> kstr list" where
  "live_with_prefix now p st =
     sorted_list_of_set {k. live now st k \<noteq> None \<and> take (length p) k = p}"

lemma sorted_distinct_eq:
  "sorted xs \<Longrightarrow> distinct xs \<Longrightarrow> xs = sorted_list_of_set (set (xs :: 'a::linorder list))"
  by (simp add: sorted_list_of_set.idem_if_sorted_distinct)

lemma prefix_nodes:
  assumes ok: "store_ok jb st" and keys: "\<forall>k \<in> fst ` set (smap st). kstr_ok k"
  shows "filter (\<lambda>k. live now st k \<noteq> None)
      (map fst (oi_range (prefix_options p None) (order st))) = live_with_prefix now p st"
proof -
  let ?r = "prefix_options p None"
  have "map fst (oi_range ?r (order st)) =
      filter (\<lambda>k. p \<le> k \<and> k < p @ [65535]) (map fst (order st))"
    by (simp add: prefix_options_def no_range_def oi_range_def from_start_def below_def
        filter_map o_def)
  then have eq: "filter (\<lambda>k. live now st k \<noteq> None) (map fst (oi_range ?r (order st))) =
      filter (\<lambda>k. live now st k \<noteq> None \<and> p \<le> k \<and> k < p @ [65535]) (map fst (order st))"
    by (simp add: conj_commute)
  also have "\<dots> = live_with_prefix now p st"
  proof -
    have "p \<le> k \<and> k < p @ [65535] \<longleftrightarrow> take (length p) k = p" if "k \<in> fst ` set (smap st)" for k
      by (rule prefix_bounds) (use keys that in \<open>force simp: kstr_ok_def list_all_iff\<close>)
    then have "{k \<in> fst ` set (smap st). live now st k \<noteq> None \<and> p \<le> k \<and> k < p @ [65535]} =
        {k. live now st k \<noteq> None \<and> take (length p) k = p}"
      using live_key by blast
    then show ?thesis
      unfolding live_with_prefix_def
      using order_keys [OF ok]
      by (subst sorted_distinct_eq) (simp_all add: sorted_wrt_filter)
  qed
  finally show ?thesis .
qed

section \<open>Expiration\<close>

lemma expireKey_smap: "expireKey jb k r st = (st', ns) \<Longrightarrow> smap st' = jdel k (smap st)"
  by (auto simp: expireKey_eq smap_remove)

lemma reap_loop_reaps:
  "(\<forall>(k, r) \<in> set rs. jget (smap st) k = Some r) \<Longrightarrow> distinct (map fst rs) \<Longrightarrow>
     reap_loop jb now rs n st = (m, st', ns) \<Longrightarrow>
     reaps jb now st st' ns \<and> m = n + length ns \<and>
     ns = filter (\<lambda>(k, r). \<not> is_live now r) rs"
proof (induction jb now rs n st arbitrary: m st' ns rule: reap_loop.induct)
  case (2 jb now k r rs n st)
  show ?case
  proof (cases "is_live now r")
    case True
    then have "reap_loop jb now rs n st = (m, st', ns)"
      using "2.prems"(3) by (auto simp: is_live_def)
    with "2.IH"(2) True "2.prems"(1,2) show ?thesis by (auto simp: is_live_def)
  next
    case False
    then have due: "sexpire r \<noteq> 0 \<and> sexpire r \<le> now" by (auto simp: is_live_def)
    obtain st1 ns1 where e: "expireKey jb k r st = (st1, ns1)" by (cases "expireKey jb k r st")
    obtain m2 st2 ns2 where l: "reap_loop jb now rs (n + 1) st1 = (m2, st2, ns2)"
      by (cases "reap_loop jb now rs (n + 1) st1")
    have r: "jget (smap st) k = Some r" using "2.prems"(1) by auto
    note e' = expireKey_reaps [OF r False e]
    have "\<forall>(k, r) \<in> set rs. jget (smap st1) k = Some r"
      using "2.prems"(1,2) expireKey_smap [OF e] by (auto simp: rev_image_eqI)
    with "2.IH"(1) [OF due e [symmetric]] "2.prems"(2) l
    have "reaps jb now st1 st2 ns2 \<and> m2 = (n + 1) + length ns2 \<and>
        ns2 = filter (\<lambda>(k, r). \<not> is_live now r) rs" by auto
    with e' e l due "2.prems"(3) False reaps_trans [of jb now st st1 ns1 st2 ns2] show ?thesis
      by auto
  qed
qed auto

lemma reapExpired_reaps:
  assumes "store_ok jb st" "reapExpired jb now st = (n, st', ns)"
  shows "reaps jb now st st' ns" "n = length ns"
    "ns = filter (\<lambda>(k, r). \<not> is_live now r) (smap st)"
proof -
  have ok: "jmap_ok (smap st)" using assms(1) by (simp add: store_ok_def)
  have "\<forall>(k, r) \<in> set (smap st). jget (smap st) k = Some r" using ok by (auto simp: jget_mem)
  moreover have "reap_loop jb now (smap st) 0 st = (n, st', ns)" "distinct (map fst (smap st))"
    using ok assms(2) by (simp_all add: reapExpired_def jmap_ok_def)
  ultimately have "reaps jb now st st' ns \<and> n = 0 + length ns \<and>
      ns = filter (\<lambda>(k, r). \<not> is_live now r) (smap st)" by (intro reap_loop_reaps)
  then show "reaps jb now st st' ns" "n = length ns"
    "ns = filter (\<lambda>(k, r). \<not> is_live now r) (smap st)" unfolding add_0 by blast+
qed

text \<open>One turn of the active loop: the top leaves the heap, and its record goes if it is due.\<close>

lemma pop_top:
  assumes "is_heap h" "h \<noteq> []"
  shows "is_heap (snd (pop h))" "set h \<subseteq> insert (h ! 0) (set (snd (pop h)))"
    "mset h = add_mset (h ! 0) (mset (snd (pop h)))"
proof -
  obtain h' where h: "pop h = (Some (h ! 0), h')" "is_heap h'" "mset h = add_mset (h ! 0) (mset h')"
    using pop_heap [OF assms] by blast
  then show "is_heap (snd (pop h))" "mset h = add_mset (h ! 0) (mset (snd (pop h)))" by simp_all
  show "set h \<subseteq> insert (h ! 0) (set (snd (pop h)))"
    using h(1) arg_cong [OF h(3), of set_mset] by simp
qed

lemma active_skip_ok:
  assumes ok: "store_ok jb st" and ne: "heap st \<noteq> []"
    and top: "ht (heap st ! 0) \<le> now"
    and skip: "case jget (smap st) (hk (heap st ! 0)) of None \<Rightarrow> True
      | Some r \<Rightarrow> \<not> (sseq r = hseq (heap st ! 0) \<and> sexpire r \<noteq> 0 \<and> sexpire r \<le> now)"
  shows "store_ok jb (st\<lparr> heap := snd (pop (heap st)) \<rparr>)"
proof -
  note o = ok [unfolded store_ok_def]
  have h: "is_heap (heap st)" using o by simp
  have "heap_covers (smap st) (snd (pop (heap st)))"
  proof (rule heap_coversI)
    fix k r assume r: "jget (smap st) k = Some r" "sexpire r \<noteq> 0"
    then have "ttl_entry k r \<in> set (heap st)" using o heap_coversD by blast
    moreover have "ttl_entry k r \<noteq> heap st ! 0"
    proof
      assume "ttl_entry k r = heap st ! 0"
      then have "hk (heap st ! 0) = k" "hseq (heap st ! 0) = sseq r" "ht (heap st ! 0) = sexpire r"
        by (simp_all flip: \<open>ttl_entry k r = heap st ! 0\<close> add: ttl_entry_def)
      with r skip top show False by simp
    qed
    ultimately show "ttl_entry k r \<in> set (snd (pop (heap st)))" using pop_top(2) [OF h ne] by blast
  qed (use o in simp)
  then show ?thesis using o pop_top(1) [OF h ne] by (simp add: store_ok_def)
qed

lemma active_reap_ok:
  assumes ok: "store_ok jb st" and ne: "heap st \<noteq> []"
    and e: "expireKey jb (hk (heap st ! 0)) r (st\<lparr> heap := snd (pop (heap st)) \<rparr>) = (st2, ns)"
  shows "store_ok jb st2"
proof -
  let ?k = "hk (heap st ! 0)" and ?h = "snd (pop (heap st))"
  have st2: "st2 = snd (remove jb ?k (st\<lparr> heap := ?h \<rparr>))" using e by (simp add: expireKey_eq)
  have same: "snd (remove jb ?k (st\<lparr> heap := ?h \<rparr>)) = (snd (remove jb ?k st))\<lparr> heap := ?h \<rparr>"
    by (simp add: remove_def split: option.splits)
  have rm: "store_ok jb (snd (remove jb ?k st))" by (rule remove_ok) (rule ok)
  have h: "is_heap (heap st)" using ok by (simp add: store_ok_def)
  have hs: "heap (snd (remove jb ?k st)) = heap st" by (simp add: remove_def split: option.splits)
  note o = rm [unfolded store_ok_def hs]
  have "heap_covers (smap (snd (remove jb ?k st))) ?h"
  proof (rule heap_coversI)
    fix k r assume r: "jget (smap (snd (remove jb ?k st))) k = Some r" "sexpire r \<noteq> 0"
    then have "ttl_entry k r \<in> set (heap st)" using o heap_coversD by blast
    moreover have "ttl_entry k r \<noteq> heap st ! 0"
      using r(1) by (auto simp: smap_remove ttl_entry_def dest: arg_cong [where f = hk]
        split: if_splits)
    ultimately show "ttl_entry k r \<in> set ?h" using pop_top(2) [OF h ne] by blast
  qed (use o in simp)
  then show ?thesis
    unfolding st2 same using o pop_top(1) [OF h ne] by (simp add: store_ok_def)
qed

text \<open>The number of heap entries that are due.\<close>

definition due :: "int \<Rightarrow> store \<Rightarrow> nat" where
  "due now st = length (filter (\<lambda>e. ht e \<le> now) (heap st))"

lemma due_pop:
  assumes "store_ok jb st" "heap st \<noteq> []" "ht (heap st ! 0) \<le> now"
  shows "due now st = Suc (length (filter (\<lambda>e. ht e \<le> now) (snd (pop (heap st)))))"
proof -
  have "is_heap (heap st)" using assms(1) by (simp add: store_ok_def)
  from arg_cong [OF pop_top(3) [OF this assms(2)], of "\<lambda>m. size (filter_mset (\<lambda>e. ht e \<le> now) m)"]
  show ?thesis using assms(3) by (simp add: due_def flip: mset_filter)
qed

lemma no_due_live:
  assumes ok: "store_ok jb st" and top: "heap st = [] \<or> ht (heap st ! 0) > now"
    and r: "jget (smap st) k = Some r"
  shows "is_live now r"
proof (rule ccontr)
  assume "\<not> is_live now r"
  then have d: "sexpire r \<noteq> 0" "sexpire r \<le> now" by (auto simp: is_live_def)
  have "ttl_entry k r \<in> set (heap st)"
    using ok r d by (auto simp: store_ok_def dest: heap_coversD)
  then obtain i where i: "i < length (heap st)" "heap st ! i = ttl_entry k r"
    by (auto simp: in_set_conv_nth)
  have "ht (heap st ! 0) \<le> ht (heap st ! i)"
    by (rule heap_top_least) (use ok i in \<open>auto simp: store_ok_def\<close>)
  with i d top show False by (auto simp: ttl_entry_def)
qed

text \<open>How the loop ends: nothing due is left, or the quota is met and the time is up.\<close>

definition active_end :: "int \<Rightarrow> int \<Rightarrow> (nat \<Rightarrow> int) \<Rightarrow> nat \<Rightarrow> store \<Rightarrow> store \<Rightarrow> bool" where
  "active_end now deadline clock n st st' \<longleftrightarrow>
     (\<forall>k r. jget (smap st') k = Some r \<longrightarrow> is_live now r) \<or>
     (\<exists>j \<ge> n. maxPerTick st \<le> j \<and> clock j \<ge> deadline \<and> due now st = (j - n) + due now st')"

lemma active_end_step:
  assumes "active_end now deadline clock (n + 1) st1 st'" "due now st = Suc (due now st1)"
    "maxPerTick st1 = maxPerTick st"
  shows "active_end now deadline clock n st st'"
  using assms(1) unfolding active_end_def
proof
  assume "\<exists>j \<ge> n + 1. maxPerTick st1 \<le> j \<and> clock j \<ge> deadline \<and> due now st1 = (j - (n + 1)) + due now st'"
  then obtain j where "n + 1 \<le> j" "maxPerTick st \<le> j" "clock j \<ge> deadline"
      "due now st = Suc (j - (n + 1)) + due now st'"
    using assms(2,3) by auto
  then have "n \<le> j \<and> maxPerTick st \<le> j \<and> clock j \<ge> deadline \<and> due now st = (j - n) + due now st'"
    by auto
  then show "(\<forall>k r. jget (smap st') k = Some r \<longrightarrow> is_live now r) \<or>
     (\<exists>j \<ge> n. maxPerTick st \<le> j \<and> clock j \<ge> deadline \<and> due now st = (j - n) + due now st')" by blast
qed simp

lemma maxPerTick_remove [simp]: "maxPerTick (snd (remove jb k st)) = maxPerTick st"
  by (simp add: remove_def split: option.splits)

lemma heap_remove [simp]: "heap (snd (remove jb k st)) = heap st"
  by (simp add: remove_def split: option.splits)

lemma reaps_heap:
  "reaps jb now (st\<lparr> heap := h \<rparr>) st' ns \<Longrightarrow> store_ok jb (st\<lparr> heap := h \<rparr>) \<or> store_ok jb st' \<Longrightarrow>
     reaps jb now st st' ns"
  by (auto simp: reaps_def)

lemma active_loop_reaps:
  "store_ok jb st \<Longrightarrow> active_loop jb now deadline clock n k st = (m, st', ns) \<Longrightarrow>
     reaps jb now st st' ns \<and> m = k + length ns \<and> active_end now deadline clock n st st'"
proof (induction jb now deadline clock n k st arbitrary: m st' ns rule: active_loop.induct)
  case (1 jb now deadline clock n k st)
  note unfold = active_loop.simps [of jb now deadline clock n k st]
  let ?top = "heap st ! 0" and ?st1 = "st\<lparr> heap := snd (pop (heap st)) \<rparr>"
  consider (finished) "heap st = [] \<or> ht ?top > now"
    | (time) "\<not> (heap st = [] \<or> ht ?top > now)" "n \<ge> maxPerTick st \<and> n mod 16 = 0 \<and> clock n \<ge> deadline"
    | (go) "\<not> (heap st = [] \<or> ht ?top > now)" "\<not> (n \<ge> maxPerTick st \<and> n mod 16 = 0 \<and> clock n \<ge> deadline)"
    by blast
  then show ?case
  proof cases
    case finished
    with "1.prems" no_due_live [OF "1.prems"(1) finished] show ?thesis
      by (simp add: unfold active_end_def)
  next
    case time
    with "1.prems" show ?thesis by (simp add: unfold active_end_def) (use time in auto)
  next
    case go
    then have ne: "heap st \<noteq> []" and top: "ht ?top \<le> now" by auto
    have due: "due now st = Suc (due now ?st1)"
      using due_pop [OF "1.prems"(1) ne top] by (simp add: due_def)
    show ?thesis
    proof (cases "jget (smap st) (hk ?top)")
      case None
      have ok1: "store_ok jb ?st1" by (rule active_skip_ok [OF "1.prems"(1) ne top]) (simp add: None)
      have eq: "active_loop jb now deadline clock (n + 1) k ?st1 = (m, st', ns)"
        using "1.prems"(2) go None by (simp add: unfold Let_def)
      have IH: "reaps jb now ?st1 st' ns \<and> m = k + length ns \<and> active_end now deadline clock (n + 1) ?st1 st'"
        by (rule "1.IH"(1) [OF go refl refl _ ok1 eq]) (simp add: None)
      have "active_end now deadline clock n st st'"
        by (rule active_end_step [where ?st1.0 = ?st1]) (use IH due in simp_all)
      with IH ok1 show ?thesis by (blast intro: reaps_heap)
    next
      case (Some r)
      show ?thesis
      proof (cases "sseq r = hseq ?top \<and> sexpire r \<noteq> 0 \<and> sexpire r \<le> now")
        case False
        have ok1: "store_ok jb ?st1"
          by (rule active_skip_ok [OF "1.prems"(1) ne top]) (use Some False in simp)
        have eq: "active_loop jb now deadline clock (n + 1) k ?st1 = (m, st', ns)"
          using "1.prems"(2) go Some False by (auto simp: unfold Let_def)
        have IH: "reaps jb now ?st1 st' ns \<and> m = k + length ns \<and> active_end now deadline clock (n + 1) ?st1 st'"
          by (rule "1.IH"(3) [OF go refl refl _ False ok1 eq]) (simp add: Some)
        have "active_end now deadline clock n st st'"
          by (rule active_end_step [where ?st1.0 = ?st1]) (use IH due in simp_all)
        with IH ok1 show ?thesis by (blast intro: reaps_heap)
      next
        case True
        obtain st2 ns1 where e: "expireKey jb (hk ?top) r ?st1 = (st2, ns1)"
          by (cases "expireKey jb (hk ?top) r ?st1")
        obtain m3 st3 ns3 where l: "active_loop jb now deadline clock (n + 1) (k + 1) st2 = (m3, st3, ns3)"
          by (cases "active_loop jb now deadline clock (n + 1) (k + 1) st2")
        have ok2: "store_ok jb st2" by (rule active_reap_ok [OF "1.prems"(1) ne e])
        have dead: "\<not> is_live now r" using True by (simp add: is_live_def)
        have r1: "reaps jb now ?st1 st2 ns1 \<and> ns1 = [(hk ?top, r)]"
          by (rule expireKey_reaps [OF _ dead e]) (simp add: Some)
        then have r: "reaps jb now st st2 ns1" using reaps_heap ok2 by blast
        have IH: "reaps jb now st2 st3 ns3 \<and> m3 = (k + 1) + length ns3 \<and>
            active_end now deadline clock (n + 1) st2 st3"
          by (rule "1.IH"(2) [OF go refl refl _ True e [symmetric] ok2 l]) (simp add: Some)
        have res: "m = m3" "st' = st3" "ns = ns1 @ ns3"
          using "1.prems"(2) go Some True e l by (simp_all add: unfold Let_def)
        have st2: "st2 = snd (remove jb (hk ?top) ?st1)" using e by (simp add: expireKey_eq)
        have "due now st = Suc (due now st2)" "maxPerTick st2 = maxPerTick st"
          using due by (simp_all add: st2 due_def)
        with IH have "active_end now deadline clock n st st3" using active_end_step by blast
        moreover have "reaps jb now st st3 (ns1 @ ns3)" using r IH reaps_trans by blast
        ultimately show ?thesis using IH r1 res by simp
      qed
    qed
  qed
qed

lemma activeExpire_reaps:
  assumes "store_ok jb st" "activeExpire jb now clock st = (st', ns)"
  shows "reaps jb now st st' ns"
    "(\<forall>k r. jget (smap st') k = Some r \<longrightarrow> is_live now r) \<or>
     (\<exists>j \<ge> maxPerTick st. clock j \<ge> now + expireTimeBudgetMs st \<and> due now st = j + due now st')"
    "expireAggressive st' \<longleftrightarrow> length ns \<ge> maxPerTick st'"
proof -
  let ?b = "if expireAggressive st then max (expireTimeBudgetMs st) 10 else expireTimeBudgetMs st"
  obtain m st1 where l: "active_loop jb now (now + ?b) clock 0 0 st = (m, st1, ns)"
      and st': "st' = st1\<lparr> expireAggressive := (m \<ge> maxPerTick st1) \<rparr>"
    using assms(2) by (auto simp: activeExpire_def Let_def split: prod.splits)
  note r = active_loop_reaps [OF assms(1) l]
  have ok: "store_ok jb st' = store_ok jb st1" by (simp add: st' store_ok_def)
  then show "reaps jb now st st' ns" using r by (simp add: reaps_def st')
  show "expireAggressive st' \<longleftrightarrow> length ns \<ge> maxPerTick st'" using r by (simp add: st')
  have sm: "smap st' = smap st1" "due now st' = due now st1" by (simp_all add: st' due_def)
  have "active_end now (now + ?b) clock 0 st st1" using r by blast
  then consider "\<forall>k r. jget (smap st1) k = Some r \<longrightarrow> is_live now r"
    | j where "maxPerTick st \<le> j" "clock j \<ge> now + ?b" "due now st = j + due now st1"
    unfolding active_end_def by auto
  then show "(\<forall>k r. jget (smap st') k = Some r \<longrightarrow> is_live now r) \<or>
     (\<exists>j \<ge> maxPerTick st. clock j \<ge> now + expireTimeBudgetMs st \<and> due now st = j + due now st')"
    unfolding sm
  proof cases
    case (2 j)
    have "now + ?b \<ge> now + expireTimeBudgetMs st" by simp
    with 2(2) have "clock j \<ge> now + expireTimeBudgetMs st" by (rule order_trans [rotated])
    with 2 show "(\<forall>k r. jget (smap st1) k = Some r \<longrightarrow> is_live now r) \<or>
     (\<exists>j \<ge> maxPerTick st. clock j \<ge> now + expireTimeBudgetMs st \<and> due now st = j + due now st1)"
      by blast
  qed simp
qed

section \<open>Moving values on disk\<close>

lemma map_of_map_snd:
  "map_of (map (\<lambda>(k, r). (k, f k r)) m) k = map_option (f k) (map_of m k)"
  by (induction m) auto

lemma smap_remapLocs:
  "jget (smap (remapLocs f st)) k = map_option (\<lambda>r. case sref r of Memory v \<Rightarrow> r
     | Disk loc \<Rightarrow> (case f k loc r of None \<Rightarrow> r | Some loc' \<Rightarrow> r\<lparr> sref := Disk loc' \<rparr>)) (jget (smap st) k)"
proof -
  have "smap (remapLocs f st) = map (\<lambda>(k, r). (k, case sref r of Memory v \<Rightarrow> r
     | Disk loc \<Rightarrow> (case f k loc r of None \<Rightarrow> r | Some loc' \<Rightarrow> r\<lparr> sref := Disk loc' \<rparr>))) (smap st)"
    by (auto simp: remapLocs_def split: value_ref.splits option.splits)
  then show ?thesis by (simp only: map_of_map_snd)
qed

lemma remapLocs_ok:
  assumes "store_ok jb st"
  shows "store_ok jb (remapLocs f st)"
proof -
  define g where "g k r = (case sref r of Memory v \<Rightarrow> r
     | Disk loc \<Rightarrow> (case f k loc r of None \<Rightarrow> r | Some loc' \<Rightarrow> r\<lparr> sref := Disk loc' \<rparr>))" for k r
  have m: "smap (remapLocs f st) = map (\<lambda>(k, r). (k, g k r)) (smap st)"
    by (auto simp: remapLocs_def g_def split: value_ref.splits option.splits)
  have g: "sexpire (g k r) = sexpire r" "sseq (g k r) = sseq r" "rec_bytes jb k (g k r) = rec_bytes jb k r" for k r
    by (simp_all add: g_def rec_bytes_def refBytes_def split: value_ref.splits option.splits)
  have keys: "map fst (smap (remapLocs f st)) = map fst (smap st)" by (auto simp: m)
  have sums: "jsum (rec_bytes jb) (smap (remapLocs f st)) = jsum (rec_bytes jb) (smap st)"
      "jsum has_ttl (smap (remapLocs f st)) = jsum has_ttl (smap st)"
    by (auto simp: m jsum_def g has_ttl_def o_def case_prod_unfold)
  have "heap_covers (smap (remapLocs f st)) (heap st)"
    using assms by (fastforce simp: m heap_covers_def store_ok_def ttl_entry_def g)
  moreover have "fst ` set (smap (remapLocs f st)) = fst ` set (smap st)"
    using keys by (metis list.set_map)
  moreover have "order (remapLocs f st) = order st" "heap (remapLocs f st) = heap st"
      "sbytes (remapLocs f st) = sbytes st" "expiring (remapLocs f st) = expiring st"
    by (simp_all add: remapLocs_def)
  ultimately show ?thesis
    using assms keys sums by (simp add: store_ok_def jmap_ok_def)
qed

section \<open>Properties\<close>

text \<open>The writes a store sees, for statements about runs.\<close>

datatype store_op =
    OSet kstr value_ref int "dt option"
  | ODel kstr
  | OGet int kstr
  | OScan int "kstr range_options"
  | OActive int "nat \<Rightarrow> int"
  | OReap int
  | ORemap "kstr \<Rightarrow> value_loc \<Rightarrow> store_rec \<Rightarrow> value_loc option"

fun store_step :: "(dt \<Rightarrow> nat) \<Rightarrow> store_op \<Rightarrow> store \<Rightarrow> store" where
  "store_step jb (OSet k ref e d) st = setRef jb k ref e d st"
| "store_step jb (ODel k) st = snd (store_del jb k st)"
| "store_step jb (OGet now k) st = fst (snd (getRecord jb now k st))"
| "store_step jb (OScan now opts) st = fst (snd (rawKeys jb now opts st))"
| "store_step jb (OActive now clock) st = fst (activeExpire jb now clock st)"
| "store_step jb (OReap now) st = fst (snd (reapExpired jb now st))"
| "store_step jb (ORemap f) st = remapLocs f st"

lemma store_step_ok: "store_ok jb st \<Longrightarrow> store_ok jb (store_step jb x st)"
proof (cases x)
  case (OGet now k)
  assume "store_ok jb st"
  then show ?thesis
    using getRecord_reaps [of jb now k st] OGet
    by (cases "getRecord jb now k st") (auto dest: reaps_ok)
next
  case (OScan now opts)
  assume "store_ok jb st"
  then show ?thesis
    using raw_nodes_reaps [of jb now "map fst (oi_range opts (order st))" st] OScan
    by (cases "rawKeys jb now opts st") (auto simp: rawKeys_def dest: reaps_ok)
next
  case (OActive now clock)
  assume ok: "store_ok jb st"
  then show ?thesis
    using activeExpire_reaps(1) [OF ok, of now clock] OActive
    by (cases "activeExpire jb now clock st") (auto dest: reaps_ok)
next
  case (OReap now)
  assume ok: "store_ok jb st"
  then show ?thesis
    using reapExpired_reaps(1) [OF ok, of now] OReap
    by (cases "reapExpired jb now st") (auto dest: reaps_ok)
qed (auto simp: setRef_ok store_del_def remove_ok remapLocs_ok)

lemma store_invariant_run: "store_ok jb (fold (store_step jb) ops (new_store perTick budget))"
proof -
  have "store_ok jb st \<Longrightarrow> store_ok jb (fold (store_step jb) ops st)" for st
    by (induction ops arbitrary: st) (simp_all add: store_step_ok)
  then show ?thesis by simp
qed

text \<open>C20: in every state a run of sets, deletes, reads, scans, expirations and relocations
  can reach, the ordered index holds exactly the keys of the Map, in order and once each, the
  byte counter is the sum over the records and the expiry counter their number, and the
  expiry heap is in heap order with an entry for every record that has an expiry.\<close>

theorem store_invariant:
  "store_ok jb (fold (store_step jb) ops (new_store perTick budget))"
  by (rule store_invariant_run)

text \<open>
  What the store promises: a map of the records last set, which no read and no clock changes. A
  record shows until its expiry.
\<close>

fun map_step :: "store_op \<Rightarrow> nat \<times> (kstr \<Rightarrow> store_rec option) \<Rightarrow> nat \<times> (kstr \<Rightarrow> store_rec option)" where
  "map_step (OSet k ref e d) (n, m) = (n + 1, m(k \<mapsto> \<lparr> sref = ref, sexpire = e, sseq = n + 1, sdt = d \<rparr>))"
| "map_step (ODel k) (n, m) = (n, m(k := None))"
| "map_step (OGet now k) (n, m) = (n, m)"
| "map_step (OScan now opts) (n, m) = (n, m)"
| "map_step (OActive now clock) (n, m) = (n, m)"
| "map_step (OReap now) (n, m) = (n, m)"
| "map_step (ORemap f) (n, m) =
     (n, \<lambda>k. map_option (\<lambda>r. case sref r of Memory v \<Rightarrow> r
        | Disk loc \<Rightarrow> (case f k loc r of None \<Rightarrow> r | Some loc' \<Rightarrow> r\<lparr> sref := Disk loc' \<rparr>)) (m k))"

definition visible :: "int \<Rightarrow> (kstr \<Rightarrow> store_rec option) \<Rightarrow> kstr \<Rightarrow> store_rec option" where
  "visible now m k = (case m k of None \<Rightarrow> None | Some r \<Rightarrow> if is_live now r then Some r else None)"

text \<open>The time an operation reads, where it reads one.\<close>

fun ran_by :: "int \<Rightarrow> store_op \<Rightarrow> bool" where
  "ran_by now (OGet t k) = (t \<le> now)"
| "ran_by now (OScan t opts) = (t \<le> now)"
| "ran_by now (OActive t clock) = (t \<le> now)"
| "ran_by now (OReap t) = (t \<le> now)"
| "ran_by now x = True"

definition holds_map :: "int \<Rightarrow> store \<Rightarrow> nat \<times> (kstr \<Rightarrow> store_rec option) \<Rightarrow> bool" where
  "holds_map now st a \<longleftrightarrow>
     seqno st = fst a \<and>
     (\<forall>k. jget (smap st) k = snd a k \<or> jget (smap st) k = None \<and> visible now (snd a) k = None)"

lemma holds_map_live: "holds_map now st a \<Longrightarrow> live now st = visible now (snd a)"
proof (rule ext)
  fix k assume "holds_map now st a"
  then have "jget (smap st) k = snd a k \<or> jget (smap st) k = None \<and> visible now (snd a) k = None"
    by (simp add: holds_map_def)
  then show "live now st k = visible now (snd a) k" by (elim disjE) (simp_all add: live_def visible_def)
qed

lemma reaps_holds:
  assumes h: "holds_map now st a" and r: "reaps jb t st st' ns" and t: "t \<le> now"
  shows "holds_map now st' a"
proof -
  have "jget (smap st') k = snd a k \<or> jget (smap st') k = None \<and> visible now (snd a) k = None" for k
  proof (cases "k \<in> fst ` set ns")
    case True
    then obtain x where x: "(k, x) \<in> set ns" by auto
    have "jget (smap st) k = Some x" "\<not> is_live t x" using reapsD(2) [OF r x] by simp_all
    moreover have "snd a k = Some x" using h calculation unfolding holds_map_def by (metis option.distinct(1))
    ultimately show ?thesis
      using reapsD(1) [OF r, of k] True t by (auto simp: visible_def is_live_def)
  next
    case False
    then show ?thesis using reapsD(1) [OF r, of k] h by (simp add: holds_map_def)
  qed
  then show ?thesis using h reapsD(5) [OF r] by (simp add: holds_map_def)
qed

lemma store_step_holds:
  assumes ok: "store_ok jb st" and h: "holds_map now st a" and t: "ran_by now x"
  shows "holds_map now (store_step jb x st) (map_step x a)"
proof -
  obtain n m where a: "a = (n, m)" by (cases a)
  have h': "seqno st = n" "\<And>k. jget (smap st) k = m k \<or> jget (smap st) k = None \<and> visible now m k = None"
    using h by (simp_all add: holds_map_def a)
  show ?thesis
  proof (cases x)
    case (OSet k ref e d)
    have "seqno (setRef jb k ref e d st) = seqno st + 1" by (simp add: setRef_eq rebuildHeap_def)
    then show ?thesis using h' by (auto simp: OSet a holds_map_def smap_setRef visible_def)
  next
    case (ODel k)
    then show ?thesis using h' by (auto simp: a holds_map_def store_del_def smap_remove visible_def)
  next
    case (OGet u k)
    then show ?thesis using getRecord_reaps [of jb u k st] reaps_holds [OF h] t
      by (cases "getRecord jb u k st") (auto simp: a)
  next
    case (OScan u opts)
    then show ?thesis using raw_nodes_reaps [of jb u "map fst (oi_range opts (order st))" st] reaps_holds [OF h] t
      by (cases "rawKeys jb u opts st") (auto simp: a rawKeys_def)
  next
    case (OActive u clock)
    then show ?thesis using activeExpire_reaps(1) [OF ok, of u clock] reaps_holds [OF h] t
      by (cases "activeExpire jb u clock st") (auto simp: a)
  next
    case (OReap u)
    then show ?thesis using reapExpired_reaps(1) [OF ok, of u] reaps_holds [OF h] t
      by (cases "reapExpired jb u st") (auto simp: a)
  next
    case (ORemap f)
    have v: "visible now (\<lambda>k. map_option (\<lambda>r. case sref r of Memory v \<Rightarrow> r
        | Disk loc \<Rightarrow> (case f k loc r of None \<Rightarrow> r | Some loc' \<Rightarrow> r\<lparr> sref := Disk loc' \<rparr>)) (m k)) k = None"
      if "visible now m k = None" for k
      using that by (auto simp: visible_def is_live_def split: option.splits value_ref.splits if_splits)
    have "seqno (remapLocs f st) = seqno st" by (simp add: remapLocs_def)
    moreover have "jget (smap (remapLocs f st)) k = snd (map_step x a) k \<or>
        jget (smap (remapLocs f st)) k = None \<and> visible now (snd (map_step x a)) k = None" for k
      using h'(2) [of k] v [of k] by (auto simp: ORemap a smap_remapLocs)
    ultimately show ?thesis using h'(1) by (simp add: ORemap a holds_map_def)
  qed
qed

lemma run_holds:
  assumes "\<forall>x \<in> set ops. ran_by now x"
  shows "holds_map now (fold (store_step jb) ops (new_store perTick budget)) (fold map_step ops (0, \<lambda>k. None))"
proof -
  have run: "holds_map now (fold (store_step jb) ops st) (fold map_step ops a)"
    if "store_ok jb st" "holds_map now st a" for st a
    using assms that by (induction ops arbitrary: st a) (simp_all add: store_step_ok store_step_holds)
  have "holds_map now (new_store perTick budget) (0, \<lambda>k. None)" by (simp add: holds_map_def new_store_def)
  then show ?thesis by (rule run [OF store_ok_new])
qed

text \<open>C10: the store is a map with expiry. After any run of sets, deletes, gets, scans, expiry ticks, reaps and
  relocations, none of which read a clock later than now, with \<open>m\<close> the plain map of what was set and not deleted: a
  get at this time returns exactly the record \<open>m\<close> holds unless its expiry is past, \<open>has\<close> and
  \<open>size\<close> agree with it, and a delete answers true for a key that can be seen, and only for a key of
  \<open>m\<close> (an expired record may still be in the Map or not). So reads, reaps and ticks never change an answer.\<close>

theorem store_refines_expiring_map:
  assumes "\<forall>x \<in> set ops. ran_by now x"
    and "st = fold (store_step jb) ops (new_store perTick budget)" "m = snd (fold map_step ops (0, \<lambda>k. None))"
  shows "fst (getRecord jb now k st) = visible now m k \<and>
    (fst (store_has jb now k st) \<longleftrightarrow> visible now m k \<noteq> None) \<and>
    store_size now st = card {k. visible now m k \<noteq> None} \<and>
    (visible now m k \<noteq> None \<longrightarrow> fst (store_del jb k st)) \<and> (fst (store_del jb k st) \<longrightarrow> m k \<noteq> None)"
proof -
  have h: "holds_map now st (fst (fold map_step ops (0, \<lambda>k. None)), m)"
    using run_holds [OF assms(1), of jb perTick budget] by (simp add: assms(2,3))
  have v: "live now st = visible now m" using holds_map_live [OF h] by simp
  have g: "fst (getRecord jb now k st) = visible now m k"
    using getRecord_reaps [of jb now k st] v by (cases "getRecord jb now k st") simp
  moreover have "fst (store_has jb now k st) \<longleftrightarrow> visible now m k \<noteq> None"
    using g by (cases "getRecord jb now k st") (simp add: store_has_def)
  moreover have "store_ok jb st" unfolding assms(2) by (rule store_invariant_run)
  then have "store_size now st = card {k. visible now m k \<noteq> None}"
    using store_size_live [of jb st now] v by simp
  moreover have "(visible now m k \<noteq> None \<longrightarrow> fst (store_del jb k st)) \<and> (fst (store_del jb k st) \<longrightarrow> m k \<noteq> None)"
  proof -
    have "jget (smap st) k = m k \<or> jget (smap st) k = None \<and> visible now m k = None" using h by (simp add: holds_map_def)
    then show ?thesis by (elim disjE) (auto simp: store_del_def fst_remove visible_def split: option.splits)
  qed
  ultimately show ?thesis by blast
qed

text \<open>C25: an active-expiration tick removes expired records only, notifies the owner of
  exactly those, keeps what every later read sees, and ends either with no expired record
  left or with its quota of heap entries taken and its time budget used up.\<close>

theorem active_expire_tick:
  assumes "store_ok jb st" "activeExpire jb now clock st = (st', ns)"
  shows "store_ok jb st' \<and> live (now + int later) st' = live (now + int later) st \<and>
    (\<forall>(k, r) \<in> set ns. jget (smap st) k = Some r \<and> sexpire r \<noteq> 0 \<and> sexpire r \<le> now) \<and>
    distinct (map fst ns) \<and> length (smap st') + length ns = length (smap st) \<and>
    ((\<forall>k r. jget (smap st') k = Some r \<longrightarrow> is_live now r) \<or>
     (\<exists>j \<ge> maxPerTick st. clock j \<ge> now + expireTimeBudgetMs st \<and> due now st = j + due now st'))"
proof -
  note r = activeExpire_reaps [OF assms]
  have dist: "distinct (map fst ns)" and ok': "store_ok jb st'"
    using r(1) assms(1) by (auto simp: reaps_def)
  have m: "jmap_ok (smap st)" "jmap_ok (smap st')" using assms(1) ok' by (auto simp: store_ok_def)
  have dom: "fst ` set (smap s) = {k. jget (smap s) k \<noteq> None}" for s :: store
    by (auto simp: jget_None_iff)
  have "fst ` set (smap st') \<union> fst ` set ns = fst ` set (smap st)"
      "fst ` set (smap st') \<inter> fst ` set ns = {}"
    unfolding dom using r(1) by (auto simp: reaps_def split: if_splits)
  then have "card (fst ` set (smap st')) + card (fst ` set ns) = card (fst ` set (smap st))"
    by (metis List.finite_set card_Un_disjoint finite_imageI)
  moreover have "card (fst ` set (smap st)) = length (smap st)"
      "card (fst ` set (smap st')) = length (smap st')" "card (fst ` set ns) = length ns"
    using m dist distinct_card [of "map fst (smap st)"] distinct_card [of "map fst (smap st')"]
      distinct_card [of "map fst ns"] by (simp_all add: jmap_ok_def)
  moreover have "live (now + int later) st' = live (now + int later) st"
    by (rule reaps_live [OF r(1)]) simp
  ultimately show ?thesis
    using r(1,2) ok' dist by (auto simp: reaps_def is_live_def)
qed

text \<open>\<open>size\<close> is the number of live keys, whichever of its two paths it takes.\<close>

lemma size_counts_live:
  "store_size now (fold (store_step jb) ops (new_store perTick budget)) =
     card {k. live now (fold (store_step jb) ops (new_store perTick budget)) k \<noteq> None}"
proof -
  have "store_ok jb st \<Longrightarrow> store_ok jb (fold (store_step jb) ops st)" for st
    by (induction ops arbitrary: st) (simp_all add: store_step_ok)
  then show ?thesis by (intro store_size_live [where jb = jb]) simp
qed

text \<open>A prefix scan without a limit over byte-string keys returns the entries of exactly
  the live keys with the prefix, in ascending order of keys (or the error of the first value
  that cannot be read), and leaves the live view as it was.\<close>

theorem prefix_scan_exact:
  assumes "store_ok jb st" "\<forall>k \<in> fst ` set (smap st). kstr_ok k"
  shows "(case store_prefix jb rd now p None st of (res, st', ns) \<Rightarrow>
     res = collect (map (\<lambda>k. entry_of rd k (the (live now st k))) (live_with_prefix now p st)) \<and>
     live now st' = live now st)"
proof -
  obtain res st' ns where s: "store_prefix jb rd now p None st = (res, st', ns)"
    by (cases "store_prefix jb rd now p None st")
  note r = scan_nodes_reaps [OF s [unfolded store_prefix_def store_scan_def]]
  have "live now st' = live now st" by (rule reaps_live [OF conjunct1 [OF r]]) simp
  with r s prefix_nodes [OF assms] show ?thesis by simp
qed

theorem store_refines_expiring_map_witness:
  "fst (getRecord (\<lambda>d. 0) 20 [97] (fold (store_step (\<lambda>d. 0)) [OSet [97] (Memory [1]) 10 None, OGet 5 [97], OReap 12] (new_store 100 2))) = None"
proof -
  have "\<forall>x \<in> set [OSet [97] (Memory [1]) 10 None, OGet 5 [97], OReap 12]. ran_by 20 x" by simp
  from store_refines_expiring_map [OF this refl refl, where k = "[97]"] show ?thesis
    by (simp add: visible_def is_live_def)
qed

definition sample_store :: store where
  "sample_store = setRef (\<lambda>d. 0) [97] (Memory [1]) 10 None (new_store 100 2)"

lemma sample_store_ok: "store_ok (\<lambda>d. 0) sample_store"
  unfolding sample_store_def by (rule setRef_ok) (rule store_ok_new)

theorem prefix_scan_exact_witness:
  "(case store_prefix (\<lambda>d. 0) None 5 [97] None sample_store of (res, st', ns) \<Rightarrow>
     res = collect (map (\<lambda>k. entry_of None k (the (live 5 sample_store k)))
       (live_with_prefix 5 [97] sample_store)) \<and>
     live 5 st' = live 5 sample_store)"
proof (rule prefix_scan_exact [OF sample_store_ok])
  show "\<forall>k \<in> fst ` set (smap sample_store). kstr_ok k"
    by (simp add: sample_store_def smap_setRef new_store_def kstr_ok_def)
qed

theorem active_expire_tick_witness:
  "\<exists>st' ns. activeExpire (\<lambda>d. 0) 20 (\<lambda>n. 20) sample_store = (st', ns) \<and>
    (store_ok (\<lambda>d. 0) st' \<and> live (20 + int 1) st' = live (20 + int 1) sample_store \<and>
    (\<forall>(k, r) \<in> set ns. jget (smap sample_store) k = Some r \<and> sexpire r \<noteq> 0 \<and> sexpire r \<le> 20) \<and>
    distinct (map fst ns) \<and> length (smap st') + length ns = length (smap sample_store) \<and>
    ((\<forall>k r. jget (smap st') k = Some r \<longrightarrow> is_live 20 r) \<or>
     (\<exists>j \<ge> maxPerTick sample_store. (20 :: int) \<ge> 20 + expireTimeBudgetMs sample_store \<and>
        due 20 sample_store = j + due 20 st')))"
proof -
  obtain st' ns where "activeExpire (\<lambda>d. 0) 20 (\<lambda>n. 20) sample_store = (st', ns)"
    by (cases "activeExpire (\<lambda>d. 0) 20 (\<lambda>n. 20) sample_store")
  from active_expire_tick [OF sample_store_ok this, of 1] this show ?thesis by blast
qed

text \<open>C28: rewriting keys with an expiry does not let the expiry heap grow without bound: after
  every such set it has at most twice as many entries as the Map, plus 64.\<close>

theorem heap_bounded:
  assumes "store_ok jb st" "e \<noteq> 0"
  shows "length (heap (setRef jb k ref e d st)) \<le> 2 * length (smap (setRef jb k ref e d st)) + 64"
  by (rule setRef_heap_bound) (rule assms)+

theorem heap_bounded_witness:
  "length (heap (setRef (\<lambda>d. 0) [97] (Memory [2]) 30 None sample_store)) \<le>
     2 * length (smap (setRef (\<lambda>d. 0) [97] (Memory [2]) 30 None sample_store)) + 64"
  by (rule heap_bounded) (simp_all add: sample_store_ok)

end
