(* ===== verification/Recovery.thy ===== *)
theory Recovery
  imports FrameScan Store
begin

text \<open>
  Start-up recovery and replica catch-up of \<open>packages/minidb/src/recovery.ts\<close>. Files are byte
  lists; \<open>clk\<close> gives the readings of \<open>Date.now()\<close> (one per record replayed) and \<open>parse\<close> stands
  for \<open>JSON.parse(...).dt ?? null\<close> of a metadata blob. A generator that throws has yielded what
  came before the error, so a list of operations carries an optional error at its end.
\<close>

section \<open>Frames as store operations\<close>

datatype value_mode = InMemory | OnDisk

type_synonym meta_parser = "bytes \<Rightarrow> js_error + dt option"

record recovered_op =
  optype :: nat
  opkey :: bytes
  opref :: "value_ref option"
  opexpire :: int
  opdt :: "dt option"

definition readAtSync :: "bytes \<Rightarrow> nat \<Rightarrow> nat \<Rightarrow> js_error + bytes" where
  "readAtSync fd off len = (if len = 0 then Inr [] else read_loop (Error ''recovery: short read past EOF'') fd off len)"

definition parseMeta :: "meta_parser \<Rightarrow> bytes option \<Rightarrow> js_error + dt option" where
  "parseMeta parse meta = (case meta of None \<Rightarrow> Inr None | Some b \<Rightarrow> parse b)"

definition del_op :: "bytes \<Rightarrow> recovered_op" where
  "del_op key = \<lparr> optype = TYPE_DEL, opkey = key, opref = None, opexpire = 0, opdt = None \<rparr>"

definition setRefToOps ::
  "meta_parser \<Rightarrow> int \<Rightarrow> loc_file \<Rightarrow> bytes \<Rightarrow> value_mode \<Rightarrow> bytes \<Rightarrow> nat \<Rightarrow> nat \<Rightarrow> bytes option \<Rightarrow> int \<Rightarrow>
     js_error + recovered_op" where
  "setRefToOps parse now src fd mode key vOff vLen meta expireAt =
     (if expireAt \<noteq> 0 \<and> expireAt \<le> now then Inr (del_op key)
      else case parseMeta parse meta of
        Inl e \<Rightarrow> Inl e
      | Inr d \<Rightarrow>
          map_result (\<lambda>ref. \<lparr> optype = TYPE_SET, opkey = key, opref = Some ref, opexpire = expireAt, opdt = d \<rparr>)
            (case mode of
               OnDisk \<Rightarrow> Inr (Disk \<lparr> lfile = src, loff = vOff, llen = vLen \<rparr>)
             | InMemory \<Rightarrow> map_result Memory (readAtSync fd vOff vLen)))"

text \<open>The loop over the operations of a batch; \<open>n\<close> counts them for the clock.\<close>

fun batch_to_ops ::
  "meta_parser \<Rightarrow> (nat \<Rightarrow> int) \<Rightarrow> loc_file \<Rightarrow> bytes \<Rightarrow> value_mode \<Rightarrow> nat \<Rightarrow> batch_op_ref list \<Rightarrow>
     recovered_op list \<times> js_error option" where
  "batch_to_ops parse clk src fd mode n [] = ([], None)"
| "batch_to_ops parse clk src fd mode n (r # rs) =
     (if rtype r = TYPE_SET then
        (case setRefToOps parse (clk n) src fd mode (rkey r) (rvalueOff r) (rvalLen r) (rmeta r) (rexpire r) of
           Inl e \<Rightarrow> ([], Some e)
         | Inr a \<Rightarrow> (case batch_to_ops parse clk src fd mode (n + 1) rs of (as, e) \<Rightarrow> (a # as, e)))
      else if rtype r = TYPE_DEL then
        (case batch_to_ops parse clk src fd mode (n + 1) rs of (as, e) \<Rightarrow> (del_op (rkey r) # as, e))
      else batch_to_ops parse clk src fd mode (n + 1) rs)"

definition frameToOps ::
  "meta_parser \<Rightarrow> (nat \<Rightarrow> int) \<Rightarrow> frame_ref \<Rightarrow> loc_file \<Rightarrow> bytes \<Rightarrow> value_mode \<Rightarrow>
     recovered_op list \<times> js_error option" where
  "frameToOps parse clk f src fd mode =
     (if rftype f = TYPE_SET then
        (case setRefToOps parse (clk 0) src fd mode (rfkey f) (valueOff f) (valLen f) (rfmeta f) (rfexpire f) of
           Inl e \<Rightarrow> ([], Some e) | Inr a \<Rightarrow> ([a], None))
      else if rftype f = TYPE_DEL then ([del_op (rfkey f)], None)
      else if rftype f = TYPE_BATCH then
        (case (case readAtSync fd (valueOff f) (valLen f) of
                 Inl e \<Rightarrow> Inl e | Inr body \<Rightarrow> scanBatchOpRefs body (valueOff f)) of
           Inl e \<Rightarrow> ([], None)
         | Inr ops \<Rightarrow> batch_to_ops parse clk src fd mode 0 ops)
      else ([], None))"

section \<open>Recovery\<close>

definition apply_op :: "(dt \<Rightarrow> nat) \<Rightarrow> recovered_op \<Rightarrow> store \<Rightarrow> store" where
  "apply_op jb a st =
     (if optype a = TYPE_SET then setRef jb (toKStr (opkey a)) (the (opref a)) (opexpire a) (opdt a) st
      else if optype a = TYPE_DEL then snd (store_del jb (toKStr (opkey a)) st)
      else st)"

fun applyFrames ::
  "(dt \<Rightarrow> nat) \<Rightarrow> meta_parser \<Rightarrow> (nat \<Rightarrow> nat \<Rightarrow> int) \<Rightarrow> nat \<Rightarrow> frame_ref list \<Rightarrow> loc_file \<Rightarrow> bytes \<Rightarrow>
     value_mode \<Rightarrow> store \<Rightarrow> store \<times> js_error option" where
  "applyFrames jb parse clk n [] src fd mode st = (st, None)"
| "applyFrames jb parse clk n (f # fs) src fd mode st =
     (case frameToOps parse (clk n) f src fd mode of
        (as, Some e) \<Rightarrow> (fold (apply_op jb) as st, Some e)
      | (as, None) \<Rightarrow> applyFrames jb parse clk (n + 1) fs src fd mode (fold (apply_op jb) as st))"

record recovery_info =
  snapshotFrames :: nat
  walFrames :: nat
  truncatedWal :: bool
  walCorrupt :: "(nat \<times> nat) list"
  snapshotCorrupt :: "(nat \<times> nat) list"
  lostBytes :: nat
  walScanEnd :: nat
  walDev :: nat
  walIno :: nat

text \<open>One file: scan it and replay its frames.\<close>

definition recover_file ::
  "(dt \<Rightarrow> nat) \<Rightarrow> meta_parser \<Rightarrow> (nat \<Rightarrow> nat \<Rightarrow> int) \<Rightarrow> loc_file \<Rightarrow> corrupt_mode \<Rightarrow> value_mode \<Rightarrow> bytes \<Rightarrow> store \<Rightarrow>
     (js_error + frame_ref parse_result) \<times> store" where
  "recover_file jb parse clk src cmode mode fd st =
     (case scanFrameRefsFd fd cmode 0 of
        Inl e \<Rightarrow> (Inl e, st)
      | Inr r \<Rightarrow>
          (case applyFrames jb parse clk 0 (frames r) src fd mode st of
             (st', Some e) \<Rightarrow> (Inl e, st')
           | (st', None) \<Rightarrow> (Inr r, st')))"

text \<open>
  \<open>recover\<close>: the files of the directory (\<open>None\<close> when absent), the inode of the WAL, and as result
  the report, the store, and the WAL as it is left on disk.
\<close>

definition recover ::
  "(dt \<Rightarrow> nat) \<Rightarrow> meta_parser \<Rightarrow> (loc_file \<Rightarrow> nat \<Rightarrow> nat \<Rightarrow> int) \<Rightarrow> corrupt_mode \<Rightarrow> bool \<Rightarrow> value_mode \<Rightarrow>
     bytes option \<Rightarrow> bytes option \<Rightarrow> nat \<times> nat \<Rightarrow> store \<Rightarrow>
     (js_error + recovery_info) \<times> store \<times> bytes option" where
  "recover jb parse clk cmode trunc mode snap wal inode st =
     (case (case snap of
              None \<Rightarrow> (Inr (0, []), st)
            | Some fd \<Rightarrow>
                (case recover_file jb parse (clk Snapshot) Snapshot cmode mode fd st of
                   (r, st1) \<Rightarrow> (map_result (\<lambda>r. (length (frames r), corruptRanges r)) r, st1))) of
        (Inl e, st1) \<Rightarrow> (Inl e, st1, wal)
      | (Inr (sframes, scorrupt), st1) \<Rightarrow>
          (case wal of
             None \<Rightarrow>
               (Inr \<lparr> snapshotFrames = sframes, walFrames = 0, truncatedWal = False, walCorrupt = [],
                      snapshotCorrupt = scorrupt, lostBytes = sum_list (map (\<lambda>(s, e). e - s) scorrupt),
                      walScanEnd = 0, walDev = 0, walIno = 0 \<rparr>, st1, None)
           | Some fd \<Rightarrow>
               (case recover_file jb parse (clk Wal) Wal cmode mode fd st1 of
                  (Inl e, st2) \<Rightarrow> (Inl e, st2, wal)
                | (Inr r, st2) \<Rightarrow>
                    let torn = (corruptRanges r \<noteq> [] \<and> snd (last (corruptRanges r)) = length fd);
                        cut = (torn \<and> trunc)
                    in (Inr \<lparr> snapshotFrames = sframes, walFrames = length (frames r), truncatedWal = cut,
                              walCorrupt = corruptRanges r, snapshotCorrupt = scorrupt,
                              lostBytes = sum_list (map (\<lambda>(s, e). e - s) (corruptRanges r @ scorrupt)),
                              walScanEnd = eofOffset r, walDev = fst inode, walIno = snd inode \<rparr>,
                        st2, Some (if cut then take (fst (last (corruptRanges r))) fd else fd)))))"

section \<open>Replica catch-up\<close>

fun apply_all :: "(frame_ref \<Rightarrow> bytes \<Rightarrow> 's \<Rightarrow> 's \<times> js_error option) \<Rightarrow> frame_ref list \<Rightarrow> bytes \<Rightarrow> 's \<Rightarrow> 's \<times> js_error option" where
  "apply_all app [] fd s = (s, None)"
| "apply_all app (f # fs) fd s =
     (case app f fd s of (s', Some e) \<Rightarrow> (s', Some e) | (s', None) \<Rightarrow> apply_all app fs fd s')"

text \<open>
  The file at the path with its inode (\<open>None\<close> when it does not exist), and the callback with the
  state it works on.
\<close>

definition catchUpWal ::
  "(bytes \<times> nat \<times> nat) option \<Rightarrow> int \<Rightarrow> nat \<times> nat \<Rightarrow> (frame_ref \<Rightarrow> bytes \<Rightarrow> 's \<Rightarrow> 's \<times> js_error option) \<Rightarrow> 's \<Rightarrow>
     (js_error + (int \<times> nat) option) \<times> 's" where
  "catchUpWal wal offset anchor app s =
     (case wal of
        None \<Rightarrow> (Inr None, s)
      | Some (fd, inode) \<Rightarrow>
          if inode \<noteq> anchor then (Inr None, s)
          else if offset < 0 \<or> offset > int (length fd) then (Inr None, s)
          else case scanFrameRefsFd fd Strict (nat offset) of
            Inl e \<Rightarrow> (Inl e, s)
          | Inr r \<Rightarrow>
              if frames r = [] \<and> eofOffset r < length fd then
                (let n = min (length MAGIC) (length fd - nat offset) in
                 case readAtSync fd (nat offset) n of
                   Inl e \<Rightarrow> (Inl e, s)
                 | Inr head \<Rightarrow> (Inr (if take n MAGIC \<noteq> head then None else Some (offset, 0)), s))
              else (case apply_all app (frames r) fd s of
                      (s', Some e) \<Rightarrow> (Inl e, s')
                    | (s', None) \<Rightarrow> (Inr (Some (int (eofOffset r), length (frames r))), s')))"

section \<open>What the frames of a file mean\<close>

text \<open>The map a log stands for: the last write of each key, whatever the mode of its values.\<close>

record entry_view =
  vvalue :: bytes
  vexpire :: int
  vdt :: "dt option"

datatype log_op = LogSet bytes entry_view | LogDel bytes

definition log_apply :: "log_op \<Rightarrow> (kstr \<Rightarrow> entry_view option) \<Rightarrow> kstr \<Rightarrow> entry_view option" where
  "log_apply a m = (case a of LogSet k v \<Rightarrow> m(toKStr k := Some v) | LogDel k \<Rightarrow> m(toKStr k := None))"

definition set_op :: "meta_parser \<Rightarrow> bytes \<Rightarrow> bytes \<Rightarrow> bytes option \<Rightarrow> int \<Rightarrow> log_op" where
  "set_op parse key val meta e =
     LogSet key \<lparr> vvalue = val, vexpire = e,
                  vdt = (case parseMeta parse meta of Inl _ \<Rightarrow> None | Inr d \<Rightarrow> d) \<rparr>"

definition batch_log :: "meta_parser \<Rightarrow> batch_op list \<Rightarrow> log_op list" where
  "batch_log parse bs = concat (map (\<lambda>b.
     if btype b = TYPE_SET then [set_op parse (bkey b) (or_empty (bvalue b)) (bmeta b) (bexpire b)]
     else if btype b = TYPE_DEL then [LogDel (bkey b)] else []) bs)"

definition frame_log :: "meta_parser \<Rightarrow> frame \<Rightarrow> log_op list" where
  "frame_log parse f =
     (if ftype f = TYPE_SET then [set_op parse (fkey f) (fvalue f) (fmeta f) (fexpire f)]
      else if ftype f = TYPE_DEL then [LogDel (fkey f)]
      else if ftype f = TYPE_BATCH then
        (case decodeBatchOps (fvalue f) of Inl e \<Rightarrow> [] | Inr bs \<Rightarrow> batch_log parse bs)
      else [])"

text \<open>Metadata that parses: what the writer put there.\<close>

definition meta_ok :: "meta_parser \<Rightarrow> bytes option \<Rightarrow> bool" where
  "meta_ok parse meta \<longleftrightarrow> (\<exists>d. parseMeta parse meta = Inr d)"

definition frame_meta_ok :: "meta_parser \<Rightarrow> frame \<Rightarrow> bool" where
  "frame_meta_ok parse f \<longleftrightarrow>
     (ftype f = TYPE_SET \<longrightarrow> meta_ok parse (fmeta f)) \<and>
     (ftype f = TYPE_BATCH \<longrightarrow>
        (\<forall>bs. decodeBatchOps (fvalue f) = Inr bs \<longrightarrow>
           (\<forall>b \<in> set bs. btype b = TYPE_SET \<longrightarrow> meta_ok parse (bmeta b))))"

text \<open>What a reader at time \<open>now\<close> sees of a map, and of a store whose values live in \<open>files\<close>.\<close>

definition visible :: "int \<Rightarrow> (kstr \<Rightarrow> entry_view option) \<Rightarrow> kstr \<Rightarrow> entry_view option" where
  "visible now m k = (case m k of None \<Rightarrow> None
     | Some v \<Rightarrow> if vexpire v = 0 \<or> vexpire v > now then Some v else None)"

definition ref_value :: "(loc_file \<Rightarrow> bytes) \<Rightarrow> value_ref \<Rightarrow> bytes" where
  "ref_value files ref = (case ref of Memory v \<Rightarrow> v
     | Disk loc \<Rightarrow> subarray (files (lfile loc)) (loff loc) (loff loc + llen loc))"

definition rec_view :: "(loc_file \<Rightarrow> bytes) \<Rightarrow> store_rec \<Rightarrow> entry_view" where
  "rec_view files r = \<lparr> vvalue = ref_value files (sref r), vexpire = sexpire r, vdt = sdt r \<rparr>"

definition store_view :: "(loc_file \<Rightarrow> bytes) \<Rightarrow> int \<Rightarrow> store \<Rightarrow> kstr \<Rightarrow> entry_view option" where
  "store_view files now st k = map_option (rec_view files) (live now st k)"

section \<open>Replaying\<close>

lemma readAtSync_ok: "off + len \<le> length fd \<Longrightarrow> readAtSync fd off len = Inr (subarray fd off (off + len))"
  by (simp add: readAtSync_def read_loop_ok)

lemma visible_put:
  "visible now (m(k := Some v)) = (visible now m)(k := if vexpire v = 0 \<or> vexpire v > now then Some v else None)"
  "visible now (m(k := None)) = (visible now m)(k := None)"
  by (auto simp: visible_def)

lemma store_view_setRef:
  "store_view files now (setRef jb k ref e d st) =
     (store_view files now st)(k := if e = 0 \<or> e > now
        then Some \<lparr> vvalue = ref_value files ref, vexpire = e, vdt = d \<rparr> else None)"
  by (rule ext) (simp add: store_view_def live_setRef rec_view_def)

lemma store_view_del: "store_view files now (snd (store_del jb k st)) = (store_view files now st)(k := None)"
  by (rule ext) (simp add: store_view_def store_del_def live_remove)

lemma apply_set:
  assumes r: "setRefToOps parse c src fd mode key off len meta e = Inr a"
    and fd: "files src = fd" "off + len \<le> length fd" and c: "c \<le> now"
    and agree: "store_view files now st = visible now m"
  shows "store_view files now (apply_op jb a st) =
    visible now (log_apply (set_op parse key (subarray fd off (off + len)) meta e) m)"
proof (cases "e \<noteq> 0 \<and> e \<le> c")
  case True
  then have "a = del_op key" using r by (simp add: setRefToOps_def)
  then show ?thesis
    using True c agree
    by (simp add: apply_op_def del_op_def type_defs store_view_del log_apply_def set_op_def visible_put)
next
  case False
  with r obtain d ref where d: "parseMeta parse meta = Inr d"
    and a: "a = \<lparr> optype = TYPE_SET, opkey = key, opref = Some ref, opexpire = e, opdt = d \<rparr>"
    and ref: "(case mode of OnDisk \<Rightarrow> Inr (Disk \<lparr> lfile = src, loff = off, llen = len \<rparr>)
             | InMemory \<Rightarrow> map_result Memory (readAtSync fd off len)) = Inr ref"
    by (auto simp: setRefToOps_def map_sum_def split: sum.splits if_splits)
  have "ref_value files ref = subarray fd off (off + len)"
    using ref fd by (cases mode) (auto simp: ref_value_def readAtSync_ok)
  then show ?thesis
    using agree by (simp add: a d apply_op_def store_view_setRef log_apply_def set_op_def visible_put)
qed

lemma apply_del:
  "store_view files now st = visible now m \<Longrightarrow>
     store_view files now (apply_op jb (del_op key) st) = visible now (log_apply (LogDel key) m)"
  by (simp add: apply_op_def del_op_def type_defs store_view_del log_apply_def visible_put)

lemma setRefToOps_ok:
  "meta_ok parse meta \<Longrightarrow> off + len \<le> length fd \<Longrightarrow>
     \<exists>a. setRefToOps parse c src fd mode key off len meta e = Inr a"
  by (cases mode) (auto simp: setRefToOps_def meta_ok_def readAtSync_ok)

lemma batch_to_ops_view:
  assumes "files src = fd" "\<And>n. clk n \<le> now"
    and "\<forall>r \<in> set rs. rvalueOff r + rvalLen r \<le> length fd \<and> (rtype r = TYPE_SET \<longrightarrow> meta_ok parse (rmeta r))"
    and "store_view files now st = visible now m"
  shows "snd (batch_to_ops parse clk src fd mode n rs) = None \<and>
    store_view files now (fold (apply_op jb) (fst (batch_to_ops parse clk src fd mode n rs)) st) =
      visible now (fold log_apply (batch_log parse (map (load_op fd) rs)) m)"
  using assms(3,4)
proof (induction rs arbitrary: n st m)
  case Nil
  then show ?case by (simp add: batch_log_def)
next
  case (Cons r rs)
  have log: "batch_log parse (map (load_op fd) (r # rs)) =
      (if rtype r = TYPE_SET then [set_op parse (rkey r) (subarray fd (rvalueOff r) (rvalueOff r + rvalLen r)) (rmeta r) (rexpire r)]
       else if rtype r = TYPE_DEL then [LogDel (rkey r)] else []) @ batch_log parse (map (load_op fd) rs)"
    by (simp add: batch_log_def load_op_def or_empty_def)
  have rest: "\<forall>r \<in> set rs. rvalueOff r + rvalLen r \<le> length fd \<and> (rtype r = TYPE_SET \<longrightarrow> meta_ok parse (rmeta r))"
    using Cons.prems(1) by simp
  consider "rtype r = TYPE_SET" | "rtype r \<noteq> TYPE_SET" "rtype r = TYPE_DEL" | "rtype r \<noteq> TYPE_SET" "rtype r \<noteq> TYPE_DEL"
    by blast
  then show ?case
  proof cases
    case 1
    obtain a where a: "setRefToOps parse (clk n) src fd mode (rkey r) (rvalueOff r) (rvalLen r) (rmeta r) (rexpire r) = Inr a"
      using setRefToOps_ok Cons.prems(1) 1 by (metis list.set_intros(1))
    have "store_view files now (apply_op jb a st) =
      visible now (log_apply (set_op parse (rkey r) (subarray fd (rvalueOff r) (rvalueOff r + rvalLen r)) (rmeta r) (rexpire r)) m)"
      by (rule apply_set [OF a assms(1) _ assms(2) Cons.prems(2)]) (use Cons.prems(1) in simp)
    from Cons.IH [OF rest this, of "n + 1"] 1 a show ?thesis
      unfolding log by (cases "batch_to_ops parse clk src fd mode (Suc n) rs") simp
  next
    case 2
    from Cons.IH [OF rest apply_del [OF Cons.prems(2)], of "n + 1"] 2 show ?thesis
      unfolding log by (cases "batch_to_ops parse clk src fd mode (Suc n) rs") simp
  next
    case 3
    from Cons.IH [OF rest Cons.prems(2), of "n + 1"] 3 show ?thesis unfolding log by simp
  qed
qed

lemma scan_batch_bounds:
  "scan_batch_loop body bodyOff off n = Inr refs \<Longrightarrow> r \<in> set refs \<Longrightarrow>
     rvalueOff r + rvalLen r \<le> bodyOff + length body"
proof (induction n arbitrary: off refs)
  case (Suc n)
  then show ?case by (auto simp: Let_def map_sum_def split: if_splits sum.splits)
qed simp

lemma frameToOps_view:
  assumes fls: "files src = fd" and clk: "\<And>n. clk n \<le> now"
    and rd: "readFrameAt fd (frameOff ref) = Some (fr, frameLen ref)"
    and ref: "ref = ref_of (frameOff ref) (fr, frameLen ref)"
    and meta: "frame_meta_ok parse fr" and agree: "store_view files now st = visible now m"
  shows "snd (frameToOps parse clk ref src fd mode) = None \<and>
    store_view files now (fold (apply_op jb) (fst (frameToOps parse clk ref src fd mode)) st) =
      visible now (fold log_apply (frame_log parse fr) m)"
proof -
  have flds: "rftype ref = ftype fr" "rfkey ref = fkey fr" "rfmeta ref = fmeta fr" "rfexpire ref = fexpire fr"
    by (subst ref, simp add: ref_of_def)+
  have val: "subarray fd (valueOff ref) (valueOff ref + valLen ref) = fvalue fr"
    using ref_of_value [OF rd] ref by simp
  have bnd: "valueOff ref + valLen ref \<le> length fd"
    using readFrameAt_SomeD(1,2,4) [OF rd] by (subst (1 2) ref) (simp add: ref_of_def frame_at_def Let_def size_defs length_subarray)
  show ?thesis
  proof (cases "ftype fr = TYPE_SET")
    case True
    obtain a where a: "setRefToOps parse (clk 0) src fd mode (rfkey ref) (valueOff ref) (valLen ref) (rfmeta ref) (rfexpire ref) = Inr a"
      using setRefToOps_ok [OF _ bnd] meta True flds by (metis frame_meta_ok_def)
    from apply_set [OF a fls bnd clk agree] show ?thesis
      using True a by (simp add: frameToOps_def flds frame_log_def val)
  next
    case ns: False
    show ?thesis
    proof (cases "ftype fr = TYPE_DEL")
      case True
      with ns apply_del [OF agree] show ?thesis by (simp add: frameToOps_def flds frame_log_def)
    next
      case nd: False
      show ?thesis
      proof (cases "ftype fr = TYPE_BATCH")
        case False
        with ns nd agree show ?thesis by (simp add: frameToOps_def flds frame_log_def)
      next
        case True
        define pre where "pre = take (valueOff ref) fd"
        define post where "post = drop (valueOff ref + valLen ref) fd"
        have fd: "fd = pre @ fvalue fr @ post" "length pre = valueOff ref"
          using bnd val subarray_split [of 0 "valueOff ref" "length fd" fd]
            subarray_split [of "valueOff ref" "valueOff ref + valLen ref" "length fd" fd]
          by (simp_all add: pre_def post_def) (simp add: subarray_def)
        have body: "readAtSync fd (valueOff ref) (valLen ref) = Inr (fvalue fr)"
          using readAtSync_ok [OF bnd] val by simp
        have dec: "decodeBatchOps (fvalue fr) =
            map_result (map (load_op fd)) (scanBatchOpRefs (fvalue fr) (valueOff ref))"
          using scanBatchOpRefs_load [of pre "fvalue fr" post] fd by simp
        have len: "length (fvalue fr) = valLen ref" by (subst ref) (simp add: ref_of_def)
        show ?thesis
        proof (cases "scanBatchOpRefs (fvalue fr) (valueOff ref)")
          case (Inl e)
          with True ns nd body dec agree show ?thesis by (simp add: frameToOps_def flds frame_log_def)
        next
          case (Inr refs)
          have "rvalueOff r + rvalLen r \<le> length fd" if "r \<in> set refs" for r
            using Inr that scan_batch_bounds [of "fvalue fr" "valueOff ref" 2 "u16_at (fvalue fr) 0" refs r] bnd len
            by (auto simp: scanBatchOpRefs_def split: if_splits)
          moreover have "meta_ok parse (rmeta r)" if "r \<in> set refs" "rtype r = TYPE_SET" for r
            using meta True dec Inr that by (auto simp: frame_meta_ok_def load_op_def)
          ultimately have "\<forall>r \<in> set refs. rvalueOff r + rvalLen r \<le> length fd \<and>
              (rtype r = TYPE_SET \<longrightarrow> meta_ok parse (rmeta r))" by blast
          from batch_to_ops_view [OF fls clk this agree, where mode = mode and n = 0 and jb = jb] Inr True ns nd body dec
          show ?thesis by (simp add: frameToOps_def flds frame_log_def)
        qed
      qed
    qed
  qed
qed

lemma applyFrames_view:
  assumes fls: "files src = fd" and clk: "\<And>n j. clk n j \<le> now"
    and refs: "list_all2 (\<lambda>ref fr. readFrameAt fd (frameOff ref) = Some (fr, frameLen ref) \<and>
       ref = ref_of (frameOff ref) (fr, frameLen ref)) rs frs"
    and meta: "\<forall>fr \<in> set frs. frame_meta_ok parse fr" and agree: "store_view files now st = visible now m"
  shows "snd (applyFrames jb parse clk n rs src fd mode st) = None \<and>
    store_view files now (fst (applyFrames jb parse clk n rs src fd mode st)) =
      visible now (fold log_apply (concat (map (frame_log parse) frs)) m)"
  using refs meta agree
proof (induction rs arbitrary: n st m frs)
  case Nil
  then show ?case by simp
next
  case (Cons r rs)
  then obtain fr frs' where frs: "frs = fr # frs'" by (cases frs) auto
  with Cons.prems(1) have rd: "readFrameAt fd (frameOff r) = Some (fr, frameLen r)"
    "r = ref_of (frameOff r) (fr, frameLen r)" by auto
  have "frame_meta_ok parse fr" using Cons.prems(2) frs by simp
  note v = frameToOps_view [where clk = "clk n", OF fls clk rd this Cons.prems(3), where jb = jb and mode = mode]
  obtain as e where fo: "frameToOps parse (clk n) r src fd mode = (as, e)" by (cases "frameToOps parse (clk n) r src fd mode")
  have rest: "list_all2 (\<lambda>ref fr. readFrameAt fd (frameOff ref) = Some (fr, frameLen ref) \<and>
       ref = ref_of (frameOff ref) (fr, frameLen ref)) rs frs'" "\<forall>fr \<in> set frs'. frame_meta_ok parse fr"
    using Cons.prems(1,2) frs by auto
  from v fo have e: "e = None" and v': "store_view files now (fold (apply_op jb) as st) =
      visible now (fold log_apply (frame_log parse fr) m)" by simp_all
  from Cons.IH [OF rest v', of "n + 1"] show ?case by (simp add: fo e frs)
qed

lemma recover_file_view:
  assumes fls: "files src = fd" and clk: "\<And>n j. clk n j \<le> now"
    and meta: "\<forall>fr \<in> set (frames (parseBuffer fd cmode)). frame_meta_ok parse fr"
    and agree: "store_view files now st = visible now m"
  obtains r st' where "recover_file jb parse clk src cmode mode fd st = (Inr r, st')"
    "length (frames r) = length (frames (parseBuffer fd cmode))"
    "corruptRanges r = corruptRanges (parseBuffer fd cmode)" "eofOffset r = eofOffset (parseBuffer fd cmode)"
    "store_view files now st' =
       visible now (fold log_apply (concat (map (frame_log parse) (frames (parseBuffer fd cmode)))) m)"
proof -
  obtain r where r: "scan_refs_loop fd cmode (length fd) 0 = Inr r" "same_scan fd r (parse_loop fd cmode 0)"
    using scan_refs_loop_parse by blast
  then have sc: "scanFrameRefsFd fd cmode 0 = Inr r" by (simp add: scanFrameRefsFd_def)
  have refs: "list_all2 (\<lambda>ref fr. readFrameAt fd (frameOff ref) = Some (fr, frameLen ref) \<and>
       ref = ref_of (frameOff ref) (fr, frameLen ref)) (frames r) (frames (parseBuffer fd cmode))"
    and same: "corruptRanges r = corruptRanges (parseBuffer fd cmode)" "eofOffset r = eofOffset (parseBuffer fd cmode)"
    using r(2) by (auto simp: same_scan_def parseBuffer_def)
  note v = applyFrames_view [where clk = clk, OF fls clk refs meta agree, where jb = jb and n = 0 and mode = mode]
  obtain st' e where a: "applyFrames jb parse clk 0 (frames r) src fd mode st = (st', e)"
    by (cases "applyFrames jb parse clk 0 (frames r) src fd mode st")
  show thesis
    by (rule that [of r st']) (use v a sc same list_all2_lengthD [OF refs] in \<open>simp_all add: recover_file_def\<close>)
qed

text \<open>The invariant of the store holds after recovery.\<close>

lemma apply_op_ok: "store_ok jb st \<Longrightarrow> store_ok jb (apply_op jb a st)"
  by (simp add: apply_op_def setRef_ok store_del_def remove_ok)

lemma apply_ops_ok: "store_ok jb st \<Longrightarrow> store_ok jb (fold (apply_op jb) as st)"
  by (induction as arbitrary: st) (simp_all add: apply_op_ok)

lemma applyFrames_ok:
  "store_ok jb st \<Longrightarrow> store_ok jb (fst (applyFrames jb parse clk n fs src fd mode st))"
proof (induction fs arbitrary: n st)
  case (Cons f fs)
  then show ?case
    by (cases "frameToOps parse (clk n) f src fd mode") (auto simp: apply_ops_ok split: option.splits)
qed simp

lemma recover_file_ok:
  "store_ok jb st \<Longrightarrow> store_ok jb (snd (recover_file jb parse clk src cmode mode fd st))"
  using applyFrames_ok [of jb st parse clk 0 _ src fd mode]
  by (auto simp: recover_file_def split: sum.splits prod.splits option.splits) (metis fst_conv)+

section \<open>Cutting off a torn tail\<close>

lemma reads_at_take: "reads_at (take s buf) j \<Longrightarrow> reads_at buf j"
proof -
  assume "reads_at (take s buf) j"
  then obtain f n where r: "readFrameAt (take s buf) j = Some (f, n)" by (auto simp: reads_at_def)
  have "j + n \<le> s" using readFrameAt_bounds(1) [OF r] by simp
  then have "subarray (take s buf) j (j + n) = subarray buf j (j + n)" by (rule subarray_take)
  from readFrameAt_local [OF r this] show "reads_at buf j" by (simp add: reads_at_def)
qed

lemma read_in_take:
  assumes "readFrameAt buf p = Some (f, n)" "p + n \<le> s"
  shows "readFrameAt (take s buf) p = Some (f, n)"
  using readFrameAt_local [OF assms(1)] subarray_take [OF assms(2), of buf p] by simp

text \<open>Cut where the corrupt tail starts, a file parses to the same frames and has no bad tail.\<close>

lemma parse_cut:
  "corruptRanges (parse_loop buf c pos) = rs @ [(s, length buf)] \<Longrightarrow> pos \<le> length buf \<Longrightarrow>
     parse_loop (take s buf) c pos = \<lparr> frames = frames (parse_loop buf c pos), corruptRanges = rs, eofOffset = s \<rparr> \<and>
     pos \<le> s \<and> s \<le> length buf \<and> eofOffset (parse_loop buf c pos) = s"
proof (induction pos arbitrary: rs rule: parse_loop_induct [where buf = buf and c = c])
  case (finished pos)
  then show ?case by simp
next
  case (frame pos f n)
  then have IH: "parse_loop (take s buf) c (pos + n) =
      \<lparr> frames = frames (parse_loop buf c (pos + n)), corruptRanges = rs, eofOffset = s \<rparr>"
    "pos + n \<le> s" "s \<le> length buf" "eofOffset (parse_loop buf c (pos + n)) = s" by auto
  have "readFrameAt (take s buf) pos = Some (f, n)" by (rule read_in_take [OF frame.hyps(2) IH(2)])
  then have "parse_loop (take s buf) c pos = add_frame f (parse_loop (take s buf) c (pos + n))"
    using frame.hyps(4) IH(2,3) by (subst parse_loop.simps) auto
  with IH frame.hyps(5) show ?case by simp
next
  case (bad pos)
  then have "rs = []" "s = pos" by auto
  with bad show ?case by (simp add: parse_loop.simps [of "take _ _"])
next
  case (resync pos r)
  from resync.prems(1) resync.hyps(6) have ranges: "(pos, r) # corruptRanges (parse_loop buf c r) = rs @ [(s, length buf)]"
    by simp
  with resync.hyps(2) obtain rs' where rs: "rs = (pos, r) # rs'"
    and ranges': "corruptRanges (parse_loop buf c r) = rs' @ [(s, length buf)]"
    by (cases rs) auto
  from resync.IH [OF ranges'] resync.hyps(2) have
    IH: "parse_loop (take s buf) c r = \<lparr> frames = frames (parse_loop buf c r), corruptRanges = rs', eofOffset = s \<rparr>"
    "r \<le> s" "s \<le> length buf" "eofOffset (parse_loop buf c r) = s" by auto
  have first: "first_at (reads_at buf) (pos + 1) r" using resync.hyps(5) by (simp add: resync_scan_Some)
  then obtain f n where f: "readFrameAt buf r = Some (f, n)" by (auto simp: first_at_def reads_at_def)
  have "parse_loop buf c r = add_frame f (parse_loop buf c (r + n))"
    using f resync.hyps(2) by (subst parse_loop.simps) simp
  with IH(4) have "r + n \<le> s" using parse_eof_start [of "r + n" buf c] by simp
  with f have "reads_at (take s buf) r" using read_in_take by (simp add: reads_at_def)
  then have "first_at (reads_at (take s buf)) (pos + 1) r"
    using first reads_at_take unfolding first_at_def by blast
  then have "resync_scan (take s buf) (pos + 1) = Some r" by (simp add: resync_scan_Some)
  moreover have "pos < s" using resync.hyps(1) IH(2) by simp
  moreover have "\<not> reads_at (take s buf) pos" using reads_at_take resync.hyps(4) by blast
  then have "readFrameAt (take s buf) pos = None" by (simp only: not_reads_at)
  ultimately have "parse_loop (take s buf) c pos = add_range (pos, r) (parse_loop (take s buf) c r)"
    using resync.hyps(3) IH(3) by (subst parse_loop.simps) simp
  with IH rs resync.hyps(1,6) show ?case by simp
qed

text \<open>Corrupt ranges and the end of the file.\<close>

lemma ranges_le: "ranges_from lo rs hi \<Longrightarrow> (a, e) \<in> set rs \<Longrightarrow> e \<le> hi"
  by (induction lo rs hi rule: ranges_from.induct) auto

lemma ranges_last: "ranges_from lo rs hi \<Longrightarrow> (s, hi) \<in> set rs \<Longrightarrow> snd (last rs) = hi"
proof (induction lo rs hi rule: ranges_from.induct)
  case (2 lo a b rs hi)
  show ?case
  proof (cases rs)
    case (Cons p rs')
    then have "fst p < snd p" "b \<le> fst p" "snd p \<le> hi" using "2.prems"(1) by (cases p, auto)+
    then have "b < hi" by simp
    with 2 Cons show ?thesis by auto
  qed (use 2 in auto)
qed simp

lemma ranges_from_append: "ranges_from lo (rs @ [(a, b)]) hi \<Longrightarrow> a < b"
  by (induction lo rs hi rule: ranges_from.induct) auto

lemma parse_tail_open:
  "(a, length buf) \<in> set (corruptRanges (parse_loop buf c pos)) \<Longrightarrow> eofOffset (parse_loop buf c pos) < length buf"
  by (induction pos rule: parse_loop_induct [where buf = buf and c = c]) auto

section \<open>The whole recovery\<close>

abbreviation file_log :: "meta_parser \<Rightarrow> corrupt_mode \<Rightarrow> bytes option \<Rightarrow> log_op list" where
  "file_log parse c fd \<equiv>
     (case fd of None \<Rightarrow> [] | Some b \<Rightarrow> concat (map (frame_log parse) (frames (parseBuffer b c))))"

abbreviation file_meta_ok :: "meta_parser \<Rightarrow> corrupt_mode \<Rightarrow> bytes option \<Rightarrow> bool" where
  "file_meta_ok parse c fd \<equiv>
     (\<forall>b. fd = Some b \<longrightarrow> (\<forall>fr \<in> set (frames (parseBuffer b c)). frame_meta_ok parse fr))"

lemma recovery_view:
  assumes "file_meta_ok parse cmode snap" "file_meta_ok parse cmode wal"
    and "\<forall>f n j. clk f n j \<le> now"
    and "files Snapshot = (case snap of None \<Rightarrow> [] | Some b \<Rightarrow> b)" "files Wal = (case wal of None \<Rightarrow> [] | Some b \<Rightarrow> b)"
  shows "\<exists>info st wal'. recover jb parse clk cmode trunc mode snap wal inode (new_store p b) = (Inr info, st, wal') \<and>
    store_ok jb st \<and>
    store_view files now st =
      visible now (fold log_apply (file_log parse cmode snap @ file_log parse cmode wal) (\<lambda>k. None)) \<and>
    snapshotFrames info = (case snap of None \<Rightarrow> 0 | Some b \<Rightarrow> length (frames (parseBuffer b cmode))) \<and>
    walFrames info = (case wal of None \<Rightarrow> 0 | Some b \<Rightarrow> length (frames (parseBuffer b cmode)))"
proof -
  define st0 where "st0 = new_store p b"
  have ok0: "store_ok jb st0" by (simp add: st0_def)
  have v0: "store_view files now st0 = visible now (\<lambda>k. None)"
    by (rule ext) (simp add: st0_def new_store_def store_view_def live_def visible_def)
  have one: "\<exists>r st'. recover_file jb parse (clk f) f cmode mode fd st = (Inr r, st') \<and> store_ok jb st' \<and>
      store_view files now st' = visible now (fold log_apply (file_log parse cmode (Some fd)) m) \<and>
      length (frames r) = length (frames (parseBuffer fd cmode))"
    if fls: "files f = fd" and metas: "file_meta_ok parse cmode (Some fd)" and okst: "store_ok jb st"
      and agr: "store_view files now st = visible now m" for f fd st m
  proof -
    have meta: "\<forall>fr \<in> set (frames (parseBuffer fd cmode)). frame_meta_ok parse fr" using metas by simp
    have c: "\<And>n j. clk f n j \<le> now" using assms(3) by blast
    obtain r st' where r: "recover_file jb parse (clk f) f cmode mode fd st = (Inr r, st')"
      "length (frames r) = length (frames (parseBuffer fd cmode))"
      "store_view files now st' = visible now (fold log_apply (concat (map (frame_log parse) (frames (parseBuffer fd cmode)))) m)"
      by (rule recover_file_view [where clk = "clk f" and mode = mode and jb = jb, OF fls c meta agr])
    moreover have "store_ok jb st'" using recover_file_ok [OF okst, of parse "clk f" f cmode mode fd] r(1) by simp
    ultimately show ?thesis by simp
  qed
  obtain r1 st1 where s1: "(case snap of
              None \<Rightarrow> (Inr (0, []), st0)
            | Some fd \<Rightarrow>
                (case recover_file jb parse (clk Snapshot) Snapshot cmode mode fd st0 of
                   (r, st1) \<Rightarrow> (map_result (\<lambda>r. (length (frames r), corruptRanges r)) r, st1)))
       = (Inr r1, st1)"
    and ok1: "store_ok jb st1"
    and v1: "store_view files now st1 = visible now (fold log_apply (file_log parse cmode snap) (\<lambda>k. None))"
    and n1: "fst r1 = (case snap of None \<Rightarrow> 0 | Some b \<Rightarrow> length (frames (parseBuffer b cmode)))"
  proof (cases snap)
    case None
    with that ok0 v0 show thesis by simp
  next
    case (Some fd)
    with one [of Snapshot fd st0 "\<lambda>k. None"] assms(1,4) ok0 v0 that show thesis by fastforce
  qed
  obtain n c where r1: "r1 = (n, c)" by (cases r1)
  show ?thesis
  proof (cases wal)
    case None
    with s1 ok1 v1 n1 show ?thesis by (simp add: recover_def st0_def [symmetric] r1)
  next
    case (Some fd)
    with one [of Wal fd st1, OF _ _ ok1 v1] assms(2,5) obtain r2 st2 where
      "recover_file jb parse (clk Wal) Wal cmode mode fd st1 = (Inr r2, st2)" "store_ok jb st2"
      "store_view files now st2 = visible now (fold log_apply (file_log parse cmode (Some fd))
         (fold log_apply (file_log parse cmode snap) (\<lambda>k. None)))"
      "length (frames r2) = length (frames (parseBuffer fd cmode))" by auto
    with s1 n1 Some show ?thesis by (simp add: recover_def st0_def [symmetric] r1 Let_def)
  qed
qed

text \<open>Recovery never fails on files whose metadata parses.\<close>

lemma recovery_total:
  assumes "file_meta_ok parse cmode snap" "file_meta_ok parse cmode wal" "\<forall>f n j. clk f n j \<le> now"
  shows "\<exists>info st wal'. recover jb parse clk cmode trunc mode snap wal inode (new_store p b) = (Inr info, st, wal')"
  using recovery_view [OF assms, where files = "\<lambda>f. case (case f of Snapshot \<Rightarrow> snap | Wal \<Rightarrow> wal) of None \<Rightarrow> [] | Some b \<Rightarrow> b",
      of jb trunc mode inode p b] by auto

section \<open>Properties\<close>

text \<open>C2: Recovery is replay, last writer wins. On any snapshot and any WAL, damaged in any way, whose
  intact frames have metadata that parses, recovery into an empty store does not fail, keeps the
  invariant of the store, and at any later time the store shows exactly the map that the operations
  of the snapshot's frames and then of the WAL's frames build, in order: a batch counts whole or not
  at all, a later write or delete replaces an earlier one, and a record that had expired when it was
  replayed hides what older frames said of its key. Values in memory and values left on disk give
  the same view, and the report counts the frames.\<close>

theorem recovery_replays_log:
  assumes "file_meta_ok parse cmode snap" "file_meta_ok parse cmode wal"
    and "\<forall>f n j. clk f n j \<le> now"
    and "files Snapshot = (case snap of None \<Rightarrow> [] | Some b \<Rightarrow> b)" "files Wal = (case wal of None \<Rightarrow> [] | Some b \<Rightarrow> b)"
  shows "\<exists>info st wal'. recover jb parse clk cmode trunc mode snap wal inode (new_store p b) = (Inr info, st, wal') \<and>
    store_ok jb st \<and>
    store_view files now st =
      visible now (fold log_apply (file_log parse cmode snap @ file_log parse cmode wal) (\<lambda>k. None)) \<and>
    snapshotFrames info = (case snap of None \<Rightarrow> 0 | Some b \<Rightarrow> length (frames (parseBuffer b cmode))) \<and>
    walFrames info = (case wal of None \<Rightarrow> 0 | Some b \<Rightarrow> length (frames (parseBuffer b cmode)))"
  using assms by (rule recovery_view)

text \<open>A parser instance for the witnesses, and a one-record log.\<close>

lemma sample_parse:
  "parseBuffer (stream [sample_input 1]) c =
     \<lparr> frames = [input_frame (sample_input 1)], corruptRanges = [], eofOffset = length (stream [sample_input 1]) \<rparr>"
  using parse_stream [of "[sample_input 1]" c] by (simp add: sample_input_fits)

lemma sample_meta_ok: "file_meta_ok (\<lambda>b. Inr None) c (Some (stream [sample_input 1]))"
proof (intro allI impI ballI)
  fix b fr assume "Some (stream [sample_input 1]) = Some b" "fr \<in> set (frames (parseBuffer b c))"
  then have "fr = input_frame (sample_input 1)" using sample_parse [of c] by auto
  then show "frame_meta_ok (\<lambda>b. Inr None) fr"
    by (simp add: frame_meta_ok_def meta_ok_def parseMeta_def input_frame_def
        frame_read_def sample_input_def meta_or_null_def or_empty_def type_defs)
qed

theorem recovery_replays_log_witness:
  "\<exists>info st wal'. recover (\<lambda>d. 0) (\<lambda>b. Inr None) (\<lambda>f n j. 5) Resync True InMemory None
      (Some (stream [sample_input 1])) (3, 4) (new_store 10 10) = (Inr info, st, wal') \<and> walFrames info = 1"
  using recovery_replays_log [OF _ sample_meta_ok, where snap = None and clk = "\<lambda>f n j. 5" and now = 9 and
      files = "\<lambda>f. case f of Snapshot \<Rightarrow> [] | Wal \<Rightarrow> stream [sample_input 1]" and cmode = Resync and
      jb = "\<lambda>d. 0" and trunc = True and mode = InMemory and inode = "(3, 4)" and p = 10 and b = 10]
    sample_parse [of Resync]
  by fastforce

text \<open>A torn tail is cut once. When recovery may truncate and the WAL ends in a corrupt range, the
  file is left shorter, parses to the same frames and no longer has a corrupt range at its end, so
  recovering again replays the same log and truncates nothing; when it may not (a read-only
  opener), or the tail is intact, the file is left as it was.\<close>

theorem recovery_truncates_once:
  assumes "recover jb parse clk cmode trunc mode snap (Some fd) inode st = (Inr info, st', wal')"
  shows "\<exists>fd'. wal' = Some fd' \<and> frames (parseBuffer fd' cmode) = frames (parseBuffer fd cmode) \<and>
    (truncatedWal info \<longrightarrow> trunc \<and> length fd' < length fd \<and>
       (\<forall>s e. (s, e) \<in> set (corruptRanges (parseBuffer fd' cmode)) \<longrightarrow> e < length fd')) \<and>
    (\<not> truncatedWal info \<longrightarrow> fd' = fd) \<and>
    (trunc \<and> (\<exists>s. (s, length fd) \<in> set (corruptRanges (parseBuffer fd cmode))) \<longrightarrow> truncatedWal info)"
proof -
  have "\<exists>r st1. recover_file jb parse (clk Wal) Wal cmode mode fd st1 = (Inr r, st') \<and>
    truncatedWal info = ((corruptRanges r \<noteq> [] \<and> snd (last (corruptRanges r)) = length fd) \<and> trunc) \<and>
    wal' = Some (if truncatedWal info then take (fst (last (corruptRanges r))) fd else fd)"
    using assms by (auto simp: recover_def Let_def split: sum.splits prod.splits option.splits)
  then obtain r st1 where r: "recover_file jb parse (clk Wal) Wal cmode mode fd st1 = (Inr r, st')"
    and cut: "truncatedWal info \<longleftrightarrow> (corruptRanges r \<noteq> [] \<and> snd (last (corruptRanges r)) = length fd) \<and> trunc"
    and wal': "wal' = Some (if truncatedWal info then take (fst (last (corruptRanges r))) fd else fd)"
    by blast
  have ranges: "corruptRanges r = corruptRanges (parseBuffer fd cmode)"
  proof -
    obtain r0 where "scanFrameRefsFd fd cmode 0 = Inr r0" "corruptRanges r0 = corruptRanges (parseBuffer fd cmode)"
      using scan_refs_loop_parse [of fd cmode 0] by (auto simp: scanFrameRefsFd_def same_scan_def parseBuffer_def)
    with r show ?thesis by (auto simp: recover_file_def split: prod.splits option.splits)
  qed
  let ?rs = "corruptRanges (parseBuffer fd cmode)"
  have inc: "ranges_from 0 ?rs (length fd)" unfolding parseBuffer_def by (rule parse_ranges)
  have last: "(s, length fd) \<in> set ?rs \<Longrightarrow> snd (last ?rs) = length fd" for s
    using ranges_last [OF inc] by blast
  show ?thesis
  proof (cases "truncatedWal info")
    case True
    then obtain s where "last ?rs = (s, length fd)" "?rs \<noteq> []"
      using cut ranges by (cases "last ?rs") auto
    define rs0 where "rs0 = butlast ?rs"
    have split: "corruptRanges (parse_loop fd cmode 0) = rs0 @ [(s, length fd)]"
      using \<open>last ?rs = (s, length fd)\<close> \<open>?rs \<noteq> []\<close> unfolding rs0_def parseBuffer_def
      by (metis append_butlast_last_id)
    from parse_cut [OF split] have p: "parseBuffer (take s fd) cmode =
        \<lparr> frames = frames (parseBuffer fd cmode), corruptRanges = rs0, eofOffset = s \<rparr>" "s \<le> length fd"
      by (simp_all add: parseBuffer_def)
    have len: "length (take s fd) = s" using p(2) by simp
    have strict: "e < s" if m: "(a, e) \<in> set (corruptRanges (parseBuffer (take s fd) cmode))" for a e
    proof -
      have "ranges_from 0 (corruptRanges (parseBuffer (take s fd) cmode)) s"
        using parse_ranges [of 0 "take s fd" cmode] len by (simp add: parseBuffer_def)
      then have "e \<le> s" using m by (rule ranges_le)
      moreover have "e \<noteq> s"
        using parse_tail_open [of a "take s fd" cmode 0] m p len by (auto simp: parseBuffer_def)
      ultimately show ?thesis by simp
    qed
    have "ranges_from 0 (rs0 @ [(s, length fd)]) (length fd)"
      using inc unfolding parseBuffer_def split .
    then have "s < length fd" by (rule ranges_from_append)
    then have short: "length (take s fd) < length fd" unfolding len .
    have w: "wal' = Some (take s fd)" using wal' True ranges \<open>last ?rs = (s, length fd)\<close> by simp
    have tr: "trunc" using cut True by blast
    have fr: "frames (parseBuffer (take s fd) cmode) = frames (parseBuffer fd cmode)" unfolding p(1) by simp
    have in': "\<forall>a e. (a, e) \<in> set (corruptRanges (parseBuffer (take s fd) cmode)) \<longrightarrow> e < length (take s fd)"
      unfolding len using strict by blast
    show ?thesis using w fr tr short in' True by blast
  next
    case False
    have w: "wal' = Some fd" using wal' False by simp
    have "\<not> (trunc \<and> (\<exists>s. (s, length fd) \<in> set ?rs))"
    proof
      assume a: "trunc \<and> (\<exists>s. (s, length fd) \<in> set ?rs)"
      then have "?rs \<noteq> []" by auto
      with a last cut ranges False show False by metis
    qed
    with w False show ?thesis by blast
  qed
qed

theorem recovery_truncates_once_witness:
  "\<exists>info st wal'. recover (\<lambda>d. 0) (\<lambda>b. Inr None) (\<lambda>f n j. 5) Resync True InMemory None
      (Some [0]) (3, 4) (new_store 10 10) = (Inr info, st, Some wal') \<and> truncatedWal info \<and> length wal' < 1"
proof -
  have bad: "readFrameAt [0] j = None" for j
    using readFrameAt_bounds [of "[0]" j] by (cases "readFrameAt [0] j") (auto simp: size_defs)
  have p: "parseBuffer [0] Resync = \<lparr> frames = [], corruptRanges = [(0, 1)], eofOffset = 0 \<rparr>"
    using parse_loop_bad_tail [of 0 "[0]" Resync] by (simp add: parseBuffer_def reads_at_def bad)
  obtain info st wal' where r: "recover (\<lambda>d. 0) (\<lambda>b. Inr None) (\<lambda>f n j. 5) Resync True InMemory None
      (Some [0]) (3, 4) (new_store 10 10) = (Inr info, st, wal')"
    using recovery_total [of None Resync "\<lambda>b. Inr None" "Some [0]" "\<lambda>f n j. 5" 9 "\<lambda>d. 0" True InMemory "(3, 4)" 10 10]
    by (auto simp: p)
  from recovery_truncates_once [OF r] show ?thesis unfolding r by (auto simp: p)
qed

text \<open>Replica catch-up is exact. A log of whole records is read while its writer is in the middle of
  appending (only its first \<open>n\<close> bytes are there yet). From a watermark at a record boundary, on the
  same inode, catch-up hands the callback each record that has become whole behind the watermark,
  once and in order, skips and fails on nothing, and returns the boundary behind the last of them
  as the next watermark; a torn record at the end is left for the next call.\<close>

theorem catch_up_exact:
  assumes "list_all input_fits (pre @ js)" "length (stream pre) \<le> n"
  defines "fd \<equiv> take n (stream (pre @ js))" and "new \<equiv> whole_frames (n - length (stream pre)) js"
  shows "\<exists>refs. list_all2 (\<lambda>ref i. rftype ref = itype i \<and> rfkey ref = ikey i \<and>
        rfexpire ref = fexpire (input_frame i) \<and> rfmeta ref = fmeta (input_frame i) \<and>
        subarray fd (valueOff ref) (valueOff ref + valLen ref) = fvalue (input_frame i)) refs new \<and>
    catchUpWal (Some (fd, inode)) (int (length (stream pre))) inode app s =
      (case apply_all app refs fd s of
         (s', Some e) \<Rightarrow> (Inl e, s')
       | (s', None) \<Rightarrow> (Inr (Some (int (length (stream (pre @ new))), length new)), s'))"
proof -
  define tail where "tail = drop (length (stream new)) (take (n - length (stream pre)) (stream js))"
  have fits: "list_all input_fits new" using assms(1) whole_frames_fits by (auto simp: new_def)
  obtain t where t: "take (n - length (stream pre)) (stream js) = stream new @ t"
      "t = [] \<or> (\<exists>i \<in> set js. \<exists>m < length (input_bytes i). t = take m (input_bytes i))"
    using take_stream_split unfolding new_def by blast
  have fd: "fd = stream pre @ stream new @ t" using t(1) assms(2) by (simp add: fd_def)
  have bad: "\<not> reads_at t 0" if "t \<noteq> []" using t(2) that assms(1) by (auto simp: list_all_iff cut_frame_not_read)
  let ?o = "length (stream pre)"
  let ?e = "length (stream pre) + length (stream new)"
  have end': "parse_loop fd Strict ?e = stop_at (if t = [] then [] else [(?e, length fd)]) ?e"
  proof (cases "t = []")
    case True
    then show ?thesis using parse_loop_end [of fd Strict] by (simp add: fd)
  next
    case False
    have "\<not> reads_at fd ?e" using bad [OF False] readFrameAt_drop [of fd ?e] by (simp add: reads_at_def fd)
    with False show ?thesis by (simp add: parse_loop_strict_bad fd)
  qed
  have parse: "parse_loop fd Strict ?o = \<lparr> frames = map input_frame new,
      corruptRanges = (if t = [] then [] else [(?e, length fd)]), eofOffset = ?e \<rparr>"
    using parse_loop_stream [OF fits, of "stream pre" t Strict] end' by (simp add: fd)
  obtain r where r: "scan_refs_loop fd Strict (length fd) ?o = Inr r" "same_scan fd r (parse_loop fd Strict ?o)"
    using scan_refs_loop_parse by blast
  have eof: "eofOffset r = ?e" using r(2) by (simp add: same_scan_def parse)
  have refs: "list_all2 (\<lambda>ref fr. readFrameAt fd (frameOff ref) = Some (fr, frameLen ref) \<and>
       ref = ref_of (frameOff ref) (fr, frameLen ref)) (frames r) (map input_frame new)"
    using r(2) by (simp add: same_scan_def parse)
  have "list_all2 (\<lambda>ref i. rftype ref = itype i \<and> rfkey ref = ikey i \<and>
        rfexpire ref = fexpire (input_frame i) \<and> rfmeta ref = fmeta (input_frame i) \<and>
        subarray fd (valueOff ref) (valueOff ref + valLen ref) = fvalue (input_frame i)) (frames r) new"
    using refs unfolding list_all2_map2
  proof (rule list_all2_mono)
    fix ref i assume f: "readFrameAt fd (frameOff ref) = Some (input_frame i, frameLen ref) \<and>
       ref = ref_of (frameOff ref) (input_frame i, frameLen ref)"
    then have ref: "ref_of (frameOff ref) (input_frame i, frameLen ref) = ref" by simp
    note v = ref_of_value [OF conjunct1 [OF f], unfolded ref]
    show "rftype ref = itype i \<and> rfkey ref = ikey i \<and> rfexpire ref = fexpire (input_frame i) \<and>
        rfmeta ref = fmeta (input_frame i) \<and> subarray fd (valueOff ref) (valueOff ref + valLen ref) = fvalue (input_frame i)"
      using arg_cong [OF ref, of rftype] arg_cong [OF ref, of rfkey] arg_cong [OF ref, of rfmeta]
        arg_cong [OF ref, of rfexpire] v by (simp add: ref_of_def input_frame_def frame_read_def)
  qed
  moreover have "catchUpWal (Some (fd, inode)) (int ?o) inode app s =
      (case apply_all app (frames r) fd s of
         (s', Some e) \<Rightarrow> (Inl e, s')
       | (s', None) \<Rightarrow> (Inr (Some (int (length (stream (pre @ new))), length new)), s'))"
  proof (cases "frames r = [] \<and> eofOffset r < length fd")
    case False
    have "length (frames r) = length new" using list_all2_lengthD [OF refs] by simp
    moreover have "?o \<le> length fd" by (simp add: fd)
    moreover have "eofOffset r = length (stream (pre @ new))" by (simp add: eof)
    ultimately show ?thesis
      unfolding catchUpWal_def scanFrameRefsFd_def using False by (auto simp: r(1) simp del: stream_simps)
  next
    case True
    then have new: "new = []" and tne: "t \<noteq> []" using list_all2_lengthD [OF refs] eof by (auto simp: fd)
    then obtain i m where i: "i \<in> set js" "m < length (input_bytes i)" "t = take m (input_bytes i)" using t(2) by auto
    have len: "length fd = ?o + m" using i new by (simp add: fd)
    have mg: "take 2 (input_bytes i) = MAGIC" by (simp add: input_bytes_def frame_bytes_def Let_def)
    have "readAtSync fd ?o (min (length MAGIC) m) = Inr (subarray fd ?o (?o + min 2 m))"
      using readAtSync_ok [of ?o "min 2 m" fd] len by simp
    moreover have "subarray fd ?o (?o + min 2 m) = take (min 2 m) MAGIC"
      unfolding mg [symmetric] using i new by (simp add: fd subarray_def min_def)
    ultimately show ?thesis
      using True r(1) eof len new by (simp add: catchUpWal_def scanFrameRefsFd_def)
  qed
  ultimately show ?thesis by blast
qed

theorem catch_up_exact_witness:
  "\<exists>refs. length refs = 1 \<and>
     catchUpWal (Some (take 90 (stream [sample_input 1]), (3, 4))) 0 (3, 4) (\<lambda>f fd n. (n + 1, None)) (0::nat) =
      (case apply_all (\<lambda>f fd n. (n + 1, None)) refs (take 90 (stream [sample_input 1])) 0 of
         (s', Some e) \<Rightarrow> (Inl e, s')
       | (s', None) \<Rightarrow> (Inr (Some (int (length (stream [sample_input 1])), 1)), s'))"
proof -
  have len: "length (stream [sample_input 1]) \<le> 90"
    by (simp add: sample_input_def input_bytes_def length_frame_bytes size_defs or_empty_def)
  then have w: "whole_frames 90 [sample_input 1] = [sample_input 1]" by (rule whole_frames_all)
  have pre: "length (stream []) \<le> (90::nat)" "length (stream []) = (0::nat)" by simp_all
  have fits: "list_all input_fits ([] @ [sample_input 1])" by (simp add: sample_input_fits)
  note main = catch_up_exact [of "[]" "[sample_input 1]" 90 "(3, 4)" "\<lambda>f fd n. (n + 1, None)" 0, OF fits pre(1)]
  from main obtain refs where r: "list_all2 (\<lambda>ref i. rftype ref = itype i \<and> rfkey ref = ikey i \<and>
        rfexpire ref = fexpire (input_frame i) \<and> rfmeta ref = fmeta (input_frame i) \<and>
        subarray (take 90 (stream ([] @ [sample_input 1]))) (valueOff ref) (valueOff ref + valLen ref)
          = fvalue (input_frame i)) refs (whole_frames (90 - length (stream [])) [sample_input 1])"
      "catchUpWal (Some (take 90 (stream ([] @ [sample_input 1])), (3, 4))) (int (length (stream []))) (3, 4)
         (\<lambda>f fd n. (n + 1, None)) (0::nat) =
      (case apply_all (\<lambda>f fd n. (n + 1, None)) refs (take 90 (stream ([] @ [sample_input 1]))) 0 of
         (s', Some e) \<Rightarrow> (Inl e, s')
       | (s', None) \<Rightarrow> (Inr (Some (int (length (stream ([] @ whole_frames (90 - length (stream [])) [sample_input 1]))),
            length (whole_frames (90 - length (stream [])) [sample_input 1]))), s'))"
    by blast
  have n: "length refs = 1" using list_all2_lengthD [OF r(1)] unfolding pre(2) diff_zero w by simp
  have one: "length [sample_input 1] = 1" by simp
  show ?thesis
    by (rule exI [of _ refs], rule conjI [OF n])
      (rule r(2) [unfolded pre(2) diff_zero w append_Nil one semiring_1_class.of_nat_0])
qed

end
