(* ===== verification/Wal.thy ===== *)
theory Wal
  imports Prelude
begin

text \<open>
  The write-ahead log of \<open>packages/minidb/src/wal.ts\<close> with its file: appends are queued, one
  batch at a time is handed to \<open>writev\<close>, short writes are retried, and under the policy
  \<open>always\<close> the batch is fsynced before its appends resolve. What the code awaits is a step of its
  own, so appends fall between a \<open>writev\<close> and its answer as they do in the event loop. Proved:
  the offset an append returns is where its frame ends up, a resolved append is in the file (and
  under \<open>always\<close> in its fsynced part), and a flush ends once the writes make progress.
\<close>

section \<open>State\<close>

datatype fsync_policy = Always | Everysec | No

text \<open>
  A batch on its way: the appends it settles, the buffers still to write, the bytes of the first
  one already written, and whether the fsync at its end has been asked for.
\<close>

record flight =
  f_batch :: "(nat \<times> bytes) list"
  f_bufs :: "bytes list"
  f_off :: nat
  f_syncing :: bool

text \<open>
  The fields of the class; \<open>flight\<close> is \<open>flushing\<close> and \<open>inflight\<close>. Promises are numbered and
  \<open>settled\<close> lists how they ended. \<open>disk\<close> is the file at the path and \<open>synced\<close> the part of it
  that the last fsync made durable.
\<close>

record wal =
  policy :: fsync_policy
  handle :: bool
  wsize :: nat
  nextOffset :: nat
  queue :: "(nat \<times> bytes) list"
  queuedBytes :: nat
  flight :: "flight option"
  scheduled :: bool
  is_sealed :: bool
  timer :: bool
  is_closed :: bool
  bytesWritten :: nat
  fsyncs :: nat
  disk :: bytes
  synced :: nat
  settled :: "(nat \<times> js_error option) list"
  next_id :: nat

definition parse_policy :: "string \<Rightarrow> js_error + fsync_policy" where
  "parse_policy p =
     (if p = ''always'' then Inr Always else if p = ''everysec'' then Inr Everysec
      else if p = ''no'' then Inr No else Inl (RangeError (''unknown fsyncPolicy: '' @ p)))"

definition new_wal :: "string option \<Rightarrow> bytes \<Rightarrow> js_error + wal" where
  "new_wal p contents =
     map_result (\<lambda>pol. \<lparr> policy = pol, handle = False, wsize = 0, nextOffset = 0, queue = [],
         queuedBytes = 0, flight = None, scheduled = False, is_sealed = False, timer = False,
         is_closed = False, bytesWritten = 0, fsyncs = 0, disk = contents,
         synced = length contents, settled = [], next_id = 0 \<rparr>)
       (parse_policy (case p of None \<Rightarrow> ''everysec'' | Some s \<Rightarrow> s))"

definition wal_open :: "wal \<Rightarrow> wal" where
  "wal_open w =
     (if handle w then w
      else w\<lparr> handle := True, wsize := length (disk w), nextOffset := length (disk w),
             timer := (policy w = Everysec) \<or> timer w \<rparr>)"

section \<open>Appending\<close>

definition seal :: "wal \<Rightarrow> wal" where
  "seal w = w\<lparr> is_sealed := True \<rparr>"

text \<open>The offset with the number of the promise, or the error it is rejected with at once.\<close>

definition appendLoc :: "bytes \<Rightarrow> wal \<Rightarrow> (int \<times> (js_error + nat)) \<times> wal" where
  "appendLoc f w =
     (if is_closed w then ((- 1, Inl (Error ''WAL is closed'')), w)
      else if is_sealed w then ((- 1, Inl WalSealed), w)
      else ((int (nextOffset w), Inr (next_id w)),
            w\<lparr> nextOffset := nextOffset w + length f,
               queue := queue w @ [(next_id w, f)], queuedBytes := queuedBytes w + length f,
               scheduled := (flight w = None \<or> scheduled w), next_id := next_id w + 1 \<rparr>))"

definition append_frame :: "bytes \<Rightarrow> wal \<Rightarrow> (js_error + nat) \<times> wal" where
  "append_frame f w = (case appendLoc f w of ((off, p), w') \<Rightarrow> (p, w'))"

section \<open>Flushing\<close>

text \<open>The end of \<open>run\<close>: resolve or reject the batch, and schedule the next one.\<close>

definition settle :: "flight \<Rightarrow> js_error option \<Rightarrow> wal \<Rightarrow> wal" where
  "settle f r w =
     w\<lparr> settled := settled w @ map (\<lambda>(i, b). (i, r)) (f_batch f), flight := None,
        scheduled := (scheduled w \<or> queue w \<noteq> [] \<and> \<not> is_closed w) \<rparr>"

definition flushBatch :: "wal \<Rightarrow> wal" where
  "flushBatch w =
     (let w0 = w\<lparr> scheduled := False \<rparr> in
      if flight w0 \<noteq> None \<or> queue w0 = [] then w0
      else let f = \<lparr> f_batch = queue w0, f_bufs = map snd (queue w0), f_off = 0, f_syncing = False \<rparr>;
               w1 = w0\<lparr> queue := [], queuedBytes := 0, flight := Some f \<rparr> in
           if handle w1 then w1
           else settle f (Some (TypeError ''Cannot read properties of null'')) w1)"

definition toWrite :: "flight \<Rightarrow> bytes list" where
  "toWrite f = (case f_bufs f of [] \<Rightarrow> [] | b # bs \<Rightarrow> (if f_off f > 0 then drop (f_off f) b else b) # bs)"

fun consume :: "nat \<Rightarrow> bytes list \<Rightarrow> nat \<Rightarrow> bytes list \<times> nat" where
  "consume remaining [] off = ([], off)"
| "consume remaining (b # bs) off =
     (if remaining = 0 then (b # bs, off)
      else if remaining < length b - off then (b # bs, off + remaining)
      else consume (remaining - (length b - off)) bs 0)"

definition sync :: "wal \<Rightarrow> wal" where
  "sync w = (if handle w then w\<lparr> synced := length (disk w), fsyncs := fsyncs w + 1 \<rparr> else w)"

text \<open>
  What the system call the batch waits for answers: the bytes written or an error when it is a
  \<open>writev\<close>, success or an error when it is the fsync.
\<close>

datatype reply = Reply (wrote: "js_error + nat") (fsynced: "js_error option")

definition after_write :: "flight \<Rightarrow> nat \<Rightarrow> wal \<Rightarrow> wal" where
  "after_write f n w =
     (let w1 = w\<lparr> disk := disk w @ take n (concat (toWrite f)), wsize := wsize w + n,
                  bytesWritten := bytesWritten w + n \<rparr>;
          bo = consume n (f_bufs f) (f_off f);
          f1 = f\<lparr> f_bufs := fst bo, f_off := snd bo \<rparr> in
      if f_bufs f1 \<noteq> [] then w1\<lparr> flight := Some f1 \<rparr>
      else if policy w1 = Always then w1\<lparr> flight := Some (f1\<lparr> f_syncing := True \<rparr>) \<rparr>
      else settle f1 None w1)"

definition wal_reply :: "reply \<Rightarrow> wal \<Rightarrow> wal" where
  "wal_reply a w =
     (case flight w of
        None \<Rightarrow> w
      | Some f \<Rightarrow>
          if f_syncing f then
            (case fsynced a of None \<Rightarrow> settle f None (sync w) | Some e \<Rightarrow> settle f (Some e) w)
          else
            (case wrote a of
               Inl e \<Rightarrow> settle f (Some e) w
             | Inr n \<Rightarrow>
                 if min n (length (concat (toWrite f))) = 0
                 then settle f (Some (Error ''WAL writev made no progress (short write)'')) w
                 else after_write f (min n (length (concat (toWrite f)))) w))"

definition refreshSize :: "wal \<Rightarrow> wal" where
  "refreshSize w =
     (if handle w then w\<lparr> wsize := length (disk w), nextOffset := length (disk w) \<rparr> else w)"

lemma flushBatch_queue [simp]: "flight w = None \<Longrightarrow> queue (flushBatch w) = []"
  by (simp add: flushBatch_def settle_def Let_def)

text \<open>\<open>flush\<close> waits for the batch under way and starts the next until nothing is queued.\<close>

function flush :: "reply list \<Rightarrow> wal \<Rightarrow> wal" where
  "flush as w =
     (if flight w \<noteq> None then (case as of [] \<Rightarrow> w | a # as' \<Rightarrow> flush as' (wal_reply a w))
      else if queue w \<noteq> [] then flush as (flushBatch w)
      else w)"
  by auto

termination
  by (relation "measures [\<lambda>(as, w). length as, \<lambda>(as, w). length (queue w)]") auto

declare flush.simps [simp del]

definition close_begin :: "wal \<Rightarrow> wal" where
  "close_begin w = (if is_closed w then w else w\<lparr> is_closed := True, timer := False \<rparr>)"

text \<open>After the flush: fsync (it may fail, the handle is released all the same).\<close>

definition close_end :: "js_error option \<Rightarrow> wal \<Rightarrow> js_error option \<times> wal" where
  "close_end e w =
     (if handle w then (case e of None \<Rightarrow> (None, (sync w)\<lparr> handle := False \<rparr>)
                        | Some err \<Rightarrow> (Some err, w\<lparr> handle := False \<rparr>))
      else (None, w))"

section \<open>Runs\<close>

datatype wal_event =
    Append bytes
  | RunFlush
  | Answer reply
  | TimerSync
  | Seal
  | CloseBegin
  | CloseEnd

fun wal_step :: "wal_event \<Rightarrow> wal \<Rightarrow> wal" where
  "wal_step (Append f) w = snd (appendLoc f w)"
| "wal_step RunFlush w = flushBatch w"
| "wal_step (Answer a) w = wal_reply a w"
| "wal_step TimerSync w = sync w"
| "wal_step Seal w = seal w"
| "wal_step CloseBegin w = close_begin w"
| "wal_step CloseEnd w =
     (if is_closed w \<and> flight w = None \<and> queue w = [] then snd (close_end None w) else w)"

text \<open>No system call fails: a \<open>writev\<close> writes at least a byte.\<close>

definition io_good :: "reply \<Rightarrow> bool" where
  "io_good a \<longleftrightarrow> (\<exists>n > 0. wrote a = Inr n) \<and> fsynced a = None"

fun event_good :: "wal_event \<Rightarrow> bool" where
  "event_good (Answer a) = io_good a"
| "event_good (Append f) = (f \<noteq> [])"
| "event_good e = True"

section \<open>What is on its way\<close>

definition in_flight :: "wal \<Rightarrow> bytes" where
  "in_flight w = (case flight w of None \<Rightarrow> [] | Some f \<Rightarrow> concat (toWrite f))"

text \<open>The file when everything queued has been written.\<close>

definition future :: "wal \<Rightarrow> bytes" where
  "future w = disk w @ in_flight w @ concat (map snd (queue w))"

definition batch_ids :: "wal \<Rightarrow> nat set" where
  "batch_ids w = (case flight w of None \<Rightarrow> {} | Some f \<Rightarrow> fst ` set (f_batch f))"

definition flight_ok :: "flight \<Rightarrow> bool" where
  "flight_ok f \<longleftrightarrow>
     [] \<notin> set (f_bufs f) \<and> f_batch f \<noteq> [] \<and>
     (if f_syncing f then f_bufs f = []
      else f_bufs f \<noteq> [] \<and> f_off f < length (hd (f_bufs f)))"

definition wal_ok :: "wal \<Rightarrow> bool" where
  "wal_ok w \<longleftrightarrow>
     (\<forall>f. flight w = Some f \<longrightarrow> flight_ok f \<and> handle w \<and> (f_syncing f \<longrightarrow> policy w = Always)) \<and>
     [] \<notin> set (map snd (queue w)) \<and>
     (handle w \<or> is_closed w \<and> flight w = None \<and> queue w = []) \<and>
     wsize w = length (disk w) \<and> nextOffset w = length (future w) \<and>
     queuedBytes w = length (concat (map snd (queue w))) \<and>
     synced w \<le> length (disk w) \<and>
     (\<forall>i \<in> fst ` set (queue w) \<union> batch_ids w \<union> fst ` set (settled w). i < next_id w) \<and>
     batch_ids w \<inter> fst ` set (queue w) = {} \<and>
     fst ` set (settled w) \<inter> (batch_ids w \<union> fst ` set (queue w)) = {} \<and>
     snd ` set (settled w) \<subseteq> {None}"

lemma toWrite_concat: "flight_ok f \<Longrightarrow> concat (toWrite f) = drop (f_off f) (concat (f_bufs f))"
  by (cases "f_bufs f") (auto simp: toWrite_def flight_ok_def split: if_splits)

lemma toWrite_nonempty: "flight_ok f \<Longrightarrow> \<not> f_syncing f \<Longrightarrow> 0 < length (concat (toWrite f))"
  by (cases "f_bufs f") (auto simp: toWrite_def flight_ok_def)

text \<open>The loop behind a \<open>writev\<close> drops exactly the bytes written.\<close>

lemma consume_spec:
  "[] \<notin> set bs \<Longrightarrow> (bs \<noteq> [] \<Longrightarrow> off < length (hd bs)) \<Longrightarrow> n \<le> length (drop off (concat bs)) \<Longrightarrow>
   off \<le> length (concat bs) \<Longrightarrow>
     consume n bs off = (bs', off') \<Longrightarrow>
     drop off' (concat bs') = drop n (drop off (concat bs)) \<and> set bs' \<subseteq> set bs \<and>
     (bs' \<noteq> [] \<longrightarrow> off' < length (hd bs'))"
proof (induction n bs off rule: consume.induct)
  case (2 n b bs off)
  show ?case
  proof (cases "n = 0 \<or> n < length b - off")
    case True
    then show ?thesis using "2.prems" by (auto simp: add.commute split: if_splits)
  next
    case False
    then have c: "consume (n - (length b - off)) bs 0 = (bs', off')" using "2.prems"(5) by auto
    have off: "off < length b" using "2.prems"(2) by simp
    have n: "n - (length b - off) \<le> length (concat bs)" using "2.prems"(3) False by simp
    have hd: "bs \<noteq> [] \<Longrightarrow> 0 < length (hd bs)" using "2.prems"(1) by (cases bs) auto
    have "drop off' (concat bs') = drop (n - (length b - off)) (concat bs) \<and> set bs' \<subseteq> set bs \<and>
        (bs' \<noteq> [] \<longrightarrow> off' < length (hd bs'))"
      using "2.IH" False "2.prems"(1) hd n c by auto
    moreover have "length b \<le> n + off" using False by arith
    then have "drop n (drop off (concat (b # bs))) = drop (n - (length b - off)) (concat bs)"
      using off by simp
    ultimately show ?thesis by auto
  qed
qed auto

lemma future_simps:
  "future (settle f r w) = disk w @ concat (map snd (queue w))"
  "disk (settle f r w) = disk w" "synced (settle f r w) = synced w"
  "queue (settle f r w) = queue w" "nextOffset (settle f r w) = nextOffset w"
  by (simp_all add: future_def in_flight_def settle_def)

text \<open>One answered \<open>writev\<close>: the bytes move from the batch to the file.\<close>

lemma after_write_moves:
  assumes ok: "flight_ok f" and s: "\<not> f_syncing f" and fl: "flight w = Some f"
    and n: "0 < n" "n \<le> length (concat (toWrite f))"
  defines "w' \<equiv> after_write f n w"
  shows "future w' = future w" "disk w' = disk w @ take n (concat (toWrite f))"
    "queue w' = queue w" "nextOffset w' = nextOffset w" "synced w' = synced w"
    "wsize w' = wsize w + n" "handle w' = handle w" "policy w' = policy w"
    "queuedBytes w' = queuedBytes w" "next_id w' = next_id w" "is_closed w' = is_closed w"
    "(\<exists>f'. flight w' = Some f' \<and> f_batch f' = f_batch f \<and> flight_ok f' \<and>
        (f_syncing f' \<longrightarrow> policy w = Always) \<and> settled w' = settled w) \<or>
     (flight w' = None \<and> disk w' = disk w @ concat (toWrite f) \<and> policy w \<noteq> Always \<and>
        settled w' = settled w @ map (\<lambda>(i, b). (i, None)) (f_batch f))"
proof -
  obtain bs off where c: "consume n (f_bufs f) (f_off f) = (bs, off)" by (cases "consume n (f_bufs f) (f_off f)")
  define f1 where "f1 = f\<lparr> f_bufs := bs, f_off := off \<rparr>"
  have nb: "f_bufs f \<noteq> []" "f_off f < length (hd (f_bufs f))" "[] \<notin> set (f_bufs f)" "f_batch f \<noteq> []"
    using ok s by (auto simp: flight_ok_def)
  have le: "f_off f \<le> length (concat (f_bufs f))" using nb(1,2) by (cases "f_bufs f") auto
  have dr: "drop off (concat bs) = drop n (concat (toWrite f))" "set bs \<subseteq> set (f_bufs f)"
      "bs \<noteq> [] \<longrightarrow> off < length (hd bs)"
    using consume_spec [OF nb(3) nb(2) _ le c] n(2) toWrite_concat [OF ok] by auto
  have ok1: "flight_ok f1" if "bs \<noteq> []"
    using dr(2,3) nb that s by (auto simp: flight_ok_def f1_def)
  have tw1: "concat (toWrite f1) = drop n (concat (toWrite f))" if "bs \<noteq> []"
    using toWrite_concat [OF ok1 [OF that]] dr(1) by (simp add: f1_def)
  have all: "take n (concat (toWrite f)) = concat (toWrite f)" if "bs = []"
    using dr(1) that by simp
  have w': "w' = (let w1 = w\<lparr> disk := disk w @ take n (concat (toWrite f)), wsize := wsize w + n,
                  bytesWritten := bytesWritten w + n \<rparr> in
      if bs \<noteq> [] then w1\<lparr> flight := Some f1 \<rparr>
      else if policy w = Always then w1\<lparr> flight := Some (f1\<lparr> f_syncing := True \<rparr>) \<rparr>
      else settle f1 None w1)"
    by (simp add: w'_def after_write_def c f1_def Let_def)
  have join: "take n (concat (toWrite f)) @ drop n (concat (toWrite f)) @ ys = concat (toWrite f) @ ys" for ys
    by (metis append.assoc append_take_drop_id)
  have fw: "future w = disk w @ concat (toWrite f) @ concat (map snd (queue w))"
    by (simp add: future_def in_flight_def fl)
  show "future w' = future w"
  proof (cases "bs = []")
    case True
    have "toWrite (f1\<lparr> f_syncing := True \<rparr>) = []" using True by (simp add: toWrite_def f1_def)
    then show ?thesis
      unfolding fw w' Let_def using True all by (cases "policy w = Always") (simp_all add: future_def in_flight_def settle_def)
  next
    case False
    then show ?thesis
      unfolding fw w' Let_def using tw1 join by (simp add: future_def in_flight_def)
  qed
  show "disk w' = disk w @ take n (concat (toWrite f))" "queue w' = queue w" "nextOffset w' = nextOffset w"
    "synced w' = synced w" "wsize w' = wsize w + n" "handle w' = handle w" "policy w' = policy w"
    "queuedBytes w' = queuedBytes w" "next_id w' = next_id w" "is_closed w' = is_closed w"
    unfolding w' Let_def by (simp_all add: settle_def)
  have b1: "f_batch f1 = f_batch f" "f_syncing f1 = f_syncing f" by (simp_all add: f1_def)
  have ok2: "flight_ok (f1\<lparr> f_syncing := True \<rparr>)" if "bs = []"
    using nb(4) that by (simp add: flight_ok_def f1_def)
  show "(\<exists>f'. flight w' = Some f' \<and> f_batch f' = f_batch f \<and> flight_ok f' \<and>
        (f_syncing f' \<longrightarrow> policy w = Always) \<and> settled w' = settled w) \<or>
     (flight w' = None \<and> disk w' = disk w @ concat (toWrite f) \<and> policy w \<noteq> Always \<and>
        settled w' = settled w @ map (\<lambda>(i, b). (i, None)) (f_batch f))"
  proof (cases "bs = []")
    case False
    then show ?thesis unfolding w' Let_def using ok1 b1 s by simp
  next
    case True
    then show ?thesis unfolding w' Let_def using ok2 b1 all by (simp add: settle_def)
  qed
qed

text \<open>Where an append is: its bytes in the file to be, and how far they have come.\<close>

definition resolved :: "wal \<Rightarrow> nat \<Rightarrow> bool" where
  "resolved w i \<longleftrightarrow> (i, None) \<in> set (settled w)"

definition placed :: "wal \<Rightarrow> nat \<Rightarrow> nat \<Rightarrow> bytes \<Rightarrow> bool" where
  "placed w i off b \<longleftrightarrow>
     off + length b \<le> length (future w) \<and> subarray (future w) off (off + length b) = b \<and>
     i < next_id w \<and>
     (i \<in> fst ` set (queue w) \<or> i \<in> batch_ids w \<or> resolved w i) \<and>
     (i \<in> batch_ids w \<longrightarrow> off + length b \<le> length (disk w @ in_flight w)) \<and>
     (resolved w i \<longrightarrow> off + length b \<le> length (disk w) \<and>
        (policy w = Always \<longrightarrow> off + length b \<le> synced w))"

lemma answer_ok:
  assumes ok: "wal_ok w" and good: "io_good a"
  shows "wal_ok (wal_reply a w) \<and> future (wal_reply a w) = future w \<and>
    (\<forall>i off b. placed w i off b \<longrightarrow> placed (wal_reply a w) i off b)"
proof (cases "flight w")
  case None
  with ok show ?thesis by (simp add: wal_reply_def)
next
  case (Some f)
  from ok Some have fok: "flight_ok f" and h: "handle w" and pol: "f_syncing f \<longrightarrow> policy w = Always"
    by (auto simp: wal_ok_def)
  have ids: "batch_ids w = fst ` set (f_batch f)" by (simp add: batch_ids_def Some)
  show ?thesis
  proof (cases "f_syncing f")
    case True
    have nil: "in_flight w = []"
      using fok True Some by (simp add: in_flight_def flight_ok_def toWrite_def)
    define w' where "w' = settle f None (sync w)"
    have w': "wal_reply a w = w'"
      using good True Some by (simp add: wal_reply_def io_good_def w'_def)
    have fields: "disk w' = disk w" "queue w' = queue w" "flight w' = None" "synced w' = length (disk w)"
      "nextOffset w' = nextOffset w" "wsize w' = wsize w" "queuedBytes w' = queuedBytes w" "handle w' = True"
      "policy w' = policy w" "next_id w' = next_id w" "is_closed w' = is_closed w"
      "batch_ids w' = {}" "in_flight w' = []"
      using h by (simp_all add: w'_def settle_def sync_def batch_ids_def in_flight_def)
    have st': "settled w' = settled w @ map (\<lambda>(i, b). (i, None)) (f_batch f)"
      using h by (simp add: w'_def settle_def sync_def)
    have fut: "future w' = future w" by (simp add: future_def fields nil)
    have set': "fst ` set (settled w') = fst ` set (settled w) \<union> batch_ids w"
      unfolding st' ids by (auto simp: image_Un image_image case_prod_beta)
    have "snd ` set (settled w') \<subseteq> {None}" using ok unfolding st' by (auto simp: wal_ok_def)
    then have "wal_ok w'"
      using ok h unfolding wal_ok_def fields fut set' by auto
    moreover have "resolved w' i \<longleftrightarrow> resolved w i \<or> i \<in> batch_ids w" for i
      unfolding resolved_def st' ids by (auto simp: image_iff case_prod_beta)
    then have "placed w i off b \<longrightarrow> placed w' i off b" for i off b
      unfolding placed_def fut fields using nil by auto
    ultimately show ?thesis unfolding w' using fut by blast
  next
    case False
    obtain n0 where n0: "0 < n0" "wrote a = Inr n0" using good by (auto simp: io_good_def)
    define n where "n = min n0 (length (concat (toWrite f)))"
    have n: "0 < n" "n \<le> length (concat (toWrite f))"
      using n0 toWrite_nonempty [OF fok False] by (simp_all add: n_def)
    define w' where "w' = after_write f n w"
    have w': "wal_reply a w = w'"
      unfolding wal_reply_def Some option.case(2) if_not_P [OF False] n0(2) sum.case(2) n_def [symmetric] w'_def
      using n(1) by simp
    note mv = after_write_moves [OF fok False Some n, folded w'_def]
    have len: "length (disk w') = length (disk w) + n" using n(2) by (simp add: mv(2))
    have infl: "in_flight w = concat (toWrite f)" by (simp add: in_flight_def Some)
    from mv(12) show ?thesis
    proof
      assume "\<exists>f'. flight w' = Some f' \<and> f_batch f' = f_batch f \<and> flight_ok f' \<and>
        (f_syncing f' \<longrightarrow> policy w = Always) \<and> settled w' = settled w"
      then obtain f' where f': "flight w' = Some f'" "f_batch f' = f_batch f" "flight_ok f'"
        "f_syncing f' \<longrightarrow> policy w = Always" "settled w' = settled w" by blast
      have ids': "batch_ids w' = batch_ids w" by (simp add: batch_ids_def Some f')
      have "wal_ok w'"
        using ok f' len h unfolding wal_ok_def ids' mv f'(5) by auto
      moreover have "length (disk w' @ in_flight w') = length (disk w @ in_flight w)"
        using arg_cong [OF mv(1), of length] by (simp add: future_def mv(3))
      then have "placed w i off b \<longrightarrow> placed w' i off b" for i off b
        unfolding placed_def resolved_def ids' mv(1,3,5,8,10) f'(5) len by auto
      ultimately show ?thesis unfolding w' using mv(1) by blast
    next
      assume d: "flight w' = None \<and> disk w' = disk w @ concat (toWrite f) \<and> policy w \<noteq> Always \<and>
        settled w' = settled w @ map (\<lambda>(i, b). (i, None)) (f_batch f)"
      have none: "batch_ids w' = {}" "in_flight w' = []" using d by (simp_all add: batch_ids_def in_flight_def)
      have set': "fst ` set (settled w') = fst ` set (settled w) \<union> batch_ids w"
        unfolding ids using d by (auto simp: image_Un image_image case_prod_beta)
      have "snd ` set (settled w') \<subseteq> {None}" using ok d by (auto simp: wal_ok_def)
      then have "wal_ok w'"
        using ok d len h unfolding wal_ok_def none set' mv by auto
      moreover have "resolved w' i \<longleftrightarrow> resolved w i \<or> i \<in> batch_ids w" for i
        unfolding resolved_def ids using d by (auto simp: image_iff case_prod_beta)
      then have "placed w i off b \<longrightarrow> placed w' i off b" for i off b
        unfolding placed_def mv(1,3,5,8,10) none using d infl by auto
      ultimately show ?thesis unfolding w' using mv(1) by blast
    qed
  qed
qed

definition steps_on :: "wal \<Rightarrow> wal \<Rightarrow> bool" where
  "steps_on w w' \<longleftrightarrow> wal_ok w' \<and> policy w' = policy w \<and> (\<exists>x. future w' = future w @ x) \<and>
     (\<forall>i off b. placed w i off b \<longrightarrow> placed w' i off b)"

lemma flushBatch_ok:
  assumes ok: "wal_ok w"
  shows "wal_ok (flushBatch w)" "future (flushBatch w) = future w"
    "placed w i off b \<Longrightarrow> placed (flushBatch w) i off b"
proof -
  have "wal_ok (flushBatch w) \<and> future (flushBatch w) = future w \<and>
    (placed w i off b \<longrightarrow> placed (flushBatch w) i off b)"
  proof (cases "flight w \<noteq> None \<or> queue w = []")
    case True
    then have e: "flushBatch w = w\<lparr> scheduled := False \<rparr>" by (auto simp: flushBatch_def Let_def)
    show ?thesis using ok unfolding e
      by (simp add: wal_ok_def future_def in_flight_def batch_ids_def placed_def resolved_def)
  next
    case False
    define f where "f = \<lparr> f_batch = queue w, f_bufs = map snd (queue w), f_off = 0, f_syncing = False \<rparr>"
    define w' where "w' = w\<lparr> scheduled := False, queue := [], queuedBytes := 0, flight := Some f \<rparr>"
    have h: "handle w" using ok False by (auto simp: wal_ok_def)
    have e: "flushBatch w = w'"
      using False h by (auto simp: flushBatch_def Let_def w'_def f_def)
    have tw: "concat (toWrite f) = concat (map snd (queue w))"
      using False by (cases "queue w") (auto simp: toWrite_def f_def)
    have fok: "flight_ok f"
      using ok False by (cases "queue w") (auto simp: flight_ok_def f_def wal_ok_def)
    have infl: "in_flight w = []" "batch_ids w = {}" using False by (auto simp: in_flight_def batch_ids_def)
    have infl': "in_flight w' = concat (map snd (queue w))" "batch_ids w' = fst ` set (queue w)"
      using tw by (simp_all add: in_flight_def batch_ids_def w'_def) (simp add: f_def)
    have fields: "disk w' = disk w" "queue w' = []" "flight w' = Some f" "synced w' = synced w"
      "nextOffset w' = nextOffset w" "wsize w' = wsize w" "queuedBytes w' = 0" "handle w' = handle w"
      "policy w' = policy w" "next_id w' = next_id w" "is_closed w' = is_closed w" "settled w' = settled w"
      by (simp_all add: w'_def)
    have fut: "future w' = future w" by (simp add: future_def fields infl infl')
    have "wal_ok w'"
      using ok fok h unfolding wal_ok_def infl' fields fut infl by (auto simp: f_def)
    moreover have "placed w i off b \<longrightarrow> placed w' i off b"
      unfolding placed_def resolved_def fut infl' fields infl by (auto simp: future_def infl)
    ultimately show ?thesis unfolding e using fut by blast
  qed
  then show "wal_ok (flushBatch w)" "future (flushBatch w) = future w"
    "placed w i off b \<Longrightarrow> placed (flushBatch w) i off b" by blast+
qed

lemma append_ok:
  assumes ok: "wal_ok w" and f: "f \<noteq> []" and a: "appendLoc f w = ((off, Inr n), w')"
  shows "wal_ok w'" "future w' = future w @ f" "policy w' = policy w" "off = int (length (future w))"
    "placed w' n (nat off) f" "\<And>i p b. placed w i p b \<Longrightarrow> placed w' i p b"
proof -
  have open': "\<not> is_closed w" "\<not> is_sealed w" using a by (auto simp: appendLoc_def split: if_splits)
  have e: "n = next_id w" "off = int (nextOffset w)" and w': "w' = w\<lparr> nextOffset := nextOffset w + length f,
               queue := queue w @ [(next_id w, f)], queuedBytes := queuedBytes w + length f,
               scheduled := (flight w = None \<or> scheduled w), next_id := next_id w + 1 \<rparr>"
    using a open' by (auto simp: appendLoc_def)
  have fields: "disk w' = disk w" "queue w' = queue w @ [(next_id w, f)]" "flight w' = flight w" "synced w' = synced w"
      "nextOffset w' = nextOffset w + length f" "wsize w' = wsize w" "queuedBytes w' = queuedBytes w + length f"
      "handle w' = handle w" "policy w' = policy w" "next_id w' = next_id w + 1" "is_closed w' = is_closed w"
      "settled w' = settled w" by (simp_all add: w')
  have same: "in_flight w' = in_flight w" "batch_ids w' = batch_ids w"
    by (simp_all add: in_flight_def batch_ids_def fields)
  show fut: "future w' = future w @ f" by (simp add: future_def fields same)
  show "policy w' = policy w" by (simp add: fields)
  show off: "off = int (length (future w))" using ok e by (simp add: wal_ok_def)
  have fresh: "next_id w \<notin> fst ` set (queue w) \<union> batch_ids w \<union> fst ` set (settled w)"
    using ok by (auto simp: wal_ok_def)
  have h: "handle w" using ok open' by (auto simp: wal_ok_def)
  show "wal_ok w'"
    using ok fresh f open' h unfolding wal_ok_def fields same fut by (auto simp: less_Suc_eq)
  have "next_id w \<notin> batch_ids w" "\<not> resolved w (next_id w)" using fresh by (auto simp: resolved_def image_iff)
  then show "placed w' n (nat off) f"
    unfolding placed_def fut fields same resolved_def off e
    by (auto simp: subarray_def resolved_def)
  fix i p b assume p: "placed w i p b"
  then have "p + length b \<le> length (future w)" by (simp add: placed_def)
  then have "subarray (future w @ f) p (p + length b) = subarray (future w) p (p + length b)"
    by (rule subarray_append_left)
  with p show "placed w' i p b"
    unfolding placed_def fut fields same resolved_def by auto
qed

lemma wal_step_ok:
  assumes ok: "wal_ok w" and good: "event_good ev"
  shows "steps_on w (wal_step ev w)"
proof (cases ev)
  case (Append f)
  show ?thesis
  proof (cases "appendLoc f w")
    case (Pair p w')
    obtain off r where p: "p = (off, r)" by (cases p)
    show ?thesis
    proof (cases r)
      case (Inl e)
      with Pair p have "w' = w" by (auto simp: appendLoc_def split: if_splits)
      with Pair p Append ok show ?thesis by (simp add: steps_on_def)
    next
      case (Inr n)
      have f: "f \<noteq> []" using good Append by simp
      show ?thesis
        using append_ok [OF ok f Pair [unfolded p Inr]] Append Pair by (simp add: steps_on_def)
    qed
  qed
next
  case RunFlush
  have "policy (flushBatch w) = policy w" by (simp add: flushBatch_def settle_def Let_def)
  with flushBatch_ok [OF ok] RunFlush show ?thesis by (simp add: steps_on_def)
next
  case (Answer a)
  have "policy (wal_reply a w) = policy w"
    by (auto simp: wal_reply_def after_write_def settle_def sync_def Let_def split: option.splits sum.splits)
  with answer_ok [OF ok, of a] good Answer show ?thesis by (simp add: steps_on_def)
next
  case TimerSync
  with ok show ?thesis
    by (auto simp: steps_on_def sync_def wal_ok_def future_def in_flight_def batch_ids_def placed_def resolved_def)
next
  case Seal
  with ok show ?thesis
    by (auto simp: steps_on_def seal_def wal_ok_def future_def in_flight_def batch_ids_def placed_def resolved_def)
next
  case CloseBegin
  with ok show ?thesis
    by (auto simp: steps_on_def close_begin_def wal_ok_def future_def in_flight_def batch_ids_def placed_def resolved_def)
next
  case CloseEnd
  with ok show ?thesis
    by (auto simp: steps_on_def close_end_def sync_def wal_ok_def future_def in_flight_def batch_ids_def placed_def resolved_def)
qed

lemma wal_run_ok:
  "wal_ok w \<Longrightarrow> list_all event_good es \<Longrightarrow> steps_on w (fold wal_step es w)"
proof (induction es arbitrary: w)
  case Nil
  then show ?case by (simp add: steps_on_def)
next
  case (Cons e es)
  then have s: "steps_on w (wal_step e w)" by (intro wal_step_ok) auto
  with Cons have "steps_on (wal_step e w) (fold wal_step es (wal_step e w))" by (simp add: steps_on_def)
  with s show ?case unfolding steps_on_def by (auto simp del: ex_simps)
qed

lemma wal_open_ok:
  assumes "new_wal p c = Inr w"
  shows "wal_ok (wal_open w)" "future (wal_open w) = c" "next_id (wal_open w) = 0"
  using assms
  by (auto simp: new_wal_def map_sum_def wal_open_def wal_ok_def future_def in_flight_def batch_ids_def
      split: sum.splits)

section \<open>A flush ends\<close>

definition work :: "wal \<Rightarrow> nat" where
  "work w = (case flight w of None \<Rightarrow> 0
     | Some f \<Rightarrow> if f_syncing f then 1 else length (concat (toWrite f)) + 1)"

lemma work_decreases:
  assumes ok: "wal_ok w" and good: "io_good a" and fl: "flight w = Some f"
  shows "work (wal_reply a w) < work w" "queue (wal_reply a w) = queue w"
proof -
  from ok fl have fok: "flight_ok f" by (auto simp: wal_ok_def)
  have "work (wal_reply a w) < work w \<and> queue (wal_reply a w) = queue w"
  proof (cases "f_syncing f")
    case True
    with good fl show ?thesis by (simp add: wal_reply_def io_good_def settle_def work_def sync_def)
  next
    case False
    obtain n0 where n0: "0 < n0" "wrote a = Inr n0" using good by (auto simp: io_good_def)
    define n where "n = min n0 (length (concat (toWrite f)))"
    have n: "0 < n" "n \<le> length (concat (toWrite f))"
      using n0 toWrite_nonempty [OF fok False] by (simp_all add: n_def)
    define w' where "w' = after_write f n w"
    have w': "wal_reply a w = w'"
      unfolding wal_reply_def fl option.case(2) if_not_P [OF False] n0(2) sum.case(2) n_def [symmetric] w'_def
      using n(1) by simp
    note mv = after_write_moves [OF fok False fl n, folded w'_def]
    have "length (in_flight w') + n = length (in_flight w)"
      using arg_cong [OF mv(1), of length] n(2) by (simp add: future_def mv(2,3) in_flight_def fl)
    moreover have "work w = length (in_flight w) + 1" using fl False by (simp add: work_def in_flight_def)
    moreover have "work w' \<le> length (in_flight w') + 1" by (simp add: work_def in_flight_def split: option.splits)
    ultimately show ?thesis unfolding w' using n(1) mv(3) by simp
  qed
  then show "work (wal_reply a w) < work w" "queue (wal_reply a w) = queue w" by blast+
qed

lemma flush_done: "flight w = None \<Longrightarrow> queue w = [] \<Longrightarrow> flush as w = w"
  by (subst flush.simps) simp

text \<open>Answers enough for a flush: a byte at a time and one fsync for each of the two batches.\<close>

definition need :: "wal \<Rightarrow> nat" where
  "need w = work w + (if queue w = [] then 0 else queuedBytes w + 1)"

lemma flush_drains:
  "wal_ok w \<Longrightarrow> list_all io_good as \<Longrightarrow> need w \<le> length as \<Longrightarrow>
     flight (flush as w) = None \<and> queue (flush as w) = [] \<and> disk (flush as w) = future w \<and>
     wal_ok (flush as w)"
proof (induction as w rule: flush.induct)
  case (1 as w)
  show ?case
  proof (cases "flight w")
    case (Some f)
    have "0 < work w" using Some by (simp add: work_def)
    then obtain a as' where as: "as = a # as'" using "1.prems"(3) by (cases as) (auto simp: need_def)
    have good: "io_good a" "list_all io_good as'" using "1.prems"(2) as by auto
    note d = work_decreases [OF "1.prems"(1) good(1) Some]
    note k = answer_ok [OF "1.prems"(1) good(1)]
    have q: "queuedBytes (wal_reply a w) = queuedBytes w"
      using k "1.prems"(1) d(2) by (simp add: wal_ok_def)
    have "need (wal_reply a w) \<le> length as'"
      using "1.prems"(3) d q as by (simp add: need_def split: if_splits)
    with "1.IH"(1) [OF _ as] Some k good(2) have
      "flight (flush as' (wal_reply a w)) = None \<and> queue (flush as' (wal_reply a w)) = [] \<and>
       disk (flush as' (wal_reply a w)) = future w \<and> wal_ok (flush as' (wal_reply a w))" by simp
    then show ?thesis by (subst (1 2 3 4) flush.simps) (simp add: Some as)
  next
    case None
    show ?thesis
    proof (cases "queue w = []")
      case True
      with None "1.prems"(1) show ?thesis by (simp add: flush_done future_def in_flight_def)
    next
      case False
      note k = flushBatch_ok [OF "1.prems"(1)]
      have "handle w" using "1.prems"(1) False by (auto simp: wal_ok_def)
      then have fl: "flight (flushBatch w) = Some \<lparr> f_batch = queue w, f_bufs = map snd (queue w), f_off = 0, f_syncing = False \<rparr>"
        and qb: "queuedBytes (flushBatch w) = 0"
        using None False by (simp_all add: flushBatch_def Let_def)
      have "concat (toWrite \<lparr> f_batch = queue w, f_bufs = map snd (queue w), f_off = 0, f_syncing = False \<rparr>) =
          concat (map snd (queue w))" using False by (cases "queue w") (auto simp: toWrite_def)
      then have "work (flushBatch w) = queuedBytes w + 1"
        using "1.prems"(1) by (simp add: work_def fl wal_ok_def)
      with "1.prems"(3) None False have "need (flushBatch w) \<le> length as"
        by (simp add: need_def work_def [of w])
      with "1.IH"(2) [OF _ False] None k(1,2) "1.prems"(2) have
        "flight (flush as (flushBatch w)) = None \<and> queue (flush as (flushBatch w)) = [] \<and>
         disk (flush as (flushBatch w)) = future w \<and> wal_ok (flush as (flushBatch w))" by simp
      then show ?thesis by (subst (1 2 3 4) flush.simps) (simp add: None False)
    qed
  qed
qed

text \<open>The file only grows.\<close>

lemma settle_disk [simp]: "disk (settle f r w) = disk w"
  by (simp add: settle_def)

lemma wal_step_disk: "\<exists>x. disk (wal_step e w) = disk w @ x"
proof (cases e)
  case (Answer a)
  show ?thesis
    by (auto simp: Answer wal_reply_def after_write_def sync_def Let_def split: option.splits sum.splits)
next
  case (Append f)
  show ?thesis by (simp add: Append appendLoc_def)
qed (auto simp: flushBatch_def sync_def seal_def close_begin_def close_end_def Let_def)

lemma wal_disk_grows: "\<exists>x. disk (fold wal_step es w) = disk w @ x"
proof (induction es arbitrary: w)
  case (Cons e es)
  obtain x y where "disk (wal_step e w) = disk w @ x" "disk (fold wal_step es (wal_step e w)) = disk (wal_step e w) @ y"
    using wal_step_disk [of e w] Cons [of "wal_step e w"] by blast
  then show ?case by simp
qed simp

lemma append_disk: "appendLoc f w = (r, w') \<Longrightarrow> disk w' = disk w"
  by (auto simp: appendLoc_def split: if_splits)

lemma opened_disk: "new_wal p c = Inr w \<Longrightarrow> disk (wal_open w) = c"
  by (auto simp: new_wal_def map_sum_def wal_open_def split: sum.splits)

section \<open>Properties\<close>

text \<open>C18: The offset \<open>appendLoc\<close> returns is exact. In any run of a log in which no system call fails -
  short writes, timers, batches under way and a close included - a non-empty frame is never
  rejected once it was accepted, and when its promise has resolved its bytes are in the file at
  that offset, behind what the file held before; under the policy \<open>always\<close> they are in the part
  of the file made durable by an fsync, so a crash cannot lose them.\<close>

theorem append_lands_at_offset:
  assumes "new_wal p c = Inr w0" "list_all event_good es" "list_all event_good fs" "f \<noteq> []"
    and "appendLoc f (fold wal_step es (wal_open w0)) = ((off, Inr i), w1)"
    and "w2 = fold wal_step fs w1"
  shows "int (length c) \<le> off \<and> take (length c) (disk w2) = c \<and> (\<forall>e. (i, Some e) \<notin> set (settled w2)) \<and>
    (resolved w2 i \<longrightarrow> subarray (disk w2) (nat off) (nat off + length f) = f \<and>
       nat off + length f \<le> length (disk w2) \<and>
       (policy w2 = Always \<longrightarrow> nat off + length f \<le> synced w2))"
proof -
  note o = wal_open_ok [OF assms(1)]
  define w where "w = fold wal_step es (wal_open w0)"
  have s1: "steps_on (wal_open w0) w" unfolding w_def by (rule wal_run_ok [OF o(1) assms(2)])
  then have ok: "wal_ok w" and pre: "length c \<le> length (future w)" by (auto simp: steps_on_def o(2))
  note a = append_ok [OF ok assms(4) assms(5) [folded w_def]]
  have s2: "steps_on w1 w2" unfolding assms(6) by (rule wal_run_ok [OF a(1) assms(3)])
  then have ok2: "wal_ok w2" and p2: "placed w2 i (nat off) f" using a(5) by (auto simp: steps_on_def)
  have pol: "policy w2 = policy w1" using s2 by (simp add: steps_on_def)
  have "resolved w2 i \<longrightarrow> subarray (disk w2) (nat off) (nat off + length f) = f \<and>
       nat off + length f \<le> length (disk w2) \<and> (policy w2 = Always \<longrightarrow> nat off + length f \<le> synced w2)"
  proof
    assume r: "resolved w2 i"
    with p2 have len: "nat off + length f \<le> length (disk w2)" by (simp add: placed_def)
    then have "subarray (disk w2) (nat off) (nat off + length f) = subarray (future w2) (nat off) (nat off + length f)"
      unfolding future_def by (rule subarray_append_left [symmetric])
    with p2 r len show "subarray (disk w2) (nat off) (nat off + length f) = f \<and>
       nat off + length f \<le> length (disk w2) \<and> (policy w2 = Always \<longrightarrow> nat off + length f \<le> synced w2)"
      by (simp add: placed_def)
  qed
  moreover have "(i, Some e) \<notin> set (settled w2)" for e using ok2 by (force simp: wal_ok_def)
  moreover have "take (length c) (disk w2) = c"
    using wal_disk_grows [of es "wal_open w0"] append_disk [OF assms(5)]
      wal_disk_grows [of fs w1] opened_disk [OF assms(1)] unfolding assms(6) by auto
  ultimately show ?thesis using a(4) pre by simp
qed

definition sample_wal :: "wal" where
  "sample_wal = (case new_wal (Some ''always'') [7] of Inr w \<Rightarrow> w | Inl e \<Rightarrow> undefined)"

lemma sample_wal: "new_wal (Some ''always'') [7] = Inr sample_wal"
  by (simp add: sample_wal_def new_wal_def parse_policy_def)

lemmas wal_exec = new_wal_def parse_policy_def sample_wal_def wal_open_def appendLoc_def flushBatch_def
  wal_reply_def after_write_def settle_def sync_def toWrite_def io_good_def Let_def

theorem append_lands_at_offset_witness:
  "let w2 = fold wal_step [Append [1, 2], RunFlush, Answer (Reply (Inr 2) None), Append [3, 4], Answer (Reply (Inr 9) None),
       Answer (Reply (Inr 1) None), RunFlush, Answer (Reply (Inr 3) None), Answer (Reply (Inr 1) None)] (wal_open sample_wal)
   in subarray (disk w2) 3 5 = [3, 4] \<and> 5 \<le> synced w2"
proof -
  define es where "es = [Append [1, 2], RunFlush, Answer (Reply (Inr 2) None)]"
  define fs where "fs = [Answer (Reply (Inr 9) None), Answer (Reply (Inr 1) None), RunFlush, Answer (Reply (Inr 3) None), Answer (Reply (Inr 1) None)]"
  define w1 where "w1 = snd (appendLoc [3, 4] (fold wal_step es (wal_open sample_wal)))"
  have a: "appendLoc [3, 4] (fold wal_step es (wal_open sample_wal)) = ((3, Inr 1), w1)"
    by (simp add: w1_def es_def wal_exec)
  have g: "list_all event_good es" "list_all event_good fs" by (simp_all add: es_def fs_def io_good_def)
  have "resolved (fold wal_step fs w1) 1" "policy (fold wal_step fs w1) = Always"
    by (simp_all add: resolved_def fs_def w1_def es_def wal_exec)
  moreover have "fold wal_step [Append [1, 2], RunFlush, Answer (Reply (Inr 2) None), Append [3, 4], Answer (Reply (Inr 9) None),
       Answer (Reply (Inr 1) None), RunFlush, Answer (Reply (Inr 3) None), Answer (Reply (Inr 1) None)] (wal_open sample_wal)
      = fold wal_step fs w1"
    by (simp add: w1_def es_def fs_def)
  ultimately show ?thesis
    using append_lands_at_offset [OF sample_wal g _ a refl] by simp
qed

text \<open>The frames a log accepts in a run: those appended before it is sealed or closed, in order.\<close>

fun accepted :: "wal_event list \<Rightarrow> bytes" where
  "accepted [] = []"
| "accepted (Append f # es) = f @ accepted es"
| "accepted (Seal # es) = []"
| "accepted (CloseBegin # es) = []"
| "accepted (RunFlush # es) = accepted es"
| "accepted (Answer a # es) = accepted es"
| "accepted (TimerSync # es) = accepted es"
| "accepted (CloseEnd # es) = accepted es"

lemma shut_step:
  assumes "is_closed w \<or> is_sealed w" "wal_ok w" "event_good e"
  shows "future (wal_step e w) = future w \<and> (is_closed (wal_step e w) \<or> is_sealed (wal_step e w))"
proof (cases e)
  case (Append f)
  then show ?thesis using assms(1) by (auto simp: appendLoc_def)
next
  case RunFlush
  then show ?thesis using assms(1) flushBatch_ok(2) [OF assms(2)]
    by (auto simp: flushBatch_def settle_def Let_def)
next
  case (Answer a)
  have "is_closed (wal_reply a w) = is_closed w" "is_sealed (wal_reply a w) = is_sealed w"
    by (auto simp: wal_reply_def after_write_def settle_def sync_def Let_def split: option.splits sum.splits)
  then show ?thesis using assms(1,3) answer_ok [OF assms(2), of a] Answer by simp
qed (use assms(1) in \<open>auto simp: sync_def seal_def close_begin_def close_end_def future_def in_flight_def\<close>)

lemma shut_run:
  "is_closed w \<or> is_sealed w \<Longrightarrow> wal_ok w \<Longrightarrow> list_all event_good es \<Longrightarrow> future (fold wal_step es w) = future w"
proof (induction es arbitrary: w)
  case (Cons e es)
  have "wal_ok (wal_step e w)" using wal_step_ok [of w e] Cons.prems by (simp add: steps_on_def)
  with Cons shut_step [of w e] show ?case by simp
qed simp

lemma run_future:
  "\<not> is_closed w \<Longrightarrow> \<not> is_sealed w \<Longrightarrow> wal_ok w \<Longrightarrow> list_all event_good es \<Longrightarrow>
     future (fold wal_step es w) = future w @ accepted es"
proof (induction es arbitrary: w rule: accepted.induct)
  case (2 f es)
  obtain off p w' where a: "appendLoc f w = ((off, p), w')" by (cases "appendLoc f w") auto
  then have p: "p = Inr (next_id w)" "\<not> is_closed w'" "\<not> is_sealed w'" using 2 by (auto simp: appendLoc_def)
  have "f \<noteq> []" using 2 by simp
  note k = append_ok [OF "2.prems"(3) this a [unfolded p(1)]]
  show ?case using "2.IH" [OF p(2,3) k(1)] "2.prems"(4) k(2) by (simp add: a)
next
  case (3 es)
  have "wal_ok (seal w)" using wal_step_ok [of w Seal] "3.prems" by (simp add: steps_on_def)
  then show ?case using shut_run [of "seal w" es] "3.prems" by (simp add: seal_def future_def in_flight_def)
next
  case (4 es)
  have "wal_ok (close_begin w)" using wal_step_ok [of w CloseBegin] "4.prems" by (simp add: steps_on_def)
  then show ?case using shut_run [of "close_begin w" es] "4.prems" by (simp add: close_begin_def future_def in_flight_def)
next
  case (5 es)
  have "\<not> is_closed (flushBatch w)" "\<not> is_sealed (flushBatch w)"
    using "5.prems" by (simp_all add: flushBatch_def settle_def Let_def)
  then show ?case using 5 flushBatch_ok [OF "5.prems"(3)] by simp
next
  case (6 a es)
  have "is_closed (wal_reply a w) = is_closed w" "is_sealed (wal_reply a w) = is_sealed w"
    by (auto simp: wal_reply_def after_write_def settle_def sync_def Let_def split: option.splits sum.splits)
  then show ?case using 6 answer_ok [OF "6.prems"(3), of a] by simp
next
  case (7 es)
  have "wal_ok (sync w)" using wal_step_ok [of w TimerSync] "7.prems" by (simp add: steps_on_def)
  then show ?case using 7 by (simp add: sync_def future_def in_flight_def)
qed simp_all

lemma opened_flags: "new_wal p c = Inr w \<Longrightarrow> \<not> is_closed (wal_open w) \<and> \<not> is_sealed (wal_open w)"
  by (auto simp: new_wal_def map_sum_def wal_open_def split: sum.splits)

text \<open>C29: A flush ends: if every \<open>writev\<close> writes at least one byte and no system call fails, then
  after as many answers as there are bytes on their way (and one more per batch) nothing is queued
  or in flight, and the file is its old contents followed by every frame appended before the log was
  sealed or closed, whole, once, and in the order of the appends.\<close>

theorem flush_completes:
  assumes "new_wal p c = Inr w0" "list_all event_good es" "list_all io_good as"
    and "need (fold wal_step es (wal_open w0)) \<le> length as"
  shows "let w = fold wal_step es (wal_open w0); w' = flush as w in
    flight w' = None \<and> queue w' = [] \<and> disk w' = c @ accepted es"
proof -
  note o = wal_open_ok [OF assms(1)]
  have "steps_on (wal_open w0) (fold wal_step es (wal_open w0))" by (rule wal_run_ok [OF o(1) assms(2)])
  then have "wal_ok (fold wal_step es (wal_open w0))" by (simp add: steps_on_def)
  moreover have "future (fold wal_step es (wal_open w0)) = c @ accepted es"
    using run_future [OF _ _ o(1) assms(2)] opened_flags [OF assms(1)] o(2) by simp
  ultimately show ?thesis using flush_drains [OF _ assms(3,4)] by (simp add: Let_def)
qed

theorem flush_completes_witness:
  "disk (flush [Reply (Inr 1) None, Reply (Inr 9) None, Reply (Inr 1) None] (fold wal_step [Append [1, 2]] (wal_open sample_wal)))
     = [7, 1, 2]"
proof -
  have "need (fold wal_step [Append [1, 2]] (wal_open sample_wal)) \<le>
      length [Reply (Inr 1) None, Reply (Inr 9) None, Reply (Inr 1) None]"
    by (simp add: need_def work_def wal_exec)
  from flush_completes [OF sample_wal _ _ this] show ?thesis
    by (simp add: Let_def io_good_def)
qed



end
