(* ===== verification/SnapshotWriter.thy ===== *)
theory SnapshotWriter
  imports Recovery Wal
begin

text \<open>
  Writing a snapshot: \<open>packages/minidb/src/snapshot.ts\<close>, with the generator \<open>Store.entries\<close> it
  consumes. Between two entries the writer may wait for the disk or yield to the event loop, and
  meanwhile the store changes: the generator is a cursor into the Map, as a JavaScript Map iterator
  is, and the changes are mutations interleaved with its steps. What is proved here: which records
  the snapshot holds however the mutations interleave, and that the file has exactly their frames
  whatever the short writes.
\<close>

section \<open>The generator under concurrent writes\<close>

record gen =
  gpos :: nat
  gdone :: bool

definition new_gen :: gen where
  "new_gen = \<lparr> gpos = 0, gdone = False \<rparr>"

text \<open>The next entry that is live, and how many entries of the Map were visited to find it.\<close>

fun next_live :: "int \<Rightarrow> (kstr \<times> store_rec) list \<Rightarrow> (kstr \<times> store_rec) option \<times> nat" where
  "next_live now [] = (None, 0)"
| "next_live now ((k, r) # xs) =
     (if is_live now r then (Some (k, r), 1)
      else case next_live now xs of (x, n) \<Rightarrow> (x, n + 1))"

definition gen_resume ::
  "value_reader option \<Rightarrow> int \<Rightarrow> store \<Rightarrow> gen \<Rightarrow> (js_error + store_entry) option \<times> gen" where
  "gen_resume rd now st g =
     (if gdone g then (None, g)
      else case next_live now (drop (gpos g) (smap st)) of
        (None, n) \<Rightarrow> (None, \<lparr> gpos = gpos g + n, gdone = True \<rparr>)
      | (Some (k, r), n) \<Rightarrow>
          (case entry_of rd k r of
             Inl e \<Rightarrow> (Some (Inl e), \<lparr> gpos = gpos g + n, gdone = True \<rparr>)
           | Inr x \<Rightarrow> (Some (Inr x), \<lparr> gpos = gpos g + n, gdone = False \<rparr>)))"

text \<open>What other code does to the store meanwhile.\<close>

datatype mutation =
    MSet bytes value_ref int "dt option"
  | MDel bytes
  | MExpire int kstr

fun mutate :: "(dt \<Rightarrow> nat) \<Rightarrow> mutation \<Rightarrow> store \<Rightarrow> store" where
  "mutate jb (MSet key ref e d) st = setRef jb (toKStr key) ref e d st"
| "mutate jb (MDel key) st = snd (store_del jb (toKStr key) st)"
| "mutate jb (MExpire now k) st = fst (snd (getRecord jb now k st))"

text \<open>The entries a Map iterator has passed and that are gone no longer count for its position.\<close>

definition gen_shift :: "store \<Rightarrow> store \<Rightarrow> gen \<Rightarrow> gen" where
  "gen_shift st st' g =
     g\<lparr> gpos := length (filter (\<lambda>(k, r). k \<in> fst ` set (smap st')) (take (gpos g) (smap st))) \<rparr>"

datatype snap_event = Visit | Mutate mutation

fun entries_under ::
  "(dt \<Rightarrow> nat) \<Rightarrow> value_reader option \<Rightarrow> int \<Rightarrow> snap_event list \<Rightarrow> store \<Rightarrow> gen \<Rightarrow>
     (js_error + store_entry) list \<times> store \<times> gen" where
  "entries_under jb rd now [] st g = ([], st, g)"
| "entries_under jb rd now (Visit # evs) st g =
     (case gen_resume rd now st g of
        (x, g') \<Rightarrow>
          (case entries_under jb rd now evs st g' of
             (es, r) \<Rightarrow> (case x of None \<Rightarrow> es | Some e \<Rightarrow> e # es, r)))"
| "entries_under jb rd now (Mutate m # evs) st g =
     (let st' = mutate jb m st in entries_under jb rd now evs st' (gen_shift st st' g))"

section \<open>The writer\<close>

definition FLUSH_BYTES :: nat where "FLUSH_BYTES = 2 ^ 20"

record snap_writer =
  sn_file :: bytes
  sn_calls :: nat
  sn_batch :: "bytes list"
  sn_batchBytes :: nat
  sn_count :: nat
  sn_bytes :: nat
  sn_locs :: "(kstr, value_loc) jmap"

definition new_snap :: snap_writer where
  "new_snap = \<lparr> sn_file = [], sn_calls = 0, sn_batch = [], sn_batchBytes = 0, sn_count = 0,
                sn_bytes = 0, sn_locs = [] \<rparr>"

definition to_write :: "bytes list \<Rightarrow> nat \<Rightarrow> bytes list" where
  "to_write bufs off = (case bufs of [] \<Rightarrow> [] | b # bs \<Rightarrow> (if off > 0 then drop off b else b) # bs)"

lemma concat_to_write [simp]:
  "concat (to_write [] off) = []" "concat (to_write (b # bs) off) = drop off b @ concat bs"
  by (simp_all add: to_write_def)

lemma concat_to_write_0 [simp]: "concat (to_write bs 0) = concat bs"
  by (cases bs) simp_all

lemma concat_to_write_consume:
  "n \<le> length (concat (to_write bufs off)) \<Longrightarrow>
     concat (to_write (fst (consume n bufs off)) (snd (consume n bufs off))) =
       drop n (concat (to_write bufs off))"
proof (induction n bufs off rule: consume.induct)
  case (2 n b bs off)
  show ?case
  proof (cases "n = 0 \<or> n < length b - off")
    case True
    then show ?thesis by (auto simp: add.commute)
  next
    case False
    with "2.prems" have "n - (length b - off) \<le> length (concat (to_write bs 0))"
      by (simp del: length_concat)
    moreover from False have "length b \<le> n + off" by linarith
    ultimately show ?thesis using "2.IH" False by simp
  qed
qed simp

text \<open>
  \<open>io n\<close> is the answer of the \<open>n\<close>-th \<open>writev\<close>: an error or the number of bytes it would write.
\<close>

function write_all :: "(nat \<Rightarrow> js_error + nat) \<Rightarrow> bytes list \<Rightarrow> nat \<Rightarrow> snap_writer \<Rightarrow> js_error option \<times> snap_writer" where
  "write_all io bufs off s =
     (if bufs = [] then (None, s)
      else case io (sn_calls s) of
        Inl e \<Rightarrow> (Some e, s\<lparr> sn_calls := sn_calls s + 1 \<rparr>)
      | Inr n \<Rightarrow>
          let data = concat (to_write bufs off); w = min n (length data);
              s' = s\<lparr> sn_calls := sn_calls s + 1, sn_file := sn_file s @ take w data, sn_bytes := sn_bytes s + w \<rparr> in
          if w = 0 then (Some (Error ''snapshot writev made no progress (short write)''), s')
          else write_all io (fst (consume w bufs off)) (snd (consume w bufs off)) s')"
  by auto
termination
  by (relation "measure (\<lambda>(io, bufs, off, s). length (concat (to_write bufs off)))")
    (auto simp: concat_to_write_consume simp del: length_concat)

declare write_all.simps [simp del]

definition flush_snapshot :: "(nat \<Rightarrow> js_error + nat) \<Rightarrow> snap_writer \<Rightarrow> js_error option \<times> snap_writer" where
  "flush_snapshot io s =
     (if sn_batch s = [] then (None, s)
      else case write_all io (sn_batch s) 0 s of
        (Some e, s') \<Rightarrow> (Some e, s')
      | (None, s') \<Rightarrow> (None, s'\<lparr> sn_batch := [], sn_batchBytes := 0 \<rparr>))"

text \<open>One turn of the loop; \<open>json\<close> is the text \<open>JSON.stringify\<close> gives for \<open>{ dt }\<close>.\<close>

definition snap_entry ::
  "(dt \<Rightarrow> bytes) \<Rightarrow> (nat \<Rightarrow> js_error + nat) \<Rightarrow> store_entry \<Rightarrow> snap_writer \<Rightarrow> js_error option \<times> snap_writer" where
  "snap_entry json io e s =
     (case encodeFrame TYPE_SET (ekey e) (Some (evalue e)) (map_option json (edt e)) (eexpire e) of
        Inl err \<Rightarrow> (Some err, s)
      | Inr frame \<Rightarrow>
          let frameOff = sn_bytes s + sn_batchBytes s;
              loc = \<lparr> lfile = Snapshot, loff = frameOff + HEADER_SIZE + length (ekey e), llen = length (evalue e) \<rparr>;
              s' = s\<lparr> sn_locs := jset (toKStr (ekey e)) loc (sn_locs s),
                      sn_batch := sn_batch s @ [frame], sn_batchBytes := sn_batchBytes s + length frame,
                      sn_count := sn_count s + 1 \<rparr> in
          if sn_batchBytes s' \<ge> FLUSH_BYTES then flush_snapshot io s' else (None, s'))"

fun snap_loop ::
  "(dt \<Rightarrow> bytes) \<Rightarrow> (nat \<Rightarrow> js_error + nat) \<Rightarrow> (js_error + store_entry) list \<Rightarrow> snap_writer \<Rightarrow>
     js_error option \<times> snap_writer" where
  "snap_loop json io [] s = (None, s)"
| "snap_loop json io (Inl err # es) s = (Some err, s)"
| "snap_loop json io (Inr e # es) s =
     (case snap_entry json io e s of
        (Some err, s') \<Rightarrow> (Some err, s')
      | (None, s') \<Rightarrow> snap_loop json io es s')"

record snapshot_result =
  sr_count :: nat
  sr_bytes :: nat
  sr_locs :: "(kstr, value_loc) jmap"

definition writeSnapshot ::
  "(dt \<Rightarrow> bytes) \<Rightarrow> (nat \<Rightarrow> js_error + nat) \<Rightarrow> js_error option \<Rightarrow> (js_error + store_entry) list \<Rightarrow>
     (js_error + snapshot_result) \<times> bytes" where
  "writeSnapshot json io fsync es =
     (case snap_loop json io es new_snap of
        (Some e, s) \<Rightarrow> (Inl e, sn_file s)
      | (None, s) \<Rightarrow>
          (case flush_snapshot io s of
             (Some e, s') \<Rightarrow> (Inl e, sn_file s')
           | (None, s') \<Rightarrow>
               (case fsync of
                  Some e \<Rightarrow> Inl e
                | None \<Rightarrow> Inr \<lparr> sr_count = sn_count s', sr_bytes = sn_bytes s', sr_locs = sn_locs s' \<rparr>,
                sn_file s')))"

section \<open>Which records the generator yields\<close>

fun writes_key :: "kstr \<Rightarrow> mutation \<Rightarrow> bool" where
  "writes_key k (MSet key ref e d) \<longleftrightarrow> toKStr key = k"
| "writes_key k (MDel key) \<longleftrightarrow> toKStr key = k"
| "writes_key k (MExpire t k') \<longleftrightarrow> False"

fun expires_by :: "int \<Rightarrow> mutation \<Rightarrow> bool" where
  "expires_by now (MExpire t k) \<longleftrightarrow> t \<le> now"
| "expires_by now m \<longleftrightarrow> True"

definition mutations :: "snap_event list \<Rightarrow> mutation list" where
  "mutations evs = concat (map (\<lambda>e. case e of Visit \<Rightarrow> [] | Mutate m \<Rightarrow> [m]) evs)"

lemma mutations_simps [simp]:
  "mutations [] = []" "mutations (Visit # evs) = mutations evs" "mutations (Mutate m # evs) = m # mutations evs"
  by (simp_all add: mutations_def)

text \<open>Every mutation sets or deletes one key of the Map; an expiry deletes only what has expired.\<close>

lemma smap_mutate:
  obtains k r where "smap (mutate jb m st) = jset k r (smap st)" "writes_key k m"
  | k where "smap (mutate jb m st) = jdel k (smap st)"
      "writes_key k m \<or> (\<exists>t. m = MExpire t k \<and> (\<forall>r. jget (smap st) k = Some r \<longrightarrow> \<not> is_live t r))"
  | "smap (mutate jb m st) = smap st"
proof (cases m)
  case (MSet key ref e d)
  then show ?thesis using that(1) by (simp add: smap_setRef)
next
  case (MDel key)
  then show ?thesis using that(2) by (simp add: store_del_def smap_remove)
next
  case (MExpire t k)
  show ?thesis
  proof (cases "jget (smap st) k")
    case None
    then show ?thesis using that(3) MExpire by (simp add: getRecord_def)
  next
    case (Some r)
    then show ?thesis
      using that(2,3) MExpire
      by (cases "is_live t r") (auto simp: getRecord_def is_live_def expireKey_eq smap_remove)
  qed
qed

lemma jget_mutate:
  assumes "\<not> writes_key k m"
  shows "jget (smap (mutate jb m st)) k = jget (smap st) k \<or>
    (jget (smap (mutate jb m st)) k = None \<and> (\<exists>t. m = MExpire t k \<and> (\<forall>r. jget (smap st) k = Some r \<longrightarrow> \<not> is_live t r)))"
  by (rule smap_mutate [of jb m st]) (use assms in auto)

lemma is_live_mono: "is_live now r \<Longrightarrow> t \<le> now \<Longrightarrow> is_live t r"
  by (auto simp: is_live_def)

text \<open>The keys the generator has still to pass.\<close>

definition ahead :: "store \<Rightarrow> gen \<Rightarrow> kstr set" where
  "ahead st g = (if gdone g then {} else fst ` set (drop (gpos g) (smap st)))"

lemma drop_filter: "drop (length (filter P (take n xs))) (filter P xs) = filter P (drop n xs)"
proof -
  have "filter P xs = filter P (take n xs) @ filter P (drop n xs)" by (simp flip: filter_append)
  then show ?thesis by simp
qed

lemma jset_prefix: "\<exists>ys. map fst (jset k r m) = map fst m @ ys"
  by (induction m) auto

lemma take_keys: "(k, r) \<in> set (take n m) \<Longrightarrow> k \<in> fst ` set m"
  by (force dest: in_set_takeD)

lemma ahead_mutate:
  assumes "k \<in> ahead st g" "k \<in> fst ` set (smap (mutate jb m st))"
  shows "k \<in> ahead (mutate jb m st) (gen_shift st (mutate jb m st) g)"
proof -
  let ?st = "mutate jb m st"
  have nd: "\<not> gdone g" and k: "k \<in> set (drop (gpos g) (map fst (smap st)))"
    using assms(1) by (auto simp: ahead_def drop_map split: if_splits)
  show ?thesis
  proof (rule smap_mutate [of jb m st])
    fix k' r assume s: "smap ?st = jset k' r (smap st)"
    obtain ys where ys: "map fst (smap ?st) = map fst (smap st) @ ys" using s jset_prefix by metis
    have "filter (\<lambda>(k, r). k \<in> fst ` set (smap ?st)) (take (gpos g) (smap st)) = take (gpos g) (smap st)"
      by (rule filter_True) (auto simp: s dest: take_keys)
    then have "gpos (gen_shift st ?st g) \<le> gpos g" by (simp add: gen_shift_def)
    then have "set (drop (gpos g) (map fst (smap st))) \<subseteq> set (drop (gpos (gen_shift st ?st g)) (map fst (smap ?st)))"
      unfolding ys using set_drop_subset_set_drop by fastforce
    with k nd show ?thesis by (auto simp: ahead_def gen_shift_def drop_map)
  next
    fix k' assume s: "smap ?st = jdel k' (smap st)"
    have P: "(\<lambda>(k, r). k \<in> fst ` set (smap ?st)) x = (fst x \<noteq> k')" if "x \<in> set (smap st)" for x
      using that by (auto simp: s split: prod.splits) force
    have "filter (\<lambda>(k, r). k \<in> fst ` set (smap ?st)) (take (gpos g) (smap st)) =
        filter (\<lambda>x. fst x \<noteq> k') (take (gpos g) (smap st))"
      using P by (intro filter_cong refl) (auto dest: in_set_takeD)
    moreover have "smap ?st = filter (\<lambda>x. fst x \<noteq> k') (smap st)"
      unfolding s AList.delete_eq by (rule filter_cong) auto
    ultimately have "drop (gpos (gen_shift st ?st g)) (smap ?st) = filter (\<lambda>x. fst x \<noteq> k') (drop (gpos g) (smap st))"
      by (simp add: gen_shift_def drop_filter)
    moreover have "k \<noteq> k'" using assms(2) s by auto
    ultimately show ?thesis using k nd by (auto simp: ahead_def gen_shift_def drop_map)
  next
    assume s: "smap ?st = smap st"
    have "filter (\<lambda>(k, r). k \<in> fst ` set (smap ?st)) (take (gpos g) (smap st)) = take (gpos g) (smap st)"
      by (rule filter_True) (auto simp: s dest: take_keys)
    with k nd show ?thesis by (auto simp: ahead_def gen_shift_def s drop_map min_def)
  qed
qed

lemma next_live_spec:
  "next_live now xs = (x, n) \<Longrightarrow>
     n \<le> length xs \<and>
     (case x of
        None \<Rightarrow> n = length xs \<and> (\<forall>(k, r) \<in> set xs. \<not> is_live now r)
      | Some p \<Rightarrow> 0 < n \<and> p = xs ! (n - 1) \<and> is_live now (snd p) \<and> (\<forall>(k, r) \<in> set (take (n - 1) xs). \<not> is_live now r))"
proof (induction xs arbitrary: x n rule: next_live.induct)
  case (2 now k r xs)
  show ?case
  proof (cases "is_live now r")
    case True
    then show ?thesis using "2.prems" by auto
  next
    case False
    obtain x' n' where n': "next_live now xs = (x', n')" by fastforce
    with False "2.prems" have xn: "x = x'" "n = n' + 1" by auto
    from "2.IH" [OF False n'] show ?thesis
      using False xn by (cases x'; cases n') (auto simp: nth_Cons' take_Cons')
  qed
qed simp

definition keys_ok :: "store \<Rightarrow> bool" where
  "keys_ok st \<longleftrightarrow> jmap_ok (smap st) \<and> (\<forall>k \<in> fst ` set (smap st). kstr_ok k)"

lemma keys_ok_mutate: "keys_ok st \<Longrightarrow> keys_ok (mutate jb m st)"
proof (cases m)
  case (MExpire t k)
  assume "keys_ok st"
  then show ?thesis
    unfolding MExpire keys_ok_def
    by (rule_tac smap_mutate [of jb "MExpire t k" st]) (auto simp: MExpire)
qed (auto simp: keys_ok_def smap_setRef store_del_def smap_remove)

text \<open>A resumed generator yields the next live record, and passes only records that are not.\<close>

lemma gen_resume_spec:
  assumes "gen_resume rd now st g = (x, g')" "\<And>e. x \<noteq> Some (Inl e)" "jmap_ok (smap st)"
  shows "(case x of
      None \<Rightarrow> (\<forall>k \<in> ahead st g. \<forall>r. jget (smap st) k = Some r \<longrightarrow> \<not> is_live now r)
    | Some y \<Rightarrow> \<exists>k r e. y = Inr e \<and> jget (smap st) k = Some r \<and> entry_of rd k r = Inr e \<and> is_live now r \<and>
        (\<forall>k' \<in> ahead st g. k' = k \<or> k' \<in> ahead st g' \<or> (\<forall>r. jget (smap st) k' = Some r \<longrightarrow> \<not> is_live now r)))"
proof (cases "gdone g")
  case True
  then show ?thesis using assms(1) by (auto simp: gen_resume_def ahead_def)
next
  case False
  define xs where "xs = drop (gpos g) (smap st)"
  have mem: "jget (smap st) k = Some r" if "(k, r) \<in> set xs" for k r
    using that assms(3) by (auto simp: xs_def jget_mem [symmetric] dest: in_set_dropD)
  have ah: "ahead st g = fst ` set xs" using False by (simp add: ahead_def xs_def)
  obtain y n where y: "next_live now xs = (y, n)" by fastforce
  note sp = next_live_spec [OF y]
  show ?thesis
  proof (cases y)
    case None
    then have "x = None" using assms(1) False y by (auto simp: gen_resume_def xs_def)
    then show ?thesis using sp None mem ah by fastforce
  next
    case (Some p)
    obtain k r where p: "p = (k, r)" by fastforce
    with Some sp have n: "0 < n" "n \<le> length xs" "(k, r) = xs ! (n - 1)" "is_live now r"
      "\<forall>(k, r) \<in> set (take (n - 1) xs). \<not> is_live now r" by auto
    have kr: "jget (smap st) k = Some r" by (rule mem) (use n in \<open>auto intro: nth_mem\<close>)
    obtain e where e: "entry_of rd k r = Inr e" "x = Some (Inr e)" "g' = \<lparr> gpos = gpos g + n, gdone = False \<rparr>"
      using assms(1,2) False y Some p by (auto simp: gen_resume_def xs_def split: sum.splits)
    have ah': "ahead st g' = fst ` set (drop n xs)" by (simp add: ahead_def e(3) xs_def add.commute)
    have split: "xs = take (n - 1) xs @ (k, r) # drop n xs"
      using n id_take_nth_drop [of "n - 1" xs] by (simp add: Suc_diff_Suc)
    have "k' = k \<or> k' \<in> ahead st g' \<or> (\<forall>r. jget (smap st) k' = Some r \<longrightarrow> \<not> is_live now r)"
      if k': "k' \<in> ahead st g" for k'
    proof -
      from k' obtain r' where r': "(k', r') \<in> set xs" by (auto simp: ah)
      then consider "(k', r') \<in> set (take (n - 1) xs)" | "k' = k" | "(k', r') \<in> set (drop n xs)"
        by (subst (asm) split) auto
      then show ?thesis
      proof cases
        case 1
        then show ?thesis using n(5) mem [OF r'] by auto
      next
        case 3
        then show ?thesis unfolding ah' by force
      qed simp
    qed
    then show ?thesis using e kr n(4) by auto
  qed
qed

text \<open>
  The heart of the fuzzy snapshot: a record that nobody writes while the generator runs is the
  record the snapshot has of its key, and it is there when it is still live at the end.
\<close>

lemma entries_under_quiet:
  assumes "entries_under jb rd t0 evs st g = (map Inr es, st', g')"
    and "\<forall>m \<in> set (mutations evs). expires_by now m \<and> \<not> writes_key k m" "t0 \<le> now" "keys_ok st"
  shows "jget (smap st') k = jget (smap st) k \<or>
      jget (smap st') k = None \<and> (\<forall>r. jget (smap st) k = Some r \<longrightarrow> \<not> is_live now r)"
    and "\<forall>e \<in> set es. toKStr (ekey e) = k \<longrightarrow> (\<exists>r. jget (smap st) k = Some r \<and> entry_of rd k r = Inr e)"
    and "gdone g' \<Longrightarrow> k \<in> ahead st g \<Longrightarrow> jget (smap st) k = Some r \<Longrightarrow> is_live now r \<Longrightarrow>
      \<exists>e \<in> set es. toKStr (ekey e) = k"
proof -
  have "(jget (smap st') k = jget (smap st) k \<or>
      jget (smap st') k = None \<and> (\<forall>r. jget (smap st) k = Some r \<longrightarrow> \<not> is_live now r)) \<and>
    (\<forall>e \<in> set es. toKStr (ekey e) = k \<longrightarrow> (\<exists>r. jget (smap st) k = Some r \<and> entry_of rd k r = Inr e)) \<and>
    (gdone g' \<longrightarrow> k \<in> ahead st g \<longrightarrow> (\<forall>r. jget (smap st) k = Some r \<longrightarrow> is_live now r \<longrightarrow>
      (\<exists>e \<in> set es. toKStr (ekey e) = k)))"
    using assms
  proof (induction evs arbitrary: st g es)
    case Nil
    then show ?case by (auto simp: ahead_def)
  next
    case (Cons ev evs)
    show ?case
    proof (cases ev)
      case Visit
      obtain x g1 where x: "gen_resume rd t0 st g = (x, g1)" by fastforce
      obtain es1 where es1: "entries_under jb rd t0 evs st g1 = (es1, st', g')"
        "(case x of None \<Rightarrow> es1 | Some e \<Rightarrow> e # es1) = map Inr es"
        using Cons.prems(1) x Visit by (auto split: prod.splits)
      have noerr: "x \<noteq> Some (Inl e)" for e using es1(2) by (cases es) auto
      obtain es2 where es2: "es1 = map Inr es2" "es = (case x of None \<Rightarrow> es2 | Some y \<Rightarrow> projr y # es2)"
      proof (cases x)
        case None
        then show ?thesis using that es1(2) by simp
      next
        case (Some y)
        then show ?thesis using that [of "tl es"] es1(2) by (cases es) auto
      qed
      have IH: "(jget (smap st') k = jget (smap st) k \<or>
          jget (smap st') k = None \<and> (\<forall>r. jget (smap st) k = Some r \<longrightarrow> \<not> is_live now r)) \<and>
        (\<forall>e \<in> set es2. toKStr (ekey e) = k \<longrightarrow> (\<exists>r. jget (smap st) k = Some r \<and> entry_of rd k r = Inr e)) \<and>
        (gdone g' \<longrightarrow> k \<in> ahead st g1 \<longrightarrow> (\<forall>r. jget (smap st) k = Some r \<longrightarrow> is_live now r \<longrightarrow>
          (\<exists>e \<in> set es2. toKStr (ekey e) = k)))"
        using Cons.IH [OF es1(1) [unfolded es2(1)]] Cons.prems(2-4) Visit by simp
      have jm: "jmap_ok (smap st)" using Cons.prems(4) by (simp add: keys_ok_def)
      note sp = gen_resume_spec [OF x noerr jm]
      show ?thesis
      proof (cases x)
        case None
        then show ?thesis using IH es2(2) sp is_live_mono [OF _ Cons.prems(3)] by auto
      next
        case (Some y)
        then obtain k1 r1 e1 where e1: "y = Inr e1" "jget (smap st) k1 = Some r1" "entry_of rd k1 r1 = Inr e1"
          "\<forall>k' \<in> ahead st g. k' = k1 \<or> k' \<in> ahead st g1 \<or> (\<forall>r. jget (smap st) k' = Some r \<longrightarrow> \<not> is_live t0 r)"
          using sp by auto
        have "k1 \<in> fst ` set (smap st)" using e1(2) by (metis jget_None_iff option.distinct(1))
        with e1(3) Cons.prems(4) have "toKStr (ekey e1) = k1"
          by (auto simp: entry_of_def keys_ok_def map_sum_def split: sum.splits)
        moreover have "es = e1 # es2" using es2(2) Some e1(1) by simp
        ultimately show ?thesis using IH e1 is_live_mono [OF _ Cons.prems(3)] by auto
      qed
    next
      case (Mutate m)
      define st1 where "st1 = mutate jb m st"
      have run: "entries_under jb rd t0 evs st1 (gen_shift st st1 g) = (map Inr es, st', g')"
        using Cons.prems(1) Mutate by (simp add: st1_def Let_def)
      have IH: "(jget (smap st') k = jget (smap st1) k \<or>
          jget (smap st') k = None \<and> (\<forall>r. jget (smap st1) k = Some r \<longrightarrow> \<not> is_live now r)) \<and>
        (\<forall>e \<in> set es. toKStr (ekey e) = k \<longrightarrow> (\<exists>r. jget (smap st1) k = Some r \<and> entry_of rd k r = Inr e)) \<and>
        (gdone g' \<longrightarrow> k \<in> ahead st1 (gen_shift st st1 g) \<longrightarrow> (\<forall>r. jget (smap st1) k = Some r \<longrightarrow> is_live now r \<longrightarrow>
          (\<exists>e \<in> set es. toKStr (ekey e) = k)))"
        using Cons.IH [OF run] Cons.prems(2-4) Mutate keys_ok_mutate [OF Cons.prems(4), of jb m] by (simp add: st1_def)
      have m: "\<not> writes_key k m" "expires_by now m" using Cons.prems(2) Mutate by auto
      have same: "jget (smap st1) k = jget (smap st) k \<or>
          jget (smap st1) k = None \<and> (\<forall>r. jget (smap st) k = Some r \<longrightarrow> \<not> is_live now r)"
        using jget_mutate [OF m(1), of jb st] m(2) is_live_mono by (auto simp: st1_def)
      have ah: "k \<in> ahead st1 (gen_shift st st1 g)" if "k \<in> ahead st g" "jget (smap st1) k = Some r" for r
        using ahead_mutate [of k st g jb m] that by (auto simp: st1_def) (metis jget_None_iff option.distinct(1))
      show ?thesis using IH same ah by auto
    qed
  qed
  then show "jget (smap st') k = jget (smap st) k \<or>
      jget (smap st') k = None \<and> (\<forall>r. jget (smap st) k = Some r \<longrightarrow> \<not> is_live now r)"
    and "\<forall>e \<in> set es. toKStr (ekey e) = k \<longrightarrow> (\<exists>r. jget (smap st) k = Some r \<and> entry_of rd k r = Inr e)"
    and "gdone g' \<Longrightarrow> k \<in> ahead st g \<Longrightarrow> jget (smap st) k = Some r \<Longrightarrow> is_live now r \<Longrightarrow>
      \<exists>e \<in> set es. toKStr (ekey e) = k" by blast+
qed

section \<open>The file that is written\<close>

definition entry_input :: "(dt \<Rightarrow> bytes) \<Rightarrow> store_entry \<Rightarrow> frame_input" where
  "entry_input json e = \<lparr> itype = TYPE_SET, ikey = ekey e, ivalue = Some (evalue e),
     imeta = map_option json (edt e), iexpire = eexpire e \<rparr>"

abbreviation entry_stream :: "(dt \<Rightarrow> bytes) \<Rightarrow> store_entry list \<Rightarrow> bytes" where
  "entry_stream json es \<equiv> stream (map (entry_input json) es)"

text \<open>The location of a key: the value of its last entry.\<close>

definition last_loc :: "(dt \<Rightarrow> bytes) \<Rightarrow> store_entry list \<Rightarrow> kstr \<Rightarrow> value_loc \<Rightarrow> bool" where
  "last_loc json es k loc \<longleftrightarrow>
     (\<exists>pre e post. es = pre @ e # post \<and> toKStr (ekey e) = k \<and> (\<forall>e' \<in> set post. toKStr (ekey e') \<noteq> k) \<and>
        loc = \<lparr> lfile = Snapshot, loff = length (entry_stream json pre) + HEADER_SIZE + length (ekey e),
                llen = length (evalue e) \<rparr>)"

definition snap_inv :: "(dt \<Rightarrow> bytes) \<Rightarrow> store_entry list \<Rightarrow> snap_writer \<Rightarrow> bool" where
  "snap_inv json es s \<longleftrightarrow>
     sn_file s @ concat (sn_batch s) = entry_stream json es \<and>
     sn_bytes s = length (sn_file s) \<and> sn_batchBytes s = length (concat (sn_batch s)) \<and>
     [] \<notin> set (sn_batch s) \<and> sn_count s = length es \<and> list_all input_fits (map (entry_input json) es) \<and>
     (\<forall>e \<in> set es. jget (sn_locs s) (toKStr (ekey e)) \<noteq> None) \<and>
     (\<forall>k loc. jget (sn_locs s) k = Some loc \<longrightarrow> last_loc json es k loc)"

lemma snap_inv_new: "snap_inv json [] new_snap"
  by (simp add: snap_inv_def new_snap_def)

lemma write_all_ok:
  "write_all io bufs off s = (None, s') \<Longrightarrow>
     \<exists>n. s' = s\<lparr> sn_calls := n, sn_file := sn_file s @ concat (to_write bufs off),
          sn_bytes := sn_bytes s + length (concat (to_write bufs off)) \<rparr>"
proof (induction io bufs off s rule: write_all.induct)
  case (1 io bufs off s)
  show ?case
  proof (cases "bufs = []")
    case True
    with "1.prems" have "s' = s" by (simp add: write_all.simps [of io "[]" off s])
    with True show ?thesis by (intro exI [of _ "sn_calls s"]) simp
  next
    case False
    define data where "data = concat (to_write bufs off)"
    from "1.prems" False obtain n where n: "io (sn_calls s) = Inr n"
      by (subst (asm) write_all.simps) (auto split: sum.splits)
    define w where "w = min n (length data)"
    define s1 where "s1 = s\<lparr> sn_calls := sn_calls s + 1, sn_file := sn_file s @ take w data, sn_bytes := sn_bytes s + w \<rparr>"
    have step: "write_all io bufs off s = (if w = 0 then (Some (Error ''snapshot writev made no progress (short write)''), s1)
        else write_all io (fst (consume w bufs off)) (snd (consume w bufs off)) s1)"
      by (subst write_all.simps) (simp only: Let_def if_not_P [OF False] n sum.case w_def s1_def data_def)
    have w: "w \<noteq> 0"
    proof
      assume "w = 0"
      with step "1.prems" show False by simp
    qed
    have le: "w \<le> length (concat (to_write bufs off))" by (simp add: w_def data_def del: length_concat)
    have rest: "write_all io (fst (consume w bufs off)) (snd (consume w bufs off)) s1 = (None, s')"
      using step w "1.prems" by simp
    from "1.IH" [OF False n data_def w_def s1_def w rest]
    obtain m where m: "s' = s1\<lparr> sn_calls := m, sn_file := sn_file s1 @ drop w data, sn_bytes := sn_bytes s1 + length (drop w data) \<rparr>"
      unfolding concat_to_write_consume [OF le] data_def [symmetric] by blast
    have "w + length (drop w data) = length data" using le by (simp add: data_def del: length_concat)
    with m show ?thesis by (auto simp: s1_def data_def [symmetric] add.assoc simp del: length_concat length_drop)
  qed
qed

lemma flush_snapshot_ok:
  assumes "snap_inv json es s" "flush_snapshot io s = (None, s')"
  shows "snap_inv json es s' \<and> sn_batch s' = []"
proof (cases "sn_batch s = []")
  case True
  then show ?thesis using assms by (simp add: flush_snapshot_def)
next
  case False
  then obtain s1 where s1: "write_all io (sn_batch s) 0 s = (None, s1)" "s' = s1\<lparr> sn_batch := [], sn_batchBytes := 0 \<rparr>"
    using assms(2) by (auto simp: flush_snapshot_def split: prod.splits option.splits)
  have len: "length (sn_file s) + length (concat (sn_batch s)) = length (entry_stream json es)"
    using assms(1) unfolding snap_inv_def by (metis length_append)
  from write_all_ok [OF s1(1)] show ?thesis
    using assms(1) len by (auto simp: s1(2) snap_inv_def simp del: length_concat)
qed

lemma last_loc_snoc:
  "last_loc json (es @ [e]) k loc \<longleftrightarrow>
     (if toKStr (ekey e) = k
      then loc = \<lparr> lfile = Snapshot, loff = length (entry_stream json es) + HEADER_SIZE + length (ekey e),
                   llen = length (evalue e) \<rparr>
      else last_loc json es k loc)"
proof -
  have split: "es @ [e] = pre @ x # post \<longleftrightarrow> (post = [] \<and> pre = es \<and> x = e) \<or> (\<exists>p. post = p @ [e] \<and> es = pre @ x # p)"
    for pre x post by (cases post rule: rev_cases) auto
  show ?thesis
  proof (cases "toKStr (ekey e) = k")
    case True
    then have "last_loc json (es @ [e]) k loc" if "loc = \<lparr> lfile = Snapshot,
        loff = length (entry_stream json es) + HEADER_SIZE + length (ekey e), llen = length (evalue e) \<rparr>"
      unfolding last_loc_def using that by (intro exI [of _ es] exI [of _ e] exI [of _ "[]"]) simp
    with True show ?thesis unfolding last_loc_def split by auto
  next
    case False
    then have "last_loc json (es @ [e]) k loc \<Longrightarrow> last_loc json es k loc"
      unfolding last_loc_def split by fastforce
    moreover have "last_loc json es k loc \<Longrightarrow> last_loc json (es @ [e]) k loc"
    proof -
      assume "last_loc json es k loc"
      then obtain pre x post where p: "es = pre @ x # post" "toKStr (ekey x) = k" "\<forall>e' \<in> set post. toKStr (ekey e') \<noteq> k"
        "loc = \<lparr> lfile = Snapshot, loff = length (entry_stream json pre) + HEADER_SIZE + length (ekey x), llen = length (evalue x) \<rparr>"
        unfolding last_loc_def by blast
      then show ?thesis unfolding last_loc_def using False
        by (intro exI [of _ pre] exI [of _ x] exI [of _ "post @ [e]"]) simp
    qed
    ultimately show ?thesis using False by auto
  qed
qed

lemma snap_entry_ok:
  assumes "snap_inv json es s" "snap_entry json io e s = (None, s')"
  shows "snap_inv json (es @ [e]) s'"
proof -
  from assms(2) obtain fr where fr: "encodeFrame TYPE_SET (ekey e) (Some (evalue e)) (map_option json (edt e)) (eexpire e) = Inr fr"
    by (auto simp: snap_entry_def split: sum.splits)
  then have fits: "input_fits (entry_input json e)" and bytes: "fr = input_bytes (entry_input json e)"
    by (auto simp: encodeFrame_Inr_iff input_fits_def input_bytes_def entry_input_def)
  define loc where "loc = \<lparr> lfile = Snapshot, loff = sn_bytes s + sn_batchBytes s + HEADER_SIZE + length (ekey e), llen = length (evalue e) \<rparr>"
  define s1 where "s1 = s\<lparr> sn_locs := jset (toKStr (ekey e)) loc (sn_locs s), sn_batch := sn_batch s @ [fr],
      sn_batchBytes := sn_batchBytes s + length fr, sn_count := sn_count s + 1 \<rparr>"
  have len: "sn_bytes s + sn_batchBytes s = length (entry_stream json es)"
    using assms(1) unfolding snap_inv_def by (metis length_append)
  have len': "length (sn_file s) + length (concat (sn_batch s)) = length (entry_stream json es)"
    using assms(1) unfolding snap_inv_def by (metis length_append)
  have inv: "snap_inv json (es @ [e]) s1"
    using assms(1) fits len'
    by (auto simp: snap_inv_def s1_def bytes last_loc_snoc loc_def len input_bytes_neq_Nil [symmetric]
        simp flip: append_assoc simp del: length_concat)
  have "flush_snapshot io s1 = (None, s') \<or> s' = s1"
    using assms(2) fr by (auto simp: snap_entry_def Let_def s1_def loc_def split: if_splits)
  then show ?thesis using inv flush_snapshot_ok [OF inv] by auto
qed

lemma snap_loop_ok:
  "snap_loop json io (map Inr es) s = (None, s') \<Longrightarrow> snap_inv json ds s \<Longrightarrow> snap_inv json (ds @ es) s'"
proof (induction es arbitrary: s ds)
  case (Cons e es)
  then obtain s1 where s1: "snap_entry json io e s = (None, s1)" "snap_loop json io (map Inr es) s1 = (None, s')"
    by (auto split: prod.splits option.splits)
  from Cons.IH [OF s1(2) snap_entry_ok [OF Cons.prems(2) s1(1)]] show ?case by simp
qed simp

lemma snap_loop_no_error: "snap_loop json io xs s = (None, s') \<Longrightarrow> \<exists>es. xs = map Inr es"
proof (induction xs arbitrary: s)
  case (Cons x xs)
  then show ?case
    by (cases x) (fastforce split: prod.splits option.splits intro: exI [of _ "_ # _"])+
qed simp

lemma writeSnapshot_no_error:
  "writeSnapshot json io fsync xs = (Inr res, fd) \<Longrightarrow> \<exists>es. xs = map Inr es"
  using snap_loop_no_error [of json io xs] by (auto simp: writeSnapshot_def split: prod.splits option.splits)

lemma writeSnapshot_ok:
  assumes "writeSnapshot json io fsync (map Inr es) = (Inr res, fd)"
  shows "fd = entry_stream json es" "list_all input_fits (map (entry_input json) es)"
    "sr_count res = length es" "sr_bytes res = length fd"
    "e \<in> set es \<Longrightarrow> \<exists>loc. jget (sr_locs res) (toKStr (ekey e)) = Some loc"
    "jget (sr_locs res) k = Some loc \<Longrightarrow> last_loc json es k loc"
proof -
  from assms obtain s s' where s: "snap_loop json io (map Inr es) new_snap = (None, s)" "flush_snapshot io s = (None, s')"
    "res = \<lparr> sr_count = sn_count s', sr_bytes = sn_bytes s', sr_locs = sn_locs s' \<rparr>" "fd = sn_file s'"
    by (auto simp: writeSnapshot_def split: prod.splits option.splits)
  have inv: "snap_inv json es s'" "sn_batch s' = []"
    using flush_snapshot_ok [OF _ s(2), of json es] snap_loop_ok [OF s(1) snap_inv_new] by simp_all
  then show "fd = entry_stream json es" "list_all input_fits (map (entry_input json) es)"
    "sr_count res = length es" "sr_bytes res = length fd"
    "e \<in> set es \<Longrightarrow> \<exists>loc. jget (sr_locs res) (toKStr (ekey e)) = Some loc"
    "jget (sr_locs res) k = Some loc \<Longrightarrow> last_loc json es k loc"
    by (auto simp: snap_inv_def s(3,4))
qed

text \<open>What a successful snapshot is depends on the entries only, not on how its writes were split.\<close>

fun locs_of :: "(dt \<Rightarrow> bytes) \<Rightarrow> store_entry list \<Rightarrow> store_entry list \<Rightarrow> (kstr, value_loc) jmap \<Rightarrow> (kstr, value_loc) jmap" where
  "locs_of json ds [] m = m"
| "locs_of json ds (e # es) m =
     locs_of json (ds @ [e]) es (jset (toKStr (ekey e)) \<lparr> lfile = Snapshot,
       loff = length (entry_stream json ds) + HEADER_SIZE + length (ekey e), llen = length (evalue e) \<rparr> m)"

lemma flush_snapshot_locs: "flush_snapshot io s = (None, s') \<Longrightarrow> sn_locs s' = sn_locs s"
  using write_all_ok [of io "sn_batch s" 0 s] by (fastforce simp: flush_snapshot_def split: if_splits prod.splits option.splits)

lemma snap_entry_locs:
  assumes "snap_inv json ds s" "snap_entry json io e s = (None, s')"
  shows "sn_locs s' = jset (toKStr (ekey e)) \<lparr> lfile = Snapshot,
    loff = length (entry_stream json ds) + HEADER_SIZE + length (ekey e), llen = length (evalue e) \<rparr> (sn_locs s)"
proof -
  have len: "sn_bytes s + sn_batchBytes s = length (entry_stream json ds)"
    using assms(1) unfolding snap_inv_def by (metis length_append)
  show ?thesis using assms(2) len
    by (auto simp: snap_entry_def Let_def dest!: flush_snapshot_locs split: sum.splits if_splits)
qed

lemma snap_loop_locs:
  "snap_loop json io (map Inr es) s = (None, s') \<Longrightarrow> snap_inv json ds s \<Longrightarrow> sn_locs s' = locs_of json ds es (sn_locs s)"
proof (induction es arbitrary: s ds)
  case (Cons e es)
  then obtain s1 where s1: "snap_entry json io e s = (None, s1)" "snap_loop json io (map Inr es) s1 = (None, s')"
    by (auto split: prod.splits option.splits)
  from Cons.IH [OF s1(2) snap_entry_ok [OF Cons.prems(2) s1(1)]] show ?case
    by (simp add: snap_entry_locs [OF Cons.prems(2) s1(1)])
qed simp

lemma writeSnapshot_result:
  assumes "writeSnapshot json io fsync (map Inr es) = (Inr res, fd)"
  shows "fd = entry_stream json es \<and>
    res = \<lparr> sr_count = length es, sr_bytes = length (entry_stream json es), sr_locs = locs_of json [] es [] \<rparr>"
proof -
  obtain s s' where s: "snap_loop json io (map Inr es) new_snap = (None, s)" "flush_snapshot io s = (None, s')"
    "sr_locs res = sn_locs s'"
    using assms by (auto simp: writeSnapshot_def split: prod.splits option.splits)
  have "sr_locs res = locs_of json [] es []"
    using flush_snapshot_locs [OF s(2)] snap_loop_locs [OF s(1) snap_inv_new] s(3) by (simp add: new_snap_def)
  then show ?thesis using writeSnapshot_ok(1,3,4) [OF assms] by (cases res) simp
qed

lemma snap_loop_stops: "fst (snap_loop json io (xs @ [Inl e]) s) \<noteq> None"
proof (induction xs arbitrary: s)
  case (Cons x xs)
  show ?case using Cons.IH by (cases x) (auto split: prod.splits option.splits)
qed simp

lemma writeSnapshot_stops: "\<exists>e' b. writeSnapshot json io fsync (xs @ [Inl e]) = (Inl e', b)"
  using snap_loop_stops [of json io xs e new_snap] by (auto simp: writeSnapshot_def split: prod.splits option.splits)

lemma last_loc_value:
  assumes "last_loc json es k loc"
  obtains pre e post where "es = pre @ e # post" "toKStr (ekey e) = k" "\<forall>e' \<in> set post. toKStr (ekey e') \<noteq> k"
    "lfile loc = Snapshot" "loff loc + llen loc \<le> length (entry_stream json es)"
    "subarray (entry_stream json es) (loff loc) (loff loc + llen loc) = evalue e"
proof -
  from assms obtain pre e post where p: "es = pre @ e # post" "toKStr (ekey e) = k" "\<forall>e' \<in> set post. toKStr (ekey e') \<noteq> k"
    and loc: "loc = \<lparr> lfile = Snapshot, loff = length (entry_stream json pre) + HEADER_SIZE + length (ekey e),
                llen = length (evalue e) \<rparr>" by (auto simp: last_loc_def)
  have "entry_stream json es = entry_stream json pre @ (input_bytes (entry_input json e) @ entry_stream json post)"
    by (simp add: p(1))
  moreover have "subarray (input_bytes (entry_input json e) @ ys) (22 + length (ekey e)) (22 + length (ekey e) + length (evalue e)) = evalue e"
    for ys using frame_bytes_slices(3) [of TYPE_SET "ekey e" "Some (evalue e)"]
    by (simp add: input_bytes_def entry_input_def or_empty_def)
  moreover have "22 + length (ekey e) + length (evalue e) \<le> length (input_bytes (entry_input json e))"
    by (simp add: input_bytes_def length_frame_bytes size_defs entry_input_def or_empty_def)
  ultimately show thesis
    using that [OF p] by (simp add: loc subarray_append_right HEADER_SIZE_def add.assoc)
qed

lemma write_all_good:
  assumes "\<forall>n. \<exists>m > 0. io n = Inr m"
  shows "[] \<notin> set bufs \<Longrightarrow> (bufs \<noteq> [] \<Longrightarrow> off < length (hd bufs)) \<Longrightarrow> fst (write_all io bufs off s) = None"
proof (induction io\<equiv>io bufs off s rule: write_all.induct)
  case (1 bufs off s)
  show ?case
  proof (cases "bufs = []")
    case True
    then show ?thesis by (simp add: write_all.simps [of io "[]"])
  next
    case False
    obtain n where n: "io (sn_calls s) = Inr n" "n > 0" using assms by blast
    define data where "data = concat (to_write bufs off)"
    define w where "w = min n (length data)"
    define s1 where "s1 = s\<lparr> sn_calls := sn_calls s + 1, sn_file := sn_file s @ take w data, sn_bytes := sn_bytes s + w \<rparr>"
    obtain bo where bo: "consume w bufs off = bo" by blast
    have off: "off < length (hd bufs)" using "1.prems"(2) False by simp
    then have dat: "data = drop off (concat bufs)" "data \<noteq> []" using False by (cases bufs; simp add: data_def)+
    then have w: "w \<noteq> 0" using n(2) by (simp add: w_def)
    have step: "write_all io bufs off s = write_all io (fst bo) (snd bo) s1"
      by (subst write_all.simps)
        (simp only: Let_def if_not_P [OF False] n(1) sum.case w_def [symmetric] data_def [symmetric] s1_def [symmetric] if_not_P [OF w] bo)
    have le: "off \<le> length (concat bufs)" using off False by (cases bufs) auto
    have "drop (snd bo) (concat (fst bo)) = drop w (drop off (concat bufs)) \<and> set (fst bo) \<subseteq> set bufs \<and>
        (fst bo \<noteq> [] \<longrightarrow> snd bo < length (hd (fst bo)))"
      by (rule consume_spec [OF "1.prems"(1) off]) (use le bo dat in \<open>auto simp: w_def\<close>)
    then have "[] \<notin> set (fst bo)" "fst bo \<noteq> [] \<Longrightarrow> snd bo < length (hd (fst bo))" using "1.prems"(1) by auto
    from "1.hyps" [OF False n(1) data_def w_def s1_def w, unfolded bo] this show ?thesis
      unfolding step by blast
  qed
qed

lemma flush_snapshot_good:
  assumes "\<forall>n. \<exists>m > 0. io n = Inr m" "[] \<notin> set (sn_batch s)"
  shows "fst (flush_snapshot io s) = None"
proof -
  have "sn_batch s \<noteq> [] \<Longrightarrow> 0 < length (hd (sn_batch s))" using assms(2) by (cases "sn_batch s") auto
  from write_all_good [OF assms(1,2) this, where s = s] show ?thesis
    by (auto simp: flush_snapshot_def split: prod.splits option.splits)
qed

lemma snap_loop_good:
  assumes io: "\<forall>n. \<exists>m > 0. io n = Inr m"
  shows "list_all input_fits (map (entry_input json) es) \<Longrightarrow> snap_inv json ds s \<Longrightarrow>
     fst (snap_loop json io (map Inr es) s) = None"
proof (induction es arbitrary: s ds)
  case (Cons e es)
  obtain s1 r where s1: "snap_entry json io e s = (r, s1)" by fastforce
  have fr: "encodeFrame TYPE_SET (ekey e) (Some (evalue e)) (map_option json (edt e)) (eexpire e) =
      Inr (input_bytes (entry_input json e))"
    using Cons.prems(1) by (simp add: encodeFrame_Inr_iff input_fits_def entry_input_def input_bytes_def)
  define s0 where "s0 = s\<lparr> sn_locs := jset (toKStr (ekey e)) \<lparr> lfile = Snapshot,
        loff = sn_bytes s + sn_batchBytes s + HEADER_SIZE + length (ekey e), llen = length (evalue e) \<rparr> (sn_locs s),
      sn_batch := sn_batch s @ [input_bytes (entry_input json e)],
      sn_batchBytes := sn_batchBytes s + length (input_bytes (entry_input json e)), sn_count := sn_count s + 1 \<rparr>"
  have eq: "snap_entry json io e s = (if sn_batchBytes s0 \<ge> FLUSH_BYTES then flush_snapshot io s0 else (None, s0))"
    by (simp add: snap_entry_def fr Let_def s0_def)
  have "[] \<notin> set (sn_batch s0)" using Cons.prems(2) by (auto simp: snap_inv_def s0_def input_bytes_neq_Nil [symmetric])
  from flush_snapshot_good [OF io this] have "r = None" using s1 unfolding eq by (auto split: if_splits)
  with s1 have "snap_entry json io e s = (None, s1)" by simp
  then show ?case using Cons.IH [OF _ snap_entry_ok [OF Cons.prems(2)]] Cons.prems(1) by simp
qed simp

lemma writeSnapshot_good:
  assumes "\<forall>n. \<exists>m > 0. io n = Inr m" "list_all input_fits (map (entry_input json) es)"
  obtains res where "writeSnapshot json io None (map Inr es) = (Inr res, entry_stream json es)"
proof -
  obtain s where s: "snap_loop json io (map Inr es) new_snap = (None, s)"
    using snap_loop_good [OF assms snap_inv_new] by (metis fst_conv surj_pair)
  have inv: "snap_inv json es s" using snap_loop_ok [OF s snap_inv_new] by simp
  obtain s' where s': "flush_snapshot io s = (None, s')"
    using flush_snapshot_good [OF assms(1)] inv by (metis fst_conv snap_inv_def surj_pair)
  from flush_snapshot_ok [OF inv s'] have "sn_file s' = entry_stream json es" by (auto simp: snap_inv_def)
  then show thesis using that by (simp add: writeSnapshot_def s s')
qed

section \<open>Properties\<close>

text \<open>C31: A snapshot holds exactly the entries it was given. When no system call fails, however many bytes
  each \<open>writev\<close> takes, the file is the frames of the entries in order, it reads back as them without
  a corrupt range, \<open>count\<close> and \<open>bytes\<close> are right, and the location recorded for a key is the place in
  the file of the value of the last entry with that key.\<close>

theorem snapshot_exact:
  assumes "\<forall>n. \<exists>m > 0. io n = Inr m" "list_all input_fits (map (entry_input json) es)"
  defines "fd \<equiv> entry_stream json es"
  shows "\<exists>res. writeSnapshot json io None (map Inr es) = (Inr res, fd) \<and>
    sr_count res = length es \<and> sr_bytes res = length fd \<and>
    (\<forall>c. parseBuffer fd c = \<lparr> frames = map (\<lambda>e. input_frame (entry_input json e)) es, corruptRanges = [], eofOffset = length fd \<rparr>) \<and>
    (\<forall>e \<in> set es. \<exists>loc pre e' post. jget (sr_locs res) (toKStr (ekey e)) = Some loc \<and> lfile loc = Snapshot \<and>
       es = pre @ e' # post \<and> ekey e' = ekey e \<and> (\<forall>x \<in> set post. ekey x \<noteq> ekey e) \<and>
       subarray fd (loff loc) (loff loc + llen loc) = evalue e')"
proof -
  obtain res where res: "writeSnapshot json io None (map Inr es) = (Inr res, fd)"
    using writeSnapshot_good [OF assms(1,2)] unfolding fd_def by blast
  note ok = writeSnapshot_ok [OF res]
  have inj: "toKStr a = toKStr b \<longleftrightarrow> a = b" for a b by (metis fromKStr_toKStr)
  have "\<exists>loc pre e' post. jget (sr_locs res) (toKStr (ekey e)) = Some loc \<and> lfile loc = Snapshot \<and>
       es = pre @ e' # post \<and> ekey e' = ekey e \<and> (\<forall>x \<in> set post. ekey x \<noteq> ekey e) \<and>
       subarray fd (loff loc) (loff loc + llen loc) = evalue e'" if e: "e \<in> set es" for e
  proof -
    from ok(5) [OF e] obtain loc where loc: "jget (sr_locs res) (toKStr (ekey e)) = Some loc" by blast
    obtain pre e' post where p: "es = pre @ e' # post" "toKStr (ekey e') = toKStr (ekey e)"
      "\<forall>x \<in> set post. toKStr (ekey x) \<noteq> toKStr (ekey e)" "lfile loc = Snapshot"
      "subarray fd (loff loc) (loff loc + llen loc) = evalue e'"
      using ok(6) [OF loc] unfolding fd_def by (rule last_loc_value) blast
    show ?thesis
      by (rule exI [of _ loc], rule exI [of _ pre], rule exI [of _ e'], rule exI [of _ post])
        (use p loc in \<open>simp only: inj simp_thms\<close>)
  qed
  moreover have "parseBuffer fd c = \<lparr> frames = map (\<lambda>e. input_frame (entry_input json e)) es, corruptRanges = [], eofOffset = length fd \<rparr>"
    for c using parse_stream [OF assms(2), of c] by (simp only: fd_def map_map o_def)
  ultimately show ?thesis using res ok(3,4) by blast
qed

lemma sample_entries_fit: "list_all input_fits (map (entry_input (\<lambda>d. [1]))
    [\<lparr> ekey = [7], evalue = [1, 2], eexpire = 0, edt = None \<rparr>, \<lparr> ekey = [8], evalue = [], eexpire = 5, edt = None \<rparr>])"
  by (simp add: input_fits_def entry_input_def frame_fits_def size_defs or_empty_def TYPE_SET_def int64_ok_def)

theorem snapshot_exact_witness:
  "\<exists>res. writeSnapshot (\<lambda>d. [1]) (\<lambda>n. Inr 3) None
      (map Inr [\<lparr> ekey = [7], evalue = [1, 2], eexpire = 0, edt = None \<rparr>, \<lparr> ekey = [8], evalue = [], eexpire = 5, edt = None \<rparr>]) =
    (Inr res, entry_stream (\<lambda>d. [1]) [\<lparr> ekey = [7], evalue = [1, 2], eexpire = 0, edt = None \<rparr>, \<lparr> ekey = [8], evalue = [], eexpire = 5, edt = None \<rparr>]) \<and>
    sr_count res = 2"
proof -
  have "\<forall>n. \<exists>m > 0. (\<lambda>n. Inr 3 :: js_error + nat) n = Inr m" by simp
  from snapshot_exact [OF this sample_entries_fit] show ?thesis by auto
qed

end
