(* ===== verification/FuzzySnapshot.thy ===== *)
theory FuzzySnapshot
  imports SnapshotWriter
begin

text \<open>
  Why a snapshot taken while writers go on is enough: the crash-safety argument in the header of
  \<open>packages/minidb/src/compaction.ts\<close>. The snapshot may mix old and new records; replaying the part of
  the WAL written since the fence repairs it, last writer wins. The files of a directory during the
  rotation are a snapshot and a WAL: the old pair, the new snapshot with the whole old WAL (between
  the two renames), and the new snapshot with the tail.
\<close>

section \<open>The log of a mutation\<close>

definition mut_log :: "(loc_file \<Rightarrow> bytes) \<Rightarrow> mutation \<Rightarrow> log_op list" where
  "mut_log files m =
     (case m of
        MSet key ref e d \<Rightarrow> [LogSet key \<lparr> vvalue = ref_value files ref, vexpire = e, vdt = d \<rparr>]
      | MDel key \<Rightarrow> [LogDel key]
      | MExpire t k \<Rightarrow> [])"

definition muts_log :: "(loc_file \<Rightarrow> bytes) \<Rightarrow> mutation list \<Rightarrow> log_op list" where
  "muts_log files ms = concat (map (mut_log files) ms)"

lemma muts_log_simps [simp]:
  "muts_log files [] = []" "muts_log files (m # ms) = mut_log files m @ muts_log files ms"
  by (simp_all add: muts_log_def)

definition log_key :: "log_op \<Rightarrow> kstr" where
  "log_key a = (case a of LogSet key v \<Rightarrow> toKStr key | LogDel key \<Rightarrow> toKStr key)"

lemma log_apply_other: "log_key a \<noteq> k \<Longrightarrow> log_apply a m k = m k"
  by (cases a) (auto simp: log_apply_def log_key_def)

lemma log_apply_same: "log_key a = k \<Longrightarrow> log_apply a m k = log_apply a m' k"
  by (cases a) (auto simp: log_apply_def log_key_def)

lemma log_apply_cong: "m k = m' k \<Longrightarrow> log_apply a m k = log_apply a m' k"
  by (cases a) (auto simp: log_apply_def)

lemma fold_log_cong: "m k = m' k \<Longrightarrow> fold log_apply L m k = fold log_apply L m' k"
proof (induction L arbitrary: m m')
  case (Cons a L)
  have "log_apply a m k = log_apply a m' k" using Cons.prems by (rule log_apply_cong)
  then have "fold log_apply L (log_apply a m) k = fold log_apply L (log_apply a m') k" by (rule Cons.IH)
  then show ?case by (simp only: fold_simps)
qed (simp only: fold_simps)

lemma fold_log_untouched: "\<forall>a \<in> set L. log_key a \<noteq> k \<Longrightarrow> fold log_apply L m k = m k"
  by (induction L arbitrary: m) (simp_all add: log_apply_other)

lemma fold_log_touched: "a \<in> set L \<Longrightarrow> log_key a = k \<Longrightarrow> fold log_apply L m k = fold log_apply L m' k"
proof (induction L arbitrary: m m')
  case (Cons b L)
  show ?case
  proof (cases "log_key b = k")
    case True
    then have "log_apply b m k = log_apply b m' k" by (rule log_apply_same)
    then have "fold log_apply L (log_apply b m) k = fold log_apply L (log_apply b m') k" by (rule fold_log_cong)
    then show ?thesis by (simp only: fold_simps)
  next
    case False
    with Cons.prems have "a \<in> set L" by auto
    from Cons.IH [OF this Cons.prems(2), of "log_apply b m" "log_apply b m'"] show ?thesis by (simp only: fold_simps)
  qed
qed simp

lemma muts_log_key: "(\<exists>a \<in> set (muts_log files ms). log_key a = k) \<longleftrightarrow> (\<exists>m \<in> set ms. writes_key k m)"
proof -
  have "(\<exists>a \<in> set (mut_log files m). log_key a = k) \<longleftrightarrow> writes_key k m" for m
    by (cases m) (auto simp: mut_log_def log_key_def)
  then show ?thesis by (induction ms) (simp_all only: muts_log_simps set_append bex_Un bex_simps list.set)
qed

section \<open>The store follows its log\<close>

lemma store_view_expire:
  assumes "t \<le> now"
  shows "store_view files now (mutate jb (MExpire t k) st) = store_view files now st"
proof (cases "\<exists>r. jget (smap st) k = Some r \<and> \<not> is_live t r")
  case True
  then obtain r where r: "jget (smap st) k = Some r" "\<not> is_live t r" by blast
  then have "\<not> is_live now r" using is_live_mono [OF _ assms] by blast
  moreover have "mutate jb (MExpire t k) st = snd (remove jb k st)"
    using r by (auto simp: getRecord_def is_live_def expireKey_eq)
  ultimately show ?thesis using r(1) by (auto simp: store_view_def live_remove live_def)
next
  case False
  then have "mutate jb (MExpire t k) st = st"
    by (auto simp: getRecord_def is_live_def split: option.splits)
  then show ?thesis by simp
qed

lemma mutate_view:
  assumes "store_view files now st = visible now m" "expires_by now mt"
  shows "store_view files now (mutate jb mt st) = visible now (fold log_apply (mut_log files mt) m)"
  using assms
  by (cases mt)
    (simp_all add: mut_log_def log_apply_def store_view_setRef store_view_del visible_put store_view_expire del: mutate.simps(3))

lemma entries_under_view:
  "entries_under jb rd t0 evs st g = (xs, st', g') \<Longrightarrow> \<forall>m \<in> set (mutations evs). expires_by now m \<Longrightarrow>
     store_view files now st = visible now m0 \<Longrightarrow>
     store_view files now st' = visible now (fold log_apply (muts_log files (mutations evs)) m0)"
proof (induction evs arbitrary: st g xs m0)
  case (Cons ev evs)
  show ?case
  proof (cases ev)
    case Visit
    with Cons.prems Cons.IH show ?thesis by (auto split: prod.splits)
  next
    case (Mutate m)
    with Cons.prems(2) have m: "expires_by now m" "\<forall>m \<in> set (mutations evs). expires_by now m" by auto
    have "entries_under jb rd t0 evs (mutate jb m st) (gen_shift st (mutate jb m st) g) = (xs, st', g')"
      using Cons.prems(1) Mutate by (simp add: Let_def)
    from Cons.IH [OF this m(2) mutate_view [OF Cons.prems(3) m(1)]] show ?thesis
      using Mutate by simp
  qed
qed simp

text \<open>A record of the end is one nobody wrote, or one that a mutation set.\<close>

lemma entries_under_record:
  "entries_under jb rd t0 evs st g = (xs, st', g') \<Longrightarrow> jget (smap st') k = Some r \<Longrightarrow>
     ((\<forall>m \<in> set (mutations evs). \<not> writes_key k m) \<and> jget (smap st) k = Some r) \<or>
     (\<exists>key e d. MSet key (sref r) e d \<in> set (mutations evs) \<and> toKStr key = k)"
proof (induction evs arbitrary: st g xs)
  case (Cons ev evs)
  show ?case
  proof (cases ev)
    case Visit
    with Cons.prems Cons.IH show ?thesis by (auto split: prod.splits)
  next
    case (Mutate m)
    have "entries_under jb rd t0 evs (mutate jb m st) (gen_shift st (mutate jb m st) g) = (xs, st', g')"
      using Cons.prems(1) Mutate by (simp add: Let_def)
    from Cons.IH [OF this Cons.prems(2)] consider
      "\<forall>m \<in> set (mutations evs). \<not> writes_key k m" "jget (smap (mutate jb m st)) k = Some r"
      | "\<exists>key e d. MSet key (sref r) e d \<in> set (mutations evs) \<and> toKStr key = k" by blast
    then show ?thesis
    proof cases
      case 1
      show ?thesis
      proof (cases m)
        case (MSet key ref e d)
        show ?thesis
        proof (cases "toKStr key = k")
          case True
          with 1(2) MSet have "sref r = ref" by (auto simp: smap_setRef)
          then show ?thesis using True Mutate MSet by auto
        next
          case False
          then show ?thesis using 1 Mutate MSet by (auto simp: smap_setRef)
        qed
      next
        case (MDel key)
        then show ?thesis using 1 Mutate by (cases "toKStr key = k") (auto simp: store_del_def smap_remove)
      next
        case (MExpire t k')
        then have "\<not> writes_key k m" by simp
        from jget_mutate [OF this, of jb st] have "jget (smap st) k = Some r" using 1(2) by auto
        then show ?thesis using 1(1) Mutate MExpire by auto
      qed
    qed (use Mutate in auto)
  qed
qed simp

section \<open>The log of a snapshot\<close>

text \<open>\<open>JSON.stringify\<close> gives text, and what is stored reads back.\<close>

definition json_ok :: "(dt \<Rightarrow> bytes) \<Rightarrow> meta_parser \<Rightarrow> bool" where
  "json_ok json parse \<longleftrightarrow> (\<forall>d. json d \<noteq> [] \<and> parse (json d) = Inr (Some d))"

definition entry_log :: "store_entry \<Rightarrow> log_op" where
  "entry_log e = LogSet (ekey e) \<lparr> vvalue = evalue e, vexpire = to_number (eexpire e), vdt = edt e \<rparr>"

lemma entry_frame_log:
  assumes "json_ok json parse"
  shows "frame_log parse (input_frame (entry_input json e)) = [entry_log e]"
    and "frame_meta_ok parse (input_frame (entry_input json e))"
  using assms
  by (cases "edt e"; simp add: input_frame_def frame_read_def entry_input_def frame_log_def set_op_def parseMeta_def
      meta_or_null_def or_empty_def entry_log_def json_ok_def frame_meta_ok_def meta_ok_def type_defs)+

text \<open>Entries of one key that are all alike.\<close>

lemma fold_entry_log:
  assumes "\<And>e. e \<in> set es \<Longrightarrow> toKStr (ekey e) = k \<Longrightarrow> \<lparr> vvalue = evalue e, vexpire = to_number (eexpire e), vdt = edt e \<rparr> = v"
  shows "fold log_apply (map entry_log es) m k = (if \<exists>e \<in> set es. toKStr (ekey e) = k then Some v else m k)"
  using assms
proof (induction es arbitrary: m)
  case (Cons e es)
  have "fold log_apply (map entry_log es) m' k = (if \<exists>e \<in> set es. toKStr (ekey e) = k then Some v else m' k)" for m'
    using Cons.prems by (intro Cons.IH) auto
  moreover have "log_apply (entry_log e) m k = (if toKStr (ekey e) = k then Some v else m k)"
    using Cons.prems [of e] by (simp add: log_apply_def entry_log_def)
  ultimately show ?case by auto
qed simp

section \<open>A compaction, up to the rotation\<close>

abbreviation frames_log :: "meta_parser \<Rightarrow> frame_input list \<Rightarrow> log_op list" where
  "frames_log parse is \<equiv> concat (map (\<lambda>i. frame_log parse (input_frame i)) is)"

definition dir_files :: "bytes option \<Rightarrow> bytes \<Rightarrow> loc_file \<Rightarrow> bytes" where
  "dir_files snap wal f = (case f of Snapshot \<Rightarrow> (case snap of None \<Rightarrow> [] | Some b \<Rightarrow> b) | Wal \<Rightarrow> wal)"

text \<open>
  The WAL holds the frames \<open>pre\<close> at the fence and then those of the mutations, in order; the store
  shows at the fence what the files say. The locations of the records are places in the files: those
  of the fence lie before \<open>baseOffset\<close> in the WAL, those published since lie behind it.
\<close>

record compaction_run =
  cr_jb :: "dt \<Rightarrow> nat"
  cr_json :: "dt \<Rightarrow> bytes"
  cr_parse :: meta_parser
  cr_mode :: corrupt_mode
  cr_rd :: value_reader
  cr_snap :: "bytes option"
  cr_pre :: "frame_input list"
  cr_tail :: "frame_input list"
  cr_t0 :: int
  cr_events :: "snap_event list"
  cr_io :: "nat \<Rightarrow> js_error + nat"
  cr_fence :: store
  cr_store :: store
  cr_res :: snapshot_result
  cr_new :: bytes

definition cr_wal :: "compaction_run \<Rightarrow> bytes" where
  "cr_wal c = stream (cr_pre c @ cr_tail c)"

definition cr_base :: "compaction_run \<Rightarrow> nat" where
  "cr_base c = length (stream (cr_pre c))"

definition cr_files :: "compaction_run \<Rightarrow> loc_file \<Rightarrow> bytes" where
  "cr_files c = dir_files (cr_snap c) (cr_wal c)"

definition fence_ref_ok :: "compaction_run \<Rightarrow> value_ref \<Rightarrow> bool" where
  "fence_ref_ok c ref \<longleftrightarrow> materialize (Some (cr_rd c)) ref = Inr (ref_value (cr_files c) ref) \<and>
     (\<forall>loc. ref = Disk loc \<longrightarrow> lfile loc = Wal \<longrightarrow> loff loc < cr_base c)"

definition new_ref_ok :: "compaction_run \<Rightarrow> value_ref \<Rightarrow> bool" where
  "new_ref_ok c ref \<longleftrightarrow> (\<forall>loc. ref = Disk loc \<longrightarrow> lfile loc = Wal \<and> cr_base c \<le> loff loc)"

definition compaction_ok :: "int \<Rightarrow> compaction_run \<Rightarrow> bool" where
  "compaction_ok now c \<longleftrightarrow>
     json_ok (cr_json c) (cr_parse c) \<and> keys_ok (cr_fence c) \<and> cr_t0 c \<le> now \<and>
     list_all input_fits (cr_pre c @ cr_tail c) \<and>
     (\<forall>i \<in> set (cr_pre c @ cr_tail c). frame_meta_ok (cr_parse c) (input_frame i)) \<and>
     file_meta_ok (cr_parse c) (cr_mode c) (cr_snap c) \<and>
     (\<forall>m \<in> set (mutations (cr_events c)). expires_by now m \<and>
        (\<forall>key ref e d. m = MSet key ref e d \<longrightarrow> new_ref_ok c ref)) \<and>
     store_view (cr_files c) now (cr_fence c) = visible now
       (fold log_apply (file_log (cr_parse c) (cr_mode c) (cr_snap c) @ frames_log (cr_parse c) (cr_pre c)) (\<lambda>k. None)) \<and>
     frames_log (cr_parse c) (cr_tail c) = muts_log (cr_files c) (mutations (cr_events c)) \<and>
     (\<forall>k r. jget (smap (cr_fence c)) k = Some r \<longrightarrow> fence_ref_ok c (sref r) \<and> to_number (sexpire r) = sexpire r) \<and>
     (\<exists>xs g. entries_under (cr_jb c) (Some (cr_rd c)) (cr_t0 c) (cr_events c) (cr_fence c) new_gen = (xs, cr_store c, g) \<and>
        gdone g \<and> writeSnapshot (cr_json c) (cr_io c) None xs = (Inr (cr_res c), cr_new c))"

lemma compaction_okD:
  assumes "compaction_ok now c"
  shows "json_ok (cr_json c) (cr_parse c)" "keys_ok (cr_fence c)" "cr_t0 c \<le> now"
    "list_all input_fits (cr_pre c)" "list_all input_fits (cr_tail c)"
    "i \<in> set (cr_pre c) \<union> set (cr_tail c) \<Longrightarrow> frame_meta_ok (cr_parse c) (input_frame i)"
    "file_meta_ok (cr_parse c) (cr_mode c) (cr_snap c)"
    "m \<in> set (mutations (cr_events c)) \<Longrightarrow> expires_by now m"
    "MSet key ref e d \<in> set (mutations (cr_events c)) \<Longrightarrow> new_ref_ok c ref"
    "store_view (cr_files c) now (cr_fence c) = visible now
       (fold log_apply (file_log (cr_parse c) (cr_mode c) (cr_snap c) @ frames_log (cr_parse c) (cr_pre c)) (\<lambda>k. None))"
    "frames_log (cr_parse c) (cr_tail c) = muts_log (cr_files c) (mutations (cr_events c))"
    "jget (smap (cr_fence c)) k = Some r \<Longrightarrow> fence_ref_ok c (sref r) \<and> to_number (sexpire r) = sexpire r"
proof -
  note c1 = assms [unfolded compaction_ok_def]
  note c2 = conjunct2 [OF c1] note c3 = conjunct2 [OF c2] note c4 = conjunct2 [OF c3]
  note c5 = conjunct2 [OF c4] note c6 = conjunct2 [OF c5] note c7 = conjunct2 [OF c6]
  note c8 = conjunct2 [OF c7] note c9 = conjunct2 [OF c8] note c10 = conjunct2 [OF c9]
  show "json_ok (cr_json c) (cr_parse c)" by (rule conjunct1 [OF c1])
  show "keys_ok (cr_fence c)" by (rule conjunct1 [OF c2])
  show "cr_t0 c \<le> now" by (rule conjunct1 [OF c3])
  show "list_all input_fits (cr_pre c)" "list_all input_fits (cr_tail c)" using conjunct1 [OF c4] by simp_all
  show "i \<in> set (cr_pre c) \<union> set (cr_tail c) \<Longrightarrow> frame_meta_ok (cr_parse c) (input_frame i)"
    using conjunct1 [OF c5] by (simp only: set_append)
  show "file_meta_ok (cr_parse c) (cr_mode c) (cr_snap c)" by (rule conjunct1 [OF c6])
  show "m \<in> set (mutations (cr_events c)) \<Longrightarrow> expires_by now m"
    by (rule conjunct1 [OF bspec [OF conjunct1 [OF c7]]])
  show "MSet key ref e d \<in> set (mutations (cr_events c)) \<Longrightarrow> new_ref_ok c ref"
    using conjunct2 [OF bspec [OF conjunct1 [OF c7], of "MSet key ref e d"]] by blast
  show "store_view (cr_files c) now (cr_fence c) = visible now
       (fold log_apply (file_log (cr_parse c) (cr_mode c) (cr_snap c) @ frames_log (cr_parse c) (cr_pre c)) (\<lambda>k. None))"
    by (rule conjunct1 [OF c8])
  show "frames_log (cr_parse c) (cr_tail c) = muts_log (cr_files c) (mutations (cr_events c))"
    by (rule conjunct1 [OF c9])
  show "jget (smap (cr_fence c)) k = Some r \<Longrightarrow> fence_ref_ok c (sref r) \<and> to_number (sexpire r) = sexpire r"
    using conjunct1 [OF c10] by blast
qed

text \<open>The entries of the new snapshot.\<close>

lemma compaction_entries:
  assumes "compaction_ok now c"
  obtains es g where
    "entries_under (cr_jb c) (Some (cr_rd c)) (cr_t0 c) (cr_events c) (cr_fence c) new_gen = (map Inr es, cr_store c, g)"
    "gdone g" "writeSnapshot (cr_json c) (cr_io c) None (map Inr es) = (Inr (cr_res c), cr_new c)"
  using assms writeSnapshot_no_error unfolding compaction_ok_def by metis

definition quiet :: "compaction_run \<Rightarrow> kstr \<Rightarrow> bool" where
  "quiet c k \<longleftrightarrow> (\<forall>m \<in> set (mutations (cr_events c)). \<not> writes_key k m)"

lemma entry_view_quiet:
  assumes ok: "compaction_ok now c" and q: "quiet c k"
    and run: "entries_under (cr_jb c) (Some (cr_rd c)) (cr_t0 c) (cr_events c) (cr_fence c) new_gen = (map Inr es, cr_store c, g)"
    and e: "e \<in> set es" "toKStr (ekey e) = k"
  obtains r where "jget (smap (cr_fence c)) k = Some r" "evalue e = ref_value (cr_files c) (sref r)"
    "\<lparr> vvalue = evalue e, vexpire = to_number (eexpire e), vdt = edt e \<rparr> = rec_view (cr_files c) r"
proof -
  note D = compaction_okD [OF ok]
  have ms: "\<forall>m \<in> set (mutations (cr_events c)). expires_by now m \<and> \<not> writes_key k m"
    using D(8) q by (auto simp: quiet_def)
  from entries_under_quiet(2) [OF run ms D(3) D(2)] e obtain r
    where r: "jget (smap (cr_fence c)) k = Some r" "entry_of (Some (cr_rd c)) k r = Inr e" by blast
  have f: "materialize (Some (cr_rd c)) (sref r) = Inr (ref_value (cr_files c) (sref r))" "to_number (sexpire r) = sexpire r"
    using D(12) [OF r(1)] by (auto simp: fence_ref_ok_def)
  from r(2) f have "e = \<lparr> ekey = fromKStr k, evalue = ref_value (cr_files c) (sref r), eexpire = sexpire r, edt = sdt r \<rparr>"
    by (simp add: entry_of_def)
  with f(2) show thesis by (intro that [OF r(1)]) (simp_all add: rec_view_def)
qed

lemma snapshot_quiet:
  assumes ok: "compaction_ok now c" and q: "quiet c k"
    and run: "entries_under (cr_jb c) (Some (cr_rd c)) (cr_t0 c) (cr_events c) (cr_fence c) new_gen = (map Inr es, cr_store c, g)"
    and fin: "gdone g"
  shows "visible now (fold log_apply (map entry_log es) (\<lambda>k. None)) k = store_view (cr_files c) now (cr_fence c) k"
proof -
  note D = compaction_okD [OF ok]
  have ms: "\<forall>m \<in> set (mutations (cr_events c)). expires_by now m \<and> \<not> writes_key k m"
    using D(8) q by (auto simp: quiet_def)
  show ?thesis
  proof (cases "\<exists>e \<in> set es. toKStr (ekey e) = k")
    case True
    then obtain e0 where e0: "e0 \<in> set es" "toKStr (ekey e0) = k" by blast
    obtain r where r: "jget (smap (cr_fence c)) k = Some r" by (rule entry_view_quiet [OF ok q run e0])
    have "\<lparr> vvalue = evalue e, vexpire = to_number (eexpire e), vdt = edt e \<rparr> = rec_view (cr_files c) r"
      if "e \<in> set es" "toKStr (ekey e) = k" for e
      by (rule entry_view_quiet [OF ok q run that]) (simp add: r)
    then have "fold log_apply (map entry_log es) (\<lambda>k. None) k = Some (rec_view (cr_files c) r)"
      using True by (subst fold_entry_log) auto
    then show ?thesis using r by (auto simp: visible_def store_view_def live_def rec_view_def is_live_def)
  next
    case False
    then have "fold log_apply (map entry_log es) (\<lambda>k. None) k = None"
      by (subst fold_entry_log) auto
    moreover have "store_view (cr_files c) now (cr_fence c) k = None"
    proof (rule ccontr)
      assume "\<not> ?thesis"
      then obtain r where r: "jget (smap (cr_fence c)) k = Some r" "is_live now r"
        by (auto simp: store_view_def live_def split: option.splits if_splits)
      have "k \<in> ahead (cr_fence c) new_gen"
        using r(1) by (auto simp: ahead_def new_gen_def intro: weak_map_of_SomeI) (metis jget_None_iff option.distinct(1))
      from entries_under_quiet(3) [OF run ms D(3) D(2) fin this r] False show False by blast
    qed
    ultimately show ?thesis by (simp add: visible_def)
  qed
qed

section \<open>The three states of the directory\<close>

lemma fold_log_append: "fold log_apply (L @ L') m = fold log_apply L' (fold log_apply L m)"
  by (simp only: fold_append o_apply)

text \<open>Replaying the new snapshot and then any part of the WAL that ends with the tail.\<close>

lemma fuzzy_replay:
  assumes ok: "compaction_ok now c"
    and run: "entries_under (cr_jb c) (Some (cr_rd c)) (cr_t0 c) (cr_events c) (cr_fence c) new_gen = (map Inr es, cr_store c, g)"
    and fin: "gdone g" and L: "L = [] \<or> L = frames_log (cr_parse c) (cr_pre c)"
  shows "visible now (fold log_apply (map entry_log es @ L @ frames_log (cr_parse c) (cr_tail c)) (\<lambda>k. None)) =
    store_view (cr_files c) now (cr_store c)"
proof (rule ext)
  fix k
  note D = compaction_okD [OF ok]
  define T where "T = frames_log (cr_parse c) (cr_tail c)"
  define m0 where "m0 = fold log_apply (file_log (cr_parse c) (cr_mode c) (cr_snap c) @ frames_log (cr_parse c) (cr_pre c)) (\<lambda>k. None)"
  define S where "S = fold log_apply (map entry_log es) (\<lambda>k. None)"
  have T: "T = muts_log (cr_files c) (mutations (cr_events c))" unfolding T_def by (rule D(11))
  have view: "store_view (cr_files c) now (cr_store c) = visible now (fold log_apply T m0)"
    unfolding T by (rule entries_under_view [OF run _ D(10) [folded m0_def]]) (simp add: D(8))
  have base: "store_view (cr_files c) now (cr_fence c) = visible now m0" unfolding m0_def by (rule D(10))
  have "visible now (fold log_apply T (fold log_apply L S)) k = visible now (fold log_apply T m0) k"
  proof (cases "quiet c k")
    case False
    then obtain a where a: "a \<in> set T" "log_key a = k" unfolding quiet_def T using muts_log_key by blast
    from fold_log_touched [OF a] have "fold log_apply T (fold log_apply L S) k = fold log_apply T m0 k" .
    then show ?thesis by (simp only: visible_def)
  next
    case True
    then have "\<forall>a \<in> set T. log_key a \<noteq> k" unfolding quiet_def T using muts_log_key by blast
    then have keep: "fold log_apply T m k = m k" for m by (rule fold_log_untouched)
    have S: "visible now S k = visible now m0 k"
      unfolding S_def snapshot_quiet [OF ok True run fin] base ..
    have "visible now (fold log_apply L S) k = visible now m0 k"
    proof (cases "\<exists>a \<in> set L. log_key a = k")
      case touched: True
      then have Lp: "L = frames_log (cr_parse c) (cr_pre c)" using L by auto
      from touched obtain a where a: "a \<in> set L" "log_key a = k" by blast
      have "fold log_apply L S k = m0 k"
        unfolding m0_def fold_log_append Lp [symmetric] by (rule fold_log_touched [OF a])
      then show ?thesis by (simp only: visible_def)
    next
      case False
      then have "fold log_apply L S k = S k" by (intro fold_log_untouched) blast
      with S show ?thesis by (simp only: visible_def)
    qed
    then show ?thesis using keep by (simp only: visible_def)
  qed
  then show "visible now (fold log_apply (map entry_log es @ L @ frames_log (cr_parse c) (cr_tail c)) (\<lambda>k. None)) k =
    store_view (cr_files c) now (cr_store c) k"
    unfolding view T_def [symmetric] fold_log_append S_def [symmetric] .
qed

lemma stream_log:
  assumes "list_all input_fits is"
  shows "file_log parse cmode (Some (stream is)) = frames_log parse is"
  by (simp add: parse_stream [OF assms] o_def)

lemma entries_file_log:
  assumes "list_all input_fits (map (entry_input json) es)" "json_ok json parse"
  shows "file_log parse cmode (Some (entry_stream json es)) = map entry_log es"
    and "file_meta_ok parse cmode (Some (entry_stream json es))"
  using entry_frame_log [OF assms(2)]
  by (simp_all add: parse_stream [OF assms(1)] o_def concat_map_singleton)

text \<open>The directory before the rotation, between its two renames, and after it.\<close>

definition rotation_states :: "compaction_run \<Rightarrow> (bytes option \<times> bytes) list" where
  "rotation_states c =
     [(cr_snap c, cr_wal c), (Some (cr_new c), cr_wal c), (Some (cr_new c), drop (cr_base c) (cr_wal c))]"

lemma rotation_replay:
  assumes ok: "compaction_ok now c" and s: "(snap, wal) \<in> set (rotation_states c)"
  shows "file_meta_ok (cr_parse c) (cr_mode c) snap \<and> file_meta_ok (cr_parse c) (cr_mode c) (Some wal) \<and>
    visible now (fold log_apply (file_log (cr_parse c) (cr_mode c) snap @ file_log (cr_parse c) (cr_mode c) (Some wal)) (\<lambda>k. None)) =
      store_view (cr_files c) now (cr_store c)"
proof -
  note D = compaction_okD [OF ok]
  obtain es g where run: "entries_under (cr_jb c) (Some (cr_rd c)) (cr_t0 c) (cr_events c) (cr_fence c) new_gen = (map Inr es, cr_store c, g)"
    and fin: "gdone g" and w: "writeSnapshot (cr_json c) (cr_io c) None (map Inr es) = (Inr (cr_res c), cr_new c)"
    by (rule compaction_entries [OF ok])
  note new = writeSnapshot_ok(1,2) [OF w]
  have newlog: "file_log (cr_parse c) (cr_mode c) (Some (cr_new c)) = map entry_log es"
    and newmeta: "file_meta_ok (cr_parse c) (cr_mode c) (Some (cr_new c))"
    unfolding new(1) by (rule entries_file_log [OF new(2) D(1)])+
  have all: "list_all input_fits (cr_pre c @ cr_tail c)" using D(4,5) by simp
  have meta: "file_meta_ok (cr_parse c) (cr_mode c) (Some (stream is))"
    if "list_all input_fits is" "set is \<subseteq> set (cr_pre c) \<union> set (cr_tail c)" for "is"
    using that(2) D(6) by (auto simp: parse_stream [OF that(1)])
  have tail: "drop (cr_base c) (cr_wal c) = stream (cr_tail c)" by (simp add: cr_wal_def cr_base_def)
  have wal: "cr_wal c = stream (cr_pre c @ cr_tail c)" by (simp only: cr_wal_def)
  have metaW: "file_meta_ok (cr_parse c) (cr_mode c) (Some (stream (cr_pre c @ cr_tail c)))" by (rule meta [OF all]) simp
  have metaT: "file_meta_ok (cr_parse c) (cr_mode c) (Some (stream (cr_tail c)))" by (rule meta [OF D(5)]) simp
  have fr: "frames_log (cr_parse c) (cr_pre c @ cr_tail c) = frames_log (cr_parse c) (cr_pre c) @ frames_log (cr_parse c) (cr_tail c)"
    by simp
  have view: "store_view (cr_files c) now (cr_store c) = visible now (fold log_apply (frames_log (cr_parse c) (cr_tail c))
       (fold log_apply (file_log (cr_parse c) (cr_mode c) (cr_snap c) @ frames_log (cr_parse c) (cr_pre c)) (\<lambda>k. None)))"
    unfolding D(11) by (rule entries_under_view [OF run _ D(10)]) (simp add: D(8))
  from s consider "snap = cr_snap c" "wal = cr_wal c" | "snap = Some (cr_new c)" "wal = cr_wal c"
    | "snap = Some (cr_new c)" "wal = drop (cr_base c) (cr_wal c)" by (auto simp: rotation_states_def)
  then show ?thesis
  proof cases
    case 1
    have "file_log (cr_parse c) (cr_mode c) (Some wal) = frames_log (cr_parse c) (cr_pre c) @ frames_log (cr_parse c) (cr_tail c)"
      unfolding 1 wal stream_log [OF all] fr ..
    then show ?thesis using D(7) metaW unfolding 1 wal view by (simp only: fold_log_append simp_thms)
  next
    case 2
    have "file_log (cr_parse c) (cr_mode c) (Some wal) = frames_log (cr_parse c) (cr_pre c) @ frames_log (cr_parse c) (cr_tail c)"
      unfolding 2 wal stream_log [OF all] fr ..
    then show ?thesis using newmeta metaW fuzzy_replay [OF ok run fin disjI2 [OF refl]] newlog
      unfolding 2 wal by (simp only: simp_thms)
  next
    case 3
    have "file_log (cr_parse c) (cr_mode c) (Some wal) = [] @ frames_log (cr_parse c) (cr_tail c)"
      unfolding 3 tail stream_log [OF D(5)] by simp
    then show ?thesis using newmeta metaT fuzzy_replay [OF ok run fin disjI1 [OF refl]] newlog
      unfolding 3 tail by (simp only: simp_thms)
  qed
qed

end
