(* ===== verification/Compaction.thy ===== *)
theory Compaction
  imports FuzzySnapshot "HOL-Library.Countable"
begin

text \<open>
  Compaction of \<open>packages/minidb/src/compaction.ts\<close> with the file helpers it uses:
  \<open>rename-replace.ts\<close> and the positioned reader of \<open>value-reader.ts\<close>. Paths name inodes, so that a
  reader or a WAL keeps the file it opened when another is renamed over its path. The WAL at each
  place where the code awaits a flush is an input, as are the replies of the system calls; the
  entries of the snapshot come from the generator of \<open>SnapshotWriter\<close>.
\<close>

section \<open>Renaming\<close>

datatype rename_reply = Renamed | EPERM | OtherError js_error

text \<open>\<open>replies n\<close> answers the \<open>n\<close>-th attempt; the result is the error, if any, and the attempts made.\<close>

function renameReplace :: "bool \<Rightarrow> (nat \<Rightarrow> rename_reply) \<Rightarrow> nat \<Rightarrow> nat \<Rightarrow> js_error option \<times> nat" where
  "renameReplace win replies retries attempt =
     (case replies attempt of
        Renamed \<Rightarrow> (None, attempt + 1)
      | OtherError e \<Rightarrow> (Some e, attempt + 1)
      | EPERM \<Rightarrow> if \<not> win \<or> attempt \<ge> retries then (Some (IoError ''EPERM''), attempt + 1)
                 else renameReplace win replies retries (attempt + 1))"
  by auto
termination
  by (relation "measure (\<lambda>(win, replies, retries, attempt). retries - attempt)") auto

declare renameReplace.simps [simp del]

lemma renameReplace_spec:
  "attempt \<le> retries \<Longrightarrow> renameReplace win replies retries attempt = (err, n) \<Longrightarrow>
     attempt < n \<and> n \<le> retries + 1 \<and> (\<forall>j. attempt \<le> j \<longrightarrow> j < n - 1 \<longrightarrow> replies j = EPERM) \<and>
     (err = None \<longleftrightarrow> replies (n - 1) = Renamed) \<and>
     (replies (n - 1) = EPERM \<longrightarrow> \<not> win \<or> n = retries + 1) \<and> (\<not> win \<longrightarrow> n = attempt + 1)"
proof (induction win replies retries attempt rule: renameReplace.induct)
  case (1 win replies retries attempt)
  show ?case
  proof (cases "replies attempt = EPERM \<and> win \<and> attempt < retries")
    case True
    then have rest: "renameReplace win replies retries (attempt + 1) = (err, n)"
      using "1.prems"(2) by (subst (asm) renameReplace.simps) auto
    from True have le: "attempt + 1 \<le> retries" by simp
    have "attempt + 1 < n \<and> n \<le> retries + 1 \<and> (\<forall>j. attempt + 1 \<le> j \<longrightarrow> j < n - 1 \<longrightarrow> replies j = EPERM) \<and>
     (err = None \<longleftrightarrow> replies (n - 1) = Renamed) \<and>
     (replies (n - 1) = EPERM \<longrightarrow> \<not> win \<or> n = retries + 1) \<and> (\<not> win \<longrightarrow> n = attempt + 1 + 1)"
      using "1.IH" [OF _ _ le rest] True by auto
    moreover have "replies j = EPERM" if "attempt \<le> j" "j < n - 1" for j
      using that True calculation by (cases "j = attempt") auto
    ultimately show ?thesis using True by auto
  next
    case False
    then show ?thesis
      using "1.prems" renameReplace.simps [of win replies retries attempt]
      by (auto split: rename_reply.splits if_splits)
  qed
qed

section \<open>The directory and the reader of disk values\<close>

record fs =
  inodes :: "nat \<Rightarrow> bytes"
  snapPath :: "nat option"
  walPath :: "nat option"
  tmpPath :: "nat option"
  walTmpPath :: "nat option"
  freeIno :: nat

record value_rd =
  snapshotFd :: "nat option"
  walFd :: "nat option"

definition openIfExists :: "js_error option \<Rightarrow> nat option \<Rightarrow> js_error + nat option" where
  "openIfExists fault path =
     (case path of None \<Rightarrow> Inr None | Some i \<Rightarrow> (case fault of Some e \<Rightarrow> Inl e | None \<Rightarrow> Inr (Some i)))"

definition fdFor :: "value_rd \<Rightarrow> value_loc \<Rightarrow> js_error + nat" where
  "fdFor r loc =
     (case (if lfile loc = Snapshot then snapshotFd r else walFd r) of
        None \<Rightarrow> Inl (Error ''value reader: file is not open'') | Some fd \<Rightarrow> Inr fd)"

definition vr_read :: "fs \<Rightarrow> value_rd \<Rightarrow> value_loc \<Rightarrow> js_error + bytes" where
  "vr_read d r loc =
     (if llen loc = 0 then Inr []
      else case fdFor r loc of Inl e \<Rightarrow> Inl e | Inr fd \<Rightarrow> read_loop (Error ''value reader: short read'') (inodes d fd) (loff loc) (llen loc))"

definition reopenSnapshot :: "js_error option \<Rightarrow> fs \<Rightarrow> value_rd \<Rightarrow> js_error option \<times> value_rd" where
  "reopenSnapshot fault d r =
     (case openIfExists fault (snapPath d) of
        Inl e \<Rightarrow> (Some e, r\<lparr> snapshotFd := None \<rparr>) | Inr fd \<Rightarrow> (None, r\<lparr> snapshotFd := fd \<rparr>))"

definition reopenWal :: "js_error option \<Rightarrow> fs \<Rightarrow> value_rd \<Rightarrow> js_error option \<times> value_rd" where
  "reopenWal fault d r =
     (case openIfExists fault (walPath d) of
        Inl e \<Rightarrow> (Some e, r\<lparr> walFd := None \<rparr>) | Inr fd \<Rightarrow> (None, r\<lparr> walFd := fd \<rparr>))"

definition reopenBoth :: "js_error option \<times> js_error option \<Rightarrow> fs \<Rightarrow> value_rd \<Rightarrow> js_error option \<times> value_rd" where
  "reopenBoth faults d r =
     (case reopenSnapshot (fst faults) d r of
        (Some e, r') \<Rightarrow> (Some e, r') | (None, r') \<Rightarrow> reopenWal (snd faults) d r')"

definition vr_close :: "value_rd \<Rightarrow> value_rd" where
  "vr_close r = r\<lparr> snapshotFd := None, walFd := None \<rparr>"

text \<open>The open files by the name a location has for them.\<close>

definition rd_files :: "fs \<Rightarrow> value_rd \<Rightarrow> loc_file \<Rightarrow> bytes" where
  "rd_files d r f = (case (case f of Snapshot \<Rightarrow> snapshotFd r | Wal \<Rightarrow> walFd r) of None \<Rightarrow> [] | Some i \<Rightarrow> inodes d i)"

lemma vr_read_ok:
  "loff loc + llen loc \<le> length (rd_files d r (lfile loc)) \<Longrightarrow>
     vr_read d r loc = Inr (subarray (rd_files d r (lfile loc)) (loff loc) (loff loc + llen loc))"
  by (cases "lfile loc") (auto simp: vr_read_def fdFor_def rd_files_def read_loop_ok split: option.splits)

section \<open>Copying a range of a file\<close>

definition COPY_CHUNK :: nat where "COPY_CHUNK = 2 ^ 20"

text \<open>
  \<open>io n\<close> is the answer of the \<open>n\<close>-th system call: an error, or the most bytes it moves. A read moves at
  least one byte unless the file ends there.
\<close>

function copy_loop ::
  "(nat \<Rightarrow> js_error + nat) \<Rightarrow> nat \<Rightarrow> bytes \<Rightarrow> nat \<Rightarrow> nat \<Rightarrow> bytes \<Rightarrow> js_error option \<times> nat \<times> bytes" where
  "copy_loop io n src pos end' dst =
     (if pos < end' then
        case io n of
          Inl e \<Rightarrow> (Some e, n + 1, dst)
        | Inr r \<Rightarrow>
            let chunk = readSync src pos (min (max 1 r) (min COPY_CHUNK (end' - pos))) in
            if chunk = [] then (None, n + 1, dst)
            else case write_loop (Error ''copyFileRange: write made no progress (short write)'') io (n + 1) chunk dst of
              (Some e, n', dst') \<Rightarrow> (Some e, n', dst')
            | (None, n', dst') \<Rightarrow> copy_loop io n' src (pos + length chunk) end' dst'
      else (None, n, dst))"
  by auto
termination
  by (relation "measure (\<lambda>(io, n, src, pos, end', dst). end' - pos)") (auto simp: readSync_def)

declare copy_loop.simps [simp del]

text \<open>
  Opening the destination, opening the source, the copy, the fsync: each may fail. Closing is best
  effort. A destination that was opened exists afterwards.
\<close>

definition copyFileRange ::
  "(nat \<Rightarrow> js_error + nat) \<Rightarrow> nat \<Rightarrow> bytes \<Rightarrow> bytes option \<Rightarrow> nat \<Rightarrow> nat \<Rightarrow> bool \<Rightarrow> js_error option \<times> nat \<times> bytes option" where
  "copyFileRange io n src dst start end' app =
     (if end' < start then (Some (RangeError ''copyFileRange: end < start''), n, dst)
      else case io n of
        Inl e \<Rightarrow> (Some e, n + 1, dst)
      | Inr _ \<Rightarrow>
          let dst0 = (if app then (case dst of None \<Rightarrow> [] | Some b \<Rightarrow> b) else []) in
          case (if end' > start then
                  (case io (n + 1) of Inl e \<Rightarrow> (Some e, n + 2, dst0) | Inr _ \<Rightarrow> copy_loop io (n + 2) src start end' dst0)
                else (None, n + 1, dst0)) of
            (Some e, n', dst') \<Rightarrow> (Some e, n', Some dst')
          | (None, n', dst') \<Rightarrow> ((case io n' of Inl e \<Rightarrow> Some e | Inr _ \<Rightarrow> None), n' + 1, Some dst'))"



section \<open>Copying the tail before the rotation\<close>

definition SMALL_DELTA :: nat where "SMALL_DELTA = 64 * 1024"
definition MAX_PRECOPY_PASSES :: nat where "MAX_PRECOPY_PASSES = 5"
definition CONVERGE_RATIO :: rat where "CONVERGE_RATIO = 7 / 10"

definition shouldCompact :: "nat \<Rightarrow> wal option \<Rightarrow> bool" where
  "shouldCompact threshold w = (case w of None \<Rightarrow> False | Some w \<Rightarrow> wsize w \<ge> threshold)"

record copy_state =
  cp_calls :: nat
  cp_upto :: nat
  cp_appended :: bool
  cp_tmp :: "bytes option"

text \<open>When a pass ends the pre-copy; \<open>None\<close> as \<open>prevGap\<close> is infinity.\<close>

definition precopy_stops :: "nat \<Rightarrow> nat \<Rightarrow> nat option \<Rightarrow> bool" where
  "precopy_stops pass gap prevGap \<longleftrightarrow>
     gap \<le> SMALL_DELTA \<or>
     pass > 0 \<and> (case prevGap of None \<Rightarrow> False | Some p \<Rightarrow> rat_of_nat gap > rat_of_nat p * CONVERGE_RATIO)"

text \<open>\<open>ws i\<close> is the WAL after the flush of pass \<open>i\<close>.\<close>

function precopy ::
  "(nat \<Rightarrow> js_error + nat) \<Rightarrow> (nat \<Rightarrow> wal) \<Rightarrow> nat \<Rightarrow> nat option \<Rightarrow> copy_state \<Rightarrow> js_error option \<times> copy_state" where
  "precopy io ws pass prevGap cp =
     (if pass < MAX_PRECOPY_PASSES then
        let w = ws pass; gap = wsize w - cp_upto cp in
        if precopy_stops pass gap prevGap then (None, cp)
        else case copyFileRange io (cp_calls cp) (disk w) (cp_tmp cp) (cp_upto cp) (wsize w) (cp_appended cp) of
          (Some e, n, tmp) \<Rightarrow> (Some e, cp\<lparr> cp_calls := n, cp_tmp := tmp \<rparr>)
        | (None, n, tmp) \<Rightarrow>
            precopy io ws (pass + 1) (Some gap)
              \<lparr> cp_calls = n, cp_upto = wsize w, cp_appended = True, cp_tmp = tmp \<rparr>
      else (None, cp))"
  by auto
termination
  by (relation "measure (\<lambda>(io, ws, pass, prevGap, cp). MAX_PRECOPY_PASSES - pass)") auto

declare precopy.simps [simp del]

text \<open>
  The loop of the rotation over the WAL as each flush leaves it; \<open>None\<close> when the list ends first.
\<close>

fun drain :: "(nat \<Rightarrow> js_error + nat) \<Rightarrow> wal list \<Rightarrow> copy_state \<Rightarrow> (js_error option \<times> wal \<times> copy_state) option" where
  "drain io [] cp = None"
| "drain io (w # ws) cp =
     (if wsize w = cp_upto cp \<and> cp_appended cp then Some (None, w, cp)
      else case copyFileRange io (cp_calls cp) (disk w) (cp_tmp cp) (cp_upto cp) (wsize w) (cp_appended cp) of
        (Some e, n, tmp) \<Rightarrow> Some (Some e, w, cp\<lparr> cp_calls := n, cp_tmp := tmp \<rparr>)
      | (None, n, tmp) \<Rightarrow>
          drain io ws \<lparr> cp_calls = n, cp_upto = wsize w, cp_appended = True, cp_tmp = tmp \<rparr>)"

section \<open>The rotation\<close>

record target =
  t_fs :: fs
  t_wal :: wal
  t_store :: store
  t_reader :: value_rd
  t_policy :: string
  t_rotateLock :: bool

text \<open>How the fallible calls of the rotation and of its recovery end.\<close>

record faults =
  on_windows :: bool
  ft_close :: "js_error option"
  ft_rename1 :: "nat \<Rightarrow> rename_reply"
  ft_rename2 :: "nat \<Rightarrow> rename_reply"
  ft_open :: "js_error option"
  ft_reopen :: "js_error option \<times> js_error option"
  ft_close2 :: "js_error option"
  ft_open2 :: "js_error option"
  ft_reopen2 :: "js_error option \<times> js_error option"

definition wal_close :: "js_error option \<Rightarrow> wal \<Rightarrow> js_error option \<times> wal" where
  "wal_close fault w = (if is_closed w then (None, w) else close_end fault (close_begin w))"

definition path_file :: "fs \<Rightarrow> nat option \<Rightarrow> bytes" where
  "path_file d p = (case p of None \<Rightarrow> [] | Some i \<Rightarrow> inodes d i)"

text \<open>\<open>fs.rename\<close> of the two temporary files.\<close>

definition rename_snapshot :: "fs \<Rightarrow> fs" where
  "rename_snapshot d = d\<lparr> snapPath := tmpPath d, tmpPath := None \<rparr>"

definition rename_wal :: "fs \<Rightarrow> fs" where
  "rename_wal d = d\<lparr> walPath := walTmpPath d, walTmpPath := None \<rparr>"

definition remap :: "nat \<Rightarrow> (kstr, value_loc) jmap \<Rightarrow> store \<Rightarrow> store" where
  "remap baseOffset snapLocs st =
     remapLocs (\<lambda>k loc r.
       if lfile loc = Wal \<and> loff loc \<ge> baseOffset
       then Some \<lparr> lfile = Wal, loff = loff loc - baseOffset, llen = llen loc \<rparr>
       else jget snapLocs k) st"

text \<open>From the close of the old WAL on: the error, \<open>rotated\<close>, \<open>remapped\<close> and the new state.\<close>

definition commit ::
  "faults \<Rightarrow> nat \<Rightarrow> (kstr, value_loc) jmap \<Rightarrow> target \<Rightarrow> js_error option \<times> bool \<times> bool \<times> target" where
  "commit fl baseOffset snapLocs t =
     (case wal_close (ft_close fl) (t_wal t) of
        (Some e, w) \<Rightarrow> (Some e, False, False, t\<lparr> t_wal := w \<rparr>)
      | (None, w) \<Rightarrow>
          let t0 = (if on_windows fl then t\<lparr> t_wal := w, t_reader := vr_close (t_reader t) \<rparr> else t\<lparr> t_wal := w \<rparr>) in
          case fst (renameReplace (on_windows fl) (ft_rename1 fl) 100 0) of
            Some e \<Rightarrow> (Some e, False, False, t0)
          | None \<Rightarrow>
              let t1 = t0\<lparr> t_fs := rename_snapshot (t_fs t0) \<rparr> in
              case fst (renameReplace (on_windows fl) (ft_rename2 fl) 100 0) of
                Some e \<Rightarrow> (Some e, False, False, t1)
              | None \<Rightarrow>
                  let t2 = t1\<lparr> t_fs := rename_wal (t_fs t1) \<rparr> in
                  case new_wal (Some (t_policy t2)) (path_file (t_fs t2) (walPath (t_fs t2))) of
                    Inl e \<Rightarrow> (Some e, True, False, t2)
                  | Inr fresh \<Rightarrow>
                      (case ft_open fl of
                         Some e \<Rightarrow> (Some e, True, False, t2\<lparr> t_wal := fresh \<rparr>)
                       | None \<Rightarrow>
                           let t3 = t2\<lparr> t_wal := wal_open fresh, t_store := remap baseOffset snapLocs (t_store t2) \<rparr> in
                           case reopenBoth (ft_reopen fl) (t_fs t3) (t_reader t3) of
                             (err, r) \<Rightarrow> (err, True, True, t3\<lparr> t_reader := r \<rparr>)))"

text \<open>The catch block: a fresh WAL on whatever the path holds.\<close>

definition rollback ::
  "faults \<Rightarrow> nat \<Rightarrow> (kstr, value_loc) jmap \<Rightarrow> bool \<Rightarrow> bool \<Rightarrow> target \<Rightarrow> target" where
  "rollback fl baseOffset snapLocs rotated remapped t =
     (let t1 = t\<lparr> t_wal := snd (wal_close (ft_close2 fl) (t_wal t)) \<rparr> in
      case new_wal (Some (t_policy t1)) (path_file (t_fs t1) (walPath (t_fs t1))) of
        Inl e \<Rightarrow> t1
      | Inr fresh \<Rightarrow>
          (case ft_open2 fl of
             Some e \<Rightarrow> t1
           | None \<Rightarrow>
               let t2 = t1\<lparr> t_wal := wal_open fresh \<rparr> in
               if rotated then
                 let t3 = t2\<lparr> t_store := (if remapped then t_store t2 else remap baseOffset snapLocs (t_store t2)) \<rparr>
                 in t3\<lparr> t_reader := snd (reopenBoth (ft_reopen2 fl) (t_fs t3) (t_reader t3)) \<rparr>
               else t2))"

text \<open>Writing the temporary files: an inode of their own, made when the path is new.\<close>

definition put_tmp :: "bytes \<Rightarrow> fs \<Rightarrow> fs" where
  "put_tmp b d =
     (case tmpPath d of
        Some i \<Rightarrow> d\<lparr> inodes := (inodes d)(i := b) \<rparr>
      | None \<Rightarrow> d\<lparr> inodes := (inodes d)(freeIno d := b), tmpPath := Some (freeIno d), freeIno := freeIno d + 1 \<rparr>)"

definition put_walTmp :: "bytes option \<Rightarrow> fs \<Rightarrow> fs" where
  "put_walTmp c d =
     (case c of
        None \<Rightarrow> d
      | Some b \<Rightarrow>
          (case walTmpPath d of
             Some i \<Rightarrow> d\<lparr> inodes := (inodes d)(i := b) \<rparr>
           | None \<Rightarrow> d\<lparr> inodes := (inodes d)(freeIno d := b), walTmpPath := Some (freeIno d), freeIno := freeIno d + 1 \<rparr>))"

definition rotate ::
  "faults \<Rightarrow> (nat \<Rightarrow> js_error + nat) \<Rightarrow> wal list \<Rightarrow> nat \<Rightarrow> (kstr, value_loc) jmap \<Rightarrow> copy_state \<Rightarrow> target \<Rightarrow>
     (js_error option \<times> target) option" where
  "rotate fl io ws baseOffset snapLocs cp t =
     (case drain io ws cp of
        None \<Rightarrow> None
      | Some (err, w, cp') \<Rightarrow>
          let t0 = t\<lparr> t_wal := w, t_fs := put_walTmp (cp_tmp cp') (t_fs t) \<rparr> in
          case (case err of
                  Some e \<Rightarrow> (Some e, False, False, t0)
                | None \<Rightarrow> commit fl baseOffset snapLocs t0) of
            (None, rotated, remapped, t') \<Rightarrow> Some (None, t'\<lparr> t_rotateLock := False \<rparr>)
          | (Some e, rotated, remapped, t') \<Rightarrow>
              Some (Some e, (rollback fl baseOffset snapLocs rotated remapped t')\<lparr> t_rotateLock := False \<rparr>))"

text \<open>
  What goes on around a compaction: the WAL after the flush of the fence, after those of the
  pre-copy and after those of the rotation, the entries the generator yields and the replies of the
  system. What writers own in a target, the store and the WAL's file, is as they leave it when the
  rotation locks them out.
\<close>

record environment =
  en_fence :: wal
  en_open :: "js_error option"
  en_entries :: "(js_error + store_entry) list"
  en_io :: "nat \<Rightarrow> js_error + nat"
  en_sync :: "js_error option"
  en_close :: "js_error option"
  en_pre :: "nat \<Rightarrow> wal"
  en_copy :: "nat \<Rightarrow> js_error + nat"
  en_drain :: "wal list"
  en_faults :: faults

text \<open>
  The temporary snapshot: its file is opened, written, synced and closed; an error of the close is the
  one that is thrown. With an open that failed there is no new content.
\<close>

definition snapshot_file ::
  "(dt \<Rightarrow> bytes) \<Rightarrow> environment \<Rightarrow> (js_error + snapshot_result) \<times> bytes option" where
  "snapshot_file json en =
     (case en_open en of
        Some e \<Rightarrow> (Inl e, None)
      | None \<Rightarrow>
          (case writeSnapshot json (en_io en) (en_sync en) (en_entries en) of
             (r, b) \<Rightarrow> ((case en_close en of Some e \<Rightarrow> Inl e | None \<Rightarrow> r), Some b)))"

definition put_snapshot :: "bytes option \<Rightarrow> fs \<Rightarrow> fs" where
  "put_snapshot b d = (case b of None \<Rightarrow> d | Some x \<Rightarrow> put_tmp x d)"

definition runCompaction :: "(dt \<Rightarrow> bytes) \<Rightarrow> environment \<Rightarrow> target \<Rightarrow> (js_error option \<times> target) option" where
  "runCompaction json en t =
     (let baseOffset = wsize (en_fence en) in
      case snapshot_file json en of
        (Inl e, b) \<Rightarrow> Some (Some e, t\<lparr> t_fs := put_snapshot b (t_fs t) \<rparr>)
      | (Inr snapRes, b) \<Rightarrow>
          let d = put_snapshot b (t_fs t) in
          case precopy (en_copy en) (en_pre en) 0 None
                 \<lparr> cp_calls = 0, cp_upto = baseOffset, cp_appended = False, cp_tmp = map_option (inodes d) (walTmpPath d) \<rparr> of
            (Some e, cp) \<Rightarrow> Some (Some e, t\<lparr> t_fs := put_walTmp (cp_tmp cp) d \<rparr>)
          | (None, cp) \<Rightarrow>
              rotate (en_faults en) (en_copy en) (en_drain en) baseOffset (sr_locs snapRes) cp
                (t\<lparr> t_fs := d, t_rotateLock := True \<rparr>))"

text \<open>The wrapper: one compaction at a time, and how a run is counted.\<close>

record compact_stats =
  compacting :: bool
  compactions :: nat
  compactErrors :: nat
  lastCompactError :: "js_error option"

definition compact ::
  "(dt \<Rightarrow> bytes) \<Rightarrow> environment \<Rightarrow> js_error option \<Rightarrow> compact_stats \<times> target \<Rightarrow>
     (js_error option \<times> compact_stats \<times> target) option" where
  "compact json en hook s =
     (case s of (c, t) \<Rightarrow>
        if compacting c then Some (None, c, t)
        else case runCompaction json en t of
          None \<Rightarrow> None
        | Some (err, t') \<Rightarrow>
            let err' = (case err of Some e \<Rightarrow> Some e | None \<Rightarrow> hook); t'' = t'\<lparr> t_rotateLock := False \<rparr> in
            Some (err', (case err' of
                None \<Rightarrow> c\<lparr> compactions := compactions c + 1, lastCompactError := None, compacting := False \<rparr>
              | Some e \<Rightarrow> c\<lparr> compactErrors := compactErrors c + 1, lastCompactError := Some e, compacting := False \<rparr>), t''))"

section \<open>What is copied\<close>






section \<open>The store after the relocation\<close>




section \<open>The directory through the rotation\<close>













lemma rename_paths [simp]:
  "inodes (rename_snapshot d) = inodes d" "snapPath (rename_snapshot d) = tmpPath d" "walPath (rename_snapshot d) = walPath d"
  "inodes (rename_wal d) = inodes d" "snapPath (rename_wal d) = snapPath d" "walPath (rename_wal d) = walTmpPath d"
  "walTmpPath (rename_snapshot d) = walTmpPath d"
  by (simp_all add: rename_snapshot_def rename_wal_def)

lemma rename_files [simp]:
  "path_file (rename_snapshot d) p = path_file d p" "path_file (rename_wal d) p = path_file d p"
  "rd_files (rename_snapshot d) r = rd_files d r"
  unfolding path_file_def rd_files_def by (simp_all only: rename_paths)













section \<open>The ways a compaction ends\<close>







section \<open>Properties\<close>

text \<open>C3: A crash never loses a write to a compaction. When the store at the fence is what the files say
  and every later mutation is logged in order, whatever writers do while the snapshot is taken, the
  directory in each of its three states (the old pair, the new snapshot with the whole old WAL, the
  new snapshot with the tail) recovers, in either mode, to the map the live store shows.\<close>

theorem compaction_crash_consistent:
  assumes "compaction_ok now c" "(snap, wal) \<in> set (rotation_states c)" "\<forall>f n j. clk f n j \<le> now"
  shows "\<exists>info st wal'. recover jb (cr_parse c) clk (cr_mode c) trunc mode snap (Some wal) inode (new_store p b) = (Inr info, st, wal') \<and>
    store_ok jb st \<and> store_view (dir_files snap wal) now st = store_view (cr_files c) now (cr_store c)"
proof -
  note r = rotation_replay [OF assms(1,2)]
  have f: "dir_files snap wal Snapshot = (case snap of None \<Rightarrow> [] | Some b \<Rightarrow> b)"
    "dir_files snap wal Wal = (case Some wal of None \<Rightarrow> [] | Some b \<Rightarrow> b)" by (simp_all add: dir_files_def)
  obtain info st wal' where x: "recover jb (cr_parse c) clk (cr_mode c) trunc mode snap (Some wal) inode (new_store p b) = (Inr info, st, wal')"
    "store_ok jb st" "store_view (dir_files snap wal) now st =
      visible now (fold log_apply (file_log (cr_parse c) (cr_mode c) snap @ file_log (cr_parse c) (cr_mode c) (Some wal)) (\<lambda>k. None))"
    using recovery_view [OF conjunct1 [OF r] conjunct1 [OF conjunct2 [OF r]] assms(3) f, of jb trunc mode inode p b] by blast
  have "store_view (dir_files snap wal) now st = store_view (cr_files c) now (cr_store c)"
    unfolding x(3) by (rule conjunct2 [OF conjunct2 [OF r]])
  with x(1,2) show ?thesis by blast
qed


section \<open>An instance\<close>

text \<open>An encoding of the metadata that reads back, whatever the numbers in it.\<close>

definition sample_json :: "dt \<Rightarrow> bytes" where
  "sample_json d = 1 # replicate (to_nat d) 0"

definition sample_parser :: meta_parser where
  "sample_parser b = Inr (Some (from_nat (length b - 1)))"

lemma sample_json_ok: "json_ok sample_json sample_parser"
  by (simp add: json_ok_def sample_json_def sample_parser_def)

text \<open>One record at the fence, overwritten while the generator runs.\<close>

definition sample_write :: "byte \<Rightarrow> frame_input" where
  "sample_write v = \<lparr> itype = TYPE_SET, ikey = [7], ivalue = Some [v], imeta = None, iexpire = 0 \<rparr>"

definition sample_fence :: store where
  "sample_fence = setRef (\<lambda>d. 0) (toKStr [7]) (Memory [1]) 0 None (new_store 1 1)"

definition sample_after :: store where
  "sample_after = setRef (\<lambda>d. 0) (toKStr [7]) (Memory [2]) 0 None sample_fence"

definition sample_run :: "snapshot_result \<Rightarrow> bytes \<Rightarrow> compaction_run" where
  "sample_run res new = \<lparr> cr_jb = (\<lambda>d. 0), cr_json = sample_json, cr_parse = sample_parser, cr_mode = Strict,
     cr_rd = (\<lambda>loc. Inr []), cr_snap = None, cr_pre = [sample_write 1], cr_tail = [sample_write 2], cr_t0 = 0,
     cr_events = [Visit, Mutate (MSet [7] (Memory [2]) 0 None), Visit], cr_io = (\<lambda>n. Inr 5),
     cr_fence = sample_fence, cr_store = sample_after, cr_res = res, cr_new = new \<rparr>"

definition sample_entry :: store_entry where
  "sample_entry = \<lparr> ekey = [7], evalue = [1], eexpire = 0, edt = None \<rparr>"

lemma sample_write_fits: "input_fits (sample_write v)" "frame_meta_ok sample_parser (input_frame (sample_write v))"
  "frame_log sample_parser (input_frame (sample_write v)) = [LogSet [7] \<lparr> vvalue = [v], vexpire = 0, vdt = None \<rparr>]"
  by (simp_all add: input_fits_def sample_write_def frame_fits_def size_defs or_empty_def type_defs int64_ok_def
      frame_meta_ok_def meta_ok_def parseMeta_def input_frame_def frame_read_def meta_or_null_def frame_log_def set_op_def)

lemma sample_fence_map: "smap sample_fence = [(toKStr [7], \<lparr> sref = Memory [1], sexpire = 0, sseq = 1, sdt = None \<rparr>)]"
  by (simp add: sample_fence_def smap_setRef new_store_def)

lemma sample_after_map: "smap sample_after = [(toKStr [7], \<lparr> sref = Memory [2], sexpire = 0, sseq = seqno sample_fence + 1, sdt = None \<rparr>)]"
  by (simp add: sample_after_def smap_setRef sample_fence_map)

lemma sample_entries:
  "entries_under (\<lambda>d. 0) (Some (\<lambda>loc. Inr [])) 0 [Visit, Mutate (MSet [7] (Memory [2]) 0 None), Visit] sample_fence new_gen =
     ([Inr sample_entry], sample_after, \<lparr> gpos = 1, gdone = True \<rparr>)"
proof -
  have "fromKStr (toKStr [7]) = [7::byte]" by simp
  then show ?thesis
    by (simp add: gen_resume_def new_gen_def sample_fence_map is_live_def entry_of_def materialize_def gen_shift_def
        sample_after_def [symmetric] sample_after_map sample_entry_def Let_def del: fromKStr_toKStr)
qed

lemma sample_compaction:
  obtains res new where "compaction_ok 0 (sample_run res new)" "new = entry_stream sample_json [sample_entry]"
proof -
  have io: "\<forall>n. \<exists>m > 0. (\<lambda>n. Inr 5 :: js_error + nat) n = Inr m" by simp
  have fits: "list_all input_fits (map (entry_input sample_json) [sample_entry])"
    by (simp add: input_fits_def entry_input_def sample_entry_def frame_fits_def size_defs or_empty_def type_defs int64_ok_def)
  obtain res where w: "writeSnapshot sample_json (\<lambda>n. Inr 5) None (map Inr [sample_entry]) = (Inr res, entry_stream sample_json [sample_entry])"
    by (rule writeSnapshot_good [OF io fits])
  define c where "c = sample_run res (entry_stream sample_json [sample_entry])"
  have fields: "cr_json c = sample_json" "cr_parse c = sample_parser" "cr_mode c = Strict" "cr_snap c = None"
    "cr_pre c = [sample_write 1]" "cr_tail c = [sample_write 2]" "cr_t0 c = 0" "cr_fence c = sample_fence"
    "cr_store c = sample_after" "cr_res c = res" "cr_new c = entry_stream sample_json [sample_entry]" "cr_jb c = (\<lambda>d. 0)"
    "cr_rd c = (\<lambda>loc. Inr [])" "cr_io c = (\<lambda>n. Inr 5)"
    "cr_events c = [Visit, Mutate (MSet [7] (Memory [2]) 0 None), Visit]"
    by (simp_all add: c_def sample_run_def)
  have ev: "mutations (cr_events c) = [MSet [7] (Memory [2]) 0 None]" by (simp add: fields)
  have "keys_ok sample_fence" by (simp add: keys_ok_def sample_fence_map)
  moreover have "store_view (cr_files c) 0 sample_fence = visible 0
       (fold log_apply (file_log sample_parser Strict None @ frames_log sample_parser [sample_write 1]) (\<lambda>k. None))"
    by (rule ext) (simp add: store_view_def live_def sample_fence_map is_live_def rec_view_def ref_value_def visible_def
        sample_write_fits log_apply_def)
  moreover have "frames_log sample_parser [sample_write 2] = muts_log (cr_files c) [MSet [7] (Memory [2]) 0 None]"
    by (simp add: sample_write_fits muts_log_def mut_log_def ref_value_def)
  moreover have "\<forall>k r. jget (smap sample_fence) k = Some r \<longrightarrow> fence_ref_ok c (sref r) \<and> to_number (sexpire r) = sexpire r"
    by (simp add: sample_fence_map fence_ref_ok_def materialize_def ref_value_def)
  moreover have "\<exists>xs g. entries_under (\<lambda>d. 0) (Some (\<lambda>loc. Inr [])) 0 (cr_events c) sample_fence new_gen = (xs, sample_after, g) \<and>
        gdone g \<and> writeSnapshot sample_json (\<lambda>n. Inr 5) None xs = (Inr res, entry_stream sample_json [sample_entry])"
    using sample_entries w by (simp add: fields)
  ultimately have "compaction_ok 0 c"
    using sample_json_ok sample_write_fits
    unfolding compaction_ok_def fields(1-14) ev by (simp add: new_ref_ok_def)
  then show thesis using that unfolding c_def by blast
qed

theorem compaction_crash_consistent_witness:
  "\<exists>c info st wal'. compaction_ok 0 c \<and> cr_tail c \<noteq> [] \<and>
     recover (\<lambda>d. 0) (cr_parse c) (\<lambda>f n j. 0) (cr_mode c) True OnDisk (Some (cr_new c)) (Some (drop (cr_base c) (cr_wal c))) (3, 4) (new_store 1 1)
       = (Inr info, st, wal') \<and>
     store_view (dir_files (Some (cr_new c)) (drop (cr_base c) (cr_wal c))) 0 st = store_view (cr_files c) 0 (cr_store c)"
proof -
  obtain res new where ok: "compaction_ok 0 (sample_run res new)" by (rule sample_compaction)
  define c where "c = sample_run res new"
  have mem: "(Some (cr_new c), drop (cr_base c) (cr_wal c)) \<in> set (rotation_states c)" by (simp add: rotation_states_def)
  have clk: "\<forall>f n j. (\<lambda>f n j. 0 :: int) (f :: loc_file) (n :: nat) (j :: nat) \<le> 0" by simp
  obtain info st wal' where r: "recover (\<lambda>d. 0) (cr_parse c) (\<lambda>f n j. 0) (cr_mode c) True OnDisk (Some (cr_new c))
      (Some (drop (cr_base c) (cr_wal c))) (3, 4) (new_store 1 1) = (Inr info, st, wal')"
    "store_view (dir_files (Some (cr_new c)) (drop (cr_base c) (cr_wal c))) 0 st = store_view (cr_files c) 0 (cr_store c)"
    using compaction_crash_consistent [OF ok [folded c_def] mem clk, of "\<lambda>d. 0" True OnDisk "(3, 4)" 1 1] by blast
  have "cr_tail c \<noteq> []" by (simp add: c_def sample_run_def)
  with r ok show ?thesis unfolding c_def by blast
qed







text \<open>
  On Windows the reader is closed before the renames, and a rotation that then fails does not reopen
  it: every value on disk is unreadable until the next successful compaction.
\<close>

lemma windows_reader_lost:
  assumes "on_windows fl" "ft_rename1 fl = (\<lambda>n. OtherError e)" "wal_close (ft_close fl) w = (None, w')"
    and "drain io ws cp = Some (None, w, cp')" "rotate fl io ws base locs cp t = Some (err, t')" "llen loc > 0"
  shows "err = Some e \<and> vr_read (t_fs t') (t_reader t') loc = Inl (Error ''value reader: file is not open'')"
proof -
  have ren: "fst (renameReplace True (\<lambda>n. OtherError e) 100 0) = Some e"
    by (subst renameReplace.simps) simp
  have "t_reader (rollback fl base locs False remapped t1) = t_reader t1" for t1 remapped
    by (auto simp: rollback_def Let_def split: sum.splits option.splits)
  then have "err = Some e \<and> t_reader t' = vr_close (t_reader t)"
    using assms ren by (auto simp: rotate_def commit_def Let_def)
  with assms(6) show ?thesis by (simp add: vr_read_def fdFor_def vr_close_def)
qed

end
