(* ===== verification/Json.thy ===== *)
theory Json
  imports Prelude
begin

text \<open>
  The JavaScript values the indexes and the query engine see: what \<open>JSON.parse\<close> yields, with
  \<open>undefined\<close>, the non-finite numbers and regular expressions a caller may pass beside it. Finite
  numbers are exact rationals. An array or object carries the identity it was allocated with,
  since \<open>===\<close> and the keys of a \<open>Map\<close> compare references; documents are not mutated after they
  are handed over. The properties inherited from a prototype are not modelled.
\<close>

datatype jsv =
    JUndef
  | JNull
  | JBool bool
  | JNum rat
  | JNaN
  | JInf bool
  | JStr jstr
  | JArr nat "jsv list"
  | JObj nat "(jstr \<times> jsv) list"
  | JRegExp nat jstr jstr

section \<open>Equality and the keys of a Map\<close>

text \<open>A \<open>Map\<close> keys primitives by value (\<open>NaN\<close> equals itself) and objects by reference.\<close>

datatype jkey = KPrim jsv | KRef nat

fun map_key :: "jsv \<Rightarrow> jkey" where
  "map_key (JArr i xs) = KRef i"
| "map_key (JObj i fs) = KRef i"
| "map_key (JRegExp i s f) = KRef i"
| "map_key v = KPrim v"

definition strict_eq :: "jsv \<Rightarrow> jsv \<Rightarrow> bool" where
  "strict_eq a b \<longleftrightarrow> a \<noteq> JNaN \<and> map_key a = map_key b"

lemma strict_eq_prim [simp]:
  "strict_eq (JNum p) (JNum q) \<longleftrightarrow> p = q" "strict_eq (JStr s) (JStr t) \<longleftrightarrow> s = t"
  "strict_eq (JBool b) (JBool c) \<longleftrightarrow> b = c" "strict_eq JUndef JUndef" "strict_eq JNull JNull"
  "\<not> strict_eq JNaN v"
  by (simp_all add: strict_eq_def)

definition nullish :: "jsv \<Rightarrow> bool" where
  "nullish v \<longleftrightarrow> v = JUndef \<or> v = JNull"

definition is_object :: "jsv \<Rightarrow> bool" where
  "is_object v = (case v of JArr i xs \<Rightarrow> True | JObj i fs \<Rightarrow> True | JRegExp i s f \<Rightarrow> True | _ \<Rightarrow> False)"

section \<open>Strings\<close>

text \<open>\<open>s.split(c)\<close> for a separator of one unit, and \<open>xs.join(c)\<close>.\<close>

fun split_on :: "nat \<Rightarrow> jstr \<Rightarrow> jstr list" where
  "split_on c [] = [[]]"
| "split_on c (x # xs) =
     (if x = c then [] # split_on c xs
      else case split_on c xs of [] \<Rightarrow> [[x]] | y # ys \<Rightarrow> (x # y) # ys)"

fun join :: "jstr \<Rightarrow> jstr list \<Rightarrow> jstr" where
  "join sep [] = []"
| "join sep [x] = x"
| "join sep (x # y # ys) = x @ sep @ join sep (y # ys)"

lemma split_on_nonempty [simp]: "split_on c xs \<noteq> []"
  by (induction xs) (auto split: list.splits)

lemma join_split_on: "join [c] (split_on c xs) = xs"
proof (induction xs)
  case (Cons x xs)
  obtain y ys where "split_on c xs = y # ys" using split_on_nonempty by (meson list.exhaust)
  with Cons show ?case by (cases ys) auto
qed simp

text \<open>Decimal digits, as in \<open>String(i)\<close> of an array index.\<close>

definition is_digit :: "nat \<Rightarrow> bool" where
  "is_digit c \<longleftrightarrow> 48 \<le> c \<and> c \<le> 57"

definition digits_nat :: "jstr \<Rightarrow> nat" where
  "digits_nat ds = fold (\<lambda>d n. 10 * n + (d - 48)) ds 0"

text \<open>The property keys that are array indices: digits without a leading zero.\<close>

definition array_index :: "jstr \<Rightarrow> nat option" where
  "array_index k =
     (if k \<noteq> [] \<and> list_all is_digit k \<and> (hd k \<noteq> 48 \<or> k = [48]) then Some (digits_nat k) else None)"

section \<open>Property access\<close>

definition nth_or :: "'a \<Rightarrow> 'a list \<Rightarrow> nat option \<Rightarrow> 'a" where
  "nth_or d xs oi = (case oi of None \<Rightarrow> d | Some i \<Rightarrow> if i < length xs then xs ! i else d)"

definition get_prop :: "jsv \<Rightarrow> jstr \<Rightarrow> jsv" where
  "get_prop v k =
     (case v of
        JObj i fs \<Rightarrow> (case map_of fs k of None \<Rightarrow> JUndef | Some x \<Rightarrow> x)
      | JArr i xs \<Rightarrow>
          if k = lit ''length'' then JNum (of_nat (length xs)) else nth_or JUndef xs (array_index k)
      | JStr s \<Rightarrow>
          if k = lit ''length'' then JNum (of_nat (length s))
          else nth_or JUndef (map (\<lambda>c. JStr [c]) s) (array_index k)
      | _ \<Rightarrow> JUndef)"

section \<open>Text of a value\<close>

definition hex_digit :: "nat \<Rightarrow> nat" where
  "hex_digit n = (if n < 10 then 48 + n else 87 + n)"

definition unicode_escape :: "nat \<Rightarrow> jstr" where
  "unicode_escape c =
     [92, 117, hex_digit (c div 4096 mod 16), hex_digit (c div 256 mod 16), hex_digit (c div 16 mod 16),
      hex_digit (c mod 16)]"

definition high_surrogate :: "nat \<Rightarrow> bool" where
  "high_surrogate c \<longleftrightarrow> 0xd800 \<le> c \<and> c \<le> 0xdbff"

definition low_surrogate :: "nat \<Rightarrow> bool" where
  "low_surrogate c \<longleftrightarrow> 0xdc00 \<le> c \<and> c \<le> 0xdfff"

definition quote_unit :: "nat \<Rightarrow> jstr" where
  "quote_unit c =
     (if c = 8 then [92, 98] else if c = 9 then [92, 116] else if c = 10 then [92, 110]
      else if c = 12 then [92, 102] else if c = 13 then [92, 114]
      else if c = 34 \<or> c = 92 then [92, c]
      else if c < 32 then unicode_escape c else [c])"

fun quote_units :: "jstr \<Rightarrow> jstr" where
  "quote_units [] = []"
| "quote_units (c # cs) =
     (if high_surrogate c then
        (case cs of
           d # ds \<Rightarrow> if low_surrogate d then c # d # quote_units ds else unicode_escape c @ quote_units cs
         | [] \<Rightarrow> unicode_escape c)
      else if low_surrogate c then unicode_escape c @ quote_units cs
      else quote_unit c @ quote_units cs)"

definition quote :: "jstr \<Rightarrow> jstr" where
  "quote s = 34 # quote_units s @ [34]"

text \<open>\<open>num_str\<close> is \<open>Number.prototype.toString\<close> on finite numbers; \<open>to_string\<close> is \<open>String(v)\<close> of a scalar.\<close>

type_synonym num_text = "rat \<Rightarrow> jstr"

definition to_string :: "num_text \<Rightarrow> jsv \<Rightarrow> jstr" where
  "to_string num_str v =
     (case v of
        JStr s \<Rightarrow> s
      | JNum q \<Rightarrow> num_str q
      | JNaN \<Rightarrow> lit ''NaN''
      | JInf b \<Rightarrow> (if b then lit ''-Infinity'' else lit ''Infinity'')
      | JBool b \<Rightarrow> (if b then lit ''true'' else lit ''false'')
      | JNull \<Rightarrow> lit ''null''
      | _ \<Rightarrow> lit ''undefined'')"

text \<open>\<open>JSON.stringify\<close> of a value that is no object; \<open>undefined\<close> has no text.\<close>

definition scalar_json :: "num_text \<Rightarrow> jsv \<Rightarrow> jstr option" where
  "scalar_json num_str v =
     (case v of
        JUndef \<Rightarrow> None
      | JStr s \<Rightarrow> Some (quote s)
      | JNum q \<Rightarrow> Some (num_str q)
      | JBool b \<Rightarrow> Some (if b then lit ''true'' else lit ''false'')
      | _ \<Rightarrow> Some (lit ''null''))"

section \<open>Sets in insertion order\<close>

definition set_add :: "'a \<Rightarrow> 'a list \<Rightarrow> 'a list" where
  "set_add x xs = (if x \<in> set xs then xs else xs @ [x])"

definition set_del :: "'a \<Rightarrow> 'a list \<Rightarrow> 'a list" where
  "set_del x xs = filter (\<lambda>y. y \<noteq> x) xs"

definition set_of :: "'a list \<Rightarrow> 'a list" where
  "set_of xs = fold set_add xs []"

lemma set_add_simps [simp]: "set (set_add x xs) = insert x (set xs)" "distinct (set_add x xs) \<longleftrightarrow> distinct xs"
  "set_add x xs \<noteq> []"
  by (auto simp: set_add_def)

lemma set_del_simps [simp]: "set (set_del x xs) = set xs - {x}" "distinct xs \<Longrightarrow> distinct (set_del x xs)"
  by (auto simp: set_del_def)

lemma fold_set_add: "set (fold set_add xs ys) = set xs \<union> set ys" "distinct (fold set_add xs ys) \<longleftrightarrow> distinct ys"
  by (induction xs arbitrary: ys) auto

lemma set_of_simps [simp]: "set (set_of xs) = set xs" "distinct (set_of xs)"
  by (simp_all add: set_of_def fold_set_add)

end
