(* ===== verification/DerivedIndex.thy ===== *)
theory DerivedIndex
  imports Prelude
begin

text \<open>
  The contract of the indexes \<open>packages/minidb\<close> derives from its store (dt columns, secondary,
  compound and full-text indexes): an index follows the writes of the store, a put replacing what a
  key had and a delete dropping it, and what it holds of a key depends on the key's last write only.
  From that alone follows what the database relies on: an index kept up to date write by write and
  one rebuilt from the live records hold the same.
\<close>

datatype ('k, 'e) ix_op = IxPut 'k 'e | IxDel 'k

text \<open>The map a sequence of writes builds.\<close>

fun ix_map :: "('k, 'e) ix_op \<Rightarrow> ('k \<Rightarrow> 'e option) \<Rightarrow> 'k \<Rightarrow> 'e option" where
  "ix_map (IxPut k e) m = m(k := Some e)"
| "ix_map (IxDel k) m = m(k := None)"

fun ix_step :: "('k \<Rightarrow> 'e \<Rightarrow> 's \<Rightarrow> 's) \<Rightarrow> ('k \<Rightarrow> 's \<Rightarrow> 's) \<Rightarrow> ('k, 'e) ix_op \<Rightarrow> 's \<Rightarrow> 's" where
  "ix_step put del (IxPut k e) s = put k e s"
| "ix_step put del (IxDel k) s = del k s"

definition ix_content :: "('e \<Rightarrow> 'v option) \<Rightarrow> ('k \<Rightarrow> 'e option) \<Rightarrow> 'k \<Rightarrow> 'v option" where
  "ix_content content m k = (case m k of None \<Rightarrow> None | Some e \<Rightarrow> content e)"

lemma fold_ix_puts: "fold ix_map (map (\<lambda>(k, e). IxPut k e) es) m = m ++ map_of (rev es)"
  by (induction es arbitrary: m) (auto simp: map_add_def fun_eq_iff split: option.splits)

lemma map_of_rev_ok: "jmap_ok es \<Longrightarrow> map_of (rev es) = map_of es"
proof (rule ext, rule option_eqI)
  fix k e
  assume ok: "jmap_ok es"
  then have "jmap_ok (rev es)" by (simp add: jmap_ok_def flip: rev_map)
  then show "map_of (rev es) k = Some e \<longleftrightarrow> map_of es k = Some e"
    using ok by (simp add: jget_mem [symmetric])
qed

text \<open>\<open>content\<close> is what an index keeps of a record, \<open>legal\<close> the keys and records it is given.\<close>

locale derived_index =
  fixes empty :: "'s"
    and put :: "'k \<Rightarrow> 'e \<Rightarrow> 's \<Rightarrow> 's"
    and del :: "'k \<Rightarrow> 's \<Rightarrow> 's"
    and inv :: "'s \<Rightarrow> bool"
    and view :: "'s \<Rightarrow> 'k \<Rightarrow> 'v option"
    and content :: "'e \<Rightarrow> 'v option"
    and legal :: "'e \<Rightarrow> bool"
  assumes inv_empty: "inv empty" and view_empty: "view empty = (\<lambda>k. None)"
    and inv_put: "inv s \<Longrightarrow> legal e \<Longrightarrow> inv (put k e s)"
    and view_put: "inv s \<Longrightarrow> legal e \<Longrightarrow> view (put k e s) = (view s)(k := content e)"
    and inv_del: "inv s \<Longrightarrow> inv (del k s)"
    and view_del: "inv s \<Longrightarrow> view (del k s) = (view s)(k := None)"
begin

definition legal_op :: "('k, 'e) ix_op \<Rightarrow> bool" where
  "legal_op a = (case a of IxPut k e \<Rightarrow> legal e | IxDel k \<Rightarrow> True)"

lemma step_view:
  "inv s \<Longrightarrow> legal_op a \<Longrightarrow> view s = ix_content content m \<Longrightarrow>
     inv (ix_step put del a s) \<and> view (ix_step put del a s) = ix_content content (ix_map a m)"
  by (cases a) (auto simp: legal_op_def inv_put view_put inv_del view_del ix_content_def fun_eq_iff)

lemma run_view:
  "inv s \<Longrightarrow> list_all legal_op as \<Longrightarrow> view s = ix_content content m \<Longrightarrow>
     inv (fold (ix_step put del) as s) \<and> view (fold (ix_step put del) as s) = ix_content content (fold ix_map as m)"
  by (induction as arbitrary: s m) (simp_all add: step_view)

lemma run_from_empty:
  "list_all legal_op as \<Longrightarrow>
     inv (fold (ix_step put del) as empty) \<and>
     view (fold (ix_step put del) as empty) = ix_content content (fold ix_map as (\<lambda>k. None))"
  by (rule run_view) (simp_all add: inv_empty view_empty ix_content_def fun_eq_iff)

lemma rebuild_view:
  assumes "jmap_ok es" "\<forall>e \<in> snd ` set es. legal e"
  shows "inv (fold (\<lambda>(k, e). put k e) es empty) \<and>
    view (fold (\<lambda>(k, e). put k e) es empty) = ix_content content (map_of es)"
proof -
  have step: "fold (\<lambda>(k, e). put k e) es s = fold (ix_step put del) (map (\<lambda>(k, e). IxPut k e) es) s" for s
    by (induction es arbitrary: s) auto
  have "list_all legal_op (map (\<lambda>(k, e). IxPut k e) es)"
    using assms(2) by (auto simp: list_all_iff legal_op_def)
  moreover have "map_of (rev es) = map_of es"
    using assms(1) by (rule map_of_rev_ok)
  ultimately show ?thesis
    using run_from_empty [of "map (\<lambda>(k, e). IxPut k e) es"] by (simp add: step fold_ix_puts)
qed

text \<open>The records a run of legal writes leaves are legal.\<close>

lemma legal_records:
  assumes "list_all legal_op as" "jmap_ok es" "map_of es = fold ix_map as (\<lambda>k. None)"
  shows "\<forall>e \<in> snd ` set es. legal e"
proof -
  have "legal e" if "(k, e) \<in> set es" for k e
  proof -
    have "map_of es k = Some e" using assms(2) that by (simp add: jmap_ok_def)
    then have "fold ix_map as (\<lambda>k. None) k = Some e" by (simp add: assms(3))
    moreover have "(\<forall>k e. m k = Some e \<longrightarrow> legal e) \<Longrightarrow> fold ix_map as m k = Some e \<Longrightarrow> legal e" for m
      using assms(1)
    proof (induction as arbitrary: m)
      case (Cons a as)
      have "\<forall>k e. ix_map a m k = Some e \<longrightarrow> legal e"
        using Cons.prems(1,3) by (cases a) (auto simp: legal_op_def split: if_splits)
      with Cons show ?case by simp
    qed simp
    ultimately show ?thesis by (metis option.distinct(1))
  qed
  then show ?thesis by auto
qed

text \<open>The index of a run and the index rebuilt from the records the run leaves hold the same.\<close>

lemma rebuild_agrees:
  assumes "list_all legal_op as" "jmap_ok es" "map_of es = fold ix_map as (\<lambda>k. None)"
  shows "view (fold (\<lambda>(k, e). put k e) es empty) = view (fold (ix_step put del) as empty)"
  using rebuild_view [OF assms(2) legal_records [OF assms]] run_from_empty [OF assms(1)]
  by (simp add: assms(3))

end

end
