(* ===== verification/IndexManager.thy ===== *)
theory IndexManager
  imports Json DerivedIndex Store
begin

text \<open>
  The secondary indexes of \<open>packages/minidb/src/index-manager.ts\<close>: equality indexes (a posting set
  per value text) and range indexes (an ordered index of numbers), with the unique checks. A \<open>Set\<close>
  is the list of its members in insertion order. \<open>num_str\<close> is \<open>Number.prototype.toString\<close>. A
  \<open>UniqueViolationError\<close> carries the name of the index; the value in its message is not modelled.
\<close>

section \<open>Indexes\<close>

record index_head =
  ixname :: jstr
  ixfield :: jstr
  ixunique :: bool
  ixsparse :: bool

record eq_index = index_head +
  eq_map :: "(jstr, kstr list) jmap"
  eq_byPk :: "(kstr, jstr list) jmap"

record range_index = index_head +
  rg_list :: "(rat \<times> kstr) list"
  rg_byPk :: "(kstr, rat list) jmap"

datatype any_index = EqIndex eq_index | RangeIndex range_index

datatype index_type = Equality | Range

type_synonym index_manager = "(jstr, any_index) jmap"

fun head_of :: "any_index \<Rightarrow> index_head" where
  "head_of (EqIndex e) = index_head.truncate e"
| "head_of (RangeIndex r) = index_head.truncate r"

definition getField :: "jsv \<Rightarrow> jstr \<Rightarrow> jsv" where
  "getField doc path = fold (\<lambda>k v. if nullish v then JUndef else get_prop v k) (split_on 46 path) doc"

text \<open>\<open>None\<close> is \<open>undefined\<close>: \<open>join\<close> turns it into the empty text, a template into \<open>undefined\<close>.\<close>

fun stableStringify :: "num_text \<Rightarrow> jsv \<Rightarrow> jstr option" where
  "stableStringify num_str (JArr i xs) =
     Some (lit ''['' @ join (lit '','')
       (map (\<lambda>v. case stableStringify num_str v of None \<Rightarrow> [] | Some t \<Rightarrow> t) xs) @ lit '']'')"
| "stableStringify num_str (JObj i fs) =
     Some (lit ''{'' @ join (lit '','')
       (map (\<lambda>(k, t). quote k @ lit '':'' @ t)
         (sort_key fst (map (\<lambda>(k, v). (k, case stableStringify num_str v of None \<Rightarrow> lit ''undefined'' | Some t \<Rightarrow> t)) fs)))
       @ lit ''}'')"
| "stableStringify num_str (JRegExp i s f) = Some (lit ''{}'')"
| "stableStringify num_str v = scalar_json num_str v"

definition scalarKey :: "num_text \<Rightarrow> jsv \<Rightarrow> jstr" where
  "scalarKey num_str v =
     (case v of
        JStr s \<Rightarrow> lit ''string:'' @ s
      | JNum q \<Rightarrow> lit ''number:'' @ to_string num_str v
      | JNaN \<Rightarrow> lit ''number:'' @ to_string num_str v
      | JInf b \<Rightarrow> lit ''number:'' @ to_string num_str v
      | JBool b \<Rightarrow> lit ''boolean:'' @ to_string num_str v
      | _ \<Rightarrow> lit ''json:'' @ (case stableStringify num_str v of None \<Rightarrow> lit ''undefined'' | Some t \<Rightarrow> t))"

definition flatten :: "jsv \<Rightarrow> jsv list" where
  "flatten v = (case v of JArr i xs \<Rightarrow> xs | _ \<Rightarrow> [v])"

text \<open>The elements a range index keeps: finite numbers.\<close>

definition finite_num :: "jsv \<Rightarrow> rat option" where
  "finite_num v = (case v of JNum q \<Rightarrow> Some q | _ \<Rightarrow> None)"

definition finite_nums :: "jsv \<Rightarrow> rat list" where
  "finite_nums v = List.map_filter finite_num (flatten v)"

definition new_eq :: "index_head \<Rightarrow> eq_index" where
  "new_eq h = index_head.extend h (eq_index.fields [] [])"

definition new_range :: "index_head \<Rightarrow> range_index" where
  "new_range h = index_head.extend h (range_index.fields [] [])"

definition im_create ::
  "jstr \<Rightarrow> jstr \<Rightarrow> index_type option \<Rightarrow> bool option \<Rightarrow> bool option \<Rightarrow> index_manager \<Rightarrow> js_error + any_index \<times> index_manager" where
  "im_create name field ty unique sparse m =
     (if field = [] then Inl (TypeError ''index requires a field'')
      else if jget m name \<noteq> None then Inl (Error ''index already exists'')
      else
        let h = \<lparr> ixname = name, ixfield = field, ixunique = (case unique of None \<Rightarrow> False | Some b \<Rightarrow> b),
                  ixsparse = (case sparse of None \<Rightarrow> True | Some b \<Rightarrow> b) \<rparr>;
            ix = (if ty = Some Range then RangeIndex (new_range h) else EqIndex (new_eq h))
        in Inr (ix, jset name ix m))"

definition im_drop :: "jstr \<Rightarrow> index_manager \<Rightarrow> bool \<times> index_manager" where
  "im_drop name m = (jget m name \<noteq> None, jdel name m)"

definition im_get :: "jstr \<Rightarrow> index_manager \<Rightarrow> js_error + any_index" where
  "im_get name m = (case jget m name of None \<Rightarrow> Inl (Error ''no such index'') | Some ix \<Rightarrow> Inr ix)"

fun type_of_index :: "any_index \<Rightarrow> index_type" where
  "type_of_index (EqIndex e) = Equality"
| "type_of_index (RangeIndex r) = Range"

definition im_list :: "index_manager \<Rightarrow> (index_head \<times> index_type) list" where
  "im_list m = map (\<lambda>(name, ix). (head_of ix, type_of_index ix)) m"

section \<open>Adding and removing a document\<close>

definition link_eq :: "kstr \<Rightarrow> jstr \<Rightarrow> (jstr, kstr list) jmap \<Rightarrow> (jstr, kstr list) jmap" where
  "link_eq pk sk m = jset sk (set_add pk (case jget m sk of None \<Rightarrow> [] | Some ps \<Rightarrow> ps)) m"

definition eq_add :: "num_text \<Rightarrow> kstr \<Rightarrow> jsv \<Rightarrow> eq_index \<Rightarrow> eq_index" where
  "eq_add num_str pk doc e =
     (let v = getField doc (ixfield e) in
      if v = JUndef \<and> ixsparse e then e
      else
        let sks = map (scalarKey num_str) (flatten v) in
        e\<lparr> eq_map := fold (link_eq pk) sks (eq_map e), eq_byPk := jset pk sks (eq_byPk e) \<rparr>)"

definition unlink_eq :: "kstr \<Rightarrow> jstr \<Rightarrow> (jstr, kstr list) jmap \<Rightarrow> (jstr, kstr list) jmap" where
  "unlink_eq pk sk m =
     (case jget m sk of
        None \<Rightarrow> m
      | Some ps \<Rightarrow> let ps' = set_del pk ps in if ps' = [] then jdel sk m else jset sk ps' m)"

definition eq_remove :: "kstr \<Rightarrow> eq_index \<Rightarrow> eq_index" where
  "eq_remove pk e =
     (case jget (eq_byPk e) pk of
        None \<Rightarrow> e
      | Some sks \<Rightarrow> e\<lparr> eq_map := fold (unlink_eq pk) sks (eq_map e), eq_byPk := jdel pk (eq_byPk e) \<rparr>)"

definition range_add :: "kstr \<Rightarrow> jsv \<Rightarrow> range_index \<Rightarrow> range_index" where
  "range_add pk doc r =
     (let v = getField doc (ixfield r) in
      if v = JUndef \<and> ixsparse r then r
      else
        let vals = set_of (finite_nums v) in
        if vals = [] then r
        else r\<lparr> rg_list := fold (\<lambda>v. oi_insert (v, pk)) vals (rg_list r), rg_byPk := jset pk vals (rg_byPk r) \<rparr>)"

definition range_remove :: "kstr \<Rightarrow> range_index \<Rightarrow> range_index" where
  "range_remove pk r =
     (case jget (rg_byPk r) pk of
        None \<Rightarrow> r
      | Some old \<Rightarrow> r\<lparr> rg_list := fold (\<lambda>v. oi_delete (v, pk)) old (rg_list r), rg_byPk := jdel pk (rg_byPk r) \<rparr>)"

fun any_add :: "num_text \<Rightarrow> kstr \<Rightarrow> jsv \<Rightarrow> any_index \<Rightarrow> any_index" where
  "any_add num_str pk doc (EqIndex e) = EqIndex (eq_add num_str pk doc e)"
| "any_add num_str pk doc (RangeIndex r) = RangeIndex (range_add pk doc r)"

fun any_remove :: "kstr \<Rightarrow> any_index \<Rightarrow> any_index" where
  "any_remove pk (EqIndex e) = EqIndex (eq_remove pk e)"
| "any_remove pk (RangeIndex r) = RangeIndex (range_remove pk r)"

definition im_add :: "num_text \<Rightarrow> kstr \<Rightarrow> jsv \<Rightarrow> index_manager \<Rightarrow> index_manager" where
  "im_add num_str pk doc m = map (\<lambda>(name, ix). (name, any_add num_str pk doc ix)) m"

definition im_remove :: "kstr \<Rightarrow> index_manager \<Rightarrow> index_manager" where
  "im_remove pk m = map (\<lambda>(name, ix). (name, any_remove pk ix)) m"

fun any_clear :: "any_index \<Rightarrow> any_index" where
  "any_clear (EqIndex e) = EqIndex (e\<lparr> eq_map := [], eq_byPk := [] \<rparr>)"
| "any_clear (RangeIndex r) = RangeIndex (r\<lparr> rg_list := [], rg_byPk := [] \<rparr>)"

definition im_rebuild :: "num_text \<Rightarrow> (kstr \<times> jsv) list \<Rightarrow> index_manager \<Rightarrow> index_manager" where
  "im_rebuild num_str es m =
     fold (\<lambda>(pk, doc) m. if is_object doc then im_add num_str pk doc m else m) es
       (map (\<lambda>(name, ix). (name, any_clear ix)) m)"

section \<open>Lookups\<close>

definition findEq :: "num_text \<Rightarrow> jstr \<Rightarrow> jsv \<Rightarrow> index_manager \<Rightarrow> js_error + kstr list" where
  "findEq num_str name v m =
     (case im_get name m of
        Inl err \<Rightarrow> Inl err
      | Inr (RangeIndex r) \<Rightarrow> Inl (Error ''not an equality index'')
      | Inr (EqIndex e) \<Rightarrow> Inr (case jget (eq_map e) (scalarKey num_str v) of None \<Rightarrow> [] | Some ps \<Rightarrow> ps))"

definition hasEq :: "num_text \<Rightarrow> jstr \<Rightarrow> jsv \<Rightarrow> kstr \<Rightarrow> index_manager \<Rightarrow> js_error + bool" where
  "hasEq num_str name v pk m =
     (case im_get name m of
        Inl err \<Rightarrow> Inl err
      | Inr (RangeIndex r) \<Rightarrow> Inl (Error ''not an equality index'')
      | Inr (EqIndex e) \<Rightarrow>
          Inr (case jget (eq_map e) (scalarKey num_str v) of None \<Rightarrow> False | Some ps \<Rightarrow> pk \<in> set ps))"

record find_options =
  fmin :: "rat option"
  fmax :: "rat option"
  minExclusive :: bool
  maxExclusive :: bool
  foffset :: nat
  fcount :: "nat option"
  freverse :: bool

definition range_opts :: "find_options \<Rightarrow> rat range_options" where
  "range_opts f =
     \<lparr> gte = (if minExclusive f then None else fmin f), gt = (if minExclusive f then fmin f else None),
       lte = (if maxExclusive f then None else fmax f), lt = (if maxExclusive f then fmax f else None),
       roffset = foffset f, rcount = fcount f, rreverse = freverse f \<rparr>"

definition findRange :: "jstr \<Rightarrow> find_options \<Rightarrow> index_manager \<Rightarrow> js_error + (kstr \<times> rat) list" where
  "findRange name f m =
     (case im_get name m of
        Inl err \<Rightarrow> Inl err
      | Inr (EqIndex e) \<Rightarrow> Inl (Error ''not a range index'')
      | Inr (RangeIndex r) \<Rightarrow> Inr (map (\<lambda>(v, pk). (pk, v)) (oi_range (range_opts f) (rg_list r))))"

section \<open>Unique constraints\<close>

definition eq_taken :: "num_text \<Rightarrow> kstr \<Rightarrow> eq_index \<Rightarrow> jsv \<Rightarrow> bool" where
  "eq_taken num_str pk e v =
     (case jget (eq_map e) (scalarKey num_str v) of
        None \<Rightarrow> False
      | Some ps \<Rightarrow> length ps > 1 \<or> (length ps = 1 \<and> pk \<notin> set ps))"

definition range_taken :: "kstr \<Rightarrow> range_index \<Rightarrow> rat \<Rightarrow> bool" where
  "range_taken pk r v =
     (case oi_range (no_range\<lparr> gte := Some v, lte := Some v, rcount := Some 1 \<rparr>) (rg_list r) of
        [] \<Rightarrow> False
      | hit # _ \<Rightarrow> snd hit \<noteq> pk)"

fun any_violates :: "num_text \<Rightarrow> kstr \<Rightarrow> jsv \<Rightarrow> any_index \<Rightarrow> bool" where
  "any_violates num_str pk doc (EqIndex e) \<longleftrightarrow>
     ixunique e \<and>
     (let v = getField doc (ixfield e) in
      \<not> (v = JUndef \<and> ixsparse e) \<and> list_ex (eq_taken num_str pk e) (flatten v))"
| "any_violates num_str pk doc (RangeIndex r) \<longleftrightarrow>
     ixunique r \<and>
     (let v = getField doc (ixfield r) in
      \<not> (v = JUndef \<and> ixsparse r) \<and> list_ex (range_taken pk r) (finite_nums v))"

definition checkUnique :: "num_text \<Rightarrow> kstr \<Rightarrow> jsv \<Rightarrow> index_manager \<Rightarrow> js_error + unit" where
  "checkUnique num_str pk doc m =
     (case List.find (any_violates num_str pk doc) (map snd m) of
        None \<Rightarrow> Inr ()
      | Some ix \<Rightarrow> Inl (UniqueViolationError (ixname (head_of ix))))"

datatype batch_kind = BSet jsv | BDel

text \<open>The values \<open>vs\<close> of \<open>pk\<close> claimed in \<open>owner\<close>; \<open>None\<close> when one has another owner.\<close>

fun claim :: "kstr \<Rightarrow> 'v list \<Rightarrow> ('v, kstr) jmap \<Rightarrow> ('v, kstr) jmap option" where
  "claim pk [] owner = Some owner"
| "claim pk (v # vs) owner =
     (case jget owner v of
        Some p \<Rightarrow> if p \<noteq> pk then None else claim pk vs (jset v pk owner)
      | None \<Rightarrow> claim pk vs (jset v pk owner))"

fun claim_ops :: "(jsv \<Rightarrow> 'v list) \<Rightarrow> (kstr \<times> batch_kind) list \<Rightarrow> ('v, kstr) jmap \<Rightarrow> ('v, kstr) jmap option" where
  "claim_ops vals [] owner = Some owner"
| "claim_ops vals ((pk, BDel) # ops) owner = claim_ops vals ops owner"
| "claim_ops vals ((pk, BSet doc) # ops) owner =
     (case claim pk (vals doc) owner of None \<Rightarrow> None | Some owner' \<Rightarrow> claim_ops vals ops owner')"

definition eq_values :: "num_text \<Rightarrow> eq_index \<Rightarrow> jsv \<Rightarrow> jstr list" where
  "eq_values num_str e doc =
     (let v = getField doc (ixfield e) in
      if v = JUndef \<and> ixsparse e then [] else map (scalarKey num_str) (flatten v))"

definition eq_owner :: "kstr set \<Rightarrow> eq_index \<Rightarrow> (jstr, kstr) jmap" where
  "eq_owner touched e =
     fold (\<lambda>(sk, ps) owner. fold (\<lambda>pk owner. if pk \<in> touched then owner else jset sk pk owner) ps owner) (eq_map e) []"

definition range_owner :: "kstr set \<Rightarrow> range_index \<Rightarrow> (rat, kstr) jmap" where
  "range_owner touched r =
     fold (\<lambda>(pk, vals) owner. if pk \<in> touched then owner else fold (\<lambda>v. jset v pk) vals owner) (rg_byPk r) []"

fun batch_violates :: "num_text \<Rightarrow> (kstr \<times> batch_kind) list \<Rightarrow> any_index \<Rightarrow> bool" where
  "batch_violates num_str lastOp (EqIndex e) \<longleftrightarrow>
     ixunique e \<and> claim_ops (eq_values num_str e) lastOp (eq_owner (fst ` set lastOp) e) = None"
| "batch_violates num_str lastOp (RangeIndex r) \<longleftrightarrow>
     ixunique r \<and>
     claim_ops (\<lambda>doc. finite_nums (getField doc (ixfield r))) lastOp (range_owner (fst ` set lastOp) r) = None"

definition checkUniqueBatch :: "num_text \<Rightarrow> (kstr \<times> batch_kind) list \<Rightarrow> index_manager \<Rightarrow> js_error + unit" where
  "checkUniqueBatch num_str ops m =
     (let lastOp = fold (\<lambda>(pk, b). jset pk b) ops [] in
      case List.find (batch_violates num_str lastOp) (map snd m) of
        None \<Rightarrow> Inr ()
      | Some ix \<Rightarrow> Inl (UniqueViolationError (ixname (head_of ix))))"

fun range_dups :: "(kstr \<times> rat list) list \<Rightarrow> (rat, kstr) jmap \<Rightarrow> bool" where
  "range_dups [] owner = False"
| "range_dups ((pk, vals) # es) owner =
     (case claim pk vals owner of None \<Rightarrow> True | Some owner' \<Rightarrow> range_dups es owner')"

definition assertUniqueValid :: "jstr \<Rightarrow> index_manager \<Rightarrow> js_error + unit" where
  "assertUniqueValid name m =
     (case im_get name m of
        Inl err \<Rightarrow> Inl err
      | Inr (RangeIndex r) \<Rightarrow>
          if ixunique r \<and> range_dups (rg_byPk r) [] then Inl (UniqueViolationError (ixname r)) else Inr ()
      | Inr (EqIndex e) \<Rightarrow>
          if ixunique e \<and> list_ex (\<lambda>(sk, ps). length ps > 1) (eq_map e) then Inl (UniqueViolationError (ixname e))
          else Inr ())"

section \<open>An equality index follows the records\<close>

definition postings_of :: "(jstr, kstr list) jmap \<Rightarrow> jstr \<Rightarrow> kstr list" where
  "postings_of m sk = (case jget m sk of None \<Rightarrow> [] | Some ps \<Rightarrow> ps)"

text \<open>The map posts exactly the keys \<open>R sk\<close> under every value text \<open>sk\<close>, and no empty set.\<close>

definition post_ok :: "(jstr, kstr list) jmap \<Rightarrow> (jstr \<Rightarrow> kstr set) \<Rightarrow> bool" where
  "post_ok m R \<longleftrightarrow> jmap_ok m \<and>
     (\<forall>sk. jget m sk \<noteq> Some [] \<and> distinct (postings_of m sk) \<and> set (postings_of m sk) = R sk)"

lemma post_okD:
  assumes "post_ok m R"
  shows "jmap_ok m" "jget m sk \<noteq> Some []" "distinct (postings_of m sk)" "set (postings_of m sk) = R sk"
  using assms by (auto simp: post_ok_def)

lemma postings_jset [simp]: "postings_of (jset sk ps m) sk' = (if sk' = sk then ps else postings_of m sk')"
  by (simp add: postings_of_def)

lemma postings_jdel [simp]: "postings_of (jdel sk m) sk' = (if sk' = sk then [] else postings_of m sk')"
  by (simp add: postings_of_def)

lemma link_eq_ok: "post_ok m R \<Longrightarrow> post_ok (link_eq pk sk m) (R(sk := insert pk (R sk)))"
  by (auto simp: post_ok_def link_eq_def simp flip: postings_of_def)

lemma unlink_eq_ok:
  assumes "post_ok m R"
  shows "post_ok (unlink_eq pk sk m) (R(sk := R sk - {pk}))"
proof (cases "jget m sk")
  case None
  then have "R sk = {}" using post_okD(4) [OF assms, of sk] by (simp add: postings_of_def)
  then have "R(sk := R sk - {pk}) = R" by (simp add: fun_upd_idem)
  then show ?thesis using assms by (simp add: unlink_eq_def None)
next
  case (Some ps)
  then have ps: "postings_of m sk = ps" by (simp add: postings_of_def)
  note D = post_okD [OF assms]
  have R: "set (set_del pk ps) = R sk - {pk}" using D(4) [of sk] by (simp add: ps)
  show ?thesis
  proof (cases "set_del pk ps = []")
    case True
    then have "R sk - {pk} = {}" using R by (metis empty_set)
    with True D show ?thesis by (simp add: post_ok_def unlink_eq_def Some)
  next
    case False
    with D(1,2,3,4) R show ?thesis using D(3) [of sk]
      by (simp add: post_ok_def unlink_eq_def Some Let_def ps del: set_del_simps(1))
  qed
qed

lemma fold_link_eq: "post_ok m R \<Longrightarrow>
    post_ok (fold (link_eq pk) sks m) (\<lambda>sk. if sk \<in> set sks then insert pk (R sk) else R sk)"
proof (induction sks arbitrary: m R)
  case (Cons sk sks)
  have "(\<lambda>s. if s \<in> set sks then insert pk ((R(sk := insert pk (R sk))) s) else (R(sk := insert pk (R sk))) s) =
      (\<lambda>s. if s \<in> set (sk # sks) then insert pk (R s) else R s)"
    by (auto simp: fun_eq_iff)
  with Cons.IH [OF link_eq_ok [OF Cons.prems, of pk sk]] show ?case by simp
qed simp

lemma fold_unlink_eq: "post_ok m R \<Longrightarrow>
    post_ok (fold (unlink_eq pk) sks m) (\<lambda>sk. if sk \<in> set sks then R sk - {pk} else R sk)"
proof (induction sks arbitrary: m R)
  case (Cons sk sks)
  have "(\<lambda>s. if s \<in> set sks then (R(sk := R sk - {pk})) s - {pk} else (R(sk := R sk - {pk})) s) =
      (\<lambda>s. if s \<in> set (sk # sks) then R s - {pk} else R s)"
    by (auto simp: fun_eq_iff)
  with Cons.IH [OF unlink_eq_ok [OF Cons.prems, of pk sk]] show ?case by simp
qed simp

definition posted :: "(kstr \<Rightarrow> 'v list option) \<Rightarrow> 'v \<Rightarrow> kstr set" where
  "posted V v = {pk. \<exists>vs. V pk = Some vs \<and> v \<in> set vs}"

lemma posted_upd:
  "posted (V(pk := Some vs)) v = (if v \<in> set vs then insert pk (posted V v) else posted V v - {pk})"
  "posted (V(pk := None)) v = posted V v - {pk}"
  by (auto simp: posted_def)

definition eq_ok :: "index_head \<Rightarrow> eq_index \<Rightarrow> bool" where
  "eq_ok h e \<longleftrightarrow> index_head.truncate e = h \<and> jmap_ok (eq_byPk e) \<and> post_ok (eq_map e) (posted (jget (eq_byPk e)))"

definition eq_view :: "eq_index \<Rightarrow> kstr \<Rightarrow> jstr list option" where
  "eq_view e = jget (eq_byPk e)"

definition eq_content :: "num_text \<Rightarrow> index_head \<Rightarrow> jsv \<Rightarrow> jstr list option" where
  "eq_content num_str h doc =
     (let v = getField doc (ixfield h) in
      if \<not> is_object doc \<or> (v = JUndef \<and> ixsparse h) then None else Some (map (scalarKey num_str) (flatten v)))"

text \<open>How the database updates an index: the old values go, an indexable document comes.\<close>

definition eq_put :: "num_text \<Rightarrow> kstr \<Rightarrow> jsv \<Rightarrow> eq_index \<Rightarrow> eq_index" where
  "eq_put num_str pk doc e = (let e' = eq_remove pk e in if is_object doc then eq_add num_str pk doc e' else e')"

lemma eq_remove_ok:
  assumes "eq_ok h e"
  shows "eq_ok h (eq_remove pk e) \<and> eq_view (eq_remove pk e) = (eq_view e)(pk := None)"
proof (cases "jget (eq_byPk e) pk")
  case None
  then have "(eq_view e)(pk := None) = eq_view e" by (simp add: eq_view_def fun_upd_idem)
  then show ?thesis using assms by (simp add: eq_remove_def None)
next
  case (Some sks)
  let ?V = "jget (eq_byPk e)"
  have p: "post_ok (eq_map e) (posted ?V)" using assms by (simp add: eq_ok_def)
  have "(\<lambda>sk. if sk \<in> set sks then posted ?V sk - {pk} else posted ?V sk) = posted (?V(pk := None))"
    using Some by (auto simp: fun_eq_iff posted_def)
  with fold_unlink_eq [OF p, of pk sks]
  have "post_ok (fold (unlink_eq pk) sks (eq_map e)) (posted (?V(pk := None)))" by simp
  then show ?thesis using assms
    by (simp add: eq_ok_def eq_remove_def Some eq_view_def jget_updates index_head.truncate_def fun_upd_def)
qed

lemma eq_put_ok:
  assumes "eq_ok h e"
  shows "eq_ok h (eq_put num_str pk doc e) \<and> eq_view (eq_put num_str pk doc e) = (eq_view e)(pk := eq_content num_str h doc)"
proof -
  let ?e = "eq_remove pk e" and ?v = "getField doc (ixfield h)"
  have r: "eq_ok h ?e" "eq_view ?e = (eq_view e)(pk := None)" using eq_remove_ok [OF assms] by auto
  have h: "ixfield ?e = ixfield h" "ixsparse ?e = ixsparse h"
    using r(1) by (auto simp: eq_ok_def index_head.truncate_def)
  show ?thesis
  proof (cases "\<not> is_object doc \<or> (?v = JUndef \<and> ixsparse h)")
    case True
    then have "eq_put num_str pk doc e = ?e" by (auto simp: eq_put_def eq_add_def h Let_def)
    with True r show ?thesis by (simp add: eq_content_def)
  next
    case False
    let ?sks = "map (scalarKey num_str) (flatten ?v)" and ?V = "jget (eq_byPk ?e)"
    have e': "eq_put num_str pk doc e =
        ?e\<lparr> eq_map := fold (link_eq pk) ?sks (eq_map ?e), eq_byPk := jset pk ?sks (eq_byPk ?e) \<rparr>"
      using False by (auto simp: eq_put_def eq_add_def h Let_def)
    have p: "post_ok (eq_map ?e) (posted ?V)" using r(1) by (simp add: eq_ok_def)
    have "?V pk = None" using r(2) by (simp add: eq_view_def fun_eq_iff)
    then have "(\<lambda>sk. if sk \<in> set ?sks then insert pk (posted ?V sk) else posted ?V sk) = posted (?V(pk := Some ?sks))"
      by (auto simp: fun_eq_iff posted_upd) (auto simp: posted_def)
    with fold_link_eq [OF p, of pk ?sks]
    have "post_ok (fold (link_eq pk) ?sks (eq_map ?e)) (posted (?V(pk := Some ?sks)))" by simp
    then have "eq_ok h (eq_put num_str pk doc e)"
      using r(1) unfolding e' by (simp add: eq_ok_def jget_updates index_head.truncate_def fun_upd_def)
    moreover have "eq_view (eq_put num_str pk doc e) = (eq_view e)(pk := Some ?sks)"
      using r(2) unfolding e' by (simp add: eq_view_def fun_eq_iff)
    moreover have "eq_content num_str h doc = Some ?sks" using False by (auto simp: eq_content_def Let_def)
    ultimately show ?thesis by simp
  qed
qed

lemma new_eq_ok: "eq_ok h (new_eq h)" "eq_view (new_eq h) = (\<lambda>k. None)"
  by (simp_all add: eq_ok_def new_eq_def eq_view_def post_ok_def posted_def postings_of_def index_head.defs
      eq_index.defs fun_eq_iff)

interpretation eqix: derived_index "new_eq h" "eq_put num_str" eq_remove "eq_ok h" eq_view
  "eq_content num_str h" "\<lambda>doc. True" for num_str h
  by unfold_locales (simp_all add: eq_put_ok eq_remove_ok new_eq_ok)

section \<open>A range index follows the records\<close>

definition listed :: "(rat \<times> kstr) list \<Rightarrow> (rat \<Rightarrow> kstr set) \<Rightarrow> bool" where
  "listed xs R \<longleftrightarrow> oi_strict xs \<and> set xs = {(v, pk). pk \<in> R v}"

lemma fold_list_insert:
  "listed xs R \<Longrightarrow> distinct vals \<Longrightarrow> \<forall>v \<in> set vals. pk \<notin> R v \<Longrightarrow>
     listed (fold (\<lambda>v. oi_insert (v, pk)) vals xs) (\<lambda>v. if v \<in> set vals then insert pk (R v) else R v)"
proof (induction vals arbitrary: xs R)
  case (Cons v vals)
  have ins: "listed (oi_insert (v, pk) xs) (R(v := insert pk (R v)))"
    using Cons.prems by (auto simp: listed_def intro!: oi_insert_strict split: if_splits)
  have new: "\<forall>w \<in> set vals. pk \<notin> (R(v := insert pk (R v))) w" using Cons.prems by auto
  have "distinct vals" using Cons.prems(2) by simp
  from Cons.IH [OF ins this new] have "listed (fold (\<lambda>v. oi_insert (v, pk)) vals (oi_insert (v, pk) xs))
      (\<lambda>w. if w \<in> set vals then insert pk ((R(v := insert pk (R v))) w) else (R(v := insert pk (R v))) w)"
    .
  moreover have "(\<lambda>w. if w \<in> set vals then insert pk ((R(v := insert pk (R v))) w) else (R(v := insert pk (R v))) w) =
      (\<lambda>w. if w \<in> set (v # vals) then insert pk (R w) else R w)" by (auto simp: fun_eq_iff)
  ultimately show ?case by simp
qed simp

lemma fold_list_delete:
  "listed xs R \<Longrightarrow>
     listed (fold (\<lambda>v. oi_delete (v, pk)) vals xs) (\<lambda>v. if v \<in> set vals then R v - {pk} else R v)"
proof (induction vals arbitrary: xs R)
  case (Cons v vals)
  have "listed (oi_delete (v, pk) xs) (R(v := R v - {pk}))"
    using Cons.prems by (auto simp: listed_def oi_delete_strict set_oi_delete split: if_splits)
  from Cons.IH [OF this]
  have "listed (fold (\<lambda>v. oi_delete (v, pk)) vals (oi_delete (v, pk) xs))
      (\<lambda>w. if w \<in> set vals then (R(v := R v - {pk})) w - {pk} else (R(v := R v - {pk})) w)" .
  moreover have "(\<lambda>w. if w \<in> set vals then (R(v := R v - {pk})) w - {pk} else (R(v := R v - {pk})) w) =
      (\<lambda>w. if w \<in> set (v # vals) then R w - {pk} else R w)" by (auto simp: fun_eq_iff)
  ultimately show ?case by simp
qed simp

definition range_ok :: "index_head \<Rightarrow> range_index \<Rightarrow> bool" where
  "range_ok h r \<longleftrightarrow> index_head.truncate r = h \<and> jmap_ok (rg_byPk r) \<and> listed (rg_list r) (posted (jget (rg_byPk r)))"

definition range_view :: "range_index \<Rightarrow> kstr \<Rightarrow> rat list option" where
  "range_view r = jget (rg_byPk r)"

definition range_content :: "index_head \<Rightarrow> jsv \<Rightarrow> rat list option" where
  "range_content h doc =
     (let vals = set_of (finite_nums (getField doc (ixfield h))) in
      if \<not> is_object doc \<or> vals = [] then None else Some vals)"

definition range_put :: "kstr \<Rightarrow> jsv \<Rightarrow> range_index \<Rightarrow> range_index" where
  "range_put pk doc r = (let r' = range_remove pk r in if is_object doc then range_add pk doc r' else r')"

lemma range_remove_ok:
  assumes "range_ok h r"
  shows "range_ok h (range_remove pk r) \<and> range_view (range_remove pk r) = (range_view r)(pk := None)"
proof (cases "jget (rg_byPk r) pk")
  case None
  then have "(range_view r)(pk := None) = range_view r" by (simp add: range_view_def fun_upd_idem)
  then show ?thesis using assms by (simp add: range_remove_def None)
next
  case (Some old)
  let ?V = "jget (rg_byPk r)"
  have p: "listed (rg_list r) (posted ?V)" using assms by (simp add: range_ok_def)
  have "(\<lambda>v. if v \<in> set old then posted ?V v - {pk} else posted ?V v) = posted (?V(pk := None))"
    using Some by (auto simp: fun_eq_iff posted_def)
  with fold_list_delete [OF p, of pk old]
  have "listed (fold (\<lambda>v. oi_delete (v, pk)) old (rg_list r)) (posted (?V(pk := None)))" by simp
  then show ?thesis using assms
    by (simp add: range_ok_def range_remove_def Some range_view_def jget_updates index_head.truncate_def fun_upd_def)
qed

lemma finite_nums_undef [simp]: "finite_nums JUndef = []"
  by (simp add: finite_nums_def flatten_def finite_num_def List.map_filter_def)

lemma range_put_ok:
  assumes "range_ok h r"
  shows "range_ok h (range_put pk doc r) \<and> range_view (range_put pk doc r) = (range_view r)(pk := range_content h doc)"
proof -
  let ?r = "range_remove pk r"
  define vals where "vals = set_of (finite_nums (getField doc (ixfield h)))"
  have rr: "range_ok h ?r" "range_view ?r = (range_view r)(pk := None)" using range_remove_ok [OF assms] by auto
  have h: "ixfield ?r = ixfield h" "ixsparse ?r = ixsparse h"
    using rr(1) by (auto simp: range_ok_def index_head.truncate_def)
  have undef: "getField doc (ixfield h) = JUndef \<Longrightarrow> vals = []" by (simp add: vals_def set_of_def)
  show ?thesis
  proof (cases "\<not> is_object doc \<or> vals = []")
    case True
    then have "range_put pk doc r = ?r" by (auto simp: range_put_def range_add_def h vals_def Let_def)
    with True rr show ?thesis by (simp add: range_content_def vals_def)
  next
    case False
    let ?V = "jget (rg_byPk ?r)"
    have r': "range_put pk doc r =
        ?r\<lparr> rg_list := fold (\<lambda>v. oi_insert (v, pk)) vals (rg_list ?r), rg_byPk := jset pk vals (rg_byPk ?r) \<rparr>"
      using False undef by (auto simp: range_put_def range_add_def h vals_def Let_def)
    have p: "listed (rg_list ?r) (posted ?V)" using rr(1) by (simp add: range_ok_def)
    have none: "?V pk = None" using rr(2) by (simp add: range_view_def fun_eq_iff)
    then have "(\<lambda>v. if v \<in> set vals then insert pk (posted ?V v) else posted ?V v) = posted (?V(pk := Some vals))"
      by (auto simp: fun_eq_iff posted_upd) (auto simp: posted_def)
    moreover have "distinct vals" "\<forall>v \<in> set vals. pk \<notin> posted ?V v"
      using none by (simp_all add: vals_def posted_def)
    ultimately have "listed (fold (\<lambda>v. oi_insert (v, pk)) vals (rg_list ?r)) (posted (?V(pk := Some vals)))"
      using fold_list_insert [OF p, of vals pk] by simp
    then have "range_ok h (range_put pk doc r)"
      using rr(1) unfolding r' by (simp add: range_ok_def jget_updates index_head.truncate_def fun_upd_def)
    moreover have "range_view (range_put pk doc r) = (range_view r)(pk := Some vals)"
      using rr(2) unfolding r' by (simp add: range_view_def fun_eq_iff)
    moreover have "range_content h doc = Some vals" using False by (auto simp: range_content_def Let_def vals_def)
    ultimately show ?thesis by simp
  qed
qed

lemma new_range_ok: "range_ok h (new_range h)" "range_view (new_range h) = (\<lambda>k. None)"
  by (simp_all add: range_ok_def new_range_def range_view_def listed_def posted_def index_head.defs
      range_index.defs fun_eq_iff)

interpretation rgix: derived_index "new_range h" range_put range_remove "range_ok h" range_view
  "range_content h" "\<lambda>doc. True" for h
  by unfold_locales (simp_all add: range_put_ok range_remove_ok new_range_ok)

section \<open>All indexes of a manager\<close>

fun any_step :: "num_text \<Rightarrow> (kstr, jsv) ix_op \<Rightarrow> any_index \<Rightarrow> any_index" where
  "any_step num_str a (EqIndex e) = EqIndex (ix_step (eq_put num_str) eq_remove a e)"
| "any_step num_str a (RangeIndex r) = RangeIndex (ix_step range_put range_remove a r)"

text \<open>A write of the database: remove, then add an indexable document.\<close>

fun im_step :: "num_text \<Rightarrow> (kstr, jsv) ix_op \<Rightarrow> index_manager \<Rightarrow> index_manager" where
  "im_step num_str (IxPut pk doc) m =
     (let m' = im_remove pk m in if is_object doc then im_add num_str pk doc m' else m')"
| "im_step num_str (IxDel pk) m = im_remove pk m"

definition im_run :: "num_text \<Rightarrow> (kstr, jsv) ix_op list \<Rightarrow> index_manager \<Rightarrow> index_manager" where
  "im_run num_str as m = fold (im_step num_str) as m"

lemma any_put: "(let x = any_remove pk ix in if is_object doc then any_add num_str pk doc x else x) =
    any_step num_str (IxPut pk doc) ix"
  by (cases ix) (simp_all add: eq_put_def range_put_def Let_def)

lemma im_step_map: "im_step num_str a m = map (\<lambda>(name, ix). (name, any_step num_str a ix)) m"
proof (cases a)
  case (IxPut pk doc)
  then show ?thesis
    by (auto simp: im_remove_def im_add_def Let_def any_put [unfolded Let_def, symmetric])
next
  case (IxDel pk)
  have "any_remove pk ix = any_step num_str (IxDel pk) ix" for ix by (cases ix) simp_all
  then show ?thesis by (simp add: IxDel im_remove_def)
qed

lemma im_run_map: "im_run num_str as m = map (\<lambda>(name, ix). (name, fold (any_step num_str) as ix)) m"
  unfolding im_run_def by (induction as arbitrary: m) (simp_all add: im_step_map o_def case_prod_beta)

lemma any_run:
  "fold (any_step num_str) as (EqIndex e) = EqIndex (fold (ix_step (eq_put num_str) eq_remove) as e)"
  "fold (any_step num_str) as (RangeIndex r) = RangeIndex (fold (ix_step range_put range_remove) as r)"
  by (induction as arbitrary: e r) simp_all

lemma jget_map_value: "jget (map (\<lambda>(k, v). (k, f v)) m) k = map_option f (jget m k)"
  by (induction m) auto

text \<open>\<open>rebuild\<close> adds to cleared indexes: nothing to remove first.\<close>

definition absent :: "kstr \<Rightarrow> any_index \<Rightarrow> bool" where
  "absent pk ix = (case ix of EqIndex e \<Rightarrow> jget (eq_byPk e) pk = None | RangeIndex r \<Rightarrow> jget (rg_byPk r) pk = None)"

lemma any_put_absent: "absent pk ix \<Longrightarrow>
    (if is_object doc then any_add num_str pk doc ix else ix) = any_step num_str (IxPut pk doc) ix"
  by (cases ix) (auto simp: absent_def eq_put_def range_put_def eq_remove_def range_remove_def Let_def)

lemma absent_put: "absent pk ix \<Longrightarrow> pk \<noteq> pk' \<Longrightarrow> absent pk (any_step num_str (IxPut pk' doc) ix)"
  by (cases ix)
     (auto simp: absent_def eq_put_def eq_add_def eq_remove_def range_put_def range_add_def range_remove_def Let_def
       split: option.splits)

lemma rebuild_puts:
  assumes "jmap_ok es" "\<forall>pk \<in> fst ` set es. \<forall>ix \<in> snd ` set m. absent pk ix"
  shows "fold (\<lambda>(pk, doc) m. if is_object doc then im_add num_str pk doc m else m) es m =
    im_run num_str (map (\<lambda>(k, d). IxPut k d) es) m"
  using assms
proof (induction es arbitrary: m)
  case Nil
  then show ?case by (simp add: im_run_def)
next
  case (Cons p es)
  obtain pk doc where p: "p = (pk, doc)" by (cases p)
  have "\<forall>x \<in> set m. absent pk (snd x)" using Cons.prems(2) by (auto simp: p)
  then have here: "(if is_object doc then im_add num_str pk doc m else m) = im_step num_str (IxPut pk doc) m"
    unfolding im_step_map im_add_def
    by (auto simp: case_prod_beta any_put_absent [symmetric] intro!: map_idI [symmetric])
  have "\<forall>k \<in> fst ` set es. \<forall>ix \<in> snd ` set (im_step num_str (IxPut pk doc) m). absent k ix"
    using Cons.prems unfolding im_step_map by (force simp: p intro!: absent_put)
  with Cons.IH Cons.prems(1) have "fold (\<lambda>(pk, doc) m. if is_object doc then im_add num_str pk doc m else m) es
      (im_step num_str (IxPut pk doc) m) = im_run num_str (map (\<lambda>(k, d). IxPut k d) es) (im_step num_str (IxPut pk doc) m)"
    by (simp add: p)
  then show ?case by (simp add: p here im_run_def)
qed

lemma im_rebuild_run:
  assumes "jmap_ok es"
  shows "im_rebuild num_str es m =
    im_run num_str (map (\<lambda>(k, d). IxPut k d) es) (map (\<lambda>(name, ix). (name, any_clear ix)) m)"
proof -
  have "absent pk (any_clear ix)" for pk ix by (cases ix) (simp_all add: absent_def)
  then have "\<forall>pk \<in> fst ` set es. \<forall>ix \<in> snd ` set (map (\<lambda>(name, ix). (name, any_clear ix)) m). absent pk ix"
    by auto
  from rebuild_puts [OF assms this] show ?thesis by (simp add: im_rebuild_def)
qed

lemma clear_eq: "eq_ok h e \<Longrightarrow> any_clear (EqIndex e) = EqIndex (new_eq h)"
  by (cases e) (auto simp: eq_ok_def new_eq_def index_head.defs eq_index.defs)

lemma clear_range: "range_ok h r \<Longrightarrow> any_clear (RangeIndex r) = RangeIndex (new_range h)"
  by (cases r) (auto simp: range_ok_def new_range_def index_head.defs range_index.defs)

section \<open>Lookups are exact\<close>

lemma fold_puts_eq: "fold (ix_step put del) (map (\<lambda>(k, d). IxPut k d) es) s = fold (\<lambda>(k, d). put k d) es s"
  by (induction es arbitrary: s) auto

lemma eq_run:
  "eq_ok h (fold (ix_step (eq_put num_str) eq_remove) as (new_eq h))"
  "eq_view (fold (ix_step (eq_put num_str) eq_remove) as (new_eq h)) =
     ix_content (eq_content num_str h) (fold ix_map as (\<lambda>k. None))"
  using eqix.run_from_empty [where as = as and num_str = num_str and h = h] by (simp_all add: eqix.legal_op_def list_all_iff split: ix_op.splits)

lemma range_run:
  "range_ok h (fold (ix_step range_put range_remove) as (new_range h))"
  "range_view (fold (ix_step range_put range_remove) as (new_range h)) =
     ix_content (range_content h) (fold ix_map as (\<lambda>k. None))"
  using rgix.run_from_empty [where as = as and h = h] by (simp_all add: rgix.legal_op_def list_all_iff split: ix_op.splits)

lemma eq_lookup: "eq_ok h e \<Longrightarrow> distinct (postings_of (eq_map e) sk) \<and>
    set (postings_of (eq_map e) sk) = {pk. \<exists>sks. eq_view e pk = Some sks \<and> sk \<in> set sks}"
  by (simp add: eq_ok_def post_ok_def posted_def eq_view_def)

lemma range_lookup: "range_ok h r \<Longrightarrow> oi_strict (rg_list r) \<and>
    set (rg_list r) = {(v, pk). \<exists>vs. range_view r pk = Some vs \<and> v \<in> set vs}"
  by (simp add: range_ok_def listed_def posted_def range_view_def)

lemma eq_content_values: "(\<exists>sks. eq_content num_str h doc = Some sks \<and> sk \<in> set sks) \<longleftrightarrow>
    is_object doc \<and> \<not> (getField doc (ixfield h) = JUndef \<and> ixsparse h) \<and>
    sk \<in> scalarKey num_str ` set (flatten (getField doc (ixfield h)))"
  by (auto simp: eq_content_def Let_def)

lemma finite_num_iff: "finite_num v = Some q \<longleftrightarrow> v = JNum q"
  by (auto simp: finite_num_def split: jsv.splits)

lemma set_finite_nums: "q \<in> set (finite_nums v) \<longleftrightarrow> JNum q \<in> set (flatten v)"
proof -
  have "set (finite_nums v) = {q. \<exists>x \<in> set (flatten v). finite_num x = Some q}"
    unfolding finite_nums_def by (force simp: List.map_filter_def image_iff)
  then show ?thesis by (auto simp: finite_num_iff)
qed

lemma range_content_values: "(\<exists>vs. range_content h doc = Some vs \<and> q \<in> set vs) \<longleftrightarrow>
    is_object doc \<and> JNum q \<in> set (flatten (getField doc (ixfield h)))"
proof -
  let ?vals = "set_of (finite_nums (getField doc (ixfield h)))"
  have v: "q \<in> set ?vals \<longleftrightarrow> JNum q \<in> set (flatten (getField doc (ixfield h)))"
    by (simp add: set_finite_nums)
  show ?thesis
  proof (cases "is_object doc \<and> ?vals \<noteq> []")
    case True
    then have "range_content h doc = Some ?vals" by (simp add: range_content_def)
    with True v show ?thesis by simp
  next
    case False
    then have "range_content h doc = None" by (auto simp: range_content_def Let_def)
    moreover have "\<not> (is_object doc \<and> q \<in> set ?vals)" using False by (metis empty_iff empty_set)
    ultimately show ?thesis using v by simp
  qed
qed

lemma im_create_new:
  assumes "im_create name field ty unique sparse m = Inr (ix, m')"
    and "h = \<lparr> ixname = name, ixfield = field, ixunique = (case unique of None \<Rightarrow> False | Some b \<Rightarrow> b),
      ixsparse = (case sparse of None \<Rightarrow> True | Some b \<Rightarrow> b) \<rparr>"
  shows "jget m' name = Some (if ty = Some Range then RangeIndex (new_range h) else EqIndex (new_eq h))"
  using assms by (auto simp: im_create_def Let_def split: if_splits)

lemma findEq_index:
  assumes "jget m name = Some (EqIndex e)"
  shows "findEq num_str name v m = Inr (postings_of (eq_map e) (scalarKey num_str v))"
    "hasEq num_str name v pk m = Inr (pk \<in> set (postings_of (eq_map e) (scalarKey num_str v)))"
  using assms by (auto simp: findEq_def hasEq_def im_get_def postings_of_def split: option.splits)

lemma findRange_index:
  "jget m name = Some (RangeIndex r) \<Longrightarrow>
     findRange name f m = Inr (map prod.swap (oi_range (range_opts f) (rg_list r)))"
  by (auto simp: findRange_def im_get_def intro: map_cong)

lemma range_opts_exact: "gte (range_opts f) = None \<or> gt (range_opts f) = None"
  "lte (range_opts f) = None \<or> lt (range_opts f) = None"
  by (simp_all add: range_opts_def)

lemma range_opts_between:
  "above (range_opts f) q \<longleftrightarrow> (case fmin f of None \<Rightarrow> True | Some b \<Rightarrow> if minExclusive f then b < q else b \<le> q)"
  "below (range_opts f) q \<longleftrightarrow> (case fmax f of None \<Rightarrow> True | Some b \<Rightarrow> if maxExclusive f then q < b else q \<le> b)"
  by (auto simp: range_opts_def above_def below_def split: option.splits)

lemma rebuild_index:
  assumes "jmap_ok es" "jget m name = Some ix"
  shows "jget (im_rebuild num_str es m) name =
    Some (fold (any_step num_str) (map (\<lambda>(k, d). IxPut k d) es) (any_clear ix))"
  by (simp add: im_rebuild_run [OF assms(1)] im_run_map jget_map_value assms(2) del: map_map)

text \<open>C35: an equality index answers \<open>findEq\<close>, after any sequence of writes on its manager, by exactly
  the keys whose current record is an object with a value (or, in an array field, an element) of
  the same text as the one asked for, each once; a document without the field is left out only when
  the index is sparse; \<open>hasEq\<close> is membership in that answer; and the index rebuilt from the
  records the writes left answers with the same keys.\<close>

theorem eq_lookup_exact:
  assumes create: "im_create name field ty unique sparse m = Inr (ix, m')" and ty: "ty \<noteq> Some Range"
    and es: "jmap_ok es" "map_of es = fold ix_map as (\<lambda>k. None)"
  shows "\<exists>ps qs. findEq num_str name v (im_run num_str as m') = Inr ps \<and> distinct ps \<and>
    set ps = {k. \<exists>doc. fold ix_map as (\<lambda>k. None) k = Some doc \<and> is_object doc \<and>
      \<not> (getField doc field = JUndef \<and> sparse \<noteq> Some False) \<and>
      scalarKey num_str v \<in> scalarKey num_str ` set (flatten (getField doc field))} \<and>
    hasEq num_str name v pk (im_run num_str as m') = Inr (pk \<in> set ps) \<and>
    findEq num_str name v (im_rebuild num_str es (im_run num_str as m')) = Inr qs \<and> distinct qs \<and> set qs = set ps"
proof -
  define h where "h = \<lparr> ixname = name, ixfield = field, ixunique = (case unique of None \<Rightarrow> False | Some b \<Rightarrow> b),
    ixsparse = (case sparse of None \<Rightarrow> True | Some b \<Rightarrow> b) \<rparr>"
  let ?M = "fold ix_map as (\<lambda>k. None)" and ?run = "fold (ix_step (eq_put num_str) eq_remove)"
  let ?e = "?run as (new_eq h)" and ?es = "map (\<lambda>(k, d). IxPut k d) es"
  have new: "jget m' name = Some (EqIndex (new_eq h))" using im_create_new [OF create h_def] ty by simp
  have run: "jget (im_run num_str as m') name = Some (EqIndex ?e)"
    by (simp add: im_run_map jget_map_value new any_run)
  have reb: "jget (im_rebuild num_str es (im_run num_str as m')) name = Some (EqIndex (?run ?es (new_eq h)))"
    by (simp add: rebuild_index [OF es(1) run] clear_eq [OF eq_run(1)] any_run del: any_clear.simps)
  have M: "fold ix_map ?es (\<lambda>k. None) = ?M"
    using es(1) by (simp add: fold_ix_puts map_of_rev_ok es(2))
  have val: "set (postings_of (eq_map (?run bs (new_eq h))) (scalarKey num_str v)) =
      {k. \<exists>doc. fold ix_map bs (\<lambda>k. None) k = Some doc \<and> is_object doc \<and>
      \<not> (getField doc field = JUndef \<and> sparse \<noteq> Some False) \<and>
      scalarKey num_str v \<in> scalarKey num_str ` set (flatten (getField doc field))}" for bs
  proof -
    have "(\<exists>sks. ix_content (eq_content num_str h) (fold ix_map bs (\<lambda>k. None)) k = Some sks \<and> scalarKey num_str v \<in> set sks) \<longleftrightarrow>
      (\<exists>doc. fold ix_map bs (\<lambda>k. None) k = Some doc \<and> is_object doc \<and> \<not> (getField doc field = JUndef \<and> sparse \<noteq> Some False) \<and>
        scalarKey num_str v \<in> scalarKey num_str ` set (flatten (getField doc field)))" for k
      using eq_content_values [of num_str h _ "scalarKey num_str v"]
      by (auto simp: ix_content_def h_def split: option.splits)
    then show ?thesis using eq_lookup [OF eq_run(1) [of h num_str bs]] by (simp add: eq_run(2))
  qed
  have dist: "distinct (postings_of (eq_map (?run bs (new_eq h))) sk)" for bs sk
    using eq_lookup [OF eq_run(1) [of h num_str bs]] by blast
  have same: "set (postings_of (eq_map (?run ?es (new_eq h))) (scalarKey num_str v)) =
      set (postings_of (eq_map ?e) (scalarKey num_str v))"
    unfolding val M ..
  show ?thesis
    by (intro exI conjI) (rule findEq_index [OF run] findEq_index(1) [OF reb] dist val same)+
qed

text \<open>A range index answers \<open>findRange\<close>, after any sequence of writes on its manager, by exactly
  the numbers (of the field, or of the elements of an array field) of the current records between
  the bounds asked for, each once per key and ordered by number and then key, reversed on request
  and cut to the offset and count; and the index rebuilt from the records the writes left gives
  the same answer.\<close>

theorem range_lookup_exact:
  assumes create: "im_create name field (Some Range) unique sparse m = Inr (ix, m')"
    and es: "jmap_ok es" "map_of es = fold ix_map as (\<lambda>k. None)"
  shows "\<exists>l. set l = {(k, q). \<exists>doc. fold ix_map as (\<lambda>k. None) k = Some doc \<and> is_object doc \<and>
      JNum q \<in> set (flatten (getField doc field))} \<and>
    sorted_wrt (\<lambda>(k, v) (k', v'). v < v' \<or> (v = v' \<and> k < k')) l \<and>
    findRange name f (im_run num_str as m') = Inr (window (range_opts f) (filter (\<lambda>(k, q).
      (case fmin f of None \<Rightarrow> True | Some b \<Rightarrow> if minExclusive f then b < q else b \<le> q) \<and>
      (case fmax f of None \<Rightarrow> True | Some b \<Rightarrow> if maxExclusive f then q < b else q \<le> b))
      ((if freverse f then rev else id) l))) \<and>
    findRange name f (im_rebuild num_str es (im_run num_str as m')) = findRange name f (im_run num_str as m')"
proof -
  define h where "h = \<lparr> ixname = name, ixfield = field, ixunique = (case unique of None \<Rightarrow> False | Some b \<Rightarrow> b),
    ixsparse = (case sparse of None \<Rightarrow> True | Some b \<Rightarrow> b) \<rparr>"
  let ?M = "fold ix_map as (\<lambda>k. None)" and ?run = "fold (ix_step range_put range_remove)"
  let ?r = "?run as (new_range h)" and ?es = "map (\<lambda>(k, d). IxPut k d) es"
  have new: "jget m' name = Some (RangeIndex (new_range h))" using im_create_new [OF create h_def] by simp
  have run: "jget (im_run num_str as m') name = Some (RangeIndex ?r)"
    by (simp add: im_run_map jget_map_value new any_run)
  have reb: "jget (im_rebuild num_str es (im_run num_str as m')) name = Some (RangeIndex (?run ?es (new_range h)))"
    by (simp add: rebuild_index [OF es(1) run] clear_range [OF range_run(1)] any_run del: any_clear.simps)
  have M: "fold ix_map ?es (\<lambda>k. None) = ?M"
    using es(1) by (simp add: fold_ix_puts map_of_rev_ok es(2))
  note L = range_lookup [OF range_run(1) [of h as]] and L' = range_lookup [OF range_run(1) [of h ?es]]
  have same: "rg_list (?run ?es (new_range h)) = rg_list ?r"
    using L L' by (intro oi_strict_unique) (simp_all add: range_run(2) M)
  have iff: "(\<exists>vs. ix_content (range_content h) ?M k = Some vs \<and> q \<in> set vs) \<longleftrightarrow>
      (\<exists>doc. ?M k = Some doc \<and> is_object doc \<and> JNum q \<in> set (flatten (getField doc field)))" for k q
    using range_content_values [of h _ q] by (auto simp: ix_content_def h_def split: option.splits)
  let ?l = "map prod.swap (rg_list ?r)"
  have "set ?l = {(k, q). \<exists>doc. ?M k = Some doc \<and> is_object doc \<and> JNum q \<in> set (flatten (getField doc field))}"
    using L by (auto simp: range_run(2) iff image_iff)
  moreover have "sorted_wrt (\<lambda>(k, v) (k', v'). v < v' \<or> (v = v' \<and> k < k')) ?l"
    using L by (auto simp: oi_strict_def sorted_wrt_map nodeLess_def elim: sorted_wrt_mono_rel [rotated])
  moreover have "findRange name f (im_run num_str as m') = Inr (window (range_opts f) (filter (\<lambda>(k, q).
      above (range_opts f) q \<and> below (range_opts f) q) ((if freverse f then rev else id) ?l)))"
    unfolding findRange_index [OF run] oi_range_exact [OF range_opts_exact]
    by (auto simp: window_swap filter_swap rev_map range_opts_def)
  moreover have "findRange name f (im_rebuild num_str es (im_run num_str as m')) = findRange name f (im_run num_str as m')"
    by (simp add: findRange_index [OF run] findRange_index [OF reb] same)
  ultimately show ?thesis unfolding range_opts_between by blast
qed

lemma eq_lookup_exact_witness:
  "let doc = (\<lambda>n t. JObj n [(lit ''t'', JStr t)]);
     as = [IxPut [97] (doc 1 [120]), IxPut [98] (doc 2 [121]), IxPut [97] (doc 3 [121])];
     es = [([97], doc 3 [121]), ([98], doc 2 [121])]
   in \<exists>ix m' ps. im_create [105] (lit ''t'') None None None [] = Inr (ix, m') \<and>
     findEq (\<lambda>q. []) [105] (JStr [121]) (im_run (\<lambda>q. []) as m') = Inr ps \<and> [97] \<in> set ps \<and> [98] \<in> set ps"
proof -
  let ?doc = "\<lambda>n t. JObj n [(lit ''t'', JStr t)]" and ?ns = "\<lambda>q. [] :: jstr"
  let ?as = "[IxPut [97] (?doc 1 [120]), IxPut [98] (?doc 2 [121]), IxPut [97] (?doc 3 [121])] :: (kstr, jsv) ix_op list"
  let ?es = "[([97], ?doc 3 [121]), ([98], ?doc 2 [121])] :: (kstr \<times> jsv) list"
  obtain ix m' where c: "im_create [105] (lit ''t'') None None None [] = Inr (ix, m')"
    by (simp add: im_create_def Let_def)
  have m: "map_of ?es = fold ix_map ?as (\<lambda>k. None)" by (simp add: fun_eq_iff)
  have ok: "jmap_ok ?es" by simp
  obtain ps where ps: "findEq ?ns [105] (JStr [121]) (im_run ?ns ?as m') = Inr ps"
    "set ps = {k. \<exists>doc. fold ix_map ?as (\<lambda>k. None) k = Some doc \<and> is_object doc \<and>
      \<not> (getField doc (lit ''t'') = JUndef \<and> None \<noteq> Some False) \<and>
      scalarKey ?ns (JStr [121]) \<in> scalarKey ?ns ` set (flatten (getField doc (lit ''t'')))}"
    using eq_lookup_exact [OF c _ ok m, of ?ns "JStr [121]" "[97]"] by auto
  have f: "is_object (?doc n t)" "getField (?doc n t) (lit ''t'') = JStr t" "flatten (JStr t) = [JStr t]" for n t
    by (simp_all add: is_object_def getField_def nullish_def get_prop_def flatten_def)
  have "[97] \<in> set ps" "[98] \<in> set ps"
    unfolding ps(2) using f(1,2) [of 3 "[121]"] f(1,2) [of 2 "[121]"] by (auto simp: f(3))
  with c ps(1) show ?thesis by (auto simp: Let_def)
qed

lemma range_lookup_exact_witness:
  "let doc = (\<lambda>n q. JObj n [(lit ''t'', JNum q)]);
     as = [IxPut [97] (doc 1 5), IxPut [98] (doc 2 7)]; es = [([97], doc 1 5), ([98], doc 2 7)]
   in \<exists>ix m'. im_create [105] (lit ''t'') (Some Range) None None [] = Inr (ix, m') \<and>
     (\<forall>f. findRange [105] f (im_rebuild (\<lambda>q. []) es (im_run (\<lambda>q. []) as m')) = findRange [105] f (im_run (\<lambda>q. []) as m'))"
proof -
  let ?doc = "\<lambda>n q. JObj n [(lit ''t'', JNum q)]" and ?ns = "\<lambda>q. [] :: jstr"
  let ?as = "[IxPut [97] (?doc 1 5), IxPut [98] (?doc 2 7)] :: (kstr, jsv) ix_op list"
  let ?es = "[([97], ?doc 1 5), ([98], ?doc 2 7)] :: (kstr \<times> jsv) list"
  obtain ix m' where c: "im_create [105] (lit ''t'') (Some Range) None None [] = Inr (ix, m')"
    by (simp add: im_create_def Let_def)
  have m: "map_of ?es = fold ix_map ?as (\<lambda>k. None)" by (simp add: fun_eq_iff)
  have ok: "jmap_ok ?es" by simp
  have "findRange [105] f (im_rebuild ?ns ?es (im_run ?ns ?as m')) = findRange [105] f (im_run ?ns ?as m')" for f
    using range_lookup_exact [OF c ok m, of f ?ns] by blast
  with c show ?thesis by (auto simp: Let_def)
qed

end
