(* ===== verification/UniqueChecks.thy ===== *)
theory UniqueChecks
  imports IndexManager
begin

text \<open>
  The unique constraints of \<open>packages/minidb/src/index-manager.ts\<close>: on indexes that follow the
  records and whose records are unique, \<open>checkUnique\<close> accepts exactly the document, and
  \<open>checkUniqueBatch\<close> exactly the batch, after which the records are still unique.
\<close>

section \<open>Owners\<close>

text \<open>An owner map holds exactly the pairs \<open>W\<close>, which therefore give every value one owner.\<close>

definition owns :: "('v, kstr) jmap \<Rightarrow> ('v \<times> kstr) set \<Rightarrow> bool" where
  "owns owner W \<longleftrightarrow> (\<forall>v p. jget owner v = Some p \<longleftrightarrow> (v, p) \<in> W)"

definition functional :: "('v \<times> kstr) set \<Rightarrow> bool" where
  "functional W \<longleftrightarrow> (\<forall>v p q. (v, p) \<in> W \<longrightarrow> (v, q) \<in> W \<longrightarrow> p = q)"

lemma functionalD: "functional W \<Longrightarrow> (v, p) \<in> W \<Longrightarrow> (v, q) \<in> W \<Longrightarrow> p = q"
  by (auto simp: functional_def)

lemma functional_mono: "functional W \<Longrightarrow> W' \<subseteq> W \<Longrightarrow> functional W'"
  unfolding functional_def by blast

lemma owns_Nil [simp]: "owns [] {}"
  by (simp add: owns_def)

lemma owns_functional: "owns owner W \<Longrightarrow> functional W"
  by (auto simp: owns_def functional_def) (metis option.inject)

lemma owns_jset:
  assumes "owns owner W" "\<And>p. (v, p) \<in> W \<Longrightarrow> p = pk"
  shows "owns (jset v pk owner) (insert (v, pk) W)"
  using assms by (auto simp: owns_def)

lemma claim_spec:
  "owns owner W \<Longrightarrow>
     (case claim pk vs owner of
        None \<Rightarrow> \<not> functional (W \<union> set vs \<times> {pk})
      | Some owner' \<Rightarrow> owns owner' (W \<union> set vs \<times> {pk}))"
proof (induction vs arbitrary: owner W)
  case (Cons v vs)
  have un: "insert (v, pk) W \<union> set vs \<times> {pk} = W \<union> set (v # vs) \<times> {pk}" by auto
  show ?case
  proof (cases "\<exists>p. jget owner v = Some p \<and> p \<noteq> pk")
    case True
    then obtain p where p: "jget owner v = Some p" "p \<noteq> pk" by blast
    then have "(v, p) \<in> W" using Cons.prems by (simp add: owns_def)
    then have "\<not> functional (W \<union> set (v # vs) \<times> {pk})" using p(2) by (auto simp: functional_def)
    then show ?thesis using p by simp
  next
    case False
    have "p = pk" if "(v, p) \<in> W" for p using that Cons.prems False by (auto simp: owns_def)
    then have "owns (jset v pk owner) (insert (v, pk) W)" by (rule owns_jset [OF Cons.prems])
    from Cons.IH [OF this] show ?thesis using False unfolding un by (auto split: option.splits)
  qed
qed simp

definition claimed :: "(jsv \<Rightarrow> 'v list) \<Rightarrow> (kstr \<times> batch_kind) list \<Rightarrow> ('v \<times> kstr) set" where
  "claimed vals ops = {(v, pk). \<exists>doc. (pk, BSet doc) \<in> set ops \<and> v \<in> set (vals doc)}"

lemma claimed_simps [simp]:
  "claimed vals [] = {}"
  "claimed vals ((pk, BDel) # ops) = claimed vals ops"
  "claimed vals ((pk, BSet doc) # ops) = set (vals doc) \<times> {pk} \<union> claimed vals ops"
  by (auto simp: claimed_def)

lemma claim_ops_spec:
  "owns owner W \<Longrightarrow>
     (case claim_ops vals ops owner of
        None \<Rightarrow> \<not> functional (W \<union> claimed vals ops)
      | Some owner' \<Rightarrow> owns owner' (W \<union> claimed vals ops))"
proof (induction ops arbitrary: owner W)
  case (Cons a ops)
  obtain pk b where a: "a = (pk, b)" by (cases a)
  show ?case
  proof (cases b)
    case BDel
    have un: "W \<union> claimed vals (a # ops) = W \<union> claimed vals ops" by (simp add: a BDel)
    from Cons.IH [OF Cons.prems] show ?thesis unfolding un by (simp add: a BDel)
  next
    case (BSet doc)
    have un: "W \<union> claimed vals (a # ops) = W \<union> set (vals doc) \<times> {pk} \<union> claimed vals ops" by (auto simp: a BSet)
    show ?thesis
    proof (cases "claim pk (vals doc) owner")
      case None
      then have "\<not> functional (W \<union> set (vals doc) \<times> {pk})" using claim_spec [OF Cons.prems, where pk = pk and vs = "vals doc"] by simp
      then have "\<not> functional (W \<union> set (vals doc) \<times> {pk} \<union> claimed vals ops)" using functional_mono by blast
      then show ?thesis unfolding un by (simp add: a BSet None)
    next
      case (Some owner')
      then have "owns owner' (W \<union> set (vals doc) \<times> {pk})" using claim_spec [OF Cons.prems, where pk = pk and vs = "vals doc"] by simp
      from Cons.IH [OF this] show ?thesis unfolding un by (simp add: a BSet Some)
    qed
  qed
qed simp

lemma claim_ops_iff: "owns owner W \<Longrightarrow> claim_ops vals ops owner = None \<longleftrightarrow> \<not> functional (W \<union> claimed vals ops)"
  using claim_ops_spec [of owner W vals ops] owns_functional by (auto split: option.splits)

text \<open>The owners the two loops start from.\<close>

lemma fold_pairs_owns:
  "owns owner W \<Longrightarrow> functional (W \<union> set prs) \<Longrightarrow> owns (fold (\<lambda>(v, p). jset v p) prs owner) (W \<union> set prs)"
proof (induction prs arbitrary: owner W)
  case (Cons q prs)
  obtain v p where q: "q = (v, p)" by (cases q)
  have "p' = p" if "(v, p') \<in> W" for p'
    using functionalD [OF Cons.prems(2), of v p' p] that by (simp add: q)
  then have "owns (jset v p owner) (insert (v, p) W)" by (rule owns_jset [OF Cons.prems(1)])
  from Cons.IH [OF this] Cons.prems(2) show ?case by (simp add: q)
qed simp

lemma eq_owner_pairs: "eq_owner touched e =
    fold (\<lambda>(v, p). jset v p) (concat (map (\<lambda>(sk, ps). map (\<lambda>p. (sk, p)) (filter (\<lambda>p. p \<notin> touched) ps)) (eq_map e))) []"
proof -
  have inner: "fold (\<lambda>pk owner. if pk \<in> touched then owner else jset sk pk owner) ps owner =
      fold (\<lambda>(v, p). jset v p) (map (\<lambda>p. (sk, p)) (filter (\<lambda>p. p \<notin> touched) ps)) owner" for sk ps and owner :: "(jstr, kstr) jmap"
    by (induction ps arbitrary: owner) auto
  have "fold (\<lambda>(sk, ps) owner. fold (\<lambda>pk owner. if pk \<in> touched then owner else jset sk pk owner) ps owner) m owner =
      fold (\<lambda>(v, p). jset v p) (concat (map (\<lambda>(sk, ps). map (\<lambda>p. (sk, p)) (filter (\<lambda>p. p \<notin> touched) ps)) m)) owner"
    for m :: "(jstr, kstr list) jmap" and owner :: "(jstr, kstr) jmap"
    by (induction m arbitrary: owner) (auto simp: inner)
  then show ?thesis by (simp add: eq_owner_def)
qed

lemma range_owner_pairs: "range_owner touched r =
    fold (\<lambda>(v, p). jset v p) (concat (map (\<lambda>(pk, vals). if pk \<in> touched then [] else map (\<lambda>v. (v, pk)) vals) (rg_byPk r))) []"
proof -
  have inner: "fold (\<lambda>v. jset v pk) vals owner = fold (\<lambda>(v, p). jset v p) (map (\<lambda>v. (v, pk)) vals) owner"
    for vals pk and owner :: "(rat, kstr) jmap"
    by (induction vals arbitrary: owner) auto
  have "fold (\<lambda>(pk, vals) owner. if pk \<in> touched then owner else fold (\<lambda>v. jset v pk) vals owner) m owner =
      fold (\<lambda>(v, p). jset v p) (concat (map (\<lambda>(pk, vals). if pk \<in> touched then [] else map (\<lambda>v. (v, pk)) vals) m)) owner"
    for m :: "(kstr, rat list) jmap" and owner :: "(rat, kstr) jmap"
    by (induction m arbitrary: owner) (auto simp: inner)
  then show ?thesis by (simp add: range_owner_def)
qed

lemma eq_owner_owns:
  assumes ok: "post_ok (eq_map e) R" and f: "functional {(sk, p). p \<in> R sk \<and> p \<notin> touched}"
  shows "owns (eq_owner touched e) {(sk, p). p \<in> R sk \<and> p \<notin> touched}"
proof -
  let ?prs = "concat (map (\<lambda>(sk, ps). map (\<lambda>p. (sk, p)) (filter (\<lambda>p. p \<notin> touched) ps)) (eq_map e))"
  have "(sk, p) \<in> set ?prs \<longleftrightarrow> p \<in> R sk \<and> p \<notin> touched" for sk p
  proof -
    have "(sk, p) \<in> set ?prs \<longleftrightarrow> (\<exists>ps. jget (eq_map e) sk = Some ps \<and> p \<in> set ps) \<and> p \<notin> touched"
      using post_okD(1) [OF ok] by (auto simp: jget_mem [symmetric])
    moreover have "(\<exists>ps. jget (eq_map e) sk = Some ps \<and> p \<in> set ps) \<longleftrightarrow> p \<in> R sk"
      unfolding post_okD(4) [OF ok, symmetric] by (cases "jget (eq_map e) sk") (auto simp: postings_of_def)
    ultimately show ?thesis by simp
  qed
  then have "set ?prs = {(sk, p). p \<in> R sk \<and> p \<notin> touched}"
    by (simp only: set_eq_iff split_paired_All mem_Collect_eq case_prod_conv) simp
  with fold_pairs_owns [OF owns_Nil, of ?prs] f show ?thesis by (simp add: eq_owner_pairs)
qed

lemma range_owner_owns:
  assumes ok: "jmap_ok (rg_byPk r)" and f: "functional {(v, p). p \<in> posted (jget (rg_byPk r)) v \<and> p \<notin> touched}"
  shows "owns (range_owner touched r) {(v, p). p \<in> posted (jget (rg_byPk r)) v \<and> p \<notin> touched}"
proof -
  let ?prs = "concat (map (\<lambda>(pk, vals). if pk \<in> touched then [] else map (\<lambda>v. (v, pk)) vals) (rg_byPk r))"
  have "(v, p) \<in> set ?prs \<longleftrightarrow> p \<in> posted (jget (rg_byPk r)) v \<and> p \<notin> touched" for v p
  proof -
    have "(v, p) \<in> set ?prs \<longleftrightarrow> (\<exists>vals. (p, vals) \<in> set (rg_byPk r) \<and> v \<in> set vals) \<and> p \<notin> touched"
      by (auto split: if_splits)
    then show ?thesis by (simp add: posted_def jget_mem [OF ok])
  qed
  then have "set ?prs = {(v, p). p \<in> posted (jget (rg_byPk r)) v \<and> p \<notin> touched}"
    by (simp only: set_eq_iff split_paired_All mem_Collect_eq case_prod_conv) simp
  with fold_pairs_owns [OF owns_Nil, of ?prs] f show ?thesis by (simp add: range_owner_pairs)
qed

section \<open>Unique records\<close>

text \<open>The pairs of a value and the key of a record that has it.\<close>

definition value_pairs :: "(jsv \<Rightarrow> 'v list) \<Rightarrow> (kstr \<Rightarrow> jsv option) \<Rightarrow> ('v \<times> kstr) set" where
  "value_pairs vals M = {(v, k). \<exists>doc. M k = Some doc \<and> is_object doc \<and> v \<in> set (vals doc)}"

definition shares :: "num_text \<Rightarrow> any_index \<Rightarrow> jsv \<Rightarrow> jsv \<Rightarrow> bool" where
  "shares num_str ix d d' =
     (case ix of
        EqIndex e \<Rightarrow> set (eq_values num_str e d) \<inter> set (eq_values num_str e d') \<noteq> {}
      | RangeIndex r \<Rightarrow> set (finite_nums (getField d (ixfield r))) \<inter> set (finite_nums (getField d' (ixfield r))) \<noteq> {})"

text \<open>No two records share a value of a unique index.\<close>

definition records_unique :: "num_text \<Rightarrow> any_index \<Rightarrow> (kstr \<Rightarrow> jsv option) \<Rightarrow> bool" where
  "records_unique num_str ix M \<longleftrightarrow>
     (\<forall>k k' d d'. M k = Some d \<longrightarrow> M k' = Some d' \<longrightarrow> is_object d \<longrightarrow> is_object d' \<longrightarrow> k \<noteq> k' \<longrightarrow>
        \<not> shares num_str ix d d')"

lemma functional_value_pairs: "functional (value_pairs vals M) \<longleftrightarrow>
    (\<forall>k k' d d'. M k = Some d \<longrightarrow> M k' = Some d' \<longrightarrow> is_object d \<longrightarrow> is_object d' \<longrightarrow> k \<noteq> k' \<longrightarrow>
       set (vals d) \<inter> set (vals d') = {})"
  unfolding functional_def value_pairs_def by (auto simp: disjoint_iff) metis

lemma records_unique_pairs:
  "records_unique num_str (EqIndex e) M \<longleftrightarrow> functional (value_pairs (eq_values num_str e) M)"
  "records_unique num_str (RangeIndex r) M \<longleftrightarrow> functional (value_pairs (\<lambda>d. finite_nums (getField d (ixfield r))) M)"
  unfolding records_unique_def functional_value_pairs shares_def by simp_all

section \<open>Batches\<close>

fun batch_map :: "kstr \<times> batch_kind \<Rightarrow> (kstr \<Rightarrow> jsv option) \<Rightarrow> kstr \<Rightarrow> jsv option" where
  "batch_map (pk, BSet doc) M = M(pk := Some doc)"
| "batch_map (pk, BDel) M = M(pk := None)"

definition overlay :: "(kstr, batch_kind) jmap \<Rightarrow> (kstr \<Rightarrow> jsv option) \<Rightarrow> kstr \<Rightarrow> jsv option" where
  "overlay L M k = (case jget L k of None \<Rightarrow> M k | Some BDel \<Rightarrow> None | Some (BSet d) \<Rightarrow> Some d)"

lemma overlay_Nil: "overlay [] M = M"
  by (simp add: overlay_def fun_eq_iff)

lemma overlay_jset: "overlay (jset pk b L) M = batch_map (pk, b) (overlay L M)"
  by (cases b) (simp_all add: overlay_def fun_eq_iff)

lemma last_ops: "overlay (fold (\<lambda>(pk, b). jset pk b) ops L) M = fold batch_map ops (overlay L M)"
  by (induction ops arbitrary: L) (auto simp: overlay_jset)

lemma last_ops_ok: "jmap_ok L \<Longrightarrow> jmap_ok (fold (\<lambda>(pk, b). jset pk b) ops L)"
  by (induction ops arbitrary: L) auto

lemma last_ops_set: "set (fold (\<lambda>(pk, b). jset pk b) ops L) \<subseteq> set ops \<union> set L"
proof (induction ops arbitrary: L)
  case (Cons a ops)
  obtain pk b where a: "a = (pk, b)" by (cases a)
  have "set (jset pk b L) \<subseteq> insert (pk, b) (set L)" by (induction L) auto
  with Cons.IH [of "jset pk b L"] show ?case by (auto simp: a)
qed simp

lemma overlay_pairs:
  assumes ok: "jmap_ok L" and objs: "\<And>pk doc. (pk, BSet doc) \<in> set L \<Longrightarrow> is_object doc"
  shows "value_pairs vals (overlay L M) = {(v, k). (v, k) \<in> value_pairs vals M \<and> k \<notin> fst ` set L} \<union> claimed vals L"
proof -
  have "(v, k) \<in> value_pairs vals (overlay L M) \<longleftrightarrow>
      ((v, k) \<in> value_pairs vals M \<and> k \<notin> fst ` set L) \<or> (v, k) \<in> claimed vals L" for v k
  proof (cases "jget L k")
    case None
    then have "k \<notin> fst ` set L" "\<And>doc. (k, BSet doc) \<notin> set L" by (force simp: jget_None_iff)+
    then show ?thesis by (simp add: value_pairs_def overlay_def None claimed_def)
  next
    case (Some b)
    then have mem: "(k, b) \<in> set L" by (rule map_of_SomeD)
    have only: "(k, BSet doc) \<in> set L \<longleftrightarrow> b = BSet doc" for doc using Some by (auto simp: jget_mem [OF ok])
    have "k \<in> fst ` set L" using mem by force
    moreover have "is_object d" if "b = BSet d" for d using objs [of k d] mem that by simp
    ultimately show ?thesis
      by (cases b) (auto simp: value_pairs_def overlay_def Some claimed_def only)
  qed
  then show ?thesis by auto
qed

section \<open>The indexes of a run\<close>

definition fresh_index :: "any_index \<Rightarrow> bool" where
  "fresh_index ix \<longleftrightarrow> (\<exists>h. ix = EqIndex (new_eq h) \<or> ix = RangeIndex (new_range h))"

lemma new_heads [simp]:
  "ixfield (new_eq h) = ixfield h" "ixsparse (new_eq h) = ixsparse h" "ixunique (new_eq h) = ixunique h"
  "ixfield (new_range h) = ixfield h" "ixunique (new_range h) = ixunique h" "ixsparse (new_range h) = ixsparse h"
  by (simp_all add: new_eq_def new_range_def index_head.defs eq_index.defs range_index.defs)

lemma eq_head:
  assumes "eq_ok h e"
  shows "ixfield e = ixfield h" "ixsparse e = ixsparse h" "ixunique e = ixunique h"
  using assms by (auto simp: eq_ok_def index_head.truncate_def)

lemma range_head:
  assumes "range_ok h r"
  shows "ixfield r = ixfield h" "ixsparse r = ixsparse h" "ixunique r = ixunique h"
  using assms by (auto simp: range_ok_def index_head.truncate_def)

lemma eq_values_head: "eq_ok h e \<Longrightarrow> eq_values num_str e = eq_values num_str (new_eq h)"
  by (simp add: eq_values_def fun_eq_iff eq_head)

lemma posted_eq_run:
  "{(sk, p). p \<in> posted (jget (eq_byPk (fold (ix_step (eq_put num_str) eq_remove) as (new_eq h)))) sk} =
     value_pairs (eq_values num_str (new_eq h)) (fold ix_map as (\<lambda>k. None))"
proof -
  have "p \<in> posted (eq_view (fold (ix_step (eq_put num_str) eq_remove) as (new_eq h))) sk \<longleftrightarrow>
      (\<exists>doc. fold ix_map as (\<lambda>k. None) p = Some doc \<and> is_object doc \<and> sk \<in> set (eq_values num_str (new_eq h) doc))" for p sk
    using eq_content_values [of num_str h _ sk]
    by (auto simp: eq_run(2) posted_def ix_content_def eq_values_def Let_def split: option.splits)
  then show ?thesis by (auto simp: value_pairs_def eq_view_def)
qed

lemma posted_range_run:
  "{(q, p). p \<in> posted (jget (rg_byPk (fold (ix_step range_put range_remove) as (new_range h)))) q} =
     value_pairs (\<lambda>d. finite_nums (getField d (ixfield h))) (fold ix_map as (\<lambda>k. None))"
proof -
  have "p \<in> posted (range_view (fold (ix_step range_put range_remove) as (new_range h))) q \<longleftrightarrow>
      (\<exists>doc. fold ix_map as (\<lambda>k. None) p = Some doc \<and> is_object doc \<and> q \<in> set (finite_nums (getField doc (ixfield h))))" for p q
    using range_content_values [of h _ q]
    by (auto simp: range_run(2) posted_def ix_content_def set_finite_nums split: option.splits)
  then show ?thesis by (auto simp: value_pairs_def range_view_def)
qed

section \<open>What the checks accept\<close>

lemma untouched_pairs: "{(v, p). p \<in> R v \<and> p \<notin> T} = {(v, p). (v, p) \<in> {(v, p). p \<in> R v} \<and> p \<notin> T}"
  by simp

lemma batch_violates_run:
  assumes ix: "fresh_index ix" and L: "jmap_ok L" "\<And>pk doc. (pk, BSet doc) \<in> set L \<Longrightarrow> is_object doc"
    and uniq: "records_unique num_str ix M" and M: "M = fold ix_map as (\<lambda>k. None)"
  shows "batch_violates num_str L (fold (any_step num_str) as ix) \<longleftrightarrow>
    ixunique (head_of ix) \<and> \<not> records_unique num_str ix (overlay L M)"
proof -
  from ix obtain h where "ix = EqIndex (new_eq h) \<or> ix = RangeIndex (new_range h)" by (auto simp: fresh_index_def)
  then show ?thesis
  proof
    assume i: "ix = EqIndex (new_eq h)"
    let ?e = "fold (ix_step (eq_put num_str) eq_remove) as (new_eq h)"
    let ?vals = "eq_values num_str (new_eq h)" and ?T = "fst ` set L"
    note ok = eq_run(1) [of h num_str as]
    have pairs: "{(sk, p). p \<in> posted (jget (eq_byPk ?e)) sk \<and> p \<notin> ?T} = {(v, k). (v, k) \<in> value_pairs ?vals M \<and> k \<notin> ?T}"
      using posted_eq_run [of num_str as h] by (simp add: untouched_pairs M)
    have f: "functional {(v, k). (v, k) \<in> value_pairs ?vals M \<and> k \<notin> ?T}"
      using uniq by (auto simp: i records_unique_pairs elim!: functional_mono)
    have "post_ok (eq_map ?e) (posted (jget (eq_byPk ?e)))" using ok by (simp add: eq_ok_def)
    from eq_owner_owns [OF this, of ?T] f
    have "owns (eq_owner ?T ?e) {(v, k). (v, k) \<in> value_pairs ?vals M \<and> k \<notin> ?T}" by (simp only: pairs)
    from claim_ops_iff [OF this, of ?vals L] show ?thesis
      by (simp add: i any_run eq_head [OF ok] eq_values_head [OF ok] records_unique_pairs overlay_pairs [OF L]
          index_head.truncate_def)
  next
    assume i: "ix = RangeIndex (new_range h)"
    let ?r = "fold (ix_step range_put range_remove) as (new_range h)"
    let ?vals = "\<lambda>d. finite_nums (getField d (ixfield h))" and ?T = "fst ` set L"
    note ok = range_run(1) [of h as]
    have pairs: "{(q, p). p \<in> posted (jget (rg_byPk ?r)) q \<and> p \<notin> ?T} = {(v, k). (v, k) \<in> value_pairs ?vals M \<and> k \<notin> ?T}"
      using posted_range_run [of as h] by (simp add: untouched_pairs M)
    have f: "functional {(v, k). (v, k) \<in> value_pairs ?vals M \<and> k \<notin> ?T}"
      using uniq by (auto simp: i records_unique_pairs elim!: functional_mono)
    have "jmap_ok (rg_byPk ?r)" using ok by (simp add: range_ok_def)
    from range_owner_owns [OF this, of ?T] f
    have "owns (range_owner ?T ?r) {(v, k). (v, k) \<in> value_pairs ?vals M \<and> k \<notin> ?T}" by (simp only: pairs)
    from claim_ops_iff [OF this, of ?vals L] show ?thesis
      by (simp add: i any_run range_head [OF ok] records_unique_pairs overlay_pairs [OF L] index_head.truncate_def)
  qed
qed

lemma taken_iff: "distinct ps \<Longrightarrow> (length ps > 1 \<or> (length ps = 1 \<and> pk \<notin> set ps)) \<longleftrightarrow> (\<exists>p \<in> set ps. p \<noteq> pk)"
proof (cases ps)
  case (Cons a ps')
  assume "distinct ps"
  then show ?thesis by (cases ps') (auto simp: Cons)
qed simp

lemma eq_taken_iff:
  assumes "eq_ok h e"
  shows "eq_taken num_str pk e v \<longleftrightarrow> (\<exists>p \<in> posted (jget (eq_byPk e)) (scalarKey num_str v). p \<noteq> pk)"
proof -
  have ok: "post_ok (eq_map e) (posted (jget (eq_byPk e)))" using assms by (simp add: eq_ok_def)
  have "eq_taken num_str pk e v \<longleftrightarrow> (\<exists>p \<in> set (postings_of (eq_map e) (scalarKey num_str v)). p \<noteq> pk)"
    using taken_iff [OF post_okD(3) [OF ok], of "scalarKey num_str v" pk]
    by (auto simp: eq_taken_def postings_of_def split: option.splits)
  then show ?thesis by (simp add: post_okD(4) [OF ok])
qed

lemma range_taken_iff:
  assumes ok: "range_ok h r" and f: "\<And>p q. p \<in> posted (jget (rg_byPk r)) v \<Longrightarrow> q \<in> posted (jget (rg_byPk r)) v \<Longrightarrow> p = q"
  shows "range_taken pk r v \<longleftrightarrow> (\<exists>p \<in> posted (jget (rg_byPk r)) v. p \<noteq> pk)"
proof -
  let ?hits = "filter (\<lambda>e. fst e = v) (rg_list r)"
  have s: "set (rg_list r) = {(v, k). k \<in> posted (jget (rg_byPk r)) v}" using ok by (simp add: range_ok_def listed_def)
  have r: "oi_range (no_range\<lparr> gte := Some v, lte := Some v, rcount := Some 1 \<rparr>) (rg_list r) = take 1 ?hits"
    by (auto simp: oi_range_def no_range_def window_def from_start_def below_def intro!: filter_cong arg_cong [of _ _ "take _"])
  have hits: "set ?hits = {(w, k). w = v \<and> k \<in> posted (jget (rg_byPk r)) v}" unfolding set_filter s by auto
  show ?thesis
  proof (cases ?hits)
    case Nil
    then have "posted (jget (rg_byPk r)) v = {}" using hits by auto
    then show ?thesis unfolding range_taken_def r by (simp add: Nil)
  next
    case (Cons e es)
    then have e: "e \<in> set ?hits" by simp
    obtain k where k: "e = (v, k)" "k \<in> posted (jget (rg_byPk r)) v" using e unfolding hits by auto
    then have "posted (jget (rg_byPk r)) v = {k}" using f by auto
    then show ?thesis unfolding range_taken_def r by (simp add: Cons k)
  qed
qed

lemma put_pairs:
  assumes "is_object doc"
  shows "value_pairs vals (M(pk := Some doc)) = {(v, k). (v, k) \<in> value_pairs vals M \<and> k \<noteq> pk} \<union> set (vals doc) \<times> {pk}"
  using assms by (auto simp: value_pairs_def split: if_splits)

lemma functional_put:
  assumes "functional W"
  shows "functional ({(v, k). (v, k) \<in> W \<and> k \<noteq> pk} \<union> V \<times> {pk}) \<longleftrightarrow> (\<forall>v \<in> V. \<forall>p. (v, p) \<in> W \<longrightarrow> p = pk)"
proof
  assume f: "functional ({(v, k). (v, k) \<in> W \<and> k \<noteq> pk} \<union> V \<times> {pk})"
  show "\<forall>v \<in> V. \<forall>p. (v, p) \<in> W \<longrightarrow> p = pk"
  proof (intro ballI allI impI, rule ccontr)
    fix v p
    assume v: "v \<in> V" "(v, p) \<in> W" "p \<noteq> pk"
    then have "p = pk" by (intro functionalD [OF f, of v]) simp_all
    with v(3) show False ..
  qed
next
  assume a: "\<forall>v \<in> V. \<forall>p. (v, p) \<in> W \<longrightarrow> p = pk"
  show "functional ({(v, k). (v, k) \<in> W \<and> k \<noteq> pk} \<union> V \<times> {pk})"
    unfolding functional_def using a functionalD [OF assms] by blast
qed

lemma any_violates_run:
  assumes ix: "fresh_index ix" and doc: "is_object doc"
    and uniq: "records_unique num_str ix M" and M: "M = fold ix_map as (\<lambda>k. None)"
  shows "any_violates num_str pk doc (fold (any_step num_str) as ix) \<longleftrightarrow>
    ixunique (head_of ix) \<and> \<not> records_unique num_str ix (M(pk := Some doc))"
proof -
  from ix obtain h where "ix = EqIndex (new_eq h) \<or> ix = RangeIndex (new_range h)" by (auto simp: fresh_index_def)
  then show ?thesis
  proof
    assume i: "ix = EqIndex (new_eq h)"
    let ?e = "fold (ix_step (eq_put num_str) eq_remove) as (new_eq h)"
    let ?vals = "eq_values num_str (new_eq h)"
    note ok = eq_run(1) [of h num_str as]
    have mem: "p \<in> posted (jget (eq_byPk ?e)) sk \<longleftrightarrow> (sk, p) \<in> value_pairs ?vals M" for sk p
      using posted_eq_run [of num_str as h] by (auto simp: M)
    have f: "functional (value_pairs ?vals M)" using uniq by (simp add: i records_unique_pairs)
    have t: "eq_taken num_str pk ?e v \<longleftrightarrow> (\<exists>p. (scalarKey num_str v, p) \<in> value_pairs ?vals M \<and> p \<noteq> pk)" for v
      unfolding eq_taken_iff [OF ok] Bex_def mem ..
    have vals: "set (?vals doc) = (if getField doc (ixfield h) = JUndef \<and> ixsparse h then {}
        else scalarKey num_str ` set (flatten (getField doc (ixfield h))))" by (simp add: eq_values_def Let_def)
    have "any_violates num_str pk doc (EqIndex ?e) \<longleftrightarrow>
        ixunique h \<and> (\<exists>v \<in> set (?vals doc). \<exists>p. (v, p) \<in> value_pairs ?vals M \<and> p \<noteq> pk)"
      unfolding vals by (simp add: eq_head [OF ok] t list_ex_iff Let_def)
    then show ?thesis
      by (auto simp: i any_run records_unique_pairs put_pairs [OF doc] functional_put [OF f] index_head.truncate_def)
  next
    assume i: "ix = RangeIndex (new_range h)"
    let ?r = "fold (ix_step range_put range_remove) as (new_range h)"
    let ?vals = "\<lambda>d. finite_nums (getField d (ixfield h))"
    note ok = range_run(1) [of h as]
    have mem: "p \<in> posted (jget (rg_byPk ?r)) q \<longleftrightarrow> (q, p) \<in> value_pairs ?vals M" for q p
      using posted_range_run [of as h] by (auto simp: M)
    have f: "functional (value_pairs ?vals M)" using uniq by (simp add: i records_unique_pairs)
    have t: "range_taken pk ?r q \<longleftrightarrow> (\<exists>p. (q, p) \<in> value_pairs ?vals M \<and> p \<noteq> pk)" for q
      using range_taken_iff [OF ok, of q pk] functionalD [OF f] by (auto simp: mem)
    have "any_violates num_str pk doc (RangeIndex ?r) \<longleftrightarrow>
        ixunique h \<and> (\<exists>v \<in> set (?vals doc). \<exists>p. (v, p) \<in> value_pairs ?vals M \<and> p \<noteq> pk)"
      by (auto simp: range_head [OF ok] t list_ex_iff Let_def)
    then show ?thesis
      by (auto simp: i any_run records_unique_pairs put_pairs [OF doc] functional_put [OF f] index_head.truncate_def)
  qed
qed

lemma not_unique_run:
  assumes "fresh_index ix" "\<not> ixunique (head_of ix)"
  shows "\<not> any_violates num_str pk doc (fold (any_step num_str) as ix)"
    "\<not> batch_violates num_str L (fold (any_step num_str) as ix)"
proof -
  from assms(1) obtain h where "ix = EqIndex (new_eq h) \<or> ix = RangeIndex (new_range h)" by (auto simp: fresh_index_def)
  with assms(2) show "\<not> any_violates num_str pk doc (fold (any_step num_str) as ix)"
    "\<not> batch_violates num_str L (fold (any_step num_str) as ix)"
    by (auto simp: any_run index_head.truncate_def eq_head [OF eq_run(1)] range_head [OF range_run(1)])
qed

lemma find_violation: "(case List.find P xs of None \<Rightarrow> Inr () | Some ix \<Rightarrow> Inl (f ix)) = Inr () \<longleftrightarrow> (\<forall>x \<in> set xs. \<not> P x)"
  by (auto simp: find_None_iff split: option.splits) (metis find_Some_iff nth_mem)

text \<open>C13: on indexes that follow a run of writes whose records are unique, \<open>checkUnique\<close> accepts
  exactly the document whose write leaves no two records with a common value in a unique index,
  and \<open>checkUniqueBatch\<close> exactly the batches of object documents that do, whatever values they move
  between their keys: the check looks at the records after the last operation per key.\<close>

theorem unique_checks_exact:
  assumes fresh: "\<forall>ix \<in> snd ` set m. fresh_index ix"
    and M: "M = fold ix_map as (\<lambda>k. None)"
    and uniq: "\<forall>ix \<in> snd ` set m. ixunique (head_of ix) \<longrightarrow> records_unique num_str ix M"
    and objs: "is_object doc" "\<forall>pk d. (pk, BSet d) \<in> set ops \<longrightarrow> is_object d"
  shows "(checkUnique num_str pk doc (im_run num_str as m) = Inr () \<longleftrightarrow>
      (\<forall>ix \<in> snd ` set m. ixunique (head_of ix) \<longrightarrow> records_unique num_str ix (M(pk := Some doc)))) \<and>
    (checkUniqueBatch num_str ops (im_run num_str as m) = Inr () \<longleftrightarrow>
      (\<forall>ix \<in> snd ` set m. ixunique (head_of ix) \<longrightarrow> records_unique num_str ix (fold batch_map ops M)))"
proof -
  let ?L = "fold (\<lambda>(pk, b). jset pk b) ops []"
  have L: "jmap_ok ?L" "\<And>pk d. (pk, BSet d) \<in> set ?L \<Longrightarrow> is_object d"
    using last_ops_ok [of "[]" ops] last_ops_set [of ops "[]"] objs(2) by auto
  have ov: "overlay ?L M = fold batch_map ops M"
    using last_ops [of ops "[]" M] by (simp only: overlay_Nil)
  have idx: "snd ` set (im_run num_str as m) = fold (any_step num_str) as ` snd ` set m"
    by (auto simp: im_run_map image_image case_prod_beta)
  have one: "any_violates num_str pk doc (fold (any_step num_str) as ix) \<longleftrightarrow>
      ixunique (head_of ix) \<and> \<not> records_unique num_str ix (M(pk := Some doc))" if "ix \<in> snd ` set m" for ix
  proof (cases "ixunique (head_of ix)")
    case True
    with fresh uniq that show ?thesis using any_violates_run [OF _ objs(1) _ M] by blast
  next
    case False
    with fresh that show ?thesis using not_unique_run(1) by blast
  qed
  have two: "batch_violates num_str ?L (fold (any_step num_str) as ix) \<longleftrightarrow>
      ixunique (head_of ix) \<and> \<not> records_unique num_str ix (overlay ?L M)" if "ix \<in> snd ` set m" for ix
  proof (cases "ixunique (head_of ix)")
    case True
    have fi: "fresh_index ix" and ru: "records_unique num_str ix M" using fresh uniq that True by auto
    show ?thesis by (rule batch_violates_run [OF fi L ru M])
  next
    case False
    with fresh that show ?thesis using not_unique_run(2) by blast
  qed
  have "checkUnique num_str pk doc (im_run num_str as m) = Inr () \<longleftrightarrow>
      (\<forall>ix \<in> snd ` set m. \<not> any_violates num_str pk doc (fold (any_step num_str) as ix))"
    unfolding checkUnique_def find_violation set_map idx by (simp only: ball_simps)
  moreover have "checkUniqueBatch num_str ops (im_run num_str as m) = Inr () \<longleftrightarrow>
      (\<forall>ix \<in> snd ` set m. \<not> batch_violates num_str ?L (fold (any_step num_str) as ix))"
    unfolding checkUniqueBatch_def Let_def find_violation set_map idx by (simp only: ball_simps)
  moreover have "(\<forall>ix \<in> snd ` set m. \<not> any_violates num_str pk doc (fold (any_step num_str) as ix)) \<longleftrightarrow>
      (\<forall>ix \<in> snd ` set m. ixunique (head_of ix) \<longrightarrow> records_unique num_str ix (M(pk := Some doc)))"
    by (rule ball_cong [OF refl]) (simp only: one de_Morgan_conj not_not imp_conv_disj)
  moreover have "(\<forall>ix \<in> snd ` set m. \<not> batch_violates num_str ?L (fold (any_step num_str) as ix)) \<longleftrightarrow>
      (\<forall>ix \<in> snd ` set m. ixunique (head_of ix) \<longrightarrow> records_unique num_str ix (fold batch_map ops M))"
    by (rule ball_cong [OF refl]) (simp only: two ov de_Morgan_conj not_not imp_conv_disj)
  ultimately show ?thesis by simp
qed

lemma unique_checks_exact_witness:
  "let h = \<lparr> ixname = [105], ixfield = [116], ixunique = True, ixsparse = True \<rparr>;
     doc = (\<lambda>n q. JObj n [([116], JNum q)]); m = [([105], RangeIndex (new_range h))] :: index_manager;
     as = [IxPut [97] (doc 1 5), IxPut [98] (doc 2 7)]
   in checkUniqueBatch (\<lambda>q. []) [([97], BSet (doc 3 7)), ([98], BSet (doc 4 5))] (im_run (\<lambda>q. []) as m) = Inr ()"
proof -
  let ?h = "\<lparr> ixname = [105], ixfield = [116], ixunique = True, ixsparse = True \<rparr>"
  let ?doc = "\<lambda>n q. JObj n [([116], JNum q)]" and ?ns = "\<lambda>q. [] :: jstr"
  let ?m = "[([105], RangeIndex (new_range ?h))] :: index_manager"
  let ?as = "[IxPut [97] (?doc 1 5), IxPut [98] (?doc 2 7)] :: (kstr, jsv) ix_op list"
  let ?M = "fold ix_map ?as (\<lambda>k. None)" and ?ops = "[([97], BSet (?doc 3 7)), ([98], BSet (?doc 4 5))]"
  have f: "finite_nums (getField (?doc n q) [116]) = [q]" for n q
    by (simp add: getField_def nullish_def get_prop_def flatten_def finite_nums_def finite_num_def List.map_filter_def)
  have o: "is_object (?doc n q)" for n q by (simp add: is_object_def)
  have u: "records_unique ?ns (RangeIndex (new_range ?h)) ?M"
    "records_unique ?ns (RangeIndex (new_range ?h)) (fold batch_map ?ops ?M)"
    by (auto simp: records_unique_def shares_def f split: if_splits)
  have 1: "\<forall>ix \<in> snd ` set ?m. fresh_index ix" by (auto simp: fresh_index_def)
  have 2: "\<forall>ix \<in> snd ` set ?m. ixunique (head_of ix) \<longrightarrow> records_unique ?ns ix ?M" using u(1) by simp
  have 3: "\<forall>pk d. (pk, BSet d) \<in> set ?ops \<longrightarrow> is_object d" by (auto simp: o)
  have "checkUniqueBatch ?ns ?ops (im_run ?ns ?as ?m) = Inr () \<longleftrightarrow>
      (\<forall>ix \<in> snd ` set ?m. ixunique (head_of ix) \<longrightarrow> records_unique ?ns ix (fold batch_map ?ops ?M))"
    by (rule unique_checks_exact [OF 1 refl 2 o 3, THEN conjunct2])
  then show ?thesis using u(2) by (simp add: Let_def)
qed

end
