(* ===== verification/Query.thy ===== *)
theory Query
  imports Json
begin

text \<open>
  The query engine of \<open>packages/minidb/src/query.ts\<close>: paths with brackets and the Mongo-like filter.
  A filter is a value; an error is a pattern \<open>new RegExp\<close> refuses. Parameters stand for three
  functions of the language: \<open>num_str\<close> and \<open>str_num\<close> convert between numbers and text, and
  \<open>regex src flags\<close> is the test of a pattern from position 0, when it compiles.
\<close>

section \<open>Paths\<close>

datatype ptoken = PStr jstr | PIdx nat

fun nat_str :: "nat \<Rightarrow> jstr" where
  "nat_str n = (if n < 10 then [48 + n] else nat_str (n div 10) @ [48 + n mod 10])"

declare nat_str.simps [simp del]

definition line_end :: "nat \<Rightarrow> bool" where
  "line_end c \<longleftrightarrow> c \<in> {10, 13, 0x2028, 0x2029}"

text \<open>One match of \<open>/^([^[]*)\[(\d+)\](.*)$/\<close>: the name, the index and the rest.\<close>

definition bracket_match :: "jstr \<Rightarrow> (jstr \<times> nat \<times> jstr) option" where
  "bracket_match s =
     (let pre = takeWhile (\<lambda>c. c \<noteq> 91) s; rest = drop (length pre) s in
      case rest of
        [] \<Rightarrow> None
      | _ # r \<Rightarrow>
          (let ds = takeWhile is_digit r; r' = drop (length ds) r in
           case r' of
             [] \<Rightarrow> None
           | c # r'' \<Rightarrow> if ds \<noteq> [] \<and> c = 93 \<and> \<not> list_ex line_end r'' then Some (pre, digits_nat ds, r'') else None))"

lemma bracket_match_shorter: "bracket_match s = Some (pre, i, rest) \<Longrightarrow> length rest < length s"
proof -
  assume m: "bracket_match s = Some (pre, i, rest)"
  define p where "p = takeWhile (\<lambda>c. c \<noteq> 91) s"
  from m obtain a r where r: "drop (length p) s = a # r"
    unfolding bracket_match_def Let_def p_def by (auto split: list.splits)
  from m r obtain c where c: "drop (length (takeWhile is_digit r)) r = c # rest"
    unfolding bracket_match_def Let_def p_def by (auto split: list.splits if_splits)
  have "length rest < length r" using arg_cong [OF c, of length] by simp
  moreover have "length r < length s" using arg_cong [OF r, of length] by simp
  ultimately show ?thesis by simp
qed

function seg_tokens :: "jstr \<Rightarrow> ptoken list" where
  "seg_tokens s =
     (if s = [] then []
      else case bracket_match s of
        Some (pre, i, rest) \<Rightarrow> (if pre \<noteq> [] then [PStr pre] else []) @ PIdx i # seg_tokens rest
      | None \<Rightarrow> [PStr s])"
  by pat_completeness auto
termination by (relation "measure length") (auto dest: bracket_match_shorter)

declare seg_tokens.simps [simp del]

definition tokenizePath :: "jstr \<Rightarrow> ptoken list" where
  "tokenizePath path = concat (map seg_tokens (split_on 46 path))"

fun token_key :: "ptoken \<Rightarrow> jstr" where
  "token_key (PStr s) = s"
| "token_key (PIdx i) = nat_str i"

definition getPath :: "jsv \<Rightarrow> jstr \<Rightarrow> jsv" where
  "getPath doc path = fold (\<lambda>t v. if nullish v then JUndef else get_prop v (token_key t)) (tokenizePath path) doc"

section \<open>Comparisons\<close>

fun to_text :: "num_text \<Rightarrow> jsv \<Rightarrow> jstr" where
  "to_text num_str (JArr i xs) = join [44] (map (\<lambda>v. if nullish v then [] else to_text num_str v) xs)"
| "to_text num_str (JObj i fs) = lit ''[object Object]''"
| "to_text num_str (JRegExp i s f) = lit ''/'' @ s @ lit ''/'' @ f"
| "to_text num_str v = to_string num_str v"

text \<open>\<open>ToPrimitive\<close> with a number hint, and \<open>ToNumber\<close> of a primitive.\<close>

definition to_prim :: "num_text \<Rightarrow> jsv \<Rightarrow> jsv" where
  "to_prim num_str v = (if is_object v then JStr (to_text num_str v) else v)"

definition to_number :: "(jstr \<Rightarrow> jsv) \<Rightarrow> jsv \<Rightarrow> jsv" where
  "to_number str_num v =
     (case v of
        JNum q \<Rightarrow> v
      | JInf b \<Rightarrow> v
      | JNull \<Rightarrow> JNum 0
      | JBool b \<Rightarrow> JNum (if b then 1 else 0)
      | JStr s \<Rightarrow> str_num s
      | _ \<Rightarrow> JNaN)"

text \<open>\<open>None\<close> is the \<open>undefined\<close> of a comparison with \<open>NaN\<close>.\<close>

definition num_less :: "jsv \<Rightarrow> jsv \<Rightarrow> bool option" where
  "num_less a b =
     (case (a, b) of
        (JNum p, JNum q) \<Rightarrow> Some (p < q)
      | (JNum p, JInf neg) \<Rightarrow> Some (\<not> neg)
      | (JInf neg, JNum q) \<Rightarrow> Some neg
      | (JInf n, JInf n') \<Rightarrow> Some (n \<and> \<not> n')
      | _ \<Rightarrow> None)"

definition js_less :: "num_text \<Rightarrow> (jstr \<Rightarrow> jsv) \<Rightarrow> jsv \<Rightarrow> jsv \<Rightarrow> bool option" where
  "js_less num_str str_num a b =
     (case (to_prim num_str a, to_prim num_str b) of
        (JStr s, JStr t) \<Rightarrow> Some (s < t)
      | (p, q) \<Rightarrow> num_less (to_number str_num p) (to_number str_num q))"

definition truthy :: "jsv \<Rightarrow> bool" where
  "truthy v =
     (case v of
        JUndef \<Rightarrow> False | JNull \<Rightarrow> False | JNaN \<Rightarrow> False | JBool b \<Rightarrow> b
      | JNum q \<Rightarrow> q \<noteq> 0 | JStr s \<Rightarrow> s \<noteq> [] | _ \<Rightarrow> True)"

definition type_of :: "jsv \<Rightarrow> jstr" where
  "type_of v =
     (case v of
        JUndef \<Rightarrow> lit ''undefined'' | JBool b \<Rightarrow> lit ''boolean'' | JStr s \<Rightarrow> lit ''string''
      | JNum q \<Rightarrow> lit ''number'' | JNaN \<Rightarrow> lit ''number'' | JInf b \<Rightarrow> lit ''number''
      | _ \<Rightarrow> lit ''object'')"

definition arr_includes :: "jsv list \<Rightarrow> jsv \<Rightarrow> bool" where
  "arr_includes xs v \<longleftrightarrow> map_key v \<in> map_key ` set xs"

section \<open>Filters\<close>

type_synonym regex_engine = "jstr \<Rightarrow> jstr \<Rightarrow> (jstr \<Rightarrow> bool) option"

record lang =
  num_str :: num_text
  str_num :: "jstr \<Rightarrow> jsv"
  regex :: regex_engine

definition regex_test :: "lang \<Rightarrow> jstr \<Rightarrow> jstr \<Rightarrow> jsv \<Rightarrow> js_error + bool" where
  "regex_test L src flags val =
     (case regex L src flags of
        None \<Rightarrow> Inl (SyntaxError ''Invalid regular expression'')
      | Some t \<Rightarrow> Inr (case val of JStr s \<Rightarrow> t s | _ \<Rightarrow> False))"

text \<open>The pattern argument of \<open>new RegExp\<close>: \<open>undefined\<close> is the empty pattern or no flags.\<close>

definition pattern_text :: "lang \<Rightarrow> jsv \<Rightarrow> jstr" where
  "pattern_text L v = (if v = JUndef then [] else to_text (num_str L) v)"

definition regex_args :: "lang \<Rightarrow> jsv \<Rightarrow> jstr \<times> jstr" where
  "regex_args L arg =
     (case arg of
        JRegExp i s f \<Rightarrow> (s, f)
      | JArr i xs \<Rightarrow> (pattern_text L (nth_or JUndef xs (Some 0)), pattern_text L (nth_or JUndef xs (Some 1)))
      | _ \<Rightarrow> (pattern_text L arg, []))"

definition cond_op :: "lang \<Rightarrow> jsv \<Rightarrow> jstr \<Rightarrow> jsv \<Rightarrow> js_error + bool" where
  "cond_op L val op arg =
     (let less = js_less (num_str L) (str_num L) in
      if op = lit ''$eq'' then Inr (strict_eq val arg)
      else if op = lit ''$ne'' then Inr (\<not> strict_eq val arg)
      else if op = lit ''$gt'' then Inr (less arg val = Some True)
      else if op = lit ''$gte'' then Inr (less val arg = Some False)
      else if op = lit ''$lt'' then Inr (less val arg = Some True)
      else if op = lit ''$lte'' then Inr (less arg val = Some False)
      else if op = lit ''$in'' then Inr (case arg of JArr i xs \<Rightarrow> arr_includes xs val | _ \<Rightarrow> False)
      else if op = lit ''$nin'' then Inr (case arg of JArr i xs \<Rightarrow> \<not> arr_includes xs val | _ \<Rightarrow> False)
      else if op = lit ''$regex'' then (case regex_args L arg of (src, flags) \<Rightarrow> regex_test L src flags val)
      else if op = lit ''$exists'' then Inr ((val \<noteq> JUndef) = truthy arg)
      else if op = lit ''$contains'' then Inr (case val of JArr i xs \<Rightarrow> arr_includes xs arg | _ \<Rightarrow> False)
      else if op = lit ''$type'' then Inr (arg = JStr (type_of val))
      else Inr False)"

text \<open>\<open>Object.keys\<close> with the values: fields, or the positions of an array or a string.\<close>

definition indexed_entries :: "jsv list \<Rightarrow> (jstr \<times> jsv) list" where
  "indexed_entries xs = zip (map nat_str [0..<length xs]) xs"

definition own_entries :: "jsv \<Rightarrow> (jstr \<times> jsv) list" where
  "own_entries v =
     (case v of
        JObj i fs \<Rightarrow> fs
      | JArr i xs \<Rightarrow> indexed_entries xs
      | JStr s \<Rightarrow> indexed_entries (map (\<lambda>c. JStr [c]) s)
      | _ \<Rightarrow> [])"

text \<open>A loop that leaves at the first \<open>false\<close> or error, and one that leaves at the first \<open>true\<close>.\<close>

fun every_r :: "(js_error + bool) list \<Rightarrow> js_error + bool" where
  "every_r [] = Inr True"
| "every_r (Inl e # rs) = Inl e"
| "every_r (Inr b # rs) = (if b then every_r rs else Inr False)"

fun some_r :: "(js_error + bool) list \<Rightarrow> js_error + bool" where
  "some_r [] = Inr False"
| "some_r (Inl e # rs) = Inl e"
| "some_r (Inr b # rs) = (if b then Inr True else some_r rs)"

definition matchCond :: "lang \<Rightarrow> jsv \<Rightarrow> jsv \<Rightarrow> js_error + bool" where
  "matchCond L val cond =
     (case cond of
        JRegExp i src flags \<Rightarrow> regex_test L src flags val
      | JArr i xs \<Rightarrow> every_r (map (\<lambda>(op, arg). cond_op L val op arg) (own_entries cond))
      | JObj i fs \<Rightarrow> every_r (map (\<lambda>(op, arg). cond_op L val op arg) (own_entries cond))
      | _ \<Rightarrow> Inr (strict_eq val cond))"

fun match_doc :: "lang \<Rightarrow> jsv \<Rightarrow> jsv \<Rightarrow> js_error + bool" where
  "match_doc L doc (JObj i fs) =
     every_r (map (\<lambda>(key, cond).
       if key = lit ''$and'' then
         (case cond of JArr j xs \<Rightarrow> every_r (map (match_doc L doc) xs) | _ \<Rightarrow> Inr False)
       else if key = lit ''$or'' then
         (case cond of JArr j xs \<Rightarrow> some_r (map (match_doc L doc) xs) | _ \<Rightarrow> Inr False)
       else if key = lit ''$nor'' then
         (case cond of JArr j xs \<Rightarrow> map_result (\<lambda>b. \<not> b) (some_r (map (match_doc L doc) xs)) | _ \<Rightarrow> Inr False)
       else if key = lit ''$not'' then map_result (\<lambda>b. \<not> b) (match_doc L doc cond)
       else matchCond L (getPath doc key) cond) fs)"
| "match_doc L doc f = every_r (map (\<lambda>(key, cond). matchCond L (getPath doc key) cond) (own_entries f))"

end
