(* ===== verification/Postings.thy ===== *)
theory Postings
  imports Crc32 FileIO Json
begin

text \<open>
  The postings storage of the full-text index, \<open>packages/minidb/src/text-postings.ts\<close>: the varint
  code, the posting lists, the checksummed records and the postings file. A term is
  written in UTF-8. Numbers that go through \<open>>>> 0\<close> are 32-bit words.
\<close>

section \<open>Seven bits of a word\<close>

lemma m7: "(0x7f :: 'a::len word) = mask 7" by (simp add: mask_numeral)

lemma bit_0x80: "bit (0x80 :: 'a::len word) k \<longleftrightarrow> k = 7 \<and> 7 < LENGTH('a)"
proof -
  have "(0x80 :: 'a word) = 2 ^ 7" by simp
  then show ?thesis unfolding bit_exp_iff by (metis bit_exp_iff bit_imp_le_length possible_bit_word)
qed

lemma bit_128_int [simp]: "bit (128 :: int) k \<longleftrightarrow> k = 7"
proof -
  have "(128 :: int) = 2 ^ 7" by simp
  show ?thesis unfolding \<open>(128 :: int) = 2 ^ 7\<close> bit_exp_iff by auto
qed

lemma low_byte:
  "ucast ((ucast ((n AND 0x7f) OR 0x80) :: byte) AND 0x7f) = (n AND 0x7f :: 32 word)"
  unfolding m7 by (rule bit_word_eqI) (auto simp: bit_simps bit_0x80)

lemma high_bit:
  "(ucast ((n AND 0x7f) OR 0x80 :: 32 word) :: byte) AND 0x80 \<noteq> 0"
proof
  assume a: "(ucast ((n AND 0x7f) OR 0x80 :: 32 word) :: byte) AND 0x80 = 0"
  have "bit ((ucast ((n AND 0x7f) OR 0x80 :: 32 word) :: byte) AND 0x80) 7"
    by (simp add: bit_simps bit_0x80)
  with a show False by simp
qed

lemma small_byte: assumes "n < 0x80" shows "ucast ((ucast n :: byte) AND 0x7f) = (n :: 32 word)"
  "(ucast (n :: 32 word) :: byte) AND 0x80 = 0"
proof -
  have t: "take_bit 7 n = n"
    using assms by (simp add: word_unat_eq_iff unsigned_take_bit_eq take_bit_nat_eq_self word_less_nat_alt)
  show "ucast ((ucast n :: byte) AND 0x7f) = n"
    by (subst (2) t [symmetric]) (unfold m7, rule bit_word_eqI, auto simp: bit_simps)
  show "(ucast n :: byte) AND 0x80 = 0"
    by (subst t [symmetric]) (rule bit_word_eqI, auto simp: bit_simps bit_0x80)
qed

lemma split7: "(r OR push_bit s (n AND 0x7f)) OR push_bit (s + 7) (drop_bit 7 n) = r OR push_bit s (n :: 32 word)"
proof (rule bit_word_eqI)
  fix k assume "k < LENGTH(32)"
  have "7 + (k - (s + 7)) = k - s" if "s \<le> k" "\<not> k - s < 7" using that by simp
  then show "bit ((r OR push_bit s (n AND 0x7f)) OR push_bit (s + 7) (drop_bit 7 n)) k = bit (r OR push_bit s n) k"
    unfolding m7 by (cases "s \<le> k"; cases "k - s < 7") (auto simp: bit_simps)
qed

lemma drop7: "unat (drop_bit 7 (n :: 32 word)) = unat n div 128"
  by (simp add: drop_bit_eq_div unat_div_distrib)
lemma unat_word32: "unat (w :: 32 word) < 2 ^ 32"
  using unsigned_less [of w] by simp

section \<open>Varints\<close>

function encode_varint :: "32 word \<Rightarrow> bytes" where
  "encode_varint n =
     (if n \<ge> 0x80 then ucast ((n AND 0x7f) OR 0x80) # encode_varint (drop_bit 7 n) else [ucast n])"
  by auto
termination
  by (relation "measure unat") (auto simp: drop7 word_le_nat_alt)

declare encode_varint.simps [simp del]

definition encodeVarintInto :: "int \<Rightarrow> bytes" where
  "encodeVarintInto n = encode_varint (word_of_int n)"

text \<open>
  The cursor starts at \<open>i\<close>; \<open><<\<close> shifts by its right operand modulo 32.
\<close>

function decode_varint_loop :: "bytes \<Rightarrow> nat \<Rightarrow> 32 word \<Rightarrow> nat \<Rightarrow> js_error + 32 word \<times> nat" where
  "decode_varint_loop buf i r shift =
     (if i \<ge> length buf then Inl (Error ''postings: truncated varint'')
      else let b = buf ! i; r' = r OR push_bit (shift mod 32) (ucast (b AND 0x7f)) in
           if b AND 0x80 = 0 then Inr (r', i + 1)
           else if shift + 7 > 35 then Inl (Error ''postings: varint too long'')
           else decode_varint_loop buf (i + 1) r' (shift + 7))"
  by auto
termination
  by (relation "measure (\<lambda>(buf, i, r, shift). length buf - i)") auto

declare decode_varint_loop.simps [simp del]

definition decodeVarint :: "bytes \<Rightarrow> nat \<Rightarrow> js_error + 32 word \<times> nat" where
  "decodeVarint buf i = decode_varint_loop buf i 0 0"

section \<open>Posting lists\<close>

fun encode_entries :: "int \<Rightarrow> (nat \<times> nat) list \<Rightarrow> bytes" where
  "encode_entries prev [] = []"
| "encode_entries prev ((docID, freq) # es) =
     encodeVarintInto (int docID - prev) @ encodeVarintInto (int freq) @ encode_entries (int docID) es"

definition encodePostingList :: "(nat \<times> nat) list \<Rightarrow> bytes" where
  "encodePostingList es = encodeVarintInto (int (length es)) @ encode_entries 0 es"

fun decode_entries :: "bytes \<Rightarrow> nat \<Rightarrow> nat \<Rightarrow> nat \<Rightarrow> js_error + (nat \<times> nat) list" where
  "decode_entries buf i prev 0 = Inr []"
| "decode_entries buf i prev (Suc k) =
     (case decodeVarint buf i of
        Inl e \<Rightarrow> Inl e
      | Inr (d, i1) \<Rightarrow>
          (case decodeVarint buf i1 of
             Inl e \<Rightarrow> Inl e
           | Inr (freq, i2) \<Rightarrow>
               map_result (\<lambda>es. (prev + unat d, unat freq) # es) (decode_entries buf i2 (prev + unat d) k)))"

definition decodePostingList :: "bytes \<Rightarrow> js_error + (nat \<times> nat) list" where
  "decodePostingList buf =
     (case decodeVarint buf 0 of
        Inl e \<Rightarrow> Inl e | Inr (n, i) \<Rightarrow> decode_entries buf i 0 (unat n))"

section \<open>Records\<close>

definition HEADER_LEN :: nat where "HEADER_LEN = 2 + 4 + 4"
definition CRC_LEN :: nat where "CRC_LEN = 4"

record decoded_record =
  rec_term :: bytes
  rec_df :: nat
  rec_payload :: bytes

definition encodeRecord :: "bytes \<Rightarrow> nat \<Rightarrow> bytes \<Rightarrow> js_error + bytes" where
  "encodeRecord trm df payload =
     (if length trm > 0xffff then Inl (RangeError ''postings: term too long'')
      else if length payload \<ge> 2 ^ 32 then Inl (RangeError ''out of range'')
      else let body = le_bytes 2 (length trm) @ trm @ le_bytes 4 (df mod 2 ^ 32) @
                      le_bytes 4 (length payload) @ payload
           in Inr (body @ le_bytes 4 (unat (crc32 body 0))))"

definition decodeRecord :: "bytes \<Rightarrow> js_error + decoded_record" where
  "decodeRecord buf =
     (if length buf < HEADER_LEN + CRC_LEN then Inl (Error ''postings: record too short'')
      else let limit = length buf - CRC_LEN;
               stored = u32_at buf limit; calc = unat (crc32 (subarray buf 0 limit) 0) in
      if stored \<noteq> calc then Inl (Error ''postings: record crc mismatch'')
      else let termLen = u16_at buf 0 in
      if 2 + termLen + 4 + 4 > limit then Inl (Error ''postings: record term length out of bounds'')
      else let o1 = 2 + termLen; df = u32_at buf o1; payloadLen = u32_at buf (o1 + 4); o2 = o1 + 8 in
      if o2 + payloadLen > limit then Inl (Error ''postings: record payload length out of bounds'')
      else Inr \<lparr> rec_term = subarray buf 2 o1, rec_df = df, rec_payload = subarray buf o2 (o2 + payloadLen) \<rparr>)"

section \<open>UTF-8\<close>

text \<open>\<open>Buffer.from(s, 'utf8')\<close>: a lone surrogate is written as the replacement character.\<close>

definition utf8_point :: "nat \<Rightarrow> bytes" where
  "utf8_point c =
     (if c < 0x80 then [of_nat c]
      else if c < 0x800 then [of_nat (0xc0 + c div 64), of_nat (0x80 + c mod 64)]
      else if c < 0x10000 then [of_nat (0xe0 + c div 4096), of_nat (0x80 + c div 64 mod 64), of_nat (0x80 + c mod 64)]
      else [of_nat (0xf0 + c div 262144), of_nat (0x80 + c div 4096 mod 64), of_nat (0x80 + c div 64 mod 64), of_nat (0x80 + c mod 64)])"

fun utf8 :: "jstr \<Rightarrow> bytes" where
  "utf8 [] = []"
| "utf8 (c # cs) =
     (if high_surrogate c then
        (case cs of
           d # ds \<Rightarrow>
             if low_surrogate d then utf8_point (0x10000 + (c - 0xd800) * 0x400 + (d - 0xdc00)) @ utf8 ds
             else [0xef, 0xbf, 0xbd] @ utf8 cs
         | [] \<Rightarrow> [0xef, 0xbf, 0xbd])
      else if low_surrogate c then [0xef, 0xbf, 0xbd] @ utf8 cs
      else utf8_point c @ utf8 cs)"

lemma utf8_ascii: "list_all (\<lambda>c. c < 0x80) s \<Longrightarrow> utf8 s = map of_nat s"
  by (induction s) (simp_all add: utf8_point_def high_surrogate_def low_surrogate_def)

lemma utf8_plain: "list_all (\<lambda>c. \<not> high_surrogate c \<and> \<not> low_surrogate c) s \<Longrightarrow> utf8 s = concat (map utf8_point s)"
  by (induction s) simp_all

section \<open>The postings file\<close>

record posting_entry =
  pe_off :: nat
  pe_len :: nat
  pe_df :: nat

text \<open>The open file, or \<open>None\<close> when closed.\<close>

definition pf_open :: "bytes option \<Rightarrow> js_error + bytes option" where
  "pf_open path = (case path of None \<Rightarrow> Inl (IoError ''ENOENT'') | Some b \<Rightarrow> Inr (Some b))"

definition pf_read :: "bytes option \<Rightarrow> posting_entry \<Rightarrow> js_error + (nat \<times> nat) list" where
  "pf_read pf e =
     (case pf of
        None \<Rightarrow> Inl (Error ''postings file is closed'')
      | Some fd \<Rightarrow>
          (case read_loop (Error ''postings: short read past EOF'') fd (pe_off e) (pe_len e) of
             Inl err \<Rightarrow> Inl err
           | Inr buf \<Rightarrow>
               (case decodeRecord buf of Inl err \<Rightarrow> Inl err | Inr r \<Rightarrow> decodePostingList (rec_payload r))))"

fun rebuild_loop ::
  "(nat \<Rightarrow> js_error + nat) \<Rightarrow> nat \<Rightarrow> (jstr \<times> (nat \<times> nat) list) list \<Rightarrow> bytes \<Rightarrow> (jstr, posting_entry) jmap \<Rightarrow>
     (js_error + (jstr, posting_entry) jmap) \<times> bytes" where
  "rebuild_loop io n [] fd dict = (Inr dict, fd)"
| "rebuild_loop io n ((trm, es) # ts) fd dict =
     (if es = [] then rebuild_loop io n ts fd dict
      else case encodeRecord (utf8 trm) (length es) (encodePostingList es) of
        Inl e \<Rightarrow> (Inl e, fd)
      | Inr rec \<Rightarrow>
          (case write_loop (Error ''postings: rebuild write made no progress'') io n rec fd of
             (Some e, n', fd') \<Rightarrow> (Inl e, fd')
           | (None, n', fd') \<Rightarrow>
               rebuild_loop io n' ts fd'
                 (jset trm \<lparr> pe_off = length fd, pe_len = length rec, pe_df = length es \<rparr> dict)))"

text \<open>
  The replies of fsync and rename, and the file at the path before; the result has the dictionary,
  or the error, and the file at the path after.
\<close>

definition rebuildSync ::
  "(nat \<Rightarrow> js_error + nat) \<Rightarrow> js_error option \<Rightarrow> js_error option \<Rightarrow> (jstr \<times> (nat \<times> nat) list) list \<Rightarrow> bytes option \<Rightarrow>
     (js_error + (jstr, posting_entry) jmap) \<times> bytes option" where
  "rebuildSync io fsync rename iter old =
     (case rebuild_loop io 0 iter [] [] of
        (Inl e, fd) \<Rightarrow> (Inl e, old)
      | (Inr dict, fd) \<Rightarrow>
          (case fsync of
             Some e \<Rightarrow> (Inl e, old)
           | None \<Rightarrow> (case rename of Some e \<Rightarrow> (Inl e, old) | None \<Rightarrow> (Inr dict, Some fd))))"

section \<open>Varints read back\<close>

lemma encode_varint_small: "\<not> n \<ge> 0x80 \<Longrightarrow> encode_varint n = [ucast n]"
  by (subst encode_varint.simps) (rule if_not_P)

lemma encode_varint_big:
  "n \<ge> 0x80 \<Longrightarrow> encode_varint n = ucast ((n AND 0x7f) OR 0x80) # encode_varint (drop_bit 7 n)"
  by (subst encode_varint.simps) (rule if_P)

lemma varint_step:
  "i < length buf \<Longrightarrow> decode_varint_loop buf i r shift =
     (if buf ! i AND 0x80 = 0 then Inr (r OR push_bit (shift mod 32) (ucast (buf ! i AND 0x7f)), i + 1)
      else if shift + 7 > 35 then Inl (Error ''postings: varint too long'')
      else decode_varint_loop buf (i + 1) (r OR push_bit (shift mod 32) (ucast (buf ! i AND 0x7f))) (shift + 7))"
  by (subst decode_varint_loop.simps) (simp only: Let_def if_not_P not_le)

lemma varint_read:
  "s \<in> {0, 7, 14, 21, 28} \<Longrightarrow> unat n * 2 ^ s < 2 ^ 32 \<Longrightarrow>
     decode_varint_loop (pre @ encode_varint n @ ys) (length pre) r s =
       Inr (r OR push_bit s n, length pre + length (encode_varint n))"
proof (induction n arbitrary: pre r s rule: encode_varint.induct)
  case (1 n)
  have s: "s mod 32 = s" "\<not> s + 7 > 35" using "1.prems"(1) by auto
  show ?case
  proof (cases "n \<ge> 0x80")
    case False
    then have n: "n < 0x80" by simp
    show ?thesis
      unfolding encode_varint_small [OF False] by (subst varint_step) (simp_all add: small_byte [OF n] s)
  next
    case True
    define b :: byte where "b = ucast ((n AND 0x7f) OR 0x80)"
    have enc: "encode_varint n = b # encode_varint (drop_bit 7 n)" unfolding b_def by (rule encode_varint_big [OF True])
    have n: "128 \<le> unat n" using True by (simp add: word_le_nat_alt)
    then have "128 * 2 ^ s \<le> unat n * 2 ^ s" by simp
    then have "128 * 2 ^ s < (2 ^ 32 :: nat)" using "1.prems"(2) by (rule le_less_trans)
    moreover have "(2 :: nat) ^ (s + 7) = 128 * 2 ^ s" by (simp add: power_add)
    ultimately have "2 ^ (s + 7) < (2 ^ 32 :: nat)" by simp
    then have "s + 7 < 32" by (rule power_less_imp_less_exp [rotated]) simp
    with "1.prems"(1) have s7: "s + 7 \<in> {0, 7, 14, 21, 28}" by auto
    have "unat (drop_bit 7 n) * 2 ^ (s + 7) = (unat n div 128 * 128) * 2 ^ s" by (simp add: drop7 power_add)
    also have "\<dots> \<le> unat n * 2 ^ s" by (rule mult_right_mono) (simp_all add: div_times_less_eq_dividend)
    finally have lt: "unat (drop_bit 7 n) * 2 ^ (s + 7) < 2 ^ 32" using "1.prems"(2) by simp
    have "decode_varint_loop ((pre @ [b]) @ encode_varint (drop_bit 7 n) @ ys) (length (pre @ [b])) (r OR push_bit s (n AND 0x7f)) (s + 7) =
        Inr ((r OR push_bit s (n AND 0x7f)) OR push_bit (s + 7) (drop_bit 7 n), length (pre @ [b]) + length (encode_varint (drop_bit 7 n)))"
      by (rule "1.IH" [OF True s7 lt])
    moreover have "b AND 0x80 \<noteq> 0" unfolding b_def by (rule high_bit)
    moreover have "ucast (b AND 0x7f) = (n AND 0x7f)" unfolding b_def by (rule low_byte)
    ultimately show ?thesis unfolding enc split7 by (subst varint_step) (simp_all add: s)
  qed
qed

lemma decodeVarint_encode:
  "0 \<le> v \<Longrightarrow> v < 2 ^ 32 \<Longrightarrow>
     decodeVarint (pre @ encodeVarintInto v @ ys) (length pre) = Inr (word_of_int v, length pre + length (encodeVarintInto v))"
  using varint_read [of 0 "word_of_int v" pre ys 0]
  by (simp add: decodeVarint_def encodeVarintInto_def) (use unsigned_less [of "word_of_int v :: 32 word"] in simp)

lemma length_encode_varint: "unat n < 2 ^ (7 * k) \<Longrightarrow> 0 < k \<Longrightarrow> length (encode_varint n) \<le> k"
proof (induction n arbitrary: k rule: encode_varint.induct)
  case (1 n)
  show ?case
  proof (cases "n \<ge> 0x80")
    case False
    then show ?thesis using "1.prems" by (simp add: encode_varint_small)
  next
    case True
    then have n: "128 \<le> unat n" by (simp add: word_le_nat_alt)
    then have k: "1 < k" using "1.prems" by (cases k; cases "k - 1") auto
    have "(2 :: nat) ^ (7 * k) = 128 * 2 ^ (7 * (k - 1))"
      using k by (cases k) (simp_all add: power_add)
    then have "unat n div 128 < 2 ^ (7 * (k - 1))" using "1.prems"(1) by (simp add: less_mult_imp_div_less mult.commute)
    then have "length (encode_varint (drop_bit 7 n)) \<le> k - 1" using "1.IH" [OF True, of "k - 1"] k by (simp add: drop7)
    then show ?thesis using k by (simp add: encode_varint_big [OF True])
  qed
qed

lemma length_encodeVarintInto: "length (encodeVarintInto v) \<le> 5"
  unfolding encodeVarintInto_def
  by (rule length_encode_varint, rule less_le_trans [OF unat_word32]) simp_all

section \<open>Posting lists read back\<close>

fun postings_from :: "nat \<Rightarrow> (nat \<times> nat) list \<Rightarrow> bool" where
  "postings_from prev [] = True"
| "postings_from prev ((d, f) # es) = (prev \<le> d \<and> d < 2 ^ 32 \<and> f < 2 ^ 32 \<and> postings_from d es)"

text \<open>Document identifiers in ascending order, everything in 32 bits.\<close>

definition postings_ok :: "(nat \<times> nat) list \<Rightarrow> bool" where
  "postings_ok es \<longleftrightarrow> postings_from 0 es \<and> length es < 2 ^ 28"

lemma decode_encode_entries:
  "postings_from prev es \<Longrightarrow>
     decode_entries (pre @ encode_entries (int prev) es @ ys) (length pre) prev (length es) = Inr es"
proof (induction es arbitrary: prev pre)
  case (Cons e es)
  obtain d f where e: "e = (d, f)" by fastforce
  have ok: "prev \<le> d" "d < 2 ^ 32" "f < 2 ^ 32" "postings_from d es" using Cons.prems by (auto simp: e)
  define dl where "dl = encodeVarintInto (int d - int prev)"
  define fr where "fr = encodeVarintInto (int f)"
  have d: "decodeVarint (pre @ dl @ (fr @ encode_entries (int d) es @ ys)) (length pre) = Inr (word_of_int (int d - int prev), length pre + length dl)"
    unfolding dl_def by (rule decodeVarint_encode) (use ok in simp_all)
  have f: "decodeVarint ((pre @ dl) @ fr @ (encode_entries (int d) es @ ys)) (length (pre @ dl)) = Inr (word_of_int (int f), length (pre @ dl) + length fr)"
    unfolding fr_def by (rule decodeVarint_encode) (use ok in simp_all)
  have w: "unat (word_of_int (int d - int prev) :: 32 word) = d - prev" "unat (word_of_int (int f) :: 32 word) = f"
    using ok by (simp_all add: unat_of_nat flip: of_nat_diff)
  show ?case
    using d f w Cons.IH [OF ok(4), of "(pre @ dl) @ fr"] ok(1) by (simp add: e dl_def [symmetric] fr_def [symmetric] add.assoc)
qed simp

lemma decode_encode_list: "postings_ok es \<Longrightarrow> decodePostingList (encodePostingList es) = Inr es"
proof -
  assume ok: "postings_ok es"
  define c where "c = encodeVarintInto (int (length es))"
  have "decodeVarint ([] @ c @ encode_entries 0 es) (length ([] :: bytes)) = Inr (word_of_int (int (length es)), length ([] :: bytes) + length c)"
    unfolding c_def by (rule decodeVarint_encode) (use ok in \<open>simp_all add: postings_ok_def\<close>)
  moreover have "unat (word_of_int (int (length es)) :: 32 word) = length es"
    using ok by (simp add: postings_ok_def unat_of_nat)
  ultimately show ?thesis
    using decode_encode_entries [of 0 es c "[]"] ok
    by (simp add: decodePostingList_def encodePostingList_def c_def [symmetric] postings_ok_def)
qed

lemma length_encode_entries: "length (encode_entries prev es) \<le> 10 * length es"
proof (induction es arbitrary: prev)
  case (Cons e es)
  obtain d f where e: "e = (d, f)" by fastforce
  show ?case
    using length_encodeVarintInto [of "int d - prev"] length_encodeVarintInto [of "int f"] Cons.IH [of "int d"] by (simp add: e)
qed simp

section \<open>Records read back\<close>

definition record_body :: "bytes \<Rightarrow> nat \<Rightarrow> bytes \<Rightarrow> bytes" where
  "record_body trm df payload = le_bytes 2 (length trm) @ trm @ le_bytes 4 df @ le_bytes 4 (length payload) @ payload"

definition record_bytes :: "bytes \<Rightarrow> nat \<Rightarrow> bytes \<Rightarrow> bytes" where
  "record_bytes trm df payload = record_body trm df payload @ le_bytes 4 (unat (crc32 (record_body trm df payload) 0))"

definition record_fits :: "bytes \<Rightarrow> nat \<Rightarrow> bytes \<Rightarrow> bool" where
  "record_fits trm df payload \<longleftrightarrow> length trm \<le> 0xffff \<and> df < 2 ^ 32 \<and> length payload < 2 ^ 32"

lemma encodeRecord_fits: "record_fits trm df payload \<Longrightarrow> encodeRecord trm df payload = Inr (record_bytes trm df payload)"
  by (simp add: encodeRecord_def record_fits_def record_bytes_def record_body_def Let_def not_less not_le)

lemma length_record_bytes: "length (record_bytes trm df payload) = HEADER_LEN + length trm + length payload + CRC_LEN"
  by (simp add: record_bytes_def record_body_def HEADER_LEN_def CRC_LEN_def)

lemma decode_encode_record:
  assumes "record_fits trm df payload"
  shows "decodeRecord (record_bytes trm df payload) = Inr \<lparr> rec_term = trm, rec_df = df, rec_payload = payload \<rparr>"
proof -
  define body where "body = record_body trm df payload"
  define buf where "buf = record_bytes trm df payload"
  have buf: "buf = body @ le_bytes 4 (unat (crc32 body 0))" by (simp add: buf_def record_bytes_def body_def)
  have len: "length buf - CRC_LEN = length body" "\<not> length buf < HEADER_LEN + CRC_LEN"
    "length body = 2 + (length trm + (4 + (4 + length payload)))"
    by (simp_all add: buf body_def record_body_def CRC_LEN_def HEADER_LEN_def)
  have crc: "u32_at buf (length body) = unat (crc32 (subarray buf 0 (length body)) 0)"
    using field_at_here(3) [of "unat (crc32 body 0)" "[]"] unat_word32 [of "crc32 body 0"]
    by (simp add: buf field_at_skip subarray_here)
  have tl: "u16_at buf 0 = length trm"
    using field_at_here(2) [of "length trm"] assms
    by (simp add: buf body_def record_body_def record_fits_def)
  have df: "u32_at buf (2 + length trm) = df"
    using field_at_here(3) [of df] assms
    by (simp add: buf body_def record_body_def record_fits_def field_at_skip)
  have pl: "u32_at buf (2 + length trm + 4) = length payload"
    using field_at_here(3) [of "length payload"] assms
    by (simp add: buf body_def record_body_def record_fits_def field_at_skip)
  have t: "subarray buf 2 (2 + length trm) = trm" and p: "subarray buf (2 + length trm + 8) (2 + length trm + 8 + length payload) = payload"
    by (simp_all add: buf body_def record_body_def subarray_def)
  show ?thesis
    unfolding buf_def [symmetric] decodeRecord_def
    using len crc tl df pl t p by (simp add: Let_def)
qed

section \<open>The file that a rebuild writes\<close>

definition term_ok :: "jstr \<times> (nat \<times> nat) list \<Rightarrow> bool" where
  "term_ok t \<longleftrightarrow> length (utf8 (fst t)) \<le> 0xffff \<and> postings_ok (snd t)"

definition term_bytes :: "jstr \<times> (nat \<times> nat) list \<Rightarrow> bytes" where
  "term_bytes t = record_bytes (utf8 (fst t)) (length (snd t)) (encodePostingList (snd t))"

lemma term_fits: "term_ok t \<Longrightarrow> record_fits (utf8 (fst t)) (length (snd t)) (encodePostingList (snd t))"
proof -
  assume ok: "term_ok t"
  have "length (encodePostingList (snd t)) \<le> 5 + 10 * length (snd t)"
    using length_encode_entries [of 0 "snd t"] length_encodeVarintInto [of "int (length (snd t))"] by (simp add: encodePostingList_def)
  also have "\<dots> < 2 ^ 32" using ok by (simp add: term_ok_def postings_ok_def)
  finally show ?thesis using ok by (simp add: record_fits_def term_ok_def postings_ok_def)
qed

definition points_at :: "bytes \<Rightarrow> posting_entry \<Rightarrow> jstr \<times> (nat \<times> nat) list \<Rightarrow> bool" where
  "points_at fd e t \<longleftrightarrow> pe_off e + pe_len e \<le> length fd \<and> subarray fd (pe_off e) (pe_off e + pe_len e) = term_bytes t \<and>
     pe_df e = length (snd t)"

lemma points_at_append: "points_at fd e t \<Longrightarrow> points_at (fd @ ys) e t"
  by (auto simp: points_at_def subarray_append_left)

lemma points_at_read:
  assumes "points_at fd e t" "term_ok t"
  shows "pf_read (Some fd) e = Inr (snd t)"
  using assms(1) decode_encode_record [OF term_fits [OF assms(2)]] decode_encode_list [of "snd t"] assms(2)
  by (simp add: pf_read_def points_at_def read_loop_ok term_bytes_def term_ok_def)

lemma rebuild_loop_ok:
  assumes io: "\<forall>n. \<exists>m > 0. io n = Inr m"
  shows "\<forall>t \<in> set ts. term_ok t \<Longrightarrow> distinct (map fst ts) \<Longrightarrow> fst ` set ts \<inter> fst ` set dict = {} \<Longrightarrow>
     \<exists>dict' ys. rebuild_loop io n ts fd dict = (Inr dict', fd @ ys) \<and>
       (\<forall>t \<in> set ts. if snd t = [] then jget dict' (fst t) = None else \<exists>e. jget dict' (fst t) = Some e \<and> points_at (fd @ ys) e t) \<and>
       (\<forall>k. k \<notin> fst ` set ts \<longrightarrow> jget dict' k = jget dict k)"
proof (induction ts arbitrary: n fd dict)
  case (Cons t ts)
  obtain trm es where t: "t = (trm, es)" by fastforce
  have absent: "jget dict trm = None" using Cons.prems(3) t by (auto simp: jget_None_iff)
  show ?case
  proof (cases "es = []")
    case True
    obtain dict' ys where IH: "rebuild_loop io n ts fd dict = (Inr dict', fd @ ys)"
       "\<forall>t \<in> set ts. if snd t = [] then jget dict' (fst t) = None else \<exists>e. jget dict' (fst t) = Some e \<and> points_at (fd @ ys) e t"
       "\<forall>k. k \<notin> fst ` set ts \<longrightarrow> jget dict' k = jget dict k"
      using Cons.IH [of dict n fd] Cons.prems by auto
    have "jget dict' trm = None" using IH(3) Cons.prems(2) absent t by auto
    then show ?thesis using IH True t by (intro exI [of _ dict'] exI [of _ ys]) auto
  next
    case False
    define rc where "rc = term_bytes t"
    have enc: "encodeRecord (utf8 trm) (length es) (encodePostingList es) = Inr rc"
      using encodeRecord_fits [OF term_fits, of t] Cons.prems(1) by (simp add: t rc_def term_bytes_def)
    obtain n' where w: "write_loop (Error ''postings: rebuild write made no progress'') io n rc fd = (None, n', fd @ rc)"
      using write_loop_good [OF io] by blast
    define e where "e = \<lparr> pe_off = length fd, pe_len = length rc, pe_df = length es \<rparr>"
    have pt: "points_at (fd @ rc) e t" by (simp add: points_at_def e_def t rc_def subarray_append_right)
    obtain dict' ys where IH: "rebuild_loop io n' ts (fd @ rc) (jset trm e dict) = (Inr dict', (fd @ rc) @ ys)"
       "\<forall>t \<in> set ts. if snd t = [] then jget dict' (fst t) = None else \<exists>e. jget dict' (fst t) = Some e \<and> points_at ((fd @ rc) @ ys) e t"
       "\<forall>k. k \<notin> fst ` set ts \<longrightarrow> jget dict' k = jget (jset trm e dict) k"
      using Cons.IH [of "jset trm e dict" n' "fd @ rc"] Cons.prems t by (auto simp: set_jkeys_set)
    have step: "rebuild_loop io n (t # ts) fd dict = (Inr dict', fd @ rc @ ys)"
      using False enc w IH(1) by (simp add: t e_def)
    have "jget dict' trm = Some e" using IH(3) Cons.prems(2) t by auto
    moreover have "points_at (fd @ rc @ ys) e t" using points_at_append [OF pt, of ys] by simp
    ultimately show ?thesis
      using IH(2,3) step False t by (intro exI [of _ dict'] exI [of _ "rc @ ys"]) auto
  qed
qed simp

section \<open>Properties\<close>

text \<open>C32: The postings file reads back. When the writes go through, in however many pieces, the dictionary
  a rebuild returns points every term with postings at a record from which the reader decodes exactly
  the posting list that was written, and no term without; and a rebuild that fails at any point leaves
  the old file at the path.\<close>

theorem postings_file_roundtrip:
  assumes "\<forall>n. \<exists>m > 0. io n = Inr m" "\<forall>t \<in> set ts. term_ok t" "distinct (map fst ts)"
  shows "(\<exists>dict fd. rebuildSync io None None ts old = (Inr dict, Some fd) \<and>
      (\<forall>(trm, es) \<in> set ts. if es = [] then jget dict trm = None
         else \<exists>e. jget dict trm = Some e \<and> pe_df e = length es \<and> pf_read (Some fd) e = Inr es)) \<and>
    (\<forall>io' f r e. fst (rebuildSync io' f r ts old) = Inl e \<longrightarrow> snd (rebuildSync io' f r ts old) = old)"
proof
  obtain dict fd where r: "rebuild_loop io 0 ts [] [] = (Inr dict, [] @ fd)"
     "\<forall>t \<in> set ts. if snd t = [] then jget dict (fst t) = None else \<exists>e. jget dict (fst t) = Some e \<and> points_at ([] @ fd) e t"
    using rebuild_loop_ok [OF assms(1,2,3), of "[]" 0 "[]"] by auto
  have "if es = [] then jget dict trm = None else \<exists>e. jget dict trm = Some e \<and> pe_df e = length es \<and> pf_read (Some fd) e = Inr es"
    if "(trm, es) \<in> set ts" for trm es
    using bspec [OF r(2) that] points_at_read [of fd _ "(trm, es)"] bspec [OF assms(2) that] by (auto simp: points_at_def)
  then show "\<exists>dict fd. rebuildSync io None None ts old = (Inr dict, Some fd) \<and>
      (\<forall>(trm, es) \<in> set ts. if es = [] then jget dict trm = None
         else \<exists>e. jget dict trm = Some e \<and> pe_df e = length es \<and> pf_read (Some fd) e = Inr es)"
    using r(1) by (intro exI [of _ dict] exI [of _ fd]) (auto simp: rebuildSync_def)
  show "\<forall>io' f r e. fst (rebuildSync io' f r ts old) = Inl e \<longrightarrow> snd (rebuildSync io' f r ts old) = old"
    by (auto simp: rebuildSync_def split: sum.splits option.splits prod.splits)
qed

theorem postings_file_roundtrip_witness:
  "\<exists>dict fd e. rebuildSync (\<lambda>n. Inr 3) None None [([97], [(0, 2), (300, 1)]), ([98], [])] None = (Inr dict, Some fd) \<and>
     jget dict [97] = Some e \<and> pf_read (Some fd) e = Inr [(0, 2), (300, 1)] \<and> jget dict [98] = None"
proof -
  have "\<forall>n. \<exists>m > 0. (\<lambda>n. Inr 3 :: js_error + nat) n = Inr m" by simp
  moreover have "\<forall>t \<in> set [([97], [(0, 2), (300, 1)]), ([98], [])]. term_ok t"
    by (simp add: term_ok_def postings_ok_def utf8_point_def high_surrogate_def low_surrogate_def)
  moreover have "distinct (map fst [([97 :: nat], [(0 :: nat, 2 :: nat), (300, 1)]), ([98], [])])" by simp
  ultimately show ?thesis using postings_file_roundtrip [of "\<lambda>n. Inr 3" "[([97], [(0, 2), (300, 1)]), ([98], [])]" None] by auto
qed

text \<open>
  The guard on the length of a varint comes one byte late: a sixth byte is accepted, and its bits are
  shifted by 35 modulo 32.
\<close>

lemma varint_sixth_byte: "decodeVarint [0x80, 0x80, 0x80, 0x80, 0x80, 0x01] 0 = Inr (8, 6)"
  by (simp add: decodeVarint_def decode_varint_loop.simps)

end
