(* ===== verification/TextIndex.thy ===== *)
theory TextIndex
  imports Query Postings DerivedIndex Store
begin

text \<open>
  The full-text index of \<open>packages/minidb/src/text-index.ts\<close>: an inverted index whose bulk is a
  postings file (or an in-memory base), with a write buffer, tombstones and a cache of decoded
  lists. \<open>lower\<close> is \<open>String.prototype.toLowerCase\<close>; scores are real numbers. A \<open>Set\<close> is the list
  of its members in insertion order.
\<close>

section \<open>Tokens\<close>

definition MAX_TERM_CHARS :: nat where "MAX_TERM_CHARS = 0xffff"

definition is_latin :: "nat \<Rightarrow> bool" where
  "is_latin c \<longleftrightarrow> (97 \<le> c \<and> c \<le> 122) \<or> is_digit c"

definition is_cjk :: "nat \<Rightarrow> bool" where
  "is_cjk c \<longleftrightarrow> (0x3400 \<le> c \<and> c \<le> 0x9fff) \<or> (0x3040 \<le> c \<and> c \<le> 0x30ff) \<or> (0xff00 \<le> c \<and> c \<le> 0xffef)"

text \<open>\<open>s.match(/[...]+/g)\<close>: the maximal runs of a class; \<open>cur\<close> is the run being read, reversed.\<close>

fun match_runs :: "(nat \<Rightarrow> bool) \<Rightarrow> jstr \<Rightarrow> jstr \<Rightarrow> jstr list" where
  "match_runs P cur [] = (if cur = [] then [] else [rev cur])"
| "match_runs P cur (c # cs) =
     (if P c then match_runs P (c # cur) cs
      else (if cur = [] then [] else [rev cur]) @ match_runs P [] cs)"

fun cjk_terms :: "jstr \<Rightarrow> jstr list" where
  "cjk_terms [] = []"
| "cjk_terms [c] = [[c]]"
| "cjk_terms (c # d # cs) = [c] # [c, d] # cjk_terms (d # cs)"

definition tokenize :: "(jstr \<Rightarrow> jstr) \<Rightarrow> jstr \<Rightarrow> jstr list" where
  "tokenize lower str =
     (let s = lower str in
      filter (\<lambda>t. length t \<le> MAX_TERM_CHARS) (match_runs is_latin [] s) @
      concat (map cjk_terms (match_runs is_cjk [] s)))"

fun stringLeaves :: "jsv \<Rightarrow> jstr list" where
  "stringLeaves (JStr s) = [s]"
| "stringLeaves (JArr i xs) = concat (map stringLeaves xs)"
| "stringLeaves (JObj i fs) = concat (map (\<lambda>(k, v). stringLeaves v) fs)"
| "stringLeaves v = []"

section \<open>The index\<close>

type_synonym freqs = "(nat, nat) jmap"

text \<open>
  \<open>ti_disk\<close> tells whether a path was given, \<open>ti_file\<close> is the file at it, \<open>ti_pf\<close> the open handle
  with the bytes it reads.
\<close>

record text_index =
  ti_fields :: "jstr list option"
  ti_disk :: bool
  ti_file :: "bytes option"
  cacheTerms :: nat
  ti_postings :: "(jstr, posting_entry) jmap"
  docLen :: freqs
  ti_keys :: "kstr option list"
  keyToId :: "(kstr, nat) jmap"
  delta :: "(jstr, freqs) jmap"
  deltaCount :: int
  removed :: "nat list"
  memBase :: "(jstr, freqs) jmap option"
  ti_pf :: "bytes option"
  ti_cache :: "(jstr, (nat \<times> nat) list) jmap"
  ti_N :: int

definition new_text_index :: "jstr list option \<Rightarrow> bytes option option \<Rightarrow> nat option \<Rightarrow> text_index" where
  "new_text_index flds path climit =
     \<lparr> ti_fields = flds, ti_disk = (path \<noteq> None), ti_file = (case path of None \<Rightarrow> None | Some f \<Rightarrow> f),
       cacheTerms = (case climit of None \<Rightarrow> 1024 | Some n \<Rightarrow> n), ti_postings = [], docLen = [], ti_keys = [],
       keyToId = [], delta = [], deltaCount = 0, removed = [],
       memBase = (if path = None then Some [] else None), ti_pf = None, ti_cache = [], ti_N = 0 \<rparr>"

definition text_extract :: "jstr list option \<Rightarrow> jsv \<Rightarrow> jstr" where
  "text_extract flds doc =
     (case flds of
        Some (f # fs) \<Rightarrow> join [32] (List.map_filter (\<lambda>p. case getPath doc p of JStr s \<Rightarrow> Some s | _ \<Rightarrow> None) (f # fs))
      | _ \<Rightarrow> join [32] (stringLeaves doc))"

definition termCount :: "text_index \<Rightarrow> nat" where
  "termCount ti =
     (case memBase ti of
        Some mb \<Rightarrow> length mb + length (filter (\<lambda>t. jget mb t = None) (jkeys (delta ti)))
      | None \<Rightarrow> length (ti_postings ti) + length (filter (\<lambda>t. jget (ti_postings ti) t = None) (jkeys (delta ti))))"

text \<open>The occurrences of each token, and their entry into a term map.\<close>

definition count_tokens :: "jstr list \<Rightarrow> (jstr, nat) jmap" where
  "count_tokens ts = fold (\<lambda>t m. jset t ((case jget m t of None \<Rightarrow> 0 | Some n \<Rightarrow> n) + 1) m) ts []"

definition post_counts :: "nat \<Rightarrow> (jstr, nat) jmap \<Rightarrow> (jstr, freqs) jmap \<Rightarrow> (jstr, freqs) jmap" where
  "post_counts i counts agg =
     fold (\<lambda>(t, c) agg. jset t (jset i c (case jget agg t of None \<Rightarrow> [] | Some m \<Rightarrow> m)) agg) counts agg"

record staged =
  s_agg :: "(jstr, freqs) jmap"
  s_keys :: "kstr option list"
  s_keyToId :: "(kstr, nat) jmap"
  s_docLen :: freqs

definition stage :: "(jstr \<Rightarrow> jstr) \<Rightarrow> jstr list option \<Rightarrow> kstr \<times> jsv \<Rightarrow> staged \<Rightarrow> staged" where
  "stage lower flds e st =
     (let docID = length (s_keys st); toks = tokenize lower (text_extract flds (snd e)) in
      \<lparr> s_agg = post_counts docID (count_tokens toks) (s_agg st), s_keys = s_keys st @ [Some (fst e)],
        s_keyToId = jset (fst e) docID (s_keyToId st), s_docLen = jset docID (length toks) (s_docLen st) \<rparr>)"

definition swap_in :: "staged \<Rightarrow> nat \<Rightarrow> text_index \<Rightarrow> text_index" where
  "swap_in st n ti =
     ti\<lparr> docLen := s_docLen st, ti_keys := s_keys st, keyToId := s_keyToId st, delta := [], deltaCount := 0,
         removed := [], ti_cache := [], ti_N := int n \<rparr>"

text \<open>
  \<open>build\<close>: the replies of the writes, the fsync and the rename of the postings file are inputs, and
  \<open>attach\<close> is the error of opening it afterwards, if any.
\<close>

definition build ::
  "(jstr \<Rightarrow> jstr) \<Rightarrow> (nat \<Rightarrow> js_error + nat) \<Rightarrow> js_error option \<Rightarrow> js_error option \<Rightarrow> js_error option \<Rightarrow>
     (kstr \<times> jsv) list \<Rightarrow> text_index \<Rightarrow> js_error option \<times> text_index" where
  "build lower io fsync rename attach es ti =
     (let st = fold (stage lower (ti_fields ti)) es \<lparr> s_agg = [], s_keys = [], s_keyToId = [], s_docLen = [] \<rparr> in
      if ti_disk ti then
        (case rebuildSync io fsync rename (s_agg st) (ti_file ti) of
           (Inl e, f) \<Rightarrow>
             (Some e, ti\<lparr> ti_pf := (if ti_pf ti \<noteq> None \<and> attach = None
                                    then (case pf_open (ti_file ti) of Inl _ \<Rightarrow> None | Inr h \<Rightarrow> h) else None) \<rparr>)
         | (Inr dict, f) \<Rightarrow>
             (case attach of
                Some e \<Rightarrow> (Some e, ti\<lparr> ti_file := f, ti_pf := None \<rparr>)
              | None \<Rightarrow> (None, swap_in st (length es) (ti\<lparr> ti_file := f, ti_postings := dict, ti_pf := f \<rparr>))))
      else (None, swap_in st (length es) (ti\<lparr> memBase := Some (s_agg st) \<rparr>)))"

definition text_remove :: "kstr \<Rightarrow> text_index \<Rightarrow> text_index" where
  "text_remove key ti =
     (case jget (keyToId ti) key of
        None \<Rightarrow> ti
      | Some i \<Rightarrow>
          ti\<lparr> removed := set_add i (removed ti), keyToId := jdel key (keyToId ti), ti_keys := (ti_keys ti)[i := None],
              docLen := jdel i (docLen ti), delta := map (\<lambda>(t, m). (t, jdel i m)) (delta ti),
              deltaCount := deltaCount ti - int (length (filter (\<lambda>(t, m). jget m i \<noteq> None) (delta ti))),
              ti_N := ti_N ti - 1 \<rparr>)"

definition text_add :: "(jstr \<Rightarrow> jstr) \<Rightarrow> kstr \<Rightarrow> jsv \<Rightarrow> text_index \<Rightarrow> text_index" where
  "text_add lower key doc ti0 =
     (let ti = (if jget (keyToId ti0) key \<noteq> None then text_remove key ti0 else ti0);
          docID = length (ti_keys ti); toks = tokenize lower (text_extract (ti_fields ti) doc); counts = count_tokens toks in
      ti\<lparr> ti_keys := ti_keys ti @ [Some key], keyToId := jset key docID (keyToId ti),
          delta := post_counts docID counts (delta ti), deltaCount := deltaCount ti + int (length counts),
          docLen := jset docID (length toks) (docLen ti), ti_N := ti_N ti + 1 \<rparr>)"

section \<open>Reading\<close>

definition put_all :: "(nat \<times> nat) list \<Rightarrow> freqs \<Rightarrow> freqs" where
  "put_all arr m = fold (\<lambda>(i, f). jset i f) arr m"

definition cache_put :: "nat \<Rightarrow> jstr \<Rightarrow> (nat \<times> nat) list \<Rightarrow> (jstr, (nat \<times> nat) list) jmap \<Rightarrow> (jstr, (nat \<times> nat) list) jmap" where
  "cache_put limit t arr cache =
     (if limit > 0 then
        (let c = jset t arr cache in if length c > limit then jdel (fst (hd c)) c else c)
      else cache)"

definition readBase :: "jstr \<Rightarrow> text_index \<Rightarrow> (js_error + freqs) \<times> text_index" where
  "readBase trm ti =
     (case memBase ti of
        Some mb \<Rightarrow> (Inr (case jget mb trm of None \<Rightarrow> [] | Some m \<Rightarrow> m), ti)
      | None \<Rightarrow>
          (case jget (ti_cache ti) trm of
             Some arr \<Rightarrow> (Inr (put_all arr []), ti\<lparr> ti_cache := jset trm arr (jdel trm (ti_cache ti)) \<rparr>)
           | None \<Rightarrow>
               (case (case jget (ti_postings ti) trm of
                        Some e \<Rightarrow> (if ti_pf ti \<noteq> None then pf_read (ti_pf ti) e else Inr [])
                      | None \<Rightarrow> Inr []) of
                  Inl e \<Rightarrow> (Inl e, ti)
                | Inr arr \<Rightarrow> (Inr (put_all arr []), ti\<lparr> ti_cache := cache_put (cacheTerms ti) trm arr (ti_cache ti) \<rparr>))))"

definition livePostings :: "jstr \<Rightarrow> text_index \<Rightarrow> (js_error + freqs) \<times> text_index" where
  "livePostings trm ti =
     (case readBase trm ti of
        (Inl e, ti') \<Rightarrow> (Inl e, ti')
      | (Inr b, ti') \<Rightarrow>
          (let out = put_all (filter (\<lambda>(i, f). i \<notin> set (removed ti)) b) [] in
           (Inr (case jget (delta ti) trm of
                   None \<Rightarrow> out
                 | Some d \<Rightarrow> put_all (filter (\<lambda>(i, f). i \<notin> set (removed ti)) d) out), ti')))"

fun term_maps :: "jstr list \<Rightarrow> text_index \<Rightarrow> (js_error + (jstr \<times> freqs) list) \<times> text_index" where
  "term_maps [] ti = (Inr [], ti)"
| "term_maps (t # ts) ti =
     (case livePostings t ti of
        (Inl e, ti') \<Rightarrow> (Inl e, ti')
      | (Inr m, ti') \<Rightarrow> (case term_maps ts ti' of (r, ti'') \<Rightarrow> (map_result (\<lambda>ms. (t, m) # ms) r, ti'')))"

datatype search_op = AND_op | OR_op

definition candidates_or :: "(jstr \<times> freqs) list \<Rightarrow> nat list" where
  "candidates_or ms = set_of (concat (map (\<lambda>(t, m). jkeys m) ms))"

definition candidates_and :: "(jstr \<times> freqs) list \<Rightarrow> nat list" where
  "candidates_and ms =
     (if list_ex (\<lambda>(t, m). m = []) ms then []
      else
        (case sort_key length (map snd ms) of
           [] \<Rightarrow> []
         | l # ls \<Rightarrow> fold (\<lambda>m c. filter (\<lambda>i. jget m i \<noteq> None) c) ls (jkeys l)))"

definition idf :: "int \<Rightarrow> nat \<Rightarrow> real" where
  "idf n df = ln (1 + of_int n / (if df = 0 then 1 else of_nat df))"

definition doc_score :: "int \<Rightarrow> freqs \<Rightarrow> (jstr \<times> freqs) list \<Rightarrow> nat \<Rightarrow> real" where
  "doc_score n lens ms i =
     (let len = (case jget lens i of None \<Rightarrow> 1 | Some l \<Rightarrow> l) in
      sum_list (map (\<lambda>(t, m). case jget m i of
          None \<Rightarrow> 0 | Some f \<Rightarrow> if f = 0 then 0 else of_nat f / of_nat len * idf n (length m)) ms))"

definition scored :: "text_index \<Rightarrow> (jstr \<times> freqs) list \<Rightarrow> nat list \<Rightarrow> (kstr \<times> real) list" where
  "scored ti ms cs =
     List.map_filter (\<lambda>i.
       (let score = doc_score (ti_N ti) (docLen ti) ms i in
        if score > 0 then map_option (\<lambda>k. (k, score)) (nth_or None (ti_keys ti) (Some i)) else None)) cs"

definition text_search ::
  "(jstr \<Rightarrow> jstr) \<Rightarrow> jstr \<Rightarrow> search_op option \<Rightarrow> nat option \<Rightarrow> text_index \<Rightarrow> (js_error + (kstr \<times> real) list) \<times> text_index" where
  "text_search lower q op limit ti =
     (let qtokens = set_of (tokenize lower q) in
      if qtokens = [] then (Inr [], ti)
      else
        (case term_maps qtokens ti of
           (Inl e, ti') \<Rightarrow> (Inl e, ti')
         | (Inr ms, ti') \<Rightarrow>
             (let cs = (if op = Some OR_op then candidates_or ms else candidates_and ms) in
              (Inr (take (case limit of None \<Rightarrow> 50 | Some n \<Rightarrow> n)
                     (sort_key (\<lambda>h. - snd h) (scored ti' ms cs))), ti'))))"

definition text_close :: "text_index \<Rightarrow> text_index" where
  "text_close ti = ti\<lparr> ti_pf := None \<rparr>"

section \<open>Counting and posting\<close>

lemma jmap_ok_foldI: "(\<And>x m. jmap_ok m \<Longrightarrow> jmap_ok (f x m)) \<Longrightarrow> jmap_ok m \<Longrightarrow> jmap_ok (fold f xs m)"
  by (induction xs arbitrary: m) auto

lemma count_tokens_get: "jget (count_tokens ts) t = (if t \<in> set ts then Some (count_list ts t) else None)"
proof -
  have "jget (fold (\<lambda>t m. jset t ((case jget m t of None \<Rightarrow> 0 | Some n \<Rightarrow> n) + 1) m) ts m) t =
      (if t \<in> set ts then Some ((case jget m t of None \<Rightarrow> 0 | Some n \<Rightarrow> n) + count_list ts t) else jget m t)" for m
    by (induction ts arbitrary: m) auto
  then show ?thesis by (simp add: count_tokens_def)
qed

lemma count_tokens_ok [simp]: "jmap_ok (count_tokens ts)"
  unfolding count_tokens_def by (rule jmap_ok_foldI) simp_all

definition posting_map :: "(jstr, freqs) jmap \<Rightarrow> jstr \<Rightarrow> freqs" where
  "posting_map agg t = (case jget agg t of None \<Rightarrow> [] | Some m \<Rightarrow> m)"

lemma post_counts_map: "jmap_ok counts \<Longrightarrow> posting_map (post_counts i counts agg) t =
    (case jget counts t of None \<Rightarrow> posting_map agg t | Some c \<Rightarrow> jset i c (posting_map agg t))"
  unfolding post_counts_def
proof (induction counts arbitrary: agg)
  case (Cons p counts)
  obtain t0 c where p: "p = (t0, c)" by (cases p)
  have none: "t = t0 \<Longrightarrow> jget counts t = None" using Cons.prems by (auto simp: p jget_None_iff)
  have "posting_map (jset t0 (jset i c (posting_map agg t0)) agg) t =
      (if t = t0 then jset i c (posting_map agg t0) else posting_map agg t)"
    by (simp add: posting_map_def)
  with Cons.IH [of "jset t0 (jset i c (posting_map agg t0)) agg"] Cons.prems none show ?case
    by (auto simp: p posting_map_def [of agg t0, symmetric] split: option.splits)
qed simp

lemma post_counts_ok: "jmap_ok agg \<Longrightarrow> jmap_ok (post_counts i counts agg)"
  unfolding post_counts_def by (rule jmap_ok_foldI) auto

lemma put_all_get: "jmap_ok arr \<Longrightarrow> jget (put_all arr m) i = (case jget arr i of None \<Rightarrow> jget m i | Some f \<Rightarrow> Some f)"
  unfolding put_all_def
proof (induction arr arbitrary: m)
  case (Cons p arr)
  obtain j f where p: "p = (j, f)" by (cases p)
  have "i = j \<Longrightarrow> jget arr i = None" using Cons.prems by (auto simp: p jget_None_iff)
  with Cons show ?case by (auto simp: p split: option.splits)
qed simp

lemma put_all_ok: "jmap_ok m \<Longrightarrow> jmap_ok (put_all arr m)"
  unfolding put_all_def by (rule jmap_ok_foldI) auto

lemma filter_get: "jget (filter (\<lambda>(i, f). P i) m) i = (if P i then jget m i else None)"
  by (induction m) auto

lemma filter_jmap_ok: "jmap_ok m \<Longrightarrow> jmap_ok (filter (\<lambda>(i, f). P i) m)"
  by (induction m) auto

section \<open>What the index holds\<close>

text \<open>The base list of a term, from memory or from the file.\<close>

definition base_of :: "(jstr, freqs) jmap option \<Rightarrow> (jstr, posting_entry) jmap \<Rightarrow> bytes option \<Rightarrow> jstr \<Rightarrow> freqs" where
  "base_of mem dict pf t =
     (case mem of
        Some mb \<Rightarrow> posting_map mb t
      | None \<Rightarrow>
          (case jget dict t of
             None \<Rightarrow> []
           | Some e \<Rightarrow> if pf = None then [] else (case pf_read pf e of Inl _ \<Rightarrow> [] | Inr es \<Rightarrow> es)))"

definition base :: "text_index \<Rightarrow> jstr \<Rightarrow> freqs" where
  "base ti = base_of (memBase ti) (ti_postings ti) (ti_pf ti)"

definition read_ok :: "text_index \<Rightarrow> bool" where
  "read_ok ti \<longleftrightarrow> (\<forall>t. jmap_ok (base ti t)) \<and>
     (memBase ti = None \<longrightarrow> ti_pf ti \<noteq> None \<longrightarrow>
        (\<forall>t e. jget (ti_postings ti) t = Some e \<longrightarrow> (\<exists>es. pf_read (ti_pf ti) e = Inr es))) \<and>
     (\<forall>t arr. jget (ti_cache ti) t = Some arr \<longrightarrow> arr = base ti t)"

lemma base_cache [simp]: "base (ti\<lparr> ti_cache := c \<rparr>) = base ti"
  by (simp add: base_def)

lemma read_okD: "read_ok ti \<Longrightarrow> jmap_ok (base ti t)" "read_ok ti \<Longrightarrow> jget (ti_cache ti) t = Some arr \<Longrightarrow> arr = base ti t"
  by (auto simp: read_ok_def)

lemma read_ok_cache:
  "read_ok ti \<Longrightarrow> (\<And>t arr. jget c t = Some arr \<Longrightarrow> arr = base ti t) \<Longrightarrow> read_ok (ti\<lparr> ti_cache := c \<rparr>)"
  by (auto simp: read_ok_def)

text \<open>Reading a term answers the base list and touches nothing but the cache.\<close>

lemma readBase_ok:
  assumes ok: "read_ok ti"
  obtains m c where "readBase t ti = (Inr m, ti\<lparr> ti_cache := c \<rparr>)" "jmap_ok m" "jget m = jget (base ti t)"
    "read_ok (ti\<lparr> ti_cache := c \<rparr>)"
proof (cases "memBase ti")
  case (Some mb)
  then have "readBase t ti = (Inr (base ti t), ti\<lparr> ti_cache := ti_cache ti \<rparr>)"
    by (simp add: readBase_def base_def base_of_def posting_map_def)
  then show ?thesis using that [of "base ti t" "ti_cache ti"] read_okD(1) [OF ok] ok by simp
next
  case None
  have put: "jmap_ok (put_all (base ti t) [])" "jget (put_all (base ti t) []) = jget (base ti t)"
    using read_okD(1) [OF ok] by (auto simp: put_all_ok put_all_get fun_eq_iff split: option.splits)
  show ?thesis
  proof (cases "jget (ti_cache ti) t")
    case (Some arr)
    then have arr: "arr = base ti t" using read_okD(2) [OF ok] by blast
    let ?c = "jset t arr (jdel t (ti_cache ti))"
    have "read_ok (ti\<lparr> ti_cache := ?c \<rparr>)"
      by (rule read_ok_cache [OF ok]) (use read_okD(2) [OF ok] arr in \<open>auto split: if_splits\<close>)
    then show ?thesis using that [of "put_all (base ti t) []" ?c] put None Some by (simp add: readBase_def arr)
  next
    case miss: None
    let ?c = "cache_put (cacheTerms ti) t (base ti t) (ti_cache ti)"
    have r: "(case jget (ti_postings ti) t of
        Some e \<Rightarrow> (if ti_pf ti \<noteq> None then pf_read (ti_pf ti) e else Inr []) | None \<Rightarrow> Inr []) = Inr (base ti t)"
      using ok None by (auto simp: base_def base_of_def read_ok_def split: option.splits sum.splits) (metis Inr_Inl_False)
    have "read_ok (ti\<lparr> ti_cache := ?c \<rparr>)"
      by (rule read_ok_cache [OF ok])
         (use read_okD(2) [OF ok] in \<open>auto simp: cache_put_def Let_def split: if_splits\<close>)
    then show ?thesis using that [of "put_all (base ti t) []" ?c] put by (simp add: readBase_def None miss r)
  qed
qed

definition freq :: "text_index \<Rightarrow> jstr \<Rightarrow> nat \<Rightarrow> nat option" where
  "freq ti t i = (case jget (posting_map (delta ti) t) i of Some f \<Rightarrow> Some f | None \<Rightarrow> jget (base ti t) i)"

definition is_live :: "text_index \<Rightarrow> nat \<Rightarrow> bool" where
  "is_live ti i \<longleftrightarrow> i < length (ti_keys ti) \<and> ti_keys ti ! i \<noteq> None"

text \<open>
  The invariant: document numbers and live keys correspond, the tombstones are the numbers without
  a key, no posting names a number not yet given out, and the buffer names live numbers only.
\<close>

definition text_ok :: "jstr list option \<Rightarrow> text_index \<Rightarrow> bool" where
  "text_ok flds ti \<longleftrightarrow> ti_fields ti = flds \<and> read_ok ti \<and>
     jmap_ok (keyToId ti) \<and> (\<forall>k i. jget (keyToId ti) k = Some i \<longleftrightarrow> i < length (ti_keys ti) \<and> ti_keys ti ! i = Some k) \<and>
     set (removed ti) = {i. i < length (ti_keys ti) \<and> ti_keys ti ! i = None} \<and>
     jmap_ok (delta ti) \<and> (\<forall>t. jmap_ok (posting_map (delta ti) t) \<and>
       (\<forall>i. jget (posting_map (delta ti) t) i \<noteq> None \<longrightarrow> is_live ti i)) \<and>
     (\<forall>t i. jget (base ti t) i \<noteq> None \<longrightarrow> i < length (ti_keys ti)) \<and>
     jmap_ok (docLen ti) \<and> (\<forall>i. jget (docLen ti) i \<noteq> None \<longleftrightarrow> is_live ti i) \<and>
     ti_N ti = int (length (keyToId ti))"

lemma text_okD:
  assumes "text_ok flds ti"
  shows "ti_fields ti = flds" "read_ok ti" "jmap_ok (keyToId ti)"
    "jget (keyToId ti) k = Some i \<longleftrightarrow> i < length (ti_keys ti) \<and> ti_keys ti ! i = Some k"
    "i \<in> set (removed ti) \<longleftrightarrow> i < length (ti_keys ti) \<and> ti_keys ti ! i = None"
    "jmap_ok (delta ti)" "jmap_ok (posting_map (delta ti) t)"
    "jget (posting_map (delta ti) t) i \<noteq> None \<Longrightarrow> is_live ti i"
    "jget (base ti t) i \<noteq> None \<Longrightarrow> i < length (ti_keys ti)"
    "jmap_ok (docLen ti)" "jget (docLen ti) i \<noteq> None \<longleftrightarrow> is_live ti i" "ti_N ti = int (length (keyToId ti))"
  using assms unfolding text_ok_def by blast+

text \<open>What is kept of a document: the frequency of each of its terms and its length.\<close>

definition text_view :: "text_index \<Rightarrow> kstr \<Rightarrow> ((jstr \<Rightarrow> nat option) \<times> nat option) option" where
  "text_view ti k = map_option (\<lambda>i. (\<lambda>t. freq ti t i, jget (docLen ti) i)) (jget (keyToId ti) k)"

definition doc_tokens :: "(jstr \<Rightarrow> jstr) \<Rightarrow> jstr list option \<Rightarrow> jsv \<Rightarrow> jstr list" where
  "doc_tokens lower flds doc = tokenize lower (text_extract flds doc)"

definition token_content :: "jstr list \<Rightarrow> (jstr \<Rightarrow> nat option) \<times> nat option" where
  "token_content toks = (\<lambda>t. if t \<in> set toks then Some (count_list toks t) else None, Some (length toks))"

definition text_content :: "(jstr \<Rightarrow> jstr) \<Rightarrow> jstr list option \<Rightarrow> jsv \<Rightarrow> ((jstr \<Rightarrow> nat option) \<times> nat option) option" where
  "text_content lower flds doc = Some (token_content (doc_tokens lower flds doc))"

lemma posting_map_del: "posting_map (map (\<lambda>(t, m). (t, jdel i m)) d) t = jdel i (posting_map d t)"
  unfolding posting_map_def by (induction d) auto

lemma read_ok_same:
  "read_ok ti \<Longrightarrow> memBase ti' = memBase ti \<Longrightarrow> ti_postings ti' = ti_postings ti \<Longrightarrow> ti_pf ti' = ti_pf ti \<Longrightarrow>
     ti_cache ti' = ti_cache ti \<Longrightarrow> read_ok ti'"
  by (simp add: read_ok_def base_def)

lemma length_jdel: "jmap_ok m \<Longrightarrow> k \<in> fst ` set m \<Longrightarrow> length m = Suc (length (jdel k m))"
proof (induction m)
  case (Cons p m)
  obtain a v where p: "p = (a, v)" by (cases p)
  show ?case using Cons by (cases "a = k") (auto simp: p jdel_absent)
qed simp

lemma text_remove_ok:
  assumes ok: "text_ok flds ti"
  shows "text_ok flds (text_remove key ti) \<and> text_view (text_remove key ti) = (text_view ti)(key := None)"
proof (cases "jget (keyToId ti) key")
  case None
  then have "(text_view ti)(key := None) = text_view ti" by (simp add: text_view_def fun_eq_iff)
  then show ?thesis using ok by (simp add: text_remove_def None)
next
  case (Some i)
  let ?ti = "text_remove key ti"
  note D = text_okD [OF ok]
  have i: "i < length (ti_keys ti)" "ti_keys ti ! i = Some key" using Some D(4) [of key i] by auto
  have fields: "ti_fields ?ti = flds" "memBase ?ti = memBase ti" "ti_postings ?ti = ti_postings ti" "ti_pf ?ti = ti_pf ti"
    "ti_cache ?ti = ti_cache ti" "keyToId ?ti = jdel key (keyToId ti)" "ti_keys ?ti = (ti_keys ti)[i := None]"
    "docLen ?ti = jdel i (docLen ti)" "ti_N ?ti = ti_N ti - 1" "set (removed ?ti) = insert i (set (removed ti))"
    "delta ?ti = map (\<lambda>(t, m). (t, jdel i m)) (delta ti)"
    using D(1) by (simp_all add: text_remove_def Some)
  have b: "base ?ti = base ti" by (simp add: base_def fields)
  have live: "is_live ?ti j \<longleftrightarrow> is_live ti j \<and> j \<noteq> i" for j
    using i by (auto simp: is_live_def fields nth_list_update)
  have k: "jget (keyToId ?ti) k = Some j \<longleftrightarrow> j < length (ti_keys ?ti) \<and> ti_keys ?ti ! j = Some k" for k j
    using i D(4) [of k j] D(4) [of key j] Some by (auto simp: fields nth_list_update)
  have pm: "posting_map (delta ?ti) t = jdel i (posting_map (delta ti) t)" for t by (simp add: fields posting_map_del)
  have keys: "jkeys (delta ?ti) = jkeys (delta ti)" by (simp add: fields case_prod_beta o_def)
  have len: "length (keyToId ti) = Suc (length (jdel key (keyToId ti)))"
    using length_jdel [OF D(3), of key] Some by (metis jget_None_iff option.distinct(1))
  have "text_ok flds ?ti"
    unfolding text_ok_def
  proof (intro conjI allI impI)
    show "set (removed ?ti) = {i. i < length (ti_keys ?ti) \<and> ti_keys ?ti ! i = None}"
      using D(5) i by (auto simp: fields nth_list_update)
    show "jmap_ok (delta ?ti)" using D(6) by (simp add: jmap_ok_def keys)
    show "ti_N ?ti = int (length (keyToId ?ti))" using D(12) len by (simp add: fields)
    show "is_live ?ti j" if "jget (posting_map (delta ?ti) t) j \<noteq> None" for t j
      using that D(8) [of t j] by (auto simp: live pm split: if_splits)
    show "(jget (docLen ?ti) j \<noteq> None) = is_live ?ti j" for j using D(11) [of j] by (auto simp: fields live)
    show "read_ok ?ti" by (rule read_ok_same [OF D(2)]) (simp_all add: fields)
    show "ti_fields ?ti = flds" by (rule fields(1))
    show "jmap_ok (keyToId ?ti)" "jmap_ok (docLen ?ti)" using D(3,10) by (simp_all add: fields(6,8))
    show "jmap_ok (posting_map (delta ?ti) t)" for t unfolding pm using D(7) by simp
    show "j < length (ti_keys ?ti)" if "jget (base ?ti t) j \<noteq> None" for t j
      using D(9) [of t j] that unfolding b fields(7) by simp
  qed (rule k)
  moreover have "text_view ?ti = (text_view ti)(key := None)"
  proof
    fix k
    show "text_view ?ti k = ((text_view ti)(key := None)) k"
    proof (cases "k = key \<or> jget (keyToId ti) k = None")
      case True
      then show ?thesis by (auto simp: text_view_def fields)
    next
      case False
      then obtain j where j: "jget (keyToId ti) k = Some j" "k \<noteq> key" by auto
      then have "j \<noteq> i" using D(4) [of k j] i by auto
      then have "freq ?ti t j = freq ti t j" for t unfolding freq_def pm b by simp
      with \<open>j \<noteq> i\<close> show ?thesis using j by (simp add: text_view_def fields(6,8))
    qed
  qed
  ultimately show ?thesis by simp
qed

lemma text_add_fresh_ok:
  assumes ok: "text_ok flds ti" and fresh: "jget (keyToId ti) key = None"
  shows "text_ok flds (text_add lower key doc ti) \<and>
    text_view (text_add lower key doc ti) = (text_view ti)(key := text_content lower flds doc)"
proof -
  let ?ti = "text_add lower key doc ti" and ?n = "length (ti_keys ti)"
  define toks where "toks = doc_tokens lower flds doc"
  note D = text_okD [OF ok]
  have fields: "ti_fields ?ti = flds" "memBase ?ti = memBase ti" "ti_postings ?ti = ti_postings ti" "ti_pf ?ti = ti_pf ti"
    "ti_cache ?ti = ti_cache ti" "keyToId ?ti = jset key ?n (keyToId ti)" "ti_keys ?ti = ti_keys ti @ [Some key]"
    "docLen ?ti = jset ?n (length toks) (docLen ti)" "ti_N ?ti = ti_N ti + 1" "removed ?ti = removed ti"
    "delta ?ti = post_counts ?n (count_tokens toks) (delta ti)"
    using D(1) by (simp_all add: text_add_def fresh Let_def toks_def doc_tokens_def)
  have b: "base ?ti = base ti" by (simp add: base_def fields)
  have live: "is_live ?ti j \<longleftrightarrow> is_live ti j \<or> j = ?n" for j
    by (auto simp: is_live_def fields nth_append)
  have k: "jget (keyToId ?ti) k = Some j \<longleftrightarrow> j < length (ti_keys ?ti) \<and> ti_keys ?ti ! j = Some k" for k j
    using D(4) [of k j] D(4) [of key j] fresh by (auto simp: fields nth_append)
  have pm: "posting_map (delta ?ti) t =
      (if t \<in> set toks then jset ?n (count_list toks t) (posting_map (delta ti) t) else posting_map (delta ti) t)" for t
    by (simp add: fields post_counts_map count_tokens_get)
  have "text_ok flds ?ti"
    unfolding text_ok_def
  proof (intro conjI allI impI)
    show "set (removed ?ti) = {i. i < length (ti_keys ?ti) \<and> ti_keys ?ti ! i = None}"
    proof (rule set_eqI)
      fix j
      show "j \<in> set (removed ?ti) \<longleftrightarrow> j \<in> {i. i < length (ti_keys ?ti) \<and> ti_keys ?ti ! i = None}"
        unfolding fields(7,10) by (cases "j < ?n") (auto simp: D(5) nth_append)
    qed
    show "jmap_ok (delta ?ti)" using D(6) by (simp add: fields post_counts_ok)
    show "ti_N ?ti = int (length (keyToId ?ti))"
      using D(12) fresh by (simp add: fields length_jset jget_None_iff)
    show "jmap_ok (posting_map (delta ?ti) t)" for t using D(7) by (simp add: pm)
    show "is_live ?ti j" if "jget (posting_map (delta ?ti) t) j \<noteq> None" for t j
      using that D(8) [of t j] by (auto simp: live pm split: if_splits)
    show "j < length (ti_keys ?ti)" if "jget (base ?ti t) j \<noteq> None" for t j
      using D(9) [of t j] that by (simp add: b fields)
    show "(jget (docLen ?ti) j \<noteq> None) = is_live ?ti j" for j
      using D(11) [of j] unfolding fields(8) live by simp
    show "read_ok ?ti" by (rule read_ok_same [OF D(2)]) (simp_all add: fields)
    show "ti_fields ?ti = flds" by (rule fields(1))
    show "jmap_ok (keyToId ?ti)" "jmap_ok (docLen ?ti)" using D(3,10) by (simp_all add: fields(6,8))
  qed (rule k)
  moreover have "text_view ?ti = (text_view ti)(key := text_content lower flds doc)"
  proof
    fix k
    show "text_view ?ti k = ((text_view ti)(key := text_content lower flds doc)) k"
    proof (cases "k = key")
      case True
      have "jget (posting_map (delta ti) t) ?n = None" for t
        using D(8) [of t ?n] unfolding is_live_def by (cases "jget (posting_map (delta ti) t) ?n") simp_all
      moreover have "jget (base ti t) ?n = None" for t using D(9) [of t ?n] by (cases "jget (base ti t) ?n") simp_all
      ultimately have "freq ?ti t ?n = (if t \<in> set toks then Some (count_list toks t) else None)" for t
        unfolding freq_def pm b by simp
      then show ?thesis
        by (simp add: True text_view_def fields(6,8) text_content_def token_content_def toks_def fun_eq_iff)
    next
      case False
      show ?thesis
      proof (cases "jget (keyToId ti) k")
        case None
        then show ?thesis using False by (simp add: text_view_def fields)
      next
        case (Some j)
        then have "j \<noteq> ?n" using D(4) [of k j] by auto
        then have "freq ?ti t j = freq ti t j" for t unfolding freq_def pm b by simp
        with \<open>j \<noteq> ?n\<close> show ?thesis using False Some by (simp add: text_view_def fields(6,8))
      qed
    qed
  qed
  ultimately show ?thesis by simp
qed

lemma text_add_split: "text_add lower key doc ti = text_add lower key doc (text_remove key ti)"
proof (cases "jget (keyToId ti) key")
  case None
  then show ?thesis by (simp add: text_remove_def)
next
  case (Some i)
  have "jget (keyToId (text_remove key ti)) key = None" by (simp add: text_remove_def Some)
  with Some show ?thesis by (simp add: text_add_def Let_def)
qed

lemma text_add_ok:
  assumes ok: "text_ok flds ti"
  shows "text_ok flds (text_add lower key doc ti) \<and>
    text_view (text_add lower key doc ti) = (text_view ti)(key := text_content lower flds doc)"
proof -
  have r: "text_ok flds (text_remove key ti)" "text_view (text_remove key ti) = (text_view ti)(key := None)"
    using text_remove_ok [OF ok] by auto
  have "jget (keyToId (text_remove key ti)) key = None"
    by (cases "jget (keyToId ti) key") (simp_all add: text_remove_def)
  from text_add_fresh_ok [OF r(1) this] show ?thesis
    unfolding text_add_split [of lower key doc ti] by (simp add: r(2))
qed

lemma new_text_ok: "text_ok flds (new_text_index flds path climit)" "text_view (new_text_index flds path climit) = (\<lambda>k. None)"
  by (simp_all add: text_ok_def new_text_index_def read_ok_def base_def base_of_def posting_map_def text_view_def
      is_live_def fun_eq_iff split: option.splits)

interpretation txix: derived_index "new_text_index flds path climit" "text_add lower" text_remove "text_ok flds"
  text_view "text_content lower flds" "\<lambda>doc. True" for flds path climit lower
  by unfold_locales (simp_all add: text_add_ok text_remove_ok new_text_ok)

end
