(* ===== verification/TextSearch.thy ===== *)
theory TextSearch
  imports TextIndex
begin

text \<open>
  What \<open>TextIndex.search\<close> answers: exactly the documents whose current text has the terms of the
  query, scored by term frequency and inverse document frequency, after any rebuild and any
  writes, in memory or over a postings file.
\<close>

section \<open>Live postings\<close>

text \<open>The map \<open>m\<close> lists the live documents with the term \<open>t\<close>.\<close>

definition lists_term :: "text_index \<Rightarrow> jstr \<Rightarrow> freqs \<Rightarrow> bool" where
  "lists_term ti t m \<longleftrightarrow> jmap_ok m \<and> (\<forall>i. jget m i = (if is_live ti i then freq ti t i else None))"

lemma cache_irrelevant [simp]:
  "is_live (ti\<lparr> ti_cache := c \<rparr>) = is_live ti" "freq (ti\<lparr> ti_cache := c \<rparr>) = freq ti"
  "lists_term (ti\<lparr> ti_cache := c \<rparr>) = lists_term ti" "text_view (ti\<lparr> ti_cache := c \<rparr>) = text_view ti"
proof -
  show l: "is_live (ti\<lparr> ti_cache := c \<rparr>) = is_live ti" by (simp add: is_live_def fun_eq_iff)
  show f: "freq (ti\<lparr> ti_cache := c \<rparr>) = freq ti" unfolding freq_def [abs_def] base_cache by simp
  show "lists_term (ti\<lparr> ti_cache := c \<rparr>) = lists_term ti" unfolding lists_term_def [abs_def] l f ..
  show "text_view (ti\<lparr> ti_cache := c \<rparr>) = text_view ti" unfolding text_view_def [abs_def] f by simp
qed

lemma text_ok_cache: "text_ok flds ti \<Longrightarrow> read_ok (ti\<lparr> ti_cache := c \<rparr>) \<Longrightarrow> text_ok flds (ti\<lparr> ti_cache := c \<rparr>)"
  unfolding text_ok_def by simp

lemma livePostings_ok:
  assumes ok: "text_ok flds ti"
  obtains m c where "livePostings t ti = (Inr m, ti\<lparr> ti_cache := c \<rparr>)" "lists_term ti t m" "text_ok flds (ti\<lparr> ti_cache := c \<rparr>)"
proof -
  note D = text_okD [OF ok]
  obtain b c where b: "readBase t ti = (Inr b, ti\<lparr> ti_cache := c \<rparr>)" "jmap_ok b" "jget b = jget (base ti t)"
    "read_ok (ti\<lparr> ti_cache := c \<rparr>)"
    by (rule readBase_ok [OF D(2)])
  let ?keep = "\<lambda>m. filter (\<lambda>(i, f). i \<notin> set (removed ti)) m"
  let ?out = "put_all (?keep b) []" and ?d = "posting_map (delta ti) t"
  let ?m = "case jget (delta ti) t of None \<Rightarrow> ?out | Some d \<Rightarrow> put_all (?keep d) ?out"
  have m: "?m = put_all (?keep ?d) ?out"
    by (cases "jget (delta ti) t") (simp_all add: posting_map_def put_all_def)
  have "jget ?m i = (if is_live ti i then freq ti t i else None)" for i
  proof -
    have "jget ?m i = (if i \<notin> set (removed ti) then freq ti t i else None)"
      unfolding m by (simp add: put_all_get filter_jmap_ok b(2,3) D(7) filter_get freq_def split: option.splits)
    moreover have "i \<notin> set (removed ti) \<and> freq ti t i \<noteq> None \<longleftrightarrow> is_live ti i \<and> freq ti t i \<noteq> None"
      using D(8) [of t i] D(9) [of t i] unfolding D(5) is_live_def freq_def by (auto split: option.splits)
    ultimately show ?thesis by (auto split: if_splits)
  qed
  moreover have "jmap_ok ?m" unfolding m by (simp add: put_all_ok)
  ultimately have "lists_term ti t ?m" unfolding lists_term_def by blast
  moreover have "livePostings t ti = (Inr ?m, ti\<lparr> ti_cache := c \<rparr>)"
    by (simp add: livePostings_def b(1) Let_def)
  ultimately show ?thesis using that text_ok_cache [OF ok b(4)] by blast
qed

lemma term_maps_ok:
  assumes "text_ok flds ti"
  shows "\<exists>ms c. term_maps ts ti = (Inr ms, ti\<lparr> ti_cache := c \<rparr>) \<and> map fst ms = ts \<and>
    (\<forall>(t, m) \<in> set ms. lists_term ti t m) \<and> text_ok flds (ti\<lparr> ti_cache := c \<rparr>)"
  using assms
proof (induction ts arbitrary: ti)
  case Nil
  then show ?case by (intro exI [of _ "[]"] exI [of _ "ti_cache ti"]) simp
next
  case (Cons t ts)
  obtain m c where m: "livePostings t ti = (Inr m, ti\<lparr> ti_cache := c \<rparr>)" "lists_term ti t m" "text_ok flds (ti\<lparr> ti_cache := c \<rparr>)"
    by (rule livePostings_ok [OF Cons.prems])
  obtain ms c' where ms: "term_maps ts (ti\<lparr> ti_cache := c \<rparr>) = (Inr ms, ti\<lparr> ti_cache := c' \<rparr>)" "map fst ms = ts"
    "\<forall>(t, m) \<in> set ms. lists_term ti t m" "text_ok flds (ti\<lparr> ti_cache := c' \<rparr>)"
    using Cons.IH [OF m(3)] by auto
  have "term_maps (t # ts) ti = (Inr ((t, m) # ms), ti\<lparr> ti_cache := c' \<rparr>)" by (simp add: m(1) ms(1))
  then show ?case using m(2) ms(2,3,4) by (intro exI [of _ "(t, m) # ms"] exI [of _ c']) auto
qed

section \<open>Candidates\<close>

lemma candidates_or_set: "set (candidates_or ms) = {i. \<exists>(t, m) \<in> set ms. jget m i \<noteq> None}" "distinct (candidates_or ms)"
  by (force simp: candidates_or_def jget_None_iff)+

lemma fold_filter: "set (fold (\<lambda>m c. filter (\<lambda>i. jget m i \<noteq> None) c) ls c) = {i \<in> set c. \<forall>m \<in> set ls. jget m i \<noteq> None}"
  "distinct c \<Longrightarrow> distinct (fold (\<lambda>m c. filter (\<lambda>i. jget m i \<noteq> None) c) ls c)"
  by (induction ls arbitrary: c) auto

lemma candidates_and_set:
  assumes "ms \<noteq> []" "\<forall>(t, m) \<in> set ms. jmap_ok m"
  shows "set (candidates_and ms) = {i. \<forall>(t, m) \<in> set ms. jget m i \<noteq> None}" "distinct (candidates_and ms)"
proof -
  have "set (candidates_and ms) = {i. \<forall>(t, m) \<in> set ms. jget m i \<noteq> None} \<and> distinct (candidates_and ms)"
  proof (cases "list_ex (\<lambda>(t, m). m = []) ms")
    case True
    then obtain t where "(t, []) \<in> set ms" by (auto simp: list_ex_iff)
    then have "\<not> (\<forall>(t, m) \<in> set ms. jget m i \<noteq> None)" for i by force
    then show ?thesis using True by (simp add: candidates_and_def)
  next
    case False
    let ?ls = "sort_key length (map snd ms)"
    have set_ls: "set ?ls = snd ` set ms" by simp
    show ?thesis
    proof (cases ?ls)
      case Nil
      with set_ls assms(1) show ?thesis by simp
    next
      case (Cons l ls)
      have c: "candidates_and ms = fold (\<lambda>m c. filter (\<lambda>i. jget m i \<noteq> None) c) ls (jkeys l)"
        using False by (simp add: candidates_and_def Cons)
      have l: "set (l # ls) = snd ` set ms" using set_ls by (simp only: Cons)
      then have "jmap_ok l" using assms(2) by force
      then have "distinct (candidates_and ms)" unfolding c by (intro fold_filter(2)) (simp add: jmap_ok_def)
      moreover have "set (candidates_and ms) = {i. \<forall>m \<in> set (l # ls). jget m i \<noteq> None}"
        unfolding c fold_filter(1) by (auto simp: jget_None_iff)
      ultimately show ?thesis unfolding l by (auto simp: case_prod_beta)
    qed
  qed
  then show "set (candidates_and ms) = {i. \<forall>(t, m) \<in> set ms. jget m i \<noteq> None}" "distinct (candidates_and ms)" by auto
qed

section \<open>Scores\<close>

lemma sum_list_pos: "(\<And>x. x \<in> set xs \<Longrightarrow> 0 \<le> f x) \<Longrightarrow> x \<in> set xs \<Longrightarrow> 0 < f x \<Longrightarrow> 0 < sum_list (map f xs)"
  for f :: "'a \<Rightarrow> real"
proof (induction xs)
  case (Cons y ys)
  have "0 \<le> sum_list (map f ys)" using Cons.prems(1) by (intro sum_list_nonneg) auto
  moreover have "0 \<le> f y" using Cons.prems(1) by simp
  ultimately show ?case using Cons by (cases "x = y") (auto intro: add_nonneg_pos add_pos_nonneg)
qed simp

lemma idf_nonneg: "0 \<le> n \<Longrightarrow> 0 \<le> idf n df"
  by (simp add: idf_def)

lemma idf_pos: "0 < n \<Longrightarrow> 0 < idf n df"
  unfolding idf_def by (intro ln_gt_zero) (simp add: divide_pos_pos)

lemma doc_score_pos:
  assumes "0 < n" "(t, m) \<in> set ms" "jget m i = Some f" "0 < f" "jget lens i = Some l" "0 < l"
  shows "0 < doc_score n lens ms i"
proof -
  let ?g = "\<lambda>(t :: jstr, m). (case jget m i of None \<Rightarrow> 0
      | Some f \<Rightarrow> if f = 0 then 0 else of_nat f / of_nat l * idf n (length m)) :: real"
  have "0 \<le> ?g x" for x using idf_nonneg [of n] assms(1) by (auto simp: case_prod_beta split: option.splits)
  moreover have "0 < ?g (t, m)" using assms(3,4,6) idf_pos [OF assms(1)] by simp
  ultimately have "0 < sum_list (map ?g ms)" using sum_list_pos [of ms ?g "(t, m)"] assms(2) by blast
  then show ?thesis by (simp add: doc_score_def assms(5))
qed

section \<open>The answer, by the records\<close>

definition doc_frequency :: "(jsv \<Rightarrow> jstr list) \<Rightarrow> (kstr \<Rightarrow> jsv option) \<Rightarrow> jstr \<Rightarrow> nat" where
  "doc_frequency toks M t = card {k. \<exists>doc. M k = Some doc \<and> t \<in> set (toks doc)}"

definition tf_idf :: "(jsv \<Rightarrow> jstr list) \<Rightarrow> (kstr \<Rightarrow> jsv option) \<Rightarrow> jstr list \<Rightarrow> jsv \<Rightarrow> real" where
  "tf_idf toks M qs doc =
     sum_list (map (\<lambda>t. if t \<in> set (toks doc)
       then of_nat (count_list (toks doc) t) / of_nat (length (toks doc)) * ln (1 + of_nat (card (dom M)) / of_nat (doc_frequency toks M t))
       else 0) qs)"

definition text_matches :: "(jsv \<Rightarrow> jstr list) \<Rightarrow> search_op option \<Rightarrow> jstr list \<Rightarrow> jsv \<Rightarrow> bool" where
  "text_matches toks op qs doc \<longleftrightarrow>
     (if op = Some OR_op then \<exists>t \<in> set qs. t \<in> set (toks doc) else \<forall>t \<in> set qs. t \<in> set (toks doc))"

text \<open>An index that shows the records \<open>M\<close>: keys, numbers and frequencies.\<close>

lemma view_records:
  assumes ok: "text_ok flds ti" and v: "text_view ti = ix_content (text_content lower flds) M"
  shows "jget (keyToId ti) k = None \<longleftrightarrow> M k = None"
    "jget (keyToId ti) k = Some i \<Longrightarrow> M k = Some doc \<Longrightarrow>
       freq ti t i = (if t \<in> set (doc_tokens lower flds doc) then Some (count_list (doc_tokens lower flds doc) t) else None) \<and>
       jget (docLen ti) i = Some (length (doc_tokens lower flds doc))"
  using fun_cong [OF v, of k]
  by (auto simp: text_view_def ix_content_def text_content_def token_content_def fun_eq_iff split: option.splits)

lemma live_number: "text_ok flds ti \<Longrightarrow> is_live ti i \<longleftrightarrow> (\<exists>k. jget (keyToId ti) k = Some i)"
  using text_okD(4) [of flds ti] by (auto simp: is_live_def)

lemma key_unique: "text_ok flds ti \<Longrightarrow> jget (keyToId ti) k = Some i \<Longrightarrow> jget (keyToId ti) k' = Some i \<Longrightarrow> k = k'"
  by (metis text_okD(4) option.inject)

lemma card_ids:
  assumes ok: "text_ok flds ti"
  shows "card {i. \<exists>k. jget (keyToId ti) k = Some i \<and> P k} = card {k. jget (keyToId ti) k \<noteq> None \<and> P k}"
proof -
  have "bij_betw (\<lambda>k. the (jget (keyToId ti) k)) {k. jget (keyToId ti) k \<noteq> None \<and> P k} {i. \<exists>k. jget (keyToId ti) k = Some i \<and> P k}"
    unfolding bij_betw_def
  proof
    show "inj_on (\<lambda>k. the (jget (keyToId ti) k)) {k. jget (keyToId ti) k \<noteq> None \<and> P k}"
      by (rule inj_onI) (auto dest: key_unique [OF ok])
  qed force
  then show ?thesis by (simp add: bij_betw_same_card)
qed

lemma length_lists_term:
  assumes ok: "text_ok flds ti" and v: "text_view ti = ix_content (text_content lower flds) M"
    and m: "lists_term ti t m"
  shows "length m = doc_frequency (doc_tokens lower flds) M t"
proof -
  have "length m = card (fst ` set m)" using m distinct_card [of "jkeys m"] by (simp add: lists_term_def jmap_ok_def)
  also have "fst ` set m = {i. jget m i \<noteq> None}" by (auto simp: jget_None_iff)
  also have "\<dots> = {i. \<exists>k. jget (keyToId ti) k = Some i \<and> (\<exists>doc. M k = Some doc \<and> t \<in> set (doc_tokens lower flds doc))}"
  proof -
    have "jget m i \<noteq> None \<longleftrightarrow> (\<exists>k. jget (keyToId ti) k = Some i \<and> (\<exists>doc. M k = Some doc \<and> t \<in> set (doc_tokens lower flds doc)))" for i
    proof (cases "is_live ti i")
      case True
      then obtain k where k: "jget (keyToId ti) k = Some i" using live_number [OF ok] by blast
      then obtain doc where d: "M k = Some doc" using view_records(1) [OF ok v, of k] by (cases "M k") auto
      have "jget m i \<noteq> None \<longleftrightarrow> t \<in> set (doc_tokens lower flds doc)"
        using m True view_records(2) [OF ok v k d, of t] by (simp add: lists_term_def)
      moreover have "(\<exists>k'. jget (keyToId ti) k' = Some i \<and> (\<exists>doc. M k' = Some doc \<and> t \<in> set (doc_tokens lower flds doc))) \<longleftrightarrow>
          t \<in> set (doc_tokens lower flds doc)" (is "?L \<longleftrightarrow> ?R")
      proof
        assume ?L
        then obtain k' doc' where "jget (keyToId ti) k' = Some i" "M k' = Some doc'" "t \<in> set (doc_tokens lower flds doc')" by blast
        then show ?R using key_unique [OF ok k, of k'] d by simp
      next
        assume ?R
        then show ?L using k d by blast
      qed
      ultimately show ?thesis by blast
    next
      case False
      then show ?thesis using m live_number [OF ok, of i] by (auto simp: lists_term_def)
    qed
    then show ?thesis by blast
  qed
  also have "card \<dots> = card {k. jget (keyToId ti) k \<noteq> None \<and> (\<exists>doc. M k = Some doc \<and> t \<in> set (doc_tokens lower flds doc))}"
    by (rule card_ids [OF ok])
  also have "{k. jget (keyToId ti) k \<noteq> None \<and> (\<exists>doc. M k = Some doc \<and> t \<in> set (doc_tokens lower flds doc))} =
      {k. \<exists>doc. M k = Some doc \<and> t \<in> set (doc_tokens lower flds doc)}"
    using view_records(1) [OF ok v] by auto
  finally show ?thesis by (simp add: doc_frequency_def)
qed

lemma number_of_docs:
  assumes ok: "text_ok flds ti" and v: "text_view ti = ix_content (text_content lower flds) M"
  shows "ti_N ti = int (card (dom M))"
proof -
  have "length (keyToId ti) = card (fst ` set (keyToId ti))"
    using text_okD(3) [OF ok] distinct_card [of "jkeys (keyToId ti)"] by (simp add: jmap_ok_def)
  also have "fst ` set (keyToId ti) = dom M"
  proof (rule set_eqI)
    show "k \<in> fst ` set (keyToId ti) \<longleftrightarrow> k \<in> dom M" for k
      using view_records(1) [OF ok v, of k] unfolding jget_None_iff by (cases "M k") auto
  qed
  finally show ?thesis using text_okD(12) [OF ok] by simp
qed

end
