(* ===== verification/TextBuild.thy ===== *)
theory TextBuild
  imports TextSearch
begin

text \<open>
  The scores of a search and the rebuild of a full-text index, and what a search answers after them.
\<close>

section \<open>Scores by the records\<close>

lemma count_list_pos: "x \<in> set xs \<Longrightarrow> 0 < count_list xs x"
  by (induction xs) auto

lemma lists_term_get:
  assumes ok: "text_ok flds ti" and v: "text_view ti = ix_content (text_content lower flds) M"
    and m: "lists_term ti t m" and k: "jget (keyToId ti) k = Some i" and d: "M k = Some doc"
  shows "jget m i = (if t \<in> set (doc_tokens lower flds doc) then Some (count_list (doc_tokens lower flds doc) t) else None)"
proof -
  have "is_live ti i" using live_number [OF ok] k by blast
  then show ?thesis using m view_records(2) [OF ok v k d, of t] by (simp add: lists_term_def)
qed

lemma doc_score_eq:
  assumes ok: "text_ok flds ti" and v: "text_view ti = ix_content (text_content lower flds) M"
    and ms: "\<forall>(t, m) \<in> set ms. lists_term ti t m" and k: "jget (keyToId ti) k = Some i" and d: "M k = Some doc"
  shows "doc_score (ti_N ti) (docLen ti) ms i = tf_idf (doc_tokens lower flds) M (map fst ms) doc"
proof -
  let ?toks = "doc_tokens lower flds doc"
  define A where "A = (\<lambda>m :: freqs. case jget m i of None \<Rightarrow> 0
        | Some f \<Rightarrow> if f = 0 then 0 else real f / real (length ?toks) * idf (ti_N ti) (length m))"
  define B where "B = (\<lambda>t. if t \<in> set ?toks then real (count_list ?toks t) / real (length ?toks) *
         ln (1 + real (card (dom M)) / real (doc_frequency (doc_tokens lower flds) M t)) else 0)"
  have "A m = B t" if tm: "(t, m) \<in> set ms" for t m
  proof -
    have lt: "lists_term ti t m" using ms tm by blast
    note g = lists_term_get [OF ok v lt k d]
    show ?thesis
    proof (cases "t \<in> set ?toks")
      case True
      then have "m \<noteq> []" using g by auto
      then have "doc_frequency (doc_tokens lower flds) M t \<noteq> 0" using length_lists_term [OF ok v lt] by (metis length_0_conv)
      then show ?thesis
        using g True count_list_pos [OF True]
        by (simp add: A_def B_def idf_def number_of_docs [OF ok v] length_lists_term [OF ok v lt])
    qed (use g in \<open>simp add: A_def B_def\<close>)
  qed
  then have "map (\<lambda>(t, m). A m) ms = map (\<lambda>(t, m). B t) ms" by (intro map_cong) auto
  also have "\<dots> = map B (map fst ms)" by (simp add: case_prod_beta o_def)
  finally have "sum_list (map (\<lambda>(t, m). A m) ms) = sum_list (map B (map fst ms))" by (rule arg_cong)
  moreover have "jget (docLen ti) i = Some (length ?toks)" using view_records(2) [OF ok v k d] by blast
  ultimately show ?thesis by (simp add: doc_score_def tf_idf_def A_def B_def)
qed

lemma tf_idf_pos:
  assumes "0 < card (dom M)" "t \<in> set qs" "t \<in> set (toks doc)" "\<And>t. t \<in> set (toks doc) \<Longrightarrow> 0 < doc_frequency toks M t"
  shows "0 < tf_idf toks M qs doc"
proof -
  let ?g = "\<lambda>t. if t \<in> set (toks doc) then real (count_list (toks doc) t) / real (length (toks doc)) *
      ln (1 + real (card (dom M)) / real (doc_frequency toks M t)) else 0"
  have l: "0 < ln (1 + real (card (dom M)) / real (doc_frequency toks M u))" if "u \<in> set (toks doc)" for u
    using assms(1) assms(4) [OF that] by (intro ln_gt_zero) simp
  have pos: "0 < ?g u" if "u \<in> set (toks doc)" for u
    using l [OF that] count_list_pos [OF that] that by (auto intro!: mult_pos_pos divide_pos_pos)
  then have "0 \<le> ?g u" for u by (cases "u \<in> set (toks doc)") (auto intro: less_imp_le)
  then have "0 < sum_list (map ?g qs)" using sum_list_pos [of qs ?g t] pos [OF assms(3)] assms(2) by blast
  then show ?thesis by (simp add: tf_idf_def)
qed

lemma doc_frequency_pos:
  assumes "finite (dom M)" "M k = Some doc" "t \<in> set (toks doc)"
  shows "0 < doc_frequency toks M t"
proof -
  have "finite {k. \<exists>doc. M k = Some doc \<and> t \<in> set (toks doc)}"
    by (rule finite_subset [OF _ assms(1)]) auto
  then show ?thesis using assms(2,3) by (auto simp: doc_frequency_def card_gt_0_iff)
qed

lemma view_finite:
  assumes ok: "text_ok flds ti" and v: "text_view ti = ix_content (text_content lower flds) M"
  shows "finite (dom M)"
proof -
  have "dom M \<subseteq> fst ` set (keyToId ti)"
  proof
    fix k assume "k \<in> dom M"
    then show "k \<in> fst ` set (keyToId ti)" using view_records(1) [OF ok v, of k] jget_None_iff [of "keyToId ti" k] by auto
  qed
  then show ?thesis by (rule finite_subset) simp
qed

section \<open>The list of hits\<close>

lemma set_map_filter: "set (List.map_filter f xs) = {y. \<exists>x \<in> set xs. f x = Some y}"
  by (induction xs) (auto simp: List.map_filter_simps split: option.splits)

lemma distinct_map_filter:
  "distinct xs \<Longrightarrow> (\<And>x x' y y'. x \<in> set xs \<Longrightarrow> x' \<in> set xs \<Longrightarrow> f x = Some y \<Longrightarrow> f x' = Some y' \<Longrightarrow> g y = g y' \<Longrightarrow> x = x') \<Longrightarrow>
     distinct (map g (List.map_filter f xs))"
proof (induction xs)
  case (Cons x xs)
  have "distinct (map g (List.map_filter f xs))" using Cons.prems by (intro Cons.IH) auto
  moreover have "g y \<notin> g ` set (List.map_filter f xs)" if "f x = Some y" for y
  proof
    assume "g y \<in> g ` set (List.map_filter f xs)"
    then obtain x' y' where "x' \<in> set xs" "f x' = Some y'" "g y = g y'" by (auto simp: set_map_filter)
    then have "x = x'" using Cons.prems(2) [of x x' y y'] that by simp
    then show False using Cons.prems(1) \<open>x' \<in> set xs\<close> by simp
  qed
  ultimately show ?case by (auto simp: List.map_filter_simps split: option.splits)
qed (simp add: List.map_filter_simps)

text \<open>The candidates are the numbers of the records that match.\<close>

definition candidates :: "search_op option \<Rightarrow> (jstr \<times> freqs) list \<Rightarrow> nat list" where
  "candidates op ms = (if op = Some OR_op then candidates_or ms else candidates_and ms)"

lemma candidates_match:
  assumes ok: "text_ok flds ti" and v: "text_view ti = ix_content (text_content lower flds) M"
    and ms: "ms \<noteq> []" "\<forall>(t, m) \<in> set ms. lists_term ti t m"
  shows "i \<in> set (candidates op ms) \<longleftrightarrow> (\<exists>k doc. jget (keyToId ti) k = Some i \<and> M k = Some doc \<and>
      text_matches (doc_tokens lower flds) op (map fst ms) doc)"
    "distinct (candidates op ms)"
proof -
  have j: "\<forall>(t, m) \<in> set ms. jmap_ok m" using ms(2) by (auto simp: lists_term_def)
  show "distinct (candidates op ms)" using candidates_or_set(2) candidates_and_set(2) [OF ms(1) j] by (simp add: candidates_def)
  have set_cs: "i \<in> set (candidates op ms) \<longleftrightarrow> (if op = Some OR_op then \<exists>(t, m) \<in> set ms. jget m i \<noteq> None else \<forall>(t, m) \<in> set ms. jget m i \<noteq> None)"
    using candidates_or_set(1) candidates_and_set(1) [OF ms(1) j] by (simp add: candidates_def)
  show "i \<in> set (candidates op ms) \<longleftrightarrow> (\<exists>k doc. jget (keyToId ti) k = Some i \<and> M k = Some doc \<and>
      text_matches (doc_tokens lower flds) op (map fst ms) doc)"
  proof (cases "is_live ti i")
    case True
    then obtain k where k: "jget (keyToId ti) k = Some i" using live_number [OF ok] by blast
    then obtain doc where d: "M k = Some doc" using view_records(1) [OF ok v, of k] by (cases "M k") auto
    have "jget m i \<noteq> None \<longleftrightarrow> t \<in> set (doc_tokens lower flds doc)" if "(t, m) \<in> set ms" for t m
    proof -
      have "lists_term ti t m" using ms(2) that by blast
      from lists_term_get [OF ok v this k d] show ?thesis by simp
    qed
    then have e: "(case x of (t, m) \<Rightarrow> jget m i \<noteq> None) \<longleftrightarrow> fst x \<in> set (doc_tokens lower flds doc)" if "x \<in> set ms" for x
      using that by (cases x) simp
    have "i \<in> set (candidates op ms) \<longleftrightarrow> text_matches (doc_tokens lower flds) op (map fst ms) doc"
      unfolding set_cs text_matches_def set_map bex_simps ball_simps
      by (intro if_cong bex_cong ball_cong refl e)
    moreover have "(\<exists>k' doc'. jget (keyToId ti) k' = Some i \<and> M k' = Some doc' \<and>
        text_matches (doc_tokens lower flds) op (map fst ms) doc') \<longleftrightarrow> text_matches (doc_tokens lower flds) op (map fst ms) doc"
      (is "?L \<longleftrightarrow> ?R")
    proof
      assume ?L
      then obtain k' doc' where k': "jget (keyToId ti) k' = Some i" "M k' = Some doc'"
        "text_matches (doc_tokens lower flds) op (map fst ms) doc'" by blast
      have "k' = k" by (rule key_unique [OF ok k'(1) k])
      then show ?R using k'(2,3) d by simp
    next
      assume ?R
      then show ?L using k d by blast
    qed
    ultimately show ?thesis by blast
  next
    case False
    then have n: "\<not> (case x of (t, m) \<Rightarrow> jget m i \<noteq> None)" if "x \<in> set ms" for x
      using bspec [OF ms(2) that] by (cases x) (simp add: lists_term_def)
    have "hd ms \<in> set ms" using ms(1) by simp
    have "i \<notin> set (candidates op ms)"
    proof (cases "op = Some OR_op")
      case True
      show ?thesis unfolding set_cs if_P [OF True]
      proof (rule notI, erule bexE)
        fix x assume x: "x \<in> set ms" "case x of (t, m) \<Rightarrow> jget m i \<noteq> None"
        show False by (rule notE [OF n [OF x(1)] x(2)])
      qed
    next
      case False
      show ?thesis unfolding set_cs if_not_P [OF False]
        using n [OF \<open>hd ms \<in> set ms\<close>] bspec [OF _ \<open>hd ms \<in> set ms\<close>] by (rule contrapos_nn)
    qed
    then show ?thesis using False live_number [OF ok, of i] by blast
  qed
qed

lemma scored_get:
  assumes ok: "text_ok flds ti" and k: "jget (keyToId ti) k = Some i"
  shows "nth_or None (ti_keys ti) (Some i) = Some k"
  using text_okD(4) [OF ok, of k i] k by (simp add: nth_or_def)

definition hits_of :: "(jsv \<Rightarrow> jstr list) \<Rightarrow> (kstr \<Rightarrow> jsv option) \<Rightarrow> search_op option \<Rightarrow> jstr list \<Rightarrow> (kstr \<times> real) set" where
  "hits_of toks M op qs = {(k, tf_idf toks M qs doc) | k doc. M k = Some doc \<and> text_matches toks op qs doc}"

lemma scored_hits:
  assumes ok: "text_ok flds ti" and v: "text_view ti = ix_content (text_content lower flds) M"
    and ms: "ms \<noteq> []" "\<forall>(t, m) \<in> set ms. lists_term ti t m"
  shows "set (scored ti ms (candidates op ms)) = hits_of (doc_tokens lower flds) M op (map fst ms)"
    "distinct (map fst (scored ti ms (candidates op ms)))"
proof -
  let ?toks = "doc_tokens lower flds" and ?qs = "map fst ms"
  let ?f = "\<lambda>i. let score = doc_score (ti_N ti) (docLen ti) ms i in
        if score > 0 then map_option (\<lambda>k. (k, score)) (nth_or None (ti_keys ti) (Some i)) else None"
  have fin: "finite (dom M)" by (rule view_finite [OF ok v])
  have f: "?f i = Some (k, tf_idf ?toks M ?qs doc)"
    if k: "jget (keyToId ti) k = Some i" and d: "M k = Some doc" and t: "text_matches ?toks op ?qs doc" for i k doc
  proof -
    have "\<exists>t \<in> set ?qs. t \<in> set (?toks doc)" using t ms(1) unfolding text_matches_def by (cases ms) (auto split: if_splits)
    then obtain u where u: "u \<in> set ?qs" "u \<in> set (?toks doc)" by blast
    have "0 < card (dom M)" using fin d by (auto simp: card_gt_0_iff)
    then have "0 < tf_idf ?toks M ?qs doc" using u doc_frequency_pos [of M k doc _ ?toks, OF fin d] by (rule tf_idf_pos)
    then show ?thesis by (simp add: doc_score_eq [OF ok v ms(2) k d] scored_get [OF ok k])
  qed
  note mem = candidates_match(1) [OF ok v ms, of _ op]
  show "set (scored ti ms (candidates op ms)) = hits_of ?toks M op ?qs"
  proof (intro set_eqI iffI)
    fix h assume "h \<in> set (scored ti ms (candidates op ms))"
    then obtain i where i: "i \<in> set (candidates op ms)" "?f i = Some h" by (auto simp: scored_def set_map_filter)
    from i(1) obtain k doc where "jget (keyToId ti) k = Some i" "M k = Some doc" "text_matches ?toks op ?qs doc"
      unfolding mem by blast
    with f i(2) show "h \<in> hits_of ?toks M op ?qs" by (auto simp: hits_of_def)
  next
    fix h assume "h \<in> hits_of ?toks M op ?qs"
    then obtain k doc where h: "h = (k, tf_idf ?toks M ?qs doc)" "M k = Some doc" "text_matches ?toks op ?qs doc"
      by (auto simp: hits_of_def)
    then obtain i where i: "jget (keyToId ti) k = Some i" using view_records(1) [OF ok v, of k] by (cases "jget (keyToId ti) k") auto
    then have "i \<in> set (candidates op ms)" unfolding mem using h by blast
    moreover have "?f i = Some h" unfolding h(1) by (rule f [OF i h(2,3)])
    ultimately show "h \<in> set (scored ti ms (candidates op ms))" unfolding scored_def set_map_filter by blast
  qed
  show "distinct (map fst (scored ti ms (candidates op ms)))"
    unfolding scored_def
  proof (rule distinct_map_filter)
    show "distinct (candidates op ms)" by (rule candidates_match(2) [OF ok v ms])
    fix i j h h'
    assume a: "i \<in> set (candidates op ms)" "j \<in> set (candidates op ms)" "?f i = Some h" "?f j = Some h'" "fst h = fst h'"
    have "jget (keyToId ti) (fst h) = Some i" if i: "i \<in> set (candidates op ms)" and h: "?f i = Some h" for i h
    proof -
      obtain k doc where k: "jget (keyToId ti) k = Some i" "M k = Some doc" "text_matches ?toks op ?qs doc"
        using i unfolding mem by blast
      show ?thesis using f [OF k] h k(1) by simp
    qed
    from this [OF a(1,3)] this [OF a(2,4)] a(5) show "i = j" by simp
  qed
qed

lemma text_search_ok:
  assumes ok: "text_ok flds ti" and v: "text_view ti = ix_content (text_content lower flds) M"
    and qs: "set_of (tokenize lower q) = qs" "qs \<noteq> []"
  obtains all c where
    "text_search lower q op limit ti = (Inr (take (case limit of None \<Rightarrow> 50 | Some n \<Rightarrow> n) all), ti\<lparr> ti_cache := c \<rparr>)"
    "set all = hits_of (doc_tokens lower flds) M op qs" "distinct (map fst all)" "sorted (map (\<lambda>h. - snd h) all)"
    "text_ok flds (ti\<lparr> ti_cache := c \<rparr>)"
proof -
  obtain ms c where ms: "term_maps qs ti = (Inr ms, ti\<lparr> ti_cache := c \<rparr>)" "map fst ms = qs"
    "\<forall>(t, m) \<in> set ms. lists_term ti t m" "text_ok flds (ti\<lparr> ti_cache := c \<rparr>)"
    using term_maps_ok [OF ok] by blast
  let ?ti = "ti\<lparr> ti_cache := c \<rparr>"
  let ?all = "sort_key (\<lambda>h. - snd h) (scored ?ti ms (candidates op ms))"
  have ne: "ms \<noteq> []" using ms(2) qs(2) by auto
  have v': "text_view ?ti = ix_content (text_content lower flds) M" using v by simp
  have ms': "\<forall>(t, m) \<in> set ms. lists_term ?ti t m" using ms(3) by simp
  note sh = scored_hits [OF ms(4) v' ne ms', of op, unfolded ms(2)]
  have "text_search lower q op limit ti = (Inr (take (case limit of None \<Rightarrow> 50 | Some n \<Rightarrow> n) ?all), ?ti)"
    by (simp add: text_search_def Let_def qs ms(1) candidates_def)
  moreover have "distinct (map fst ?all)" using sh(2) by (simp add: distinct_map)
  ultimately show ?thesis using that [of ?all c] sh(1) ms(4) by simp
qed

section \<open>Terms fit the postings file\<close>

lemma match_runs_sat: "list_all P cur \<Longrightarrow> t \<in> set (match_runs P cur cs) \<Longrightarrow> list_all P t"
proof (induction cs arbitrary: cur)
  case Nil
  then show ?case by (simp split: if_splits)
next
  case (Cons c cs)
  show ?case
  proof (cases "P c")
    case True
    then show ?thesis using Cons.IH [of "c # cur"] Cons.prems by simp
  next
    case False
    then show ?thesis using Cons.IH [of "[]"] Cons.prems by (auto split: if_splits)
  qed
qed

lemma cjk_terms_small: "t \<in> set (cjk_terms cs) \<Longrightarrow> length t \<le> 2 \<and> set t \<subseteq> set cs"
  by (induction cs rule: cjk_terms.induct) auto

lemma length_concat_le: "(\<And>x. x \<in> set xs \<Longrightarrow> length x \<le> n) \<Longrightarrow> length (concat xs) \<le> n * length xs"
  by (induction xs) (auto simp: add_mono)

lemma token_fits: "t \<in> set (tokenize lower s) \<Longrightarrow> length (utf8 t) \<le> 0xffff"
proof -
  assume "t \<in> set (tokenize lower s)"
  then consider (latin) "t \<in> set (match_runs is_latin [] (lower s))" "length t \<le> MAX_TERM_CHARS"
    | (cjk) run where "run \<in> set (match_runs is_cjk [] (lower s))" "t \<in> set (cjk_terms run)"
    by (auto simp: tokenize_def Let_def)
  then show ?thesis
  proof cases
    case latin
    have "list_all is_latin t" by (rule match_runs_sat [OF _ latin(1)]) simp
    then have "list_all (\<lambda>c. c < 0x80) t" by (auto simp: list_all_iff is_latin_def is_digit_def)
    then show ?thesis using latin(2) by (simp add: utf8_ascii MAX_TERM_CHARS_def)
  next
    case cjk
    have r: "list_all is_cjk run" by (rule match_runs_sat [OF _ cjk(1)]) simp
    have t: "length t \<le> 2" "set t \<subseteq> set run" using cjk_terms_small [OF cjk(2)] by auto
    have "list_all (\<lambda>c. \<not> high_surrogate c \<and> \<not> low_surrogate c) t"
      unfolding list_all_iff
    proof
      fix c assume "c \<in> set t"
      then have "is_cjk c" using r t(2) by (auto simp: list_all_iff)
      then show "\<not> high_surrogate c \<and> \<not> low_surrogate c" by (auto simp: is_cjk_def high_surrogate_def low_surrogate_def)
    qed
    then have "length (utf8 t) = length (concat (map utf8_point t))" by (simp add: utf8_plain)
    also have "\<dots> \<le> 4 * length (map utf8_point t)" by (rule length_concat_le) (auto simp: utf8_point_def)
    finally show ?thesis using t(1) by simp
  qed
qed

section \<open>The lists a rebuild stages\<close>

definition agg_ok :: "staged \<Rightarrow> bool" where
  "agg_ok st \<longleftrightarrow> jmap_ok (s_agg st) \<and> (\<forall>t \<in> fst ` set (s_agg st). length (utf8 t) \<le> 0xffff) \<and>
     (\<forall>t. sorted_wrt (<) (map fst (posting_map (s_agg st) t)) \<and>
        (\<forall>(i, f) \<in> set (posting_map (s_agg st) t). i < length (s_keys st) \<and> f < 2 ^ 32))"

lemma count_list_le: "count_list xs x \<le> length xs"
  by (induction xs) auto

lemma post_counts_keys: "fst ` set (post_counts i counts agg) \<subseteq> fst ` set agg \<union> fst ` set counts"
  unfolding post_counts_def
proof (induction counts arbitrary: agg)
  case (Cons p counts)
  obtain t c where p: "p = (t, c)" by (cases p)
  have "fst ` set (jset t (jset i c (case jget agg t of None \<Rightarrow> [] | Some m \<Rightarrow> m)) agg) = insert t (fst ` set agg)"
    by (rule set_jkeys_set)
  then show ?case using Cons.IH [of "jset t (jset i c (case jget agg t of None \<Rightarrow> [] | Some m \<Rightarrow> m)) agg"] by (auto simp: p)
qed simp

lemma stage_agg_ok:
  assumes ok: "agg_ok st" and small: "length (doc_tokens lower flds (snd e)) < 2 ^ 32"
  shows "agg_ok (stage lower flds e st)"
proof -
  let ?toks = "doc_tokens lower flds (snd e)" and ?n = "length (s_keys st)" and ?st = "stage lower flds e st"
  have f: "s_agg ?st = post_counts ?n (count_tokens ?toks) (s_agg st)" "s_keys ?st = s_keys st @ [Some (fst e)]"
    by (simp_all add: stage_def Let_def doc_tokens_def)
  have pm: "posting_map (s_agg ?st) t = posting_map (s_agg st) t @ (if t \<in> set ?toks then [(?n, count_list ?toks t)] else [])" for t
  proof -
    have "?n \<notin> fst ` set (posting_map (s_agg st) t)" using ok unfolding agg_ok_def by fastforce
    then have "jget (posting_map (s_agg st) t) ?n = None" by (simp add: jget_None_iff)
    then show ?thesis by (simp add: f post_counts_map count_tokens_get jset_absent jget_None_iff)
  qed
  have keys: "fst ` set (count_tokens ?toks) = set ?toks"
  proof (rule set_eqI)
    show "t \<in> fst ` set (count_tokens ?toks) \<longleftrightarrow> t \<in> set ?toks" for t
      using jget_None_iff [of "count_tokens ?toks" t] unfolding count_tokens_get by (cases "t \<in> set ?toks") simp_all
  qed
  have "\<forall>t \<in> fst ` set (s_agg ?st). length (utf8 t) \<le> 0xffff"
  proof
    fix t assume "t \<in> fst ` set (s_agg ?st)"
    then have "t \<in> fst ` set (s_agg st) \<or> t \<in> set ?toks"
      using post_counts_keys [of ?n "count_tokens ?toks" "s_agg st"] unfolding f keys by blast
    then show "length (utf8 t) \<le> 0xffff" using ok token_fits unfolding agg_ok_def doc_tokens_def by blast
  qed
  moreover have "jmap_ok (s_agg ?st)" using ok by (simp add: f agg_ok_def post_counts_ok)
  moreover have "sorted_wrt (<) (map fst (posting_map (s_agg ?st) t))" for t
    using ok unfolding pm agg_ok_def by (fastforce simp: sorted_wrt_append)
  moreover have "\<forall>(i, f) \<in> set (posting_map (s_agg ?st) t). i < length (s_keys ?st) \<and> f < 2 ^ 32" for t
  proof -
    have "count_list ?toks t < 2 ^ 32" using count_list_le [of ?toks t] small by linarith
    moreover have "\<forall>(i, f) \<in> set (posting_map (s_agg st) t). i < ?n \<and> f < 2 ^ 32" using ok unfolding agg_ok_def by blast
    ultimately show ?thesis unfolding pm unfolding f by fastforce
  qed
  ultimately show ?thesis unfolding agg_ok_def by blast
qed

lemma ascending_postings:
  "sorted_wrt (<) (map fst m) \<Longrightarrow> \<forall>(i, f) \<in> set m. prev \<le> i \<and> i < n \<and> f < 2 ^ 32 \<Longrightarrow> n < 2 ^ 32 \<Longrightarrow> postings_from prev m"
proof (induction m arbitrary: prev)
  case (Cons p m)
  obtain i f where p: "p = (i, f)" by (cases p)
  have "i \<le> j \<and> j < n \<and> g < 2 ^ 32" if "(j, g) \<in> set m" for j g
    using Cons.prems(1,2) that by (fastforce simp: p)
  then have "postings_from i m" using Cons.prems(1,3) by (intro Cons.IH) (auto simp: p)
  then show ?case using Cons.prems(2,3) by (simp add: p)
qed simp

lemma ascending_length:
  assumes "sorted_wrt (<) (map fst m)" "\<forall>(i, f) \<in> set m. i < (n :: nat)"
  shows "length m \<le> n"
proof -
  have "distinct (map fst m)" using assms(1) strict_sorted_iff by blast
  then have "length m = card (fst ` set m)" using distinct_card by fastforce
  also have "\<dots> \<le> card {..<n}" using assms(2) by (intro card_mono) auto
  finally show ?thesis by simp
qed

lemma agg_term_ok:
  assumes ok: "agg_ok st" and n: "length (s_keys st) < 2 ^ 28" and e: "(t, m) \<in> set (s_agg st)"
  shows "term_ok (t, m)" "posting_map (s_agg st) t = m"
proof -
  have "jget (s_agg st) t = Some m" using ok e by (auto simp: agg_ok_def jmap_ok_def)
  then show m: "posting_map (s_agg st) t = m" by (simp add: posting_map_def)
  have a: "sorted_wrt (<) (map fst m)" "\<forall>(i, f) \<in> set m. i < length (s_keys st) \<and> f < 2 ^ 32"
    using ok m unfolding agg_ok_def by blast+
  have "postings_from 0 m" using a n by (intro ascending_postings [where n = "length (s_keys st)"]) auto
  moreover have "length m \<le> length (s_keys st)" by (rule ascending_length [OF a(1)]) (use a(2) in auto)
  moreover have "length (utf8 t) \<le> 0xffff" using ok e unfolding agg_ok_def by force
  ultimately show "term_ok (t, m)" using n by (simp add: term_ok_def postings_ok_def)
qed

section \<open>A rebuild holds the records\<close>

text \<open>Staging a record does what adding it to an empty index does.\<close>

definition staged_of :: "text_index \<Rightarrow> staged" where
  "staged_of ti = \<lparr> s_agg = delta ti, s_keys = ti_keys ti, s_keyToId = keyToId ti, s_docLen = docLen ti \<rparr>"

lemma text_add_stage:
  "jget (keyToId ti) (fst e) = None \<Longrightarrow>
     staged_of (text_add lower (fst e) (snd e) ti) = stage lower (ti_fields ti) e (staged_of ti)"
  by (simp add: staged_of_def stage_def text_add_def Let_def)

lemma fold_stage:
  "text_ok flds ti \<Longrightarrow> distinct (map fst es) \<Longrightarrow> \<forall>e \<in> set es. jget (keyToId ti) (fst e) = None \<Longrightarrow>
     staged_of (fold (\<lambda>(k, d). text_add lower k d) es ti) = fold (stage lower flds) es (staged_of ti) \<and>
     removed (fold (\<lambda>(k, d). text_add lower k d) es ti) = removed ti"
proof (induction es arbitrary: ti)
  case (Cons e es)
  obtain k d where e: "e = (k, d)" by (cases e)
  let ?ti = "text_add lower k d ti"
  have ok: "text_ok flds ?ti" using text_add_ok [OF Cons.prems(1)] by blast
  have n: "jget (keyToId ti) k = None" using Cons.prems(3) by (simp add: e)
  have "keyToId ?ti = jset k (length (ti_keys ti)) (keyToId ti)" "removed ?ti = removed ti"
    by (simp_all add: text_add_def n Let_def)
  moreover from this(1) have "\<forall>e \<in> set es. jget (keyToId ?ti) (fst e) = None" using Cons.prems(2,3) by (auto simp: e)
  ultimately show ?case using Cons.IH [OF ok] Cons.prems(2) text_add_stage [of ti e lower] n text_okD(1) [OF Cons.prems(1)]
    by (simp add: e)
qed simp

definition stage_all :: "(jstr \<Rightarrow> jstr) \<Rightarrow> jstr list option \<Rightarrow> (kstr \<times> jsv) list \<Rightarrow> staged" where
  "stage_all lower flds es = fold (stage lower flds) es \<lparr> s_agg = [], s_keys = [], s_keyToId = [], s_docLen = [] \<rparr>"

lemma stage_all_agg:
  assumes "\<forall>e \<in> set es. length (doc_tokens lower flds (snd e)) < 2 ^ 32"
  shows "agg_ok (stage_all lower flds es)" "length (s_keys (stage_all lower flds es)) = length es"
proof -
  have "agg_ok st \<Longrightarrow> \<forall>e \<in> set es. length (doc_tokens lower flds (snd e)) < 2 ^ 32 \<Longrightarrow>
      agg_ok (fold (stage lower flds) es st)" for es st
  proof (induction es arbitrary: st)
    case (Cons e es)
    then show ?case using stage_agg_ok [of st lower flds e] by simp
  qed simp
  moreover have "agg_ok \<lparr> s_agg = [], s_keys = [], s_keyToId = [], s_docLen = [] \<rparr>" by (simp add: agg_ok_def posting_map_def)
  ultimately show "agg_ok (stage_all lower flds es)" unfolding stage_all_def using assms by blast
  have "length (s_keys (fold (stage lower flds) es st)) = length (s_keys st) + length es" for st
    by (induction es arbitrary: st) (simp_all add: stage_def Let_def)
  then show "length (s_keys (stage_all lower flds es)) = length es" by (simp add: stage_all_def)
qed

lemma staged_mem:
  assumes "distinct (map fst es)"
  obtains tm where "text_ok flds tm" "text_view tm = ix_content (text_content lower flds) (map_of es)"
    "staged_of tm = stage_all lower flds es" "base tm = (\<lambda>t. [])" "ti_N tm = int (length es)" "removed tm = []"
proof -
  let ?t0 = "new_text_index flds None None"
  let ?tm = "fold (\<lambda>(k, d). text_add lower k d) es ?t0"
  have "text_ok flds ?tm \<and> text_view ?tm = ix_content (text_content lower flds) (map_of es)"
    by (rule txix.rebuild_view) (use assms in \<open>simp_all add: jmap_ok_def\<close>)
  then have ok: "text_ok flds ?tm" "text_view ?tm = ix_content (text_content lower flds) (map_of es)" by auto
  have "staged_of ?tm = stage_all lower flds es" "removed ?tm = []"
  proof -
    have "staged_of ?tm = fold (stage lower flds) es (staged_of ?t0) \<and> removed ?tm = removed ?t0"
      by (rule fold_stage [OF new_text_ok(1)]) (use assms in \<open>simp_all add: new_text_index_def\<close>)
    then show "staged_of ?tm = stage_all lower flds es" "removed ?tm = []"
      by (simp_all add: stage_all_def staged_of_def new_text_index_def)
  qed
  moreover have "memBase (fold (\<lambda>(k, d). text_add lower k d) es ti) = memBase ti" for ti
    by (induction es arbitrary: ti) (auto simp: text_add_def text_remove_def Let_def split: option.splits)
  then have "base ?tm = (\<lambda>t. [])" by (simp add: base_def base_of_def new_text_index_def posting_map_def fun_eq_iff)
  moreover have "ti_N ?tm = int (length es)"
    using number_of_docs [OF ok] distinct_card [OF assms] by (simp add: dom_map_of_conv_image_fst)
  ultimately show ?thesis using that ok by blast
qed

text \<open>An index that took over the staged state, and whose base answers the staged lists, holds the records.\<close>

lemma swap_in_ok:
  assumes es: "distinct (map fst es)" and flds: "ti_fields ti = flds"
    and b: "base ti = posting_map (s_agg (stage_all lower flds es))"
    and rd: "\<And>t e. memBase ti = None \<Longrightarrow> ti_pf ti \<noteq> None \<Longrightarrow> jget (ti_postings ti) t = Some e \<Longrightarrow>
      \<exists>l. pf_read (ti_pf ti) e = Inr l"
  shows "text_ok flds (swap_in (stage_all lower flds es) (length es) ti)"
    "text_view (swap_in (stage_all lower flds es) (length es) ti) = ix_content (text_content lower flds) (map_of es)"
proof -
  obtain tm where tm: "text_ok flds tm" "text_view tm = ix_content (text_content lower flds) (map_of es)"
    "staged_of tm = stage_all lower flds es" "base tm = (\<lambda>t. [])" "ti_N tm = int (length es)" "removed tm = []"
    by (rule staged_mem [OF es])
  note D = text_okD [OF tm(1)]
  let ?ti = "swap_in (stage_all lower flds es) (length es) ti"
  have f: "keyToId ?ti = keyToId tm" "ti_keys ?ti = ti_keys tm" "docLen ?ti = docLen tm" "ti_N ?ti = ti_N tm"
    "removed ?ti = removed tm" "delta ?ti = []" "ti_cache ?ti = []" "ti_fields ?ti = flds"
    using flds tm(6) by (simp_all add: swap_in_def staged_of_def tm(5) flip: tm(3))
  have b': "base ?ti t = posting_map (delta tm) t" for t
    using b by (simp add: swap_in_def base_def staged_of_def flip: tm(3))
  have fr: "freq ?ti = freq tm"
    unfolding freq_def [abs_def] b' tm(4) f(6) by (simp add: posting_map_def fun_eq_iff split: option.splits)
  have live: "is_live ?ti = is_live tm" by (simp add: is_live_def fun_eq_iff f(2))
  show "text_view ?ti = ix_content (text_content lower flds) (map_of es)"
    unfolding tm(2) [symmetric] text_view_def [abs_def] fr f ..
  show "text_ok flds ?ti"
    unfolding text_ok_def f live
  proof (intro conjI allI impI)
    show "read_ok ?ti" unfolding read_ok_def f b' using D(7) rd by (simp add: swap_in_def)
    show "i < length (ti_keys tm)" if "jget (base ?ti t) i \<noteq> None" for t i
      using D(8) [of t i] that by (simp add: b' is_live_def)
    show "set (removed tm) = {i. i < length (ti_keys tm) \<and> ti_keys tm ! i = None}" using D(5) by blast
    show "jmap_ok (keyToId tm)" "jmap_ok (docLen tm)" "ti_N tm = int (length (keyToId tm))" by (rule D)+
    show "(jget (keyToId tm) k = Some i) = (i < length (ti_keys tm) \<and> ti_keys tm ! i = Some k)" for k i by (rule D)
    show "(jget (docLen tm) i \<noteq> None) = is_live tm i" for i by (rule D)
  qed (simp_all add: posting_map_def)
qed

text \<open>With good input and output a rebuild succeeds and the index holds the records.\<close>

definition built :: "(jstr \<Rightarrow> jstr) \<Rightarrow> (nat \<Rightarrow> js_error + nat) \<Rightarrow> (kstr \<times> jsv) list \<Rightarrow> text_index \<Rightarrow> text_index" where
  "built lower io es ti = snd (build lower io None None None es ti)"

lemma build_ok:
  assumes io: "\<forall>n. \<exists>m > 0. io n = Inr m"
    and es: "distinct (map fst es)" "length es < 2 ^ 28" "\<forall>e \<in> set es. length (doc_tokens lower flds (snd e)) < 2 ^ 32"
    and ti: "ti_fields ti = flds" "ti_disk ti \<longleftrightarrow> memBase ti = None"
  shows "fst (build lower io None None None es ti) = None" "text_ok flds (built lower io es ti)"
    "text_view (built lower io es ti) = ix_content (text_content lower flds) (map_of es)"
proof -
  let ?st = "stage_all lower flds es"
  have ag: "agg_ok ?st" "length (s_keys ?st) < 2 ^ 28" using stage_all_agg [OF es(3)] es(2) by simp_all
  have "fst (build lower io None None None es ti) = None \<and> text_ok flds (built lower io es ti) \<and>
    text_view (built lower io es ti) = ix_content (text_content lower flds) (map_of es)"
  proof (cases "ti_disk ti")
    case False
    let ?ti = "ti\<lparr> memBase := Some (s_agg ?st) \<rparr>"
    have r: "build lower io None None None es ti = (None, swap_in ?st (length es) ?ti)"
      by (simp add: build_def Let_def False stage_all_def ti(1))
    have b: "base ?ti = posting_map (s_agg ?st)" by (simp add: base_def base_of_def fun_eq_iff)
    have "text_ok flds (swap_in ?st (length es) ?ti)"
      "text_view (swap_in ?st (length es) ?ti) = ix_content (text_content lower flds) (map_of es)"
      by (rule swap_in_ok [OF es(1) _ b]; simp add: ti(1))+
    then show ?thesis by (simp add: r built_def)
  next
    case True
    have tok: "\<forall>t \<in> set (s_agg ?st). term_ok t" using agg_term_ok(1) [OF ag] by fastforce
    have dist: "distinct (map fst (s_agg ?st))" using ag(1) by (simp add: agg_ok_def jmap_ok_def)
    obtain dict fd where l: "rebuild_loop io 0 (s_agg ?st) [] [] = (Inr dict, [] @ fd)"
      "\<forall>t \<in> set (s_agg ?st). if snd t = [] then jget dict (fst t) = None
         else \<exists>e. jget dict (fst t) = Some e \<and> points_at ([] @ fd) e t"
      "\<forall>k. k \<notin> fst ` set (s_agg ?st) \<longrightarrow> jget dict k = jget [] k"
      using rebuild_loop_ok [OF io tok dist, of "[]" 0 "[]"] by auto
    let ?ti = "ti\<lparr> ti_file := Some fd, ti_postings := dict, ti_pf := Some fd \<rparr>"
    have r: "build lower io None None None es ti = (None, swap_in ?st (length es) ?ti)"
      using l(1) by (simp add: build_def Let_def True rebuildSync_def stage_all_def ti(1))
    have rd: "jget dict t = None \<and> posting_map (s_agg ?st) t = [] \<or>
        (\<exists>e. jget dict t = Some e \<and> pf_read (Some fd) e = Inr (posting_map (s_agg ?st) t))" for t
    proof (cases "t \<in> fst ` set (s_agg ?st)")
      case True
      then obtain m where m: "(t, m) \<in> set (s_agg ?st)" by auto
      note tm = agg_term_ok [OF ag m]
      show ?thesis using bspec [OF l(2) m] points_at_read [OF _ tm(1)] by (cases "m = []") (auto simp: tm(2))
    next
      case False
      then have "jget dict t = None" using l(3) by simp
      moreover have "jget (s_agg ?st) t = None" using False by (simp add: jget_None_iff)
      ultimately show ?thesis by (simp add: posting_map_def)
    qed
    have b: "base ?ti = posting_map (s_agg ?st)"
    proof
      show "base ?ti t = posting_map (s_agg ?st) t" for t
        using rd [of t] True ti(2) by (auto simp: base_def base_of_def)
    qed
    have f: "\<exists>l. pf_read (ti_pf ?ti) e = Inr l" if "jget (ti_postings ?ti) t = Some e" for t e
      using rd [of t] that by auto
    have "text_ok flds (swap_in ?st (length es) ?ti)"
      "text_view (swap_in ?st (length es) ?ti) = ix_content (text_content lower flds) (map_of es)"
      by (rule swap_in_ok [OF es(1) _ b f]; simp add: ti(1))+
    then show ?thesis by (simp add: r built_def)
  qed
  then show "fst (build lower io None None None es ti) = None" "text_ok flds (built lower io es ti)"
    "text_view (built lower io es ti) = ix_content (text_content lower flds) (map_of es)" by auto
qed

section \<open>Properties\<close>

text \<open>C14: What a full-text search answers. Rebuild an index, in memory or on disk, from records, let any
  writes and removals follow, and search: the answer is the first hits, by falling score, of exactly
  the live records whose text has all the terms of the query (some, under OR), each once, and each
  score is the sum over the terms of term frequency by length times the logarithm of one plus records
  by document frequency, all counted over the records that are live now.\<close>

theorem text_search_exact:
  assumes io: "\<forall>n. \<exists>m > 0. io n = Inr m"
    and es: "distinct (map fst es)" "length es < 2 ^ 28" "\<forall>e \<in> set es. length (doc_tokens lower flds (snd e)) < 2 ^ 32"
    and qs: "set_of (tokenize lower q) = qs" "qs \<noteq> []"
  shows "fst (build lower io None None None es (new_text_index flds path climit)) = None \<and>
    (\<exists>all. fst (text_search lower q op limit
                 (fold (ix_step (text_add lower) text_remove) ops (built lower io es (new_text_index flds path climit)))) =
             Inr (take (case limit of None \<Rightarrow> 50 | Some n \<Rightarrow> n) all) \<and>
           set all = hits_of (doc_tokens lower flds) (fold ix_map ops (map_of es)) op qs \<and>
           distinct (map fst all) \<and> sorted (map (\<lambda>h. - snd h) all))"
proof -
  let ?t0 = "new_text_index flds path climit"
  have t0: "ti_fields ?t0 = flds" "ti_disk ?t0 \<longleftrightarrow> memBase ?t0 = None" by (auto simp: new_text_index_def)
  note B = build_ok [OF io es t0]
  let ?ti = "fold (ix_step (text_add lower) text_remove) ops (built lower io es ?t0)"
  have "list_all txix.legal_op ops" by (auto simp: list_all_iff txix.legal_op_def split: ix_op.splits)
  from txix.run_view [OF B(2) this B(3)]
  have ok: "text_ok flds ?ti" and v: "text_view ?ti = ix_content (text_content lower flds) (fold ix_map ops (map_of es))"
    by auto
  obtain all c where
    "text_search lower q op limit ?ti = (Inr (take (case limit of None \<Rightarrow> 50 | Some n \<Rightarrow> n) all), ?ti\<lparr> ti_cache := c \<rparr>)"
    "set all = hits_of (doc_tokens lower flds) (fold ix_map ops (map_of es)) op qs"
    "distinct (map fst all)" "sorted (map (\<lambda>h. - snd h) all)"
    by (rule text_search_ok [OF ok v qs])
  then show ?thesis using B(1) by (intro conjI exI [of _ all]) simp_all
qed

theorem text_search_exact_witness:
  "\<exists>score. fst (text_search id [97, 98] None None
     (fold (ix_step (text_add id) text_remove) [IxPut [107] (JStr [97, 98, 32, 99]), IxDel [108]]
        (built id (\<lambda>n. Inr 1) [([108], JStr [97, 98])] (new_text_index None (Some None) None)))) = Inr [([107], score)]"
proof -
  let ?es = "[([108], JStr [97, 98])] :: (kstr \<times> jsv) list" and ?ops = "[IxPut [107] (JStr [97, 98, 32, 99]), IxDel [108]] :: (kstr, jsv) ix_op list"
  let ?M = "fold ix_map ?ops (map_of ?es)"
  have toks: "doc_tokens id None (JStr [97, 98, 32, 99]) = [[97, 98], [99]]" "tokenize id [97, 98] = [[97, 98]]"
    by (simp_all add: doc_tokens_def text_extract_def tokenize_def is_latin_def is_cjk_def is_digit_def MAX_TERM_CHARS_def)
  have M: "?M = [[107] \<mapsto> JStr [97, 98, 32, 99]]" by (auto simp: fun_eq_iff)
  have "\<forall>e \<in> set ?es. length (doc_tokens id None (snd e)) < 2 ^ 32"
    by (simp add: doc_tokens_def text_extract_def tokenize_def is_latin_def is_cjk_def is_digit_def MAX_TERM_CHARS_def)
  from text_search_exact [OF _ _ _ this, of "\<lambda>n. Inr 1" "[97, 98]" "[[97, 98]]" "Some None" None None None ?ops]
  obtain all where all: "fst (text_search id [97, 98] None None
     (fold (ix_step (text_add id) text_remove) ?ops (built id (\<lambda>n. Inr 1) ?es (new_text_index None (Some None) None)))) = Inr (take 50 all)"
    "set all = hits_of (doc_tokens id None) ?M None [[97, 98]]" "distinct (map fst all)"
    unfolding toks by (auto simp: set_of_def set_add_def)
  obtain sc where "set all = {([107], sc)}"
    unfolding all(2) hits_of_def M by (auto simp: text_matches_def toks)
  moreover have "distinct all" using all(3) by (simp add: distinct_map)
  ultimately have "all = [([107], sc)]" using distinct_card [of all]
    by (metis One_nat_def card.empty card_insert_disjoint empty_iff finite.emptyI length_0_conv length_Suc_conv list.set_intros(1) singletonD)
  then show ?thesis using all(1) by simp
qed

end
