(* ===== verification/DtIndex.thy ===== *)
theory DtIndex
  imports Store DerivedIndex
begin

text \<open>
  The datetime columns of \<open>packages/minidb/src/dt-index.ts\<close>: per column an ordered index by value
  with the record key as tie-break, and per key the values it was indexed under. The column lists
  are the sorted lists the skip list implements (\<open>SkipList.skiplist_refines_sorted_list\<close>). A value
  is a finite number, so the \<open>Number.isFinite\<close> guard of \<open>set\<close> always passes; a record is a list of
  columns in the order of \<open>Object.keys\<close>.
\<close>

section \<open>The index\<close>

record dt_column =
  dc_list :: "(rat \<times> kstr) list"
  dc_byKey :: "(kstr, rat) jmap"

record dt_index =
  dt_cols :: "(jstr, dt_column) jmap"
  dt_byKey :: "(kstr, dt) jmap"

definition new_column :: dt_column where
  "new_column = \<lparr> dc_list = [], dc_byKey = [] \<rparr>"

definition new_dt_index :: dt_index where
  "new_dt_index = \<lparr> dt_cols = [], dt_byKey = [] \<rparr>"

definition dt_col :: "jstr \<Rightarrow> (jstr, dt_column) jmap \<Rightarrow> dt_column \<times> (jstr, dt_column) jmap" where
  "dt_col name cols =
     (case jget cols name of Some c \<Rightarrow> (c, cols) | None \<Rightarrow> (new_column, jset name new_column cols))"

definition dt_unlink :: "kstr \<Rightarrow> jstr \<Rightarrow> rat \<Rightarrow> (jstr, dt_column) jmap \<Rightarrow> (jstr, dt_column) jmap" where
  "dt_unlink key col ms cols =
     (case jget cols col of
        None \<Rightarrow> cols
      | Some c \<Rightarrow>
          let c' = \<lparr> dc_list = oi_delete (ms, key) (dc_list c), dc_byKey = jdel key (dc_byKey c) \<rparr> in
          if dc_byKey c' = [] then jdel col cols else jset col c' cols)"

definition dt_link :: "kstr \<Rightarrow> jstr \<Rightarrow> rat \<Rightarrow> (jstr, dt_column) jmap \<Rightarrow> (jstr, dt_column) jmap" where
  "dt_link key col ms cols =
     (case dt_col col cols of (c, cols') \<Rightarrow>
        jset col \<lparr> dc_list = oi_insert (ms, key) (dc_list c), dc_byKey = jset key ms (dc_byKey c) \<rparr> cols')"

definition dt_set :: "kstr \<Rightarrow> dt option \<Rightarrow> dt_index \<Rightarrow> dt_index" where
  "dt_set key d s =
     (let old = (case jget (dt_byKey s) key of None \<Rightarrow> [] | Some x \<Rightarrow> x);
          nxt = (case d of None \<Rightarrow> [] | Some x \<Rightarrow> x);
          cols1 = fold (\<lambda>(col, ms) cols. if map_of nxt col \<noteq> Some ms then dt_unlink key col ms cols else cols) old (dt_cols s);
          cols2 = fold (\<lambda>(col, ms) cols. if map_of old col = Some ms then cols else dt_link key col ms cols) nxt cols1
      in \<lparr> dt_cols = cols2,
           dt_byKey = (if nxt \<noteq> [] then jset key nxt (dt_byKey s) else jdel key (dt_byKey s)) \<rparr>)"

definition dt_del :: "kstr \<Rightarrow> dt_index \<Rightarrow> dt_index" where
  "dt_del key s =
     (case jget (dt_byKey s) key of
        None \<Rightarrow> s
      | Some old \<Rightarrow>
          \<lparr> dt_cols = fold (\<lambda>(col, ms) cols. dt_unlink key col ms cols) old (dt_cols s),
            dt_byKey = jdel key (dt_byKey s) \<rparr>)"

definition dt_range :: "jstr \<Rightarrow> rat range_options \<Rightarrow> dt_index \<Rightarrow> (kstr \<times> rat) list" where
  "dt_range col r s =
     (case jget (dt_cols s) col of
        None \<Rightarrow> []
      | Some c \<Rightarrow> map (\<lambda>(v, k). (k, v)) (oi_range r (dc_list c)))"

text \<open>What a caller of \<open>iterate\<close> that asks for \<open>m\<close> entries gets.\<close>

definition dt_iterate :: "nat \<Rightarrow> jstr \<Rightarrow> rat range_options \<Rightarrow> dt_index \<Rightarrow> (kstr \<times> rat) list" where
  "dt_iterate m col r s =
     (case jget (dt_cols s) col of
        None \<Rightarrow> []
      | Some c \<Rightarrow> map (\<lambda>(v, k). (k, v)) (take m (oi_range r (dc_list c))))"

definition columns :: "dt_index \<Rightarrow> jstr list" where
  "columns s = jkeys (dt_cols s)"

definition dt_rebuild :: "(kstr \<times> dt option) list \<Rightarrow> dt_index \<Rightarrow> dt_index" where
  "dt_rebuild es s =
     fold (\<lambda>(key, d) s. case d of None \<Rightarrow> s | Some x \<Rightarrow> dt_set key (Some x) s) es
       \<lparr> dt_cols = [], dt_byKey = [] \<rparr>"

section \<open>The invariant\<close>

definition column_ok :: "dt_column \<Rightarrow> bool" where
  "column_ok c \<longleftrightarrow> placed (dc_list c) (jget (dc_byKey c)) \<and> jmap_ok (dc_byKey c) \<and> dc_byKey c \<noteq> []"

text \<open>A column holds the values \<open>g\<close>; the columns those of \<open>f\<close>. No column is empty.\<close>

definition col_holds :: "(kstr \<Rightarrow> rat option) \<Rightarrow> dt_column option \<Rightarrow> bool" where
  "col_holds g oc = (case oc of None \<Rightarrow> g = (\<lambda>k. None) | Some c \<Rightarrow> column_ok c \<and> jget (dc_byKey c) = g)"

definition cols_hold :: "(kstr \<Rightarrow> jstr \<Rightarrow> rat option) \<Rightarrow> (jstr, dt_column) jmap \<Rightarrow> bool" where
  "cols_hold f cols \<longleftrightarrow> jmap_ok cols \<and> (\<forall>col. col_holds (\<lambda>k. f k col) (jget cols col))"

definition dt_view :: "dt_index \<Rightarrow> kstr \<Rightarrow> (jstr \<Rightarrow> rat option) option" where
  "dt_view s k = map_option map_of (jget (dt_byKey s) k)"

definition dt_val :: "dt_index \<Rightarrow> kstr \<Rightarrow> jstr \<Rightarrow> rat option" where
  "dt_val s k col = (case jget (dt_byKey s) k of None \<Rightarrow> None | Some d \<Rightarrow> map_of d col)"

definition dt_ok :: "dt_index \<Rightarrow> bool" where
  "dt_ok s \<longleftrightarrow> jmap_ok (dt_byKey s) \<and> (\<forall>k d. jget (dt_byKey s) k = Some d \<longrightarrow> jmap_ok d \<and> d \<noteq> []) \<and>
     cols_hold (dt_val s) (dt_cols s)"

lemma jmap_empty_iff: "m = [] \<longleftrightarrow> (\<forall>k. jget m k = None)"
  by (cases m) auto

lemma col_holdsD:
  assumes "cols_hold f cols"
  shows "jmap_ok cols" "col_holds (\<lambda>k. f k col) (jget cols col)"
  using assms by (auto simp: cols_hold_def)

lemma cols_hold_upd:
  assumes h: "cols_hold f cols" and ok: "jmap_ok cols'"
    and other: "\<And>col'. col' \<noteq> col \<Longrightarrow> jget cols' col' = jget cols col'"
    and here: "col_holds ((\<lambda>k. f k col)(key := v)) (jget cols' col)"
  shows "cols_hold (f(key := (f key)(col := v))) cols'"
  unfolding cols_hold_def
proof (intro conjI allI ok)
  fix col'
  show "col_holds (\<lambda>k. (f(key := (f key)(col := v))) k col') (jget cols' col')"
  proof (cases "col' = col")
    case True
    moreover have "(\<lambda>k. (f(key := (f key)(col := v))) k col) = (\<lambda>k. f k col)(key := v)"
      by (simp add: fun_eq_iff)
    ultimately show ?thesis using here by simp
  next
    case False
    then have "(\<lambda>k. (f(key := (f key)(col := v))) k col') = (\<lambda>k. f k col')"
      by (simp add: fun_eq_iff)
    with False show ?thesis using col_holdsD(2) [OF h, of col'] by (simp add: other)
  qed
qed

lemma cols_hold_unlink:
  assumes h: "cols_hold f cols" and f: "f key col = Some ms"
  shows "cols_hold (f(key := (f key)(col := None))) (dt_unlink key col ms cols)"
proof -
  obtain c where c: "jget cols col = Some c" "column_ok c" "jget (dc_byKey c) = (\<lambda>k. f k col)"
    using col_holdsD(2) [OF h, of col] f by (auto simp: col_holds_def fun_eq_iff split: option.splits)
  let ?c = "\<lparr> dc_list = oi_delete (ms, key) (dc_list c), dc_byKey = jdel key (dc_byKey c) \<rparr>"
  have l: "placed (dc_list ?c) (jget (dc_byKey ?c))"
    using placed_delete [of "dc_list c" "jget (dc_byKey c)" key ms] c(2) f
    by (simp add: column_ok_def jget_updates c(3) fun_upd_def)
  have g: "jget (dc_byKey ?c) = (\<lambda>k. f k col)(key := None)"
    by (simp only: jget_updates dt_column.simps c(3))
  have ok: "jmap_ok (dc_byKey ?c)" using c(2) by (simp add: column_ok_def)
  show ?thesis
  proof (rule cols_hold_upd [OF h])
    show "jmap_ok (dt_unlink key col ms cols)"
      using col_holdsD(1) [OF h] by (simp add: dt_unlink_def Let_def split: option.splits)
    show "jget (dt_unlink key col ms cols) col' = jget cols col'" if "col' \<noteq> col" for col'
      using that by (simp add: dt_unlink_def Let_def split: option.splits)
    show "col_holds ((\<lambda>k. f k col)(key := None)) (jget (dt_unlink key col ms cols) col)"
    proof (cases "dc_byKey ?c = []")
      case True
      then have "(\<lambda>k. f k col)(key := None) = (\<lambda>k. None)" using g by (simp add: fun_eq_iff)
      with True show ?thesis by (simp add: dt_unlink_def c(1) col_holds_def)
    next
      case False
      with l ok have "column_ok ?c" unfolding column_ok_def by blast
      with False c(3) show ?thesis by (simp add: dt_unlink_def c(1) col_holds_def jget_updates)
    qed
  qed
qed

lemma cols_hold_link:
  assumes h: "cols_hold f cols" and f: "f key col = None"
  shows "cols_hold (f(key := (f key)(col := Some ms))) (dt_link key col ms cols)"
proof -
  obtain c cols' where cc: "dt_col col cols = (c, cols')" by fastforce
  have c: "placed (dc_list c) (jget (dc_byKey c))" "jmap_ok (dc_byKey c)" "jget (dc_byKey c) = (\<lambda>k. f k col)"
    using cc col_holdsD(2) [OF h, of col]
    by (auto simp: dt_col_def new_column_def column_ok_def col_holds_def split: option.splits)
  have m: "jmap_ok cols'" "\<And>col'. col' \<noteq> col \<Longrightarrow> jget cols' col' = jget cols col'"
    using cc col_holdsD(1) [OF h] by (auto simp: dt_col_def split: option.splits)
  let ?c = "\<lparr> dc_list = oi_insert (ms, key) (dc_list c), dc_byKey = jset key ms (dc_byKey c) \<rparr>"
  have l: "placed (dc_list ?c) (jget (dc_byKey ?c))"
    using placed_insert [OF c(1), of key ms] f by (simp add: jget_updates c(3) fun_upd_def)
  have g: "jget (dc_byKey ?c) = (\<lambda>k. f k col)(key := Some ms)"
    by (simp only: jget_updates dt_column.simps c(3))
  have ne: "dc_byKey ?c \<noteq> []" by (cases "dc_byKey c") auto
  have "jmap_ok (dc_byKey ?c)" using c(2) by simp
  with l ne have "column_ok ?c" unfolding column_ok_def by blast
  then show ?thesis
    by (intro cols_hold_upd [OF h]) (use m g in \<open>auto simp: dt_link_def cc col_holds_def jget_updates c(3)\<close>)
qed

text \<open>The two loops of \<open>set\<close>, by the row of values they leave for the key.\<close>

lemma cols_hold_same: "cols_hold f cols \<Longrightarrow> f key = r \<Longrightarrow> cols_hold (f(key := r)) cols"
  by (metis fun_upd_triv)

lemma fold_unlink:
  assumes "cols_hold f cols" "jmap_ok ds" "\<forall>c v. (c, v) \<in> set ds \<longrightarrow> f key c = Some v"
  shows "cols_hold (f(key := (\<lambda>c. case map_of ds c of Some v \<Rightarrow> if Q c v then None else Some v | None \<Rightarrow> f key c)))
    (fold (\<lambda>(col, ms) cols. if Q col ms then dt_unlink key col ms cols else cols) ds cols)"
  using assms
proof (induction ds arbitrary: f cols)
  case Nil
  then show ?case by simp
next
  case (Cons p ds)
  obtain c0 v0 where p: "p = (c0, v0)" by (cases p)
  have c0: "c0 \<notin> fst ` set ds" "jmap_ok ds" "map_of ds c0 = None" and f: "f key c0 = Some v0"
    using Cons.prems by (auto simp: p jget_None_iff)
  define f' where "f' = (if Q c0 v0 then f(key := (f key)(c0 := None)) else f)"
  define cols' where "cols' = (if Q c0 v0 then dt_unlink key c0 v0 cols else cols)"
  have h: "cols_hold f' cols'"
    using Cons.prems(1) cols_hold_unlink [OF Cons.prems(1) f] by (simp add: f'_def cols'_def)
  have "\<forall>c v. (c, v) \<in> set ds \<longrightarrow> f' key c = Some v"
    using Cons.prems(3) c0(1) by (force simp: f'_def p)
  note step = Cons.IH [OF h c0(2) this]
  have "f'(key := (\<lambda>c. case map_of ds c of Some v \<Rightarrow> if Q c v then None else Some v | None \<Rightarrow> f' key c)) =
      f(key := (\<lambda>c. case map_of (p # ds) c of Some v \<Rightarrow> if Q c v then None else Some v | None \<Rightarrow> f key c))"
    using c0(3) f by (auto simp: f'_def p fun_eq_iff split: option.splits)
  with step show ?case by (simp add: p cols'_def)
qed

lemma fold_link:
  assumes "cols_hold f cols" "jmap_ok ds" "\<forall>c v. (c, v) \<in> set ds \<longrightarrow> \<not> Q c v \<longrightarrow> f key c = None"
  shows "cols_hold (f(key := (\<lambda>c. case map_of ds c of Some v \<Rightarrow> if Q c v then f key c else Some v | None \<Rightarrow> f key c)))
    (fold (\<lambda>(col, ms) cols. if Q col ms then cols else dt_link key col ms cols) ds cols)"
  using assms
proof (induction ds arbitrary: f cols)
  case Nil
  then show ?case by simp
next
  case (Cons p ds)
  obtain c0 v0 where p: "p = (c0, v0)" by (cases p)
  have c0: "c0 \<notin> fst ` set ds" "jmap_ok ds" "map_of ds c0 = None" and f: "\<not> Q c0 v0 \<Longrightarrow> f key c0 = None"
    using Cons.prems by (auto simp: p jget_None_iff)
  define f' where "f' = (if Q c0 v0 then f else f(key := (f key)(c0 := Some v0)))"
  define cols' where "cols' = (if Q c0 v0 then cols else dt_link key c0 v0 cols)"
  have h: "cols_hold f' cols'"
    using Cons.prems(1) cols_hold_link [OF Cons.prems(1) f] by (simp add: f'_def cols'_def)
  have "\<forall>c v. (c, v) \<in> set ds \<longrightarrow> \<not> Q c v \<longrightarrow> f' key c = None"
    using Cons.prems(3) c0(1) by (force simp: f'_def p)
  note step = Cons.IH [OF h c0(2) this]
  have "f'(key := (\<lambda>c. case map_of ds c of Some v \<Rightarrow> if Q c v then f' key c else Some v | None \<Rightarrow> f' key c)) =
      f(key := (\<lambda>c. case map_of (p # ds) c of Some v \<Rightarrow> if Q c v then f key c else Some v | None \<Rightarrow> f key c))"
    using c0(1,3) by (auto simp: f'_def p fun_eq_iff split: option.splits)
  with step show ?case by (simp add: p cols'_def)
qed

lemma dt_okD:
  assumes "dt_ok s"
  shows "jmap_ok (dt_byKey s)" "cols_hold (dt_val s) (dt_cols s)"
    "jget (dt_byKey s) k = Some d \<Longrightarrow> jmap_ok d \<and> d \<noteq> []"
  using assms by (auto simp: dt_ok_def)

definition dt_legal :: "dt option \<Rightarrow> bool" where
  "dt_legal d = (case d of None \<Rightarrow> True | Some x \<Rightarrow> jmap_ok x)"

definition dt_content :: "dt option \<Rightarrow> (jstr \<Rightarrow> rat option) option" where
  "dt_content d = (case d of None \<Rightarrow> None | Some x \<Rightarrow> if x = [] then None else Some (map_of x))"

lemma dt_set_ok:
  assumes ok: "dt_ok s" and d: "dt_legal d"
  shows "dt_ok (dt_set key d s)" "dt_view (dt_set key d s) = (dt_view s)(key := dt_content d)"
proof -
  define old where "old = (case jget (dt_byKey s) key of None \<Rightarrow> [] | Some x \<Rightarrow> x)"
  define nxt where "nxt = (case d of None \<Rightarrow> [] | Some x \<Rightarrow> x)"
  let ?row = "\<lambda>c. case map_of old c of Some v \<Rightarrow> if map_of nxt c \<noteq> Some v then None else Some v | None \<Rightarrow> dt_val s key c"
  define f1 where "f1 = (dt_val s)(key := ?row)"
  define cols1 where
    "cols1 = fold (\<lambda>(col, ms) cols. if map_of nxt col \<noteq> Some ms then dt_unlink key col ms cols else cols) old (dt_cols s)"
  define cols2 where
    "cols2 = fold (\<lambda>(col, ms) cols. if map_of old col = Some ms then cols else dt_link key col ms cols) nxt cols1"
  have s': "dt_set key d s =
      \<lparr> dt_cols = cols2, dt_byKey = (if nxt \<noteq> [] then jset key nxt (dt_byKey s) else jdel key (dt_byKey s)) \<rparr>"
    by (simp add: dt_set_def old_def nxt_def cols1_def cols2_def Let_def)
  have jo: "jmap_ok old" using dt_okD(3) [OF ok] by (simp add: old_def split: option.splits)
  have jn: "jmap_ok nxt" using d by (simp add: nxt_def dt_legal_def split: option.splits)
  have row: "dt_val s key c = map_of old c" for c
    by (simp add: dt_val_def old_def split: option.splits)
  have h1: "cols_hold f1 cols1"
    unfolding f1_def cols1_def
    by (rule fold_unlink [OF dt_okD(2) [OF ok] jo]) (use jo in \<open>auto simp: row jmap_ok_def\<close>)
  have r1: "f1 key c = (if map_of old c = map_of nxt c then map_of old c else None)" for c
    by (cases "map_of nxt c") (simp_all add: f1_def row split: option.splits)
  have "cols_hold (f1(key := (\<lambda>c. case map_of nxt c of Some v \<Rightarrow> if map_of old c = Some v then f1 key c else Some v
      | None \<Rightarrow> f1 key c))) cols2"
    unfolding cols2_def
    by (rule fold_link [OF h1 jn]) (use jn in \<open>auto simp: r1 jmap_ok_def\<close>)
  moreover have "f1(key := (\<lambda>c. case map_of nxt c of Some v \<Rightarrow> if map_of old c = Some v then f1 key c else Some v
      | None \<Rightarrow> f1 key c)) = dt_val (dt_set key d s)"
    by (simp add: fun_eq_iff r1 s' dt_val_def split: option.splits) (simp add: f1_def dt_val_def)
  ultimately have "cols_hold (dt_val (dt_set key d s)) (dt_cols (dt_set key d s))" by (simp add: s')
  then show "dt_ok (dt_set key d s)"
    using dt_okD(1,3) [OF ok] jn by (auto simp: dt_ok_def s' split: if_splits)
  show "dt_view (dt_set key d s) = (dt_view s)(key := dt_content d)"
    by (auto simp: dt_view_def s' fun_eq_iff dt_content_def nxt_def split: option.splits)
qed

lemma dt_del_ok:
  assumes ok: "dt_ok s"
  shows "dt_ok (dt_del key s)" "dt_view (dt_del key s) = (dt_view s)(key := None)"
proof -
  have "dt_ok (dt_del key s) \<and> dt_view (dt_del key s) = (dt_view s)(key := None)"
  proof (cases "jget (dt_byKey s) key")
    case None
    then show ?thesis using ok by (simp add: dt_del_def dt_view_def fun_eq_iff)
  next
    case (Some old)
    define cols where "cols = fold (\<lambda>(col, ms) cols. dt_unlink key col ms cols) old (dt_cols s)"
    have s': "dt_del key s = \<lparr> dt_cols = cols, dt_byKey = jdel key (dt_byKey s) \<rparr>"
      by (simp add: dt_del_def Some cols_def)
    have jo: "jmap_ok old" using dt_okD(3) [OF ok Some] by simp
    have row: "dt_val s key c = map_of old c" for c by (simp add: dt_val_def Some)
    have "cols_hold ((dt_val s)(key := (\<lambda>c. case map_of old c of Some v \<Rightarrow> if True then None else Some v
        | None \<Rightarrow> dt_val s key c))) (fold (\<lambda>(col, ms) cols. if True then dt_unlink key col ms cols else cols) old (dt_cols s))"
      by (rule fold_unlink [OF dt_okD(2) [OF ok] jo]) (use jo in \<open>auto simp: row jmap_ok_def\<close>)
    moreover have "(dt_val s)(key := (\<lambda>c. case map_of old c of Some v \<Rightarrow> if True then None else Some v
        | None \<Rightarrow> dt_val s key c)) = dt_val (dt_del key s)"
      by (auto simp: fun_eq_iff s' dt_val_def Some split: option.splits)
    ultimately have "cols_hold (dt_val (dt_del key s)) (dt_cols (dt_del key s))"
      by (simp add: s' cols_def)
    then have "dt_ok (dt_del key s)"
      using dt_okD(1,3) [OF ok] by (auto simp: dt_ok_def s' split: if_splits)
    then show ?thesis by (simp add: s' dt_view_def fun_eq_iff)
  qed
  then show "dt_ok (dt_del key s)" "dt_view (dt_del key s) = (dt_view s)(key := None)" by auto
qed

lemma dt_empty_ok: "dt_ok new_dt_index"
  by (simp add: dt_ok_def new_dt_index_def cols_hold_def col_holds_def dt_val_def)

interpretation dtix: derived_index new_dt_index dt_set dt_del dt_ok dt_view dt_content dt_legal
  by unfold_locales (simp_all add: dt_set_ok dt_del_ok dt_empty_ok, simp add: dt_view_def new_dt_index_def fun_eq_iff)

section \<open>What the columns answer\<close>

definition col_list :: "jstr \<Rightarrow> dt_index \<Rightarrow> (rat \<times> kstr) list" where
  "col_list col s = (case jget (dt_cols s) col of None \<Rightarrow> [] | Some c \<Rightarrow> dc_list c)"

lemma dt_range_list: "dt_range col r s = map prod.swap (oi_range r (col_list col s))"
  by (simp add: dt_range_def col_list_def split: option.splits) (auto intro: map_cong)

lemma dt_iterate_range: "dt_iterate m col r s = take m (dt_range col r s)"
  by (simp add: dt_iterate_def dt_range_def take_map split: option.splits)

lemma col_list_placed:
  assumes "dt_ok s"
  shows "placed (col_list col s) (\<lambda>k. dt_val s k col)"
  using col_holdsD(2) [OF dt_okD(2) [OF assms], of col]
  by (auto simp: col_holds_def col_list_def column_ok_def split: option.splits)

lemma columns_nonempty:
  assumes "dt_ok s"
  shows "col \<in> set (columns s) \<longleftrightarrow> col_list col s \<noteq> []"
proof (cases "jget (dt_cols s) col")
  case None
  then show ?thesis by (simp add: columns_def col_list_def flip: jget_None_iff)
next
  case (Some c)
  then have "col \<in> set (columns s)" by (force simp: columns_def dest: map_of_SomeD)
  moreover have pl: "placed (dc_list c) (jget (dc_byKey c))" and ne: "dc_byKey c \<noteq> []"
    using col_holdsD(2) [OF dt_okD(2) [OF assms], of col] by (auto simp: Some col_holds_def column_ok_def)
  have "jget (dc_byKey c) \<noteq> (\<lambda>k. None)" using ne by (auto simp: jmap_empty_iff fun_eq_iff)
  then have "dc_list c \<noteq> []" using placed_empty_iff [OF pl] by blast
  ultimately show ?thesis by (simp add: col_list_def Some)
qed

lemma dt_val_view: "dt_val s k col = (case dt_view s k of None \<Rightarrow> None | Some f \<Rightarrow> f col)"
  by (simp add: dt_val_def dt_view_def split: option.splits)

lemma col_list_view:
  assumes "dt_ok s" "dt_ok t" "dt_view s = dt_view t"
  shows "col_list col s = col_list col t"
proof -
  have "(\<lambda>k. dt_val s k col) = (\<lambda>k. dt_val t k col)" by (simp add: dt_val_view assms(3))
  with col_list_placed [OF assms(1), of col] col_list_placed [OF assms(2), of col] show ?thesis
    by (metis placed_unique)
qed

definition dt_run :: "(kstr, dt option) ix_op list \<Rightarrow> dt_index" where
  "dt_run as = fold (ix_step dt_set dt_del) as new_dt_index"

lemma dt_run_ok:
  assumes "list_all dtix.legal_op as"
  shows "dt_ok (dt_run as)" "dt_view (dt_run as) = ix_content dt_content (fold ix_map as (\<lambda>k. None))"
  using dtix.run_from_empty [OF assms] by (simp_all add: dt_run_def)

text \<open>\<open>rebuild\<close> skips a record without columns; setting none of them is the same.\<close>

lemma dt_set_None_fresh: "dt_ok s \<Longrightarrow> jget (dt_byKey s) key = None \<Longrightarrow> dt_set key None s = s"
  by (simp add: dt_set_def Let_def) (simp add: jdel_absent jget_None_iff)

lemma dt_rebuild_puts:
  assumes "dt_ok s" "jmap_ok es" "\<forall>d \<in> snd ` set es. dt_legal d" "\<forall>k \<in> fst ` set es. jget (dt_byKey s) k = None"
  shows "fold (\<lambda>(key, d) s. case d of None \<Rightarrow> s | Some x \<Rightarrow> dt_set key (Some x) s) es s =
    fold (\<lambda>(k, e). dt_set k e) es s"
  using assms
proof (induction es arbitrary: s)
  case (Cons p es)
  obtain k d where p: "p = (k, d)" by (cases p)
  have ok: "dt_ok (dt_set k d s)" using Cons.prems by (simp add: p dt_set_ok)
  have "\<forall>k' \<in> fst ` set es. jget (dt_byKey (dt_set k d s)) k' = None"
    using Cons.prems(2,4) by (auto simp: p dt_set_def Let_def)
  then have "fold (\<lambda>(key, d) s. case d of None \<Rightarrow> s | Some x \<Rightarrow> dt_set key (Some x) s) es (dt_set k d s) =
      fold (\<lambda>(k, e). dt_set k e) es (dt_set k d s)"
    using Cons ok by simp
  moreover have "(case d of None \<Rightarrow> s | Some x \<Rightarrow> dt_set k (Some x) s) = dt_set k d s"
    using Cons.prems(1,4) by (auto simp: p dt_set_None_fresh split: option.splits)
  ultimately show ?case by (simp add: p)
qed simp

lemma dt_rebuild_view:
  assumes "jmap_ok es" "\<forall>d \<in> snd ` set es. dt_legal d"
  shows "dt_ok (dt_rebuild es s)" "dt_view (dt_rebuild es s) = ix_content dt_content (map_of es)"
proof -
  have "dt_rebuild es s = fold (\<lambda>(k, e). dt_set k e) es new_dt_index"
    unfolding dt_rebuild_def
    using dt_rebuild_puts [OF dt_empty_ok assms] by (simp add: new_dt_index_def)
  with dtix.rebuild_view [OF assms]
  show "dt_ok (dt_rebuild es s)" "dt_view (dt_rebuild es s) = ix_content dt_content (map_of es)" by simp_all
qed

text \<open>C33: after any sequence of \<open>set\<close> and \<open>del\<close> calls on a fresh \<open>DtIndex\<close>, every column lists
  exactly the keys whose last write gave it a value, once each and strictly ordered by value and
  then key; \<open>columns\<close> names exactly the columns that hold a key; \<open>range\<close> answers any options
  without conflicting bounds by the entries in range of that list, \<open>iterate\<close> yields the same
  entries to a caller that stops after \<open>n\<close>; and rebuilding from the records the writes left answers
  every range the same.\<close>

theorem dt_ranges_exact:
  assumes legal: "list_all dtix.legal_op as"
    and es: "jmap_ok es" "map_of es = fold ix_map as (\<lambda>k. None)"
    and r: "gte r = None \<or> gt r = None" "lte r = None \<or> lt r = None"
  shows "set (dt_range col no_range (dt_run as)) =
      {(k, v). \<exists>d. fold ix_map as (\<lambda>k. None) k = Some (Some d) \<and> map_of d col = Some v} \<and>
    sorted_wrt (\<lambda>(k, v) (k', v'). v < v' \<or> (v = v' \<and> k < k')) (dt_range col no_range (dt_run as)) \<and>
    dt_range col r (dt_run as) =
      window r (filter (\<lambda>(k, v). above r v \<and> below r v)
        ((if rreverse r then rev else id) (dt_range col no_range (dt_run as)))) \<and>
    dt_iterate n col r (dt_run as) = take n (dt_range col r (dt_run as)) \<and>
    distinct (columns (dt_run as)) \<and>
    (col \<in> set (columns (dt_run as)) \<longleftrightarrow> dt_range col no_range (dt_run as) \<noteq> []) \<and>
    dt_range col r (dt_rebuild es s) = dt_range col r (dt_run as)"
proof -
  let ?s = "dt_run as" and ?m = "fold ix_map as (\<lambda>k. None)"
  note ok = dt_run_ok [OF legal]
  have all: "dt_range col no_range ?s = map prod.swap (col_list col ?s)"
    by (simp add: dt_range_list)
  have pl: "placed (col_list col ?s) (\<lambda>k. dt_val ?s k col)" by (rule col_list_placed [OF ok(1)])
  have val: "dt_val ?s k col = (case ?m k of Some (Some d) \<Rightarrow> map_of d col | _ \<Rightarrow> None)" for k
    by (simp add: dt_val_view ok(2) ix_content_def dt_content_def split: option.splits)
  have iff: "dt_val ?s k col = Some v \<longleftrightarrow> (\<exists>d. ?m k = Some (Some d) \<and> map_of d col = Some v)" for k v
    by (cases "?m k"; cases "the (?m k)") (simp_all add: val)
  have one: "set (dt_range col no_range ?s) = {(k, v). \<exists>d. ?m k = Some (Some d) \<and> map_of d col = Some v}"
    using pl by (auto simp: all placed_def iff image_iff)
  have two: "sorted_wrt (\<lambda>(k, v) (k', v'). v < v' \<or> (v = v' \<and> k < k')) (dt_range col no_range ?s)"
    using pl by (auto simp: all placed_def oi_strict_def sorted_wrt_map nodeLess_def
        elim: sorted_wrt_mono_rel [rotated])
  have three: "dt_range col r ?s = window r (filter (\<lambda>(k, v). above r v \<and> below r v)
        ((if rreverse r then rev else id) (dt_range col no_range ?s)))"
    unfolding dt_range_list oi_range_no_range oi_range_exact [OF r]
    by (auto simp: window_def filter_map rev_map take_map drop_map o_def case_prod_beta split: option.splits)
  have legal_es: "\<forall>d \<in> snd ` set es. dt_legal d"
    using dtix.legal_records [OF legal es] by simp
  have five: "dt_range col r (dt_rebuild es s) = dt_range col r ?s"
    using col_list_view [OF dt_rebuild_view(1) [OF es(1) legal_es] ok(1)]
      dt_rebuild_view(2) [OF es(1) legal_es] ok(2)
    by (simp add: dt_range_list es(2))
  have six: "distinct (columns ?s)" "(col \<in> set (columns ?s)) = (dt_range col no_range ?s \<noteq> [])"
    using columns_nonempty [OF ok(1)] col_holdsD(1) [OF dt_okD(2) [OF ok(1)]]
    by (simp_all add: all columns_def jmap_ok_def)
  show ?thesis using one two three five six by (simp only: dt_iterate_range simp_thms)
qed

lemma dt_ranges_exact_witness:
  "let as = [IxPut [97] (Some [([120], 2)]), IxPut [98] (Some [([120], 1)]), IxPut [97] (Some [([120], 3)])];
     es = [([97], Some [([120], 3)]), ([98], Some [([120], 1)])]
   in dt_range [120] no_range (dt_rebuild es new_dt_index) = dt_range [120] no_range (dt_run as)
     \<and> set (dt_range [120] no_range (dt_run as)) = {([98], 1), ([97], 3)}"
proof -
  let ?as = "[IxPut [97] (Some [([120], 2)]), IxPut [98] (Some [([120], 1)]), IxPut [97] (Some [([120], 3)])]
    :: (kstr, dt option) ix_op list"
  let ?es = "[([97], Some [([120], 3)]), ([98], Some [([120], 1)])] :: (kstr \<times> dt option) list"
  have "list_all dtix.legal_op ?as" by (simp add: dtix.legal_op_def dt_legal_def)
  moreover have "jmap_ok ?es" by simp
  moreover have "map_of ?es = fold ix_map ?as (\<lambda>k. None)" by (simp add: fun_eq_iff)
  moreover have "gte no_range = None \<or> gt no_range = None" "lte no_range = None \<or> lt no_range = None"
    by (simp_all add: no_range_def)
  ultimately have "set (dt_range [120] no_range (dt_run ?as)) =
      {(k, v). \<exists>d. fold ix_map ?as (\<lambda>k. None) k = Some (Some d) \<and> map_of d [120] = Some v} \<and>
      dt_range [120] no_range (dt_rebuild ?es new_dt_index) = dt_range [120] no_range (dt_run ?as)"
    using dt_ranges_exact [of ?as ?es no_range "[120]" 0 new_dt_index] by blast
  then show ?thesis by (auto simp: Let_def split: if_splits)
qed

end
