(* ===== verification/CompoundIndex.thy ===== *)
theory CompoundIndex
  imports Json DerivedIndex Store
begin

text \<open>
  The compound indexes of \<open>packages/minidb/src/compound-index.ts\<close>: per index and group value an
  ordered index by the order key. A group is keyed the way a \<open>Map\<close> keys it (\<open>map_key\<close>). An order
  key is a finite number or a string, according to the index's order type, so one linear order
  serves both comparators; the bounds a caller passes to \<open>range\<close> have the order type of the index.
\<close>

section \<open>Order keys\<close>

datatype order_key = ONum rat | OStr jstr

instantiation order_key :: linorder
begin

fun less_eq_order_key :: "order_key \<Rightarrow> order_key \<Rightarrow> bool" where
  "less_eq_order_key (ONum p) (ONum q) = (p \<le> q)"
| "less_eq_order_key (OStr s) (OStr t) = (s \<le> t)"
| "less_eq_order_key (ONum p) (OStr t) = True"
| "less_eq_order_key (OStr s) (ONum q) = False"

definition less_order_key :: "order_key \<Rightarrow> order_key \<Rightarrow> bool" where
  "less_order_key a b \<longleftrightarrow> a \<le> b \<and> \<not> b \<le> (a :: order_key)"

instance
proof
  fix a b c :: order_key
  show "a < b \<longleftrightarrow> a \<le> b \<and> \<not> b \<le> a" by (rule less_order_key_def)
  show "a \<le> a" by (cases a) auto
  show "a \<le> b \<Longrightarrow> b \<le> c \<Longrightarrow> a \<le> c" by (cases a; cases b; cases c) auto
  show "a \<le> b \<Longrightarrow> b \<le> a \<Longrightarrow> a = b" by (cases a; cases b) auto
  show "a \<le> b \<or> b \<le> a" by (cases a; cases b) auto
qed

end

section \<open>The indexes\<close>

datatype order_type = NumberOrder | StringOrder

record compound_def =
  groupBy :: jstr
  orderBy :: jstr
  orderType :: order_type

record compound_entry =
  cdef :: compound_def
  groups :: "(jkey, (order_key \<times> kstr) list) jmap"
  cbyPk :: "(kstr, jsv \<times> order_key) jmap"

type_synonym compound_indexes = "(jstr, compound_entry) jmap"

definition c_getPath :: "jsv \<Rightarrow> jstr \<Rightarrow> jsv" where
  "c_getPath doc path = fold (\<lambda>k v. if nullish v then JUndef else get_prop v k) (split_on 46 path) doc"

definition c_create ::
  "jstr \<Rightarrow> jstr \<Rightarrow> jstr \<Rightarrow> order_type option \<Rightarrow> compound_indexes \<Rightarrow> js_error + compound_indexes" where
  "c_create name g ord ty cs =
     (if jget cs name \<noteq> None then Inl (Error ''compound index already exists'')
      else Inr (jset name
        \<lparr> cdef = \<lparr> groupBy = g, orderBy = ord,
                   orderType = (case ty of None \<Rightarrow> NumberOrder | Some x \<Rightarrow> x) \<rparr>,
          groups = [], cbyPk = [] \<rparr> cs))"

definition c_drop :: "jstr \<Rightarrow> compound_indexes \<Rightarrow> bool \<times> compound_indexes" where
  "c_drop name cs = (jget cs name \<noteq> None, jdel name cs)"

definition c_list :: "compound_indexes \<Rightarrow> (jstr \<times> jstr \<times> jstr \<times> order_type) list" where
  "c_list cs = map (\<lambda>(name, e). (name, groupBy (cdef e), orderBy (cdef e), orderType (cdef e))) cs"

definition groupOf :: "jkey \<Rightarrow> compound_entry \<Rightarrow> (order_key \<times> kstr) list \<times> compound_entry" where
  "groupOf g e =
     (case jget (groups e) g of Some l \<Rightarrow> (l, e) | None \<Rightarrow> ([], e\<lparr> groups := jset g [] (groups e) \<rparr>))"

definition c_extract :: "compound_def \<Rightarrow> jsv \<Rightarrow> dt option \<Rightarrow> jsv \<times> jsv" where
  "c_extract d doc dts =
     (c_getPath doc (groupBy d),
      case dts of
        Some cols \<Rightarrow> (case map_of cols (orderBy d) of Some ms \<Rightarrow> JNum ms | None \<Rightarrow> c_getPath doc (orderBy d))
      | None \<Rightarrow> c_getPath doc (orderBy d))"

text \<open>\<open>validOrder\<close>, giving the order key when the value is one.\<close>

definition validOrder :: "compound_def \<Rightarrow> jsv \<Rightarrow> order_key option" where
  "validOrder d ord =
     (case orderType d of
        NumberOrder \<Rightarrow> (case ord of JNum q \<Rightarrow> Some (ONum q) | _ \<Rightarrow> None)
      | StringOrder \<Rightarrow> (case ord of JStr s \<Rightarrow> Some (OStr s) | _ \<Rightarrow> None))"

text \<open>The placement of a record: the group and order key of a valid one.\<close>

definition placement :: "compound_def \<Rightarrow> jsv \<Rightarrow> dt option \<Rightarrow> (jsv \<times> order_key) option" where
  "placement d doc dts =
     (case c_extract d doc dts of (g, ord) \<Rightarrow>
        if nullish g then None else map_option (\<lambda>ok. (g, ok)) (validOrder d ord))"

definition unplace :: "kstr \<Rightarrow> compound_entry \<Rightarrow> compound_entry" where
  "unplace pk e =
     (case jget (cbyPk e) pk of
        None \<Rightarrow> e
      | Some (g, ord) \<Rightarrow>
          (case jget (groups e) (map_key g) of
             None \<Rightarrow> e
           | Some l \<Rightarrow>
               let l' = oi_delete (ord, pk) l in
               e\<lparr> groups := (if l' = [] then jdel (map_key g) (groups e) else jset (map_key g) l' (groups e)) \<rparr>))"

definition entry_add :: "kstr \<Rightarrow> jsv \<Rightarrow> dt option \<Rightarrow> compound_entry \<Rightarrow> compound_entry" where
  "entry_add pk doc dts e =
     (let prev = jget (cbyPk e) pk; new = placement (cdef e) doc dts in
      if (case (prev, new) of (Some (g, ord), Some (g', ord')) \<Rightarrow> strict_eq g g' \<and> ord = ord' | _ \<Rightarrow> False)
      then e
      else
        let e1 = unplace pk e in
        case new of
          Some (g, ord) \<Rightarrow>
            (case groupOf (map_key g) e1 of (l, e2) \<Rightarrow>
               e2\<lparr> groups := jset (map_key g) (oi_insert (ord, pk) l) (groups e2),
                   cbyPk := jset pk (g, ord) (cbyPk e2) \<rparr>)
        | None \<Rightarrow> e1\<lparr> cbyPk := jdel pk (cbyPk e1) \<rparr>)"

definition c_add :: "kstr \<Rightarrow> jsv \<Rightarrow> dt option \<Rightarrow> compound_indexes \<Rightarrow> compound_indexes" where
  "c_add pk doc dts cs = map (\<lambda>(name, e). (name, entry_add pk doc dts e)) cs"

text \<open>\<open>remove\<close> leaves a group it emptied in place.\<close>

definition entry_remove :: "kstr \<Rightarrow> compound_entry \<Rightarrow> compound_entry" where
  "entry_remove pk e =
     (case jget (cbyPk e) pk of
        None \<Rightarrow> e
      | Some (g, ord) \<Rightarrow>
          e\<lparr> groups := (case jget (groups e) (map_key g) of
                          None \<Rightarrow> groups e
                        | Some l \<Rightarrow> jset (map_key g) (oi_delete (ord, pk) l) (groups e)),
             cbyPk := jdel pk (cbyPk e) \<rparr>)"

definition c_remove :: "kstr \<Rightarrow> compound_indexes \<Rightarrow> compound_indexes" where
  "c_remove pk cs = map (\<lambda>(name, e). (name, entry_remove pk e)) cs"

definition c_range ::
  "jstr \<Rightarrow> jsv \<Rightarrow> order_key range_options \<Rightarrow> nat option \<Rightarrow> compound_indexes \<Rightarrow> js_error + (kstr \<times> order_key) list" where
  "c_range name groupValue r limit cs =
     (case jget cs name of
        None \<Rightarrow> Inl (Error ''no such compound index'')
      | Some e \<Rightarrow>
          (case jget (groups e) (map_key groupValue) of
             None \<Rightarrow> Inr []
           | Some l \<Rightarrow>
               Inr (map (\<lambda>(ord, pk). (pk, ord))
                 (oi_range (r\<lparr> rcount := (case limit of Some n \<Rightarrow> Some n | None \<Rightarrow> rcount r) \<rparr>) l))))"

definition c_rebuild :: "(kstr \<times> jsv \<times> dt option) list \<Rightarrow> compound_indexes \<Rightarrow> compound_indexes" where
  "c_rebuild es cs =
     fold (\<lambda>(pk, doc, dts). c_add pk doc dts) es
       (map (\<lambda>(name, e). (name, e\<lparr> groups := [], cbyPk := [] \<rparr>)) cs)"

section \<open>One index follows the records\<close>

definition new_entry :: "compound_def \<Rightarrow> compound_entry" where
  "new_entry d = \<lparr> cdef = d, groups = [], cbyPk = [] \<rparr>"

definition glist :: "compound_entry \<Rightarrow> jkey \<Rightarrow> (order_key \<times> kstr) list" where
  "glist e g = (case jget (groups e) g of None \<Rightarrow> [] | Some l \<Rightarrow> l)"

definition c_view :: "compound_entry \<Rightarrow> kstr \<Rightarrow> (jkey \<times> order_key) option" where
  "c_view e k = map_option (\<lambda>(g, ord). (map_key g, ord)) (jget (cbyPk e) k)"

definition gview :: "(kstr \<Rightarrow> (jkey \<times> order_key) option) \<Rightarrow> jkey \<Rightarrow> kstr \<Rightarrow> order_key option" where
  "gview V g k = (case V k of Some (g', ord) \<Rightarrow> if g' = g then Some ord else None | None \<Rightarrow> None)"

definition entry_ok :: "compound_def \<Rightarrow> compound_entry \<Rightarrow> bool" where
  "entry_ok d e \<longleftrightarrow> cdef e = d \<and> jmap_ok (groups e) \<and> jmap_ok (cbyPk e) \<and>
     (\<forall>g. placed (glist e g) (gview (c_view e) g))"

lemma gview_upd:
  "gview (V(k := None)) g = (gview V g)(k := None)"
  "gview (V(k := Some (g0, ord))) g = (gview V g)(k := (if g0 = g then Some ord else None))"
  by (auto simp: gview_def fun_eq_iff)

lemma entry_okD:
  assumes "entry_ok d e"
  shows "cdef e = d" "jmap_ok (groups e)" "jmap_ok (cbyPk e)" "placed (glist e g) (gview (c_view e) g)"
  using assms by (auto simp: entry_ok_def)

text \<open>Taking a key's entry out of its list, and putting one in, as the lists of all groups see it.\<close>

lemma glist_taken:
  assumes pl: "\<And>g. placed (glist e g) (gview V g)" and V: "V pk = Some (g0, ord)"
    and e': "\<And>g. glist e' g = (if g = g0 then oi_delete (ord, pk) (glist e g) else glist e g)"
  shows "placed (glist e' g) (gview (V(pk := None)) g)"
proof (cases "g = g0")
  case True
  then have "gview V g pk = Some ord" by (simp add: gview_def V)
  from placed_delete [OF pl this] show ?thesis by (simp add: e' gview_upd True)
next
  case False
  then have "gview V g pk = None" by (simp add: gview_def V)
  then have "(gview V g)(pk := None) = gview V g" by (simp add: fun_upd_idem)
  with pl False show ?thesis by (simp add: e' gview_upd)
qed

lemma glist_put:
  assumes pl: "\<And>g. placed (glist e g) (gview V g)" and V: "V pk = None"
    and e': "\<And>g. glist e' g = (if g = g0 then oi_insert (ord, pk) (glist e g) else glist e g)"
  shows "placed (glist e' g) (gview (V(pk := Some (g0, ord))) g)"
proof -
  have none: "gview V g pk = None" by (simp add: gview_def V)
  show ?thesis
  proof (cases "g = g0")
    case True
    from placed_insert [OF pl none] show ?thesis by (simp add: e' gview_upd True)
  next
    case False
    have "(gview V g)(pk := None) = gview V g" using none by (simp add: fun_upd_idem)
    with pl False show ?thesis by (simp add: e' gview_upd)
  qed
qed

text \<open>How the state reaches the lists: a group set, a group dropped once empty.\<close>

lemma glist_groups [simp]:
  "glist (e\<lparr> groups := jset g0 l m \<rparr>) g = (if g = g0 then l else glist (e\<lparr> groups := m \<rparr>) g)"
  "glist (e\<lparr> groups := jdel g0 m \<rparr>) g = (if g = g0 then [] else glist (e\<lparr> groups := m \<rparr>) g)"
  "glist (e\<lparr> cbyPk := b \<rparr>) g = glist e g"
  "glist (e\<lparr> groups := groups e \<rparr>) g = glist e g"
  by (simp_all add: glist_def)

lemma c_view_upd [simp]:
  "c_view (e\<lparr> cbyPk := jset pk (g, ord) b \<rparr>) = (c_view (e\<lparr> cbyPk := b \<rparr>))(pk := Some (map_key g, ord))"
  "c_view (e\<lparr> cbyPk := jdel pk b \<rparr>) = (c_view (e\<lparr> cbyPk := b \<rparr>))(pk := None)"
  "c_view (e\<lparr> groups := m \<rparr>) = c_view e"
  "c_view (e\<lparr> cbyPk := cbyPk e \<rparr>) = c_view e"
  by (simp_all add: c_view_def fun_eq_iff)

lemma unplace_ok:
  assumes ok: "entry_ok d e"
  shows "cdef (unplace pk e) = d" "cbyPk (unplace pk e) = cbyPk e" "jmap_ok (groups (unplace pk e))"
    "placed (glist (unplace pk e) g) (gview ((c_view e)(pk := None)) g)"
proof -
  note okD = entry_okD [OF ok]
  have "cdef (unplace pk e) = d \<and> cbyPk (unplace pk e) = cbyPk e \<and> jmap_ok (groups (unplace pk e)) \<and>
    placed (glist (unplace pk e) g) (gview ((c_view e)(pk := None)) g)"
  proof (cases "jget (cbyPk e) pk")
    case None
    then have "(c_view e)(pk := None) = c_view e" by (simp add: c_view_def fun_eq_iff)
    then show ?thesis using okD by (simp add: unplace_def None)
  next
    case (Some p)
    obtain g0 ord where p: "p = (g0, ord)" by (cases p)
    have V: "c_view e pk = Some (map_key g0, ord)" by (simp add: c_view_def Some p)
    have "gview (c_view e) (map_key g0) pk = Some ord" by (simp add: gview_def V)
    then have "(ord, pk) \<in> set (glist e (map_key g0))" using okD(4) by (auto simp: placed_def)
    then obtain l where l: "jget (groups e) (map_key g0) = Some l" "glist e (map_key g0) = l"
      by (cases "jget (groups e) (map_key g0)") (auto simp: glist_def)
    have lists: "glist (unplace pk e) g =
        (if g = map_key g0 then oi_delete (ord, pk) (glist e g) else glist e g)" for g
      by (simp add: unplace_def Some p l Let_def)
    have "placed (glist (unplace pk e) g) (gview ((c_view e)(pk := None)) g)"
      by (rule glist_taken [OF okD(4) V lists])
    then show ?thesis using okD by (simp add: unplace_def Some p l(1) Let_def)
  qed
  then show "cdef (unplace pk e) = d" "cbyPk (unplace pk e) = cbyPk e" "jmap_ok (groups (unplace pk e))"
    "placed (glist (unplace pk e) g) (gview ((c_view e)(pk := None)) g)" by auto
qed

definition c_content :: "compound_def \<Rightarrow> jsv \<times> dt option \<Rightarrow> (jkey \<times> order_key) option" where
  "c_content d r = map_option (\<lambda>(g, ord). (map_key g, ord)) (placement d (fst r) (snd r))"

definition entry_put :: "kstr \<Rightarrow> jsv \<times> dt option \<Rightarrow> compound_entry \<Rightarrow> compound_entry" where
  "entry_put pk r e = entry_add pk (fst r) (snd r) e"

lemma entry_put_ok:
  assumes ok: "entry_ok d e"
  shows "entry_ok d (entry_put pk r e) \<and> c_view (entry_put pk r e) = (c_view e)(pk := c_content d r)"
proof -
  note okD = entry_okD [OF ok] and un = unplace_ok [OF ok, of pk]
  let ?e1 = "unplace pk e"
  let ?same = "case (jget (cbyPk e) pk, placement d (fst r) (snd r)) of
      (Some (g, ord), Some (g', ord')) \<Rightarrow> strict_eq g g' \<and> ord = ord' | _ \<Rightarrow> False"
  have V1: "c_view ?e1 = c_view e" by (simp add: c_view_def un(2) fun_eq_iff)
  show ?thesis
  proof (cases ?same)
    case True
    then have "c_view e pk = c_content d r"
      by (auto simp: c_view_def c_content_def strict_eq_def split: option.splits)
    then have "(c_view e)(pk := c_content d r) = c_view e" by (simp add: fun_upd_idem)
    moreover have "entry_put pk r e = e" using True by (simp add: entry_put_def entry_add_def okD(1) Let_def)
    ultimately show ?thesis using ok by simp
  next
    case False
    show ?thesis
    proof (cases "placement d (fst r) (snd r)")
      case None
      then have e': "entry_put pk r e = ?e1\<lparr> cbyPk := jdel pk (cbyPk ?e1) \<rparr>"
        by (simp add: entry_put_def entry_add_def okD(1) Let_def split: option.splits)
      have "c_view (entry_put pk r e) = (c_view e)(pk := c_content d r)"
        by (simp add: e' c_content_def None V1)
      moreover have "entry_ok d (entry_put pk r e)"
        unfolding entry_ok_def calculation using un okD(3) by (simp add: e' c_content_def None)
      ultimately show ?thesis by simp
    next
      case (Some q)
      obtain g0 ord where q: "q = (g0, ord)" by (cases q)
      obtain l e2 where ge: "groupOf (map_key g0) ?e1 = (l, e2)" by fastforce
      have e2: "l = glist ?e1 (map_key g0)" "cdef e2 = d" "cbyPk e2 = cbyPk ?e1" "jmap_ok (groups e2)"
        "\<And>g. g \<noteq> map_key g0 \<Longrightarrow> glist e2 g = glist ?e1 g" "c_view e2 = c_view ?e1"
        using ge un(1,3) by (auto simp: groupOf_def glist_def split: option.splits)
      have "\<not> (case jget (cbyPk e) pk of Some (g, ord') \<Rightarrow> strict_eq g g0 \<and> ord' = ord | None \<Rightarrow> False)"
        using False by (auto simp: Some q split: option.splits)
      then have e': "entry_put pk r e =
          e2\<lparr> groups := jset (map_key g0) (oi_insert (ord, pk) l) (groups e2), cbyPk := jset pk (g0, ord) (cbyPk e2) \<rparr>"
        by (auto simp: entry_put_def entry_add_def okD(1) Let_def Some q ge split: option.splits)
      have V: "c_view (entry_put pk r e) = (c_view e)(pk := c_content d r)"
        by (simp add: e' c_content_def Some q e2(6) V1)
      have lists: "glist (entry_put pk r e) g =
          (if g = map_key g0 then oi_insert (ord, pk) (glist ?e1 g) else glist ?e1 g)" for g
        by (simp add: e' e2(1,5))
      have "placed (glist (entry_put pk r e) g) (gview (((c_view e)(pk := None))(pk := Some (map_key g0, ord))) g)" for g
        by (rule glist_put [OF un(4) _ lists]) simp
      moreover have "c_content d r = Some (map_key g0, ord)" by (simp add: c_content_def Some q)
      ultimately have "placed (glist (entry_put pk r e) g) (gview (c_view (entry_put pk r e)) g)" for g
        by (simp add: V)
      moreover have "cdef (entry_put pk r e) = d" "jmap_ok (groups (entry_put pk r e))" "jmap_ok (cbyPk (entry_put pk r e))"
        using e2(2,3,4) okD(3) by (simp_all add: e' un(2))
      ultimately show ?thesis using V by (simp add: entry_ok_def)
    qed
  qed
qed

lemma entry_remove_ok:
  assumes ok: "entry_ok d e"
  shows "entry_ok d (entry_remove pk e) \<and> c_view (entry_remove pk e) = (c_view e)(pk := None)"
proof -
  note okD = entry_okD [OF ok]
  show ?thesis
  proof (cases "jget (cbyPk e) pk")
    case None
    then have "(c_view e)(pk := None) = c_view e" by (simp add: c_view_def fun_eq_iff)
    then show ?thesis using ok by (simp add: entry_remove_def None)
  next
    case (Some p)
    obtain g0 ord where p: "p = (g0, ord)" by (cases p)
    have V: "c_view e pk = Some (map_key g0, ord)" by (simp add: c_view_def Some p)
    have V': "c_view (entry_remove pk e) = (c_view e)(pk := None)" by (simp add: entry_remove_def Some p)
    have lists: "glist (entry_remove pk e) g =
        (if g = map_key g0 then oi_delete (ord, pk) (glist e g) else glist e g)" for g
      by (simp add: entry_remove_def Some p split: option.splits) (simp add: glist_def oi_delete_def)
    have "placed (glist (entry_remove pk e) g) (gview (c_view (entry_remove pk e)) g)" for g
      unfolding V' by (rule glist_taken [OF okD(4) V lists])
    moreover have "cdef (entry_remove pk e) = d" "jmap_ok (groups (entry_remove pk e))" "jmap_ok (cbyPk (entry_remove pk e))"
      using okD(1,2,3) by (simp_all add: entry_remove_def Some p split: option.splits)
    ultimately show ?thesis using V' by (simp add: entry_ok_def)
  qed
qed

lemma new_entry_ok: "entry_ok d (new_entry d)" "c_view (new_entry d) = (\<lambda>k. None)"
  by (simp_all add: entry_ok_def new_entry_def c_view_def glist_def gview_def fun_eq_iff)

interpretation cix: derived_index "new_entry d" entry_put entry_remove "entry_ok d" c_view "c_content d" "\<lambda>r. True"
  for d
  by unfold_locales (simp_all add: entry_put_ok entry_remove_ok new_entry_ok)

section \<open>All indexes of a manager\<close>

fun c_step :: "(kstr, jsv \<times> dt option) ix_op \<Rightarrow> compound_indexes \<Rightarrow> compound_indexes" where
  "c_step (IxPut pk r) cs = c_add pk (fst r) (snd r) cs"
| "c_step (IxDel pk) cs = c_remove pk cs"

definition c_run :: "(kstr, jsv \<times> dt option) ix_op list \<Rightarrow> compound_indexes \<Rightarrow> compound_indexes" where
  "c_run as cs = fold c_step as cs"

lemma jget_map_snd: "jget (map (\<lambda>(k, v). (k, f v)) m) k = map_option f (jget m k)"
  by (induction m) auto

lemma jget_c_step: "jget (c_step a cs) name = map_option (ix_step entry_put entry_remove a) (jget cs name)"
  by (cases a; cases "jget cs name") (simp_all add: c_add_def c_remove_def jget_map_snd entry_put_def)

lemma jget_c_run: "jget (c_run as cs) name = map_option (fold (ix_step entry_put entry_remove) as) (jget cs name)"
  unfolding c_run_def
  by (induction as arbitrary: cs) (simp_all add: jget_c_step option.map_comp o_def option.map_id)

lemma jget_c_rebuild:
  "jget (c_rebuild es cs) name =
     map_option (\<lambda>e. fold (\<lambda>(k, r). entry_put k r) es (new_entry (cdef e))) (jget cs name)"
proof -
  have "fold (\<lambda>(pk, doc, dts). c_add pk doc dts) es cs' = c_run (map (\<lambda>(k, r). IxPut k r) es) cs'" for cs'
    unfolding c_run_def by (induction es arbitrary: cs') auto
  moreover have "fold (ix_step entry_put entry_remove) (map (\<lambda>(k, r). IxPut k r) es) e = fold (\<lambda>(k, r). entry_put k r) es e" for e
    by (induction es arbitrary: e) auto
  moreover have "e\<lparr> groups := [], cbyPk := [] \<rparr> = new_entry (cdef e)" for e :: compound_entry
    by (cases e) (simp add: new_entry_def)
  ultimately show ?thesis
    by (simp add: c_rebuild_def jget_c_run jget_map_snd option.map_comp o_def)
qed

lemma c_range_list:
  "jget cs name = Some e \<Longrightarrow> c_range name gv r limit cs =
     Inr (map prod.swap (oi_range (r\<lparr> rcount := (case limit of Some n \<Rightarrow> Some n | None \<Rightarrow> rcount r) \<rparr>) (glist e (map_key gv))))"
  by (auto simp: c_range_def glist_def split: option.splits intro: map_cong)

lemma glist_by_view:
  assumes "entry_ok d e" "entry_ok d e'" "c_view e = c_view e'"
  shows "glist e g = glist e' g"
  using placed_unique [OF entry_okD(4) [OF assms(1)]] entry_okD(4) [OF assms(2)] by (simp add: assms(3))

text \<open>C34: a compound index created under a fresh name answers, after any sequence of \<open>add\<close> and
  \<open>remove\<close> calls on its manager, a group's range by exactly the records whose last write places
  them in that group (group value neither null nor undefined, order key of the index's type, a dt
  column taking precedence over a field), once each and ordered by order key and then key; options that
  give at most one of \<open>gte\<close> and \<open>gt\<close> and at most one of \<open>lte\<close> and \<open>lt\<close> cut that list to the entries in
  range, \<open>limit\<close> overriding the count (of two lower or two upper bounds the code reads only one); and the
  index rebuilt from the records the writes left answers the same.\<close>

theorem compound_range_exact:
  assumes create: "c_create name g ord ty cs = Inr cs'"
    and es: "jmap_ok es" "map_of es = fold ix_map as (\<lambda>k. None)"
    and r: "gte r = None \<or> gt r = None" "lte r = None \<or> lt r = None"
    and d: "d = \<lparr> groupBy = g, orderBy = ord, orderType = (case ty of None \<Rightarrow> NumberOrder | Some x \<Rightarrow> x) \<rparr>"
  shows "\<exists>l. c_range name gv no_range None (c_run as cs') = Inr l \<and>
    set l = {(k, ok). \<exists>doc dts gr. fold ix_map as (\<lambda>k. None) k = Some (doc, dts) \<and>
      placement d doc dts = Some (gr, ok) \<and> map_key gr = map_key gv} \<and>
    sorted_wrt (\<lambda>(k, v) (k', v'). v < v' \<or> (v = v' \<and> k < k')) l \<and>
    c_range name gv r limit (c_run as cs') =
      Inr (window (r\<lparr> rcount := (case limit of Some n \<Rightarrow> Some n | None \<Rightarrow> rcount r) \<rparr>)
        (filter (\<lambda>(k, v). above r v \<and> below r v) ((if rreverse r then rev else id) l))) \<and>
    c_range name gv r limit (c_rebuild es (c_run as cs')) = c_range name gv r limit (c_run as cs')"
proof -
  let ?e = "fold (ix_step entry_put entry_remove) as (new_entry d)" and ?m = "fold ix_map as (\<lambda>k. None)"
  let ?r = "r\<lparr> rcount := (case limit of Some n \<Rightarrow> Some n | None \<Rightarrow> rcount r) \<rparr>"
  have "jget cs' name = Some (new_entry d)"
    using create by (auto simp: c_create_def new_entry_def d split: if_splits)
  then have run: "jget (c_run as cs') name = Some ?e" by (simp add: jget_c_run)
  have ok: "entry_ok d ?e" "c_view ?e = ix_content (c_content d) ?m"
    using cix.run_from_empty [of as d] by (simp_all add: cix.legal_op_def list_all_iff split: ix_op.splits)
  let ?l = "map prod.swap (glist ?e (map_key gv))"
  have pl: "placed (glist ?e (map_key gv)) (gview (ix_content (c_content d) ?m) (map_key gv))"
    using entry_okD(4) [OF ok(1)] by (simp add: ok(2))
  have iff: "gview (ix_content (c_content d) ?m) (map_key gv) k = Some v \<longleftrightarrow>
      (\<exists>doc dts gr. ?m k = Some (doc, dts) \<and> placement d doc dts = Some (gr, v) \<and> map_key gr = map_key gv)" for k v
    by (auto simp: gview_def ix_content_def c_content_def split: option.splits)
  have one: "c_range name gv no_range None (c_run as cs') = Inr ?l"
    by (simp add: c_range_list [OF run])
  have two: "set ?l = {(k, ok). \<exists>doc dts gr. ?m k = Some (doc, dts) \<and>
      placement d doc dts = Some (gr, ok) \<and> map_key gr = map_key gv}"
    using pl by (auto simp: placed_def iff image_iff)
  have three: "sorted_wrt (\<lambda>(k, v) (k', v'). v < v' \<or> (v = v' \<and> k < k')) ?l"
    using pl by (auto simp: placed_def oi_strict_def sorted_wrt_map nodeLess_def elim: sorted_wrt_mono_rel [rotated])
  have four: "c_range name gv r limit (c_run as cs') =
      Inr (window ?r (filter (\<lambda>(k, v). above r v \<and> below r v) ((if rreverse r then rev else id) ?l)))"
    unfolding c_range_list [OF run] using oi_range_exact [of ?r "glist ?e (map_key gv)"] r
    by (auto simp: window_swap filter_swap rev_map above_def below_def)
  have "jget (c_rebuild es (c_run as cs')) name = Some (fold (\<lambda>(k, r). entry_put k r) es (new_entry d))"
    by (simp add: jget_c_rebuild run entry_okD(1) [OF ok(1)])
  moreover have "entry_ok d (fold (\<lambda>(k, r). entry_put k r) es (new_entry d))"
    "c_view (fold (\<lambda>(k, r). entry_put k r) es (new_entry d)) = c_view ?e"
    using cix.rebuild_view [OF es(1), of d] ok(2) by (simp_all add: es(2))
  ultimately have five: "c_range name gv r limit (c_rebuild es (c_run as cs')) = c_range name gv r limit (c_run as cs')"
    using glist_by_view [OF _ ok(1)] by (simp add: c_range_list run)
  from one two three four five show ?thesis by blast
qed

lemma compound_range_exact_witness:
  "let doc = (\<lambda>n w t. JObj n [(lit ''ws'', JStr w), (lit ''t'', JNum t)]);
     as = [IxPut [97] (doc 1 [120] 5, None), IxPut [98] (doc 2 [120] 4, None), IxPut [97] (doc 3 [121] 5, None)];
     es = [([97], doc 3 [121] 5, None), ([98], doc 2 [120] 4, None)]
   in \<exists>cs' l. c_create [105] (lit ''ws'') (lit ''t'') None [] = Inr cs' \<and>
     c_range [105] (JStr [120]) no_range None (c_run as cs') = Inr l \<and> ([98], ONum 4) \<in> set l \<and> ([97], ONum 5) \<notin> set l"
proof -
  let ?doc = "\<lambda>n w t. JObj n [(lit ''ws'', JStr w), (lit ''t'', JNum t)]"
  let ?as = "[IxPut [97] (?doc 1 [120] 5, None), IxPut [98] (?doc 2 [120] 4, None), IxPut [97] (?doc 3 [121] 5, None)]
    :: (kstr, jsv \<times> dt option) ix_op list"
  let ?es = "[([97], ?doc 3 [121] 5, None), ([98], ?doc 2 [120] 4, None)] :: (kstr \<times> jsv \<times> dt option) list"
  let ?d = "\<lparr> groupBy = lit ''ws'', orderBy = lit ''t'', orderType = NumberOrder \<rparr>"
  obtain cs' where c: "c_create [105] (lit ''ws'') (lit ''t'') None [] = Inr cs'"
    by (simp add: c_create_def)
  have m: "map_of ?es = fold ix_map ?as (\<lambda>k. None)" by (simp add: fun_eq_iff)
  have nr: "gte no_range = None \<or> gt no_range = None" "lte no_range = None \<or> lt no_range = None"
    by (simp_all add: no_range_def)
  have ok: "jmap_ok ?es" by simp
  have d: "?d = \<lparr> groupBy = lit ''ws'', orderBy = lit ''t'',
      orderType = (case None of None \<Rightarrow> NumberOrder | Some x \<Rightarrow> x) \<rparr>" by simp
  have p: "placement ?d (?doc n w t) None = Some (JStr w, ONum t)" for n w t
    by (simp add: placement_def c_extract_def c_getPath_def nullish_def get_prop_def validOrder_def)
  obtain l where l: "c_range [105] (JStr [120]) no_range None (c_run ?as cs') = Inr l"
    "set l = {(k, ok). \<exists>doc dts gr. fold ix_map ?as (\<lambda>k. None) k = Some (doc, dts) \<and>
      placement ?d doc dts = Some (gr, ok) \<and> map_key gr = map_key (JStr [120])}"
    using compound_range_exact [OF c ok m nr d, of "JStr [120]" None] by blast
  have "([98], ONum 4) \<in> set l" "([97], ONum 5) \<notin> set l"
    unfolding l(2) using p [of 2 "[120]" 4] p [of 3 "[121]" 5] by auto
  with c l(1) show ?thesis by (auto simp: Let_def)
qed

end
