(* ===== verification/Utf8Text.thy ===== *)
theory Utf8Text
  imports Postings
begin

text \<open>
  Keys as text: \<open>Buffer.from(s, 'utf8')\<close> is \<open>utf8\<close>, and this theory has \<open>buf.toString('utf8')\<close>,
  the decoder of the Encoding standard that Node uses: a malformed sequence gives one replacement
  character for its longest valid prefix.
\<close>

text \<open>Bytes still to come, the code point so far and the range of the next byte.\<close>

record utf8_state =
  u_need :: nat
  u_point :: nat
  u_lo :: nat
  u_hi :: nat

definition utf8_idle :: utf8_state where
  "utf8_idle = \<lparr> u_need = 0, u_point = 0, u_lo = 0x80, u_hi = 0xbf \<rparr>"

definition units_of :: "nat \<Rightarrow> jstr" where
  "units_of c = (if c < 0x10000 then [c] else [0xd800 + (c - 0x10000) div 0x400, 0xdc00 + (c - 0x10000) mod 0x400])"

definition utf8_start :: "nat \<Rightarrow> jstr \<times> utf8_state" where
  "utf8_start b =
     (if b < 0x80 then ([b], utf8_idle)
      else if 0xc2 \<le> b \<and> b \<le> 0xdf then ([], \<lparr> u_need = 1, u_point = b - 0xc0, u_lo = 0x80, u_hi = 0xbf \<rparr>)
      else if 0xe0 \<le> b \<and> b \<le> 0xef then
        ([], \<lparr> u_need = 2, u_point = b - 0xe0, u_lo = (if b = 0xe0 then 0xa0 else 0x80), u_hi = (if b = 0xed then 0x9f else 0xbf) \<rparr>)
      else if 0xf0 \<le> b \<and> b \<le> 0xf4 then
        ([], \<lparr> u_need = 3, u_point = b - 0xf0, u_lo = (if b = 0xf0 then 0x90 else 0x80), u_hi = (if b = 0xf4 then 0x8f else 0xbf) \<rparr>)
      else ([0xfffd], utf8_idle))"

definition utf8_step :: "utf8_state \<Rightarrow> nat \<Rightarrow> jstr \<times> utf8_state" where
  "utf8_step s b =
     (if u_need s = 0 then utf8_start b
      else if u_lo s \<le> b \<and> b \<le> u_hi s then
        (let c = u_point s * 64 + (b - 0x80) in
         if u_need s = 1 then (units_of c, utf8_idle)
         else ([], \<lparr> u_need = u_need s - 1, u_point = c, u_lo = 0x80, u_hi = 0xbf \<rparr>))
      else (case utf8_start b of (out, s') \<Rightarrow> (0xfffd # out, s')))"

fun utf8_loop :: "utf8_state \<Rightarrow> bytes \<Rightarrow> jstr" where
  "utf8_loop s [] = (if u_need s = 0 then [] else [0xfffd])"
| "utf8_loop s (b # bs) = (case utf8_step s (unat b) of (out, s') \<Rightarrow> out @ utf8_loop s' bs)"

definition utf8_text :: "bytes \<Rightarrow> jstr" where
  "utf8_text bs = utf8_loop utf8_idle bs"

section \<open>Decoding what was encoded\<close>

text \<open>Text without lone surrogates.\<close>

fun well_formed :: "jstr \<Rightarrow> bool" where
  "well_formed [] = True"
| "well_formed (c # cs) =
     (if high_surrogate c then (case cs of d # ds \<Rightarrow> low_surrogate d \<and> well_formed ds | [] \<Rightarrow> False)
      else \<not> low_surrogate c \<and> c < 0x10000 \<and> well_formed cs)"

lemma loop_point:
  assumes c: "c < 0x110000" "\<not> (0xd800 \<le> c \<and> c \<le> 0xdfff)"
  shows "utf8_loop utf8_idle (utf8_point c @ bs) = units_of c @ utf8_loop utf8_idle bs"
proof -
  have u: "unat (of_nat n :: byte) = n" if "n < 256" for n using that by (simp add: unat_of_nat)
  have d4: "c div 4096 = c div 64 div 64" "c div 262144 = c div 4096 div 64"
    using div_mult2_eq [of c 64 64] div_mult2_eq [of c 4096 64] by simp_all
  consider "c < 0x80" | "0x80 \<le> c" "c < 0x800" | "0x800 \<le> c" "c < 0x10000" | "0x10000 \<le> c" by linarith
  then show ?thesis
  proof cases
    case 1
    then show ?thesis by (simp add: utf8_point_def u utf8_step_def utf8_idle_def utf8_start_def units_of_def)
  next
    case 2
    define q r where "q = c div 64" and "r = c mod 64"
    have qr: "c = q * 64 + r" "r < 64" "2 \<le> q" "q < 32" using 2 by (auto simp: q_def r_def)
    have p: "utf8_point c = [of_nat (0xc0 + q), of_nat (0x80 + r)]" using 2 unfolding utf8_point_def q_def r_def by simp
    obtain x y :: byte where xy: "x = of_nat (0xc0 + q)" "y = of_nat (0x80 + r)" by blast
    have n: "unat x = 0xc0 + q" "unat y = 0x80 + r" unfolding xy by (rule u; use qr in simp)+
    show ?thesis using qr unfolding p xy [symmetric] by (simp add: n utf8_step_def utf8_idle_def utf8_start_def units_of_def)
  next
    case 3
    define q r s where "q = c div 4096" and "r = c div 64 mod 64" and "s = c mod 64"
    have e: "c = q * 4096 + r * 64 + s" 
      using div_mult_mod_eq [of c 64] div_mult_mod_eq [of "c div 64" 64] d4 unfolding q_def r_def s_def by linarith
    have b: "r < 64" "s < 64" "q < 16" using 3 by (auto simp: q_def r_def s_def)
    have p: "utf8_point c = [of_nat (0xe0 + q), of_nat (0x80 + r), of_nat (0x80 + s)]"
      using 3 unfolding utf8_point_def q_def r_def s_def by simp
    have "q = 0 \<Longrightarrow> 32 \<le> r" using 3(1) e b by linarith
    moreover have "q = 13 \<Longrightarrow> r < 32" using c(2) e b by auto
    moreover obtain x y z :: byte where xyz: "x = of_nat (0xe0 + q)" "y = of_nat (0x80 + r)" "z = of_nat (0x80 + s)" by blast
    moreover have n: "unat x = 0xe0 + q" "unat y = 0x80 + r" "unat z = 0x80 + s"
      unfolding xyz by (rule u; use b in simp)+
    ultimately show ?thesis using b 3 e unfolding p xyz [symmetric]
      by (auto simp: n utf8_step_def utf8_idle_def utf8_start_def units_of_def)
  next
    case 4
    define q r s t where "q = c div 262144" and "r = c div 4096 mod 64" and "s = c div 64 mod 64" and "t = c mod 64"
    have e: "c = q * 262144 + r * 4096 + s * 64 + t" 
      using div_mult_mod_eq [of c 64] div_mult_mod_eq [of "c div 64" 64] div_mult_mod_eq [of "c div 4096" 64] d4
      unfolding q_def r_def s_def t_def by linarith
    have b: "r < 64" "s < 64" "t < 64" "q < 5" using c by (auto simp: q_def r_def s_def t_def)
    have p: "utf8_point c = [of_nat (0xf0 + q), of_nat (0x80 + r), of_nat (0x80 + s), of_nat (0x80 + t)]"
      using 4 unfolding utf8_point_def q_def r_def s_def t_def by simp
    have "q = 0 \<Longrightarrow> 16 \<le> r" using 4 e b by linarith
    moreover have "q = 4 \<Longrightarrow> r < 16" using c(1) e b by linarith
    moreover obtain x y z v :: byte where xyz: "x = of_nat (0xf0 + q)" "y = of_nat (0x80 + r)" "z = of_nat (0x80 + s)" "v = of_nat (0x80 + t)"
      by blast
    moreover have n: "unat x = 0xf0 + q" "unat y = 0x80 + r" "unat z = 0x80 + s" "unat v = 0x80 + t"
      unfolding xyz by (rule u; use b in simp)+
    ultimately show ?thesis using b 4 e unfolding p xyz [symmetric]
      by (auto simp: n utf8_step_def utf8_idle_def utf8_start_def units_of_def Let_def algebra_simps)
  qed
qed

lemma utf8_text_utf8: "well_formed s \<Longrightarrow> utf8_text (utf8 s) = s"
  unfolding utf8_text_def
proof (induction s rule: well_formed.induct)
  case (2 c cs)
  show ?case
  proof (cases "high_surrogate c")
    case True
    then obtain d ds where cs: "cs = d # ds" and d: "low_surrogate d" "well_formed ds" using "2.prems" by (cases cs) auto
    let ?p = "0x10000 + (c - 0xd800) * 0x400 + (d - 0xdc00)"
    have p: "?p < 0x110000" "\<not> (0xd800 \<le> ?p \<and> ?p \<le> 0xdfff)" "units_of ?p = [c, d]"
    proof -
      define a b where "a = c - 0xd800" and "b = d - 0xdc00"
      have ab: "c = 0xd800 + a" "d = 0xdc00 + b" "a < 0x400" "b < 0x400"
        using True d(1) by (auto simp: high_surrogate_def low_surrogate_def a_def b_def)
      show "?p < 0x110000" "\<not> (0xd800 \<le> ?p \<and> ?p \<le> 0xdfff)" "units_of ?p = [c, d]"
        using ab(3,4) by (simp_all add: ab(1,2) units_of_def)
    qed
    have "utf8_loop utf8_idle (utf8 ds) = ds" using "2.IH"(1) [OF True cs d(2)] .
    then show ?thesis using True d(1) loop_point [OF p(1,2)] p(3) by (simp add: cs)
  next
    case False
    then have c: "\<not> low_surrogate c" "c < 0x10000" "well_formed cs" using "2.prems" by auto
    have p: "c < 0x110000" "\<not> (0xd800 \<le> c \<and> c \<le> 0xdfff)" "units_of c = [c]"
      using False c by (auto simp: high_surrogate_def low_surrogate_def units_of_def)
    have "utf8_loop utf8_idle (utf8 cs) = cs" using "2.IH"(2) [OF False c(3)] .
    then show ?thesis using False c(1) loop_point [OF p(1,2)] p(3) by simp
  qed
qed (simp add: utf8_idle_def)

end
