(* ===== verification/MiniDb.thy ===== *)
theory MiniDb
  imports Recovery Wal DtIndex CompoundIndex IndexManager TextIndex Utf8Text
begin

text \<open>
  The database facade of \<open>packages/minidb/src/index.ts\<close>: how a write is prepared, applied to the
  store and to every derived index, rolled back and published. A synchronous operation reads the
  clock once (\<open>now\<close>); what runs between two awaits is one function. \<open>this.wal\<close> is a WAL with a
  number, so that a WAL object replaced by a rotation is told from the one an operation captured.
\<close>

section \<open>Keys and parameters\<close>

datatype db_key = KText jstr | KBytes bytes

fun toBuf :: "db_key \<Rightarrow> bytes" where
  "toBuf (KText s) = utf8 s"
| "toBuf (KBytes b) = b"

definition pk_of :: "db_key \<Rightarrow> kstr" where
  "pk_of k = toKStr (toBuf k)"

definition text_kstr :: "jstr \<Rightarrow> kstr" where
  "text_kstr s = toKStr (utf8 s)"

definition kstr_text :: "kstr \<Rightarrow> jstr" where
  "kstr_text k = utf8_text (fromKStr k)"

text \<open>
  What the operations take from elsewhere: the value codec, \<open>String.prototype.toLowerCase\<close>,
  \<open>Date.parse\<close> (\<open>None\<close> is NaN) and the JSON text of \<open>{ dt }\<close>.
\<close>

record world = lang +
  lower_case :: "jstr \<Rightarrow> jstr"
  parse_date :: "jstr \<Rightarrow> rat option"
  dt_json :: "dt \<Rightarrow> bytes"
  enc :: "jsv \<Rightarrow> js_error + bytes"
  dec :: "bytes \<Rightarrow> js_error + jsv"

abbreviation jb :: "'a world_scheme \<Rightarrow> dt \<Rightarrow> nat" where
  "jb w \<equiv> \<lambda>d. length (dt_json w d)"

definition canonRange :: "jstr range_options \<Rightarrow> kstr range_options" where
  "canonRange r =
     \<lparr> gte = map_option text_kstr (gte r), gt = map_option text_kstr (gt r), lte = map_option text_kstr (lte r),
       lt = map_option text_kstr (lt r), roffset = roffset r, rcount = rcount r, rreverse = rreverse r \<rparr>"

definition dt_millis :: "'a world_scheme \<Rightarrow> jsv \<Rightarrow> rat option" where
  "dt_millis w v =
     (case v of
        JNum q \<Rightarrow> Some q | JNaN \<Rightarrow> None | JInf b \<Rightarrow> None
      | _ \<Rightarrow> parse_date w (to_text (num_str w) v))"

definition normDt :: "'a world_scheme \<Rightarrow> (jstr \<times> jsv) list option \<Rightarrow> dt option" where
  "normDt w d =
     (case d of
        None \<Rightarrow> None
      | Some es \<Rightarrow>
          (let out = fold (\<lambda>(k, v) out. case dt_millis w v of None \<Rightarrow> out | Some ms \<Rightarrow> jset k ms out) es [] in
           if out = [] then None else Some out))"

section \<open>State\<close>

datatype codec_name = BufferCodec | StringCodec | JsonCodec

datatype memory_policy = Reject | EvictLru

record mini_db =
  db_store :: store
  db_reader :: "value_reader option"
  db_mode :: value_mode
  db_indexes :: index_manager
  db_dt :: dt_index
  db_compound :: compound_indexes
  db_text :: "(jstr, text_index) jmap"
  db_textDefs :: "(jstr \<times> jstr list option) list"
  db_codec :: codec_name
  db_closed :: bool
  db_readOnly :: bool
  db_wal :: wal
  db_walNo :: nat
  db_rotating :: bool
  db_access :: "kstr list"
  maxMemoryBytes :: "int option"
  maxMemoryPolicy :: memory_policy
  st_evictions :: nat
  st_rejections :: nat
  st_indexHits :: nat

record prepared =
  p_type :: nat
  p_key :: bytes
  p_value :: "bytes option"
  p_meta :: "bytes option"
  p_expire :: int
  p_dt :: "dt option"
  p_pk :: kstr
  p_doc :: jsv

definition ensureOpen :: "mini_db \<Rightarrow> js_error + unit" where
  "ensureOpen db = (if db_closed db then Inl (Error ''MiniDb is closed'') else Inr ())"

definition ensureWritable :: "mini_db \<Rightarrow> js_error + unit" where
  "ensureWritable db = (if db_readOnly db then Inl (Error ''MiniDb is open in read-only mode'') else Inr ())"

definition touchAccess :: "kstr \<Rightarrow> mini_db \<Rightarrow> mini_db" where
  "touchAccess k db = db\<lparr> db_access := set_add k (set_del k (db_access db)) \<rparr>"

definition seedAccessFromStore :: "mini_db \<Rightarrow> mini_db" where
  "seedAccessFromStore db = db\<lparr> db_access := set_of (jkeys (smap (db_store db))) \<rparr>"

section \<open>Expiry\<close>

definition text_each :: "(text_index \<Rightarrow> text_index) \<Rightarrow> mini_db \<Rightarrow> mini_db" where
  "text_each f db = db\<lparr> db_text := map (\<lambda>(name, ti). (name, f ti)) (db_text db) \<rparr>"

definition onStoreExpire :: "kstr \<Rightarrow> mini_db \<Rightarrow> mini_db" where
  "onStoreExpire k db =
     text_each (text_remove k)
       (db\<lparr> db_access := set_del k (db_access db), db_dt := dt_del k (db_dt db),
            db_compound := c_remove k (db_compound db),
            db_indexes := (if db_indexes db \<noteq> [] then im_remove k (db_indexes db) else db_indexes db) \<rparr>)"

text \<open>A store operation with the notices it sent, delivered to the hook.\<close>

definition notify :: "store \<times> notice list \<Rightarrow> mini_db \<Rightarrow> mini_db" where
  "notify r db = fold (\<lambda>(k, rec). onStoreExpire k) (snd r) (db\<lparr> db_store := fst r \<rparr>)"

definition db_get :: "'a world_scheme \<Rightarrow> int \<Rightarrow> kstr \<Rightarrow> mini_db \<Rightarrow> (js_error + bytes option) \<times> mini_db" where
  "db_get w now k db =
     (case store_get (jb w) (db_reader db) now k (db_store db) of (r, sn) \<Rightarrow> (r, notify sn db))"

definition decode :: "'a world_scheme \<Rightarrow> bytes option \<Rightarrow> js_error + jsv" where
  "decode w b = (case b of None \<Rightarrow> Inr JUndef | Some x \<Rightarrow> dec w x)"

section \<open>Preparing a write\<close>

definition db_MAX_KEY_LEN :: nat where "db_MAX_KEY_LEN = 128"

definition checkKey :: "db_key \<Rightarrow> js_error + unit" where
  "checkKey key =
     (let len = (case key of KText s \<Rightarrow> length s | KBytes b \<Rightarrow> length b) in
      if len > db_MAX_KEY_LEN then Inl (RangeError ''key too long (>128)'')
      else if len = 0 then Inl (RangeError ''key must be non-empty'')
      else Inr ())"

text \<open>A number argument that may be missing; \<open>ttl\<close> is a rational, or not finite.\<close>

datatype js_num = Finite rat | NotFinite

definition expire_at :: "int \<Rightarrow> js_num option \<Rightarrow> js_error + int" where
  "expire_at now ttl =
     (case ttl of
        None \<Rightarrow> Inr 0
      | Some NotFinite \<Rightarrow> Inl (RangeError ''ttl must be a finite number of milliseconds'')
      | Some (Finite q) \<Rightarrow> Inr (if q \<noteq> 0 then now + floor q else 0))"

definition prepareSet ::
  "'a world_scheme \<Rightarrow> int \<Rightarrow> db_key \<Rightarrow> jsv \<Rightarrow> js_num option \<Rightarrow> (jstr \<times> jsv) list option \<Rightarrow> js_error + prepared" where
  "prepareSet w now key v ttl d =
     (case checkKey key of
        Inl e \<Rightarrow> Inl e
      | Inr _ \<Rightarrow>
          (let dn = normDt w d in
           case expire_at now ttl of
             Inl e \<Rightarrow> Inl e
           | Inr ex \<Rightarrow>
               map_result (\<lambda>buf. \<lparr> p_type = TYPE_SET, p_key = toBuf key, p_value = Some buf,
                   p_meta = map_option (dt_json w) dn, p_expire = ex, p_dt = dn, p_pk = pk_of key, p_doc = v \<rparr>)
                 (enc w v)))"

definition prepareDel :: "db_key \<Rightarrow> js_error + prepared" where
  "prepareDel key =
     map_result (\<lambda>_. \<lparr> p_type = TYPE_DEL, p_key = toBuf key, p_value = None, p_meta = None, p_expire = 0,
         p_dt = None, p_pk = pk_of key, p_doc = JUndef \<rparr>)
       (checkKey key)"

datatype batch_input =
    InSet db_key jsv "js_num option" "(jstr \<times> jsv) list option"
  | InDel db_key

fun prepareOp :: "'a world_scheme \<Rightarrow> int \<Rightarrow> batch_input \<Rightarrow> js_error + prepared" where
  "prepareOp w now (InSet key v ttl d) = prepareSet w now key v ttl d"
| "prepareOp w now (InDel key) = prepareDel key"

section \<open>Applying and rolling back\<close>

text \<open>The branch of a SET: store, then every index.\<close>

definition apply_set :: "'a world_scheme \<Rightarrow> prepared \<Rightarrow> jsv \<Rightarrow> mini_db \<Rightarrow> mini_db" where
  "apply_set w a oldDoc db =
     (let ix1 = (if is_object oldDoc then im_remove (p_pk a) (db_indexes db) else db_indexes db);
          ix2 = (if is_object (p_doc a) then im_add (num_str w) (p_pk a) (p_doc a) ix1 else ix1) in
      text_each (\<lambda>ti. if is_object (p_doc a) then text_add (lower_case w) (p_pk a) (p_doc a) ti else text_remove (p_pk a) ti)
        (db\<lparr> db_store := store_set (jb w) (toKStr (p_key a)) (the (p_value a)) (p_expire a) (p_dt a) (db_store db),
             db_dt := dt_set (p_pk a) (p_dt a) (db_dt db),
             db_compound := c_add (p_pk a) (p_doc a) (p_dt a) (db_compound db),
             db_indexes := (if db_indexes db \<noteq> [] then ix2 else db_indexes db) \<rparr>))"

definition apply_del :: "'a world_scheme \<Rightarrow> kstr \<Rightarrow> jsv \<Rightarrow> mini_db \<Rightarrow> bool \<times> mini_db" where
  "apply_del w k oldDoc db =
     (case store_del (jb w) k (db_store db) of
        (existed, st) \<Rightarrow>
          (existed,
           if existed then
             text_each (text_remove k)
               (db\<lparr> db_store := st, db_access := set_del k (db_access db), db_dt := dt_del k (db_dt db),
                    db_compound := c_remove k (db_compound db),
                    db_indexes := (if db_indexes db \<noteq> [] \<and> is_object oldDoc then im_remove k (db_indexes db)
                                   else db_indexes db) \<rparr>)
           else db\<lparr> db_store := st \<rparr>))"

definition applyOp :: "'a world_scheme \<Rightarrow> int \<Rightarrow> prepared \<Rightarrow> mini_db \<Rightarrow> (js_error + store_rec option) \<times> mini_db" where
  "applyOp w now a db =
     (case db_get w now (p_pk a) db of
        (Inl e, db1) \<Rightarrow> (Inl e, db1)
      | (Inr oldBuf, db1) \<Rightarrow>
          (let prev = (if oldBuf \<noteq> None then jget (smap (db_store db1)) (p_pk a) else None) in
           case decode w oldBuf of
             Inl e \<Rightarrow> (Inl e, db1)
           | Inr oldDoc \<Rightarrow>
               (Inr prev,
                if p_type a = TYPE_SET then touchAccess (p_pk a) (apply_set w a oldDoc db1)
                else if p_type a = TYPE_DEL then snd (apply_del w (p_pk a) oldDoc db1)
                else db1)))"

definition seq_of :: "kstr \<Rightarrow> mini_db \<Rightarrow> nat option" where
  "seq_of k db = map_option sseq (jget (smap (db_store db)) k)"

definition unindex :: "kstr \<Rightarrow> mini_db \<Rightarrow> mini_db" where
  "unindex k db =
     (text_each (text_remove k)
        (db\<lparr> db_indexes := (if db_indexes db \<noteq> [] then im_remove k (db_indexes db) else db_indexes db) \<rparr>))
     \<lparr> db_dt := dt_del k (db_dt db), db_compound := c_remove k (db_compound db) \<rparr>"

definition reindex :: "'a world_scheme \<Rightarrow> kstr \<Rightarrow> jsv \<Rightarrow> dt option \<Rightarrow> mini_db \<Rightarrow> mini_db" where
  "reindex w k doc d db =
     text_each (\<lambda>ti. if is_object doc then text_add (lower_case w) k doc ti else ti)
       (db\<lparr> db_dt := dt_set k d (db_dt db), db_compound := c_add k doc d (db_compound db),
            db_indexes := (if is_object doc then im_add (num_str w) k doc (db_indexes db) else db_indexes db) \<rparr>)"

definition restoreKey ::
  "'a world_scheme \<Rightarrow> int \<Rightarrow> kstr \<Rightarrow> store_rec option \<Rightarrow> nat option \<Rightarrow> mini_db \<Rightarrow> js_error option \<times> mini_db" where
  "restoreKey w now k prev appliedSeq db =
     (if (case appliedSeq of
            None \<Rightarrow> jget (smap (db_store db)) k \<noteq> None
          | Some s \<Rightarrow> seq_of k db \<noteq> Some s)
      then (None, db)
      else
        let db1 = unindex k db in
        case prev of
          None \<Rightarrow> (None, db1\<lparr> db_store := snd (store_del (jb w) k (db_store db1)),
                               db_access := set_del k (db_access db1) \<rparr>)
        | Some r \<Rightarrow>
            (let db2 = touchAccess k (db1\<lparr> db_store := setRef (jb w) k (sref r) (sexpire r) (sdt r) (db_store db1) \<rparr>) in
             case db_get w now k db2 of
               (Inl e, db3) \<Rightarrow> (Some e, db3)
             | (Inr buf, db3) \<Rightarrow>
                 (case decode w buf of
                    Inl e \<Rightarrow> (Some e, db3)
                  | Inr doc \<Rightarrow> (None, reindex w k doc (sdt r) db3))))"

section \<open>Replica catch-up\<close>

definition applyRecoveredOp :: "'a world_scheme \<Rightarrow> int \<Rightarrow> int \<Rightarrow> recovered_op \<Rightarrow> mini_db \<Rightarrow> js_error option \<times> mini_db" where
  "applyRecoveredOp w now now' a db =
     (let k = toKStr (opkey a) in
      case (if db_indexes db \<noteq> [] then
              (case db_get w now k db of
                 (Inl e, db1) \<Rightarrow> (Inl e, db1) | (Inr b, db1) \<Rightarrow> (decode w b, db1))
            else (Inr JUndef, db)) of
        (Inl e, db1) \<Rightarrow> (Some e, db1)
      | (Inr oldDoc, db1) \<Rightarrow>
          if optype a = TYPE_DEL then (None, snd (apply_del w k oldDoc db1))
          else
            let db2 = db1\<lparr> db_store := setRef (jb w) k (the (opref a)) (opexpire a) (opdt a) (db_store db1) \<rparr> in
            (case db_get w now' k db2 of
               (Inl e, db3) \<Rightarrow> (Some e, db3)
             | (Inr None, db3) \<Rightarrow> (None, db3)
             | (Inr (Some buf), db3) \<Rightarrow>
                 (let db4 = db3\<lparr> db_dt := dt_set k (opdt a) (db_dt db3) \<rparr> in
                  if db_indexes db4 \<noteq> [] \<or> db_text db4 \<noteq> [] \<or> c_list (db_compound db4) \<noteq> [] then
                    (case dec w buf of
                       Inl e \<Rightarrow> (Some e, db4)
                     | Inr doc \<Rightarrow>
                         (let ix1 = (if is_object oldDoc then im_remove k (db_indexes db4) else db_indexes db4);
                              ix2 = (if is_object doc then im_add (num_str w) k doc ix1 else ix1) in
                          (None, touchAccess k
                             (text_each (\<lambda>ti. if is_object doc then text_add (lower_case w) k doc ti else text_remove k ti)
                                (db4\<lparr> db_compound := c_add k doc (opdt a) (db_compound db4),
                                      db_indexes := (if db_indexes db4 \<noteq> [] then ix2 else db_indexes db4) \<rparr>)))))
                  else (None, touchAccess k db4))))"

fun applyRecoveredOps :: "'a world_scheme \<Rightarrow> int \<Rightarrow> int \<Rightarrow> recovered_op list \<Rightarrow> mini_db \<Rightarrow> js_error option \<times> mini_db" where
  "applyRecoveredOps w now now' [] db = (None, db)"
| "applyRecoveredOps w now now' (a # as) db =
     (case applyRecoveredOp w now now' a db of
        (Some e, db') \<Rightarrow> (Some e, db')
      | (None, db') \<Rightarrow> applyRecoveredOps w now now' as db')"

definition applyRecoveredFrame ::
  "'a world_scheme \<Rightarrow> meta_parser \<Rightarrow> (nat \<Rightarrow> int) \<Rightarrow> int \<Rightarrow> int \<Rightarrow> frame_ref \<Rightarrow> bytes \<Rightarrow> mini_db \<Rightarrow> mini_db \<times> js_error option" where
  "applyRecoveredFrame w parse clk now now' f fd db =
     (case frameToOps parse clk f loc_file.Wal fd (db_mode db) of
        (as, err) \<Rightarrow>
          (case applyRecoveredOps w now now' as db of
             (Some e, db') \<Rightarrow> (db', Some e)
           | (None, db') \<Rightarrow> (db', err)))"

end
