(* ===== verification/MiniDbWrite.thy ===== *)
theory MiniDbWrite
  imports MiniDb
begin

text \<open>
  The writes of \<open>packages/minidb/src/index.ts\<close>: the commit bodies up to their await and after it,
  the retry around a rotation, and the memory budget with its evictions. The outcome of a WAL
  promise is an input of the function that runs after the await.
\<close>

section \<open>Pointers into the WAL\<close>

definition publishWalRef ::
  "'a world_scheme \<Rightarrow> kstr \<Rightarrow> nat \<Rightarrow> nat option \<Rightarrow> value_loc \<Rightarrow> int \<Rightarrow> dt option \<Rightarrow> mini_db \<Rightarrow> mini_db" where
  "publishWalRef w k walNo seq loc expireAt d db =
     (if db_walNo db \<noteq> walNo \<or> seq = None then db
      else if seq_of k db \<noteq> seq then db
      else db\<lparr> db_store := setRef (jb w) k (Disk loc) expireAt d (db_store db) \<rparr>)"

text \<open>What a commit holds across its await: the WAL it appended to, the offset and the promise.\<close>

record pending =
  pd_walNo :: nat
  pd_off :: int
  pd_promise :: "js_error + nat"
  pd_prevs :: "(kstr, store_rec option) jmap"
  pd_seqs :: "(kstr, nat option) jmap"
  pd_refs :: "(kstr, value_loc \<times> int \<times> dt option) jmap"

definition append_wal :: "bytes \<Rightarrow> mini_db \<Rightarrow> pending \<times> mini_db" where
  "append_wal f db =
     (case appendLoc f (db_wal db) of
        ((off, p), wal') \<Rightarrow>
          (\<lparr> pd_walNo = db_walNo db, pd_off = off, pd_promise = p, pd_prevs = [], pd_seqs = [], pd_refs = [] \<rparr>,
           db\<lparr> db_wal := wal' \<rparr>))"

section \<open>After the await\<close>

text \<open>Rolling back the keys of a failed append, in order, until one throws.\<close>

fun restore_all ::
  "'a world_scheme \<Rightarrow> int \<Rightarrow> (kstr, nat option) jmap \<Rightarrow> (kstr, store_rec option) jmap \<Rightarrow> mini_db \<Rightarrow> js_error option \<times> mini_db" where
  "restore_all w now seqs [] db = (None, db)"
| "restore_all w now seqs ((k, prev) # ps) db =
     (case restoreKey w now k prev (case jget seqs k of None \<Rightarrow> None | Some s \<Rightarrow> s) db of
        (Some e, db') \<Rightarrow> (Some e, db')
      | (None, db') \<Rightarrow> restore_all w now seqs ps db')"

definition publish_all :: "'a world_scheme \<Rightarrow> pending \<Rightarrow> mini_db \<Rightarrow> mini_db" where
  "publish_all w p db =
     fold (\<lambda>(k, loc, ex, d). publishWalRef w k (pd_walNo p) (case jget (pd_seqs p) k of None \<Rightarrow> None | Some s \<Rightarrow> s) loc ex d)
       (pd_refs p) db"

definition finish_commit :: "'a world_scheme \<Rightarrow> int \<Rightarrow> pending \<Rightarrow> js_error option \<Rightarrow> mini_db \<Rightarrow> js_error option \<times> mini_db" where
  "finish_commit w now p outcome db =
     (case outcome of
        Some e \<Rightarrow> (case restore_all w now (pd_seqs p) (pd_prevs p) db of
                     (Some e', db') \<Rightarrow> (Some e', db') | (None, db') \<Rightarrow> (Some e, db'))
      | None \<Rightarrow> (None, if db_mode db = OnDisk then publish_all w p db else db))"

section \<open>Commit bodies\<close>

definition set_commit :: "'a world_scheme \<Rightarrow> int \<Rightarrow> prepared \<Rightarrow> mini_db \<Rightarrow> (js_error + pending) \<times> mini_db" where
  "set_commit w now a db =
     (case (if db_indexes db \<noteq> [] \<and> is_object (p_doc a) then checkUnique (num_str w) (p_pk a) (p_doc a) (db_indexes db)
            else Inr ()) of
        Inl e \<Rightarrow> (Inl e, db)
      | Inr _ \<Rightarrow>
          (case encodeFrame TYPE_SET (p_key a) (p_value a) (p_meta a) (p_expire a) of
             Inl e \<Rightarrow> (Inl e, db)
           | Inr f \<Rightarrow>
               (case append_wal f db of
                  (p, db1) \<Rightarrow>
                    (case applyOp w now a db1 of
                       (Inl e, db2) \<Rightarrow> (Inl e, db2)
                     | (Inr prev, db2) \<Rightarrow>
                         (Inr (p\<lparr> pd_prevs := [(p_pk a, prev)], pd_seqs := [(p_pk a, seq_of (p_pk a) db2)],
                                 pd_refs := [(p_pk a,
                                   \<lparr> lfile = loc_file.Wal, loff = nat (pd_off p) + HEADER_SIZE + length (p_key a),
                                      llen = length (the (p_value a)) \<rparr>, p_expire a, p_dt a)] \<rparr>), db2)))))"

definition del_commit :: "'a world_scheme \<Rightarrow> int \<Rightarrow> prepared \<Rightarrow> mini_db \<Rightarrow> (js_error + pending) \<times> mini_db" where
  "del_commit w now a db =
     (case encodeFrame TYPE_DEL (p_key a) None None 0 of
        Inl e \<Rightarrow> (Inl e, db)
      | Inr f \<Rightarrow>
          (case append_wal f db of
             (p, db1) \<Rightarrow>
               (case applyOp w now a db1 of
                  (Inl e, db2) \<Rightarrow> (Inl e, db2)
                | (Inr prev, db2) \<Rightarrow>
                    (Inr (p\<lparr> pd_prevs := [(p_pk a, prev)], pd_seqs := [(p_pk a, seq_of (p_pk a) db2)] \<rparr>), db2))))"

text \<open>The loop of a batch: the first record replaced of each key.\<close>

fun apply_batch ::
  "'a world_scheme \<Rightarrow> int \<Rightarrow> prepared list \<Rightarrow> (kstr, store_rec option) jmap \<Rightarrow> mini_db \<Rightarrow>
     (js_error + (kstr, store_rec option) jmap) \<times> mini_db" where
  "apply_batch w now [] prevs db = (Inr prevs, db)"
| "apply_batch w now (a # as) prevs db =
     (case applyOp w now a db of
        (Inl e, db1) \<Rightarrow> (Inl e, db1)
      | (Inr prev, db1) \<Rightarrow>
          apply_batch w now as (if jget prevs (p_pk a) = None then jset (p_pk a) prev prevs else prevs) db1)"

definition batch_op_of :: "prepared \<Rightarrow> batch_op" where
  "batch_op_of a = \<lparr> btype = p_type a, bkey = p_key a, bvalue = p_value a, bmeta = p_meta a, bexpire = p_expire a \<rparr>"

definition batch_check_of :: "prepared \<Rightarrow> kstr \<times> batch_kind" where
  "batch_check_of a = (p_pk a, if p_type a = TYPE_DEL then BDel else BSet (p_doc a))"

definition last_sets :: "nat \<Rightarrow> prepared list \<Rightarrow> batch_op_ref list \<Rightarrow> (kstr, value_loc \<times> int \<times> dt option) jmap" where
  "last_sets bodyOff as refs =
     fold (\<lambda>(a, r) m. if p_type a = TYPE_SET then
             jset (p_pk a) (\<lparr> lfile = loc_file.Wal, loff = bodyOff + rvalueOff r, llen = rvalLen r \<rparr>, p_expire a, p_dt a) m
           else m) (zip as refs) []"

definition batch_commit :: "'a world_scheme \<Rightarrow> int \<Rightarrow> prepared list \<Rightarrow> mini_db \<Rightarrow> (js_error + pending) \<times> mini_db" where
  "batch_commit w now as db =
     (case (if db_indexes db \<noteq> [] then checkUniqueBatch (num_str w) (map batch_check_of as) (db_indexes db) else Inr ()) of
        Inl e \<Rightarrow> (Inl e, db)
      | Inr _ \<Rightarrow>
          (case encodeBatchOps (map batch_op_of as) of
             Inl e \<Rightarrow> (Inl e, db)
           | Inr body \<Rightarrow>
               (case encodeFrame TYPE_BATCH [] (Some body) None 0 of
                  Inl e \<Rightarrow> (Inl e, db)
                | Inr f \<Rightarrow>
                    (case append_wal f db of
                       (p, db1) \<Rightarrow>
                         (case apply_batch w now as [] db1 of
                            (Inl e, db2) \<Rightarrow> (Inl e, db2)
                          | (Inr prevs, db2) \<Rightarrow>
                              (case (if db_mode db2 = OnDisk then scanBatchOpRefs body 0 else Inr []) of
                                 Inl e \<Rightarrow> (Inl e, db2)
                               | Inr refs \<Rightarrow>
                                   (Inr (p\<lparr> pd_prevs := prevs, pd_seqs := map (\<lambda>(k, prev). (k, seq_of k db2)) prevs,
                                           pd_refs := last_sets (nat (pd_off p) + HEADER_SIZE) as refs \<rparr>), db2)))))))"

section \<open>The retry around a rotation\<close>

definition retriable :: "mini_db \<Rightarrow> js_error \<Rightarrow> bool" where
  "retriable db e \<longleftrightarrow> e = WalSealed \<or> (db_rotating db \<and> e = Error ''WAL is closed'')"

text \<open>
  One attempt: the clock at the commit body, what the other tasks do to the database while the append
  is awaited - they commit, finish commits of their own, read, reap - the clock when the code after
  the await runs, and what the WAL promise gave.
\<close>

record attempt =
  begun :: int
  gap :: "mini_db \<Rightarrow> mini_db"
  ended :: int
  answer :: "js_error option"

definition write_once ::
  "'a world_scheme \<Rightarrow> (int \<Rightarrow> mini_db \<Rightarrow> (js_error + pending) \<times> mini_db) \<Rightarrow> attempt \<Rightarrow> mini_db \<Rightarrow>
     js_error option \<times> mini_db" where
  "write_once w commit t db =
     (case commit (begun t) db of
        (Inl e, db') \<Rightarrow> (Some e, db')
      | (Inr p, db') \<Rightarrow>
          finish_commit w (ended t) p (case pd_promise p of Inl e \<Rightarrow> Some e | Inr i \<Rightarrow> answer t) (gap t db'))"

text \<open>\<open>rot\<close> is what the other tasks do to the database while the rotation lock is awaited.\<close>

record replies =
  try1 :: attempt
  rot :: "mini_db \<Rightarrow> mini_db"
  try2 :: attempt

definition retryOnWalSeal ::
  "'a world_scheme \<Rightarrow> (int \<Rightarrow> mini_db \<Rightarrow> (js_error + pending) \<times> mini_db) \<Rightarrow> replies \<Rightarrow> mini_db \<Rightarrow>
     js_error option \<times> mini_db" where
  "retryOnWalSeal w commit io db =
     (case write_once w commit (try1 io) db of
        (None, db1) \<Rightarrow> (None, db1)
      | (Some e, db1) \<Rightarrow>
          if retriable db1 e then write_once w commit (try2 io) (if db_rotating db1 then rot io db1 else db1)
          else (Some e, db1))"

section \<open>The memory budget\<close>

definition projectedBytesForOps :: "'a world_scheme \<Rightarrow> prepared list \<Rightarrow> mini_db \<Rightarrow> int" where
  "projectedBytesForOps w as db =
     snd (fold (\<lambda>a (considered, projected).
        (let cur = (case jget considered (p_pk a) of Some n \<Rightarrow> n | None \<Rightarrow> recordBytes (jb w) (p_pk a) (db_store db));
             nxt = (if p_type a = TYPE_SET
                    then estimateSetBytes (jb w) (toKStr (p_key a)) (the (p_value a)) (p_dt a) (db_mode db = InMemory) else 0) in
         (jset (p_pk a) nxt considered, projected - cur + nxt))) as ([], sbytes (db_store db)))"

definition pickEvictionVictim :: "kstr list \<Rightarrow> mini_db \<Rightarrow> kstr option" where
  "pickEvictionVictim skip db =
     (case List.find (\<lambda>k. k \<notin> set skip \<and> jget (smap (db_store db)) k \<noteq> None) (db_access db) of
        Some k \<Rightarrow> Some k
      | None \<Rightarrow> List.find (\<lambda>k. k \<notin> set skip) (jkeys (smap (db_store db))))"

definition evictKey :: "'a world_scheme \<Rightarrow> kstr \<Rightarrow> replies \<Rightarrow> mini_db \<Rightarrow> js_error option \<times> mini_db" where
  "evictKey w k io db =
     (if recordBytes (jb w) k (db_store db) = 0 then (None, db)
      else
        case prepareDel (KBytes (fromKStr k)) of
          Inl e \<Rightarrow> (Some e, db)
        | Inr a \<Rightarrow>
            (case retryOnWalSeal w (\<lambda>t. del_commit w t a) io db of
               (Some e, db') \<Rightarrow> (Some e, db')
             | (None, db') \<Rightarrow> (None, db'\<lparr> st_evictions := st_evictions db' + 1 \<rparr>)))"

text \<open>
  The eviction loop; each round takes one entry of the list of replies, so a round without one is
  a promise that never settles.
\<close>

fun evict_loop ::
  "'a world_scheme \<Rightarrow> int \<Rightarrow> kstr list \<Rightarrow> replies list \<Rightarrow> int \<Rightarrow> mini_db \<Rightarrow> (js_error option \<times> int \<times> mini_db) option" where
  "evict_loop w budget skip ios projected db =
     (if projected \<le> budget then Some (None, projected, db)
      else case pickEvictionVictim skip db of
        None \<Rightarrow> Some (None, projected, db)
      | Some k \<Rightarrow>
          (if k = [] then Some (None, projected, db)
           else case ios of
             [] \<Rightarrow> None
           | io # ios' \<Rightarrow>
               (let projected' = projected - recordBytes (jb w) k (db_store db) in
                case evictKey w k io db of
                  (Some e, db') \<Rightarrow> Some (Some e, projected', db')
                | (None, db') \<Rightarrow> evict_loop w budget skip ios' projected' db')))"

declare evict_loop.simps [simp del]

definition ensureMemoryFor ::
  "'a world_scheme \<Rightarrow> int \<Rightarrow> prepared list \<Rightarrow> replies list \<Rightarrow> mini_db \<Rightarrow> (js_error option \<times> mini_db) option" where
  "ensureMemoryFor w now as ios db =
     (case maxMemoryBytes db of
        None \<Rightarrow> Some (None, db)
      | Some budget \<Rightarrow>
          (case reapExpired (jb w) now (db_store db) of
             (n, sn) \<Rightarrow>
               (let db1 = notify sn db; projected = projectedBytesForOps w as db1 in
                if projected \<le> budget then Some (None, db1)
                else
                  case (if maxMemoryPolicy db1 = EvictLru
                        then evict_loop w budget (set_of (map p_pk as)) ios projected db1
                        else Some (None, projected, db1)) of
                    None \<Rightarrow> None
                  | Some (Some e, p, db2) \<Rightarrow> Some (Some e, db2)
                  | Some (None, p, db2) \<Rightarrow>
                      if p > budget then Some (Some (Error ''maxMemory exceeded''), db2\<lparr> st_rejections := st_rejections db2 + 1 \<rparr>)
                      else Some (None, db2))))"

section \<open>The operations\<close>

definition guard_write :: "mini_db \<Rightarrow> js_error + unit" where
  "guard_write db = (case ensureOpen db of Inl e \<Rightarrow> Inl e | Inr _ \<Rightarrow> ensureWritable db)"

text \<open>\<open>gate\<close> is what happens while the operation waits for the rotation lock at its start.\<close>

definition pass_gate :: "(mini_db \<Rightarrow> mini_db) \<Rightarrow> mini_db \<Rightarrow> mini_db" where
  "pass_gate gate db = (if db_rotating db then gate db else db)"

definition db_set ::
  "'a world_scheme \<Rightarrow> int \<Rightarrow> db_key \<Rightarrow> jsv \<Rightarrow> js_num option \<Rightarrow> (jstr \<times> jsv) list option \<Rightarrow> (mini_db \<Rightarrow> mini_db) \<Rightarrow>
     replies list \<Rightarrow> replies \<Rightarrow> mini_db \<Rightarrow> (js_error option \<times> mini_db) option" where
  "db_set w now key v ttl d gate ios io db =
     (case guard_write db of
        Inl e \<Rightarrow> Some (Some e, db)
      | Inr _ \<Rightarrow>
          (case checkKey key of
             Inl e \<Rightarrow> Some (Some e, db)
           | Inr _ \<Rightarrow>
               (let db1 = pass_gate gate db in
                case prepareSet w now key v ttl d of
                  Inl e \<Rightarrow> Some (Some e, db1)
                | Inr a \<Rightarrow>
                    (case ensureMemoryFor w now [a] ios db1 of
                       None \<Rightarrow> None
                     | Some (Some e, db2) \<Rightarrow> Some (Some e, db2)
                     | Some (None, db2) \<Rightarrow> Some (retryOnWalSeal w (\<lambda>t. set_commit w t a) io db2)))))"

definition db_has :: "'a world_scheme \<Rightarrow> int \<Rightarrow> kstr \<Rightarrow> mini_db \<Rightarrow> bool \<times> mini_db" where
  "db_has w now k db = (case store_has (jb w) now k (db_store db) of (b, sn) \<Rightarrow> (b, notify sn db))"

definition db_del ::
  "'a world_scheme \<Rightarrow> int \<Rightarrow> db_key \<Rightarrow> (mini_db \<Rightarrow> mini_db) \<Rightarrow> replies list \<Rightarrow> replies \<Rightarrow> mini_db \<Rightarrow>
     ((js_error + bool) \<times> mini_db) option" where
  "db_del w now key gate ios io db =
     (case guard_write db of
        Inl e \<Rightarrow> Some (Inl e, db)
      | Inr _ \<Rightarrow>
          (case db_has w now (pk_of key) (pass_gate gate db) of
             (existed, db1) \<Rightarrow>
               (if \<not> existed then Some (Inr False, db1)
                else
                  case prepareDel key of
                    Inl e \<Rightarrow> Some (Inl e, db1)
                  | Inr a \<Rightarrow>
                      (case ensureMemoryFor w now [a] ios db1 of
                         None \<Rightarrow> None
                       | Some (Some e, db2) \<Rightarrow> Some (Inl e, db2)
                       | Some (None, db2) \<Rightarrow>
                           (case retryOnWalSeal w (\<lambda>t. del_commit w t a) io db2 of
                              (Some e, db3) \<Rightarrow> Some (Inl e, db3) | (None, db3) \<Rightarrow> Some (Inr True, db3))))))"

definition db_batch ::
  "'a world_scheme \<Rightarrow> int \<Rightarrow> batch_input list \<Rightarrow> (mini_db \<Rightarrow> mini_db) \<Rightarrow> replies list \<Rightarrow> replies \<Rightarrow> mini_db \<Rightarrow>
     (js_error option \<times> mini_db) option" where
  "db_batch w now ins gate ios io db =
     (case guard_write db of
        Inl e \<Rightarrow> Some (Some e, db)
      | Inr _ \<Rightarrow>
          (let db1 = pass_gate gate db in
           if ins = [] then Some (None, db1)
           else
             case collect (map (prepareOp w now) ins) of
               Inl e \<Rightarrow> Some (Some e, db1)
             | Inr as \<Rightarrow>
                 (case ensureMemoryFor w now as ios db1 of
                    None \<Rightarrow> None
                  | Some (Some e, db2) \<Rightarrow> Some (Some e, db2)
                  | Some (None, db2) \<Rightarrow> Some (retryOnWalSeal w (\<lambda>t. batch_commit w t as) io db2))))"

definition db_mset ::
  "'a world_scheme \<Rightarrow> int \<Rightarrow> (jstr \<times> jsv) list \<Rightarrow> (mini_db \<Rightarrow> mini_db) \<Rightarrow> replies list \<Rightarrow> replies \<Rightarrow> mini_db \<Rightarrow>
     (js_error option \<times> mini_db) option" where
  "db_mset w now es gate ios io db =
     (if es = [] then Some (None, db)
      else db_batch w now (map (\<lambda>(k, v). InSet (KText k) v None None) es) gate ios io db)"

text \<open>\<open>expire\<close> rewrites the record with a new time; the indexes are not touched.\<close>

definition expire_commit ::
  "'a world_scheme \<Rightarrow> bytes \<Rightarrow> kstr \<Rightarrow> bytes \<Rightarrow> int \<Rightarrow> dt option \<Rightarrow> bytes \<Rightarrow> mini_db \<Rightarrow> (js_error + pending) \<times> mini_db" where
  "expire_commit w keyBuf k v expireAt d f db =
     (case append_wal f db of
        (p, db1) \<Rightarrow>
          (let prev = jget (smap (db_store db1)) k;
               db2 = db1\<lparr> db_store := store_set (jb w) k v expireAt d (db_store db1) \<rparr> in
           (Inr (p\<lparr> pd_prevs := [(k, prev)], pd_seqs := [(k, seq_of k db2)],
                   pd_refs := [(k, \<lparr> lfile = loc_file.Wal, loff = nat (pd_off p) + HEADER_SIZE + length keyBuf, llen = length v \<rparr>,
                                expireAt, d)] \<rparr>), db2)))"

definition db_expire ::
  "'a world_scheme \<Rightarrow> int \<Rightarrow> db_key \<Rightarrow> js_num \<Rightarrow> (mini_db \<Rightarrow> mini_db) \<Rightarrow> replies \<Rightarrow> mini_db \<Rightarrow> (js_error + bool) \<times> mini_db" where
  "db_expire w now key ttlMs gate io db =
     (case guard_write db of
        Inl e \<Rightarrow> (Inl e, db)
      | Inr _ \<Rightarrow>
          (let k = pk_of key in
           case getRecord (jb w) now k (db_store (pass_gate gate db)) of
             (cur, sn) \<Rightarrow>
               (let db1 = notify sn (pass_gate gate db) in
                case cur of
                  None \<Rightarrow> (Inr False, db1)
                | Some r \<Rightarrow>
                    (case ttlMs of
                       NotFinite \<Rightarrow> (Inl (RangeError ''ttl must be a finite number of milliseconds''), db1)
                     | Finite q \<Rightarrow>
                         (case db_get w now k db1 of
                            (Inl e, db2) \<Rightarrow> (Inl e, db2)
                          | (Inr None, db2) \<Rightarrow> (Inr False, db2)
                          | (Inr (Some v), db2) \<Rightarrow>
                              (case encodeFrame TYPE_SET (toBuf key) (Some v) (map_option (dt_json w) (sdt r)) (now + floor q) of
                                 Inl e \<Rightarrow> (Inl e, db2)
                               | Inr f \<Rightarrow>
                                   (case retryOnWalSeal w (\<lambda>t. expire_commit w (toBuf key) k v (now + floor q) (sdt r) f) io db2 of
                                      (Some e, db3) \<Rightarrow> (Inl e, db3) | (None, db3) \<Rightarrow> (Inr True, db3))))))))"

definition db_ttl :: "int \<Rightarrow> db_key \<Rightarrow> mini_db \<Rightarrow> js_error + int" where
  "db_ttl now key db =
     (case ensureOpen db of
        Inl e \<Rightarrow> Inl e
      | Inr _ \<Rightarrow>
          Inr (case jget (smap (db_store db)) (pk_of key) of
                 None \<Rightarrow> - 2
               | Some r \<Rightarrow>
                   if sexpire r = 0 then - 1
                   else let left = sexpire r - now in if left > 0 then left else - 2))"

end
