(* ===== verification/MiniDbRead.thy ===== *)
theory MiniDbRead
  imports MiniDbWrite
begin

text \<open>
  The reads of \<open>packages/minidb/src/index.ts\<close> and the maintenance of its indexes: building,
  creating and dropping them. The writes of the definition files are inputs.
\<close>

section \<open>Reading a key\<close>

record doc_record =
  d_key :: jstr
  d_value :: jsv
  d_dt :: "dt option"

definition get_key :: "'a world_scheme \<Rightarrow> int \<Rightarrow> db_key \<Rightarrow> mini_db \<Rightarrow> (js_error + jsv) \<times> mini_db" where
  "get_key w now key db =
     (case ensureOpen db of
        Inl e \<Rightarrow> (Inl e, db)
      | Inr _ \<Rightarrow>
          (case db_get w now (pk_of key) db of
             (Inl e, db1) \<Rightarrow> (Inl e, db1)
           | (Inr b, db1) \<Rightarrow> (decode w b, if b \<noteq> None then touchAccess (pk_of key) db1 else db1)))"

definition get_record :: "'a world_scheme \<Rightarrow> int \<Rightarrow> db_key \<Rightarrow> mini_db \<Rightarrow> (js_error + doc_record option) \<times> mini_db" where
  "get_record w now key db =
     (case ensureOpen db of
        Inl e \<Rightarrow> (Inl e, db)
      | Inr _ \<Rightarrow>
          (let k = pk_of key in
           case db_get w now k db of
             (Inl e, db1) \<Rightarrow> (Inl e, db1)
           | (Inr None, db1) \<Rightarrow> (Inr None, db1)
           | (Inr (Some b), db1) \<Rightarrow>
               (map_result (\<lambda>v. Some \<lparr> d_key = kstr_text k, d_value = v,
                    d_dt = (case jget (smap (db_store db1)) k of None \<Rightarrow> None | Some r \<Rightarrow> sdt r) \<rparr>) (dec w b),
                touchAccess k db1)))"

definition has_key :: "'a world_scheme \<Rightarrow> int \<Rightarrow> db_key \<Rightarrow> mini_db \<Rightarrow> (js_error + bool) \<times> mini_db" where
  "has_key w now key db =
     (case ensureOpen db of
        Inl e \<Rightarrow> (Inl e, db)
      | Inr _ \<Rightarrow> (case db_has w now (pk_of key) db of (b, db1) \<Rightarrow> (Inr b, db1)))"

fun mget :: "'a world_scheme \<Rightarrow> int \<Rightarrow> jstr list \<Rightarrow> mini_db \<Rightarrow> (js_error + jsv list) \<times> mini_db" where
  "mget w now [] db = (Inr [], db)"
| "mget w now (k # ks) db =
     (case get_key w now (KText k) db of
        (Inl e, db1) \<Rightarrow> (Inl e, db1)
      | (Inr v, db1) \<Rightarrow> (case mget w now ks db1 of (r, db2) \<Rightarrow> (map_result (\<lambda>vs. v # vs) r, db2)))"

section \<open>Ordered scans\<close>

definition scan_row :: "'a world_scheme \<Rightarrow> store_entry \<Rightarrow> js_error + doc_record" where
  "scan_row w e = map_result (\<lambda>v. \<lparr> d_key = utf8_text (ekey e), d_value = v, d_dt = edt e \<rparr>) (dec w (evalue e))"

definition scan_rows :: "'a world_scheme \<Rightarrow> js_error + store_entry list \<Rightarrow> js_error + doc_record list" where
  "scan_rows w r = (case r of Inl e \<Rightarrow> Inl e | Inr es \<Rightarrow> collect (map (scan_row w) es))"

definition db_scan ::
  "'a world_scheme \<Rightarrow> int \<Rightarrow> jstr range_options \<Rightarrow> nat option \<Rightarrow> mini_db \<Rightarrow> (js_error + doc_record list) \<times> mini_db" where
  "db_scan w now opts limit db =
     (case ensureOpen db of
        Inl e \<Rightarrow> (Inl e, db)
      | Inr _ \<Rightarrow>
          (case store_scan (jb w) (db_reader db) now ((canonRange opts)\<lparr> rcount := limit \<rparr>) (db_store db) of
             (r, sn) \<Rightarrow> (scan_rows w r, notify sn db)))"

definition db_prefix ::
  "'a world_scheme \<Rightarrow> int \<Rightarrow> jstr \<Rightarrow> nat option \<Rightarrow> mini_db \<Rightarrow> (js_error + doc_record list) \<times> mini_db" where
  "db_prefix w now p limit db =
     (case ensureOpen db of
        Inl e \<Rightarrow> (Inl e, db)
      | Inr _ \<Rightarrow>
          (case store_prefix (jb w) (db_reader db) now (text_kstr p) limit (db_store db) of
             (r, sn) \<Rightarrow> (scan_rows w r, notify sn db)))"

section \<open>Rows of an index\<close>

text \<open>The loop over the rows of a dt range: expired keys are skipped.\<close>

fun dt_rows ::
  "'a world_scheme \<Rightarrow> int \<Rightarrow> (kstr \<times> rat) list \<Rightarrow> mini_db \<Rightarrow> (js_error + (doc_record \<times> rat) list) \<times> mini_db" where
  "dt_rows w now [] db = (Inr [], db)"
| "dt_rows w now ((k, v) # rows) db =
     (case db_get w now k db of
        (Inl e, db1) \<Rightarrow> (Inl e, db1)
      | (Inr None, db1) \<Rightarrow> dt_rows w now rows db1
      | (Inr (Some b), db1) \<Rightarrow>
          (case dec w b of
             Inl e \<Rightarrow> (Inl e, db1)
           | Inr x \<Rightarrow>
               (case dt_rows w now rows db1 of
                  (r, db2) \<Rightarrow>
                    (map_result (\<lambda>rs. (\<lparr> d_key = kstr_text k, d_value = x,
                        d_dt = (case jget (smap (db_store db1)) k of None \<Rightarrow> None | Some r \<Rightarrow> sdt r) \<rparr>, v) # rs) r, db2))))"

definition dtRange ::
  "'a world_scheme \<Rightarrow> int \<Rightarrow> jstr \<Rightarrow> rat range_options \<Rightarrow> nat option \<Rightarrow> mini_db \<Rightarrow>
     (js_error + (doc_record \<times> rat) list) \<times> mini_db" where
  "dtRange w now col r limit db =
     (case ensureOpen db of
        Inl e \<Rightarrow> (Inl e, db)
      | Inr _ \<Rightarrow>
          dt_rows w now (dt_range col (r\<lparr> rcount := (case limit of Some n \<Rightarrow> Some n | None \<Rightarrow> rcount r) \<rparr>) (db_dt db)) db)"

text \<open>\<open>.map(decode).filter(value !== undefined)\<close>: every value is read before any row is dropped.\<close>

fun index_rows ::
  "'a world_scheme \<Rightarrow> int \<Rightarrow> (kstr \<times> 'x) list \<Rightarrow> mini_db \<Rightarrow> (js_error + (jstr \<times> jsv \<times> 'x) list) \<times> mini_db" where
  "index_rows w now [] db = (Inr [], db)"
| "index_rows w now ((k, x) # rows) db =
     (case db_get w now k db of
        (Inl e, db1) \<Rightarrow> (Inl e, db1)
      | (Inr b, db1) \<Rightarrow>
          (case decode w b of
             Inl e \<Rightarrow> (Inl e, db1)
           | Inr v \<Rightarrow>
               (case index_rows w now rows db1 of
                  (r, db2) \<Rightarrow> (map_result (\<lambda>rs. if v \<noteq> JUndef then (kstr_text k, v, x) # rs else rs) r, db2))))"

definition with_rows ::
  "'a world_scheme \<Rightarrow> int \<Rightarrow> js_error + (kstr \<times> 'x) list \<Rightarrow> mini_db \<Rightarrow> (js_error + (jstr \<times> jsv \<times> 'x) list) \<times> mini_db" where
  "with_rows w now r db = (case r of Inl e \<Rightarrow> (Inl e, db) | Inr rows \<Rightarrow> index_rows w now rows db)"

definition db_findEq ::
  "'a world_scheme \<Rightarrow> int \<Rightarrow> jstr \<Rightarrow> jsv \<Rightarrow> mini_db \<Rightarrow> (js_error + (jstr \<times> jsv \<times> unit) list) \<times> mini_db" where
  "db_findEq w now name v db =
     (case ensureOpen db of
        Inl e \<Rightarrow> (Inl e, db)
      | Inr _ \<Rightarrow> with_rows w now (map_result (map (\<lambda>pk. (pk, ()))) (findEq (num_str w) name v (db_indexes db))) db)"

definition db_findRange ::
  "'a world_scheme \<Rightarrow> int \<Rightarrow> jstr \<Rightarrow> find_options \<Rightarrow> mini_db \<Rightarrow> (js_error + (jstr \<times> jsv \<times> rat) list) \<times> mini_db" where
  "db_findRange w now name f db =
     (case ensureOpen db of
        Inl e \<Rightarrow> (Inl e, db)
      | Inr _ \<Rightarrow> with_rows w now (findRange name f (db_indexes db)) db)"

definition compoundRange ::
  "'a world_scheme \<Rightarrow> int \<Rightarrow> jstr \<Rightarrow> jsv \<Rightarrow> order_key range_options \<Rightarrow> nat option \<Rightarrow> mini_db \<Rightarrow>
     (js_error + (jstr \<times> jsv \<times> order_key) list) \<times> mini_db" where
  "compoundRange w now name g r limit db =
     (case ensureOpen db of
        Inl e \<Rightarrow> (Inl e, db)
      | Inr _ \<Rightarrow> with_rows w now (c_range name g r limit (db_compound db)) db)"

text \<open>The index answers, and keeps its cache.\<close>

definition ask_text ::
  "'a world_scheme \<Rightarrow> jstr \<Rightarrow> jstr \<Rightarrow> search_op option \<Rightarrow> nat option \<Rightarrow> mini_db \<Rightarrow> (js_error + (kstr \<times> real) list) \<times> mini_db" where
  "ask_text w name q op limit db =
     (case jget (db_text db) name of
        None \<Rightarrow> (Inl (Error ''no such text index''), db)
      | Some ti \<Rightarrow>
          (case text_search (lower_case w) q op limit ti of
             (r, ti') \<Rightarrow> (r, db\<lparr> db_text := jset name ti' (db_text db) \<rparr>)))"

definition db_search ::
  "'a world_scheme \<Rightarrow> int \<Rightarrow> jstr \<Rightarrow> jstr \<Rightarrow> search_op option \<Rightarrow> nat option \<Rightarrow> mini_db \<Rightarrow>
     (js_error + (jstr \<times> jsv \<times> real) list) \<times> mini_db" where
  "db_search w now name q op limit db =
     (case ensureOpen db of
        Inl e \<Rightarrow> (Inl e, db)
      | Inr _ \<Rightarrow> (case ask_text w name q op limit db of (r, db1) \<Rightarrow> with_rows w now r db1))"

section \<open>Building the indexes\<close>

text \<open>What a generator yields before it ends or throws.\<close>

fun until_error :: "('e + 'x) list \<Rightarrow> 'x list \<times> 'e option" where
  "until_error [] = ([], None)"
| "until_error (Inl e # rs) = ([], Some e)"
| "until_error (Inr x # rs) = (case until_error rs of (xs, e) \<Rightarrow> (x # xs, e))"

definition live_record :: "'a world_scheme \<Rightarrow> value_reader option \<Rightarrow> kstr \<times> store_rec \<Rightarrow> js_error + (kstr \<times> jsv \<times> dt option)" where
  "live_record w rd kr =
     (case entry_of rd (fst kr) (snd kr) of
        Inl e \<Rightarrow> Inl e
      | Inr e \<Rightarrow> map_result (\<lambda>v. (toKStr (ekey e), v, edt e)) (dec w (evalue e)))"

definition liveRecords :: "'a world_scheme \<Rightarrow> int \<Rightarrow> mini_db \<Rightarrow> (kstr \<times> jsv \<times> dt option) list \<times> js_error option" where
  "liveRecords w now db =
     until_error (map (live_record w (db_reader db)) (filter (\<lambda>(k, r). Store.is_live now r) (smap (db_store db))))"

definition index_records :: "(kstr \<times> jsv \<times> dt option) list \<Rightarrow> (kstr \<times> jsv) list" where
  "index_records rs = map (\<lambda>(k, v, d). (k, v)) rs"

definition text_records :: "(kstr \<times> jsv \<times> dt option) list \<Rightarrow> (kstr \<times> jsv) list" where
  "text_records rs = map (\<lambda>(k, v, d). (k, v)) (filter (\<lambda>(k, v, d). is_object v) rs)"

text \<open>The replies of the file system to the rebuild of one postings file.\<close>

record build_io =
  b_writes :: "nat \<Rightarrow> js_error + nat"
  b_fsync :: "js_error option"
  b_rename :: "js_error option"
  b_attach :: "js_error option"

definition build_one :: "'a world_scheme \<Rightarrow> build_io \<Rightarrow> (kstr \<times> jsv) list \<Rightarrow> text_index \<Rightarrow> js_error option \<times> text_index" where
  "build_one w io rs ti = build (lower_case w) (b_writes io) (b_fsync io) (b_rename io) (b_attach io) rs ti"

fun build_texts ::
  "'a world_scheme \<Rightarrow> (jstr \<Rightarrow> build_io) \<Rightarrow> (kstr \<times> jsv) list \<Rightarrow> (jstr, text_index) jmap \<Rightarrow> js_error option \<times> (jstr, text_index) jmap" where
  "build_texts w ios rs [] = (None, [])"
| "build_texts w ios rs ((name, ti) # m) =
     (case build_one w (ios name) rs ti of
        (Some e, ti') \<Rightarrow> (Some e, (name, ti') # m)
      | (None, ti') \<Rightarrow> (case build_texts w ios rs m of (e, m') \<Rightarrow> (e, (name, ti') # m')))"

definition rebuildTextPostings :: "'a world_scheme \<Rightarrow> int \<Rightarrow> (jstr \<Rightarrow> build_io) \<Rightarrow> mini_db \<Rightarrow> js_error option \<times> mini_db" where
  "rebuildTextPostings w now ios db =
     (if db_text db = [] then (None, db)
      else
        case liveRecords w now db of
          (rs, Some e) \<Rightarrow> (Some e, db)
        | (rs, None) \<Rightarrow> (case build_texts w ios (text_records rs) (db_text db) of (e, m) \<Rightarrow> (e, db\<lparr> db_text := m \<rparr>)))"

definition rebuildAllIndexes :: "'a world_scheme \<Rightarrow> int \<Rightarrow> (jstr \<Rightarrow> build_io) \<Rightarrow> mini_db \<Rightarrow> js_error option \<times> mini_db" where
  "rebuildAllIndexes w now ios db =
     (case liveRecords w now db of
        (rs, Some e) \<Rightarrow> (Some e, db\<lparr> db_indexes := im_rebuild (num_str w) (index_records rs) (db_indexes db) \<rparr>)
      | (rs, None) \<Rightarrow>
          rebuildTextPostings w now ios
            (db\<lparr> db_indexes := im_rebuild (num_str w) (index_records rs) (db_indexes db),
                 db_dt := dt_rebuild (map (\<lambda>(k, v, d). (k, d)) rs) (db_dt db),
                 db_compound := c_rebuild rs (db_compound db) \<rparr>))"

section \<open>Creating and dropping indexes\<close>

definition createIndex ::
  "'a world_scheme \<Rightarrow> int \<Rightarrow> jstr \<Rightarrow> jstr \<Rightarrow> index_type option \<Rightarrow> bool option \<Rightarrow> bool option \<Rightarrow> js_error option \<Rightarrow>
     mini_db \<Rightarrow> js_error option \<times> mini_db" where
  "createIndex w now name field ty unique sparse persist db =
     (case guard_write db of
        Inl e \<Rightarrow> (Some e, db)
      | Inr _ \<Rightarrow>
          (if db_codec db \<noteq> JsonCodec then (Some (Error ''secondary indexes require valueCodec: json''), db)
           else
             case im_create name field ty unique sparse (db_indexes db) of
               Inl e \<Rightarrow> (Some e, db)
             | Inr (ix, m) \<Rightarrow>
                 (case liveRecords w now db of
                    (rs, err) \<Rightarrow>
                      (let es = index_records rs; m1 = im_rebuild (num_str w) es m in
                       case err of
                         Some e \<Rightarrow> (Some e, db\<lparr> db_indexes := m1 \<rparr>)
                       | None \<Rightarrow>
                           (case assertUniqueValid name m1 of
                              Inl e \<Rightarrow> (Some e, db\<lparr> db_indexes := im_rebuild (num_str w) es (snd (im_drop name m1)) \<rparr>)
                            | Inr _ \<Rightarrow> (persist, db\<lparr> db_indexes := m1 \<rparr>))))))"

definition dropIndex :: "jstr \<Rightarrow> js_error option \<Rightarrow> mini_db \<Rightarrow> (js_error + bool) \<times> mini_db" where
  "dropIndex name persist db =
     (case guard_write db of
        Inl e \<Rightarrow> (Inl e, db)
      | Inr _ \<Rightarrow>
          (case im_drop name (db_indexes db) of
             (ok, m) \<Rightarrow> (case persist of Some e \<Rightarrow> Inl e | None \<Rightarrow> Inr ok, db\<lparr> db_indexes := m \<rparr>)))"

definition createCompoundIndex ::
  "'a world_scheme \<Rightarrow> int \<Rightarrow> jstr \<Rightarrow> jstr \<Rightarrow> jstr \<Rightarrow> order_type option \<Rightarrow> js_error option \<Rightarrow> mini_db \<Rightarrow> js_error option \<times> mini_db" where
  "createCompoundIndex w now name g ord ty persist db =
     (case guard_write db of
        Inl e \<Rightarrow> (Some e, db)
      | Inr _ \<Rightarrow>
          (if db_codec db \<noteq> JsonCodec then (Some (Error ''compound indexes require valueCodec: json''), db)
           else
             case c_create name g ord ty (db_compound db) of
               Inl e \<Rightarrow> (Some e, db)
             | Inr cs \<Rightarrow>
                 (case liveRecords w now db of
                    (rs, err) \<Rightarrow>
                      (case err of Some e \<Rightarrow> Some e | None \<Rightarrow> persist, db\<lparr> db_compound := c_rebuild rs cs \<rparr>))))"

definition dropCompoundIndex :: "jstr \<Rightarrow> js_error option \<Rightarrow> mini_db \<Rightarrow> (js_error + bool) \<times> mini_db" where
  "dropCompoundIndex name persist db =
     (case guard_write db of
        Inl e \<Rightarrow> (Inl e, db)
      | Inr _ \<Rightarrow>
          (case c_drop name (db_compound db) of
             (ok, cs) \<Rightarrow> (case persist of Some e \<Rightarrow> Inl e | None \<Rightarrow> Inr ok, db\<lparr> db_compound := cs \<rparr>)))"

text \<open>\<open>old\<close> is the postings file already at the path of the new index.\<close>

definition createTextIndex ::
  "'a world_scheme \<Rightarrow> int \<Rightarrow> jstr \<Rightarrow> jstr list option \<Rightarrow> bytes option \<Rightarrow> build_io \<Rightarrow> js_error option \<Rightarrow> mini_db \<Rightarrow>
     js_error option \<times> mini_db" where
  "createTextIndex w now name flds old io persist db =
     (case guard_write db of
        Inl e \<Rightarrow> (Some e, db)
      | Inr _ \<Rightarrow>
          (if db_codec db \<noteq> JsonCodec then (Some (Error ''text indexes require valueCodec: json''), db)
           else if jget (db_text db) name \<noteq> None then (Some (Error ''text index already exists''), db)
           else
             case liveRecords w now db of
               (rs, Some e) \<Rightarrow> (Some e, db)
             | (rs, None) \<Rightarrow>
                 (case build_one w io (text_records rs) (new_text_index flds (Some old) None) of
                    (Some e, ti) \<Rightarrow> (Some e, db)
                  | (None, ti) \<Rightarrow>
                      (case persist of
                         Some e \<Rightarrow> (Some e, db\<lparr> db_textDefs := filter (\<lambda>(n, f). n \<noteq> name) (db_textDefs db) \<rparr>)
                       | None \<Rightarrow> (None, db\<lparr> db_text := jset name ti (db_text db),
                                            db_textDefs := db_textDefs db @ [(name, flds)] \<rparr>)))))"

definition dropTextIndex :: "jstr \<Rightarrow> js_error option \<Rightarrow> mini_db \<Rightarrow> (js_error + bool) \<times> mini_db" where
  "dropTextIndex name persist db =
     (case guard_write db of
        Inl e \<Rightarrow> (Inl e, db)
      | Inr _ \<Rightarrow>
          (case persist of Some e \<Rightarrow> Inl e | None \<Rightarrow> Inr (jget (db_text db) name \<noteq> None),
           db\<lparr> db_text := jdel name (db_text db), db_textDefs := filter (\<lambda>(n, f). n \<noteq> name) (db_textDefs db) \<rparr>))"

end
