(* ===== verification/Planner.thy ===== *)
theory Planner
  imports MiniDbRead
begin

text \<open>
  The query planner of \<open>packages/minidb/src/index.ts\<close>: which indexes give the candidates of a filter,
  the walk of a dt column for a bounded query, and \<open>query\<close> itself without projection. A sort is
  the stable sort of a consistent comparator.
\<close>

section \<open>Predicates of a filter\<close>

definition dollar :: "jstr \<Rightarrow> bool" where
  "dollar k \<longleftrightarrow> k \<noteq> [] \<and> hd k = 36"

definition plain_entries :: "jsv \<Rightarrow> (jstr \<times> jsv) list" where
  "plain_entries f = (if is_object f then filter (\<lambda>(k, c). \<not> dollar k) (own_entries f) else [])"

definition indexPredicates :: "jsv \<Rightarrow> (jstr \<times> jsv) list" where
  "indexPredicates f =
     (if \<not> is_object f then []
      else concat (map (\<lambda>(key, cond).
        case (key = lit ''$and'', cond) of
          (True, JArr i xs) \<Rightarrow> concat (map plain_entries xs)
        | _ \<Rightarrow> if \<not> dollar key then [(key, cond)] else []) (own_entries f)))"

section \<open>Candidates of a predicate\<close>

text \<open>A bound that may be infinite or NaN: the finite bound, and whether nothing can satisfy it.\<close>

definition min_bound :: "jsv \<Rightarrow> rat option \<times> bool" where
  "min_bound v = (case v of JNum q \<Rightarrow> (Some q, False) | JInf neg \<Rightarrow> (None, \<not> neg) | _ \<Rightarrow> (None, False))"

definition max_bound :: "jsv \<Rightarrow> rat option \<times> bool" where
  "max_bound v = (case v of JNum q \<Rightarrow> (Some q, False) | JInf neg \<Rightarrow> (None, neg) | _ \<Rightarrow> (None, False))"

definition is_number :: "jsv \<Rightarrow> bool" where
  "is_number v = (case v of JNum q \<Rightarrow> True | JInf b \<Rightarrow> True | JNaN \<Rightarrow> True | _ \<Rightarrow> False)"

text \<open>The later of an inclusive and an exclusive bound, with its kind; \<open>None\<close> when neither is a number.\<close>

definition pick_bound :: "jsv \<Rightarrow> jsv \<Rightarrow> (jsv \<times> bool) option" where
  "pick_bound incl excl =
     (if is_number excl then Some (excl, True) else if is_number incl then Some (incl, False) else None)"

definition range_candidates :: "jstr \<Rightarrow> jsv \<Rightarrow> index_manager \<Rightarrow> js_error + kstr list option" where
  "range_candidates name cond m =
     (let lo = pick_bound (get_prop cond (lit ''$gte'')) (get_prop cond (lit ''$gt''));
          hi = pick_bound (get_prop cond (lit ''$lte'')) (get_prop cond (lit ''$lt''));
          (mn, none1) = (case lo of None \<Rightarrow> (None, False) | Some (v, x) \<Rightarrow> min_bound v);
          (mx, none2) = (case hi of None \<Rightarrow> (None, False) | Some (v, x) \<Rightarrow> max_bound v) in
      if lo = None \<and> hi = None then Inr None
      else if none1 \<or> none2 then Inr (Some [])
      else
        map_result (\<lambda>rows. Some (set_of (map fst rows)))
          (findRange name \<lparr> fmin = mn, fmax = mx, minExclusive = (case lo of Some (v, x) \<Rightarrow> x | None \<Rightarrow> False),
             maxExclusive = (case hi of Some (v, x) \<Rightarrow> x | None \<Rightarrow> False), foffset = 0, fcount = None, freverse = False \<rparr> m))"

definition find_index :: "index_type \<Rightarrow> jstr \<Rightarrow> index_manager \<Rightarrow> index_head option" where
  "find_index ty field m =
     map_option fst (List.find (\<lambda>(h, t). ixfield h = field \<and> t = ty) (im_list m))"

definition op_object :: "jsv \<Rightarrow> bool" where
  "op_object cond = (case cond of JObj i fs \<Rightarrow> True | JArr i xs \<Rightarrow> True | _ \<Rightarrow> False)"

text \<open>\<open>Object.keys(ops).length === 1 && '$eq' in ops\<close>, with the argument.\<close>

definition only_eq :: "jsv \<Rightarrow> jsv option" where
  "only_eq cond = (case own_entries cond of [(k, v)] \<Rightarrow> if k = lit ''$eq'' then Some v else None | _ \<Rightarrow> None)"

fun find_all_eq :: "num_text \<Rightarrow> jstr \<Rightarrow> jsv list \<Rightarrow> index_manager \<Rightarrow> js_error + kstr list" where
  "find_all_eq ns name [] m = Inr []"
| "find_all_eq ns name (v # vs) m =
     (case findEq ns name v m of
        Inl e \<Rightarrow> Inl e | Inr ks \<Rightarrow> map_result (\<lambda>r. ks @ r) (find_all_eq ns name vs m))"

definition eq_candidates :: "num_text \<Rightarrow> jstr \<Rightarrow> jsv \<Rightarrow> index_manager \<Rightarrow> js_error + kstr list option" where
  "eq_candidates ns name cond m =
     (if \<not> op_object cond then map_result (\<lambda>ks. Some (set_of ks)) (findEq ns name cond m)
      else
        case only_eq cond of
          Some v \<Rightarrow> map_result (\<lambda>ks. Some (set_of ks)) (findEq ns name v m)
        | None \<Rightarrow>
            (case get_prop cond (lit ''$in'') of
               JArr i xs \<Rightarrow> map_result (\<lambda>ks. Some (set_of ks)) (find_all_eq ns name xs m)
             | _ \<Rightarrow> Inr None))"

definition candidateKeysForPredicate :: "'a world_scheme \<Rightarrow> jstr \<Rightarrow> jsv \<Rightarrow> mini_db \<Rightarrow> js_error + kstr list option" where
  "candidateKeysForPredicate w field cond db =
     (if db_codec db \<noteq> JsonCodec \<or> db_indexes db = [] then Inr None
      else
        case (case find_index Equality field (db_indexes db) of
                None \<Rightarrow> Inr None | Some h \<Rightarrow> eq_candidates (num_str w) (ixname h) cond (db_indexes db)) of
          Inl e \<Rightarrow> Inl e
        | Inr (Some ks) \<Rightarrow> Inr (Some ks)
        | Inr None \<Rightarrow>
            (case find_index Range field (db_indexes db) of
               None \<Rightarrow> Inr None
             | Some h \<Rightarrow> if op_object cond then range_candidates (ixname h) cond (db_indexes db) else Inr None))"

definition meet :: "kstr list option \<Rightarrow> kstr list option \<Rightarrow> kstr list option" where
  "meet acc s =
     (case s of
        None \<Rightarrow> acc
      | Some ks \<Rightarrow> (case acc of None \<Rightarrow> Some ks | Some c \<Rightarrow> Some (filter (\<lambda>k. k \<in> set ks) c)))"

fun indexed_loop ::
  "'a world_scheme \<Rightarrow> (jstr \<times> jsv) list \<Rightarrow> kstr list option \<Rightarrow> mini_db \<Rightarrow> js_error + kstr list option" where
  "indexed_loop w [] acc db = Inr acc"
| "indexed_loop w ((field, cond) # ps) acc db =
     (case candidateKeysForPredicate w field cond db of
        Inl e \<Rightarrow> Inl e | Inr s \<Rightarrow> indexed_loop w ps (meet acc s) db)"

definition indexedCandidateKeys :: "'a world_scheme \<Rightarrow> jsv \<Rightarrow> mini_db \<Rightarrow> (js_error + kstr list option) \<times> mini_db" where
  "indexedCandidateKeys w f db =
     (case indexed_loop w (indexPredicates f) None db of
        Inl e \<Rightarrow> (Inl e, db)
      | Inr None \<Rightarrow> (Inr None, db)
      | Inr (Some ks) \<Rightarrow> (Inr (Some ks), db\<lparr> st_indexHits := st_indexHits db + 1 \<rparr>))"

definition cheapEqChecks :: "jsv \<Rightarrow> mini_db \<Rightarrow> (jstr \<times> jsv) list" where
  "cheapEqChecks f db =
     (if db_indexes db = [] then []
      else List.map_filter (\<lambda>(field, cond).
        case find_index Equality field (db_indexes db) of
          None \<Rightarrow> None
        | Some h \<Rightarrow> map_option (\<lambda>v. (ixname h, v)) (if op_object cond then only_eq cond else Some cond))
        (indexPredicates f))"

section \<open>Queries\<close>

datatype key_query = KeyIs jstr | KeyPrefix jstr | KeyRange "jstr range_options"

record dt_cond =
  dq_range :: "rat range_options"
  dq_offset :: "nat option"

record query_options =
  q_key :: "key_query option"
  q_dt :: "(jstr \<times> dt_cond) list option"
  q_text :: "(jstr \<times> jstr \<times> search_op option \<times> nat option) option"
  q_filter :: jsv
  q_sort :: "(jstr \<times> int) list option"
  q_skip :: "nat option"
  q_limit :: "nat option"

definition dt_opts :: "dt_cond \<Rightarrow> rat range_options" where
  "dt_opts c = (dq_range c)\<lparr> roffset := (case dq_offset c of None \<Rightarrow> 0 | Some n \<Rightarrow> n) \<rparr>"

record row =
  r_key :: kstr
  r_value :: jsv
  r_dt :: "dt option"

definition dt_of :: "kstr \<Rightarrow> mini_db \<Rightarrow> dt option" where
  "dt_of k db = (case jget (smap (db_store db)) k of None \<Rightarrow> None | Some r \<Rightarrow> sdt r)"

text \<open>One candidate: its row when it is live and matches.\<close>

definition fetch :: "'a world_scheme \<Rightarrow> int \<Rightarrow> jsv \<Rightarrow> kstr \<Rightarrow> mini_db \<Rightarrow> (js_error + row option) \<times> mini_db" where
  "fetch w now f k db =
     (case db_get w now k db of
        (Inl e, db1) \<Rightarrow> (Inl e, db1)
      | (Inr None, db1) \<Rightarrow> (Inr None, db1)
      | (Inr (Some b), db1) \<Rightarrow>
          (case dec w b of
             Inl e \<Rightarrow> (Inl e, db1)
           | Inr v \<Rightarrow>
               (map_result (\<lambda>m. if m then Some \<lparr> r_key = k, r_value = v, r_dt = dt_of k db1 \<rparr> else None)
                  (match_doc (lang.truncate w) v f), db1)))"

fun eq_rejects :: "num_text \<Rightarrow> (jstr \<times> jsv) list \<Rightarrow> kstr \<Rightarrow> index_manager \<Rightarrow> js_error + bool" where
  "eq_rejects ns [] k m = Inr False"
| "eq_rejects ns ((name, v) # cs) k m =
     (case hasEq ns name v k m of
        Inl e \<Rightarrow> Inl e | Inr b \<Rightarrow> if b then eq_rejects ns cs k m else Inr True)"

text \<open>The walk of a dt column; \<open>skipped\<close> and \<open>n\<close> count the rows skipped and taken.\<close>

fun dt_walk ::
  "'a world_scheme \<Rightarrow> int \<Rightarrow> (jstr \<times> jsv) list \<Rightarrow> jsv \<Rightarrow> nat \<Rightarrow> nat \<Rightarrow> kstr list \<Rightarrow> nat \<Rightarrow> nat \<Rightarrow> mini_db \<Rightarrow>
     (js_error + row list) \<times> mini_db" where
  "dt_walk w now checks f skip limit [] skipped n db = (Inr [], db)"
| "dt_walk w now checks f skip limit (k # ks) skipped n db =
     (case eq_rejects (num_str w) checks k (db_indexes db) of
        Inl e \<Rightarrow> (Inl e, db)
      | Inr True \<Rightarrow> dt_walk w now checks f skip limit ks skipped n db
      | Inr False \<Rightarrow>
          (case fetch w now f k db of
             (Inl e, db1) \<Rightarrow> (Inl e, db1)
           | (Inr None, db1) \<Rightarrow> dt_walk w now checks f skip limit ks skipped n db1
           | (Inr (Some r), db1) \<Rightarrow>
               if skipped < skip then dt_walk w now checks f skip limit ks (skipped + 1) n db1
               else if n + 1 \<ge> limit then (Inr [r], db1)
               else (case dt_walk w now checks f skip limit ks skipped (n + 1) db1 of
                       (rs, db2) \<Rightarrow> (map_result (\<lambda>rs. r # rs) rs, db2))))"

text \<open>Whether a query takes the walk: the column, the options of the walk, and the limit.\<close>

definition dt_plan :: "query_options \<Rightarrow> (jstr \<times> rat range_options \<times> nat) option" where
  "dt_plan q =
     (case (q_text q, q_key q, q_limit q, q_dt q) of
        (None, None, Some limit, Some [(col, c)]) \<Rightarrow>
          (if dq_offset c \<noteq> None \<or> rcount (dq_range c) \<noteq> None then None
           else
             map_option (\<lambda>rv. (col, (dq_range c)\<lparr> roffset := 0, rcount := None, rreverse := rv \<rparr>, limit))
               (case q_sort q of
                  None \<Rightarrow> Some False
                | Some [(k, dir)] \<Rightarrow> if k = col then Some (dir < 0) else None
                | Some _ \<Rightarrow> None))
      | _ \<Rightarrow> None)"

definition tryDtOrderedLimit :: "'a world_scheme \<Rightarrow> int \<Rightarrow> query_options \<Rightarrow> mini_db \<Rightarrow> ((js_error + row list) \<times> mini_db) option" where
  "tryDtOrderedLimit w now q db =
     map_option (\<lambda>(col, r, limit).
         dt_walk w now (cheapEqChecks (q_filter q) db) (q_filter q) (case q_skip q of None \<Rightarrow> 0 | Some n \<Rightarrow> n) limit
           (map fst (dt_range col r (db_dt db))) 0 0 db)
       (dt_plan q)"

text \<open>
  The candidates: the keys in order, whether they come from \<open>rawKeys\<close> (which checks each key when
  it is pulled) and the sets that filter them.
\<close>

record source =
  src_keys :: "kstr list"
  src_raw :: bool
  src_sets :: "kstr list list"

definition narrow :: "source option \<Rightarrow> kstr list \<Rightarrow> source option" where
  "narrow s ks =
     (case s of
        None \<Rightarrow> Some \<lparr> src_keys = ks, src_raw = False, src_sets = [] \<rparr>
      | Some x \<Rightarrow> Some (x\<lparr> src_sets := src_sets x @ [ks] \<rparr>))"

definition raw_source :: "kstr range_options \<Rightarrow> mini_db \<Rightarrow> source" where
  "raw_source r db = \<lparr> src_keys = map fst (oi_range r (order (db_store db))), src_raw = True, src_sets = [] \<rparr>"

definition key_source :: "key_query option \<Rightarrow> mini_db \<Rightarrow> source option" where
  "key_source kq db =
     (case kq of
        None \<Rightarrow> None
      | Some (KeyIs s) \<Rightarrow> Some \<lparr> src_keys = [text_kstr s], src_raw = False, src_sets = [] \<rparr>
      | Some (KeyPrefix p) \<Rightarrow>
          Some (raw_source (no_range\<lparr> gte := Some (text_kstr p), lt := Some (text_kstr p @ [65535]) \<rparr>) db)
      | Some (KeyRange r) \<Rightarrow>
          Some (raw_source ((canonRange r)\<lparr> roffset := 0, rcount := None, rreverse := False \<rparr>) db))"

definition dt_source :: "(jstr \<times> dt_cond) list option \<Rightarrow> mini_db \<Rightarrow> source option \<Rightarrow> source option" where
  "dt_source ds db s =
     (case ds of
        None \<Rightarrow> s
      | Some cs \<Rightarrow> fold (\<lambda>(col, c) s. narrow s (set_of (map fst (dt_range col (dt_opts c) (db_dt db))))) cs s)"

fun query_loop ::
  "'a world_scheme \<Rightarrow> int \<Rightarrow> bool \<Rightarrow> kstr list list \<Rightarrow> jsv \<Rightarrow> bool \<Rightarrow> nat \<Rightarrow> nat option \<Rightarrow> kstr list \<Rightarrow> nat \<Rightarrow> nat \<Rightarrow> mini_db \<Rightarrow>
     (js_error + row list) \<times> mini_db" where
  "query_loop w now raw sets f early skip limit [] seen n db = (Inr [], db)"
| "query_loop w now raw sets f early skip limit (k # ks) seen n db =
     (case (if raw then db_has w now k db else (True, db)) of
        (False, db1) \<Rightarrow> query_loop w now raw sets f early skip limit ks seen n db1
      | (True, db1) \<Rightarrow>
          if \<not> list_all (\<lambda>s. k \<in> set s) sets then query_loop w now raw sets f early skip limit ks seen n db1
          else
            (case fetch w now f k db1 of
               (Inl e, db2) \<Rightarrow> (Inl e, db2)
             | (Inr None, db2) \<Rightarrow> query_loop w now raw sets f early skip limit ks seen n db2
             | (Inr (Some r), db2) \<Rightarrow>
                 if early \<and> seen < skip then query_loop w now raw sets f early skip limit ks (seen + 1) n db2
                 else if early \<and> (case limit of None \<Rightarrow> False | Some m \<Rightarrow> n + 1 \<ge> m) then (Inr [r], db2)
                 else (case query_loop w now raw sets f early skip limit ks (seen + 1) (n + 1) db2 of
                         (rs, db3) \<Rightarrow> (map_result (\<lambda>rs. r # rs) rs, db3))))"

definition rank :: "kstr list \<Rightarrow> kstr \<Rightarrow> nat" where
  "rank ks k = (if k \<in> set ks then length (takeWhile (\<lambda>x. x \<noteq> k) ks) else 1000000000)"

fun row_cmp :: "lang \<Rightarrow> (jstr \<times> int) list \<Rightarrow> jsv \<Rightarrow> jsv \<Rightarrow> int" where
  "row_cmp L [] a b = 0"
| "row_cmp L ((p, dir) # es) a b =
     (let less = js_less (num_str L) (str_num L); av = getPath a p; bv = getPath b p;
          c = (if less av bv = Some True then - 1 else if less bv av = Some True then 1 else 0) in
      if c \<noteq> 0 then (if dir < 0 then - c else c) else row_cmp L es a b)"

fun insert_by :: "('x \<Rightarrow> 'x \<Rightarrow> int) \<Rightarrow> 'x \<Rightarrow> 'x list \<Rightarrow> 'x list" where
  "insert_by cmp x [] = [x]"
| "insert_by cmp x (y # ys) = (if cmp x y > 0 then y # insert_by cmp x ys else x # y # ys)"

definition sort_by :: "('x \<Rightarrow> 'x \<Rightarrow> int) \<Rightarrow> 'x list \<Rightarrow> 'x list" where
  "sort_by cmp xs = foldr (insert_by cmp) xs []"

definition slice_rows :: "bool \<Rightarrow> nat \<Rightarrow> nat option \<Rightarrow> 'x list \<Rightarrow> 'x list" where
  "slice_rows early skip limit rows =
     (if early then rows
      else case limit of None \<Rightarrow> drop skip rows | Some n \<Rightarrow> take n (drop skip rows))"

definition order_rows :: "lang \<Rightarrow> (kstr list) option \<Rightarrow> (jstr \<times> int) list option \<Rightarrow> row list \<Rightarrow> row list" where
  "order_rows L hits srt rows =
     (let rows1 = (case (hits, srt) of (Some ks, None) \<Rightarrow> sort_key (\<lambda>r. rank ks (r_key r)) rows | _ \<Rightarrow> rows) in
      case srt of None \<Rightarrow> rows1 | Some es \<Rightarrow> sort_by (\<lambda>a b. row_cmp L es (r_value a) (r_value b)) rows1)"

text \<open>The hits of the text part, \<open>None\<close> without one.\<close>

definition text_hits :: "'a world_scheme \<Rightarrow> query_options \<Rightarrow> mini_db \<Rightarrow> (js_error + kstr list option) \<times> mini_db" where
  "text_hits w q db =
     (case q_text q of
        None \<Rightarrow> (Inr None, db)
      | Some (name, s, op, limit) \<Rightarrow>
          (case ask_text w name s op (case limit of None \<Rightarrow> Some 1000000 | Some n \<Rightarrow> Some n) db of
             (r, db1) \<Rightarrow> (map_result (\<lambda>hs. Some (map fst hs)) r, db1)))"

definition general_query :: "'a world_scheme \<Rightarrow> int \<Rightarrow> query_options \<Rightarrow> mini_db \<Rightarrow> (js_error + row list) \<times> mini_db" where
  "general_query w now q db =
     (let s1 = dt_source (q_dt q) db (key_source (q_key q) db) in
      case text_hits w q db of
        (Inl e, db1) \<Rightarrow> (Inl e, db1)
      | (Inr hits, db1) \<Rightarrow>
          (let s2 = (case hits of None \<Rightarrow> s1 | Some ks \<Rightarrow> narrow s1 ks) in
           case indexedCandidateKeys w (q_filter q) db1 of
             (Inl e, db2) \<Rightarrow> (Inl e, db2)
           | (Inr indexed, db2) \<Rightarrow>
               (let s3 = (case indexed of None \<Rightarrow> s2 | Some ks \<Rightarrow> narrow s2 ks);
                    s = (case s3 of None \<Rightarrow> raw_source no_range db2 | Some x \<Rightarrow> x);
                    skip = (case q_skip q of None \<Rightarrow> 0 | Some n \<Rightarrow> n);
                    early = (q_sort q = None \<and> hits = None) in
                case query_loop w now (src_raw s) (src_sets s) (q_filter q) early skip (q_limit q) (src_keys s) 0 0 db2 of
                  (Inl e, db3) \<Rightarrow> (Inl e, db3)
                | (Inr rows, db3) \<Rightarrow>
                    (Inr (slice_rows early skip (q_limit q) (order_rows (lang.truncate w) hits (q_sort q) rows)), db3))))"

definition query :: "'a world_scheme \<Rightarrow> int \<Rightarrow> query_options \<Rightarrow> mini_db \<Rightarrow> (js_error + (jstr \<times> jsv \<times> dt option) list) \<times> mini_db" where
  "query w now q db =
     (case ensureOpen db of
        Inl e \<Rightarrow> (Inl e, db)
      | Inr _ \<Rightarrow>
          (case (case tryDtOrderedLimit w now q db of Some r \<Rightarrow> r | None \<Rightarrow> general_query w now q db) of
             (r, db1) \<Rightarrow> (map_result (map (\<lambda>r. (kstr_text (r_key r), r_value r, r_dt r))) r, db1)))"

end
