(* ===== verification/IndexRows.thy ===== *)
theory IndexRows
  imports Planner
begin

text \<open>
  What the derived indexes of a database hold of one key, its row, and how putting and deleting a
  record changes the rows. The row is compared with the one the definitions of the indexes give.
\<close>

section \<open>Rows\<close>

record idx_row =
  rw_dt :: "(jstr \<Rightarrow> rat option) option"
  rw_compound :: "jstr \<Rightarrow> (jkey \<times> order_key) option"
  rw_eq :: "jstr \<Rightarrow> jstr list option"
  rw_range :: "jstr \<Rightarrow> rat list option"
  rw_text :: "jstr \<Rightarrow> ((jstr \<Rightarrow> nat option) \<times> nat option) option"

definition no_row :: idx_row where
  "no_row = \<lparr> rw_dt = None, rw_compound = (\<lambda>n. None), rw_eq = (\<lambda>n. None), rw_range = (\<lambda>n. None), rw_text = (\<lambda>n. None) \<rparr>"

definition row_of :: "mini_db \<Rightarrow> kstr \<Rightarrow> idx_row" where
  "row_of db k =
     \<lparr> rw_dt = dt_view (db_dt db) k,
       rw_compound = (\<lambda>n. case jget (db_compound db) n of None \<Rightarrow> None | Some c \<Rightarrow> c_view c k),
       rw_eq = (\<lambda>n. case jget (db_indexes db) n of Some (EqIndex e) \<Rightarrow> eq_view e k | _ \<Rightarrow> None),
       rw_range = (\<lambda>n. case jget (db_indexes db) n of Some (RangeIndex r) \<Rightarrow> range_view r k | _ \<Rightarrow> None),
       rw_text = (\<lambda>n. case jget (db_text db) n of None \<Rightarrow> None | Some ti \<Rightarrow> text_view ti k) \<rparr>"

text \<open>The definitions of the indexes, which no write changes.\<close>

record idx_defs =
  df_compound :: "jstr \<Rightarrow> compound_def option"
  df_index :: "jstr \<Rightarrow> (index_head \<times> index_type) option"
  df_text :: "jstr \<Rightarrow> jstr list option option"

definition idx_defs_of :: "mini_db \<Rightarrow> idx_defs" where
  "idx_defs_of db =
     \<lparr> df_compound = (\<lambda>n. map_option cdef (jget (db_compound db) n)),
       df_index = (\<lambda>n. map_option (\<lambda>ix. (head_of ix, type_of_index ix)) (jget (db_indexes db) n)),
       df_text = (\<lambda>n. map_option ti_fields (jget (db_text db) n)) \<rparr>"

definition row_for :: "'a world_scheme \<Rightarrow> idx_defs \<Rightarrow> jsv \<Rightarrow> dt option \<Rightarrow> idx_row" where
  "row_for w D doc d =
     \<lparr> rw_dt = dt_content d,
       rw_compound = (\<lambda>n. case df_compound D n of None \<Rightarrow> None | Some c \<Rightarrow> c_content c (doc, d)),
       rw_eq = (\<lambda>n. case df_index D n of Some (h, Equality) \<Rightarrow> eq_content (num_str w) h doc | _ \<Rightarrow> None),
       rw_range = (\<lambda>n. case df_index D n of Some (h, Range) \<Rightarrow> range_content h doc | _ \<Rightarrow> None),
       rw_text = (\<lambda>n. case df_text D n of None \<Rightarrow> None
                     | Some flds \<Rightarrow> if is_object doc then text_content (lower_case w) flds doc else None) \<rparr>"

fun any_ok :: "any_index \<Rightarrow> bool" where
  "any_ok (EqIndex e) = eq_ok (index_head.truncate e) e"
| "any_ok (RangeIndex r) = range_ok (index_head.truncate r) r"

definition idx_ok :: "mini_db \<Rightarrow> bool" where
  "idx_ok db \<longleftrightarrow> dt_ok (db_dt db) \<and> jmap_ok (db_indexes db) \<and>
     (\<forall>n ix. jget (db_indexes db) n = Some ix \<longrightarrow> any_ok ix \<and> ixname (head_of ix) = n) \<and>
     (\<forall>n c. jget (db_compound db) n = Some c \<longrightarrow> entry_ok (cdef c) c) \<and>
     (\<forall>n ti. jget (db_text db) n = Some ti \<longrightarrow> text_ok (ti_fields ti) ti)"

lemma idx_okD:
  assumes "idx_ok db"
  shows "dt_ok (db_dt db)" "jmap_ok (db_indexes db)" "jget (db_indexes db) n = Some ix \<Longrightarrow> any_ok ix"
    "jget (db_indexes db) n = Some ix \<Longrightarrow> ixname (head_of ix) = n"
    "jget (db_compound db) n = Some c \<Longrightarrow> entry_ok (cdef c) c" "jget (db_text db) n = Some ti \<Longrightarrow> text_ok (ti_fields ti) ti"
  using assms by (auto simp: idx_ok_def)

section \<open>Putting and deleting in the parts\<close>

text \<open>The parts that hold the indexes.\<close>

definition idx_part :: "mini_db \<Rightarrow> dt_index \<times> compound_indexes \<times> index_manager \<times> (jstr, text_index) jmap" where
  "idx_part db = (db_dt db, db_compound db, db_indexes db, db_text db)"

lemma idx_part_cong:
  "idx_part db' = idx_part db \<Longrightarrow> row_of db' = row_of db \<and> idx_defs_of db' = idx_defs_of db \<and> idx_ok db' = idx_ok db"
  by (simp add: idx_part_def row_of_def idx_defs_of_def idx_ok_def fun_eq_iff)

type_synonym rec_op = "(kstr, jsv \<times> dt option) ix_op"

fun doc_op :: "rec_op \<Rightarrow> (kstr, jsv) ix_op" where
  "doc_op (IxPut k r) = IxPut k (fst r)"
| "doc_op (IxDel k) = IxDel k"

fun dt_op :: "rec_op \<Rightarrow> (kstr, dt option) ix_op" where
  "dt_op (IxPut k r) = IxPut k (snd r)"
| "dt_op (IxDel k) = IxDel k"

fun op_key :: "rec_op \<Rightarrow> kstr" where
  "op_key (IxPut k r) = k"
| "op_key (IxDel k) = k"

fun op_legal :: "rec_op \<Rightarrow> bool" where
  "op_legal (IxPut k r) = dt_legal (snd r)"
| "op_legal (IxDel k) = True"

fun op_row :: "'a world_scheme \<Rightarrow> idx_defs \<Rightarrow> rec_op \<Rightarrow> idx_row" where
  "op_row w D (IxPut k r) = row_for w D (fst r) (snd r)"
| "op_row w D (IxDel k) = no_row"

definition text_put :: "(jstr \<Rightarrow> jstr) \<Rightarrow> kstr \<Rightarrow> jsv \<Rightarrow> text_index \<Rightarrow> text_index" where
  "text_put lower k doc ti = (if is_object doc then text_add lower k doc ti else text_remove k ti)"

definition step_part :: "'a world_scheme \<Rightarrow> rec_op \<Rightarrow> dt_index \<times> compound_indexes \<times> index_manager \<times> (jstr, text_index) jmap \<Rightarrow>
    dt_index \<times> compound_indexes \<times> index_manager \<times> (jstr, text_index) jmap" where
  "step_part w a p = (case p of (dx, cx, m, tx) \<Rightarrow>
     (ix_step dt_set dt_del (dt_op a) dx, map (\<lambda>(n, c). (n, ix_step entry_put entry_remove a c)) cx,
      im_step (num_str w) (doc_op a) m, map (\<lambda>(n, ti). (n, ix_step (text_put (lower_case w)) text_remove (doc_op a) ti)) tx))"

lemma jget_map2: "jget (map (\<lambda>(k, v). (k, f v)) m) k = map_option f (jget m k)"
  by (induction m) auto

lemma jkeys_map2: "jkeys (map (\<lambda>(k, v). (k, f v)) m) = jkeys m"
  by (induction m) auto

lemma any_step_ok:
  assumes "any_ok ix"
  shows "any_ok (any_step ns a ix)" "head_of (any_step ns a ix) = head_of ix"
    "type_of_index (any_step ns a ix) = type_of_index ix"
proof -
  have "any_ok (any_step ns a ix) \<and> head_of (any_step ns a ix) = head_of ix \<and> type_of_index (any_step ns a ix) = type_of_index ix"
  proof (cases ix)
    case (EqIndex e)
    let ?h = "index_head.truncate e"
    have e: "eq_ok ?h e" using assms EqIndex by simp
    have "eq_ok ?h (ix_step (eq_put ns) eq_remove a e)"
      by (cases a) (use eq_put_ok [OF e] eq_remove_ok [OF e] in simp_all)
    moreover from this have "index_head.truncate (ix_step (eq_put ns) eq_remove a e) = ?h" by (simp add: eq_ok_def)
    ultimately show ?thesis by (simp add: EqIndex)
  next
    case (RangeIndex r)
    let ?h = "index_head.truncate r"
    have r: "range_ok ?h r" using assms RangeIndex by simp
    have "range_ok ?h (ix_step range_put range_remove a r)"
      by (cases a) (use range_put_ok [OF r] range_remove_ok [OF r] in simp_all)
    moreover from this have "index_head.truncate (ix_step range_put range_remove a r) = ?h" by (simp add: range_ok_def)
    ultimately show ?thesis by (simp add: RangeIndex)
  qed
  then show "any_ok (any_step ns a ix)" "head_of (any_step ns a ix) = head_of ix"
    "type_of_index (any_step ns a ix) = type_of_index ix" by auto
qed

lemma entry_step_ok:
  assumes "entry_ok (cdef c) c"
  shows "entry_ok (cdef c) (ix_step entry_put entry_remove a c)" "cdef (ix_step entry_put entry_remove a c) = cdef c"
    "c_view (ix_step entry_put entry_remove a c) k =
       (if k = op_key a then (case a of IxPut k r \<Rightarrow> c_content (cdef c) r | IxDel k \<Rightarrow> None) else c_view c k)"
proof -
  have ok: "entry_ok (cdef c) (ix_step entry_put entry_remove a c) \<and> c_view (ix_step entry_put entry_remove a c) k =
      (if k = op_key a then (case a of IxPut k r \<Rightarrow> c_content (cdef c) r | IxDel k \<Rightarrow> None) else c_view c k)"
    by (cases a) (use entry_put_ok [OF assms] entry_remove_ok [OF assms] in simp_all)
  then show "entry_ok (cdef c) (ix_step entry_put entry_remove a c)" "cdef (ix_step entry_put entry_remove a c) = cdef c"
    "c_view (ix_step entry_put entry_remove a c) k =
       (if k = op_key a then (case a of IxPut k r \<Rightarrow> c_content (cdef c) r | IxDel k \<Rightarrow> None) else c_view c k)"
    using entry_okD(1) by auto
qed

lemma text_step_ok:
  assumes "text_ok (ti_fields ti) ti"
  shows "text_ok (ti_fields ti) (ix_step (text_put lower) text_remove (doc_op a) ti)"
    "ti_fields (ix_step (text_put lower) text_remove (doc_op a) ti) = ti_fields ti"
    "text_view (ix_step (text_put lower) text_remove (doc_op a) ti) k =
       (if k = op_key a then (case a of IxPut k r \<Rightarrow> if is_object (fst r) then text_content lower (ti_fields ti) (fst r) else None
                              | IxDel k \<Rightarrow> None)
        else text_view ti k)"
proof -
  have ok: "text_ok (ti_fields ti) (ix_step (text_put lower) text_remove (doc_op a) ti) \<and>
      text_view (ix_step (text_put lower) text_remove (doc_op a) ti) k =
       (if k = op_key a then (case a of IxPut k r \<Rightarrow> if is_object (fst r) then text_content lower (ti_fields ti) (fst r) else None
                              | IxDel k \<Rightarrow> None)
        else text_view ti k)"
    by (cases a) (use text_add_ok [OF assms] text_remove_ok [OF assms] in \<open>simp_all add: text_put_def\<close>)
  then show "text_ok (ti_fields ti) (ix_step (text_put lower) text_remove (doc_op a) ti)"
    "ti_fields (ix_step (text_put lower) text_remove (doc_op a) ti) = ti_fields ti"
    "text_view (ix_step (text_put lower) text_remove (doc_op a) ti) k =
       (if k = op_key a then (case a of IxPut k r \<Rightarrow> if is_object (fst r) then text_content lower (ti_fields ti) (fst r) else None
                              | IxDel k \<Rightarrow> None)
        else text_view ti k)"
    using text_okD(1) by auto
qed

lemma eq_step_view:
  assumes "eq_ok (index_head.truncate e) e"
  shows "eq_view (ix_step (eq_put ns) eq_remove (doc_op a) e) k =
    (if k = op_key a then (case a of IxPut k r \<Rightarrow> eq_content ns (index_head.truncate e) (fst r) | IxDel k \<Rightarrow> None) else eq_view e k)"
  by (cases a) (use eq_put_ok [OF assms] eq_remove_ok [OF assms] in simp_all)

lemma range_step_view:
  assumes "range_ok (index_head.truncate r) r"
  shows "range_view (ix_step range_put range_remove (doc_op a) r) k =
    (if k = op_key a then (case a of IxPut k x \<Rightarrow> range_content (index_head.truncate r) (fst x) | IxDel k \<Rightarrow> None) else range_view r k)"
  by (cases a) (use range_put_ok [OF assms] range_remove_ok [OF assms] in simp_all)

lemma dt_step_view:
  assumes "dt_ok s" "op_legal a"
  shows "dt_ok (ix_step dt_set dt_del (dt_op a) s)"
    "dt_view (ix_step dt_set dt_del (dt_op a) s) k =
      (if k = op_key a then (case a of IxPut k r \<Rightarrow> dt_content (snd r) | IxDel k \<Rightarrow> None) else dt_view s k)"
  by (cases a; use dt_set_ok [OF assms(1)] dt_del_ok [OF assms(1)] assms(2) in simp)+

text \<open>A put or a delete changes the row of its key to the one the definitions give, and no other.\<close>

lemma step_part_ok:
  assumes ok: "idx_ok db" and a: "op_legal a" and p: "idx_part db' = step_part w a (idx_part db)"
  shows "idx_ok db'" "idx_defs_of db' = idx_defs_of db" "row_of db' = (row_of db)(op_key a := op_row w (idx_defs_of db) a)"
proof -
  note D = idx_okD [OF ok]
  have f: "db_dt db' = ix_step dt_set dt_del (dt_op a) (db_dt db)"
    "db_compound db' = map (\<lambda>(n, c). (n, ix_step entry_put entry_remove a c)) (db_compound db)"
    "db_indexes db' = map (\<lambda>(n, ix). (n, any_step (num_str w) (doc_op a) ix)) (db_indexes db)"
    "db_text db' = map (\<lambda>(n, ti). (n, ix_step (text_put (lower_case w)) text_remove (doc_op a) ti)) (db_text db)"
    using p by (simp_all add: idx_part_def step_part_def im_step_map)
  have g: "jget (db_compound db') n = map_option (ix_step entry_put entry_remove a) (jget (db_compound db) n)"
    "jget (db_indexes db') n = map_option (any_step (num_str w) (doc_op a)) (jget (db_indexes db) n)"
    "jget (db_text db') n = map_option (ix_step (text_put (lower_case w)) text_remove (doc_op a)) (jget (db_text db) n)" for n
    by (simp_all only: f(2-4) jget_map2)
  note dt = dt_step_view [OF D(1) a, folded f(1)]
  have "jmap_ok (db_indexes db')" using D(2) unfolding f(3) jmap_ok_def jkeys_map2 .
  then show "idx_ok db'"
    unfolding idx_ok_def g using dt(1) entry_step_ok [OF D(5)] any_step_ok [OF D(3)] D(4) text_step_ok [OF D(6)] by auto
  show "idx_defs_of db' = idx_defs_of db"
  proof -
    have "df_compound (idx_defs_of db') n = df_compound (idx_defs_of db) n" for n
      by (cases "jget (db_compound db) n") (simp_all add: idx_defs_of_def g entry_step_ok(2) [OF D(5)])
    moreover have "df_index (idx_defs_of db') n = df_index (idx_defs_of db) n" for n
      by (cases "jget (db_indexes db) n") (simp_all add: idx_defs_of_def g any_step_ok(2,3) [OF D(3)])
    moreover have "df_text (idx_defs_of db') n = df_text (idx_defs_of db) n" for n
      by (cases "jget (db_text db) n") (simp_all add: idx_defs_of_def g text_step_ok(2) [OF D(6)])
    ultimately show ?thesis by (simp add: fun_eq_iff)
  qed
  let ?R = "(row_of db)(op_key a := op_row w (idx_defs_of db) a)"
  show "row_of db' = ?R"
  proof
    fix k
    have "rw_dt (row_of db' k) = rw_dt (?R k)"
      by (cases a) (simp_all add: row_of_def row_for_def no_row_def dt(2))
    moreover have "rw_compound (row_of db' k) n = rw_compound (?R k) n" for n
    proof (cases "jget (db_compound db) n")
      case (Some c)
      then show ?thesis using entry_step_ok(3) [OF D(5) [OF Some], of a k]
        by (cases a) (simp_all add: row_of_def row_for_def no_row_def idx_defs_of_def g)
    qed (cases a; simp add: row_of_def row_for_def no_row_def idx_defs_of_def g)
    moreover have "rw_text (row_of db' k) n = rw_text (?R k) n" for n
    proof (cases "jget (db_text db) n")
      case (Some ti)
      then show ?thesis using text_step_ok(3) [OF D(6) [OF Some], of "lower_case w" a k]
        by (cases a) (simp_all add: row_of_def row_for_def no_row_def idx_defs_of_def g)
    qed (cases a; simp add: row_of_def row_for_def no_row_def idx_defs_of_def g)
    moreover have "rw_eq (row_of db' k) n = rw_eq (?R k) n \<and> rw_range (row_of db' k) n = rw_range (?R k) n" for n
    proof (cases "jget (db_indexes db) n")
      case (Some x)
      show ?thesis
      proof (cases x)
        case (EqIndex e)
        then show ?thesis using eq_step_view [of e "num_str w" a k] D(3) [OF Some] Some
          by (cases a) (simp_all add: row_of_def row_for_def no_row_def idx_defs_of_def g)
      next
        case (RangeIndex r)
        then show ?thesis using range_step_view [of r a k] D(3) [OF Some] Some
          by (cases a) (simp_all add: row_of_def row_for_def no_row_def idx_defs_of_def g)
      qed
    qed (cases a; simp add: row_of_def row_for_def no_row_def idx_defs_of_def g)
    ultimately show "row_of db' k = ?R k" by (simp add: fun_eq_iff)
  qed
qed

end
