(* ===== verification/DbInvariant.thy ===== *)
theory DbInvariant
  imports IndexRows
begin

text \<open>
  The invariant of a database: the store is well formed, and every derived index holds of each key
  the row its record gives, and nothing of a key without a record. Each step of the facade keeps it.
\<close>

section \<open>The invariant\<close>

definition value_of :: "'a world_scheme \<Rightarrow> value_reader option \<Rightarrow> store_rec \<Rightarrow> js_error + jsv" where
  "value_of w rd r = (case materialize rd (sref r) of Inl e \<Rightarrow> Inl e | Inr b \<Rightarrow> dec w b)"

text \<open>The row an indexed record has.\<close>

definition rec_row :: "'a world_scheme \<Rightarrow> value_reader option \<Rightarrow> idx_defs \<Rightarrow> store_rec option \<Rightarrow> idx_row \<Rightarrow> bool" where
  "rec_row w rd D r row \<longleftrightarrow>
     (case r of
        None \<Rightarrow> row = no_row
      | Some x \<Rightarrow> dt_legal (sdt x) \<and> (\<exists>doc. value_of w rd x = Inr doc \<and> row = row_for w D doc (sdt x)))"

definition db_ok :: "'a world_scheme \<Rightarrow> mini_db \<Rightarrow> bool" where
  "db_ok w db \<longleftrightarrow>
     store_ok (jb w) (db_store db) \<and> idx_ok db \<and>
     (\<forall>k. rec_row w (db_reader db) (idx_defs_of db) (jget (smap (db_store db)) k) (row_of db k))"

lemma db_okD:
  assumes "db_ok w db"
  shows "store_ok (jb w) (db_store db)" "idx_ok db"
    "rec_row w (db_reader db) (idx_defs_of db) (jget (smap (db_store db)) k) (row_of db k)"
  using assms by (auto simp: db_ok_def)

lemma db_ok_cong:
  "db_store db' = db_store db \<Longrightarrow> db_reader db' = db_reader db \<Longrightarrow> idx_part db' = idx_part db \<Longrightarrow> db_ok w db' = db_ok w db"
  using idx_part_cong [of db' db] by (simp add: db_ok_def)

text \<open>
  A record that is rolled back after it expired comes back without its record: \<open>restoreKey\<close> looks the
  record up, which reaps it, and puts its dt row again. With \<open>late\<close> such a row is allowed.
\<close>

definition stray_row :: "bool \<Rightarrow> idx_row \<Rightarrow> bool" where
  "stray_row late row \<longleftrightarrow> (if late then row\<lparr> rw_dt := None \<rparr> else row) = no_row"

lemma stray_row_simps [simp]:
  "stray_row late no_row" "stray_row False row \<longleftrightarrow> row = no_row" "stray_row True row \<longleftrightarrow> row\<lparr> rw_dt := None \<rparr> = no_row"
  by (simp_all add: stray_row_def no_row_def)

lemma stray_rowD:
  assumes "stray_row late row"
  shows "rw_compound row n = None" "rw_eq row n = None" "rw_range row n = None" "rw_text row n = None"
  using assms by (cases row; cases late; simp add: no_row_def)+

definition key_row :: "bool \<Rightarrow> 'a world_scheme \<Rightarrow> value_reader option \<Rightarrow> idx_defs \<Rightarrow> store_rec option \<Rightarrow> idx_row \<Rightarrow> bool" where
  "key_row late w rd D r row \<longleftrightarrow> (case r of None \<Rightarrow> stray_row late row | Some x \<Rightarrow> rec_row w rd D r row)"

lemma key_row_simps [simp]:
  "key_row late w rd D None row = stray_row late row" "key_row late w rd D (Some x) row = rec_row w rd D (Some x) row"
  by (simp_all add: key_row_def)

definition db_inv :: "bool \<Rightarrow> 'a world_scheme \<Rightarrow> mini_db \<Rightarrow> bool" where
  "db_inv late w db \<longleftrightarrow>
     store_ok (jb w) (db_store db) \<and> idx_ok db \<and>
     (\<forall>k. key_row late w (db_reader db) (idx_defs_of db) (jget (smap (db_store db)) k) (row_of db k))"

lemma db_invD:
  assumes "db_inv late w db"
  shows "store_ok (jb w) (db_store db)" "idx_ok db"
    "key_row late w (db_reader db) (idx_defs_of db) (jget (smap (db_store db)) k) (row_of db k)"
  using assms by (auto simp: db_inv_def)

lemma db_inv_cong:
  "db_store db' = db_store db \<Longrightarrow> db_reader db' = db_reader db \<Longrightarrow> idx_part db' = idx_part db \<Longrightarrow> db_inv late w db' = db_inv late w db"
  using idx_part_cong [of db' db] by (simp add: db_inv_def)

lemma db_inv_strict: "db_inv False w db = db_ok w db"
proof -
  have "key_row False w rd D r row = rec_row w rd D r row" for rd D r row
    by (cases r) (simp_all add: rec_row_def)
  then show ?thesis by (simp add: db_inv_def db_ok_def)
qed

lemma db_ok_inv:
  assumes "db_ok w db"
  shows "db_inv late w db"
proof -
  have "rec_row w rd D r row \<Longrightarrow> key_row late w rd D r row" for rd D r row
    by (cases r) (simp_all add: rec_row_def)
  then show ?thesis using assms by (simp add: db_inv_def db_ok_def)
qed

text \<open>A record a key may be given back: its value can be read.\<close>

definition readable :: "'a world_scheme \<Rightarrow> value_reader option \<Rightarrow> store_rec \<Rightarrow> bool" where
  "readable w rd r \<longleftrightarrow> dt_legal (sdt r) \<and> (\<exists>doc. value_of w rd r = Inr doc)"

lemma db_inv_readable: "db_inv late w db \<Longrightarrow> jget (smap (db_store db)) k = Some r \<Longrightarrow> readable w (db_reader db) r"
  using db_invD(3) [of late w db k] by (auto simp: rec_row_def readable_def)

text \<open>A change of one key that gives it the record and the row that belong together.\<close>

lemma step_db_inv:
  assumes ok: "idx_ok db" and others: "\<And>k. k \<noteq> op_key a \<Longrightarrow> key_row late w (db_reader db) (idx_defs_of db) (jget (smap (db_store db)) k) (row_of db k)"
    and a: "op_legal a" and p: "idx_part db' = step_part w a (idx_part db)"
    and st: "store_ok (jb w) (db_store db')" and rd: "db_reader db' = db_reader db"
    and rest: "\<And>k. k \<noteq> op_key a \<Longrightarrow> jget (smap (db_store db')) k = jget (smap (db_store db)) k"
    and row: "key_row late w (db_reader db) (idx_defs_of db) (jget (smap (db_store db')) (op_key a)) (op_row w (idx_defs_of db) a)"
  shows "db_inv late w db'"
proof -
  note S = step_part_ok [OF ok a p]
  have "key_row late w (db_reader db') (idx_defs_of db') (jget (smap (db_store db')) k) (row_of db' k)" for k
    using others [of k] rest [of k] row by (cases "k = op_key a") (simp_all add: S(2,3) rd)
  with S(1) st show ?thesis by (simp add: db_inv_def)
qed

section \<open>Expiry and reads\<close>

lemma onStoreExpire_fields [simp]:
  "db_store (onStoreExpire k db) = db_store db" "db_reader (onStoreExpire k db) = db_reader db"
  "db_wal (onStoreExpire k db) = db_wal db" "db_walNo (onStoreExpire k db) = db_walNo db" "db_mode (onStoreExpire k db) = db_mode db"
  "db_rotating (onStoreExpire k db) = db_rotating db" "db_codec (onStoreExpire k db) = db_codec db"
  by (simp_all add: onStoreExpire_def text_each_def)

lemma im_remove_if: "(if m \<noteq> [] then im_remove k m else m) = im_remove k m"
  by (simp add: im_remove_def)

lemma onStoreExpire_part: "idx_part (onStoreExpire k db) = step_part w (IxDel k) (idx_part db)"
  by (simp add: idx_part_def step_part_def onStoreExpire_def text_each_def im_remove_if c_remove_def)

lemma expire_each:
  assumes "idx_ok db"
  shows "idx_ok (fold onStoreExpire ks db) \<and> idx_defs_of (fold onStoreExpire ks db) = idx_defs_of db \<and>
    row_of (fold onStoreExpire ks db) = (\<lambda>k. if k \<in> set ks then no_row else row_of db k)"
  using assms
proof (induction ks arbitrary: db)
  case (Cons k ks)
  note S = step_part_ok [OF Cons.prems, of "IxDel k", simplified, OF onStoreExpire_part]
  show ?case using Cons.IH [OF S(1)] by (auto simp: S(2,3) fun_eq_iff)
qed simp

lemma notify_fold: "notify (st', ns) db = fold onStoreExpire (map fst ns) (db\<lparr> db_store := st' \<rparr>)"
  by (simp add: notify_def fold_map o_def case_prod_unfold)

lemma fold_expire_fields [simp]:
  "db_store (fold onStoreExpire ks db) = db_store db" "db_reader (fold onStoreExpire ks db) = db_reader db"
  "db_wal (fold onStoreExpire ks db) = db_wal db" "db_walNo (fold onStoreExpire ks db) = db_walNo db"
  "db_mode (fold onStoreExpire ks db) = db_mode db" "db_rotating (fold onStoreExpire ks db) = db_rotating db"
  "db_codec (fold onStoreExpire ks db) = db_codec db"
  by (induction ks arbitrary: db) simp_all

lemma notify_fields [simp]:
  "db_store (notify sn db) = fst sn" "db_reader (notify sn db) = db_reader db" "db_wal (notify sn db) = db_wal db"
  "db_walNo (notify sn db) = db_walNo db" "db_mode (notify sn db) = db_mode db" "db_rotating (notify sn db) = db_rotating db"
  "db_codec (notify sn db) = db_codec db"
  by (cases sn; simp add: notify_fold)+

lemma notify_ok:
  assumes ok: "db_inv late w db" and r: "reaps (jb w) now (db_store db) st' ns"
  shows "db_inv late w (notify (st', ns) db) \<and> idx_defs_of (notify (st', ns) db) = idx_defs_of db"
proof -
  let ?db = "db\<lparr> db_store := st' \<rparr>"
  have c: "idx_ok ?db" "idx_defs_of ?db = idx_defs_of db" "row_of ?db = row_of db"
    using idx_part_cong [of ?db db] db_invD(2) [OF ok] by (simp_all add: idx_part_def)
  have E: "idx_ok (notify (st', ns) db)" "idx_defs_of (notify (st', ns) db) = idx_defs_of db"
    "row_of (notify (st', ns) db) = (\<lambda>k. if k \<in> fst ` set ns then no_row else row_of db k)"
    using expire_each [OF c(1), of "map fst ns"] by (simp_all add: notify_fold c cong: if_cong)
  have "key_row late w (db_reader db) (idx_defs_of db) (jget (smap st') k) (row_of (notify (st', ns) db) k)" for k
    unfolding E(3) using db_invD(3) [OF ok, of k] reapsD(1) [OF r, of k] by (simp add: rec_row_def)
  then show ?thesis using E(1,2) reapsD(4) [OF r db_invD(1) [OF ok]] by (simp add: db_inv_def)
qed

lemma store_get_reaps:
  assumes "store_get jl rd now k st = (res, st', ns)"
  shows "reaps jl now st st' ns \<and> jget (smap st') k = live now st k \<and>
    (\<forall>k'. k' \<noteq> k \<longrightarrow> jget (smap st') k' = jget (smap st) k') \<and>
    res = (case live now st k of None \<Rightarrow> Inr None | Some r \<Rightarrow> map_result Some (materialize rd (sref r)))"
proof -
  obtain r where g: "getRecord jl now k st = (r, st', ns)"
    using assms by (cases "getRecord jl now k st"; cases "fst (getRecord jl now k st)") (auto simp: store_get_def)
  have R: "reaps jl now st st' ns \<and> r = live now st k" by (rule getRecord_reaps [OF g])
  have ns: "fst ` set ns \<subseteq> {k}" "r \<noteq> None \<Longrightarrow> ns = []"
    using g by (auto simp: getRecord_def expireKey_eq split: option.splits if_splits)
  have other: "jget (smap st') k' = jget (smap st) k'" if "k' \<noteq> k" for k'
    using R ns(1) that reapsD(1) [of jl now st st' ns k'] by auto
  have "jget (smap st') k = live now st k"
  proof (cases r)
    case None
    then show ?thesis using R g by (auto simp: getRecord_def expireKey_eq smap_remove split: option.splits if_splits)
  next
    case (Some x)
    then show ?thesis using R g by (auto simp: getRecord_def split: option.splits if_splits)
  qed
  then show ?thesis using assms R other by (cases r) (auto simp: store_get_def g split: option.splits)
qed

text \<open>\<open>db.get\<close>: what has expired is reaped, of what is live the value is read.\<close>

lemma db_get_ok:
  assumes g: "db_get w now k db = (res, db')" and ok: "db_inv late w db"
  shows "db_inv late w db' \<and> idx_defs_of db' = idx_defs_of db \<and> db_reader db' = db_reader db \<and>
    jget (smap (db_store db')) k = live now (db_store db) k \<and>
    (\<forall>k'. k' \<noteq> k \<longrightarrow> jget (smap (db_store db')) k' = jget (smap (db_store db)) k')"
    "decode w (case res of Inl e \<Rightarrow> None | Inr b \<Rightarrow> b) =
       (case live now (db_store db) k of None \<Rightarrow> Inr JUndef | Some r \<Rightarrow> value_of w (db_reader db) r)"
    "\<exists>b. res = Inr b \<and> (b \<noteq> None \<longleftrightarrow> live now (db_store db) k \<noteq> None)"
proof -
  obtain st' ns where s: "store_get (jb w) (db_reader db) now k (db_store db) = (res, st', ns)" "db' = notify (st', ns) db"
    using g by (auto simp: db_get_def split: prod.splits)
  note G = store_get_reaps [OF s(1)]
  show "db_inv late w db' \<and> idx_defs_of db' = idx_defs_of db \<and> db_reader db' = db_reader db \<and>
    jget (smap (db_store db')) k = live now (db_store db) k \<and>
    (\<forall>k'. k' \<noteq> k \<longrightarrow> jget (smap (db_store db')) k' = jget (smap (db_store db)) k')"
    using notify_ok [OF ok conjunct1 [OF G]] G by (simp add: s(2))
  have live: "live now (db_store db) k = Some r \<Longrightarrow> jget (smap (db_store db)) k = Some r" for r
    by (auto simp: live_def split: option.splits if_splits)
  show "decode w (case res of Inl e \<Rightarrow> None | Inr b \<Rightarrow> b) =
       (case live now (db_store db) k of None \<Rightarrow> Inr JUndef | Some r \<Rightarrow> value_of w (db_reader db) r)"
    "\<exists>b. res = Inr b \<and> (b \<noteq> None \<longleftrightarrow> live now (db_store db) k \<noteq> None)"
    by (cases "live now (db_store db) k";
        use G db_inv_readable [OF ok live] in \<open>auto simp: decode_def readable_def value_of_def split: sum.splits\<close>)+
qed

section \<open>Writes\<close>

text \<open>A prepared write: its value decodes to a document with the rows of the one the caller gave.\<close>

definition write_fits :: "'a world_scheme \<Rightarrow> idx_defs \<Rightarrow> prepared \<Rightarrow> bool" where
  "write_fits w D a \<longleftrightarrow>
     toKStr (p_key a) = p_pk a \<and> dt_legal (p_dt a) \<and>
     (p_type a = TYPE_SET \<longrightarrow>
        (\<exists>v doc. p_value a = Some v \<and> dec w v = Inr doc \<and> row_for w D doc (p_dt a) = row_for w D (p_doc a) (p_dt a)))"

lemma im_remove_absent:
  assumes m: "jmap_ok (db_indexes db)" and row: "\<And>n. rw_eq (row_of db k) n = None \<and> rw_range (row_of db k) n = None"
  shows "im_remove k (db_indexes db) = db_indexes db"
proof -
  have "any_remove k ix = ix" if i: "(n, ix) \<in> set (db_indexes db)" for n ix
  proof -
    have "jget (db_indexes db) n = Some ix" using i m by (simp add: jget_mem)
    then show ?thesis using row [of n]
      by (cases ix) (auto simp: row_of_def eq_view_def range_view_def eq_remove_def range_remove_def)
  qed
  then show ?thesis unfolding im_remove_def by (intro map_idI) auto
qed

lemma row_not_object:
  "key_row late w rd D r row \<Longrightarrow> (case r of None \<Rightarrow> Inr JUndef | Some x \<Rightarrow> value_of w rd x) = Inr doc \<Longrightarrow> \<not> is_object doc \<Longrightarrow>
     rw_eq row n = None \<and> rw_range row n = None"
  by (auto simp: rec_row_def stray_rowD row_for_def eq_content_def range_content_def Let_def split: option.splits prod.splits index_type.splits)

text \<open>The old document of a key tells whether the secondary indexes hold anything of it.\<close>

definition old_doc :: "'a world_scheme \<Rightarrow> mini_db \<Rightarrow> kstr \<Rightarrow> jsv \<Rightarrow> bool" where
  "old_doc w db k doc \<longleftrightarrow>
     (case jget (smap (db_store db)) k of None \<Rightarrow> Inr JUndef | Some x \<Rightarrow> value_of w (db_reader db) x) = Inr doc"

lemma im_remove_guard:
  assumes "db_inv late w db" "old_doc w db k doc"
  shows "(if is_object doc then im_remove k (db_indexes db) else db_indexes db) = im_remove k (db_indexes db)"
proof (cases "is_object doc")
  case False
  have "im_remove k (db_indexes db) = db_indexes db"
    by (rule im_remove_absent [OF idx_okD(2) [OF db_invD(2) [OF assms(1)]]],
        rule row_not_object [OF db_invD(3) [OF assms(1)] assms(2) [unfolded old_doc_def] False])
  then show ?thesis by simp
qed simp

lemma apply_set_part:
  assumes ok: "db_inv late w db" and old: "old_doc w db (p_pk a) oldDoc"
  shows "idx_part (apply_set w a oldDoc db) = step_part w (IxPut (p_pk a) (p_doc a, p_dt a)) (idx_part db)"
proof -
  have im: "(if db_indexes db \<noteq> [] then
      (if is_object (p_doc a) then im_add (num_str w) (p_pk a) (p_doc a) (if is_object oldDoc then im_remove (p_pk a) (db_indexes db) else db_indexes db)
       else (if is_object oldDoc then im_remove (p_pk a) (db_indexes db) else db_indexes db)) else db_indexes db) =
    im_step (num_str w) (IxPut (p_pk a) (p_doc a)) (db_indexes db)"
    unfolding im_remove_guard [OF ok old] by (simp add: Let_def im_remove_def im_add_def)
  show ?thesis
    unfolding idx_part_def apply_set_def step_part_def Let_def
    using im by (simp add: text_each_def c_add_def entry_put_def text_put_def fun_eq_iff)
qed

lemma apply_del_part:
  assumes ok: "db_inv late w db" and old: "old_doc w db k oldDoc" and ex: "jget (smap (db_store db)) k \<noteq> None"
  shows "idx_part (snd (apply_del w k oldDoc db)) = step_part w (IxDel k) (idx_part db)"
proof -
  have im: "(if db_indexes db \<noteq> [] \<and> is_object oldDoc then im_remove k (db_indexes db) else db_indexes db) = im_remove k (db_indexes db)"
    using im_remove_guard [OF ok old] by (cases "is_object oldDoc") (auto simp: im_remove_def)
  obtain st where d: "store_del (jb w) k (db_store db) = (True, st)"
    using ex fst_remove [of "jb w" k "db_store db"] by (cases "store_del (jb w) k (db_store db)") (simp add: store_del_def)
  show ?thesis
    unfolding apply_del_def d using im by (simp add: idx_part_def step_part_def text_each_def c_remove_def)
qed

lemma touchAccess_fields [simp]:
  "db_store (touchAccess k db) = db_store db" "db_reader (touchAccess k db) = db_reader db"
  "idx_part (touchAccess k db) = idx_part db" "db_walNo (touchAccess k db) = db_walNo db" "db_wal (touchAccess k db) = db_wal db"
  "db_mode (touchAccess k db) = db_mode db" "db_indexes (touchAccess k db) = db_indexes db" "db_text (touchAccess k db) = db_text db"
  "db_compound (touchAccess k db) = db_compound db" "db_dt (touchAccess k db) = db_dt db" "db_rotating (touchAccess k db) = db_rotating db"
  "db_codec (touchAccess k db) = db_codec db"
  by (simp_all add: touchAccess_def idx_part_def)

lemma apply_set_fields [simp]:
  "db_store (apply_set w a oldDoc db) = store_set (jb w) (toKStr (p_key a)) (the (p_value a)) (p_expire a) (p_dt a) (db_store db)"
  "db_reader (apply_set w a oldDoc db) = db_reader db" "db_walNo (apply_set w a oldDoc db) = db_walNo db"
  "db_wal (apply_set w a oldDoc db) = db_wal db" "db_mode (apply_set w a oldDoc db) = db_mode db"
  "db_rotating (apply_set w a oldDoc db) = db_rotating db" "db_codec (apply_set w a oldDoc db) = db_codec db"
  by (simp_all add: apply_set_def text_each_def Let_def)

lemma apply_del_fields [simp]:
  "db_store (snd (apply_del w k oldDoc db)) = snd (remove (jb w) k (db_store db))"
  "db_reader (snd (apply_del w k oldDoc db)) = db_reader db" "db_walNo (snd (apply_del w k oldDoc db)) = db_walNo db"
  "db_wal (snd (apply_del w k oldDoc db)) = db_wal db" "db_mode (snd (apply_del w k oldDoc db)) = db_mode db"
  "db_rotating (snd (apply_del w k oldDoc db)) = db_rotating db" "db_codec (snd (apply_del w k oldDoc db)) = db_codec db"
  by (cases "store_del (jb w) k (db_store db)"; simp add: apply_del_def text_each_def store_del_def)+

lemma touchAccess_ok [simp]: "db_inv late w (touchAccess k db) = db_inv late w db"
  by (rule db_inv_cong) simp_all

lemma apply_set_ok:
  assumes ok: "db_inv late w db" and old: "old_doc w db (p_pk a) oldDoc" and a: "p_type a = TYPE_SET" "write_fits w (idx_defs_of db) a"
  shows "db_inv late w (apply_set w a oldDoc db)" "idx_defs_of (apply_set w a oldDoc db) = idx_defs_of db"
proof -
  note part = apply_set_part [OF ok old]
  have legal: "op_legal (IxPut (p_pk a) (p_doc a, p_dt a))" and key: "toKStr (p_key a) = p_pk a"
    using a(2) by (simp_all add: write_fits_def)
  obtain v doc where v: "p_value a = Some v" "dec w v = Inr doc" "row_for w (idx_defs_of db) doc (p_dt a) = row_for w (idx_defs_of db) (p_doc a) (p_dt a)"
    using a by (auto simp: write_fits_def)
  show "idx_defs_of (apply_set w a oldDoc db) = idx_defs_of db"
    by (rule step_part_ok(2) [OF db_invD(2) [OF ok] legal part])
  show "db_inv late w (apply_set w a oldDoc db)"
    by (rule step_db_inv [OF db_invD(2) [OF ok] db_invD(3) [OF ok] legal part])
       (use legal v setRef_ok [OF db_invD(1) [OF ok]] in
         \<open>simp_all add: key store_set_def smap_setRef rec_row_def value_of_def materialize_def\<close>)
qed

lemma apply_del_ok:
  assumes ok: "db_inv late w db" and old: "old_doc w db k oldDoc"
  shows "db_inv late w (snd (apply_del w k oldDoc db))" "idx_defs_of (snd (apply_del w k oldDoc db)) = idx_defs_of db"
proof -
  have "db_inv late w (snd (apply_del w k oldDoc db)) \<and> idx_defs_of (snd (apply_del w k oldDoc db)) = idx_defs_of db"
  proof (cases "jget (smap (db_store db)) k = None")
    case True
    then have "snd (apply_del w k oldDoc db) = db" by (simp add: apply_del_def store_del_def remove_def)
    then show ?thesis using ok by simp
  next
    case False
    note part = apply_del_part [OF ok old False]
    have "db_inv late w (snd (apply_del w k oldDoc db))"
      by (rule step_db_inv [OF db_invD(2) [OF ok] db_invD(3) [OF ok] _ part])
         (use remove_ok [OF db_invD(1) [OF ok]] in \<open>simp_all add: smap_remove rec_row_def\<close>)
    then show ?thesis using step_part_ok(2) [OF db_invD(2) [OF ok] _ part] by simp
  qed
  then show "db_inv late w (snd (apply_del w k oldDoc db))" "idx_defs_of (snd (apply_del w k oldDoc db)) = idx_defs_of db" by auto
qed

text \<open>One write: the record it replaces is the live one, and the invariant stays.\<close>

lemma applyOp_ok:
  assumes A: "applyOp w now a db = (res, db')" and ok: "db_inv late w db" and fits: "write_fits w (idx_defs_of db) a"
  shows "db_inv late w db'" "idx_defs_of db' = idx_defs_of db" "db_reader db' = db_reader db"
    "res = Inr (live now (db_store db) (p_pk a))"
    "k \<noteq> p_pk a \<Longrightarrow> jget (smap (db_store db')) k = jget (smap (db_store db)) k"
proof -
  obtain r db1 where g: "db_get w now (p_pk a) db = (r, db1)" by (cases "db_get w now (p_pk a) db")
  note G = db_get_ok [OF g ok]
  obtain b where b: "r = Inr b" "b \<noteq> None \<longleftrightarrow> live now (db_store db) (p_pk a) \<noteq> None" using G(3) by auto
  have G1: "db_inv late w db1" "idx_defs_of db1 = idx_defs_of db" "db_reader db1 = db_reader db"
    "jget (smap (db_store db1)) (p_pk a) = live now (db_store db) (p_pk a)"
    "\<And>k'. k' \<noteq> p_pk a \<Longrightarrow> jget (smap (db_store db1)) k' = jget (smap (db_store db)) k'"
    using G(1) by auto
  have "\<exists>oldDoc. decode w b = Inr oldDoc"
    using G(2) db_inv_readable [OF G1(1), of "p_pk a"]
    by (cases "live now (db_store db) (p_pk a)") (auto simp: b(1) G1(3,4) readable_def)
  then obtain oldDoc where d: "decode w b = Inr oldDoc" ..
  have old: "old_doc w db1 (p_pk a) oldDoc"
    unfolding old_doc_def G1(3,4) using G(2) d by (simp add: b(1))
  have fits1: "write_fits w (idx_defs_of db1) a" using fits by (simp add: G1(2))
  have key: "toKStr (p_key a) = p_pk a" using fits by (simp add: write_fits_def)
  have prev: "(if b \<noteq> None then jget (smap (db_store db1)) (p_pk a) else None) = live now (db_store db) (p_pk a)"
    using b(2) by (simp add: G1(4))
  have A': "res = Inr (live now (db_store db) (p_pk a))"
    "db' = (if p_type a = TYPE_SET then touchAccess (p_pk a) (apply_set w a oldDoc db1)
            else if p_type a = TYPE_DEL then snd (apply_del w (p_pk a) oldDoc db1) else db1)"
    using A unfolding applyOp_def g b(1) prod.case sum.case Let_def d prev by auto
  show "res = Inr (live now (db_store db) (p_pk a))" by (rule A'(1))
  have "db_inv late w db' \<and> idx_defs_of db' = idx_defs_of db"
    using apply_set_ok [OF G1(1) old _ fits1] apply_del_ok [OF G1(1) old] G1(1) idx_part_cong [of "touchAccess (p_pk a) (apply_set w a oldDoc db1)"]
    by (simp add: A'(2) G1(2))
  then show "db_inv late w db'" "idx_defs_of db' = idx_defs_of db" by auto
  show "db_reader db' = db_reader db" by (simp add: A'(2) G1(3))
  show "k \<noteq> p_pk a \<Longrightarrow> jget (smap (db_store db')) k = jget (smap (db_store db)) k"
    by (simp add: A'(2) G1(5) key store_set_def smap_setRef smap_remove)
qed

section \<open>Rolling a key back\<close>

lemma any_remove_twice: "any_remove k (any_remove k ix) = any_remove k ix"
  by (cases ix) (auto simp: eq_remove_def range_remove_def split: option.splits)

lemma im_remove_twice: "im_remove k (im_remove k m) = im_remove k m"
  by (simp add: im_remove_def any_remove_twice case_prod_unfold)

lemma text_remove_twice: "text_remove k (text_remove k ti) = text_remove k ti"
  by (auto simp: text_remove_def Let_def split: option.splits)

lemma unindex_fields [simp]:
  "db_store (unindex k db) = db_store db" "db_reader (unindex k db) = db_reader db" "db_walNo (unindex k db) = db_walNo db"
  "db_wal (unindex k db) = db_wal db" "db_mode (unindex k db) = db_mode db" "db_rotating (unindex k db) = db_rotating db"
  "db_codec (unindex k db) = db_codec db"
  by (simp_all add: unindex_def text_each_def)

lemma unindex_part: "idx_part (unindex k db) = step_part w (IxDel k) (idx_part db)"
  by (simp add: idx_part_def step_part_def unindex_def text_each_def im_remove_if c_remove_def)

lemma reindex_fields [simp]:
  "db_store (reindex w k doc d db) = db_store db" "db_reader (reindex w k doc d db) = db_reader db"
  "db_walNo (reindex w k doc d db) = db_walNo db" "db_wal (reindex w k doc d db) = db_wal db"
  "db_mode (reindex w k doc d db) = db_mode db" "db_rotating (reindex w k doc d db) = db_rotating db"
  "db_codec (reindex w k doc d db) = db_codec db"
  by (simp_all add: reindex_def text_each_def)

lemma reindex_part:
  assumes "idx_part db1 = step_part w (IxDel k) p"
  shows "idx_part (reindex w k doc d db1) = step_part w (IxPut k (doc, d)) (idx_part db1)"
proof -
  obtain dx cx m tx where p: "p = (dx, cx, m, tx)" by (cases p)
  have f: "db_indexes db1 = im_remove k m" "db_text db1 = map (\<lambda>(n, ti). (n, text_remove k ti)) tx"
    using assms by (simp_all add: p idx_part_def step_part_def)
  show ?thesis
    by (simp add: idx_part_def step_part_def reindex_def text_each_def c_add_def entry_put_def f im_remove_twice
        text_put_def text_remove_twice Let_def case_prod_unfold)
qed

text \<open>A record as a reader sees it: without its sequence number.\<close>

definition rec_core :: "store_rec \<Rightarrow> value_ref \<times> int \<times> dt option" where
  "rec_core r = (sref r, sexpire r, sdt r)"

definition same_core :: "store_rec option \<Rightarrow> store_rec option \<Rightarrow> bool" where
  "same_core x y \<longleftrightarrow> map_option rec_core x = map_option rec_core y"

definition current :: "kstr \<Rightarrow> nat option \<Rightarrow> mini_db \<Rightarrow> bool" where
  "current k sq db \<longleftrightarrow> (case sq of None \<Rightarrow> jget (smap (db_store db)) k = None | Some s \<Rightarrow> seq_of k db = Some s)"

lemma db_get_live:
  assumes "jget (smap (db_store db)) k = Some r" "Store.is_live now r"
  shows "db_get w now k db = (map_result Some (materialize (db_reader db) (sref r)), db)"
  using assms by (auto simp: db_get_def store_get_def getRecord_def Store.is_live_def notify_fold)

definition untouched :: "kstr \<Rightarrow> mini_db \<Rightarrow> mini_db \<Rightarrow> bool" where
  "untouched k db db' \<longleftrightarrow> idx_defs_of db' = idx_defs_of db \<and> db_reader db' = db_reader db \<and> db_mode db' = db_mode db \<and>
     db_codec db' = db_codec db \<and> (\<forall>k'. k' \<noteq> k \<longrightarrow> jget (smap (db_store db')) k' = jget (smap (db_store db)) k')"

lemma restoreKey_stale: "\<not> current k sq db \<Longrightarrow> restoreKey w now k prev sq db = (None, db)"
  by (auto simp: restoreKey_def current_def split: option.splits)

lemma current_fresh:
  "current k sq db \<Longrightarrow>
     (case sq of None \<Rightarrow> jget (smap (db_store db)) k \<noteq> None | Some s \<Rightarrow> seq_of k db \<noteq> Some s) = False"
  by (simp add: current_def split: option.splits)

lemma restoreKey_absent:
  assumes c: "current k sq db" and ok: "db_inv late w db"
  shows "fst (restoreKey w now k None sq db) = None" "db_inv late w (snd (restoreKey w now k None sq db))"
    "untouched k db (snd (restoreKey w now k None sq db))" "jget (smap (db_store (snd (restoreKey w now k None sq db)))) k = None"
proof -
  let ?db1 = "unindex k db"
  let ?db = "?db1\<lparr> db_store := snd (store_del (jb w) k (db_store ?db1)), db_access := set_del k (db_access ?db1) \<rparr>"
  have r: "restoreKey w now k None sq db = (None, ?db)"
    unfolding restoreKey_def current_fresh [OF c] if_False Let_def option.case ..
  have part: "idx_part ?db = step_part w (IxDel k) (idx_part db)"
    unfolding unindex_part [of k db w, symmetric] by (simp add: idx_part_def)
  have "db_inv late w ?db"
    by (rule step_db_inv [OF db_invD(2) [OF ok] db_invD(3) [OF ok] _ part])
       (use remove_ok [OF db_invD(1) [OF ok]] in \<open>simp_all add: store_del_def smap_remove rec_row_def\<close>)
  moreover have "idx_defs_of ?db = idx_defs_of db" using step_part_ok(2) [OF db_invD(2) [OF ok] _ part] by simp
  ultimately show "fst (restoreKey w now k None sq db) = None" "db_inv late w (snd (restoreKey w now k None sq db))"
    "untouched k db (snd (restoreKey w now k None sq db))" "jget (smap (db_store (snd (restoreKey w now k None sq db)))) k = None"
    by (simp_all add: r untouched_def store_del_def smap_remove)
qed

lemma restoreKey_present:
  assumes c: "current k sq db" and ok: "db_inv late w db" and r: "readable w (db_reader db) r" "Store.is_live now r"
  shows "fst (restoreKey w now k (Some r) sq db) = None" "db_inv late w (snd (restoreKey w now k (Some r) sq db))"
    "untouched k db (snd (restoreKey w now k (Some r) sq db))"
    "same_core (jget (smap (db_store (snd (restoreKey w now k (Some r) sq db)))) k) (Some r)"
proof -
  obtain b doc where b: "materialize (db_reader db) (sref r) = Inr b" "dec w b = Inr doc"
    using r(1) by (auto simp: readable_def value_of_def split: sum.splits)
  let ?db1 = "unindex k db"
  define db2 where "db2 = touchAccess k (?db1\<lparr> db_store := setRef (jb w) k (sref r) (sexpire r) (sdt r) (db_store ?db1) \<rparr>)"
  let ?db = "reindex w k doc (sdt r) db2"
  have st: "db_store db2 = setRef (jb w) k (sref r) (sexpire r) (sdt r) (db_store db)" "db_reader db2 = db_reader db"
    "db_mode db2 = db_mode db" "db_codec db2 = db_codec db"
    by (simp_all add: db2_def)
  have part1: "idx_part db2 = step_part w (IxDel k) (idx_part db)"
    unfolding unindex_part [of k db w, symmetric] by (simp add: db2_def) (simp add: idx_part_def)
  note S1 = step_part_ok [OF db_invD(2) [OF ok] _ part1, simplified]
  have "Store.is_live now \<lparr> sref = sref r, sexpire = sexpire r, sseq = seqno (db_store db) + 1, sdt = sdt r \<rparr>"
    using r(2) by (simp add: Store.is_live_def)
  then have G: "db_get w now k db2 = (Inr (Some b), db2)"
    using db_get_live [of db2 k _ now w] by (simp add: st smap_setRef b(1))
  have R: "restoreKey w now k (Some r) sq db = (None, ?db)"
    unfolding restoreKey_def current_fresh [OF c] if_False Let_def option.case db2_def [symmetric] G prod.case sum.case decode_def b(2) by (rule refl)
  have part2: "idx_part ?db = step_part w (IxPut k (doc, sdt r)) (idx_part db2)"
    by (rule reindex_part [OF part1])
  have "db_inv late w ?db"
    by (rule step_db_inv [OF S1(1) _ _ part2])
       (use r(1) db_invD(3) [OF ok] setRef_ok [OF db_invD(1) [OF ok]] b in
         \<open>simp_all add: readable_def S1 st smap_setRef rec_row_def value_of_def\<close>)
  moreover have "idx_defs_of ?db = idx_defs_of db"
    using step_part_ok(2) [OF S1(1) _ part2] r(1) by (simp add: S1(2) readable_def)
  ultimately show "fst (restoreKey w now k (Some r) sq db) = None" "db_inv late w (snd (restoreKey w now k (Some r) sq db))"
    "untouched k db (snd (restoreKey w now k (Some r) sq db))"
    "same_core (jget (smap (db_store (snd (restoreKey w now k (Some r) sq db)))) k) (Some r)"
    by (simp_all add: R untouched_def st smap_setRef same_core_def rec_core_def)
qed

text \<open>A record that expired meanwhile is reaped as it is put back; what it leaves is its dt row.\<close>

lemma row_for_undefined: "stray_row True (row_for w D JUndef d)"
proof -
  have "c_getPath JUndef path = JUndef" for path
  proof -
    have "fold (\<lambda>k v. if nullish v then JUndef else get_prop v k) ks JUndef = JUndef" for ks
      by (induction ks) (simp_all add: nullish_def)
    then show ?thesis by (simp add: c_getPath_def)
  qed
  then have "c_content c (JUndef, d) = None" for c
    by (simp add: c_content_def placement_def c_extract_def nullish_def split: option.splits prod.splits)
  then show ?thesis
    by (simp add: row_for_def no_row_def eq_content_def range_content_def Let_def is_object_def fun_eq_iff
        split: option.splits prod.splits index_type.splits)
qed

lemma db_get_expired:
  assumes r: "jget (smap (db_store db)) k = Some r" "\<not> Store.is_live now r"
  shows "db_get w now k db = (Inr None, onStoreExpire k (db\<lparr> db_store := snd (remove (jb w) k (db_store db)) \<rparr>))"
  using r by (auto simp: db_get_def store_get_def getRecord_def expireKey_eq notify_def Store.is_live_def)

lemma restoreKey_expired:
  assumes c: "current k sq db" and ok: "db_inv True w db" and r: "dt_legal (sdt r)" "\<not> Store.is_live now r"
  shows "fst (restoreKey w now k (Some r) sq db) = None" "db_inv True w (snd (restoreKey w now k (Some r) sq db))"
    "untouched k db (snd (restoreKey w now k (Some r) sq db))"
    "jget (smap (db_store (snd (restoreKey w now k (Some r) sq db)))) k = None"
proof -
  let ?db1 = "unindex k db"
  define db2 where "db2 = touchAccess k (?db1\<lparr> db_store := setRef (jb w) k (sref r) (sexpire r) (sdt r) (db_store ?db1) \<rparr>)"
  define db3 where "db3 = onStoreExpire k (db2\<lparr> db_store := snd (remove (jb w) k (db_store db2)) \<rparr>)"
  let ?db = "reindex w k JUndef (sdt r) db3"
  have st: "db_store db3 = snd (remove (jb w) k (setRef (jb w) k (sref r) (sexpire r) (sdt r) (db_store db)))"
    "db_reader db3 = db_reader db" "db_mode db3 = db_mode db" "db_codec db3 = db_codec db"
    by (simp_all add: db3_def db2_def)
  have part1: "idx_part db2 = step_part w (IxDel k) (idx_part db)"
    unfolding unindex_part [of k db w, symmetric] by (simp add: db2_def) (simp add: idx_part_def)
  note S1 = step_part_ok [OF db_invD(2) [OF ok] _ part1, simplified]
  have part2: "idx_part db3 = step_part w (IxDel k) (idx_part db2)"
    using onStoreExpire_part [of k "db2\<lparr> db_store := snd (remove (jb w) k (db_store db2)) \<rparr>" w]
    unfolding db3_def [symmetric] by (simp add: idx_part_def)
  note S2 = step_part_ok [OF S1(1) _ part2, simplified]
  have part3: "idx_part ?db = step_part w (IxPut k (JUndef, sdt r)) (idx_part db3)"
    by (rule reindex_part [OF part2])
  have G: "db_get w now k db2 = (Inr None, db3)"
    unfolding db3_def
    by (rule db_get_expired [of _ _ "\<lparr> sref = sref r, sexpire = sexpire r, sseq = seqno (db_store db) + 1, sdt = sdt r \<rparr>"])
       (use r(2) in \<open>simp_all add: db2_def smap_setRef Store.is_live_def\<close>)
  have R: "restoreKey w now k (Some r) sq db = (None, ?db)"
    unfolding restoreKey_def current_fresh [OF c] if_False Let_def option.case db2_def [symmetric] G prod.case sum.case decode_def
    by (rule refl)
  have "db_inv True w ?db"
    by (rule step_db_inv [OF S2(1) _ _ part3])
       (use r(1) db_invD(3) [OF ok] remove_ok [OF setRef_ok [OF db_invD(1) [OF ok]]] row_for_undefined [of w] in
         \<open>simp_all add: S1(2,3) S2(2,3) st smap_setRef smap_remove del: stray_row_simps(3)\<close>)
  moreover have "idx_defs_of ?db = idx_defs_of db"
    using step_part_ok(2) [OF S2(1) _ part3] r(1) by (simp add: S1(2) S2(2))
  ultimately show "fst (restoreKey w now k (Some r) sq db) = None" "db_inv True w (snd (restoreKey w now k (Some r) sq db))"
    "untouched k db (snd (restoreKey w now k (Some r) sq db))"
    "jget (smap (db_store (snd (restoreKey w now k (Some r) sq db)))) k = None"
    by (simp_all add: R untouched_def st smap_setRef smap_remove)
qed

text \<open>Given back a record that can be read, or none, a key ends with what of it is still live.\<close>

definition restorable :: "bool \<Rightarrow> 'a world_scheme \<Rightarrow> int \<Rightarrow> value_reader option \<Rightarrow> store_rec option \<Rightarrow> bool" where
  "restorable late w now rd prev \<longleftrightarrow> (\<forall>r. prev = Some r \<longrightarrow> readable w rd r \<and> (late \<or> Store.is_live now r))"

definition still :: "int \<Rightarrow> store_rec option \<Rightarrow> store_rec option" where
  "still now prev = (case prev of None \<Rightarrow> None | Some r \<Rightarrow> if Store.is_live now r then Some r else None)"

lemma restoreKey_ok:
  assumes R: "restoreKey w now k prev sq db = (e, db')" and ok: "db_inv late w db" and prev: "restorable late w now (db_reader db) prev"
  shows "e = None" "db_inv late w db'" "untouched k db db'"
    "current k sq db \<Longrightarrow> same_core (jget (smap (db_store db')) k) (still now prev)"
proof -
  have "e = None \<and> db_inv late w db' \<and> untouched k db db' \<and> (current k sq db \<longrightarrow> same_core (jget (smap (db_store db')) k) (still now prev))"
  proof (cases "current k sq db")
    case False
    then show ?thesis using R ok by (simp add: restoreKey_stale untouched_def)
  next
    case c: True
    show ?thesis
    proof (cases prev)
      case None
      then show ?thesis using restoreKey_absent [OF c ok, of now] R by (simp add: same_core_def still_def)
    next
      case (Some r)
      have r: "readable w (db_reader db) r" "late \<or> Store.is_live now r" using prev by (simp_all add: restorable_def Some)
      show ?thesis
      proof (cases "Store.is_live now r")
        case True
        then show ?thesis using restoreKey_present [OF c ok r(1) True] R by (simp add: Some still_def)
      next
        case False
        then have late: "late" using r(2) by simp
        have "dt_legal (sdt r)" using r(1) by (simp add: readable_def)
        from restoreKey_expired [OF c _ this False, of w] ok R late
        show ?thesis using False by (simp add: Some still_def same_core_def)
      qed
    qed
  qed
  then show "e = None" "db_inv late w db'" "untouched k db db'"
    "current k sq db \<Longrightarrow> same_core (jget (smap (db_store db')) k) (still now prev)" by auto
qed

section \<open>The strict form\<close>

lemmas db_ok_readable = db_inv_readable [of False, unfolded db_inv_strict]
lemmas notify_strict = notify_ok [of False, unfolded db_inv_strict]
lemmas db_get_strict = db_get_ok [of _ _ _ _ _ _ False, unfolded db_inv_strict]

end
