(* ===== verification/DbCommit.thy ===== *)
theory DbCommit
  imports DbInvariant
begin

text \<open>
  The commits of the facade against the invariant: a set, a delete or a batch applied, ended at any
  later time on whatever the database has become, and rolled back key by key when its append failed.
\<close>

section \<open>Batches\<close>

text \<open>A prepared write fits whatever indexes there are.\<close>

definition stable :: "'a world_scheme \<Rightarrow> prepared \<Rightarrow> bool" where
  "stable w a \<longleftrightarrow> (\<forall>D. write_fits w D a)"

lemma append_wal_fields [simp]:
  "db_store (snd (append_wal f db)) = db_store db" "db_reader (snd (append_wal f db)) = db_reader db"
  "idx_part (snd (append_wal f db)) = idx_part db" "db_mode (snd (append_wal f db)) = db_mode db"
  "pd_prevs (fst (append_wal f db)) = []" "pd_seqs (fst (append_wal f db)) = []" "pd_refs (fst (append_wal f db)) = []"
  by (cases "appendLoc f (db_wal db)"; cases "fst (appendLoc f (db_wal db))"; simp add: append_wal_def idx_part_def)+

lemma append_wal_ok [simp]: "db_inv late w (snd (append_wal f db)) = db_inv late w db"
  by (rule db_inv_cong) simp_all

lemma applyOp_mode: "applyOp w now a db = (res, db') \<Longrightarrow> db_mode db' = db_mode db"
proof -
  assume A: "applyOp w now a db = (res, db')"
  have "db_mode db1 = db_mode db" if "db_get w now k db = (r, db1)" for k r db1
    using that by (auto simp: db_get_def split: prod.splits)
  then show ?thesis using A by (auto simp: applyOp_def Let_def split: prod.splits sum.splits if_splits)
qed

text \<open>A batch records the live record each of its keys had.\<close>

lemma apply_batch_ok:
  assumes "apply_batch w now as prevs db = (res, db')" "db_inv late w db" "\<forall>a \<in> set as. stable w a" "jmap_ok prevs"
  shows "db_inv late w db' \<and> db_reader db' = db_reader db \<and> db_mode db' = db_mode db \<and>
    (\<exists>ps. res = Inr ps \<and> jmap_ok ps \<and> fst ` set ps = fst ` set prevs \<union> p_pk ` set as \<and>
       (\<forall>k. jget ps k = (case jget prevs k of Some r \<Rightarrow> Some r
          | None \<Rightarrow> if k \<in> p_pk ` set as then Some (live now (db_store db) k) else None)) \<and>
       (\<forall>k. k \<notin> p_pk ` set as \<longrightarrow> jget (smap (db_store db')) k = jget (smap (db_store db)) k))"
  using assms
proof (induction as arbitrary: prevs db)
  case (Cons a as)
  obtain r db1 where o: "applyOp w now a db = (r, db1)" by (cases "applyOp w now a db")
  have fits: "write_fits w (idx_defs_of db) a" using Cons.prems(3) by (simp add: stable_def)
  note A = applyOp_ok [OF o Cons.prems(2) fits] and mode = applyOp_mode [OF o]
  let ?ps = "if jget prevs (p_pk a) = None then jset (p_pk a) (live now (db_store db) (p_pk a)) prevs else prevs"
  have rest: "apply_batch w now as ?ps db1 = (res, db')"
    using Cons.prems(1) by (simp add: o A(4) split del: if_split)
  have j: "jmap_ok ?ps" "\<forall>a \<in> set as. stable w a" using Cons.prems(3,4) by auto
  obtain ps where IH: "db_inv late w db'" "db_reader db' = db_reader db1" "db_mode db' = db_mode db1" "res = Inr ps" "jmap_ok ps"
    "fst ` set ps = fst ` set ?ps \<union> p_pk ` set as"
    "\<And>k. jget ps k = (case jget ?ps k of Some r \<Rightarrow> Some r
          | None \<Rightarrow> if k \<in> p_pk ` set as then Some (live now (db_store db1) k) else None)"
    "\<And>k. k \<notin> p_pk ` set as \<Longrightarrow> jget (smap (db_store db')) k = jget (smap (db_store db1)) k"
    using Cons.IH [OF rest A(1) j(2) j(1)] by auto
  have live1: "live now (db_store db1) k = live now (db_store db) k" if "k \<noteq> p_pk a" for k
    using A(5) [OF that] by (simp add: live_def)
  have "jget ps k = (case jget prevs k of Some r \<Rightarrow> Some r
          | None \<Rightarrow> if k \<in> p_pk ` set (a # as) then Some (live now (db_store db) k) else None)" for k
    unfolding IH(7) using live1 [of k] by (cases "k = p_pk a") (auto split: option.splits)
  moreover have "fst ` set ps = fst ` set prevs \<union> p_pk ` set (a # as)"
    unfolding IH(6) by (auto simp: jget_None_iff [symmetric])
  moreover have "jget (smap (db_store db')) k = jget (smap (db_store db)) k" if "k \<notin> p_pk ` set (a # as)" for k
    using that IH(8) [of k] A(5) [of k] by simp
  ultimately show ?case using IH(1-5) A(3) mode by simp
qed (auto split: option.splits)

text \<open>What a commit has when it starts to wait.\<close>

definition pend_ok :: "bool \<Rightarrow> 'a world_scheme \<Rightarrow> int \<Rightarrow> mini_db \<Rightarrow> pending \<Rightarrow> mini_db \<Rightarrow> bool" where
  "pend_ok late w now db p db' \<longleftrightarrow>
     db_inv late w db' \<and> db_reader db' = db_reader db \<and> db_mode db' = db_mode db \<and> jmap_ok (pd_prevs p) \<and>
     (\<forall>(k, prev) \<in> set (pd_prevs p). prev = live now (db_store db) k \<and>
        (case jget (pd_seqs p) k of None \<Rightarrow> None | Some s \<Rightarrow> s) = seq_of k db') \<and>
     (\<forall>k. k \<notin> fst ` set (pd_prevs p) \<longrightarrow> jget (smap (db_store db')) k = jget (smap (db_store db)) k)"

definition commit_ok :: "bool \<Rightarrow> 'a world_scheme \<Rightarrow> (int \<Rightarrow> mini_db \<Rightarrow> (js_error + pending) \<times> mini_db) \<Rightarrow> bool" where
  "commit_ok late w commit \<longleftrightarrow>
     (\<forall>now db. db_inv late w db \<longrightarrow>
        (case commit now db of
           (Inl e, db') \<Rightarrow> db_inv late w db' \<and> db_mode db' = db_mode db \<and> db_reader db' = db_reader db
         | (Inr p, db') \<Rightarrow> pend_ok late w now db p db'))"

lemma jget_map_seqs: "k \<in> fst ` set ps \<Longrightarrow> jget (map (\<lambda>(k, prev). (k, f k)) ps) k = Some (f k)"
  by (induction ps) auto

lemma append_wal_eq:
  assumes "append_wal f db = (p0, db1)"
  shows "db_inv late w db1 = db_inv late w db" "db_store db1 = db_store db" "db_reader db1 = db_reader db" "db_mode db1 = db_mode db"
    "pd_prevs p0 = []" "pd_seqs p0 = []"
  using append_wal_fields [of f db] append_wal_ok [of late w f db] by (simp_all add: assms)

lemma one_pend_ok:
  assumes ok: "db_inv late w db" and a: "stable w a" and f: "append_wal f db = (p0, db1)" and A: "applyOp w now a db1 = (r, db2)"
  shows "db_inv late w db2 \<and> db_mode db2 = db_mode db \<and> db_reader db2 = db_reader db"
    "r = Inr prev \<Longrightarrow> pd_prevs p = [(p_pk a, prev)] \<Longrightarrow> pd_seqs p = [(p_pk a, seq_of (p_pk a) db2)] \<Longrightarrow> pend_ok late w now db p db2"
proof -
  have "write_fits w (idx_defs_of db1) a" using a by (simp add: stable_def)
  note O = applyOp_ok [OF A _ this] and mode = applyOp_mode [OF A] and F = append_wal_eq [OF f]
  show "db_inv late w db2 \<and> db_mode db2 = db_mode db \<and> db_reader db2 = db_reader db" using O ok mode by (simp add: F)
  show "r = Inr prev \<Longrightarrow> pd_prevs p = [(p_pk a, prev)] \<Longrightarrow> pd_seqs p = [(p_pk a, seq_of (p_pk a) db2)] \<Longrightarrow> pend_ok late w now db p db2"
    using O ok mode by (simp add: pend_ok_def F)
qed

lemma set_commit_ok: "stable w a \<Longrightarrow> commit_ok late w (\<lambda>t. set_commit w t a)"
  by (auto simp: commit_ok_def set_commit_def split: sum.splits prod.splits
      intro: one_pend_ok(2) dest: one_pend_ok(1))

lemma del_commit_ok: "stable w a \<Longrightarrow> commit_ok late w (\<lambda>t. del_commit w t a)"
  by (auto simp: commit_ok_def del_commit_def split: sum.splits prod.splits
      intro: one_pend_ok(2) dest: one_pend_ok(1))

lemma batch_pend_ok:
  assumes ok: "db_inv late w db" and as: "\<forall>a \<in> set as. stable w a" and f: "append_wal f db = (p0, db1)"
    and A: "apply_batch w now as [] db1 = (r, db2)"
  shows "db_inv late w db2 \<and> db_mode db2 = db_mode db \<and> db_reader db2 = db_reader db"
    "r = Inr prevs \<Longrightarrow> pd_prevs p = prevs \<Longrightarrow> pd_seqs p = map (\<lambda>(k, prev). (k, seq_of k db2)) prevs \<Longrightarrow> pend_ok late w now db p db2"
proof -
  note F = append_wal_eq [OF f]
  have B: "db_inv late w db2" "db_reader db2 = db_reader db" "db_mode db2 = db_mode db"
    and P: "\<exists>ps. r = Inr ps \<and> jmap_ok ps \<and> fst ` set ps = p_pk ` set as \<and>
      (\<forall>k. jget ps k = (if k \<in> p_pk ` set as then Some (live now (db_store db) k) else None)) \<and>
      (\<forall>k. k \<notin> p_pk ` set as \<longrightarrow> jget (smap (db_store db2)) k = jget (smap (db_store db)) k)"
    using apply_batch_ok [OF A _ as] ok by (simp_all add: F cong: if_cong)
  show "db_inv late w db2 \<and> db_mode db2 = db_mode db \<and> db_reader db2 = db_reader db" using B by simp
  assume r: "r = Inr prevs" and p: "pd_prevs p = prevs" "pd_seqs p = map (\<lambda>(k, prev). (k, seq_of k db2)) prevs"
  have Q: "jmap_ok prevs" "fst ` set prevs = p_pk ` set as"
    "\<And>k. jget prevs k = (if k \<in> p_pk ` set as then Some (live now (db_store db) k) else None)"
    "\<And>k. k \<notin> p_pk ` set as \<Longrightarrow> jget (smap (db_store db2)) k = jget (smap (db_store db)) k"
    using P r by auto
  have "prev = live now (db_store db) k \<and> (case jget (pd_seqs p) k of None \<Rightarrow> None | Some s \<Rightarrow> s) = seq_of k db2"
    if m: "(k, prev) \<in> set prevs" for k prev
  proof -
    have "jget prevs k = Some prev" using m Q(1) by (simp add: jget_mem)
    moreover have "k \<in> fst ` set prevs" using m by force
    ultimately have "jget prevs k = Some prev" "k \<in> fst ` set prevs" by auto
    then show ?thesis using Q(2) Q(3) [of k] by (simp add: p(2) jget_map_seqs)
  qed
  then show "pend_ok late w now db p db2" using B Q(1,2,4) by (auto simp: pend_ok_def p(1))
qed

lemma batch_commit_ok: "\<forall>a \<in> set as. stable w a \<Longrightarrow> commit_ok late w (\<lambda>t. batch_commit w t as)"
  by (auto simp: commit_ok_def batch_commit_def split: sum.splits prod.splits
      intro: batch_pend_ok(2) dest: batch_pend_ok(1))

section \<open>A failed append\<close>

lemma current_cong: "jget (smap (db_store db')) k = jget (smap (db_store db)) k \<Longrightarrow> current k sq db' = current k sq db"
  by (simp add: current_def seq_of_def split: option.splits)

text \<open>Every key that is still as the commit left it is given back its record; the others stay.\<close>

definition seq_at :: "(kstr, nat option) jmap \<Rightarrow> kstr \<Rightarrow> nat option" where
  "seq_at seqs k = (case jget seqs k of None \<Rightarrow> None | Some s \<Rightarrow> s)"

definition given_back :: "int \<Rightarrow> (kstr, nat option) jmap \<Rightarrow> (kstr, store_rec option) jmap \<Rightarrow> mini_db \<Rightarrow> mini_db \<Rightarrow> kstr \<Rightarrow> bool" where
  "given_back now seqs ps db db' k \<longleftrightarrow>
     (case jget ps k of
        None \<Rightarrow> jget (smap (db_store db')) k = jget (smap (db_store db)) k
      | Some prev \<Rightarrow> if current k (seq_at seqs k) db then same_core (jget (smap (db_store db')) k) (still now prev)
                     else jget (smap (db_store db')) k = jget (smap (db_store db)) k)"

lemma given_backD:
  assumes "given_back now seqs ps db db' k"
  shows "jget ps k = None \<Longrightarrow> jget (smap (db_store db')) k = jget (smap (db_store db)) k"
    "jget ps k = Some prev \<Longrightarrow> current k (seq_at seqs k) db \<Longrightarrow> same_core (jget (smap (db_store db')) k) (still now prev)"
    "jget ps k = Some prev \<Longrightarrow> \<not> current k (seq_at seqs k) db \<Longrightarrow> jget (smap (db_store db')) k = jget (smap (db_store db)) k"
  using assms by (simp_all add: given_back_def)

lemma given_backI:
  assumes "jget ps k = None \<Longrightarrow> jget (smap (db_store db')) k = jget (smap (db_store db)) k"
    "\<And>prev. jget ps k = Some prev \<Longrightarrow> current k (seq_at seqs k) db \<Longrightarrow> same_core (jget (smap (db_store db')) k) (still now prev)"
    "\<And>prev. jget ps k = Some prev \<Longrightarrow> \<not> current k (seq_at seqs k) db \<Longrightarrow> jget (smap (db_store db')) k = jget (smap (db_store db)) k"
  shows "given_back now seqs ps db db' k"
  using assms by (cases "jget ps k") (simp_all add: given_back_def)

lemma restore_all_ok:
  assumes "restore_all w now seqs ps db = (e, db')" "db_inv late w db" "jmap_ok ps" "\<forall>x \<in> set ps. restorable late w now (db_reader db) (snd x)"
  shows "e = None \<and> db_inv late w db' \<and> db_reader db' = db_reader db \<and> db_mode db' = db_mode db \<and> (\<forall>k. given_back now seqs ps db db' k)"
  using assms
proof (induction ps arbitrary: db)
  case Nil
  then show ?case by (simp add: given_back_def)
next
  case (Cons p ps)
  obtain k0 prev0 where p: "p = (k0, prev0)" by (cases p)
  obtain e1 db1 where R: "restoreKey w now k0 prev0 (seq_at seqs k0) db = (e1, db1)"
    by (cases "restoreKey w now k0 prev0 (seq_at seqs k0) db")
  have "restorable late w now (db_reader db) prev0" using Cons.prems(4) by (simp add: p)
  note K = restoreKey_ok [OF R Cons.prems(2) this]
  have same: "jget (smap (db_store db1)) k = jget (smap (db_store db)) k" if "k \<noteq> k0" for k
    using K(3) that by (simp add: untouched_def)
  have stale: "db1 = db" if "\<not> current k0 (seq_at seqs k0) db"
    using R restoreKey_stale [OF that, of w now prev0] by simp
  have db1: "db_reader db1 = db_reader db" "db_mode db1 = db_mode db" using K(3) by (simp_all add: untouched_def)
  have rest: "restore_all w now seqs ps db1 = (e, db')" using Cons.prems(1) R K(1) by (simp add: p seq_at_def)
  have pre: "jmap_ok ps" "k0 \<notin> fst ` set ps" "\<forall>x \<in> set ps. restorable late w now (db_reader db1) (snd x)"
    using Cons.prems(3,4) db1 by (auto simp: p jmap_ok_def restorable_def)
  have k0: "jget ps k0 = None" using pre(2) by (simp add: jget_None_iff)
  have IH: "e = None" "db_inv late w db'" "db_reader db' = db_reader db1" "db_mode db' = db_mode db1" "\<And>k. given_back now seqs ps db1 db' k"
    using Cons.IH [OF rest K(2) pre(1,3)] by auto
  have "given_back now seqs (p # ps) db db' k" for k
  proof (cases "k = k0")
    case True
    have "jget (smap (db_store db')) k0 = jget (smap (db_store db1)) k0" by (rule given_backD(1) [OF IH(5) k0])
    then show ?thesis using K(4) stale by (intro given_backI) (auto simp: p True)
  next
    case False
    have "current k (seq_at seqs k) db1 = current k (seq_at seqs k) db" by (rule current_cong [OF same [OF False]])
    then show ?thesis
      using given_backD [OF IH(5) [of k]] same [OF False] False by (intro given_backI) (simp_all add: p)
  qed
  then show ?case using IH(1-4) db1 by simp
qed

text \<open>
  What a refused commit leaves, whatever ran meanwhile: a key it wrote that is as it left it gets back
  what is still live of the record it had, every other key keeps what it has now.
\<close>

lemma current_as_left: "current k (seq_of k db1) db = (seq_of k db = seq_of k db1)"
  by (auto simp: current_def seq_of_def split: option.splits)

lemma refused_commit_undone:
  assumes p: "pend_ok late w now db p db1" and ok: "db_inv late w db" and ok2: "db_inv late' w db2" "db_reader db2 = db_reader db"
    and F: "finish_commit w now' p (Some e) db2 = (r, db3)"
    and live: "late' \<or> (\<forall>k x. live now (db_store db) k = Some x \<longrightarrow> Store.is_live now' x)"
  shows "r = Some e \<and> db_inv late' w db3 \<and>
    (\<forall>k. if k \<in> fst ` set (pd_prevs p) \<and> seq_of k db2 = seq_of k db1
         then same_core (jget (smap (db_store db3)) k) (still now' (live now (db_store db) k))
         else jget (smap (db_store db3)) k = jget (smap (db_store db2)) k)"
proof -
  note P = p [unfolded pend_ok_def]
  obtain e' db' where R: "restore_all w now' (pd_seqs p) (pd_prevs p) db2 = (e', db')"
    by (cases "restore_all w now' (pd_seqs p) (pd_prevs p) db2")
  have known: "jget (smap (db_store db)) k = Some x" if "live now (db_store db) k = Some x" for k x
    using that by (simp add: live_def split: option.splits if_splits)
  have "restorable late' w now' (db_reader db2) (live now (db_store db) k)" for k
    using known db_inv_readable [OF ok] live unfolding restorable_def ok2(2) by blast
  then have "\<forall>x \<in> set (pd_prevs p). restorable late' w now' (db_reader db2) (snd x)" using P by auto
  from restore_all_ok [OF R ok2(1) _ this] P have A: "e' = None" "db_inv late' w db'"
    and G: "\<And>k. given_back now' (pd_seqs p) (pd_prevs p) db2 db' k" by simp_all
  have r: "r = Some e" "db3 = db'" using F R A(1) by (auto simp: finish_commit_def)
  have "if k \<in> fst ` set (pd_prevs p) \<and> seq_of k db2 = seq_of k db1
      then same_core (jget (smap (db_store db')) k) (still now' (live now (db_store db) k))
      else jget (smap (db_store db')) k = jget (smap (db_store db2)) k" for k
  proof (cases "jget (pd_prevs p) k")
    case None
    then have "k \<notin> fst ` set (pd_prevs p)" by (simp add: jget_None_iff)
    then show ?thesis using given_backD(1) [OF G None] by simp
  next
    case (Some prev)
    then have m: "(k, prev) \<in> set (pd_prevs p)" using P by (simp add: jget_mem)
    then have prev: "prev = live now (db_store db) k" and sq: "seq_at (pd_seqs p) k = seq_of k db1"
      using P by (auto simp: seq_at_def)
    have "k \<in> fst ` set (pd_prevs p)" using m by force
    then show ?thesis using given_backD(2,3) [OF G Some] by (simp add: sq prev current_as_left)
  qed
  with r A(2) show ?thesis by blast
qed

text \<open>A commit that waits: the records it saved can be read. Its end, at any time, keeps the invariant.\<close>

definition waits :: "'a world_scheme \<Rightarrow> value_reader option \<Rightarrow> pending \<Rightarrow> bool" where
  "waits w rd p \<longleftrightarrow> jmap_ok (pd_prevs p) \<and> (\<forall>(k, prev) \<in> set (pd_prevs p). \<forall>r. prev = Some r \<longrightarrow> readable w rd r)"

definition in_time :: "int \<Rightarrow> pending \<Rightarrow> js_error option \<Rightarrow> bool" where
  "in_time now p outcome \<longleftrightarrow>
     outcome = None \<or> (\<forall>(k, prev) \<in> set (pd_prevs p). \<forall>r. prev = Some r \<longrightarrow> Store.is_live now r)"

lemma pend_waits:
  assumes p: "pend_ok late w now db p db1" and ok: "db_inv late w db"
  shows "waits w (db_reader db1) p"
proof -
  note P = p [unfolded pend_ok_def]
  have "jget (smap (db_store db)) k = Some x" if "live now (db_store db) k = Some x" for k x
    using that by (simp add: live_def split: option.splits if_splits)
  then have "live now (db_store db) k = Some x \<Longrightarrow> readable w (db_reader db) x" for k x
    using db_inv_readable [OF ok] by blast
  then show ?thesis using P by (auto simp: waits_def)
qed

lemma finish_commit_ok:
  assumes F: "finish_commit w now p outcome db = (e, db')" and ok: "db_inv late w db" "db_mode db = InMemory"
    and p: "waits w (db_reader db) p" "late \<or> in_time now p outcome"
  shows "db_inv late w db' \<and> db_mode db' = InMemory \<and> db_reader db' = db_reader db"
proof (cases outcome)
  case None
  then show ?thesis using F ok by (simp add: finish_commit_def)
next
  case (Some x)
  obtain e' db1 where R: "restore_all w now (pd_seqs p) (pd_prevs p) db = (e', db1)"
    by (cases "restore_all w now (pd_seqs p) (pd_prevs p) db")
  have "\<forall>x \<in> set (pd_prevs p). restorable late w now (db_reader db) (snd x)"
    using p by (auto simp: waits_def in_time_def restorable_def Some)
  from restore_all_ok [OF R ok(1) _ this] p(1) ok(2) F show ?thesis
    by (auto simp: Some finish_commit_def R waits_def)
qed

section \<open>A value moved to the log\<close>

lemma publishWalRef_ok:
  assumes ok: "db_inv late w db"
    and same: "\<And>r. jget (smap (db_store db)) k = Some r \<Longrightarrow> sq = Some (sseq r) \<Longrightarrow>
      d = sdt r \<and> materialize (db_reader db) (Disk loc) = materialize (db_reader db) (sref r)"
  shows "db_inv late w (publishWalRef w k no sq loc ex d db)"
proof -
  let ?db = "db\<lparr> db_store := setRef (jb w) k (Disk loc) ex d (db_store db) \<rparr>"
  have "db_inv late w ?db" if sq: "seq_of k db = sq" "sq \<noteq> None"
  proof -
    obtain r where r: "jget (smap (db_store db)) k = Some r" "sq = Some (sseq r)" using sq by (auto simp: seq_of_def)
    have c: "idx_ok ?db" "idx_defs_of ?db = idx_defs_of db" "row_of ?db = row_of db"
      using idx_part_cong [of ?db db] db_invD(2) [OF ok] by (simp_all add: idx_part_def)
    have "key_row late w (db_reader db) (idx_defs_of db) (jget (smap (db_store ?db)) k') (row_of db k')" for k'
      using db_invD(3) [OF ok, of k'] db_invD(3) [OF ok, of k] same [OF r]
      by (simp add: smap_setRef rec_row_def value_of_def r(1))
    then show ?thesis using c(1) setRef_ok [OF db_invD(1) [OF ok]] by (simp add: db_inv_def c(2,3))
  qed
  then show ?thesis using ok by (auto simp: publishWalRef_def)
qed

section \<open>A new expiry\<close>

text \<open>\<open>expire\<close> writes the value and dt of the record again, so the rows of the key stay right.\<close>

lemma expire_commit_ok:
  assumes C: "expire_commit w kb k v ex d f db = (res, db')" and ok: "db_inv late w db"
    and r: "jget (smap (db_store db)) k = Some r" "materialize (db_reader db) (sref r) = Inr v" "d = sdt r"
  shows "db_inv late w db' \<and> db_mode db' = db_mode db \<and> db_reader db' = db_reader db \<and> row_of db' = row_of db \<and>
      db_store db' = store_set (jb w) k v ex d (db_store db)"
    "\<exists>p. res = Inr p \<and> pd_promise p = pd_promise (fst (append_wal f db)) \<and> db_wal db' = db_wal (snd (append_wal f db)) \<and>
      pd_prevs p = [(k, Some r)] \<and> pd_seqs p = [(k, seq_of k db')] \<and> waits w (db_reader db') p"
proof -
  obtain p0 db1 where a: "append_wal f db = (p0, db1)" by (cases "append_wal f db")
  note A = append_wal_eq [OF a]
  have i: "idx_part db1 = idx_part db" using append_wal_fields(3) [of f db] by (simp add: a)
  let ?db = "db1\<lparr> db_store := store_set (jb w) k v ex d (db_store db) \<rparr>"
  have db': "db' = ?db" and res: "res = Inr (p0\<lparr> pd_prevs := [(k, Some r)], pd_seqs := [(k, seq_of k ?db)],
      pd_refs := [(k, \<lparr> lfile = loc_file.Wal, loff = nat (pd_off p0) + HEADER_SIZE + length kb, llen = length v \<rparr>, ex, d)] \<rparr>)"
    using C by (auto simp: expire_commit_def a Let_def A r(1))
  have c: "idx_ok ?db" "idx_defs_of ?db = idx_defs_of db" "row_of ?db = row_of db"
    using idx_part_cong [of ?db db] db_invD(2) [OF ok] i by (simp_all add: idx_part_def)
  have "key_row late w (db_reader db) (idx_defs_of db) (jget (smap (db_store ?db)) k') (row_of db k')" for k'
    using db_invD(3) [OF ok, of k'] db_invD(3) [OF ok, of k] r
    by (simp add: store_set_def smap_setRef rec_row_def value_of_def materialize_def)
  then have "db_inv late w ?db" using c setRef_ok [OF db_invD(1) [OF ok]] A by (simp add: db_inv_def store_set_def)
  then show "db_inv late w db' \<and> db_mode db' = db_mode db \<and> db_reader db' = db_reader db \<and> row_of db' = row_of db \<and>
      db_store db' = store_set (jb w) k v ex d (db_store db)"
    by (simp add: db' A c(3))
  show "\<exists>p. res = Inr p \<and> pd_promise p = pd_promise (fst (append_wal f db)) \<and> db_wal db' = db_wal (snd (append_wal f db)) \<and>
      pd_prevs p = [(k, Some r)] \<and> pd_seqs p = [(k, seq_of k db')] \<and> waits w (db_reader db') p"
    using db_inv_readable [OF ok r(1)] by (simp add: res db' a A waits_def jmap_ok_def)
qed

text \<open>What \<open>expire\<close> reads first: the live record, and its value.\<close>

lemma expire_reads:
  assumes ok: "db_inv late w db" and r: "live now (db_store db) k = Some r"
  shows "jget (smap (db_store db)) k = Some r" "getRecord (jb w) now k (db_store db) = (Some r, db_store db, [])"
    "notify (db_store db, []) db = db"
    "\<exists>v. materialize (db_reader db) (sref r) = Inr v \<and> db_get w now k db = (Inr (Some v), db)"
proof -
  show k: "jget (smap (db_store db)) k = Some r" using r by (simp add: live_def split: option.splits if_splits)
  have l: "Store.is_live now r" using r by (simp add: live_def split: option.splits if_splits)
  show "getRecord (jb w) now k (db_store db) = (Some r, db_store db, [])"
    using k l by (auto simp: getRecord_def Store.is_live_def)
  show "notify (db_store db, []) db = db" by (simp add: notify_fold)
  show "\<exists>v. materialize (db_reader db) (sref r) = Inr v \<and> db_get w now k db = (Inr (Some v), db)"
    using db_inv_readable [OF ok k] db_get_live [OF k l, of w] by (auto simp: readable_def value_of_def split: sum.splits)
qed

section \<open>Prepared writes\<close>

text \<open>The codec gives back a document that indexes the same as the one it was given.\<close>

definition codec_keeps :: "'a world_scheme \<Rightarrow> jsv \<Rightarrow> bool" where
  "codec_keeps w v \<longleftrightarrow> (\<forall>b. enc w v = Inr b \<longrightarrow> (\<exists>doc. dec w b = Inr doc \<and> (\<forall>D d. row_for w D doc d = row_for w D v d)))"

lemma normDt_legal: "dt_legal (normDt w d)"
proof -
  have "jmap_ok (fold (\<lambda>(k, v) out. case dt_millis w v of None \<Rightarrow> out | Some ms \<Rightarrow> jset k ms out) es out)"
    if "jmap_ok out" for es :: "(jstr \<times> jsv) list" and out
    using that by (induction es arbitrary: out) (auto split: option.splits)
  from this [of "[]"] show ?thesis
    by (auto simp: normDt_def dt_legal_def Let_def jmap_ok_def split: option.splits)
qed

lemma map_result_Inr: "map_result f r = Inr y \<Longrightarrow> (\<And>x. r = Inr x \<Longrightarrow> y = f x \<Longrightarrow> P) \<Longrightarrow> P"
  by (cases r) auto

lemma prepareDel_stable: "prepareDel key = Inr a \<Longrightarrow> stable w a"
  by (auto simp: prepareDel_def stable_def write_fits_def pk_of_def dt_legal_def TYPE_SET_def TYPE_DEL_def elim!: map_result_Inr)

lemma prepareSet_stable:
  assumes "prepareSet w now key v ttl d = Inr a" "codec_keeps w v"
  shows "stable w a"
proof -
  obtain ex b where "enc w v = Inr b"
    and a: "a = \<lparr> p_type = TYPE_SET, p_key = toBuf key, p_value = Some b, p_meta = map_option (dt_json w) (normDt w d),
      p_expire = ex, p_dt = normDt w d, p_pk = pk_of key, p_doc = v \<rparr>"
    using assms(1) by (auto simp: prepareSet_def Let_def split: sum.splits elim!: map_result_Inr)
  then show ?thesis using assms(2) by (auto simp: stable_def write_fits_def codec_keeps_def pk_of_def normDt_legal)
qed

fun input_value :: "batch_input \<Rightarrow> jsv option" where
  "input_value (InSet key v ttl d) = Some v"
| "input_value (InDel key) = None"

lemma prepareOp_stable:
  assumes "prepareOp w now i = Inr a" "\<forall>v. input_value i = Some v \<longrightarrow> codec_keeps w v"
  shows "stable w a"
  using assms by (cases i) (auto intro: prepareSet_stable prepareDel_stable)

end
