(* ===== verification/DbReach.thy ===== *)
theory DbReach
  imports DbCommit MiniDbRead
begin

text \<open>
  The states a database in memory mode can reach. A write is two steps, its commit body and what runs
  after its await, and between them any steps of other tasks; reads that reap, the expiry timer and
  the log are steps of their own. The public writes are runs of these steps.
\<close>

section \<open>Steps\<close>

text \<open>
  One step of a task between two awaits. A commit body runs a write prepared at any earlier time;
  every value is one the codec keeps (for \<open>json\<close>: no \<open>NaN\<close>, no infinity, nothing \<open>JSON.stringify\<close>
  drops). The end of a commit may come at any clock, in any order with the others: of a waiting
  commit only that the records it saved can be read matters. Unless \<open>late\<close>, an append is refused
  before a record the commit replaced expires. Of the log, a memory database only notices that it
  moves.
\<close>

inductive db_step :: "bool \<Rightarrow> 'a world_scheme \<Rightarrow> mini_db \<Rightarrow> mini_db \<Rightarrow> bool" for late :: bool and w :: "'a world_scheme" where
  SetBody: "prepareSet w t key v ttl d = Inr a \<Longrightarrow> codec_keeps w v \<Longrightarrow> set_commit w now a db = (r, db') \<Longrightarrow> db_step late w db db'"
| DelBody: "prepareDel key = Inr a \<Longrightarrow> del_commit w now a db = (r, db') \<Longrightarrow> db_step late w db db'"
| BatchBody: "collect (map (prepareOp w t) ins) = Inr as \<Longrightarrow> (\<forall>i \<in> set ins. \<forall>v. input_value i = Some v \<longrightarrow> codec_keeps w v) \<Longrightarrow>
    batch_commit w now as db = (r, db') \<Longrightarrow> db_step late w db db'"
| ExpireBody: "getRecord (jb w) now (pk_of key) (db_store db) = (Some r, sn) \<Longrightarrow>
    db_get w now (pk_of key) (notify sn db) = (Inr (Some v), db1) \<Longrightarrow>
    expire_commit w (toBuf key) (pk_of key) v ex (sdt r) f db1 = (res, db') \<Longrightarrow> db_step late w db db'"
| EndOfCommit: "waits w (db_reader db) p \<Longrightarrow> late \<or> in_time now p outcome \<Longrightarrow> finish_commit w now p outcome db = (e, db') \<Longrightarrow>
    db_step late w db db'"
| Get: "get_key w now key db = (v, db') \<Longrightarrow> db_step late w db db'"
| Has: "db_has w now k db = (b, db') \<Longrightarrow> db_step late w db db'"
| Reap: "reapExpired (jb w) now (db_store db) = (n, sn) \<Longrightarrow> db_step late w db (notify sn db)"
| Tick: "activeExpire (jb w) now clock (db_store db) = sn \<Longrightarrow> db_step late w db (notify sn db)"
| Log: "db_step late w db (db\<lparr> db_wal := l, db_walNo := n, db_rotating := b \<rparr>)"
| Evicted: "db_step late w db (db\<lparr> st_evictions := n \<rparr>)"
| Rejected: "db_step late w db (db\<lparr> st_rejections := n \<rparr>)"

abbreviation db_run :: "bool \<Rightarrow> 'a world_scheme \<Rightarrow> mini_db \<Rightarrow> mini_db \<Rightarrow> bool" where
  "db_run late w \<equiv> (db_step late w)\<^sup>*\<^sup>*"

definition mem_ok :: "bool \<Rightarrow> 'a world_scheme \<Rightarrow> mini_db \<Rightarrow> bool" where
  "mem_ok late w db \<longleftrightarrow> db_inv late w db \<and> db_mode db = InMemory"

text \<open>What a step keeps.\<close>

definition step_keeps :: "bool \<Rightarrow> 'a world_scheme \<Rightarrow> mini_db \<Rightarrow> mini_db \<Rightarrow> bool" where
  "step_keeps late w db db' \<longleftrightarrow> mem_ok late w db' \<and> db_reader db' = db_reader db"

lemma body_keeps:
  assumes c: "commit_ok late w commit" and r: "commit now db = (r, db')" and ok: "mem_ok late w db"
  shows "step_keeps late w db db'" "r = Inr p \<Longrightarrow> pend_ok late w now db p db'"
proof -
  have "db_inv late w db" using ok by (simp add: mem_ok_def)
  then have C: "case r of Inl e \<Rightarrow> db_inv late w db' \<and> db_mode db' = db_mode db \<and> db_reader db' = db_reader db
      | Inr p \<Rightarrow> pend_ok late w now db p db'"
    using c [unfolded commit_ok_def, rule_format, of db now] unfolding r prod.case by blast
  then show "step_keeps late w db db'" using ok by (cases r) (simp_all add: step_keeps_def mem_ok_def pend_ok_def)
  show "r = Inr p \<Longrightarrow> pend_ok late w now db p db'" using C by simp
qed

lemma notify_keeps:
  "mem_ok late w db \<Longrightarrow> reaps (jb w) now (db_store db) st' ns \<Longrightarrow> step_keeps late w db (notify (st', ns) db)"
  by (simp add: mem_ok_def step_keeps_def notify_ok)

lemma get_keeps:
  assumes g: "get_key w now key db = (r, db')" and ok: "mem_ok late w db"
  shows "step_keeps late w db db'"
proof -
  obtain r1 db1 where g1: "db_get w now (pk_of key) db = (r1, db1)" by (cases "db_get w now (pk_of key) db")
  obtain st' ns where s: "store_get (jb w) (db_reader db) now (pk_of key) (db_store db) = (r1, st', ns)" "db1 = notify (st', ns) db"
    using g1 by (auto simp: db_get_def split: prod.splits)
  have "step_keeps late w db db1" unfolding s(2) by (rule notify_keeps [OF ok conjunct1 [OF store_get_reaps [OF s(1)]]])
  then show ?thesis using g ok
    by (auto simp: get_key_def g1 mem_ok_def step_keeps_def split: sum.splits if_splits)
qed

lemma has_keeps:
  assumes "db_has w now k db = (b, db')" and ok: "mem_ok late w db"
  shows "step_keeps late w db db'"
proof -
  obtain r st' ns where g: "getRecord (jb w) now k (db_store db) = (r, st', ns)" by (cases "getRecord (jb w) now k (db_store db)")
  have "db' = notify (st', ns) db" using assms(1) by (simp add: db_has_def store_has_def g)
  then show ?thesis using notify_keeps [OF ok] getRecord_reaps [OF g] by blast
qed

lemma getRecord_live:
  assumes "db_inv late w db" "getRecord (jb w) now k (db_store db) = (Some r, sn)"
  shows "live now (db_store db) k = Some r" "notify sn db = db"
proof -
  show l: "live now (db_store db) k = Some r" using assms(2) getRecord_reaps [of "jb w" now k "db_store db" "Some r"] by (cases sn) simp
  show "notify sn db = db" using expire_reads(2,3) [OF assms(1) l] assms(2) by simp
qed

lemma expire_keeps:
  assumes g: "getRecord (jb w) now k (db_store db) = (Some r, sn)" and v: "db_get w now k (notify sn db) = (Inr (Some v), db1)"
    and C: "expire_commit w kb k v ex (sdt r) f db1 = (res, db')" and ok: "mem_ok late w db"
  shows "step_keeps late w db db'"
proof -
  have inv: "db_inv late w db" using ok by (simp add: mem_ok_def)
  note G = getRecord_live [OF inv g] and E = expire_reads [OF inv getRecord_live(1) [OF inv g]]
  have "db1 = db" "materialize (db_reader db) (sref r) = Inr v" using E(4) v by (auto simp: G(2))
  then show ?thesis using expire_commit_ok(1) [OF C _ _ _ refl] E(1) inv ok by (simp add: step_keeps_def mem_ok_def)
qed

lemma mem_ok_other [simp]:
  "mem_ok late w (db\<lparr> db_wal := l, db_walNo := n, db_rotating := b \<rparr>) = mem_ok late w db"
  "mem_ok late w (db\<lparr> st_evictions := n \<rparr>) = mem_ok late w db" "mem_ok late w (db\<lparr> st_rejections := n \<rparr>) = mem_ok late w db"
proof -
  have "db_inv late w (db\<lparr> db_wal := l, db_walNo := n, db_rotating := b \<rparr>) = db_inv late w db"
    "db_inv late w (db\<lparr> st_evictions := n \<rparr>) = db_inv late w db" "db_inv late w (db\<lparr> st_rejections := n \<rparr>) = db_inv late w db" for n b
    by (rule db_inv_cong; simp add: idx_part_def)+
  then show "mem_ok late w (db\<lparr> db_wal := l, db_walNo := n, db_rotating := b \<rparr>) = mem_ok late w db"
    "mem_ok late w (db\<lparr> st_evictions := n \<rparr>) = mem_ok late w db" "mem_ok late w (db\<lparr> st_rejections := n \<rparr>) = mem_ok late w db"
    by (simp_all add: mem_ok_def)
qed

lemma store_ok_mem: "mem_ok late w db \<Longrightarrow> store_ok (jb w) (db_store db)"
  by (auto simp: mem_ok_def dest: db_invD(1))

lemma collect_each: "collect (map f xs) = Inr ys \<Longrightarrow> \<forall>y \<in> set ys. \<exists>x \<in> set xs. f x = Inr y"
proof (induction xs arbitrary: ys)
  case (Cons x xs)
  then show ?case by (cases "f x") (auto elim!: map_result_Inr, blast)
qed simp

lemma collect_stable:
  "collect (map (prepareOp w t) ins) = Inr as \<Longrightarrow> \<forall>i \<in> set ins. \<forall>v. input_value i = Some v \<longrightarrow> codec_keeps w v \<Longrightarrow>
     \<forall>a \<in> set as. stable w a"
  using collect_each prepareOp_stable by blast

lemma db_step_keeps:
  assumes "db_step late w db db'" "mem_ok late w db"
  shows "step_keeps late w db db'"
  using assms
proof (induction rule: db_step.induct)
  case (SetBody t key v ttl d a now db r db')
  then show ?case using body_keeps(1) [OF set_commit_ok [OF prepareSet_stable]] by blast
next
  case (DelBody key a now db r db')
  then show ?case using body_keeps(1) [OF del_commit_ok [OF prepareDel_stable]] by blast
next
  case (BatchBody t ins as now db r db')
  then show ?case using body_keeps(1) [OF batch_commit_ok [OF collect_stable]] by blast
next
  case (ExpireBody now key db r sn v db1 ex f res db')
  then show ?case by (rule expire_keeps)
next
  case (EndOfCommit db p now outcome e db')
  then show ?case using finish_commit_ok [OF EndOfCommit(3) _ _ EndOfCommit(1,2)] unfolding step_keeps_def mem_ok_def by blast
next
  case (Get now key db v db')
  then show ?case by (rule get_keeps)
next
  case (Has now k db b db')
  then show ?case by (rule has_keeps)
next
  case (Reap now db n sn)
  then show ?case using notify_keeps reapExpired_reaps(1) [OF store_ok_mem] by (cases sn) blast
next
  case (Tick now clock db sn)
  obtain st' ns where sn: "sn = (st', ns)" by (cases sn)
  show ?case unfolding sn
    by (rule notify_keeps [OF Tick(2) activeExpire_reaps(1) [OF store_ok_mem [OF Tick(2)] Tick(1) [unfolded sn]]])
qed (simp_all add: step_keeps_def)

lemma db_run_keeps: "db_run late w db db' \<Longrightarrow> mem_ok late w db \<Longrightarrow> step_keeps late w db db'"
proof (induction rule: rtranclp_induct)
  case base
  then show ?case by (simp add: step_keeps_def)
next
  case (step y z)
  then show ?case using db_step_keeps [of late w y z] by (simp add: step_keeps_def)
qed

section \<open>From an empty database\<close>

text \<open>A database opened on an empty directory, with the indexes its definition files name.\<close>

definition fresh_db :: "mini_db \<Rightarrow> bool" where
  "fresh_db db \<longleftrightarrow>
     db_mode db = InMemory \<and> (\<exists>n b. db_store db = new_store n b) \<and> db_dt db = new_dt_index \<and>
     jmap_ok (db_indexes db) \<and>
     (\<forall>(name, ix) \<in> set (db_indexes db). \<exists>h. ixname h = name \<and> (ix = EqIndex (new_eq h) \<or> ix = RangeIndex (new_range h))) \<and>
     (\<forall>(name, c) \<in> set (db_compound db). \<exists>d. c = new_entry d) \<and>
     (\<forall>(name, ti) \<in> set (db_text db). \<exists>flds path climit. ti = new_text_index flds path climit)"

lemma new_fields [simp]:
  "index_head.truncate (new_eq h) = index_head.truncate h" "index_head.truncate (new_range h) = index_head.truncate h"
  "cdef (new_entry d) = d" "ti_fields (new_text_index flds path climit) = flds"
  by (simp_all add: new_eq_def new_range_def index_head.defs eq_index.defs range_index.defs new_entry_def new_text_index_def)

lemma truncate_head [simp]: "index_head.truncate (h :: index_head) = h"
  by (simp add: index_head.defs)

lemma fresh_ok:
  assumes f: "fresh_db db"
  shows "mem_ok late w db"
proof -
  have ix: "\<exists>h. ixname h = n \<and> (ix = EqIndex (new_eq h) \<or> ix = RangeIndex (new_range h))" if "jget (db_indexes db) n = Some ix" for n ix
    using f map_of_SomeD [OF that] by (auto simp: fresh_db_def)
  have cx: "\<exists>d. c = new_entry d" if "jget (db_compound db) n = Some c" for n c
    using f map_of_SomeD [OF that] by (auto simp: fresh_db_def)
  have tx: "\<exists>flds path climit. ti = new_text_index flds path climit" if "jget (db_text db) n = Some ti" for n ti
    using f map_of_SomeD [OF that] by (auto simp: fresh_db_def)
  have "any_ok ix \<and> ixname (head_of ix) = n" if "jget (db_indexes db) n = Some ix" for n ix
    using ix [OF that] new_eq_ok(1) new_range_ok(1) by auto
  moreover have "entry_ok (cdef c) c" if "jget (db_compound db) n = Some c" for n c
    using cx [OF that] new_entry_ok(1) by auto
  moreover have "text_ok (ti_fields ti) ti" if "jget (db_text db) n = Some ti" for n ti
    using tx [OF that] new_text_ok(1) by auto
  ultimately have "idx_ok db" using f dt_empty_ok by (simp add: idx_ok_def fresh_db_def)
  moreover have "row_of db k = no_row" for k
  proof -
    have "(case jget (db_compound db) n of None \<Rightarrow> None | Some c \<Rightarrow> c_view c k) = None" for n
      using cx [of n] new_entry_ok(2) by (cases "jget (db_compound db) n") auto
    moreover have "(case jget (db_text db) n of None \<Rightarrow> None | Some ti \<Rightarrow> text_view ti k) = None" for n
      using tx [of n] new_text_ok(2) by (cases "jget (db_text db) n") auto
    moreover have "(case jget (db_indexes db) n of Some (EqIndex e) \<Rightarrow> eq_view e k | _ \<Rightarrow> None) = None \<and>
        (case jget (db_indexes db) n of Some (RangeIndex r) \<Rightarrow> range_view r k | _ \<Rightarrow> None) = None" for n
      using ix [of n] new_eq_ok(2) new_range_ok(2) by (cases "jget (db_indexes db) n") auto
    moreover have "dt_view (db_dt db) k = None"
      using f dtix.view_empty by (simp add: fresh_db_def)
    ultimately show ?thesis by (simp add: row_of_def no_row_def)
  qed
  moreover obtain n b where "db_store db = new_store n b" using f by (auto simp: fresh_db_def)
  moreover have "smap (new_store n b) = []" by (simp add: new_store_def)
  moreover have "db_mode db = InMemory" using f by (simp add: fresh_db_def)
  ultimately have "db_ok w db" "db_mode db = InMemory" by (simp_all add: db_ok_def rec_row_def)
  then show ?thesis using db_ok_inv by (simp add: mem_ok_def)
qed

section \<open>The public writes are runs\<close>

text \<open>
  A call of \<open>set\<close>, \<open>del\<close> or \<open>batch\<close>, its evictions, attempts and the ends of its commits, with what
  the other tasks do at each of its awaits, is a run of steps.
\<close>

definition runs :: "'a world_scheme \<Rightarrow> (mini_db \<Rightarrow> mini_db) \<Rightarrow> bool" where
  "runs w f \<longleftrightarrow> (\<forall>x. db_run True w x (f x))"

definition others_run :: "'a world_scheme \<Rightarrow> replies \<Rightarrow> bool" where
  "others_run w io \<longleftrightarrow> runs w (gap (try1 io)) \<and> runs w (rot io) \<and> runs w (gap (try2 io))"

definition body_step :: "'a world_scheme \<Rightarrow> (int \<Rightarrow> mini_db \<Rightarrow> (js_error + pending) \<times> mini_db) \<Rightarrow> bool" where
  "body_step w commit \<longleftrightarrow> commit_ok True w commit \<and> (\<forall>t x r x'. commit t x = (r, x') \<longrightarrow> db_step True w x x')"

lemma body_steps:
  "prepareSet w t key v ttl d = Inr a \<Longrightarrow> codec_keeps w v \<Longrightarrow> body_step w (\<lambda>t. set_commit w t a)"
  "prepareDel key = Inr a \<Longrightarrow> body_step w (\<lambda>t. del_commit w t a)"
  "collect (map (prepareOp w t) ins) = Inr as \<Longrightarrow> (\<forall>i \<in> set ins. \<forall>v. input_value i = Some v \<longrightarrow> codec_keeps w v) \<Longrightarrow>
     body_step w (\<lambda>t. batch_commit w t as)"
  unfolding body_step_def
  by (intro conjI allI impI, rule set_commit_ok, erule (1) prepareSet_stable, erule (2) SetBody,
      intro conjI allI impI, rule del_commit_ok, erule prepareDel_stable, erule (1) DelBody,
      intro conjI allI impI, rule batch_commit_ok, erule (1) collect_stable, erule (2) BatchBody)

lemma write_once_runs:
  assumes c: "body_step w commit" and g: "runs w (gap t)" and ok: "mem_ok True w db"
  shows "db_run True w db (snd (write_once w commit t db))"
proof (cases "commit (begun t) db")
  case (Pair r db1)
  have C: "commit_ok True w commit" "db_step True w db db1" using c Pair by (auto simp: body_step_def)
  note K = body_keeps [OF C(1) Pair ok]
  show ?thesis
  proof (cases r)
    case (Inl e)
    then show ?thesis using C(2) by (simp add: write_once_def Pair)
  next
    case (Inr p)
    have "waits w (db_reader db1) p" using pend_waits [OF K(2) [OF Inr]] ok by (simp add: mem_ok_def)
    moreover have G: "db_run True w db1 (gap t db1)" using g by (simp add: runs_def)
    moreover from this have "db_reader (gap t db1) = db_reader db1"
      using db_run_keeps K(1) unfolding step_keeps_def by blast
    ultimately have "db_step True w (gap t db1) (snd (write_once w commit t db))"
      using EndOfCommit [of w "gap t db1" p True, OF _ _ prod.collapse [symmetric]] by (simp add: write_once_def Pair Inr)
    with C(2) G show ?thesis by (meson converse_rtranclp_into_rtranclp rtranclp.rtrancl_into_rtrancl)
  qed
qed

lemma retry_runs:
  assumes c: "body_step w commit" and o: "others_run w io" and ok: "mem_ok True w db"
  shows "db_run True w db (snd (retryOnWalSeal w commit io db))"
proof -
  obtain e db1 where W: "write_once w commit (try1 io) db = (e, db1)" by (cases "write_once w commit (try1 io) db")
  have R1: "db_run True w db db1" using write_once_runs [OF c _ ok, of "try1 io"] o by (simp add: W others_run_def)
  let ?db2 = "if db_rotating db1 then rot io db1 else db1"
  have R2: "db_run True w db ?db2" using R1 o by (auto simp: others_run_def runs_def intro: rtranclp_trans)
  then have "mem_ok True w ?db2" using db_run_keeps [OF _ ok] by (auto simp: step_keeps_def)
  then have "db_run True w ?db2 (snd (write_once w commit (try2 io) ?db2))"
    using write_once_runs [OF c] o by (simp add: others_run_def)
  then show ?thesis using R1 R2 by (cases e) (auto simp: retryOnWalSeal_def W simp del: if_split intro: rtranclp_trans split: if_split)
qed

lemma run_ok: "db_run True w db db' \<Longrightarrow> mem_ok True w db \<Longrightarrow> mem_ok True w db'"
  using db_run_keeps by (auto simp: step_keeps_def)

lemma evictKey_runs:
  assumes o: "others_run w io" and ok: "mem_ok True w db"
  shows "db_run True w db (snd (evictKey w k io db))"
proof (cases "recordBytes (jb w) k (db_store db) = 0 \<or> (\<exists>e. prepareDel (KBytes (fromKStr k)) = Inl e)")
  case False
  then obtain a where a: "prepareDel (KBytes (fromKStr k)) = Inr a" by (cases "prepareDel (KBytes (fromKStr k))") auto
  obtain e db' where R: "retryOnWalSeal w (\<lambda>t. del_commit w t a) io db = (e, db')"
    by (cases "retryOnWalSeal w (\<lambda>t. del_commit w t a) io db")
  have run: "db_run True w db db'" using retry_runs [OF body_steps(2) [OF a] o ok] by (simp add: R)
  then show ?thesis using False Evicted [of True w db'] rtranclp.rtrancl_into_rtrancl [OF run]
    by (cases e) (simp_all add: evictKey_def a R)
qed (auto simp: evictKey_def)

lemma evict_loop_runs:
  "evict_loop w budget skip ios projected db = Some (e, p, db') \<Longrightarrow> mem_ok True w db \<Longrightarrow> \<forall>io \<in> set ios. others_run w io \<Longrightarrow>
     db_run True w db db'"
proof (induction ios arbitrary: projected db)
  case Nil
  then show ?case by (auto simp: evict_loop.simps [of _ _ _ "[]"] split: if_splits option.splits)
next
  case (Cons io ios)
  show ?case
  proof (cases "projected \<le> budget \<or> pickEvictionVictim skip db = None \<or> pickEvictionVictim skip db = Some []")
    case True
    then show ?thesis using Cons.prems by (auto simp: evict_loop.simps [of _ _ _ "_ # _"] split: if_splits)
  next
    case False
    then obtain k where k: "pickEvictionVictim skip db = Some k" "k \<noteq> []" "\<not> projected \<le> budget" by auto
    obtain e1 db1 where E: "evictKey w k io db = (e1, db1)" by (cases "evictKey w k io db")
    have R: "db_run True w db db1" using evictKey_runs [of w io db k] Cons.prems by (simp add: E)
    show ?thesis using Cons.prems Cons.IH [OF _ run_ok [OF R]] k R
      by (cases e1) (auto simp: evict_loop.simps [of _ _ _ "_ # _"] E Let_def intro: rtranclp_trans)
  qed
qed

lemma ensureMemoryFor_runs:
  assumes E: "ensureMemoryFor w now as ios db = Some (e, db')" and ok: "mem_ok True w db" and o: "\<forall>io \<in> set ios. others_run w io"
  shows "db_run True w db db'"
proof (cases "maxMemoryBytes db")
  case None
  then show ?thesis using E by (simp add: ensureMemoryFor_def)
next
  case (Some budget)
  obtain n st' ns where R: "reapExpired (jb w) now (db_store db) = (n, st', ns)" by (cases "reapExpired (jb w) now (db_store db)")
  let ?db1 = "notify (st', ns) db"
  have run1: "db_run True w db ?db1" using Reap [OF R, of True] by blast
  note L = evict_loop_runs [OF _ run_ok [OF run1 ok] o]
  have rej: "db_run True w db (x\<lparr> st_rejections := m \<rparr>)" if "db_run True w db x" for x m
    using that Rejected [of True w x m] by (rule rtranclp.rtrancl_into_rtrancl)
  show ?thesis
    using E run1 rej [OF run1] rej [OF rtranclp_trans [OF run1 L]] rtranclp_trans [OF run1 L]
    by (auto simp: ensureMemoryFor_def Some R Let_def split: if_splits option.splits prod.splits)
qed

lemma pass_gate_runs: "runs w gate \<Longrightarrow> db_run True w db (pass_gate gate db)"
  by (simp add: pass_gate_def runs_def)

text \<open>Memory first, then the commit.\<close>

lemma commit_after_budget:
  assumes E: "(case ensureMemoryFor w now as ios db of
      None \<Rightarrow> None | Some (Some e, db2) \<Rightarrow> Some (Some e, db2)
    | Some (None, db2) \<Rightarrow> Some (retryOnWalSeal w commit io db2)) = Some (e, db')"
    and ok: "mem_ok True w db" and o: "\<forall>io \<in> set ios. others_run w io" "others_run w io" and c: "body_step w commit"
  shows "db_run True w db db'"
proof -
  obtain e2 db2 where M: "ensureMemoryFor w now as ios db = Some (e2, db2)"
    using E by (cases "ensureMemoryFor w now as ios db") auto
  have R: "db_run True w db db2" by (rule ensureMemoryFor_runs [OF M ok o(1)])
  show ?thesis
    using E R rtranclp_trans [OF R retry_runs [OF c o(2) run_ok [OF R ok]]] by (cases e2) (simp_all add: M)
qed

lemma db_set_runs:
  assumes E: "db_set w now key v ttl d gate ios io db = Some (e, db')" and ok: "mem_ok True w db" and v: "codec_keeps w v"
    and o: "runs w gate" "\<forall>io \<in> set ios. others_run w io" "others_run w io"
  shows "db_run True w db db'"
proof -
  note R = pass_gate_runs [OF o(1), of db]
  show ?thesis
  proof (cases "guard_write db = Inr () \<and> checkKey key = Inr () \<and> (\<exists>a. prepareSet w now key v ttl d = Inr a)")
    case True
    then obtain a where a: "guard_write db = Inr ()" "checkKey key = Inr ()" "prepareSet w now key v ttl d = Inr a" by auto
    have "db_run True w (pass_gate gate db) db'"
      by (rule commit_after_budget [OF _ run_ok [OF R ok] o(2,3) body_steps(1) [OF a(3) v]])
         (use E a in \<open>simp add: db_set_def Let_def\<close>)
    with R show ?thesis by (rule rtranclp_trans)
  qed (use E R in \<open>auto simp: db_set_def Let_def split: sum.splits\<close>)
qed

lemma db_batch_runs:
  assumes E: "db_batch w now ins gate ios io db = Some (e, db')" and ok: "mem_ok True w db"
    and v: "\<forall>i \<in> set ins. \<forall>v. input_value i = Some v \<longrightarrow> codec_keeps w v"
    and o: "runs w gate" "\<forall>io \<in> set ios. others_run w io" "others_run w io"
  shows "db_run True w db db'"
proof -
  note R = pass_gate_runs [OF o(1), of db]
  show ?thesis
  proof (cases "guard_write db = Inr () \<and> ins \<noteq> [] \<and> (\<exists>as. collect (map (prepareOp w now) ins) = Inr as)")
    case True
    then obtain as where as: "guard_write db = Inr ()" "ins \<noteq> []" "collect (map (prepareOp w now) ins) = Inr as" by auto
    have "db_run True w (pass_gate gate db) db'"
      by (rule commit_after_budget [OF _ run_ok [OF R ok] o(2,3) body_steps(3) [OF as(3) v]])
         (use E as in \<open>simp add: db_batch_def Let_def\<close>)
    with R show ?thesis by (rule rtranclp_trans)
  qed (use E R in \<open>auto simp: db_batch_def Let_def split: sum.splits if_splits\<close>)
qed

lemma db_del_runs:
  assumes E: "db_del w now key gate ios io db = Some (r, db')" and ok: "mem_ok True w db"
    and o: "runs w gate" "\<forall>io \<in> set ios. others_run w io" "others_run w io"
  shows "db_run True w db db'"
proof -
  note R = pass_gate_runs [OF o(1), of db]
  obtain b db1 where H: "db_has w now (pk_of key) (pass_gate gate db) = (b, db1)"
    by (cases "db_has w now (pk_of key) (pass_gate gate db)")
  have R1: "db_run True w db db1" using R Has [OF H] by (rule rtranclp.rtrancl_into_rtrancl)
  show ?thesis
  proof (cases "guard_write db = Inr () \<and> b \<and> (\<exists>a. prepareDel key = Inr a)")
    case True
    then obtain a where a: "guard_write db = Inr ()" "b" "prepareDel key = Inr a" by auto
    obtain e2 db2 where M: "ensureMemoryFor w now [a] ios db1 = Some (e2, db2)"
      using E by (cases "ensureMemoryFor w now [a] ios db1") (auto simp: db_del_def H a)
    have R2: "db_run True w db db2" using R1 ensureMemoryFor_runs [OF M run_ok [OF R1 ok] o(2)] by (rule rtranclp_trans)
    have R3: "db_run True w db (snd (retryOnWalSeal w (\<lambda>t. del_commit w t a) io db2))"
      using R2 retry_runs [OF body_steps(2) [OF a(3)] o(3) run_ok [OF R2 ok]] by (rule rtranclp_trans)
    then show ?thesis using E R2
      by (cases "retryOnWalSeal w (\<lambda>t. del_commit w t a) io db2"; cases e2)
         (auto simp: db_del_def H a M split: option.splits)
  qed (use E R1 in \<open>auto simp: db_del_def H split: sum.splits if_splits\<close>)
qed

text \<open>C1: The indexes never leave the records. Take a database opened in memory mode on an empty
  directory with any indexes, and any interleaving of the steps of any number of tasks: commit bodies
  of \<open>set\<close>, \<open>del\<close> and \<open>batch\<close> (evictions are such deletes) and first attempts of \<open>expire\<close>, the ends of
  those commits at any later clock and in any order, successful or refused and rolled back, retries,
  reads that reap, expiry ticks, flushes and rotations of the log; every value set is one the codec
  gives back with the same index rows. Then the store stays well formed, the index structures stay well formed, and every dt
  column, compound, equality, range and text index holds of each key with a record exactly what the
  record gives. Of a key without a record they hold nothing - provided no append is refused after a
  record its commit replaced has expired (\<open>late\<close> false); without that proviso they hold nothing of
  such a key but possibly a dt row. (The lemmas \<open>db_set_runs\<close>, \<open>db_del_runs\<close> and
  \<open>db_batch_runs\<close> show that whole calls, with what other tasks do at their awaits, are such runs.)\<close>

theorem indexes_follow_records:
  assumes "fresh_db db0" "(db_step late w)\<^sup>*\<^sup>* db0 db"
  shows "db_mode db = InMemory \<and> store_ok (jb w) (db_store db) \<and> idx_ok db \<and>
    (\<forall>k. case jget (smap (db_store db)) k of
       Some r \<Rightarrow> dt_legal (sdt r) \<and>
         (\<exists>doc. value_of w (db_reader db) r = Inr doc \<and> row_of db k = row_for w (idx_defs_of db) doc (sdt r))
     | None \<Rightarrow> (if late then (row_of db k)\<lparr> rw_dt := None \<rparr> else row_of db k) = no_row)"
proof -
  have "mem_ok late w db" using db_run_keeps [OF assms(2) fresh_ok [OF assms(1)]] by (simp add: step_keeps_def)
  then have "db_mode db = InMemory" "db_inv late w db" by (simp_all add: mem_ok_def)
  then show ?thesis
    unfolding db_inv_def key_row_def rec_row_def stray_row_def by (simp cong: option.case_cong)
qed



section \<open>Prepared writes\<close>

lemma length_utf8: "list_all (\<lambda>c. c < 65536) s \<Longrightarrow> length (utf8 s) \<le> 3 * length s"
proof (induction s rule: utf8.induct)
  case (2 c cs)
  have p: "length (utf8_point c) \<le> 3" using "2.prems" by (simp add: utf8_point_def)
  have q: "length (utf8_point x) \<le> 4" for x by (simp add: utf8_point_def)
  show ?case
  proof (cases "high_surrogate c")
    case h: True
    show ?thesis
    proof (cases cs)
      case (Cons d ds)
      then show ?thesis using 2 h q [of "0x10000 + (c - 0xd800) * 0x400 + (d - 0xdc00)"]
        by (cases "low_surrogate d") auto
    qed (use h in simp)
  next
    case False
    then show ?thesis using 2 p by (cases "low_surrogate c") auto
  qed
qed simp

lemma utf8_nonempty: "s \<noteq> [] \<Longrightarrow> utf8 s \<noteq> []"
  by (cases s) (auto simp: utf8_point_def split: list.splits)

text \<open>A string of UTF-16 units, where the key is a string.\<close>

fun input_key :: "batch_input \<Rightarrow> db_key" where
  "input_key (InSet key v ttl d) = key"
| "input_key (InDel key) = key"

definition key_units :: "db_key \<Rightarrow> bool" where
  "key_units key = (case key of KText s \<Rightarrow> list_all (\<lambda>c. c < 65536) s | KBytes b \<Rightarrow> True)"

lemma checked_key:
  assumes "checkKey key = Inr ()" "key_units key"
  shows "0 < length (toBuf key) \<and> length (toBuf key) \<le> 3 * db_MAX_KEY_LEN"
proof (cases key)
  case (KText s)
  then show ?thesis using assms length_utf8 [of s] utf8_nonempty [of s]
    by (auto simp: checkKey_def key_units_def Let_def split: if_splits)
next
  case (KBytes b)
  then show ?thesis using assms by (auto simp: checkKey_def Let_def split: if_splits)
qed

text \<open>C36: What a prepared write is. It is a SET with a value or a DEL without one; its key has 1 to 384
  bytes and is read back from the key the store files it under, which is a byte string; its dt has
  each column once; its metadata is there only with a dt; and encoding it can fail only for a value,
  metadata or expiry that does not fit the frame, never for the key or the type.\<close>

theorem prepared_write_typed:
  assumes "prepareOp w now i = Inr a" "key_units (input_key i)"
  shows "(p_type a = TYPE_SET \<and> p_value a \<noteq> None \<or> p_type a = TYPE_DEL \<and> p_value a = None \<and> p_expire a = 0) \<and>
    0 < length (p_key a) \<and> length (p_key a) \<le> 384 \<and>
    kstr_ok (p_pk a) \<and> fromKStr (p_pk a) = p_key a \<and> dt_legal (p_dt a) \<and> (p_meta a \<noteq> None \<longrightarrow> p_dt a \<noteq> None) \<and>
    (frame_fits (p_type a) (p_key a) (p_value a) (p_meta a) (p_expire a) \<longleftrightarrow>
      length (or_empty (p_value a)) \<le> MAX_VAL_LEN \<and> length (or_empty (p_meta a)) \<le> MAX_VAL_LEN \<and> int64_ok (p_expire a))"
proof -
  have k: "checkKey (input_key i) = Inr ()" "p_key a = toBuf (input_key i)" "p_pk a = toKStr (p_key a)"
    and t: "p_type a = TYPE_SET \<and> p_value a \<noteq> None \<or> p_type a = TYPE_DEL \<and> p_value a = None \<and> p_expire a = 0"
    and d: "dt_legal (p_dt a)" "p_meta a \<noteq> None \<longrightarrow> p_dt a \<noteq> None"
    using assms(1) normDt_legal [of w]
    by (cases i; auto simp: prepareSet_def prepareDel_def pk_of_def Let_def dt_legal_def split: sum.splits elim!: map_result_Inr)+
  have "0 < length (p_key a) \<and> length (p_key a) \<le> 384"
    using checked_key [OF k(1) assms(2)] by (simp add: k(2) db_MAX_KEY_LEN_def)
  moreover have "p_type a \<le> 255" using t by (auto simp: TYPE_SET_def TYPE_DEL_def)
  ultimately show ?thesis using k(3) t d by (simp add: frame_fits_def MAX_KEY_LEN_def)
qed

section \<open>A sample\<close>

definition sample_doc :: jsv where "sample_doc = JObj 0 [(lit ''a'', JNum 1)]"

definition sample_world :: world where
  "sample_world =
     \<lparr> num_str = (\<lambda>q. []), str_num = (\<lambda>s. JNaN), regex = (\<lambda>s f. None), lower_case = (\<lambda>s. s), parse_date = (\<lambda>s. None),
       dt_json = (\<lambda>d. []), enc = (\<lambda>v. Inr [1]), dec = (\<lambda>b. Inr sample_doc) \<rparr>"

definition sample_wal :: wal where
  "sample_wal =
     \<lparr> policy = No, handle = True, wsize = 0, nextOffset = 0, queue = [], queuedBytes = 0, flight = None,
       scheduled = False, is_sealed = False, timer = False, is_closed = False, bytesWritten = 0, fsyncs = 0, disk = [],
       synced = 0, settled = [], next_id = 0 \<rparr>"

definition sample_db :: mini_db where
  "sample_db =
     \<lparr> db_store = new_store 20 1, db_reader = None, db_mode = InMemory,
       db_indexes = [(lit ''ix'', EqIndex (new_eq \<lparr> ixname = lit ''ix'', ixfield = lit ''a'', ixunique = False, ixsparse = True \<rparr>))],
       db_dt = new_dt_index, db_compound = [], db_text = [], db_textDefs = [], db_codec = JsonCodec, db_closed = False,
       db_readOnly = False, db_wal = sample_wal, db_walNo = 0, db_rotating = False, db_access = [], maxMemoryBytes = None,
       maxMemoryPolicy = Reject, st_evictions = 0, st_rejections = 0, st_indexHits = 0 \<rparr>"

definition quiet :: replies where
  "quiet = \<lparr> try1 = \<lparr> begun = 5, gap = (\<lambda>x. x), ended = 5, answer = None \<rparr>, rot = (\<lambda>x. x),
     try2 = \<lparr> begun = 5, gap = (\<lambda>x. x), ended = 5, answer = None \<rparr> \<rparr>"

lemma sample_fresh: "fresh_db sample_db"
proof -
  have "\<exists>h. ixname h = lit ''ix'' \<and> new_eq \<lparr> ixname = lit ''ix'', ixfield = lit ''a'', ixunique = False, ixsparse = True \<rparr> = new_eq h"
    by (rule exI [of _ "\<lparr> ixname = lit ''ix'', ixfield = lit ''a'', ixunique = False, ixsparse = True \<rparr>"]) simp
  then show ?thesis by (auto simp: fresh_db_def sample_db_def jmap_ok_def)
qed

lemma sample_codec: "codec_keeps sample_world sample_doc"
  by (simp add: codec_keeps_def sample_world_def)

definition sample_set :: prepared where
  "sample_set =
     \<lparr> p_type = TYPE_SET, p_key = [97], p_value = Some [1], p_meta = None, p_expire = 0, p_dt = None, p_pk = [97],
       p_doc = sample_doc \<rparr>"

lemma sample_set_fields:
  "p_key sample_set = [97]" "p_pk sample_set = [97]" "p_value sample_set = Some [1]" "p_meta sample_set = None"
  "p_expire sample_set = 0" "p_doc sample_set = sample_doc" "p_dt sample_set = None"
  by (simp_all add: sample_set_def)

lemma sample_prepared: "prepareOp sample_world now (InSet (KText [97]) sample_doc None None) = Inr sample_set"
  by (simp add: prepareSet_def checkKey_def db_MAX_KEY_LEN_def expire_at_def normDt_def sample_world_def sample_set_def
      pk_of_def toKStr_def utf8_point_def high_surrogate_def low_surrogate_def)

lemma sample_stable: "stable sample_world sample_set"
  by (rule prepareOp_stable [OF sample_prepared]) (simp add: sample_codec)

theorem indexes_follow_records_witness:
  "\<exists>p db1 e db2. set_commit sample_world 5 sample_set sample_db = (Inr p, db1) \<and>
     finish_commit sample_world 9 p (Some WalSealed) db1 = (e, db2) \<and> idx_ok db2 \<and>
     (\<forall>k. case jget (smap (db_store db2)) k of
        Some r \<Rightarrow> row_of db2 k = row_for sample_world (idx_defs_of db2) sample_doc (sdt r) | None \<Rightarrow> row_of db2 k = no_row)"
proof -
  have u: "checkUnique (num_str sample_world) (p_pk sample_set) (p_doc sample_set) (db_indexes sample_db) = Inr ()"
    by (simp add: checkUnique_def sample_db_def new_eq_def index_head.defs eq_index.defs)
  have "frame_fits TYPE_SET [97] (Some [1]) None 0"
    by (simp add: frame_fits_def or_empty_def size_defs type_defs int64_ok_def)
  then obtain f where f: "encodeFrame TYPE_SET [97] (Some [1]) None 0 = Inr f" using encodeFrame_fits by blast
  obtain p0 db0 where a: "append_wal f sample_db = (p0, db0)" by (cases "append_wal f sample_db")
  have ok: "mem_ok False sample_world sample_db" by (rule fresh_ok [OF sample_fresh])
  obtain r db1 where A: "applyOp sample_world 5 sample_set db0 = (r, db1)" by (cases "applyOp sample_world 5 sample_set db0")
  have "r = Inr (live 5 (db_store db0) [97])"
    using applyOp_ok(4) [OF A, of False] ok sample_stable append_wal_eq(1) [OF a, of False sample_world]
    by (simp add: stable_def mem_ok_def sample_set_def)
  then have r: "r = Inr None" using append_wal_eq [OF a] by (simp add: live_def sample_db_def new_store_def)
  have "\<exists>p. set_commit sample_world 5 sample_set sample_db = (Inr p, db1) \<and> pd_prevs p = [([97], None)]"
    using u f a A r by (simp add: set_commit_def sample_set_fields)
  then obtain p where C: "set_commit sample_world 5 sample_set sample_db = (Inr p, db1)" and prevs: "pd_prevs p = [([97], None)]"
    by blast
  obtain e db2 where F: "finish_commit sample_world 9 p (Some WalSealed) db1 = (e, db2)"
    by (cases "finish_commit sample_world 9 p (Some WalSealed) db1")
  have "waits sample_world (db_reader db1) p" "in_time 9 p (Some WalSealed)" by (simp_all add: waits_def in_time_def prevs jmap_ok_def)
  then have "db_step False sample_world db1 db2" using F by (blast intro: EndOfCommit)
  moreover have "db_step False sample_world sample_db db1"
    by (rule SetBody [OF _ sample_codec C]) (use sample_prepared [of 5] in simp)
  ultimately have "(db_step False sample_world)\<^sup>*\<^sup>* sample_db db2" by (meson converse_rtranclp_into_rtranclp rtranclp.rtrancl_refl)
  note T = indexes_follow_records [OF sample_fresh this]
  have I: "idx_ok db2" using T by blast
  have K: "case jget (smap (db_store db2)) k of
       Some r \<Rightarrow> dt_legal (sdt r) \<and>
         (\<exists>doc. value_of sample_world (db_reader db2) r = Inr doc \<and> row_of db2 k = row_for sample_world (idx_defs_of db2) doc (sdt r))
     | None \<Rightarrow> row_of db2 k = no_row" for k
    using T [unfolded if_False, THEN conjunct2, THEN conjunct2, THEN conjunct2, THEN spec, of k] .
  have "value_of sample_world rd r = Inr doc \<Longrightarrow> doc = sample_doc" for rd r doc
    by (simp add: value_of_def sample_world_def split: sum.splits)
  with K have "case jget (smap (db_store db2)) k of
      Some r \<Rightarrow> row_of db2 k = row_for sample_world (idx_defs_of db2) sample_doc (sdt r) | None \<Rightarrow> row_of db2 k = no_row" for k
    using K [of k] by (cases "jget (smap (db_store db2)) k") auto
  with C F I show ?thesis by blast
qed

theorem prepared_write_typed_witness:
  "prepareOp sample_world 5 (InSet (KText [97]) sample_doc None None) = Inr sample_set \<and> length (p_key sample_set) \<le> 384 \<and>
   fromKStr (p_pk sample_set) = p_key sample_set"
  using prepared_write_typed [OF sample_prepared [of 5]] sample_prepared [of 5] by (simp add: key_units_def)



end
