(* ===== verification/DbQuery.thy ===== *)
theory DbQuery
  imports DbReach
begin

text \<open>
  The query planner against the invariant: on a filter it can plan, the candidates the indexes give
  contain every live record the filter accepts, so a query answers what a scan of the records does.
\<close>

section \<open>Paths\<close>

text \<open>A path without brackets and empty segments means the same to an index and to a filter.\<close>

definition plain_field :: "jstr \<Rightarrow> bool" where
  "plain_field p \<longleftrightarrow> 91 \<notin> set p \<and> [] \<notin> set (split_on 46 p)"

lemma set_split_on: "s \<in> set (split_on c xs) \<Longrightarrow> set s \<subseteq> set xs"
proof (induction xs arbitrary: s)
  case (Cons x xs)
  obtain y ys where e: "split_on c xs = y # ys" using split_on_nonempty by (meson list.exhaust)
  have "\<forall>t \<in> set (y # ys). set t \<subseteq> set xs" using Cons.IH unfolding e by blast
  then show ?case using Cons.prems by (auto simp: e split: if_splits)
qed simp

lemma concat_singles: "\<forall>x \<in> set xs. f x = [g x] \<Longrightarrow> concat (map f xs) = map g xs"
  by (induction xs) auto

lemma seg_plain: "s \<noteq> [] \<Longrightarrow> 91 \<notin> set s \<Longrightarrow> seg_tokens s = [PStr s]"
proof -
  assume s: "s \<noteq> []" "91 \<notin> set s"
  then have t: "takeWhile (\<lambda>c. c \<noteq> 91) s = s" by (auto simp: takeWhile_eq_all_conv)
  have "bracket_match s = None" unfolding bracket_match_def t by simp
  with s show ?thesis by (subst seg_tokens.simps) simp
qed

lemma getPath_plain:
  assumes "plain_field p"
  shows "getPath doc p = getField doc p"
proof -
  have "\<forall>s \<in> set (split_on 46 p). seg_tokens s = [PStr s]"
    using assms set_split_on by (intro ballI seg_plain) (auto simp: plain_field_def)
  then have "tokenizePath p = map PStr (split_on 46 p)"
    unfolding tokenizePath_def by (rule concat_singles)
  then show ?thesis by (simp add: getPath_def getField_def fold_map o_def cong: if_cong)
qed

section \<open>What a match says of the predicates\<close>

lemma every_r_True: "every_r rs = Inr True \<longleftrightarrow> (\<forall>r \<in> set rs. r = Inr True)"
  by (induction rs rule: every_r.induct) auto

lemma match_plain:
  assumes "match_doc L doc f = Inr True" "(field, cond) \<in> set (own_entries f)" "\<not> dollar field"
  shows "matchCond L (getPath doc field) cond = Inr True"
proof -
  have "field \<noteq> lit ''$and''" "field \<noteq> lit ''$or''" "field \<noteq> lit ''$nor''" "field \<noteq> lit ''$not''"
    using assms(3) by (auto simp: dollar_def)
  then show ?thesis using assms(1,2)
    by (cases f) (force simp: every_r_True own_entries_def)+
qed

lemma predicate_cases:
  assumes "(field, cond) \<in> set (indexPredicates f)"
  obtains (plain) "(field, cond) \<in> set (own_entries f)" "\<not> dollar field"
  | (conj) i xs f' where "(lit ''$and'', JArr i xs) \<in> set (own_entries f)" "f' \<in> set xs" "(field, cond) \<in> set (plain_entries f')"
proof -
  let ?one = "\<lambda>(key, cond). case (key = lit ''$and'', cond) of
      (True, JArr i xs) \<Rightarrow> concat (map plain_entries xs) | _ \<Rightarrow> if \<not> dollar key then [(key, cond)] else []"
  have o: "is_object f" using assms by (simp add: indexPredicates_def split: if_splits)
  have "indexPredicates f = concat (map ?one (own_entries f))"
    by (subst indexPredicates_def) (simp only: o not_True_eq_False if_False)
  with assms have "(field, cond) \<in> set (concat (map ?one (own_entries f)))" by (simp only:)
  then obtain x where x: "x \<in> set (own_entries f)" "(field, cond) \<in> set (?one x)" by auto
  obtain key c where kc: "x = (key, c)" by (cases x)
  have d: "dollar (lit ''$and'')" by (simp add: dollar_def)
  show thesis
  proof (cases "key = lit ''$and''")
    case True
    have "\<exists>i xs. c = JArr i xs \<and> (\<exists>f' \<in> set xs. (field, cond) \<in> set (plain_entries f'))"
      using x(2) d by (cases c) (auto simp: kc True)
    then show thesis using conj x(1) by (auto simp: kc True)
  next
    case False
    then have "(field, cond) = (key, c) \<and> \<not> dollar key" using x(2) by (simp add: kc split: if_splits)
    then show thesis using plain x(1) by (simp add: kc)
  qed
qed

lemma match_predicates:
  assumes m: "match_doc L doc f = Inr True" and p: "(field, cond) \<in> set (indexPredicates f)"
  shows "matchCond L (getPath doc field) cond = Inr True"
using p
proof (cases rule: predicate_cases)
  case plain
  then show ?thesis using match_plain [OF m] by simp
next
  case (conj i xs f')
  have "match_doc L doc f' = Inr True"
  proof (cases f)
    case (JObj j fs)
    then have "(lit ''$and'', JArr i xs) \<in> set fs" using conj(1) by (simp add: own_entries_def)
    then have "every_r (map (match_doc L doc) xs) = Inr True" using m JObj by (force simp: every_r_True)
    then show ?thesis using conj(2) by (simp add: every_r_True)
  next
    case (JArr j ys)
    have "\<exists>n. nat_str n = lit ''$and''"
      using set_zip_leftD [OF conj(1) [unfolded JArr own_entries_def jsv.case indexed_entries_def]] by auto
    moreover have "nat_str n \<noteq> lit ''$and''" for n
      by (subst nat_str.simps) (auto dest: arg_cong [of _ _ last])
    ultimately show ?thesis by metis
  qed (use p conj(1) in \<open>auto simp: own_entries_def indexPredicates_def is_object_def\<close>)
  then show ?thesis using conj(3) match_plain [of L doc f' field cond] by (auto simp: plain_entries_def split: if_splits)
qed

lemma cond_entry:
  assumes c: "op_object cond" and m: "matchCond L v cond = Inr True"
    and g: "get_prop cond k \<noteq> JUndef" and k: "k \<noteq> lit ''length''" "array_index k = None"
  shows "cond_op L v k (get_prop cond k) = Inr True"
proof (cases cond)
  case (JObj i fs)
  then have "(k, get_prop cond k) \<in> set (own_entries cond)"
    using g by (auto simp: get_prop_def own_entries_def dest: map_of_SomeD split: option.splits)
  then show ?thesis using m by (force simp: matchCond_def JObj every_r_True)
next
  case (JArr i xs)
  then show ?thesis using g k by (simp add: get_prop_def nth_or_def)
qed (use c in \<open>simp_all add: op_object_def\<close>)

section \<open>What the indexes answer\<close>

text \<open>The live records: key, document and dt.\<close>

definition live_doc :: "'a world_scheme \<Rightarrow> int \<Rightarrow> mini_db \<Rightarrow> kstr \<Rightarrow> jsv \<Rightarrow> bool" where
  "live_doc w now db k doc \<longleftrightarrow> (\<exists>r. live now (db_store db) k = Some r \<and> value_of w (db_reader db) r = Inr doc)"

lemma live_docD:
  assumes "live_doc w now db k doc" "db_ok w db"
  shows "\<exists>r. jget (smap (db_store db)) k = Some r \<and> value_of w (db_reader db) r = Inr doc \<and>
    row_of db k = row_for w (idx_defs_of db) doc (sdt r)"
proof -
  obtain r where "jget (smap (db_store db)) k = Some r" "value_of w (db_reader db) r = Inr doc"
    using assms(1) by (auto simp: live_doc_def live_def split: option.splits if_splits)
  then show ?thesis using db_okD(3) [OF assms(2), of k] by (auto simp: rec_row_def)
qed

lemma eq_hits:
  assumes ok: "db_ok w db" and ix: "jget (db_indexes db) name = Some (EqIndex e)"
  shows "\<exists>ps. findEq (num_str w) name v (db_indexes db) = Inr ps \<and>
    (\<forall>k doc x. live_doc w now db k doc \<longrightarrow> is_object doc \<longrightarrow> x \<in> set (flatten (getField doc (ixfield e))) \<longrightarrow>
       getField doc (ixfield e) \<noteq> JUndef \<longrightarrow> scalarKey (num_str w) x = scalarKey (num_str w) v \<longrightarrow> k \<in> set ps)"
proof -
  let ?h = "index_head.truncate e"
  have e: "eq_ok ?h e" using idx_okD(3) [OF db_okD(2) [OF ok] ix] by simp
  have "k \<in> set (postings_of (eq_map e) (scalarKey (num_str w) v))"
    if d: "live_doc w now db k doc" "is_object doc" "x \<in> set (flatten (getField doc (ixfield e)))" "getField doc (ixfield e) \<noteq> JUndef"
      "scalarKey (num_str w) x = scalarKey (num_str w) v" for k doc x
  proof -
    obtain r :: store_rec where "row_of db k = row_for w (idx_defs_of db) doc (sdt r)" using live_docD [OF d(1) ok] by blast
    then have "rw_eq (row_of db k) name = rw_eq (row_for w (idx_defs_of db) doc (sdt r)) name" by simp
    then have V: "eq_view e k = eq_content (num_str w) ?h doc" by (simp add: row_of_def row_for_def idx_defs_of_def ix)
    have "\<exists>sks. eq_content (num_str w) ?h doc = Some sks \<and> scalarKey (num_str w) v \<in> set sks"
      using d by (auto simp: eq_content_values index_head.defs intro: rev_image_eqI)
    then show ?thesis using eq_lookup [OF e] by (simp add: V)
  qed
  then show ?thesis using findEq_index(1) [OF ix] by blast
qed

lemma range_hits:
  assumes ok: "db_ok w db" and ix: "jget (db_indexes db) name = Some (RangeIndex r)" and f: "foffset f = 0" "fcount f = None"
  shows "\<exists>rows. findRange name f (db_indexes db) = Inr rows \<and>
    (\<forall>k doc q. live_doc w now db k doc \<longrightarrow> is_object doc \<longrightarrow> getField doc (ixfield r) = JNum q \<longrightarrow>
       above (range_opts f) q \<longrightarrow> below (range_opts f) q \<longrightarrow> k \<in> fst ` set rows)"
proof -
  let ?h = "index_head.truncate r"
  have e: "range_ok ?h r" using idx_okD(3) [OF db_okD(2) [OF ok] ix] by simp
  have "k \<in> fst ` set (map prod.swap (oi_range (range_opts f) (rg_list r)))"
    if d: "live_doc w now db k doc" "is_object doc" "getField doc (ixfield r) = JNum q" "above (range_opts f) q" "below (range_opts f) q" for k doc q
  proof -
    obtain x :: store_rec where "row_of db k = row_for w (idx_defs_of db) doc (sdt x)" using live_docD [OF d(1) ok] by blast
    then have "rw_range (row_of db k) name = rw_range (row_for w (idx_defs_of db) doc (sdt x)) name" by simp
    then have V: "range_view r k = range_content ?h doc" by (simp add: row_of_def row_for_def idx_defs_of_def ix)
    have "\<exists>vs. range_content ?h doc = Some vs \<and> q \<in> set vs"
      using d by (auto simp: range_content_values index_head.defs flatten_def)
    then have "(q, k) \<in> set (rg_list r)" using range_lookup [OF e] by (simp add: V)
    then have "(q, k) \<in> set (oi_range (range_opts f) (rg_list r))"
      unfolding oi_range_exact [OF range_opts_exact] using d(4,5) f by (simp add: range_opts_def window_def)
    then show ?thesis by force
  qed
  then show ?thesis using findRange_index [OF ix] by blast
qed

lemma find_mem: "List.find P xs = Some x \<Longrightarrow> x \<in> set xs \<and> P x"
  by (induction xs) (auto split: if_splits)

lemma find_index_Some:
  assumes "find_index ty field m = Some h"
  obtains n ix where "(n, ix) \<in> set m" "head_of ix = h" "type_of_index ix = ty" "ixfield h = field"
  using assms by (auto simp: find_index_def im_list_def dest!: find_mem)

lemma found_index:
  assumes ok: "db_ok w db" and f: "find_index ty field (db_indexes db) = Some h"
  shows "\<exists>ix. jget (db_indexes db) (ixname h) = Some ix \<and> type_of_index ix = ty \<and> ixfield (head_of ix) = field"
proof -
  obtain n ix where ix: "(n, ix) \<in> set (db_indexes db)" "head_of ix = h" "type_of_index ix = ty" "ixfield h = field"
    by (rule find_index_Some [OF f])
  have "jget (db_indexes db) n = Some ix" using ix(1) idx_okD(2) [OF db_okD(2) [OF ok]] by (simp add: jget_mem)
  moreover from this have "ixname h = n" using idx_okD(4) [OF db_okD(2) [OF ok]] ix(2) by auto
  ultimately show ?thesis using ix by auto
qed

section \<open>Candidates contain the matches\<close>

text \<open>
  What the planner needs of a condition on an indexed field: on an equality index the values are
  compared as primitives (an object is compared by reference, a pattern is not looked up), and
  \<open>undefined\<close> is not in a sparse index.
\<close>

definition plain_value :: "jsv \<Rightarrow> bool" where
  "plain_value v \<longleftrightarrow> \<not> is_object v \<and> v \<noteq> JUndef"

definition eq_safe :: "jsv \<Rightarrow> bool" where
  "eq_safe cond \<longleftrightarrow>
     (if \<not> op_object cond then plain_value cond
      else (case only_eq cond of Some v \<Rightarrow> plain_value v
            | None \<Rightarrow> (case get_prop cond (lit ''$in'') of JArr i xs \<Rightarrow> list_all plain_value xs | _ \<Rightarrow> True)))"

lemma same_key: "plain_value v \<Longrightarrow> map_key x = map_key v \<Longrightarrow> x = v"
  by (cases v; cases x) (simp_all add: plain_value_def is_object_def)

lemma plain_flatten: "plain_value v \<Longrightarrow> flatten v = [v]"
  by (cases v) (simp_all add: plain_value_def is_object_def flatten_def)

lemma eq_candidates_ok:
  assumes ok: "db_ok w db" and ix: "jget (db_indexes db) name = Some (EqIndex e)" and safe: "eq_safe cond"
  shows "\<exists>s. eq_candidates (num_str w) name cond (db_indexes db) = Inr s \<and>
    (\<forall>ks. s = Some ks \<longrightarrow> distinct ks \<and> (\<forall>k doc. live_doc w now db k doc \<longrightarrow> is_object doc \<longrightarrow>
       matchCond L (getField doc (ixfield e)) cond = Inr True \<longrightarrow> k \<in> set ks))"
proof -
  let ?m = "db_indexes db"
  have hit: "\<exists>ps. findEq (num_str w) name v ?m = Inr ps \<and> (\<forall>k doc. live_doc w now db k doc \<longrightarrow> is_object doc \<longrightarrow>
      map_key (getField doc (ixfield e)) = map_key v \<longrightarrow> k \<in> set ps)" if v: "plain_value v" for v
  proof -
    obtain ps where ps: "findEq (num_str w) name v ?m = Inr ps"
      "\<And>k doc x. live_doc w now db k doc \<Longrightarrow> is_object doc \<Longrightarrow> x \<in> set (flatten (getField doc (ixfield e))) \<Longrightarrow>
         getField doc (ixfield e) \<noteq> JUndef \<Longrightarrow> scalarKey (num_str w) x = scalarKey (num_str w) v \<Longrightarrow> k \<in> set ps"
      using eq_hits [OF ok ix, of v now] by blast
    have "k \<in> set ps" if d: "live_doc w now db k doc" "is_object doc" "map_key (getField doc (ixfield e)) = map_key v" for k doc
    proof -
      have g: "getField doc (ixfield e) = v" by (rule same_key [OF v d(3)])
      show ?thesis by (rule ps(2) [OF d(1,2), of v]) (use v in \<open>simp_all add: g plain_flatten\<close>, simp add: plain_value_def)
    qed
    with ps(1) show ?thesis by blast
  qed
  have hits: "\<exists>ps. find_all_eq (num_str w) name vs ?m = Inr ps \<and> (\<forall>k doc. live_doc w now db k doc \<longrightarrow> is_object doc \<longrightarrow>
      map_key (getField doc (ixfield e)) \<in> map_key ` set vs \<longrightarrow> k \<in> set ps)" if "list_all plain_value vs" for vs
    using that
  proof (induction vs)
    case (Cons v vs)
    obtain ps where ps: "findEq (num_str w) name v ?m = Inr ps" "\<forall>k doc. live_doc w now db k doc \<longrightarrow> is_object doc \<longrightarrow>
      map_key (getField doc (ixfield e)) = map_key v \<longrightarrow> k \<in> set ps" using hit [of v] Cons.prems by auto
    obtain qs where qs: "find_all_eq (num_str w) name vs ?m = Inr qs" "\<forall>k doc. live_doc w now db k doc \<longrightarrow> is_object doc \<longrightarrow>
      map_key (getField doc (ixfield e)) \<in> map_key ` set vs \<longrightarrow> k \<in> set qs" using Cons by auto
    show ?case using ps qs by auto
  qed simp
  show ?thesis
  proof (cases "op_object cond")
    case False
    have v: "plain_value cond" using safe False by (simp add: eq_safe_def)
    have m: "matchCond L x cond = Inr (strict_eq x cond)" for x
      using v False by (cases cond) (simp_all add: matchCond_def plain_value_def is_object_def op_object_def)
    show ?thesis using hit [OF v] False by (auto simp: eq_candidates_def m strict_eq_def)
  next
    case True
    show ?thesis
    proof (cases "only_eq cond")
      case (Some v)
      then have v: "plain_value v" using safe True by (simp add: eq_safe_def)
      have "own_entries cond = [(lit ''$eq'', v)]" using Some by (auto simp: only_eq_def split: list.splits if_splits)
      then have m: "matchCond L x cond = Inr True \<longleftrightarrow> strict_eq x v" for x
        using True by (cases cond) (simp_all add: matchCond_def op_object_def cond_op_def)
      show ?thesis using hit [OF v] True Some by (auto simp: eq_candidates_def m strict_eq_def)
    next
      case None
      show ?thesis
      proof (cases "get_prop cond (lit ''$in'')")
        case (JArr i xs)
        then have v: "list_all plain_value xs" using safe True None by (simp add: eq_safe_def)
        have "map_key x \<in> map_key ` set xs" if "matchCond L x cond = Inr True" for x
          using cond_entry [OF True that, of "lit ''$in''", unfolded JArr] by (simp add: array_index_def is_digit_def cond_op_def arr_includes_def)
        then show ?thesis using hits [OF v] True None JArr by (auto simp: eq_candidates_def)
      qed (use True None in \<open>simp_all add: eq_candidates_def\<close>)
    qed
  qed
qed

text \<open>On a range index the field of every document is a number or missing.\<close>

definition numeric :: "jsv \<Rightarrow> bool" where
  "numeric v \<longleftrightarrow> (case v of JNum q \<Rightarrow> True | JUndef \<Rightarrow> True | _ \<Rightarrow> False)"

lemma bound_ops:
  "cond_op L x (lit ''$gte'') v = Inr (js_less (num_str L) (str_num L) x v = Some False)"
  "cond_op L x (lit ''$gt'') v = Inr (js_less (num_str L) (str_num L) v x = Some True)"
  "cond_op L x (lit ''$lte'') v = Inr (js_less (num_str L) (str_num L) v x = Some False)"
  "cond_op L x (lit ''$lt'') v = Inr (js_less (num_str L) (str_num L) x v = Some True)"
  by (simp_all add: cond_op_def Let_def)

lemmas js_less_defs = js_less_def to_prim_def to_number_def num_less_def is_object_def

lemma low_bound:
  assumes c: "op_object cond" "matchCond L x cond = Inr True" "numeric x"
    and p: "pick_bound (get_prop cond (lit ''$gte'')) (get_prop cond (lit ''$gt'')) = Some (v, ex)"
  shows "\<exists>q. x = JNum q \<and> \<not> snd (min_bound v) \<and> (case fst (min_bound v) of None \<Rightarrow> True | Some b \<Rightarrow> if ex then b < q else b \<le> q)"
proof -
  have e: "is_number v \<and> cond_op L x (if ex then lit ''$gt'' else lit ''$gte'') v = Inr True"
    using p cond_entry [OF c(1,2), of "lit ''$gte''"] cond_entry [OF c(1,2), of "lit ''$gt''"]
    by (auto simp: pick_bound_def is_number_def array_index_def is_digit_def split: if_splits jsv.splits)
  then have "is_number v \<and> (if ex then js_less (num_str L) (str_num L) v x = Some True else js_less (num_str L) (str_num L) x v = Some False)"
    by (cases ex) (simp_all only: if_True if_False bound_ops sum.inject)
  then show ?thesis using c(3)
    by (cases v; cases x; cases ex) (auto simp: js_less_defs numeric_def is_number_def min_bound_def)
qed

lemma high_bound:
  assumes c: "op_object cond" "matchCond L x cond = Inr True" "numeric x"
    and p: "pick_bound (get_prop cond (lit ''$lte'')) (get_prop cond (lit ''$lt'')) = Some (v, ex)"
  shows "\<exists>q. x = JNum q \<and> \<not> snd (max_bound v) \<and> (case fst (max_bound v) of None \<Rightarrow> True | Some b \<Rightarrow> if ex then q < b else q \<le> b)"
proof -
  have e: "is_number v \<and> cond_op L x (if ex then lit ''$lt'' else lit ''$lte'') v = Inr True"
    using p cond_entry [OF c(1,2), of "lit ''$lte''"] cond_entry [OF c(1,2), of "lit ''$lt''"]
    by (auto simp: pick_bound_def is_number_def array_index_def is_digit_def split: if_splits jsv.splits)
  then have "is_number v \<and> (if ex then js_less (num_str L) (str_num L) x v = Some True else js_less (num_str L) (str_num L) v x = Some False)"
    by (cases ex) (simp_all only: if_True if_False bound_ops sum.inject)
  then show ?thesis using c(3)
    by (cases v; cases x; cases ex) (auto simp: js_less_defs numeric_def is_number_def max_bound_def)
qed

lemma range_candidates_ok:
  assumes ok: "db_ok w db" and ix: "jget (db_indexes db) name = Some (RangeIndex r)" and c: "op_object cond"
  shows "\<exists>s. range_candidates name cond (db_indexes db) = Inr s \<and>
    (\<forall>ks. s = Some ks \<longrightarrow> distinct ks \<and> (\<forall>k doc. live_doc w now db k doc \<longrightarrow> is_object doc \<longrightarrow>
       numeric (getField doc (ixfield r)) \<longrightarrow> matchCond L (getField doc (ixfield r)) cond = Inr True \<longrightarrow> k \<in> set ks))"
proof -
  define lo where "lo = pick_bound (get_prop cond (lit ''$gte'')) (get_prop cond (lit ''$gt''))"
  define hi where "hi = pick_bound (get_prop cond (lit ''$lte'')) (get_prop cond (lit ''$lt''))"
  define mn where "mn = (case lo of None \<Rightarrow> (None, False) | Some (v, x) \<Rightarrow> min_bound v)"
  define mx where "mx = (case hi of None \<Rightarrow> (None, False) | Some (v, x) \<Rightarrow> max_bound v)"
  define lx where "lx = (case lo of Some (v, x) \<Rightarrow> x | None \<Rightarrow> False)"
  define hx where "hx = (case hi of Some (v, x) \<Rightarrow> x | None \<Rightarrow> False)"
  let ?f = "\<lparr> fmin = fst mn, fmax = fst mx, minExclusive = lx, maxExclusive = hx, foffset = 0, fcount = None, freverse = False \<rparr>"
  have R: "range_candidates name cond (db_indexes db) =
      (if lo = None \<and> hi = None then Inr None
       else if snd mn \<or> snd mx then Inr (Some [])
       else map_result (\<lambda>rows. Some (set_of (map fst rows))) (findRange name ?f (db_indexes db)))"
    unfolding range_candidates_def lo_def [symmetric] hi_def [symmetric] mn_def [symmetric] mx_def [symmetric]
      lx_def [symmetric] hx_def [symmetric] Let_def
    by (cases mn; cases mx) simp
  have low: "(lo \<noteq> None \<longrightarrow> (\<exists>q. x = JNum q)) \<and> \<not> snd mn \<and> (\<forall>q. x = JNum q \<longrightarrow> above (range_opts ?f) q)"
    and high: "(hi \<noteq> None \<longrightarrow> (\<exists>q. x = JNum q)) \<and> \<not> snd mx \<and> (\<forall>q. x = JNum q \<longrightarrow> below (range_opts ?f) q)"
    if x: "matchCond L x cond = Inr True" "numeric x" for x
  proof -
    show "(lo \<noteq> None \<longrightarrow> (\<exists>q. x = JNum q)) \<and> \<not> snd mn \<and> (\<forall>q. x = JNum q \<longrightarrow> above (range_opts ?f) q)"
      using low_bound [OF c x, folded lo_def] unfolding range_opts_between
      by (cases lo) (auto simp: mn_def lx_def split: option.splits)
    show "(hi \<noteq> None \<longrightarrow> (\<exists>q. x = JNum q)) \<and> \<not> snd mx \<and> (\<forall>q. x = JNum q \<longrightarrow> below (range_opts ?f) q)"
      using high_bound [OF c x, folded hi_def] unfolding range_opts_between
      by (cases hi) (auto simp: mx_def hx_def split: option.splits)
  qed
  show ?thesis
  proof (cases "(lo = None \<and> hi = None) \<or> snd mn \<or> snd mx")
    case True
    then show ?thesis using low high by (auto simp: R)
  next
    case False
    obtain rows where rows: "findRange name ?f (db_indexes db) = Inr rows"
      "\<And>k doc q. live_doc w now db k doc \<Longrightarrow> is_object doc \<Longrightarrow> getField doc (ixfield r) = JNum q \<Longrightarrow>
         above (range_opts ?f) q \<Longrightarrow> below (range_opts ?f) q \<Longrightarrow> k \<in> fst ` set rows"
      using range_hits [OF ok ix, of ?f now] by auto
    have "k \<in> fst ` set rows" if d: "live_doc w now db k doc" "is_object doc" "numeric (getField doc (ixfield r))"
      "matchCond L (getField doc (ixfield r)) cond = Inr True" for k doc
    proof -
      obtain q where q: "getField doc (ixfield r) = JNum q" using low [OF d(4,3)] high [OF d(4,3)] False by auto
      show ?thesis using rows(2) [OF d(1,2) q] low [OF d(4,3)] high [OF d(4,3)] q by blast
    qed
    then show ?thesis using False by (auto simp: R rows(1))
  qed
qed

text \<open>
  A filter the planner can use: its conditions on indexed fields are the ones the two kinds of index
  answer for, on plain paths. \<open>docs\<close> are the live documents.
\<close>

definition plannable :: "mini_db \<Rightarrow> (jsv \<Rightarrow> bool) \<Rightarrow> jsv \<Rightarrow> bool" where
  "plannable db docs f \<longleftrightarrow>
     (\<forall>(field, cond) \<in> set (indexPredicates f).
        (find_index Equality field (db_indexes db) \<noteq> None \<longrightarrow> plain_field field \<and> eq_safe cond) \<and>
        (find_index Range field (db_indexes db) \<noteq> None \<longrightarrow>
           plain_field field \<and> (\<forall>doc. docs doc \<longrightarrow> numeric (getField doc field))))"

definition live_docs :: "'a world_scheme \<Rightarrow> int \<Rightarrow> mini_db \<Rightarrow> jsv \<Rightarrow> bool" where
  "live_docs w now db doc \<longleftrightarrow> (\<exists>k. live_doc w now db k doc)"

definition covers :: "'a world_scheme \<Rightarrow> int \<Rightarrow> mini_db \<Rightarrow> (jsv \<Rightarrow> bool) \<Rightarrow> kstr list option \<Rightarrow> bool" where
  "covers w now db P s \<longleftrightarrow>
     (\<forall>ks. s = Some ks \<longrightarrow> distinct ks \<and> (\<forall>k doc. live_doc w now db k doc \<longrightarrow> P doc \<longrightarrow> k \<in> set ks))"

lemma predicate_candidates_ok:
  assumes ok: "db_ok w db" and obj: "\<And>doc. live_docs w now db doc \<Longrightarrow> is_object doc"
    and eq: "find_index Equality field (db_indexes db) \<noteq> None \<Longrightarrow> plain_field field \<and> eq_safe cond"
    and rg: "find_index Range field (db_indexes db) \<noteq> None \<Longrightarrow>
      plain_field field \<and> (\<forall>doc. live_docs w now db doc \<longrightarrow> numeric (getField doc field))"
  shows "\<exists>s. candidateKeysForPredicate w field cond db = Inr s \<and>
    covers w now db (\<lambda>doc. matchCond L (getPath doc field) cond = Inr True) s"
proof -
  let ?m = "db_indexes db" and ?P = "\<lambda>doc. matchCond L (getPath doc field) cond = Inr True"
  have E: "\<exists>s. (case find_index Equality field ?m of None \<Rightarrow> Inr None | Some h \<Rightarrow> eq_candidates (num_str w) (ixname h) cond ?m) = Inr s \<and>
      covers w now db ?P s"
  proof (cases "find_index Equality field ?m")
    case (Some h)
    obtain ix where ix: "jget ?m (ixname h) = Some ix" "type_of_index ix = Equality" "ixfield (head_of ix) = field"
      using found_index [OF ok Some] by blast
    then obtain e where e: "ix = EqIndex e" "ixfield e = field" by (cases ix) (auto simp: index_head.defs)
    have p: "getPath doc field = getField doc field" for doc using eq Some getPath_plain by simp
    obtain s where s: "eq_candidates (num_str w) (ixname h) cond ?m = Inr s"
      "\<forall>ks. s = Some ks \<longrightarrow> distinct ks \<and> (\<forall>k doc. live_doc w now db k doc \<longrightarrow> is_object doc \<longrightarrow>
         matchCond L (getField doc field) cond = Inr True \<longrightarrow> k \<in> set ks)"
      using eq_candidates_ok [OF ok ix(1) [unfolded e(1)], of cond now L] eq Some e(2) by auto
    have "covers w now db ?P s" unfolding covers_def p using s(2) obj unfolding live_docs_def by blast
    then show ?thesis by (simp add: Some s(1))
  qed (simp add: covers_def)
  have R: "\<exists>s. (case find_index Range field ?m of None \<Rightarrow> Inr None
      | Some h \<Rightarrow> if op_object cond then range_candidates (ixname h) cond ?m else Inr None) = Inr s \<and> covers w now db ?P s"
  proof (cases "find_index Range field ?m")
    case (Some h)
    show ?thesis
    proof (cases "op_object cond")
      case True
      obtain ix where ix: "jget ?m (ixname h) = Some ix" "type_of_index ix = Range" "ixfield (head_of ix) = field"
        using found_index [OF ok Some] by blast
      then obtain r where r: "ix = RangeIndex r" "ixfield r = field" by (cases ix) (auto simp: index_head.defs)
      have p: "getPath doc field = getField doc field" for doc using rg Some getPath_plain by simp
      obtain s where s: "range_candidates (ixname h) cond ?m = Inr s"
        "\<forall>ks. s = Some ks \<longrightarrow> distinct ks \<and> (\<forall>k doc. live_doc w now db k doc \<longrightarrow> is_object doc \<longrightarrow>
           numeric (getField doc field) \<longrightarrow> matchCond L (getField doc field) cond = Inr True \<longrightarrow> k \<in> set ks)"
        using range_candidates_ok [OF ok ix(1) [unfolded r(1)] True, of now L] r(2) by auto
      have "\<forall>doc. live_docs w now db doc \<longrightarrow> numeric (getField doc field)" using rg Some by simp
      then have "covers w now db ?P s" unfolding covers_def p using s(2) obj unfolding live_docs_def by blast
      then show ?thesis by (simp add: Some True s(1))
    qed (simp add: Some covers_def)
  qed (simp add: covers_def)
  obtain s where s: "(case find_index Equality field ?m of None \<Rightarrow> Inr None | Some h \<Rightarrow> eq_candidates (num_str w) (ixname h) cond ?m) = Inr s"
    "covers w now db ?P s" using E by blast
  show ?thesis
  proof (cases "db_codec db \<noteq> JsonCodec \<or> ?m = []")
    case True
    then show ?thesis by (simp add: candidateKeysForPredicate_def covers_def)
  next
    case False
    show ?thesis
    proof (cases s)
      case None
      show ?thesis unfolding candidateKeysForPredicate_def if_not_P [OF False] s(1) None sum.case option.case by (rule R)
    next
      case (Some ks)
      have "candidateKeysForPredicate w field cond db = Inr (Some ks)"
        unfolding candidateKeysForPredicate_def if_not_P [OF False] s(1) Some sum.case option.case ..
      then show ?thesis using s(2) Some by simp
    qed
  qed
qed

lemma covers_meet: "covers w now db P acc \<Longrightarrow> covers w now db P s \<Longrightarrow> covers w now db P (meet acc s)"
  by (auto simp: covers_def meet_def split: option.splits)

lemma covers_mono: "covers w now db Q s \<Longrightarrow> (\<And>doc. P doc \<Longrightarrow> Q doc) \<Longrightarrow> covers w now db P s"
  unfolding covers_def by blast

lemma indexed_loop_ok:
  assumes "\<And>field cond. (field, cond) \<in> set ps \<Longrightarrow> \<exists>s. candidateKeysForPredicate w field cond db = Inr s \<and> covers w now db P s"
    and "covers w now db P acc"
  shows "\<exists>s. indexed_loop w ps acc db = Inr s \<and> covers w now db P s"
  using assms
proof (induction ps arbitrary: acc)
  case (Cons p ps)
  obtain field cond where p: "p = (field, cond)" by (cases p)
  obtain s where s: "candidateKeysForPredicate w field cond db = Inr s" "covers w now db P s" using Cons.prems(1) p by auto
  show ?case using Cons.IH [OF _ covers_meet [OF Cons.prems(2) s(2)]] Cons.prems(1) by (simp add: p s(1))
qed simp

text \<open>The candidates of a filter contain every live record it accepts.\<close>

lemma candidates_ok:
  assumes ok: "db_ok w db" and obj: "\<And>doc. live_docs w now db doc \<Longrightarrow> is_object doc"
    and pl: "plannable db (live_docs w now db) f"
  shows "\<exists>s db'. indexedCandidateKeys w f db = (Inr s, db') \<and> (db' = db \<or> db' = db\<lparr> st_indexHits := st_indexHits db + 1 \<rparr>) \<and>
    covers w now db (\<lambda>doc. match_doc L doc f = Inr True) s"
proof -
  let ?P = "\<lambda>doc. match_doc L doc f = Inr True"
  have each: "\<exists>s. candidateKeysForPredicate w field cond db = Inr s \<and> covers w now db ?P s"
    if p: "(field, cond) \<in> set (indexPredicates f)" for field cond
  proof -
    obtain s where s: "candidateKeysForPredicate w field cond db = Inr s"
      "covers w now db (\<lambda>doc. matchCond L (getPath doc field) cond = Inr True) s"
      using predicate_candidates_ok [OF ok obj, of now field cond L] pl p unfolding plannable_def by fastforce
    have "covers w now db ?P s" by (rule covers_mono [OF s(2)]) (rule match_predicates [OF _ p])
    with s(1) show ?thesis by blast
  qed
  have "covers w now db ?P None" by (simp add: covers_def)
  from indexed_loop_ok [OF each this] obtain s where "indexed_loop w (indexPredicates f) None db = Inr s" "covers w now db ?P s"
    by blast
  then show ?thesis by (cases s) (auto simp: indexedCandidateKeys_def)
qed

section \<open>The loop over the candidates\<close>

text \<open>The row of a live key whose document matches.\<close>

definition row_at :: "'a world_scheme \<Rightarrow> int \<Rightarrow> jsv \<Rightarrow> mini_db \<Rightarrow> kstr \<Rightarrow> row option" where
  "row_at w now f db k =
     (case live now (db_store db) k of
        None \<Rightarrow> None
      | Some r \<Rightarrow>
          (case value_of w (db_reader db) r of
             Inl e \<Rightarrow> None
           | Inr v \<Rightarrow> if match_doc (lang.truncate w) v f = Inr True then Some \<lparr> r_key = k, r_value = v, r_dt = sdt r \<rparr> else None))"

text \<open>What reading does not change.\<close>

definition reads_same :: "int \<Rightarrow> mini_db \<Rightarrow> mini_db \<Rightarrow> bool" where
  "reads_same now db db' \<longleftrightarrow> live now (db_store db') = live now (db_store db) \<and> db_reader db' = db_reader db"

lemma reads_same_trans: "reads_same now a b \<Longrightarrow> reads_same now b c \<Longrightarrow> reads_same now a c"
  by (simp add: reads_same_def)

lemma reads_same_refl [simp]: "reads_same now a a"
  by (simp add: reads_same_def)

lemma row_at_same: "reads_same now db db' \<Longrightarrow> row_at w now f db' = row_at w now f db"
proof (rule ext)
  fix k assume "reads_same now db db'"
  then have e: "live now (db_store db') = live now (db_store db)" "db_reader db' = db_reader db" by (simp_all add: reads_same_def)
  show "row_at w now f db' k = row_at w now f db k" unfolding row_at_def e ..
qed

lemma live_doc_same: "reads_same now db db' \<Longrightarrow> live_doc w now db' = live_doc w now db"
  by (simp add: live_doc_def reads_same_def fun_eq_iff)

lemma db_get_same:
  assumes "db_get w now k db = (r, db')" "db_ok w db"
  shows "reads_same now db db'"
proof -
  obtain st' ns where s: "store_get (jb w) (db_reader db) now k (db_store db) = (r, st', ns)" "db' = notify (st', ns) db"
    using assms(1) by (auto simp: db_get_def split: prod.splits)
  have "reaps (jb w) now (db_store db) st' ns" using store_get_reaps [OF s(1)] by simp
  then show ?thesis using reaps_live by (simp add: reads_same_def s(2))
qed

lemma db_has_same:
  assumes H: "db_has w now k db = (b, db')" and ok: "db_ok w db"
  shows "reads_same now db db'" "db_ok w db'" "b = (live now (db_store db) k \<noteq> None)"
proof -
  obtain r st' ns where g: "getRecord (jb w) now k (db_store db) = (r, st', ns)" by (cases "getRecord (jb w) now k (db_store db)")
  have d: "db' = notify (st', ns) db" "b = (r \<noteq> None)" using H by (simp_all add: db_has_def store_has_def g)
  note R = getRecord_reaps [OF g]
  show "reads_same now db db'" using reaps_live [OF conjunct1 [OF R] order_refl] by (simp add: reads_same_def d(1))
  show "db_ok w db'" using notify_strict [OF ok conjunct1 [OF R]] by (simp add: d(1))
  show "b = (live now (db_store db) k \<noteq> None)" using R by (simp add: d(2))
qed

lemma fetch_ok:
  assumes ok: "db_ok w db" and m: "\<And>doc. live_docs w now db doc \<Longrightarrow> \<exists>b. match_doc (lang.truncate w) doc f = Inr b"
  shows "\<exists>db'. fetch w now f k db = (Inr (row_at w now f db k), db') \<and> db_ok w db' \<and> reads_same now db db'"
proof -
  obtain r db1 where g: "db_get w now k db = (r, db1)" by (cases "db_get w now k db")
  note G = db_get_strict [OF g ok] and S = db_get_same [OF g ok]
  obtain b where b: "r = Inr b" "b \<noteq> None \<longleftrightarrow> live now (db_store db) k \<noteq> None" using G(3) by auto
  have ok1: "db_ok w db1" using G(1) by simp
  show ?thesis
  proof (cases "live now (db_store db) k")
    case None
    then have "b = None" using b(2) by simp
    then show ?thesis using ok1 S by (simp add: fetch_def g b(1) row_at_def None)
  next
    case (Some x)
    then obtain y where y: "b = Some y" using b(2) by auto
    have d1: "jget (smap (db_store db1)) k = Some x" using G(1) Some by simp
    obtain v where v: "value_of w (db_reader db) x = Inr v"
      using db_ok_readable [OF ok1 d1] G(1) by (auto simp: readable_def)
    have dec: "dec w y = Inr v" using G(2) by (simp add: b(1) y Some v decode_def)
    obtain z where z: "match_doc (lang.truncate w) v f = Inr z"
      using m [of v] Some v by (auto simp: live_docs_def live_doc_def)
    show ?thesis using ok1 S by (simp add: fetch_def g b(1) y dec z row_at_def Some v dt_of_def d1)
  qed
qed

lemma query_loop_ok:
  assumes "db_ok w db" "\<And>doc. live_docs w now db doc \<Longrightarrow> \<exists>b. match_doc (lang.truncate w) doc f = Inr b"
  shows "\<exists>db'. query_loop w now raw sets f early 0 None ks seen n db =
      (Inr (List.map_filter (\<lambda>k. if list_all (\<lambda>s. k \<in> set s) sets then row_at w now f db k else None) ks), db') \<and>
    db_ok w db' \<and> reads_same now db db'"
  using assms
proof (induction ks arbitrary: seen n db)
  case Nil
  then show ?case by (simp add: map_filter_simps)
next
  case (Cons k ks)
  define x where "x = (if raw then db_has w now k db else (True, db))"
  obtain b db1 where x1: "x = (b, db1)" by (cases x)
  have H: "db_ok w db1" "reads_same now db db1" "\<not> b \<Longrightarrow> live now (db_store db) k = None"
    using Cons.prems(1) db_has_same [of w now k db b db1] x1 by (auto simp: x_def split: if_splits)
  let ?F = "\<lambda>k. if list_all (\<lambda>s. k \<in> set s) sets then row_at w now f db k else None"
  have step: "\<exists>db'. query_loop w now raw sets f early 0 None ks seen' n' db2 = (Inr (List.map_filter ?F ks), db') \<and> db_ok w db' \<and> reads_same now db db'"
    if "db_ok w db2" "reads_same now db db2" for seen' n' db2
  proof -
    have "\<exists>b. match_doc (lang.truncate w) doc f = Inr b" if "live_docs w now db2 doc" for doc
      using Cons.prems(2) [of doc] that by (simp add: live_docs_def live_doc_same [OF \<open>reads_same now db db2\<close>])
    note IH = Cons.IH [OF that(1) this, of seen' n', unfolded row_at_same [OF that(2)]]
    show ?thesis using IH reads_same_trans [OF that(2)] by blast
  qed
  show ?case
  proof (cases "b \<and> list_all (\<lambda>s. k \<in> set s) sets")
    case False
    have "?F k = None" using False H(3) by (auto simp: row_at_def)
    then show ?thesis using step [OF H(1,2)] False x1 by (cases b) (auto simp: x_def [symmetric] map_filter_simps)
  next
    case True
    have m1: "\<exists>b. match_doc (lang.truncate w) doc f = Inr b" if "live_docs w now db1 doc" for doc
      using Cons.prems(2) [of doc] that by (simp add: live_docs_def live_doc_same [OF H(2)])
    have "\<exists>db'. fetch w now f k db1 = (Inr (row_at w now f db1 k), db') \<and> db_ok w db' \<and> reads_same now db1 db'"
      by (rule fetch_ok [OF H(1) m1])
    then obtain db2 where F: "fetch w now f k db1 = (Inr (row_at w now f db k), db2)" "db_ok w db2" "reads_same now db1 db2"
      by (auto simp: row_at_same [OF H(2)])
    note S = step [OF F(2) reads_same_trans [OF H(2) F(3)]]
    show ?thesis
    proof (cases "row_at w now f db k")
      case None
      then show ?thesis using S True by (simp add: x_def [symmetric] x1 F(1) map_filter_simps)
    next
      case (Some r)
      then show ?thesis using S [of "seen + 1" "n + 1"] True by (auto simp: x_def [symmetric] x1 F(1) map_filter_simps)
    qed
  qed
qed

section \<open>A query answers what a scan does\<close>

lemma map_filter_set: "set (List.map_filter F ks) = {y. \<exists>k \<in> set ks. F k = Some y}"
  by (induction ks) (auto simp: map_filter_simps split: option.splits)

lemma map_filter_keys: "(\<And>k y. F k = Some y \<Longrightarrow> g y = k) \<Longrightarrow> map g (List.map_filter F ks) = filter (\<lambda>k. F k \<noteq> None) ks"
  by (induction ks) (auto simp: map_filter_simps split: option.splits)

lemma mset_insert_by: "mset (insert_by cmp x ys) = add_mset x (mset ys)"
  by (induction ys) auto

lemma mset_sort_by: "mset (sort_by cmp xs) = mset xs"
  by (induction xs) (simp_all add: sort_by_def mset_insert_by)

text \<open>A query with a filter and an order only.\<close>

definition filter_query :: "jsv \<Rightarrow> (jstr \<times> int) list option \<Rightarrow> query_options" where
  "filter_query f srt =
     \<lparr> q_key = None, q_dt = None, q_text = None, q_filter = f, q_sort = srt, q_skip = None, q_limit = None \<rparr>"

lemma all_keys:
  assumes "db_ok w db"
  shows "distinct (src_keys (raw_source no_range db))" "set (src_keys (raw_source no_range db)) = fst ` set (smap (db_store db))"
proof -
  have "oi_range no_range (order (db_store db)) = order (db_store db)"
    by (subst oi_range_exact) (simp_all add: no_range_def above_def below_def)
  then have "src_keys (raw_source no_range db) = map fst (order (db_store db))" by (simp add: raw_source_def)
  then show "distinct (src_keys (raw_source no_range db))" "set (src_keys (raw_source no_range db)) = fst ` set (smap (db_store db))"
    using order_keys [OF db_okD(1) [OF assms]] by (simp_all only:)
qed

lemma row_at_Some:
  "row_at w now f db k = Some y \<Longrightarrow> r_key y = k \<and> live_doc w now db k (r_value y) \<and>
     match_doc (lang.truncate w) (r_value y) f = Inr True"
  by (auto simp: row_at_def live_doc_def split: option.splits sum.splits if_splits)

lemma row_at_covered:
  assumes ok: "db_ok w db" and c: "covers w now db (\<lambda>doc. match_doc (lang.truncate w) doc f = Inr True) s"
    and src: "x = (case s of None \<Rightarrow> raw_source no_range db | Some ks \<Rightarrow> \<lparr> src_keys = ks, src_raw = False, src_sets = [] \<rparr>)"
    and row: "row_at w now f db k = Some y"
  shows "k \<in> set (src_keys x)"
proof (cases s)
  case None
  obtain r where "live now (db_store db) k = Some r" using row by (auto simp: row_at_def split: option.splits)
  from live_key [OF this] show ?thesis by (simp add: src None all_keys(2) [OF ok])
next
  case (Some ks)
  then show ?thesis using c row_at_Some [OF row] by (auto simp: src covers_def)
qed

text \<open>The rows of a query: those of the live keys that match, each once.\<close>

lemma filter_query_rows:
  assumes ok: "db_ok w db" and open_db: "\<not> db_closed db" and obj: "\<And>doc. live_docs w now db doc \<Longrightarrow> is_object doc"
    and m: "\<And>doc. live_docs w now db doc \<Longrightarrow> \<exists>b. match_doc (lang.truncate w) doc f = Inr b"
    and pl: "plannable db (live_docs w now db) f"
  shows "\<exists>rows db'. query w now (filter_query f srt) db = (Inr (map (\<lambda>r. (kstr_text (r_key r), r_value r, r_dt r)) rows), db') \<and>
    distinct (map r_key rows) \<and> set rows = {y. \<exists>k. row_at w now f db k = Some y}"
proof -
  let ?q = "filter_query f srt"
  obtain s db1 where C: "indexedCandidateKeys w f db = (Inr s, db1)" "db1 = db \<or> db1 = db\<lparr> st_indexHits := st_indexHits db + 1 \<rparr>"
    "covers w now db (\<lambda>doc. match_doc (lang.truncate w) doc f = Inr True) s"
    using candidates_ok [OF ok obj pl] by blast
  have ok1: "db_ok w db1" using C(2) ok db_ok_cong [of "db\<lparr> st_indexHits := st_indexHits db + 1 \<rparr>" db w] by (auto simp: idx_part_def)
  have S1: "reads_same now db db1" and st1: "db_store db1 = db_store db" using C(2) by (auto simp: reads_same_def)
  define x where "x = (case s of None \<Rightarrow> raw_source no_range db | Some ks \<Rightarrow> \<lparr> src_keys = ks, src_raw = False, src_sets = [] \<rparr>)"
  have x': "(case (case s of None \<Rightarrow> None | Some ks \<Rightarrow> narrow None ks) of None \<Rightarrow> raw_source no_range db1 | Some y \<Rightarrow> y) = x"
    by (cases s) (simp_all add: x_def narrow_def raw_source_def st1)
  have sets: "src_sets x = []" by (cases s) (simp_all add: x_def raw_source_def)
  have dist: "distinct (src_keys x)" using C(3) all_keys(1) [OF ok] by (cases s) (simp_all add: x_def covers_def)
  have m1: "\<exists>b. match_doc (lang.truncate w) doc f = Inr b" if "live_docs w now db1 doc" for doc
    using m [of doc] that by (simp add: live_docs_def live_doc_same [OF S1])
  let ?rows = "List.map_filter (row_at w now f db) (src_keys x)"
  have "\<exists>db'. query_loop w now (src_raw x) (src_sets x) f (srt = None) 0 None (src_keys x) 0 0 db1 =
      (Inr (List.map_filter (\<lambda>k. if list_all (\<lambda>s. k \<in> set s) (src_sets x) then row_at w now f db1 k else None) (src_keys x)), db') \<and>
    db_ok w db' \<and> reads_same now db1 db'"
    by (rule query_loop_ok [OF ok1 m1])
  then obtain db2 where L: "query_loop w now (src_raw x) (src_sets x) f (srt = None) 0 None (src_keys x) 0 0 db1 = (Inr ?rows, db2)"
    by (auto simp: sets row_at_same [OF S1])
  let ?out = "order_rows (lang.truncate w) None srt ?rows"
  have G: "general_query w now ?q db = (Inr ?out, db2)"
    using L by (simp add: general_query_def filter_query_def text_hits_def key_source_def dt_source_def C(1) x' Let_def slice_rows_def)
  have out: "mset ?out = mset ?rows" by (cases srt) (simp_all add: order_rows_def mset_sort_by Let_def)
  have "map r_key ?rows = filter (\<lambda>k. row_at w now f db k \<noteq> None) (src_keys x)"
    by (rule map_filter_keys) (use row_at_Some in blast)
  then have "distinct (map r_key ?rows)" using dist by simp
  then have "distinct (map r_key ?out)" using out by (metis mset_eq_imp_distinct_iff mset_map)
  moreover have "set ?out = {y. \<exists>k. row_at w now f db k = Some y}"
  proof -
    have "set ?out = set ?rows" using out by (metis set_mset_mset)
    also have "\<dots> = {y. \<exists>k. row_at w now f db k = Some y}"
      unfolding map_filter_set using row_at_covered [OF ok C(3) x_def] by blast
    finally show ?thesis .
  qed
  moreover have "query w now ?q db = (Inr (map (\<lambda>r. (kstr_text (r_key r), r_value r, r_dt r)) ?out), db2)"
    using open_db G by (simp add: query_def ensureOpen_def tryDtOrderedLimit_def dt_plan_def filter_query_def)
  ultimately show ?thesis by blast
qed

text \<open>C5: The planner never changes an answer. On a database whose indexes follow its records, a query
  with a filter and any order, whichever indexes the planner picks for it, returns exactly the live
  keys whose document the filter accepts, each once, with document and dt - what a scan of all
  records gives - provided documents are objects, no pattern of the filter is refused, and the
  conditions on indexed fields are ones the indexes can answer (\<open>plannable\<close>): plain paths, primitive
  values other than \<open>undefined\<close> against an equality index, numbers in the fields of a range index.\<close>

theorem query_is_scan:
  assumes "db_ok w db" "\<not> db_closed db" "plannable db (live_docs w now db) f"
    and "\<forall>k doc. live_doc w now db k doc \<longrightarrow> is_object doc \<and> (\<exists>b. match_doc (lang.truncate w) doc f = Inr b)"
  shows "\<exists>rows db'. query w now (filter_query f srt) db = (Inr (map (\<lambda>(k, v, d). (kstr_text k, v, d)) rows), db') \<and>
    distinct (map fst rows) \<and>
    set rows = {(k, v, d). \<exists>r. live now (db_store db) k = Some r \<and> value_of w (db_reader db) r = Inr v \<and> d = sdt r \<and>
      match_doc (lang.truncate w) v f = Inr True}"
proof -
  have obj: "is_object doc" and m: "\<exists>b. match_doc (lang.truncate w) doc f = Inr b" if "live_docs w now db doc" for doc
    using assms(4) that by (auto simp: live_docs_def)
  obtain rows db' where Q: "query w now (filter_query f srt) db = (Inr (map (\<lambda>r. (kstr_text (r_key r), r_value r, r_dt r)) rows), db')"
    "distinct (map r_key rows)" "set rows = {y. \<exists>k. row_at w now f db k = Some y}"
    using filter_query_rows [OF assms(1,2) obj m assms(3)] by blast
  let ?rows = "map (\<lambda>r. (r_key r, r_value r, r_dt r)) rows"
  let ?S = "{(k, v, d). \<exists>r. live now (db_store db) k = Some r \<and> value_of w (db_reader db) r = Inr v \<and> d = sdt r \<and>
      match_doc (lang.truncate w) v f = Inr True}"
  have "x \<in> set ?rows \<longleftrightarrow> x \<in> ?S" for x
  proof -
    obtain k v d where x: "x = (k, v, d)" by (cases x)
    have "x \<in> set ?rows \<longleftrightarrow> (\<exists>y. (\<exists>k'. row_at w now f db k' = Some y) \<and> (r_key y, r_value y, r_dt y) = x)"
      by (auto simp: Q(3) image_iff)
    also have "\<dots> \<longleftrightarrow> row_at w now f db k = Some \<lparr> r_key = k, r_value = v, r_dt = d \<rparr>"
    proof
      assume "\<exists>y. (\<exists>k'. row_at w now f db k' = Some y) \<and> (r_key y, r_value y, r_dt y) = x"
      then obtain y k' where y: "row_at w now f db k' = Some y" "(r_key y, r_value y, r_dt y) = x" by blast
      have "k' = k" using row_at_Some [OF y(1)] y(2) by (simp add: x)
      moreover have "y = \<lparr> r_key = k, r_value = v, r_dt = d \<rparr>" using y(2) by (cases y) (simp add: x)
      ultimately show "row_at w now f db k = Some \<lparr> r_key = k, r_value = v, r_dt = d \<rparr>" using y(1) by simp
    qed (force simp: x)
    also have "\<dots> \<longleftrightarrow> x \<in> ?S"
      by (auto simp: x row_at_def split: option.splits sum.splits if_splits)
    finally show ?thesis .
  qed
  then have "set ?rows = ?S" by blast
  moreover have "map fst ?rows = map r_key rows" by simp
  ultimately show ?thesis using Q(1,2) by (intro exI [of _ ?rows] exI [of _ db']) (simp add: o_def)
qed

definition sample_one :: mini_db where
  "sample_one = touchAccess [97] (apply_set sample_world sample_set JUndef sample_db)"

lemma sample_one_ok: "db_ok sample_world sample_one"
proof -
  have "db_ok sample_world sample_db" using fresh_ok [OF sample_fresh, of False sample_world] by (simp add: mem_ok_def db_inv_strict)
  moreover have "old_doc sample_world sample_db (p_pk sample_set) JUndef"
    by (simp add: old_doc_def sample_db_def new_store_def)
  moreover have "p_type sample_set = TYPE_SET" by (simp add: sample_set_def)
  ultimately show ?thesis
    using apply_set_ok(1) [of False, unfolded db_inv_strict] sample_stable
    unfolding sample_one_def stable_def touchAccess_ok [of False, unfolded db_inv_strict] by blast
qed

lemma sample_one_live: "live 5 (db_store sample_one) k =
    (if k = [97] then Some \<lparr> sref = Memory [1], sexpire = 0, sseq = 1, sdt = None \<rparr> else None)"
  by (simp add: sample_one_def sample_set_def sample_db_def store_set_def smap_setRef live_def new_store_def
      Store.is_live_def toKStr_def)

lemma query_is_scan_witness:
  "\<exists>rows db'. query sample_world 5 (filter_query (JObj 1 [(lit ''a'', JNum 1)]) None) sample_one =
     (Inr (map (\<lambda>(k, v, d). (kstr_text k, v, d)) rows), db') \<and> set rows = {([97], sample_doc, None)}"
proof -
  let ?f = "JObj 1 [(lit ''a'', JNum 1)]"
  have v: "value_of sample_world rd r = (case materialize rd (sref r) of Inl e \<Rightarrow> Inl e | Inr b \<Rightarrow> Inr sample_doc)" for rd r
  proof -
    have "dec sample_world b = Inr sample_doc" for b by (simp add: sample_world_def)
    then show ?thesis by (simp add: value_of_def split: sum.splits)
  qed
  have doc: "live_doc sample_world 5 sample_one k doc \<longleftrightarrow> k = [97] \<and> doc = sample_doc" for k doc
    by (auto simp: live_doc_def sample_one_live v materialize_def)
  have p: "plain_field (lit ''a'')" by (simp add: plain_field_def)
  have g: "getPath sample_doc (lit ''a'') = JNum 1"
    unfolding getPath_plain [OF p] by (simp add: getField_def sample_doc_def nullish_def get_prop_def)
  have m: "match_doc (lang.truncate sample_world) sample_doc ?f = Inr True"
    using g by (simp add: matchCond_def)
  have idx: "im_list (db_indexes sample_one) =
      [(\<lparr> ixname = lit ''ix'', ixfield = lit ''a'', ixunique = False, ixsparse = True \<rparr>, Equality)]"
    by (simp add: sample_one_def apply_set_def text_each_def sample_db_def sample_set_def sample_doc_def is_object_def
        im_list_def im_add_def eq_add_def new_eq_def index_head.defs eq_index.defs Let_def)
  have pl: "plannable sample_one (live_docs sample_world 5 sample_one) ?f"
    using p by (simp add: plannable_def indexPredicates_def is_object_def own_entries_def find_index_def idx dollar_def
        eq_safe_def op_object_def plain_value_def)
  have "is_object sample_doc" by (simp add: sample_doc_def is_object_def)
  then have d: "\<forall>k doc. live_doc sample_world 5 sample_one k doc \<longrightarrow>
      is_object doc \<and> (\<exists>b. match_doc (lang.truncate sample_world) doc ?f = Inr b)"
    using m by (auto simp only: doc)
  have op: "\<not> db_closed sample_one" by (simp add: sample_one_def touchAccess_def apply_set_def text_each_def sample_db_def Let_def)
  have S: "{(k, v, d). \<exists>r. live 5 (db_store sample_one) k = Some r \<and> value_of sample_world (db_reader sample_one) r = Inr v \<and> d = sdt r \<and>
      match_doc (lang.truncate sample_world) v ?f = Inr True} = {([97], sample_doc, None)}"
    using m by (auto simp: sample_one_live v materialize_def split: if_splits)
  show ?thesis
    using query_is_scan [OF sample_one_ok op pl d, of None, unfolded S] by (elim exE conjE) (rule exI, rule exI, rule conjI)
qed

end
