(* ===== verification/DbExpire.thy ===== *)
theory DbExpire
  imports DbReach
begin

text \<open>
  \<open>expire\<close>: the value is read and written again with a new time, in one synchronous segment when no
  rotation is running; the rows of the indexes stay, and a refused append is rolled back.
\<close>

text \<open>Rolling back touches neither the log nor the mode.\<close>

lemma db_get_fields:
  "db_get w now k db = (r, db') \<Longrightarrow> db_mode db' = db_mode db \<and> db_rotating db' = db_rotating db \<and> db_wal db' = db_wal db"
  by (auto simp: db_get_def split: prod.splits)

lemma restoreKey_fields:
  "restoreKey w now k prev sq db = (e, db') \<Longrightarrow> db_mode db' = db_mode db \<and> db_rotating db' = db_rotating db \<and> db_wal db' = db_wal db"
  by (auto simp: restoreKey_def Let_def dest!: db_get_fields split: if_splits option.splits prod.splits sum.splits)

lemma restore_all_fields:
  "restore_all w now seqs ps db = (e, db') \<Longrightarrow> db_mode db' = db_mode db \<and> db_rotating db' = db_rotating db \<and> db_wal db' = db_wal db"
proof (induction ps arbitrary: db)
  case (Cons p ps)
  obtain k prev where p: "p = (k, prev)" by (cases p)
  obtain e1 db1 where R: "restoreKey w now k prev (seq_at seqs k) db = (e1, db1)" by (cases "restoreKey w now k prev (seq_at seqs k) db")
  show ?case using Cons restoreKey_fields [OF R] by (cases e1) (auto simp: p R [unfolded seq_at_def])
qed simp

lemma finish_fields:
  "finish_commit w now p outcome db = (e, db') \<Longrightarrow> db_mode db = InMemory \<Longrightarrow> db_rotating db' = db_rotating db \<and> db_wal db' = db_wal db"
  by (auto simp: finish_commit_def dest!: restore_all_fields split: option.splits prod.splits)

text \<open>An append the log accepts.\<close>

definition log_open :: "mini_db \<Rightarrow> bool" where
  "log_open db \<longleftrightarrow> \<not> is_sealed (db_wal db) \<and> \<not> is_closed (db_wal db)"

lemma append_wal_open:
  assumes "log_open db"
  shows "\<exists>i. pd_promise (fst (append_wal f db)) = Inr i" "future (db_wal (snd (append_wal f db))) = future (db_wal db) @ f"
    "db_rotating (snd (append_wal f db)) = db_rotating db"
  using assms by (simp_all add: log_open_def append_wal_def appendLoc_def future_def in_flight_def)

text \<open>One attempt, with nothing else running while its append is awaited.\<close>

lemma expire_attempt:
  assumes ok: "db_inv True w db" "db_mode db = InMemory" and r: "live now (db_store db) k = Some r"
    and v: "materialize (db_reader db) (sref r) = Inr v" and lg: "log_open db" and t: "gap t = (\<lambda>x. x)"
    and W: "write_once w (\<lambda>t. expire_commit w kb k v ex (sdt r) f) t db = (e, db')"
  shows "e = answer t" "db_inv True w db'" "future (db_wal db') = future (db_wal db) @ f" "db_rotating db' = db_rotating db"
    "k' \<noteq> k \<Longrightarrow> jget (smap (db_store db')) k' = jget (smap (db_store db)) k'"
    "answer t = None \<Longrightarrow> row_of db' = row_of db \<and>
       jget (smap (db_store db')) k = Some \<lparr> sref = Memory v, sexpire = ex, sseq = seqno (db_store db) + 1, sdt = sdt r \<rparr>"
    "answer t \<noteq> None \<Longrightarrow> same_core (jget (smap (db_store db')) k) (still (ended t) (Some r))"
proof -
  obtain res db1 where C: "expire_commit w kb k v ex (sdt r) f db = (res, db1)" by (cases "expire_commit w kb k v ex (sdt r) f db")
  note E = expire_reads(1) [OF ok(1) r] and K = expire_commit_ok [OF C ok(1) expire_reads(1) [OF ok(1) r] v refl]
  obtain p where p: "res = Inr p" "pd_promise p = pd_promise (fst (append_wal f db))" "db_wal db1 = db_wal (snd (append_wal f db))"
    "pd_prevs p = [(k, Some r)]" "pd_seqs p = [(k, seq_of k db1)]" using K(2) by blast
  have rot: "db_rotating db1 = db_rotating db"
    using C append_wal_open(3) [OF lg, of f] by (cases "append_wal f db") (auto simp: expire_commit_def Let_def)
  have F: "finish_commit w (ended t) p (answer t) db1 = (e, db')"
    using W append_wal_open(1) [OF lg, of f] by (auto simp: write_once_def C p(1,2) t)
  have m: "db_mode db1 = InMemory" using K(1) ok(2) by simp
  note FF = finish_fields [OF F m]
  show "future (db_wal db') = future (db_wal db) @ f" using FF append_wal_open(2) [OF lg] by (simp add: p(3))
  show "db_rotating db' = db_rotating db" using FF rot by simp
  have pend: "pend_ok True w now db p db1"
    using K(1) r by (auto simp: pend_ok_def p(4,5) jmap_ok_def store_set_def smap_setRef)
  have cases: "e = answer t \<and> db_inv True w db' \<and> (k' \<noteq> k \<longrightarrow> jget (smap (db_store db')) k' = jget (smap (db_store db)) k') \<and>
      (answer t = None \<longrightarrow> row_of db' = row_of db \<and>
         jget (smap (db_store db')) k = Some \<lparr> sref = Memory v, sexpire = ex, sseq = seqno (db_store db) + 1, sdt = sdt r \<rparr>) \<and>
      (answer t \<noteq> None \<longrightarrow> same_core (jget (smap (db_store db')) k) (still (ended t) (Some r)))" for k'
  proof (cases "answer t")
    case None
    then have "db' = db1" "e = None" using F m by (simp_all add: finish_commit_def)
    then show ?thesis using K(1) None by (simp add: store_set_def smap_setRef)
  next
    case (Some x)
    have "e = Some x \<and> db_inv True w db' \<and>
      (\<forall>k'. if k' \<in> fst ` set (pd_prevs p) \<and> seq_of k' db1 = seq_of k' db1
         then same_core (jget (smap (db_store db')) k') (still (ended t) (live now (db_store db) k'))
         else jget (smap (db_store db')) k' = jget (smap (db_store db1)) k')"
      by (rule refused_commit_undone [OF pend ok(1) _ _ F [unfolded Some]]) (use K(1) in simp_all)
    then have U: "e = Some x" "db_inv True w db'" "same_core (jget (smap (db_store db')) k) (still (ended t) (Some r))"
      "\<And>k'. k' \<noteq> k \<Longrightarrow> jget (smap (db_store db')) k' = jget (smap (db_store db1)) k'"
      using r by (auto simp: p(4) split: if_splits)
    then show ?thesis using Some K(1) by (simp add: store_set_def smap_setRef)
  qed
  show "e = answer t" "db_inv True w db'" "k' \<noteq> k \<Longrightarrow> jget (smap (db_store db')) k' = jget (smap (db_store db)) k'"
    "answer t = None \<Longrightarrow> row_of db' = row_of db \<and>
       jget (smap (db_store db')) k = Some \<lparr> sref = Memory v, sexpire = ex, sseq = seqno (db_store db) + 1, sdt = sdt r \<rparr>"
    "answer t \<noteq> None \<Longrightarrow> same_core (jget (smap (db_store db')) k) (still (ended t) (Some r))"
    using cases by blast+
qed

text \<open>The whole call, when no rotation is running: \<open>guard_write\<close>, the reads, one attempt.\<close>

lemma db_expire_live:
  assumes ok: "db_inv late w db" and g: "guard_write db = Inr ()" "\<not> db_rotating db" and r: "live now (db_store db) (pk_of key) = Some r"
    and v: "materialize (db_reader db) (sref r) = Inr v"
  shows "db_expire w now key (Finite q) gate io db =
    (case encodeFrame TYPE_SET (toBuf key) (Some v) (map_option (dt_json w) (sdt r)) (now + floor q) of
       Inl e \<Rightarrow> (Inl e, db)
     | Inr f \<Rightarrow>
         (case retryOnWalSeal w (\<lambda>t. expire_commit w (toBuf key) (pk_of key) v (now + floor q) (sdt r) f) io db of
            (Some e, db3) \<Rightarrow> (Inl e, db3) | (None, db3) \<Rightarrow> (Inr True, db3)))"
proof -
  note E = expire_reads [OF ok r]
  have "db_get w now (pk_of key) db = (Inr (Some v), db)" using E(4) v by auto
  then show ?thesis using g by (simp add: db_expire_def pass_gate_def Let_def E(2,3))
qed

lemma db_expire_missing:
  assumes ok: "db_inv late w db" and g: "guard_write db = Inr ()" "\<not> db_rotating db" and r: "live now (db_store db) (pk_of key) = None"
    and E: "db_expire w now key ttl gate io db = (res, db')"
  shows "res = Inr False \<and> db_inv late w db' \<and> db_wal db' = db_wal db \<and> jget (smap (db_store db')) (pk_of key) = None \<and>
    (\<forall>k'. k' \<noteq> pk_of key \<longrightarrow> jget (smap (db_store db')) k' = jget (smap (db_store db)) k')"
proof -
  let ?k = "pk_of key"
  obtain st' ns where s: "store_get (jb w) (db_reader db) now ?k (db_store db) = (Inr None, st', ns)"
    and rec: "getRecord (jb w) now ?k (db_store db) = (None, st', ns)"
    using r getRecord_reaps [of "jb w" now ?k "db_store db"]
    by (cases "getRecord (jb w) now ?k (db_store db)"; cases "fst (getRecord (jb w) now ?k (db_store db))")
       (auto simp: store_get_def)
  have g': "db_get w now ?k db = (Inr None, notify (st', ns) db)" by (simp add: db_get_def s)
  have "res = Inr False" "db' = notify (st', ns) db"
    using E g by (simp_all add: db_expire_def pass_gate_def Let_def rec)
  then show ?thesis using db_get_ok(1) [OF g' ok] r by simp
qed

text \<open>C37: \<open>expire\<close> gives a key a new expiry and nothing else. Take any database in memory mode that the
  steps of C1 can reach, open, writable and not rotating, with its log neither sealed nor closed; let
  no other task run while the append is awaited, and let the append not be answered that the log was
  sealed meanwhile. Every other key keeps its record, and the indexes keep the invariant of C1 (with
  \<open>late\<close>). If the key has no live record the call answers false, the record is gone and the log is
  untouched. Otherwise, when the frame of the record's value, dt and new time cannot be encoded, the
  error is reported and nothing changes; when it can, exactly that frame is appended to the log, and
  if it is written the call answers true and the record holds the same value and dt with the new
  expiry, every index row of every key as before; if it is refused the error is reported and the
  record is back with its old expiry, or gone if that has passed.\<close>

theorem expire_exact:
  assumes "fresh_db db0" "(db_step True w)\<^sup>*\<^sup>* db0 db" "guard_write db = Inr ()" "\<not> db_rotating db" "log_open db"
    and "gap (try1 io) = (\<lambda>x. x)" "answer (try1 io) \<noteq> Some WalSealed"
    and "db_expire w now key (Finite q) gate io db = (res, db')"
  shows "db_inv True w db' \<and>
    (\<forall>k'. k' \<noteq> pk_of key \<longrightarrow> jget (smap (db_store db')) k' = jget (smap (db_store db)) k') \<and>
    (case live now (db_store db) (pk_of key) of
       None \<Rightarrow> res = Inr False \<and> jget (smap (db_store db')) (pk_of key) = None \<and> db_wal db' = db_wal db
     | Some r \<Rightarrow> \<exists>v. materialize (db_reader db) (sref r) = Inr v \<and>
         (case encodeFrame TYPE_SET (toBuf key) (Some v) (map_option (dt_json w) (sdt r)) (now + floor q) of
            Inl e \<Rightarrow> res = Inl e \<and> db' = db
          | Inr f \<Rightarrow> future (db_wal db') = future (db_wal db) @ f \<and>
              (case answer (try1 io) of
                 None \<Rightarrow> res = Inr True \<and> row_of db' = row_of db \<and> jget (smap (db_store db')) (pk_of key) =
                   Some \<lparr> sref = Memory v, sexpire = now + floor q, sseq = seqno (db_store db) + 1, sdt = sdt r \<rparr>
               | Some e \<Rightarrow> res = Inl e \<and>
                   map_option (\<lambda>x. (sref x, sexpire x, sdt x)) (jget (smap (db_store db')) (pk_of key)) =
                     (if Store.is_live (ended (try1 io)) r then Some (sref r, sexpire r, sdt r) else None))))"
proof -
  have "mem_ok True w db" using db_run_keeps [OF assms(2) fresh_ok [OF assms(1)]] by (simp add: step_keeps_def)
  then have ok: "db_inv True w db" "db_mode db = InMemory" by (simp_all add: mem_ok_def)
  show ?thesis
  proof (cases "live now (db_store db) (pk_of key)")
    case None
    then show ?thesis using db_expire_missing [OF ok(1) assms(3,4) None assms(8)] by simp
  next
    case (Some r)
    obtain v where v: "materialize (db_reader db) (sref r) = Inr v" using expire_reads(4) [OF ok(1) Some] by blast
    let ?enc = "encodeFrame TYPE_SET (toBuf key) (Some v) (map_option (dt_json w) (sdt r)) (now + floor q)"
    note E = db_expire_live [OF ok(1) assms(3,4) Some v, of q gate io]
    show ?thesis
    proof (cases ?enc)
      case (Inl e)
      then show ?thesis using E assms(8) ok(1) by (simp add: Some v)
    next
      case (Inr f)
      let ?c = "\<lambda>t. expire_commit w (toBuf key) (pk_of key) v (now + floor q) (sdt r) f"
      obtain e db1 where W: "write_once w ?c (try1 io) db = (e, db1)" by (cases "write_once w ?c (try1 io) db")
      note A = expire_attempt [OF ok Some v assms(5,6) W]
      have "e \<noteq> Some WalSealed" "\<not> db_rotating db1" using A(1,4) assms(4,7) by simp_all
      then have "retryOnWalSeal w ?c io db = (e, db1)"
        by (cases e) (auto simp: retryOnWalSeal_def W retriable_def)
      then have R: "res = (case e of None \<Rightarrow> Inr True | Some x \<Rightarrow> Inl x)" "db' = db1"
        using E assms(8) by (auto simp: Inr split: option.splits)
      show ?thesis
      proof (cases "answer (try1 io)")
        case None
        then show ?thesis using A(1-3,5,6) by (simp add: Some v Inr R)
      next
        case (Some x)
        then have "map_option (\<lambda>x. (sref x, sexpire x, sdt x)) (jget (smap (db_store db1)) (pk_of key)) =
            (if Store.is_live (ended (try1 io)) r then Some (sref r, sexpire r, sdt r) else None)"
          using A(7) by (simp add: same_core_def rec_core_def [abs_def] still_def)
        then show ?thesis using A(1-3,5) Some by (simp add: \<open>live now (db_store db) (pk_of key) = Some r\<close> v Inr R)
      qed
    qed
  qed
qed

text \<open>The sample database after a \<open>set\<close> of its key: \<open>expire\<close> gives it the time 15.\<close>

lemma sample_applied:
  assumes "jget (smap (db_store db)) [97] = None"
  shows "applyOp sample_world 5 sample_set db = (Inr None, touchAccess [97] (apply_set sample_world sample_set JUndef db))"
  using assms by (simp add: applyOp_def db_get_def store_get_def getRecord_def notify_fold decode_def sample_set_def Let_def)

lemma sample_after_set:
  "\<exists>p db. set_commit sample_world 5 sample_set sample_db = (Inr p, db) \<and> guard_write db = Inr () \<and> \<not> db_rotating db \<and> log_open db \<and>
     jget (smap (db_store db)) [97] = Some \<lparr> sref = Memory [1], sexpire = 0, sseq = 1, sdt = None \<rparr>"
proof -
  have u: "checkUnique (num_str sample_world) [97] sample_doc (db_indexes sample_db) = Inr ()"
    by (simp add: checkUnique_def sample_db_def new_eq_def index_head.defs eq_index.defs)
  have "frame_fits TYPE_SET [97] (Some [1]) None 0"
    by (simp add: frame_fits_def or_empty_def size_defs type_defs int64_ok_def)
  then obtain f where f: "encodeFrame TYPE_SET [97] (Some [1]) None 0 = Inr f" using encodeFrame_fits by blast
  obtain p0 db0 where a: "append_wal f sample_db = (p0, db0)" by (cases "append_wal f sample_db")
  define l where "l = snd (appendLoc f sample_wal)"
  have l: "\<not> is_sealed l" "\<not> is_closed l" by (simp_all add: l_def appendLoc_def sample_wal_def)
  have "db_wal sample_db = sample_wal" by (simp add: sample_db_def)
  then have db0: "db0 = sample_db\<lparr> db_wal := l \<rparr>"
    using a by (simp add: append_wal_def l_def split: prod.splits)
  have "jget (smap (db_store db0)) [97] = None" by (simp add: db0 sample_db_def new_store_def)
  define db where "db = touchAccess [97] (apply_set sample_world sample_set JUndef db0)"
  have A: "applyOp sample_world 5 sample_set db0 = (Inr None, db)" unfolding db_def by (rule sample_applied) fact
  have "\<exists>p. set_commit sample_world 5 sample_set sample_db = (Inr p, db)"
    using u f a A by (simp add: set_commit_def sample_set_fields)
  moreover have "db_closed db = db_closed db0" "db_readOnly db = db_readOnly db0" "db_rotating db = db_rotating db0" "db_wal db = db_wal db0"
    by (simp_all add: db_def touchAccess_def apply_set_def text_each_def Let_def)
  then have "guard_write db = Inr ()" "\<not> db_rotating db" "log_open db"
    by (simp_all add: guard_write_def ensureOpen_def ensureWritable_def log_open_def db0 l sample_db_def)
  moreover have "jget (smap (db_store db)) [97] = Some \<lparr> sref = Memory [1], sexpire = 0, sseq = 1, sdt = None \<rparr>"
    by (simp add: db_def sample_set_fields toKStr_def store_set_def smap_setRef db0 sample_db_def new_store_def)
  ultimately show ?thesis by blast
qed

theorem expire_exact_witness:
  "\<exists>db f db'. db_expire sample_world 5 (KText [97]) (Finite 10) (\<lambda>x. x) quiet db = (Inr True, db') \<and>
     encodeFrame TYPE_SET [97] (Some [1]) None 15 = Inr f \<and> future (db_wal db') = future (db_wal db) @ f \<and>
     row_of db' = row_of db \<and> (\<exists>n. jget (smap (db_store db')) [97] = Some \<lparr> sref = Memory [1], sexpire = 15, sseq = n, sdt = None \<rparr>)"
proof -
  obtain p db where C: "set_commit sample_world 5 sample_set sample_db = (Inr p, db)"
    and g: "guard_write db = Inr ()" "\<not> db_rotating db" "log_open db"
    and r: "jget (smap (db_store db)) [97] = Some \<lparr> sref = Memory [1], sexpire = 0, sseq = 1, sdt = None \<rparr>"
    using sample_after_set by blast
  have run: "(db_step True sample_world)\<^sup>*\<^sup>* sample_db db"
    by (rule r_into_rtranclp, rule SetBody [OF _ sample_codec C]) (use sample_prepared [of 5] in simp)
  obtain res db' where E: "db_expire sample_world 5 (KText [97]) (Finite 10) (\<lambda>x. x) quiet db = (res, db')"
    by (cases "db_expire sample_world 5 (KText [97]) (Finite 10) (\<lambda>x. x) quiet db")
  have q: "gap (try1 quiet) = (\<lambda>x. x)" "answer (try1 quiet) \<noteq> Some WalSealed" by (simp_all add: quiet_def)
  have pk: "pk_of (KText [97]) = [97]" "toBuf (KText [97]) = [97]"
    by (simp_all add: pk_of_def toKStr_def utf8_point_def high_surrogate_def low_surrogate_def)
  have l: "live 5 (db_store db) [97] = Some \<lparr> sref = Memory [1], sexpire = 0, sseq = 1, sdt = None \<rparr>"
    by (simp add: live_def r Store.is_live_def)
  have "frame_fits TYPE_SET [97] (Some [1]) None 15"
    by (simp add: frame_fits_def or_empty_def size_defs type_defs int64_ok_def)
  then obtain f where f: "encodeFrame TYPE_SET [97] (Some [1]) None 15 = Inr f" using encodeFrame_fits by blast
  have "res = Inr True \<and> future (db_wal db') = future (db_wal db) @ f \<and> row_of db' = row_of db \<and>
      jget (smap (db_store db')) [97] = Some \<lparr> sref = Memory [1], sexpire = 15, sseq = seqno (db_store db) + 1, sdt = None \<rparr>"
    using expire_exact [OF sample_fresh run g q E] unfolding pk l option.case store_rec.simps
    by (simp add: materialize_def f quiet_def)
  with E f show ?thesis by blast
qed

end
