(* ===== verification/TranscriptModel.thy ===== *)
theory TranscriptModel
  imports Json
begin

text \<open>
  The data of \<open>packages/transcript/src/model\<close> and the operations of \<open>ops/operation.ts\<close>: the timeline of
  one agent (turns of steps of frames, with markers and task references between them), the
  entities beside it, and the operations that build it. Strings compared by \<open>===\<close> are values, so an
  optional string is an option; open content and structured fields that the code only copies and
  compares by reference are JavaScript values with their identity. Ordinals are finite numbers.
\<close>

section \<open>Turns\<close>

datatype origin_kind = OUser | OCron | OTask | OHook | OCompaction | OSide | OOther

record turn_origin =
  or_kind :: origin_kind
  or_taskId :: "jstr option"
  or_payload :: jsv

datatype turn_state = TQueued | TRunning | TCompleted | TFailed | TCancelled

datatype step_state = SRunning | SCompleted | SInterrupted | SFailed

section \<open>Frames\<close>

datatype text_role = Assistant | User

record text_frame =
  tf_frameId :: jstr
  tf_role :: text_role
  tf_text :: jstr
  tf_attachmentIds :: jsv
  tf_taskId :: "jstr option"

record thinking_frame =
  hf_frameId :: jstr
  hf_text :: jstr

datatype tool_state = ToolRunning | ToolDone | ToolError

record tool_frame =
  uf_frameId :: jstr
  uf_toolCallId :: jstr
  uf_name :: jstr
  uf_view :: "jstr option"
  uf_state :: tool_state
  uf_input :: jsv
  uf_output :: jsv
  uf_display :: jsv
  uf_error :: "jstr option"
  uf_inputText :: "jstr option"
  uf_progress :: jsv
  uf_taskId :: "jstr option"
  uf_approvalId :: "jstr option"
  uf_todoId :: "jstr option"
  uf_agentRefs :: jsv

datatype notice_level = LError | LWarning | LInfo

record notice_frame =
  nf_frameId :: jstr
  nf_level :: notice_level
  nf_source :: "jstr option"
  nf_message :: jstr
  nf_detail :: jsv

datatype transcript_frame =
    TextF text_frame
  | ThinkF thinking_frame
  | ToolF tool_frame
  | NoticeF notice_frame

definition frameIdOf :: "transcript_frame \<Rightarrow> jstr" where
  "frameIdOf f = (case f of TextF t \<Rightarrow> tf_frameId t | ThinkF t \<Rightarrow> hf_frameId t | ToolF t \<Rightarrow> uf_frameId t
                  | NoticeF t \<Rightarrow> nf_frameId t)"

lemma frameIdOf_simps [simp]:
  "frameIdOf (TextF t) = tf_frameId t" "frameIdOf (ThinkF h) = hf_frameId h"
  "frameIdOf (ToolF u) = uf_frameId u" "frameIdOf (NoticeF n) = nf_frameId n"
  by (simp_all add: frameIdOf_def)

section \<open>Steps, turns and the items of the timeline\<close>

text \<open>A header is the record without its children, which arrive by operations of their own.\<close>

record step_header =
  sp_stepId :: jstr
  sp_turnId :: jstr
  sp_ordinal :: rat
  sp_state :: step_state
  sp_startedAt :: "jstr option"
  sp_endedAt :: "jstr option"
  sp_usage :: jsv
  sp_finishReason :: "jstr option"
  sp_timing :: jsv
  sp_retry :: jsv
  sp_endReason :: "jstr option"
  sp_endMessage :: "jstr option"

record transcript_step = step_header +
  sp_frames :: "transcript_frame list"

record turn_header =
  tn_turnId :: jstr
  tn_ordinal :: rat
  tn_state :: turn_state
  tn_origin :: turn_origin
  tn_prompt :: "jstr option"
  tn_attachmentIds :: jsv
  tn_startedAt :: "jstr option"
  tn_endedAt :: "jstr option"
  tn_usage :: jsv
  tn_durationMs :: jsv
  tn_error :: "jstr option"

record transcript_turn = turn_header +
  tn_steps :: "transcript_step list"

text \<open>\<open>mk_self\<close> and \<open>rf_self\<close> are the identities of the objects, which one comparison reads.\<close>

record transcript_marker =
  mk_self :: nat
  mk_markerId :: jstr
  mk_marker :: jstr
  mk_payload :: jsv
  mk_at :: "jstr option"

record transcript_task_ref =
  rf_self :: nat
  rf_refId :: jstr
  rf_taskId :: jstr
  rf_at :: "jstr option"

datatype transcript_item =
    TurnI transcript_turn
  | MarkerI transcript_marker
  | TaskRefI transcript_task_ref

section \<open>Entities beside the timeline\<close>

datatype task_kind = KShell | KSubagent | KTool | KOther

datatype task_state = KRunning | KCompleted | KFailed | KTimedOut | KKilled | KLost

record transcript_task =
  tk_taskId :: jstr
  tk_kind :: task_kind
  tk_state :: task_state
  tk_detached :: bool
  tk_description :: "jstr option"
  tk_agentId :: "jstr option"
  tk_outputTail :: jstr
  tk_startedAt :: "jstr option"
  tk_endedAt :: "jstr option"
  tk_resultSummary :: "jstr option"
  tk_error :: "jstr option"
  tk_stateReason :: "jstr option"
  tk_usage :: jsv

datatype interaction_kind = Approval | Question

datatype interaction_state = IPending | IApproved | IRejected | ICancelled | IAnswered | IDismissed

record transcript_interaction =
  ia_interactionId :: jstr
  ia_interactionKind :: interaction_kind
  ia_toolCallId :: "jstr option"
  ia_state :: interaction_state
  ia_request :: jsv
  ia_response :: jsv

record transcript_attachment =
  ac_attachmentId :: jstr
  ac_mediaType :: jstr
  ac_name :: "jstr option"
  ac_size :: jsv
  ac_source :: jsv
  ac_placeholder :: "jstr option"

record transcript_todo =
  td_todoId :: jstr
  td_items :: jsv
  td_updatedAt :: "jstr option"

datatype prompt_status = PRunning | PQueued | PBlocked | PCompleted | PFailed | PAborted

record transcript_prompt =
  pr_promptId :: jstr
  pr_status :: prompt_status
  pr_userMessageId :: "jstr option"
  pr_content :: jsv
  pr_createdAt :: jstr
  pr_finishedAt :: "jstr option"
  pr_steeredAt :: "jstr option"

text \<open>
  The state of the modes; the status of the agent is the list of its own properties, since slices are
  spread over it. The identity of a \<open>modes\<close> or \<open>agent\<close> object is not kept: the code compares a new one
  with the old one, which differ exactly when one was built.
\<close>

record modes_meta =
  mo_plan :: jsv
  mo_swarm :: jsv

record transcript_meta =
  me_goal :: jsv
  me_activity :: jsv
  me_modes :: "modes_meta option"
  me_agent :: "(jstr, jsv) jmap option"

section \<open>Operations\<close>

record transcript_snapshot =
  sn_items :: "transcript_item list"
  sn_tasks :: "transcript_task list"
  sn_interactions :: "transcript_interaction list"
  sn_attachments :: "transcript_attachment list"
  sn_todos :: "transcript_todo list"
  sn_prompts :: "transcript_prompt list"
  sn_meta :: transcript_meta
  sn_hasMoreOlder :: "bool option"

datatype append_target = FrameTarget (at_turnId: jstr) (at_stepId: jstr) (at_frameId: jstr) | TaskTarget (at_taskId: jstr)

record append_op =
  ao_target :: append_target
  ao_offset :: int
  ao_text :: jstr

datatype transcript_operation =
    ResetOp transcript_snapshot
  | TurnUpsertOp turn_header
  | StepUpsertOp jstr step_header
  | FrameUpsertOp jstr jstr transcript_frame
  | AppendOp append_op
  | MarkerUpsertOp transcript_marker "rat option"
  | TaskRefUpsertOp transcript_task_ref "rat option"
  | TaskUpsertOp transcript_task
  | InteractionUpsertOp transcript_interaction
  | AttachmentUpsertOp transcript_attachment
  | TodoUpsertOp transcript_todo
  | PromptUpsertOp transcript_prompt
  | MetaMergeOp transcript_meta
  | ItemsRemoveOp "jstr list"

record gap =
  gp_expected :: int
  gp_got :: int

end
