(* ===== verification/TranscriptApply.thy ===== *)
theory TranscriptApply
  imports TranscriptModel
begin

text \<open>
  The reducer of \<open>packages/transcript/src/ops/apply.ts\<close>: the state behind the transcript of one agent and
  what each operation makes of it, function by function. \<open>num\<close> is the finite value of JavaScript's
  \<open>Number(s)\<close> on a string, with no value for \<open>NaN\<close>.
\<close>

type_synonym to_num = "jstr \<Rightarrow> rat option"

section \<open>State\<close>

record agent_state =
  ag_items :: "transcript_item list"
  ag_tasks :: "(jstr, transcript_task) jmap"
  ag_interactions :: "(jstr, transcript_interaction) jmap"
  ag_attachments :: "(jstr, transcript_attachment) jmap"
  ag_todos :: "(jstr, transcript_todo) jmap"
  ag_prompts :: "(jstr, transcript_prompt) jmap"
  ag_meta :: transcript_meta
  ag_pending :: "jstr list"
  ag_hasMoreOlder :: bool

definition empty_meta :: transcript_meta where
  "empty_meta = \<lparr> me_goal = JUndef, me_activity = JUndef, me_modes = None, me_agent = None \<rparr>"

definition EMPTY_AGENT_STATE :: agent_state where
  "EMPTY_AGENT_STATE =
     \<lparr> ag_items = [], ag_tasks = [], ag_interactions = [], ag_attachments = [], ag_todos = [], ag_prompts = [],
       ag_meta = empty_meta, ag_pending = [], ag_hasMoreOlder = False \<rparr>"

record apply_result =
  re_state :: agent_state
  re_changed :: bool
  re_gap :: "gap option"

definition unchanged :: "agent_state \<Rightarrow> apply_result" where
  "unchanged st = \<lparr> re_state = st, re_changed = False, re_gap = None \<rparr>"

definition changed_to :: "agent_state \<Rightarrow> apply_result" where
  "changed_to st = \<lparr> re_state = st, re_changed = True, re_gap = None \<rparr>"

definition gap_at :: "agent_state \<Rightarrow> gap \<Rightarrow> apply_result" where
  "gap_at st g = \<lparr> re_state = st, re_changed = False, re_gap = Some g \<rparr>"

text \<open>\<open>new Map(xs.map((x) => [id(x), x]))\<close>.\<close>

definition map_by :: "('v \<Rightarrow> 'k) \<Rightarrow> 'v list \<Rightarrow> ('k, 'v) jmap" where
  "map_by key xs = fold (\<lambda>x m. jset (key x) x m) xs []"

section \<open>Reset\<close>

definition pending_of :: "transcript_interaction list \<Rightarrow> jstr list" where
  "pending_of xs = fold (\<lambda>i p. if ia_state i = IPending then set_add (ia_interactionId i) p else p) xs []"

definition applyReset :: "transcript_snapshot \<Rightarrow> apply_result" where
  "applyReset sn =
     changed_to
       \<lparr> ag_items = sn_items sn, ag_tasks = map_by tk_taskId (sn_tasks sn),
         ag_interactions = map_by ia_interactionId (sn_interactions sn),
         ag_attachments = map_by ac_attachmentId (sn_attachments sn),
         ag_todos = map_by td_todoId (sn_todos sn), ag_prompts = map_by pr_promptId (sn_prompts sn),
         ag_meta = sn_meta sn, ag_pending = pending_of (sn_interactions sn),
         ag_hasMoreOlder = (case sn_hasMoreOlder sn of None \<Rightarrow> False | Some b \<Rightarrow> b) \<rparr>"

section \<open>Turns, steps and frames\<close>

definition turnOrdinal :: "to_num \<Rightarrow> jstr \<Rightarrow> rat" where
  "turnOrdinal num tid = (case num (drop 1 tid) of Some n \<Rightarrow> n | None \<Rightarrow> 0)"

definition turnHeaderToTurn :: "turn_header \<Rightarrow> transcript_step list \<Rightarrow> transcript_turn" where
  "turnHeaderToTurn h steps = turn_header.extend h (transcript_turn.fields steps)"

definition stepHeaderToStep :: "step_header \<Rightarrow> transcript_frame list \<Rightarrow> transcript_step" where
  "stepHeaderToStep h frames = step_header.extend h (transcript_step.fields frames)"

definition skeletonTurn :: "to_num \<Rightarrow> jstr \<Rightarrow> transcript_turn" where
  "skeletonTurn num tid =
     \<lparr> tn_turnId = tid, tn_ordinal = turnOrdinal num tid, tn_state = TRunning,
       tn_origin = \<lparr> or_kind = OOther, or_taskId = None, or_payload = JUndef \<rparr>, tn_prompt = None,
       tn_attachmentIds = JUndef, tn_startedAt = None, tn_endedAt = None, tn_usage = JUndef,
       tn_durationMs = JUndef, tn_error = None, tn_steps = [] \<rparr>"

definition skeletonStep :: "to_num \<Rightarrow> jstr \<Rightarrow> jstr \<Rightarrow> transcript_step" where
  "skeletonStep num sid tid =
     \<lparr> sp_stepId = sid, sp_turnId = tid,
       sp_ordinal = (case num (drop (length tid + 1) sid) of Some n \<Rightarrow> n | None \<Rightarrow> 0), sp_state = SRunning,
       sp_startedAt = None, sp_endedAt = None, sp_usage = JUndef, sp_finishReason = None, sp_timing = JUndef,
       sp_retry = JUndef, sp_endReason = None, sp_endMessage = None, sp_frames = [] \<rparr>"

fun find_turn :: "jstr \<Rightarrow> transcript_item list \<Rightarrow> transcript_turn option" where
  "find_turn tid [] = None"
| "find_turn tid (x # xs) =
     (case x of TurnI t \<Rightarrow> if tn_turnId t = tid then Some t else find_turn tid xs | _ \<Rightarrow> find_turn tid xs)"

definition getTurn :: "agent_state \<Rightarrow> jstr \<Rightarrow> transcript_turn option" where
  "getTurn st tid = find_turn tid (ag_items st)"

text \<open>The loop for the index of the first entry that satisfies \<open>P\<close>, and \<open>splice\<close> in front of it.\<close>

definition insert_before :: "('a \<Rightarrow> bool) \<Rightarrow> 'a \<Rightarrow> 'a list \<Rightarrow> 'a list" where
  "insert_before P x xs = takeWhile (\<lambda>y. \<not> P y) xs @ x # dropWhile (\<lambda>y. \<not> P y) xs"

definition turn_ordinals :: "(rat \<Rightarrow> bool) \<Rightarrow> transcript_item \<Rightarrow> bool" where
  "turn_ordinals P e = (case e of TurnI t \<Rightarrow> P (tn_ordinal t) | _ \<Rightarrow> False)"

definition insertTurn :: "transcript_item list \<Rightarrow> transcript_turn \<Rightarrow> transcript_item list" where
  "insertTurn xs t = insert_before (turn_ordinals (\<lambda>n. n > tn_ordinal t)) (TurnI t) xs"

definition replaceTurn ::
  "transcript_item list \<Rightarrow> jstr \<Rightarrow> (transcript_turn \<Rightarrow> transcript_turn) \<Rightarrow> transcript_item list" where
  "replaceTurn xs tid f =
     map (\<lambda>e. case e of TurnI t \<Rightarrow> if tn_turnId t = tid then TurnI (f t) else e | _ \<Rightarrow> e) xs"

definition turnEquals :: "'a turn_header_scheme \<Rightarrow> 'b turn_header_scheme \<Rightarrow> bool" where
  "turnEquals t h \<longleftrightarrow>
     tn_ordinal t = tn_ordinal h \<and> tn_state t = tn_state h \<and> tn_prompt t = tn_prompt h \<and>
     strict_eq (tn_attachmentIds t) (tn_attachmentIds h) \<and> tn_startedAt t = tn_startedAt h \<and>
     tn_endedAt t = tn_endedAt h \<and> or_kind (tn_origin t) = or_kind (tn_origin h) \<and>
     strict_eq (or_payload (tn_origin t)) (or_payload (tn_origin h)) \<and> strict_eq (tn_usage t) (tn_usage h) \<and>
     strict_eq (tn_durationMs t) (tn_durationMs h) \<and> tn_error t = tn_error h"

definition stepEquals :: "'a step_header_scheme \<Rightarrow> 'b step_header_scheme \<Rightarrow> bool" where
  "stepEquals s h \<longleftrightarrow>
     sp_ordinal s = sp_ordinal h \<and> sp_state s = sp_state h \<and> sp_startedAt s = sp_startedAt h \<and>
     sp_endedAt s = sp_endedAt h \<and> strict_eq (sp_usage s) (sp_usage h) \<and>
     sp_finishReason s = sp_finishReason h \<and> strict_eq (sp_timing s) (sp_timing h) \<and>
     strict_eq (sp_retry s) (sp_retry h) \<and> sp_endReason s = sp_endReason h \<and> sp_endMessage s = sp_endMessage h"

definition frameEquals :: "transcript_frame \<Rightarrow> transcript_frame \<Rightarrow> bool" where
  "frameEquals a b =
     (case (a, b) of
        (TextF s, TextF t) \<Rightarrow>
          tf_text s = tf_text t \<and> tf_role s = tf_role t \<and>
          strict_eq (tf_attachmentIds s) (tf_attachmentIds t) \<and> tf_taskId s = tf_taskId t
      | (ThinkF s, ThinkF t) \<Rightarrow> hf_text s = hf_text t
      | (ToolF s, ToolF t) \<Rightarrow>
          uf_state s = uf_state t \<and> uf_toolCallId s = uf_toolCallId t \<and> uf_name s = uf_name t \<and>
          uf_view s = uf_view t \<and> strict_eq (uf_input s) (uf_input t) \<and> strict_eq (uf_output s) (uf_output t) \<and>
          strict_eq (uf_display s) (uf_display t) \<and> uf_error s = uf_error t \<and>
          uf_inputText s = uf_inputText t \<and> strict_eq (uf_progress s) (uf_progress t) \<and>
          uf_taskId s = uf_taskId t \<and> uf_approvalId s = uf_approvalId t \<and> uf_todoId s = uf_todoId t \<and>
          strict_eq (uf_agentRefs s) (uf_agentRefs t)
      | (NoticeF s, NoticeF t) \<Rightarrow>
          nf_message s = nf_message t \<and> nf_level s = nf_level t \<and> strict_eq (nf_detail s) (nf_detail t)
      | _ \<Rightarrow> False)"

definition applyTurnUpsert :: "agent_state \<Rightarrow> turn_header \<Rightarrow> apply_result" where
  "applyTurnUpsert st h =
     (case getTurn st (tn_turnId h) of
        Some t \<Rightarrow>
          if turnEquals t h then unchanged st
          else changed_to (st\<lparr> ag_items :=
                 replaceTurn (ag_items st) (tn_turnId h) (\<lambda>turn. turnHeaderToTurn h (tn_steps turn)) \<rparr>)
      | None \<Rightarrow> changed_to (st\<lparr> ag_items := insertTurn (ag_items st) (turnHeaderToTurn h []) \<rparr>))"

text \<open>A turn with new steps replaces the turn it came from, or is inserted.\<close>

definition put_turn :: "agent_state \<Rightarrow> jstr \<Rightarrow> transcript_turn \<Rightarrow> agent_state" where
  "put_turn st tid t =
     st\<lparr> ag_items := (case getTurn st tid of
                        Some u \<Rightarrow> replaceTurn (ag_items st) tid (\<lambda>turn. t)
                      | None \<Rightarrow> insertTurn (ag_items st) t) \<rparr>"

definition turn_or_skeleton :: "to_num \<Rightarrow> agent_state \<Rightarrow> jstr \<Rightarrow> transcript_turn" where
  "turn_or_skeleton num st tid = (case getTurn st tid of Some t \<Rightarrow> t | None \<Rightarrow> skeletonTurn num tid)"

definition find_step :: "jstr \<Rightarrow> transcript_step list \<Rightarrow> transcript_step option" where
  "find_step sid ss = List.find (\<lambda>s. sp_stepId s = sid) ss"

definition find_frame :: "jstr \<Rightarrow> transcript_frame list \<Rightarrow> transcript_frame option" where
  "find_frame fid fs = List.find (\<lambda>f. frameIdOf f = fid) fs"

definition applyStepUpsert :: "to_num \<Rightarrow> agent_state \<Rightarrow> jstr \<Rightarrow> step_header \<Rightarrow> apply_result" where
  "applyStepUpsert num st tid h =
     (let turn = turn_or_skeleton num st tid in
      case find_step (sp_stepId h) (tn_steps turn) of
        Some cur \<Rightarrow>
          if stepEquals cur h then unchanged st
          else changed_to (put_turn st tid
                 (turn\<lparr> tn_steps := map (\<lambda>s. if sp_stepId s = sp_stepId h then stepHeaderToStep h (sp_frames s) else s)
                                     (tn_steps turn) \<rparr>))
      | None \<Rightarrow>
          changed_to (put_turn st tid
            (turn\<lparr> tn_steps := sort_key sp_ordinal (tn_steps turn @ [stepHeaderToStep h []]) \<rparr>)))"

definition upsert_frame :: "transcript_frame \<Rightarrow> transcript_frame list \<Rightarrow> transcript_frame list" where
  "upsert_frame f fs =
     (case find_frame (frameIdOf f) fs of
        Some cur \<Rightarrow> map (\<lambda>g. if frameIdOf g = frameIdOf f then f else g) fs
      | None \<Rightarrow> fs @ [f])"

definition upsert_step :: "transcript_step \<Rightarrow> transcript_step list \<Rightarrow> transcript_step list" where
  "upsert_step s ss =
     (if \<exists>e\<in>set ss. sp_stepId e = sp_stepId s
      then map (\<lambda>e. if sp_stepId e = sp_stepId s then s else e) ss
      else sort_key sp_ordinal (ss @ [s]))"

definition applyFrameUpsert ::
  "to_num \<Rightarrow> agent_state \<Rightarrow> jstr \<Rightarrow> jstr \<Rightarrow> transcript_frame \<Rightarrow> apply_result" where
  "applyFrameUpsert num st tid sid f =
     (let turn = turn_or_skeleton num st tid;
          step = (case find_step sid (tn_steps turn) of Some s \<Rightarrow> s | None \<Rightarrow> skeletonStep num sid tid) in
      if (case find_frame (frameIdOf f) (sp_frames step) of Some cur \<Rightarrow> frameEquals cur f | None \<Rightarrow> False)
      then unchanged st
      else changed_to (put_turn st tid
             (turn\<lparr> tn_steps := upsert_step (step\<lparr> sp_frames := upsert_frame f (sp_frames step) \<rparr>) (tn_steps turn) \<rparr>)))"

section \<open>Append\<close>

text \<open>\<open>s.slice(i, j)\<close>: negative positions count from the end.\<close>

definition slice_pos :: "'a list \<Rightarrow> int \<Rightarrow> nat" where
  "slice_pos s i = (if i < 0 then nat (int (length s) + i) else min (nat i) (length s))"

definition slice :: "'a list \<Rightarrow> int \<Rightarrow> int \<Rightarrow> 'a list" where
  "slice s i j = subarray s (slice_pos s i) (slice_pos s j)"

definition slice_from :: "'a list \<Rightarrow> int \<Rightarrow> 'a list" where
  "slice_from s i = drop (slice_pos s i) s"

record append_result =
  ap_text :: jstr
  ap_changed :: bool
  ap_gap :: "gap option"

definition appendAtOffset :: "jstr \<Rightarrow> int \<Rightarrow> jstr \<Rightarrow> append_result" where
  "appendAtOffset local offset chunk =
     (let len = int (length local); overlap = len - offset;
          same = \<lparr> ap_text = local, ap_changed = False, ap_gap = None \<rparr>;
          miss = \<lparr> ap_text = local, ap_changed = False, ap_gap = Some \<lparr> gp_expected = len, gp_got = offset \<rparr> \<rparr> in
      if offset > len then miss
      else if slice local offset (offset + int (length chunk)) = chunk then same
      else if slice_from local offset \<noteq> slice chunk 0 overlap then miss
      else if (if overlap > 0 then slice_from chunk overlap else chunk) = [] then same
      else \<lparr> ap_text = slice local 0 offset @ chunk, ap_changed = True, ap_gap = None \<rparr>)"

definition frame_text :: "transcript_frame \<Rightarrow> jstr option" where
  "frame_text f = (case f of TextF t \<Rightarrow> Some (tf_text t) | ThinkF h \<Rightarrow> Some (hf_text h) | _ \<Rightarrow> None)"

definition with_text :: "jstr \<Rightarrow> transcript_frame \<Rightarrow> transcript_frame" where
  "with_text s f =
     (case f of TextF t \<Rightarrow> TextF (t\<lparr> tf_text := s \<rparr>) | ThinkF h \<Rightarrow> ThinkF (h\<lparr> hf_text := s \<rparr>) | _ \<Rightarrow> f)"

definition applyTaskAppend :: "agent_state \<Rightarrow> jstr \<Rightarrow> int \<Rightarrow> jstr \<Rightarrow> apply_result" where
  "applyTaskAppend st tid offset chunk =
     (let task = jget (ag_tasks st) tid;
          m = appendAtOffset (case task of Some t \<Rightarrow> tk_outputTail t | None \<Rightarrow> []) offset chunk in
      case ap_gap m of
        Some g \<Rightarrow> gap_at st g
      | None \<Rightarrow>
          if \<not> ap_changed m then unchanged st
          else changed_to (st\<lparr> ag_tasks := jset tid
                 (case task of
                    Some t \<Rightarrow> t\<lparr> tk_outputTail := ap_text m \<rparr>
                  | None \<Rightarrow> \<lparr> tk_taskId = tid, tk_kind = KOther, tk_state = KRunning, tk_detached = False,
                      tk_description = None, tk_agentId = None, tk_outputTail = ap_text m, tk_startedAt = None,
                      tk_endedAt = None, tk_resultSummary = None, tk_error = None, tk_stateReason = None,
                      tk_usage = JUndef \<rparr>)
                 (ag_tasks st) \<rparr>))"

text \<open>The frame an append addresses, with its step and turn.\<close>

definition append_place ::
  "agent_state \<Rightarrow> jstr \<Rightarrow> jstr \<Rightarrow> jstr \<Rightarrow> (transcript_turn \<times> transcript_step \<times> transcript_frame \<times> jstr) option" where
  "append_place st tid sid fid =
     (case getTurn st tid of
        None \<Rightarrow> None
      | Some t \<Rightarrow>
          (case find_step sid (tn_steps t) of
             None \<Rightarrow> None
           | Some s \<Rightarrow>
               (case find_frame fid (sp_frames s) of
                  None \<Rightarrow> None
                | Some f \<Rightarrow> (case frame_text f of None \<Rightarrow> None | Some txt \<Rightarrow> Some (t, s, f, txt)))))"

definition applyAppend :: "agent_state \<Rightarrow> append_op \<Rightarrow> apply_result" where
  "applyAppend st a =
     (case ao_target a of
        TaskTarget k \<Rightarrow> applyTaskAppend st k (ao_offset a) (ao_text a)
      | FrameTarget tid sid fid \<Rightarrow>
          (case append_place st tid sid fid of
             None \<Rightarrow> gap_at st \<lparr> gp_expected = 0, gp_got = ao_offset a \<rparr>
           | Some (t, s, f, txt) \<Rightarrow>
               (let m = appendAtOffset txt (ao_offset a) (ao_text a);
                    step = s\<lparr> sp_frames := map (\<lambda>e. if frameIdOf e = fid then with_text (ap_text m) f else e) (sp_frames s) \<rparr>;
                    turn = t\<lparr> tn_steps := map (\<lambda>e. if sp_stepId e = sid then step else e) (tn_steps t) \<rparr> in
                case ap_gap m of
                  Some g \<Rightarrow> gap_at st g
                | None \<Rightarrow>
                    if \<not> ap_changed m then unchanged st
                    else changed_to (st\<lparr> ag_items := replaceTurn (ag_items st) tid (\<lambda>u. turn) \<rparr>))))"

section \<open>Standalone items\<close>

definition itemIdOf :: "transcript_item \<Rightarrow> jstr" where
  "itemIdOf e = (case e of TurnI t \<Rightarrow> tn_turnId t | MarkerI m \<Rightarrow> mk_markerId m | TaskRefI r \<Rightarrow> rf_refId r)"

text \<open>\<open>entry === item\<close> for a marker or a task reference.\<close>

definition same_item :: "transcript_item \<Rightarrow> transcript_item \<Rightarrow> bool" where
  "same_item a b =
     (case (a, b) of
        (MarkerI m, MarkerI n) \<Rightarrow> mk_self m = mk_self n
      | (TaskRefI r, TaskRefI s) \<Rightarrow> rf_self r = rf_self s
      | _ \<Rightarrow> False)"

definition applyItemUpsert :: "agent_state \<Rightarrow> transcript_item \<Rightarrow> jstr \<Rightarrow> rat option \<Rightarrow> apply_result" where
  "applyItemUpsert st x i beforeTurn =
     (if \<exists>e\<in>set (ag_items st). itemIdOf e = i then
        (if \<exists>e\<in>set (ag_items st). itemIdOf e = i \<and> \<not> same_item e x
         then changed_to (st\<lparr> ag_items := map (\<lambda>e. if itemIdOf e \<noteq> i \<or> same_item e x then e else x) (ag_items st) \<rparr>)
         else unchanged st)
      else case beforeTurn of
        Some b \<Rightarrow> changed_to (st\<lparr> ag_items := insert_before (turn_ordinals (\<lambda>n. n \<ge> b)) x (ag_items st) \<rparr>)
      | None \<Rightarrow> changed_to (st\<lparr> ag_items := ag_items st @ [x] \<rparr>))"

definition frame_tool_calls :: "transcript_frame \<Rightarrow> jstr list" where
  "frame_tool_calls f = (case f of ToolF u \<Rightarrow> [uf_toolCallId u] | _ \<Rightarrow> [])"

definition tool_calls :: "transcript_turn \<Rightarrow> jstr list" where
  "tool_calls t = concat (map (\<lambda>s. concat (map frame_tool_calls (sp_frames s))) (tn_steps t))"

definition removed_calls :: "jstr list \<Rightarrow> transcript_item list \<Rightarrow> jstr list" where
  "removed_calls ids xs =
     concat (map (\<lambda>e. case e of TurnI t \<Rightarrow> if tn_turnId t \<in> set ids then tool_calls t else [] | _ \<Rightarrow> []) xs)"

definition anchored_in :: "jstr list \<Rightarrow> transcript_interaction \<Rightarrow> bool" where
  "anchored_in calls i = (case ia_toolCallId i of Some c \<Rightarrow> c \<in> set calls | None \<Rightarrow> False)"

definition applyItemsRemove :: "agent_state \<Rightarrow> jstr list \<Rightarrow> apply_result" where
  "applyItemsRemove st ids =
     (let kept = filter (\<lambda>e. itemIdOf e \<notin> set ids) (ag_items st);
          dead = map (\<lambda>(k, i). ia_interactionId i)
                   (filter (\<lambda>(k, i). anchored_in (removed_calls ids (ag_items st)) i) (ag_interactions st)) in
      if length kept = length (ag_items st) then unchanged st
      else changed_to (st\<lparr> ag_items := kept, ag_interactions := fold jdel dead (ag_interactions st),
                           ag_pending := fold set_del dead (ag_pending st) \<rparr>))"

section \<open>Entities and meta\<close>

definition taskEquals :: "transcript_task \<Rightarrow> transcript_task \<Rightarrow> bool" where
  "taskEquals a b \<longleftrightarrow>
     tk_kind a = tk_kind b \<and> tk_state a = tk_state b \<and> tk_detached a = tk_detached b \<and>
     tk_description a = tk_description b \<and> tk_agentId a = tk_agentId b \<and> tk_outputTail a = tk_outputTail b \<and>
     tk_startedAt a = tk_startedAt b \<and> tk_endedAt a = tk_endedAt b \<and> tk_resultSummary a = tk_resultSummary b \<and>
     tk_error a = tk_error b \<and> tk_stateReason a = tk_stateReason b \<and> strict_eq (tk_usage a) (tk_usage b)"

definition interactionEquals :: "transcript_interaction \<Rightarrow> transcript_interaction \<Rightarrow> bool" where
  "interactionEquals a b \<longleftrightarrow>
     ia_interactionKind a = ia_interactionKind b \<and> ia_toolCallId a = ia_toolCallId b \<and> ia_state a = ia_state b \<and>
     strict_eq (ia_request a) (ia_request b) \<and> strict_eq (ia_response a) (ia_response b)"

definition attachmentEquals :: "transcript_attachment \<Rightarrow> transcript_attachment \<Rightarrow> bool" where
  "attachmentEquals a b \<longleftrightarrow>
     ac_mediaType a = ac_mediaType b \<and> ac_name a = ac_name b \<and> strict_eq (ac_size a) (ac_size b) \<and>
     strict_eq (ac_source a) (ac_source b) \<and> ac_placeholder a = ac_placeholder b"

definition todoEquals :: "transcript_todo \<Rightarrow> transcript_todo \<Rightarrow> bool" where
  "todoEquals a b \<longleftrightarrow> strict_eq (td_items a) (td_items b) \<and> td_updatedAt a = td_updatedAt b"

definition promptEquals :: "transcript_prompt \<Rightarrow> transcript_prompt \<Rightarrow> bool" where
  "promptEquals a b \<longleftrightarrow>
     pr_status a = pr_status b \<and> pr_userMessageId a = pr_userMessageId b \<and>
     strict_eq (pr_content a) (pr_content b) \<and> pr_createdAt a = pr_createdAt b \<and>
     pr_finishedAt a = pr_finishedAt b \<and> pr_steeredAt a = pr_steeredAt b"

text \<open>\<open>current && equals(current, x)\<close>.\<close>

definition known :: "('v \<Rightarrow> 'v \<Rightarrow> bool) \<Rightarrow> ('k, 'v) jmap \<Rightarrow> 'k \<Rightarrow> 'v \<Rightarrow> bool" where
  "known eq m k x = (case jget m k of Some cur \<Rightarrow> eq cur x | None \<Rightarrow> False)"

definition applyTaskUpsert :: "agent_state \<Rightarrow> transcript_task \<Rightarrow> apply_result" where
  "applyTaskUpsert st x =
     (if known taskEquals (ag_tasks st) (tk_taskId x) x then unchanged st
      else changed_to (st\<lparr> ag_tasks := jset (tk_taskId x) x (ag_tasks st) \<rparr>))"

definition applyInteractionUpsert :: "agent_state \<Rightarrow> transcript_interaction \<Rightarrow> apply_result" where
  "applyInteractionUpsert st x =
     (if known interactionEquals (ag_interactions st) (ia_interactionId x) x then unchanged st
      else changed_to (st\<lparr> ag_interactions := jset (ia_interactionId x) x (ag_interactions st),
                           ag_pending := (if ia_state x = IPending then set_add (ia_interactionId x) (ag_pending st)
                                          else set_del (ia_interactionId x) (ag_pending st)) \<rparr>))"

definition applyAttachmentUpsert :: "agent_state \<Rightarrow> transcript_attachment \<Rightarrow> apply_result" where
  "applyAttachmentUpsert st x =
     (if known attachmentEquals (ag_attachments st) (ac_attachmentId x) x then unchanged st
      else changed_to (st\<lparr> ag_attachments := jset (ac_attachmentId x) x (ag_attachments st) \<rparr>))"

definition applyTodoUpsert :: "agent_state \<Rightarrow> transcript_todo \<Rightarrow> apply_result" where
  "applyTodoUpsert st x =
     (if known todoEquals (ag_todos st) (td_todoId x) x then unchanged st
      else changed_to (st\<lparr> ag_todos := jset (td_todoId x) x (ag_todos st) \<rparr>))"

definition applyPromptUpsert :: "agent_state \<Rightarrow> transcript_prompt \<Rightarrow> apply_result" where
  "applyPromptUpsert st x =
     (if known promptEquals (ag_prompts st) (pr_promptId x) x then unchanged st
      else changed_to (st\<lparr> ag_prompts := jset (pr_promptId x) x (ag_prompts st) \<rparr>))"

definition coalesce :: "jsv \<Rightarrow> jsv \<Rightarrow> jsv" where
  "coalesce a b = (if nullish a then b else a)"

definition merge_mode :: "jsv \<Rightarrow> jsv \<Rightarrow> jsv" where
  "merge_mode m old = (if m = JNull then JUndef else coalesce m old)"

definition merge_modes :: "modes_meta option \<Rightarrow> modes_meta option \<Rightarrow> modes_meta option" where
  "merge_modes m old =
     (case m of
        None \<Rightarrow> old
      | Some x \<Rightarrow>
          Some \<lparr> mo_plan = merge_mode (mo_plan x) (case old of Some z \<Rightarrow> mo_plan z | None \<Rightarrow> JUndef),
                 mo_swarm = merge_mode (mo_swarm x) (case old of Some z \<Rightarrow> mo_swarm z | None \<Rightarrow> JUndef) \<rparr>)"

definition drop_empty_modes :: "modes_meta option \<Rightarrow> modes_meta option" where
  "drop_empty_modes m =
     (case m of Some x \<Rightarrow> if mo_plan x = JUndef \<and> mo_swarm x = JUndef then None else m | None \<Rightarrow> None)"

text \<open>\<open>{ ...old, ...new }\<close>.\<close>

definition spread :: "('k, 'v) jmap option \<Rightarrow> ('k, 'v) jmap \<Rightarrow> ('k, 'v) jmap" where
  "spread old new = fold (\<lambda>(k, v) m. jset k v m) new (case old of Some m \<Rightarrow> m | None \<Rightarrow> [])"

definition applyMetaMerge :: "agent_state \<Rightarrow> transcript_meta \<Rightarrow> apply_result" where
  "applyMetaMerge st m =
     (let old = ag_meta st;
          modes = drop_empty_modes (merge_modes (me_modes m) (me_modes old));
          new = \<lparr> me_goal = coalesce (me_goal m) (me_goal old), me_activity = coalesce (me_activity m) (me_activity old),
                  me_modes = modes,
                  me_agent = (case me_agent m of Some a \<Rightarrow> Some (spread (me_agent old) a) | None \<Rightarrow> me_agent old) \<rparr> in
      if strict_eq (me_goal new) (me_goal old) \<and> strict_eq (me_activity new) (me_activity old) \<and>
         (if me_modes m = None then modes = me_modes old else modes = None \<and> me_modes old = None) \<and>
         me_agent m = None
      then unchanged st
      else changed_to (st\<lparr> ag_meta := new \<rparr>))"

section \<open>One operation\<close>

definition applyOperation :: "to_num \<Rightarrow> agent_state \<Rightarrow> transcript_operation \<Rightarrow> apply_result" where
  "applyOperation num st q =
     (case q of
        ResetOp sn \<Rightarrow> applyReset sn
      | TurnUpsertOp h \<Rightarrow> applyTurnUpsert st h
      | StepUpsertOp tid h \<Rightarrow> applyStepUpsert num st tid h
      | FrameUpsertOp tid sid f \<Rightarrow> applyFrameUpsert num st tid sid f
      | AppendOp a \<Rightarrow> applyAppend st a
      | MarkerUpsertOp m b \<Rightarrow> applyItemUpsert st (MarkerI m) (mk_markerId m) b
      | TaskRefUpsertOp r b \<Rightarrow> applyItemUpsert st (TaskRefI r) (rf_refId r) b
      | TaskUpsertOp x \<Rightarrow> applyTaskUpsert st x
      | InteractionUpsertOp x \<Rightarrow> applyInteractionUpsert st x
      | AttachmentUpsertOp x \<Rightarrow> applyAttachmentUpsert st x
      | TodoUpsertOp x \<Rightarrow> applyTodoUpsert st x
      | PromptUpsertOp x \<Rightarrow> applyPromptUpsert st x
      | MetaMergeOp m \<Rightarrow> applyMetaMerge st m
      | ItemsRemoveOp ids \<Rightarrow> applyItemsRemove st ids)"

end
