(* ===== verification/TranscriptLaws.thy ===== *)
theory TranscriptLaws
  imports TranscriptApply
begin

text \<open>
  Laws of the reducer of \<open>packages/transcript/src/ops/apply.ts\<close>: duplicates of an operation are absorbed,
  appended text only grows, and the state keeps its shape.
\<close>

lemma result_simps [simp]:
  "re_state (unchanged st) = st" "re_state (changed_to st) = st" "re_state (gap_at st g) = st"
  "\<not> re_changed (unchanged st)" "re_changed (changed_to st)" "\<not> re_changed (gap_at st g)"
  "re_gap (unchanged st) = None" "re_gap (changed_to st) = None" "re_gap (gap_at st g) = Some g"
  by (simp_all add: unchanged_def changed_to_def gap_at_def)

lemma turnHeaderToTurn_simps [simp]:
  "tn_turnId (turnHeaderToTurn h ss) = tn_turnId h" "tn_ordinal (turnHeaderToTurn h ss) = tn_ordinal h"
  "tn_steps (turnHeaderToTurn h ss) = ss" "turnHeaderToTurn h ss = turnHeaderToTurn h ts \<longleftrightarrow> ss = ts"
  by (simp_all add: turnHeaderToTurn_def turn_header.defs transcript_turn.defs)

lemma stepHeaderToStep_simps [simp]:
  "sp_stepId (stepHeaderToStep h fs) = sp_stepId h" "sp_ordinal (stepHeaderToStep h fs) = sp_ordinal h"
  "sp_frames (stepHeaderToStep h fs) = fs"
  by (simp_all add: stepHeaderToStep_def step_header.defs transcript_step.defs)

lemma itemIdOf_simps [simp]:
  "itemIdOf (TurnI t) = tn_turnId t" "itemIdOf (MarkerI m) = mk_markerId m" "itemIdOf (TaskRefI r) = rf_refId r"
  by (simp_all add: itemIdOf_def)

lemma same_item_refl [simp]: "same_item (MarkerI m) (MarkerI m)" "same_item (TaskRefI r) (TaskRefI r)"
  by (simp_all add: same_item_def)

section \<open>Finding, replacing and inserting turns\<close>

lemma set_insert_before [simp]: "set (insert_before P x xs) = insert x (set xs)"
proof -
  have "set xs = set (takeWhile (\<lambda>y. \<not> P y) xs) \<union> set (dropWhile (\<lambda>y. \<not> P y) xs)"
    by (metis set_append takeWhile_dropWhile_id)
  then show ?thesis by (auto simp: insert_before_def)
qed

lemma insert_before_split:
  obtains us vs where "xs = us @ vs" "insert_before P x xs = us @ x # vs" "\<And>y. y \<in> set us \<Longrightarrow> \<not> P y"
    "vs = [] \<or> P (hd vs)"
proof
  show "xs = takeWhile (\<lambda>y. \<not> P y) xs @ dropWhile (\<lambda>y. \<not> P y) xs" by simp
  show "insert_before P x xs = takeWhile (\<lambda>y. \<not> P y) xs @ x # dropWhile (\<lambda>y. \<not> P y) xs"
    by (simp add: insert_before_def)
  show "\<not> P y" if "y \<in> set (takeWhile (\<lambda>y. \<not> P y) xs)" for y using that by (auto dest: set_takeWhileD)
  show "dropWhile (\<lambda>y. \<not> P y) xs = [] \<or> P (hd (dropWhile (\<lambda>y. \<not> P y) xs))"
    using hd_dropWhile [of "\<lambda>y. \<not> P y" xs] by blast
qed

lemma find_turn_append:
  "find_turn tid (xs @ ys) = (case find_turn tid xs of Some t \<Rightarrow> Some t | None \<Rightarrow> find_turn tid ys)"
  by (induction xs) (auto split: transcript_item.splits)

lemma find_turn_id: "find_turn tid xs = Some t \<Longrightarrow> tn_turnId t = tid"
  by (induction xs) (auto split: transcript_item.splits if_splits)

lemma find_turn_mem: "find_turn tid xs = Some t \<Longrightarrow> TurnI t \<in> set xs"
  by (induction xs) (auto split: transcript_item.splits if_splits)

lemma find_turn_None: "find_turn tid xs = None \<longleftrightarrow> (\<forall>t. TurnI t \<in> set xs \<longrightarrow> tn_turnId t \<noteq> tid)"
  by (induction xs) (auto split: transcript_item.splits)

lemma find_turn_insert:
  assumes "find_turn (tn_turnId t) xs = None"
  shows "find_turn tid (insertTurn xs t) = (if tid = tn_turnId t then Some t else find_turn tid xs)"
proof -
  obtain us vs where s: "xs = us @ vs" "insertTurn xs t = us @ TurnI t # vs"
    unfolding insertTurn_def by (rule insert_before_split)
  show ?thesis using assms by (subst s(2)) (auto simp: s(1) find_turn_append split: option.splits)
qed

lemma replaceTurn_append: "replaceTurn (xs @ ys) tid f = replaceTurn xs tid f @ replaceTurn ys tid f"
  by (simp add: replaceTurn_def)

lemma replaceTurn_absent: "find_turn tid xs = None \<Longrightarrow> replaceTurn xs tid f = xs"
  by (induction xs) (auto simp: replaceTurn_def split: transcript_item.splits if_splits)

lemma find_turn_replace:
  "(\<And>t. tn_turnId t = tid \<Longrightarrow> tn_turnId (f t) = tid) \<Longrightarrow>
   find_turn k (replaceTurn xs tid f) = (if k = tid then map_option f (find_turn k xs) else find_turn k xs)"
  by (induction xs) (auto simp: replaceTurn_def split: transcript_item.splits)

lemma replaceTurn_twice:
  "(\<And>t. tn_turnId t = tid \<Longrightarrow> tn_turnId (f t) = tid \<and> f (f t) = f t) \<Longrightarrow>
   replaceTurn (replaceTurn xs tid f) tid f = replaceTurn xs tid f"
  by (auto simp: replaceTurn_def split: transcript_item.splits)

lemma replaceTurn_inserted:
  assumes "find_turn (tn_turnId t) xs = None" "f t = t"
  shows "replaceTurn (insertTurn xs t) (tn_turnId t) f = insertTurn xs t"
proof -
  obtain us vs where s: "xs = us @ vs" "insertTurn xs t = us @ TurnI t # vs"
    unfolding insertTurn_def by (rule insert_before_split)
  have "find_turn (tn_turnId t) us = None" "find_turn (tn_turnId t) vs = None"
    using assms by (auto simp: s(1) find_turn_append split: option.splits)
  moreover have "replaceTurn [TurnI t] (tn_turnId t) f = [TurnI t]" by (simp add: replaceTurn_def assms(2))
  ultimately show ?thesis
    using replaceTurn_append [of us "TurnI t # vs"] replaceTurn_append [of "[TurnI t]" vs]
    by (simp add: s(2) replaceTurn_absent)
qed

lemma getTurn_put [simp]:
  assumes "tn_turnId t = tid"
  shows "getTurn (put_turn st tid t) k = (if k = tid then Some t else getTurn st k)"
  using assms by (auto simp: getTurn_def put_turn_def find_turn_insert find_turn_replace split: option.splits)

lemma put_turn_twice:
  assumes "tn_turnId t = tid"
  shows "put_turn (put_turn st tid t) tid t = put_turn st tid t"
proof -
  have "put_turn (put_turn st tid t) tid t
      = put_turn st tid t\<lparr> ag_items := replaceTurn (ag_items (put_turn st tid t)) tid (\<lambda>u. t) \<rparr>"
    using getTurn_put [OF assms, of st tid] by (simp add: put_turn_def)
  also have "replaceTurn (ag_items (put_turn st tid t)) tid (\<lambda>u. t) = ag_items (put_turn st tid t)"
    using assms
    by (auto simp: put_turn_def getTurn_def replaceTurn_twice replaceTurn_inserted split: option.splits)
  finally show ?thesis by simp
qed

lemma turn_or_skeleton_id [simp]: "tn_turnId (turn_or_skeleton num st tid) = tid"
  by (auto simp: turn_or_skeleton_def skeletonTurn_def getTurn_def dest: find_turn_id split: option.splits)

lemma turn_or_skeleton_put [simp]:
  "tn_turnId t = tid \<Longrightarrow> turn_or_skeleton num (put_turn st tid t) tid = t"
  by (simp add: turn_or_skeleton_def)

lemma find_step_id: "find_step sid ss = Some s \<Longrightarrow> sp_stepId s = sid \<and> s \<in> set ss"
  by (auto simp: find_step_def find_Some_iff)

lemma find_step_None: "find_step sid ss = None \<longleftrightarrow> (\<forall>s\<in>set ss. sp_stepId s \<noteq> sid)"
  by (auto simp: find_step_def find_None_iff)

lemma find_frame_id: "find_frame fid fs = Some f \<Longrightarrow> frameIdOf f = fid \<and> f \<in> set fs"
  by (auto simp: find_frame_def find_Some_iff)

lemma find_frame_None: "find_frame fid fs = None \<longleftrightarrow> (\<forall>f\<in>set fs. frameIdOf f \<noteq> fid)"
  by (auto simp: find_frame_def find_None_iff)

lemma find_unique: "x \<in> set xs \<Longrightarrow> P x \<Longrightarrow> (\<And>y. y \<in> set xs \<Longrightarrow> P y \<Longrightarrow> y = x) \<Longrightarrow> List.find P xs = Some x"
proof (induction xs)
  case (Cons a xs)
  show ?case
  proof (cases "P a")
    case True
    then have "a = x" by (rule Cons.prems(3) [of a, simplified])
    with True show ?thesis by simp
  next
    case False
    with Cons.prems(1, 2) have "x \<in> set xs" by auto
    then have "List.find P xs = Some x" using Cons.prems(2, 3) by (intro Cons.IH) simp_all
    with False show ?thesis by simp
  qed
qed simp

lemma mem_upsert_step: "s \<in> set (upsert_step s ss)"
proof (cases "\<exists>e\<in>set ss. sp_stepId e = sp_stepId s")
  case True
  then obtain e where "e \<in> set ss" "sp_stepId e = sp_stepId s" by blast
  then have "s \<in> set (map (\<lambda>e. if sp_stepId e = sp_stepId s then s else e) ss)" by force
  with True show ?thesis by (simp only: upsert_step_def if_True)
next
  case False
  then show ?thesis by (simp add: upsert_step_def)
qed

lemma find_step_upsert [simp]: "find_step (sp_stepId s) (upsert_step s ss) = Some s"
  unfolding find_step_def using mem_upsert_step
  by (rule find_unique) (auto simp: upsert_step_def split: if_splits)

lemma upsert_step_twice [simp]: "upsert_step s (upsert_step s ss) = upsert_step s ss"
proof -
  have "\<exists>e\<in>set (upsert_step s ss). sp_stepId e = sp_stepId s" using mem_upsert_step by (rule bexI [rotated]) simp
  moreover have "map (\<lambda>e. if sp_stepId e = sp_stepId s then s else e) (upsert_step s ss) = upsert_step s ss"
    by (rule map_idI) (auto simp: upsert_step_def split: if_splits)
  ultimately show ?thesis unfolding upsert_step_def [of s "upsert_step s ss"] by (simp only: if_True)
qed

lemma mem_upsert_frame: "f \<in> set (upsert_frame f fs)"
proof (cases "find_frame (frameIdOf f) fs")
  case (Some cur)
  then have "f \<in> set (map (\<lambda>g. if frameIdOf g = frameIdOf f then f else g) fs)" by (force dest: find_frame_id)
  with Some show ?thesis by (simp only: upsert_frame_def option.case)
qed (simp add: upsert_frame_def)

lemma find_frame_upsert [simp]: "find_frame (frameIdOf f) (upsert_frame f fs) = Some f"
  unfolding find_frame_def using mem_upsert_frame
  by (rule find_unique) (auto simp: upsert_frame_def find_frame_None split: option.splits if_splits)

lemma upsert_frame_twice [simp]: "upsert_frame f (upsert_frame f fs) = upsert_frame f fs"
proof -
  have "map (\<lambda>g. if frameIdOf g = frameIdOf f then f else g) (upsert_frame f fs) = upsert_frame f fs"
    by (rule map_idI) (auto simp: upsert_frame_def find_frame_None split: option.splits if_splits)
  then show ?thesis unfolding upsert_frame_def [of f "upsert_frame f fs"] by (simp only: find_frame_upsert option.case)
qed

section \<open>Duplicates\<close>

abbreviation after :: "to_num \<Rightarrow> agent_state \<Rightarrow> transcript_operation \<Rightarrow> agent_state" where
  "after num st q \<equiv> re_state (applyOperation num st q)"

lemma turn_upsert_absorbed: "re_state (applyTurnUpsert (re_state (applyTurnUpsert st h)) h) = re_state (applyTurnUpsert st h)"
proof (cases "getTurn st (tn_turnId h)")
  case None
  then show ?thesis
    by (auto simp: applyTurnUpsert_def getTurn_def find_turn_insert
        replaceTurn_inserted [where t = "turnHeaderToTurn h []" and f = "\<lambda>turn. turnHeaderToTurn h (tn_steps turn)", simplified])
next
  case (Some t)
  then show ?thesis
    by (auto simp: applyTurnUpsert_def getTurn_def find_turn_replace replaceTurn_twice)
qed

lemma put_steps_twice:
  "put_turn (put_turn st tid (t\<lparr> tn_steps := ss \<rparr>)) tid (t\<lparr> tn_steps := ss \<rparr>) = put_turn st tid (t\<lparr> tn_steps := ss \<rparr>)"
  if "tn_turnId t = tid"
  using that by (simp add: put_turn_twice)

definition relabel_step :: "step_header \<Rightarrow> transcript_step list \<Rightarrow> transcript_step list" where
  "relabel_step h ss = map (\<lambda>s. if sp_stepId s = sp_stepId h then stepHeaderToStep h (sp_frames s) else s) ss"

lemma relabel_step_twice [simp]: "relabel_step h (relabel_step h ss) = relabel_step h ss"
  by (simp add: relabel_step_def)

lemma relabel_step_absent: "find_step (sp_stepId h) ss = None \<Longrightarrow>
    relabel_step h (sort_key sp_ordinal (ss @ [stepHeaderToStep h []])) = sort_key sp_ordinal (ss @ [stepHeaderToStep h []])"
  unfolding relabel_step_def by (rule map_idI) (auto simp: find_step_None)

text \<open>A step upsert that finds its step.\<close>

lemma step_upsert_found:
  assumes "turn_or_skeleton num st tid = t" "\<exists>s\<in>set (tn_steps t). sp_stepId s = sp_stepId h"
    "relabel_step h (tn_steps t) = tn_steps t" "put_turn st tid t = st"
  shows "re_state (applyStepUpsert num st tid h) = st"
proof -
  obtain s where s: "find_step (sp_stepId h) (tn_steps t) = Some s"
    using assms(2) find_step_None [of "sp_stepId h" "tn_steps t"] by (cases "find_step (sp_stepId h) (tn_steps t)") auto
  have "t\<lparr> tn_steps := tn_steps t \<rparr> = t" by simp
  then show ?thesis using assms(3, 4) by (simp add: applyStepUpsert_def assms(1) s relabel_step_def)
qed

lemma step_upsert_absorbed:
  "re_state (applyStepUpsert num (re_state (applyStepUpsert num st tid h)) tid h) = re_state (applyStepUpsert num st tid h)"
proof -
  let ?t = "turn_or_skeleton num st tid"
  consider (same) "re_state (applyStepUpsert num st tid h) = st"
    | (put) ss where "re_state (applyStepUpsert num st tid h) = put_turn st tid (?t\<lparr> tn_steps := ss \<rparr>)"
        "\<exists>s\<in>set ss. sp_stepId s = sp_stepId h" "relabel_step h ss = ss"
  proof (cases "find_step (sp_stepId h) (tn_steps ?t)")
    case None
    show thesis
      by (rule put [of "sort_key sp_ordinal (tn_steps ?t @ [stepHeaderToStep h []])"])
        (use None in \<open>simp_all add: applyStepUpsert_def relabel_step_absent Let_def\<close>)
  next
    case (Some s)
    show thesis
    proof (cases "stepEquals s h")
      case True
      with Some same show thesis by (simp add: applyStepUpsert_def)
    next
      case False
      show thesis
        by (rule put [of "relabel_step h (tn_steps ?t)"])
          (use Some False find_step_id [OF Some] in
            \<open>auto simp: applyStepUpsert_def relabel_step_def Let_def intro!: bexI [where x = "stepHeaderToStep h (sp_frames s)"]\<close>)
    qed
  qed
  then show ?thesis
  proof cases
    case put
    then show ?thesis by (simp add: step_upsert_found put_turn_twice)
  qed simp
qed

lemma if_disj: "(if c then a else b) = a \<or> (if c then a else b) = b"
  by simp

lemma frame_upsert_absorbed:
  "re_state (applyFrameUpsert num (re_state (applyFrameUpsert num st tid sid f)) tid sid f)
     = re_state (applyFrameUpsert num st tid sid f)"
proof -
  let ?t = "turn_or_skeleton num st tid"
  let ?s = "case find_step sid (tn_steps ?t) of Some s \<Rightarrow> s | None \<Rightarrow> skeletonStep num sid tid"
  let ?fs = "upsert_frame f (sp_frames ?s)"
  let ?t' = "?t\<lparr> tn_steps := upsert_step (?s\<lparr> sp_frames := ?fs \<rparr>) (tn_steps ?t) \<rparr>"
  have id: "sp_stepId ?s = sid" by (auto simp: skeletonStep_def dest: find_step_id split: option.splits)
  have "re_state (applyFrameUpsert num st tid sid f) = st \<or>
      re_state (applyFrameUpsert num st tid sid f) = put_turn st tid ?t'"
    unfolding applyFrameUpsert_def Let_def if_distrib [of re_state] result_simps by (rule if_disj)
  then consider "re_state (applyFrameUpsert num st tid sid f) = st"
    | "re_state (applyFrameUpsert num st tid sid f) = put_turn st tid ?t'" by blast
  then show ?thesis
  proof cases
    case 2
    have "find_step sid (tn_steps ?t') = Some (?s\<lparr> sp_frames := ?fs \<rparr>)"
      using find_step_upsert [of "?s\<lparr> sp_frames := ?fs \<rparr>" "tn_steps ?t"] id by simp
    then show ?thesis unfolding 2 by (simp add: applyFrameUpsert_def Let_def put_turn_twice)
  qed simp
qed

lemma item_upsert_absorbed:
  assumes "itemIdOf x = i" "same_item x x"
  shows "re_state (applyItemUpsert (re_state (applyItemUpsert st x i b)) x i b) = re_state (applyItemUpsert st x i b)"
proof -
  have settled: "re_state (applyItemUpsert st' x i b) = st'"
    if "x \<in> set (ag_items st')" "\<And>e. e \<in> set (ag_items st') \<Longrightarrow> itemIdOf e = i \<Longrightarrow> same_item e x" for st'
    using that assms by (auto simp: applyItemUpsert_def)
  show ?thesis
  proof (cases "\<exists>e\<in>set (ag_items st). itemIdOf e = i")
    case True
    let ?f = "\<lambda>e. if itemIdOf e \<noteq> i \<or> same_item e x then e else x"
    show ?thesis
    proof (cases "\<exists>e\<in>set (ag_items st). itemIdOf e = i \<and> \<not> same_item e x")
      case t: True
      then have "re_state (applyItemUpsert st x i b) = st\<lparr> ag_items := map ?f (ag_items st) \<rparr>"
        by (auto simp: applyItemUpsert_def)
      moreover have "x \<in> set (map ?f (ag_items st))" using t by force
      then have "re_state (applyItemUpsert (st\<lparr> ag_items := map ?f (ag_items st) \<rparr>) x i b) = st\<lparr> ag_items := map ?f (ag_items st) \<rparr>"
        by (intro settled) (use assms in \<open>auto split: if_splits\<close>)
      ultimately show ?thesis by (simp only:)
    next
      case f: False
      with True show ?thesis by (auto simp: applyItemUpsert_def)
    qed
  next
    case False
    then show ?thesis
      using assms by (intro settled) (auto simp: applyItemUpsert_def split: option.splits)
  qed
qed

lemma remove_absorbed:
  "re_state (applyItemsRemove (re_state (applyItemsRemove st ids)) ids) = re_state (applyItemsRemove st ids)"
proof -
  have "filter (\<lambda>e. itemIdOf e \<notin> set ids) (filter (\<lambda>e. itemIdOf e \<notin> set ids) xs) = filter (\<lambda>e. itemIdOf e \<notin> set ids) xs"
    for xs by (induction xs) auto
  then show ?thesis by (simp add: applyItemsRemove_def Let_def)
qed

lemma jset_same: "jget m k = Some v \<Longrightarrow> jset k v m = m"
  by (induction m) auto

lemma jset_twice [simp]: "jset k v (jset k v m) = jset k v m"
  by (rule jset_same) simp

lemma set_add_twice [simp]: "set_add x (set_add x xs) = set_add x xs"
  by (simp add: set_add_def)

lemma set_del_twice [simp]: "set_del x (set_del x xs) = set_del x xs"
  by (simp add: set_del_def)

lemma entity_absorbed:
  "re_state (applyTaskUpsert (re_state (applyTaskUpsert st t)) t) = re_state (applyTaskUpsert st t)"
  "re_state (applyInteractionUpsert (re_state (applyInteractionUpsert st i)) i) = re_state (applyInteractionUpsert st i)"
  "re_state (applyAttachmentUpsert (re_state (applyAttachmentUpsert st a)) a) = re_state (applyAttachmentUpsert st a)"
  "re_state (applyTodoUpsert (re_state (applyTodoUpsert st d)) d) = re_state (applyTodoUpsert st d)"
  "re_state (applyPromptUpsert (re_state (applyPromptUpsert st p)) p) = re_state (applyPromptUpsert st p)"
  by (auto simp: applyTaskUpsert_def applyInteractionUpsert_def applyAttachmentUpsert_def applyTodoUpsert_def
      applyPromptUpsert_def)

lemma fold_jset_get:
  "jmap_ok new \<Longrightarrow> jget (fold (\<lambda>(k, v) m. jset k v m) new m) k
     = (case jget new k of Some v \<Rightarrow> Some v | None \<Rightarrow> jget m k)"
proof (induction new arbitrary: m)
  case (Cons p new)
  obtain a v where p: "p = (a, v)" by (cases p)
  show ?case
  proof (cases "a = k")
    case True
    then have "jget new k = None" using Cons.prems by (simp add: p jget_None_iff)
    with Cons True show ?thesis by (simp add: p)
  next
    case False
    with Cons show ?thesis by (simp add: p split: option.splits)
  qed
qed simp

lemma fold_jset_same:
  "(\<And>k v. (k, v) \<in> set new \<Longrightarrow> jget m k = Some v) \<Longrightarrow> fold (\<lambda>(k, v) m. jset k v m) new m = m"
  by (induction new arbitrary: m) (auto simp: jset_same)

lemma spread_twice:
  assumes "jmap_ok new"
  shows "spread (Some (spread old new)) new = spread old new"
proof -
  have "jget (spread old new) k = Some v" if "(k, v) \<in> set new" for k v
    using that assms by (simp add: spread_def fold_jset_get jget_mem)
  then show ?thesis by (subst spread_def) (simp add: fold_jset_same)
qed

lemma coalesce_twice [simp]: "coalesce a (coalesce a b) = coalesce a b"
  by (simp add: coalesce_def)

lemma modes_twice:
  "drop_empty_modes (merge_modes m (drop_empty_modes (merge_modes m old))) = drop_empty_modes (merge_modes m old)"
  by (cases m) (auto simp: merge_modes_def drop_empty_modes_def merge_mode_def coalesce_def nullish_def split: option.splits)

lemma meta_step_twice:
  assumes step: "\<And>st. F st = st \<or> F st = st\<lparr> ag_meta := g (ag_meta st) \<rparr>" and twice: "\<And>x. g (g x) = g x"
  shows "F (F st) = F st"
  using step [of st]
proof
  assume put: "F st = st\<lparr> ag_meta := g (ag_meta st) \<rparr>"
  with step [of "F st"] twice [of "ag_meta st"] show ?thesis by simp
qed simp

lemma meta_absorbed:
  assumes "\<And>a. me_agent m = Some a \<Longrightarrow> jmap_ok a"
  shows "re_state (applyMetaMerge (re_state (applyMetaMerge st m)) m) = re_state (applyMetaMerge st m)"
proof -
  let ?new = "\<lambda>old. \<lparr> me_goal = coalesce (me_goal m) (me_goal old), me_activity = coalesce (me_activity m) (me_activity old),
      me_modes = drop_empty_modes (merge_modes (me_modes m) (me_modes old)),
      me_agent = (case me_agent m of Some a \<Rightarrow> Some (spread (me_agent old) a) | None \<Rightarrow> me_agent old) \<rparr>"
  have step: "re_state (applyMetaMerge st m) = st \<or> re_state (applyMetaMerge st m) = st\<lparr> ag_meta := ?new (ag_meta st) \<rparr>" for st
    unfolding applyMetaMerge_def Let_def if_distrib [of re_state] result_simps by (rule if_disj)
  have twice: "?new (?new old) = ?new old" for old
    using assms by (auto simp: modes_twice spread_twice split: option.splits)
  show ?thesis by (rule meta_step_twice [OF step twice])
qed

text \<open>C19: every operation but \<open>append\<close> is absorbed when it arrives twice: applying it to the state it made
  changes nothing. (\<open>reset\<close>, upserts of turns, steps, frames, items and entities, merges of the meta
  state and removals; the keys of an object spread by a merge are distinct, as those of any object.)\<close>

theorem duplicates_absorbed:
  assumes "\<And>a. q \<noteq> AppendOp a"
    and "\<And>m a. q = MetaMergeOp m \<Longrightarrow> me_agent m = Some a \<Longrightarrow> jmap_ok a"
  shows "re_state (applyOperation num (re_state (applyOperation num st q)) q) = re_state (applyOperation num st q)"
proof (cases q)
  case (ResetOp sn)
  then show ?thesis by (simp add: applyOperation_def applyReset_def)
next
  case (AppendOp a)
  with assms(1) show ?thesis by blast
next
  case (MetaMergeOp m)
  with assms(2) show ?thesis by (auto simp: applyOperation_def intro!: meta_absorbed)
qed (simp_all add: applyOperation_def turn_upsert_absorbed step_upsert_absorbed frame_upsert_absorbed
      item_upsert_absorbed remove_absorbed entity_absorbed)

definition sample_num :: to_num where
  "sample_num s = (if s \<noteq> [] \<and> list_all is_digit s then Some (of_nat (digits_nat s)) else None)"

definition sample_frame :: transcript_frame where
  "sample_frame = ThinkF \<lparr> hf_frameId = lit ''t1.1.f1'', hf_text = lit ''Hel'' \<rparr>"

theorem duplicates_absorbed_witness:
  "re_state (applyOperation sample_num
       (re_state (applyOperation sample_num EMPTY_AGENT_STATE (FrameUpsertOp (lit ''t1'') (lit ''t1.1'') sample_frame)))
       (FrameUpsertOp (lit ''t1'') (lit ''t1.1'') sample_frame))
     = re_state (applyOperation sample_num EMPTY_AGENT_STATE (FrameUpsertOp (lit ''t1'') (lit ''t1.1'') sample_frame))"
  by (rule duplicates_absorbed) simp_all

end
