(* ===== verification/TranscriptStream.thy ===== *)
theory TranscriptStream
  imports TranscriptStore "HOL-Library.Sublist"
begin

text \<open>
  What \<open>append\<close> does to text that streams in chunks (\<open>appendAtOffset\<close> of \<open>packages/transcript/src/ops/apply.ts\<close>):
  it never rewrites text that is there, refuses a chunk that disagrees with it, and makes of any order and
  repetition of the chunks of one stream a prefix of that stream.
\<close>

section \<open>One chunk\<close>

lemma slice_nat: "slice s (int i) (int j) = subarray s i j"
proof (cases "i \<le> length s")
  case True
  then show ?thesis by (cases "j \<le> length s") (simp_all add: slice_def slice_pos_def subarray_def min_def)
qed (simp add: slice_def slice_pos_def subarray_def)

lemma slice_nat_simps:
  "slice s 0 (int j) = take j s" "slice s (int i) (int i + int l) = take l (drop i s)" "slice_from s (int i) = drop i s"
proof -
  show "slice s 0 (int j) = take j s" using slice_nat [of s 0 j] by (simp add: subarray_def)
  show "slice s (int i) (int i + int l) = take l (drop i s)"
    using slice_nat [of s i "i + l"] by (simp add: subarray_def)
  show "slice_from s (int i) = drop i s" by (simp add: slice_from_def slice_pos_def min_def)
qed

text \<open>\<open>appendAtOffset\<close> at a position that exists, without slices.\<close>

lemma appendAtOffset_nat:
  assumes "n \<le> length s"
  shows "appendAtOffset s (int n) c =
    (if take (length c) (drop n s) = c then \<lparr> ap_text = s, ap_changed = False, ap_gap = None \<rparr>
     else if drop n s \<noteq> take (length s - n) c
       then \<lparr> ap_text = s, ap_changed = False, ap_gap = Some \<lparr> gp_expected = int (length s), gp_got = int n \<rparr> \<rparr>
     else \<lparr> ap_text = take n s @ c, ap_changed = True, ap_gap = None \<rparr>)"
proof -
  have over: "int (length s) - int n = int (length s - n)" using assms by simp
  have novel: "(if int k > 0 then slice_from c (int k) else c) = drop k c" for k
    by (cases "k = 0") (simp_all add: slice_nat_simps)
  have "take (length c) (drop n s) = c" if "drop n s = take (length s - n) c" "drop (length s - n) c = []"
    using that by simp
  then show ?thesis
    using assms unfolding appendAtOffset_def Let_def over novel slice_nat_simps by auto
qed

lemma drop_prefix:
  assumes "take (length c) (drop n s) = c" "n \<le> length s"
  shows "n + length c \<le> length s"
proof -
  have "length (take (length c) (drop n s)) = length c" using assms(1) by simp
  then show ?thesis using assms(2) by simp
qed

text \<open>\<open>appendAtOffset\<close> at an offset that is not negative never drops or changes text that is there.
  It answers a gap, and leaves the text alone, exactly when the offset lies behind the end or the chunk disagrees with
  the text where they overlap; otherwise the result extends the text, has the chunk at its offset, and ends
  where the longer of the two ends.\<close>

theorem append_places_chunk:
  assumes "0 \<le> offset"
  shows "case ap_gap (appendAtOffset s offset chunk) of
      Some g \<Rightarrow> ap_text (appendAtOffset s offset chunk) = s \<and> g = \<lparr> gp_expected = int (length s), gp_got = offset \<rparr> \<and>
        (int (length s) < offset \<or>
         (\<exists>i < length chunk. nat offset + i < length s \<and> s ! (nat offset + i) \<noteq> chunk ! i))
    | None \<Rightarrow> offset \<le> int (length s) \<and> prefix s (ap_text (appendAtOffset s offset chunk)) \<and>
        take (length chunk) (drop (nat offset) (ap_text (appendAtOffset s offset chunk))) = chunk \<and>
        length (ap_text (appendAtOffset s offset chunk)) = max (length s) (nat offset + length chunk) \<and>
        (ap_changed (appendAtOffset s offset chunk) \<longleftrightarrow> ap_text (appendAtOffset s offset chunk) \<noteq> s)"
proof -
  obtain n where n: "offset = int n" using assms by (metis nonneg_int_cases)
  show ?thesis
  proof (cases "n \<le> length s")
    case False
    then show ?thesis by (simp add: n appendAtOffset_def)
  next
    case True
    consider (there) "take (length chunk) (drop n s) = chunk"
      | (disagrees) "take (length chunk) (drop n s) \<noteq> chunk" "drop n s \<noteq> take (length s - n) chunk"
      | (extends) "take (length chunk) (drop n s) \<noteq> chunk" "drop n s = take (length s - n) chunk"
      by blast
    then show ?thesis
    proof cases
      case there
      with True show ?thesis using drop_prefix [OF there True] by (simp add: n appendAtOffset_nat)
    next
      case disagrees
      obtain i where "i < length chunk" "n + i < length s" "s ! (n + i) \<noteq> chunk ! i"
      proof (rule ccontr)
        assume "\<not> thesis"
        then have eq: "s ! (n + i) = chunk ! i" if "i < length chunk" "n + i < length s" for i
          using that \<open>(\<And>i. i < length chunk \<Longrightarrow> n + i < length s \<Longrightarrow> s ! (n + i) \<noteq> chunk ! i \<Longrightarrow> thesis)\<close> by blast
        show False
        proof (cases "length chunk \<le> length s - n")
          case True
          then have "take (length chunk) (drop n s) = chunk"
            by (intro nth_equalityI) (auto simp: eq \<open>n \<le> length s\<close>)
          with disagrees show False by simp
        next
          case False
          then have "drop n s = take (length s - n) chunk"
            by (intro nth_equalityI) (auto simp: eq \<open>n \<le> length s\<close>)
          with disagrees show False by simp
        qed
      qed
      with disagrees True show ?thesis by (auto simp: n appendAtOffset_nat)
    next
      case extends
      then have split: "chunk = drop n s @ drop (length s - n) chunk" by (metis append_take_drop_id)
      then have "s @ drop (length s - n) chunk = take n s @ chunk" by (metis append.assoc append_take_drop_id)
      then have pre: "prefix s (take n s @ chunk)" by (metis prefixI)
      have len: "length s - n \<le> length chunk"
        using extends(2) True by (metis length_drop length_take min.cobounded1)
      have "take n s @ chunk \<noteq> s"
        using extends(1) True by (metis append_take_drop_id same_append_eq take_all_iff order_refl)
      with extends True pre len show ?thesis by (simp add: n appendAtOffset_nat max_def)
    qed
  qed
qed

theorem append_places_chunk_witness:
  "(0::int) \<le> 2 \<and> ap_gap (appendAtOffset (lit ''Hel'') 2 (lit ''llo'')) = None \<and>
   prefix (lit ''Hel'') (ap_text (appendAtOffset (lit ''Hel'') 2 (lit ''llo'')))"
proof -
  have "ap_gap (appendAtOffset (lit ''Hel'') 2 (lit ''llo'')) = None"
    by (simp add: appendAtOffset_def slice_def slice_from_def slice_pos_def subarray_def)
  with append_places_chunk [of 2 "lit ''Hel''" "lit ''llo''"] show ?thesis by (simp del: lit_simps)
qed

section \<open>A stream of chunks\<close>

text \<open>A chunk of the text \<open>T\<close>: its position and its length; how far a local copy reaches after some chunks.\<close>

fun reach :: "nat \<Rightarrow> (nat \<times> nat) list \<Rightarrow> nat" where
  "reach n [] = n"
| "reach n ((p, l) # cs) = reach (if p \<le> n then max n (p + l) else n) cs"

definition chunk_op :: "append_target \<Rightarrow> jstr \<Rightarrow> nat \<times> nat \<Rightarrow> transcript_operation" where
  "chunk_op tg T c = AppendOp \<lparr> ao_target = tg, ao_offset = int (fst c), ao_text = take (snd c) (drop (fst c) T) \<rparr>"

lemma append_of_stream:
  assumes "n \<le> length T" "p + l \<le> length T"
  shows "appendAtOffset (take n T) (int p) (take l (drop p T)) =
    (if p \<le> n then \<lparr> ap_text = take (max n (p + l)) T, ap_changed = (p + l > n), ap_gap = None \<rparr>
     else \<lparr> ap_text = take n T, ap_changed = False, ap_gap = Some \<lparr> gp_expected = int n, gp_got = int p \<rparr> \<rparr>)"
proof (cases "p \<le> n")
  case True
  have len: "length (take n T) = n" "length (take l (drop p T)) = l" using assms by simp_all
  show ?thesis
  proof (cases "p + l \<le> n")
    case inside: True
    then have "take l (drop p (take n T)) = take l (drop p T)" by (simp add: drop_take min_def)
    then have "appendAtOffset (take n T) (int p) (take l (drop p T)) = \<lparr> ap_text = take n T, ap_changed = False, ap_gap = None \<rparr>"
      by (subst appendAtOffset_nat) (simp_all only: len True simp_thms if_True)
    then show ?thesis using True inside by (simp add: max_def)
  next
    case False
    then have "length (take l (drop p (take n T))) < length (take l (drop p T))" using assms True by simp
    then have "take l (drop p (take n T)) \<noteq> take l (drop p T)" by (metis less_irrefl)
    moreover have "drop p (take n T) = take (n - p) (take l (drop p T))" using False by (simp add: drop_take min_def)
    moreover have "take p (take n T) @ take l (drop p T) = take (p + l) T" using True by (simp add: take_add min_def)
    ultimately have "appendAtOffset (take n T) (int p) (take l (drop p T))
        = \<lparr> ap_text = take (p + l) T, ap_changed = True, ap_gap = None \<rparr>"
      by (subst appendAtOffset_nat) (simp_all only: len True simp_thms if_False)
    then show ?thesis using True False by (simp add: max_def)
  qed
next
  case False
  then show ?thesis using assms by (simp add: appendAtOffset_def)
qed

lemma frameIdOf_with_text [simp]: "frameIdOf (with_text x f) = frameIdOf f"
  by (cases f) (simp_all add: with_text_def)

lemma frame_text_with_text: "frame_text f = Some y \<Longrightarrow> frame_text (with_text x f) = Some x"
  by (cases f) (simp_all add: with_text_def frame_text_def)

lemma find_map_all:
  "List.find P xs = Some a \<Longrightarrow> P b \<Longrightarrow> List.find P (map (\<lambda>e. if P e then b else e) xs) = Some b"
  by (induction xs) (auto split: if_splits)

lemma append_placeI:
  "getTurn st tid = Some t \<Longrightarrow> find_step sid (tn_steps t) = Some s \<Longrightarrow> find_frame fid (sp_frames s) = Some f \<Longrightarrow>
   frame_text f = Some x \<Longrightarrow> append_place st tid sid fid = Some (t, s, f, x)"
  by (simp add: append_place_def)

text \<open>An append to a frame that is there.\<close>

lemma append_at_place:
  assumes place: "append_place st tid sid fid = Some (t, s, f, x)"
    and r: "appendAtOffset x p c = r" "ap_gap r = None"
  obtains t' s' f' where
    "append_place (re_state (applyAppend st \<lparr> ao_target = FrameTarget tid sid fid, ao_offset = p, ao_text = c \<rparr>)) tid sid fid
       = Some (t', s', f', if ap_changed r then ap_text r else x)"
proof (cases "ap_changed r")
  case False
  with assms show ?thesis by (intro that) (simp add: applyAppend_def)
next
  case True
  let ?f = "with_text (ap_text r) f"
  let ?s = "s\<lparr> sp_frames := map (\<lambda>e. if frameIdOf e = fid then ?f else e) (sp_frames s) \<rparr>"
  let ?t = "t\<lparr> tn_steps := map (\<lambda>e. if sp_stepId e = sid then ?s else e) (tn_steps t) \<rparr>"
  have p: "getTurn st tid = Some t" "find_step sid (tn_steps t) = Some s" "find_frame fid (sp_frames s) = Some f"
      "frame_text f = Some x"
    using place by (auto simp: append_place_def split: option.splits)
  have new: "re_state (applyAppend st \<lparr> ao_target = FrameTarget tid sid fid, ao_offset = p, ao_text = c \<rparr>)
      = st\<lparr> ag_items := replaceTurn (ag_items st) tid (\<lambda>u. ?t) \<rparr>"
    using place r True by (simp add: applyAppend_def)
  have ids: "tn_turnId t = tid" "sp_stepId s = sid" "frameIdOf f = fid"
    using p find_turn_id find_step_id find_frame_id by (auto simp: getTurn_def)
  have f1: "getTurn (st\<lparr> ag_items := replaceTurn (ag_items st) tid (\<lambda>u. ?t) \<rparr>) tid = Some ?t"
    using p(1) ids by (simp add: find_turn_replace getTurn_def)
  have f2: "find_step sid (tn_steps ?t) = Some ?s"
    using p(2) ids unfolding find_step_def by simp (rule find_map_all, auto)
  have f3: "find_frame fid (sp_frames ?s) = Some ?f"
    using p(3) ids unfolding find_frame_def by simp (rule find_map_all, auto)
  show ?thesis
    by (rule that [of ?t ?s ?f], unfold new)
      (use True in \<open>simp only: append_placeI [OF f1 f2 f3 frame_text_with_text [OF p(4)]] if_True\<close>)
qed

lemma stream_step:
  assumes "append_place st tid sid fid = Some (t, s, f, take n T)" "n \<le> length T" "p + l \<le> length T"
  obtains t' s' f' where
    "append_place (re_state (applyOperation num st (chunk_op (FrameTarget tid sid fid) T (p, l)))) tid sid fid
       = Some (t', s', f', take (if p \<le> n then max n (p + l) else n) T)"
proof (cases "p \<le> n")
  case True
  note r = append_of_stream [OF assms(2, 3)]
  obtain t' s' f' where
    "append_place (re_state (applyAppend st \<lparr> ao_target = FrameTarget tid sid fid, ao_offset = int p, ao_text = take l (drop p T) \<rparr>)) tid sid fid
       = Some (t', s', f', if p + l > n then take (max n (p + l)) T else take n T)"
    by (rule append_at_place [OF assms(1) r]) (auto simp: True)
  then show ?thesis using True by (intro that) (auto simp: applyOperation_def chunk_op_def max_def split: if_splits)
next
  case False
  have "applyAppend st \<lparr> ao_target = FrameTarget tid sid fid, ao_offset = int p, ao_text = take l (drop p T) \<rparr>
      = gap_at st \<lparr> gp_expected = int n, gp_got = int p \<rparr>"
    using assms False by (simp add: applyAppend_def append_of_stream)
  then show ?thesis using False assms(1) by (intro that) (simp add: applyOperation_def chunk_op_def)
qed

section \<open>Batches\<close>

lemma append_unchanged: "re_gap (applyAppend st a) \<noteq> None \<or> \<not> re_changed (applyAppend st a) \<Longrightarrow> re_state (applyAppend st a) = st"
  by (auto simp: applyAppend_def applyTaskAppend_def Let_def split: append_target.splits option.splits if_splits)

text \<open>An operation that reports no change, or a gap, leaves the state as it is.\<close>

lemma operation_unchanged:
  assumes "re_gap (applyOperation num st q) \<noteq> None \<or> \<not> re_changed (applyOperation num st q)"
  shows "re_state (applyOperation num st q) = st"
  using assms append_unchanged
  by (cases q)
    (auto simp: applyOperation_def applyReset_def applyTurnUpsert_def applyStepUpsert_def applyFrameUpsert_def
      applyItemUpsert_def applyItemsRemove_def applyTaskUpsert_def applyInteractionUpsert_def applyAttachmentUpsert_def
      applyTodoUpsert_def applyPromptUpsert_def applyMetaMerge_def Let_def split: option.splits if_splits)

lemma apply_loop_state: "fst (apply_loop num qs st ad) = fold (\<lambda>q st. after num st q) qs st"
  by (induction num qs st ad rule: apply_loop.induct)
    (auto simp: Let_def operation_unchanged split: option.splits)

lemma reach_ge: "n \<le> reach n cs"
  by (induction n cs rule: reach.induct) (auto split: if_splits)

lemma reach_le: "n \<le> N \<Longrightarrow> (\<And>p l. (p, l) \<in> set cs \<Longrightarrow> p + l \<le> N) \<Longrightarrow> reach n cs \<le> N"
proof (induction n cs rule: reach.induct)
  case (2 n p l cs)
  from 2(3) [of p l] have "p + l \<le> N" by simp
  with 2 show ?case by (intro reach.simps(2) [THEN ord_eq_le_trans] "2.IH") auto
qed simp

lemma reach_covers:
  "(\<And>i. i < length cs \<Longrightarrow> fst (cs ! i) \<le> reach n (take i cs)) \<Longrightarrow> (p, l) \<in> set cs \<Longrightarrow> p + l \<le> reach n cs"
proof (induction cs arbitrary: n)
  case (Cons c cs)
  obtain q m where c: "c = (q, m)" by (cases c)
  have q: "q \<le> n" using Cons.prems(1) [of 0] by (simp add: c)
  have rest: "fst (cs ! i) \<le> reach (max n (q + m)) (take i cs)" if "i < length cs" for i
    using Cons.prems(1) [of "Suc i"] that q by (simp add: c)
  show ?case
  proof (cases "(p, l) = c")
    case True
    then show ?thesis using q reach_ge [of "max n (q + m)" cs] by (simp add: c)
  next
    case False
    then have "p + l \<le> reach (max n (q + m)) cs" using Cons.prems(2) rest by (intro Cons.IH) auto
    then show ?thesis using q by (simp add: c)
  qed
qed simp

lemma stream_fold:
  assumes "append_place st tid sid fid = Some (t, s, f, take n T)" "n \<le> length T"
    "\<And>p l. (p, l) \<in> set cs \<Longrightarrow> p + l \<le> length T"
  shows "\<exists>t' s' f'. append_place (fold (\<lambda>q st. after num st q) (map (chunk_op (FrameTarget tid sid fid) T) cs) st) tid sid fid
      = Some (t', s', f', take (reach n cs) T)"
  using assms
proof (induction cs arbitrary: st t s f n)
  case (Cons c cs)
  obtain p l where c: "c = (p, l)" by (cases c)
  have pl: "p + l \<le> length T" using Cons.prems(3) by (simp add: c)
  obtain t' s' f' where
    "append_place (after num st (chunk_op (FrameTarget tid sid fid) T (p, l))) tid sid fid
       = Some (t', s', f', take (if p \<le> n then max n (p + l) else n) T)"
    by (rule stream_step [OF Cons.prems(1, 2) pl])
  from Cons.IH [OF this] show ?case using Cons.prems(2, 3) pl by (auto simp: c)
qed simp

text \<open>C8: the chunks of one text arrive at a frame of a transcript that holds a prefix of that text, in any order,
  repeated or with some missing: the frame then holds again a prefix, as long as \<open>reach\<close> says. When every chunk
  starts inside of what arrived before it and the last part of the text is among them, the frame holds
  the whole text.\<close>

theorem streamed_text_converges:
  assumes place: "append_place (tr_state tr) tid sid fid = Some (t, s, f, take n T)" and n: "n \<le> length T"
    and cs: "\<And>p l. (p, l) \<in> set cs \<Longrightarrow> p + l \<le> length T"
  shows "(\<exists>t' s' f'. append_place
            (tr_state (snd (snd (transcript_apply num (map (chunk_op (FrameTarget tid sid fid) T) cs) tr)))) tid sid fid
          = Some (t', s', f', take (reach n cs) T)) \<and>
      ((\<forall>i < length cs. fst (cs ! i) \<le> reach n (take i cs)) \<and> (\<exists>p l. (p, l) \<in> set cs \<and> p + l = length T)
        \<longrightarrow> take (reach n cs) T = T)"
proof
  let ?ops = "map (chunk_op (FrameTarget tid sid fid) T) cs"
  have "tr_state (snd (snd (transcript_apply num ?ops tr))) = fold (\<lambda>q st. after num st q) ?ops (tr_state tr)"
    by (simp add: transcript_apply_def case_prod_beta apply_loop_state)
  with stream_fold [OF place n cs, where num = num]
  show "\<exists>t' s' f'. append_place (tr_state (snd (snd (transcript_apply num ?ops tr)))) tid sid fid
      = Some (t', s', f', take (reach n cs) T)" by simp
  show "(\<forall>i < length cs. fst (cs ! i) \<le> reach n (take i cs)) \<and> (\<exists>p l. (p, l) \<in> set cs \<and> p + l = length T)
        \<longrightarrow> take (reach n cs) T = T"
    using reach_covers [of cs n] by force
qed

definition sample_transcript :: agent_transcript where
  "sample_transcript = snd (snd (transcript_apply sample_num
     [FrameUpsertOp (lit ''t1'') (lit ''t1.1'') sample_frame] (new_transcript (lit ''main''))))"

theorem streamed_text_converges_witness:
  "\<exists>t' s' f'. append_place
     (tr_state (snd (snd (transcript_apply sample_num
        (map (chunk_op (FrameTarget (lit ''t1'') (lit ''t1.1'') (lit ''t1.1.f1'')) (lit ''Hello''))
          [(1, 2), (4, 1), (2, 2), (0, 3), (3, 2)]) sample_transcript))))
      (lit ''t1'') (lit ''t1.1'') (lit ''t1.1.f1'') = Some (t', s', f', lit ''Hello'')"
proof -
  have "append_place (tr_state sample_transcript) (lit ''t1'') (lit ''t1.1'') (lit ''t1.1.f1'')
      = Some (the (getTurn (tr_state sample_transcript) (lit ''t1'')),
          hd (tn_steps (the (getTurn (tr_state sample_transcript) (lit ''t1'')))), sample_frame, take 3 (lit ''Hello''))"
    by code_simp
  moreover have "p + l \<le> length (lit ''Hello'')" if "(p, l) \<in> set [(1, 2), (4, 1), (2, 2), (0, 3), (3, 2)]" for p l
    using that by auto
  ultimately show ?thesis
    using streamed_text_converges [of sample_transcript "lit ''t1''" "lit ''t1.1''" "lit ''t1.1.f1''" _ _ sample_frame 3 "lit ''Hello''"
        "[(1, 2), (4, 1), (2, 2), (0, 3), (3, 2)]" sample_num]
    by (simp only: reach.simps) (simp del: lit_simps, simp)
qed

lemma accepted_prefix:
  "\<exists>xs. ad_accepted (snd (apply_loop num qs st ad)) = ad_accepted ad @ xs \<and>
     apply_loop num xs st \<lparr> ad_accepted = ys, ad_gap = None \<rparr>
       = (fst (apply_loop num qs st ad), \<lparr> ad_accepted = ys @ xs, ad_gap = None \<rparr>)"
proof (induction num qs st ad arbitrary: ys rule: apply_loop.induct)
  case (2 num q qs st ad)
  show ?case
  proof (cases "re_gap (applyOperation num st q)")
    case (Some g)
    with 2(3) [OF refl Some] show ?thesis by simp
  next
    case None
    show ?thesis
    proof (cases "re_changed (applyOperation num st q)")
      case False
      with 2(1) [OF refl None] None show ?thesis by simp
    next
      case True
      from 2(2) [OF refl None, of "ys @ [q]"] True None show ?thesis
        by (force simp: Let_def)
    qed
  qed
qed simp

text \<open>What a transcript accepts is enough to follow it: a copy that starts from the same state and applies
  only the accepted operations of a batch, which are what the listeners are handed, reaches the same
  state, accepts all of them, meets no gap and hands the same operations on.\<close>

theorem accepted_ops_replay:
  "transcript_apply num (ad_accepted (fst (transcript_apply num qs tr))) tr
     = (\<lparr> ad_accepted = ad_accepted (fst (transcript_apply num qs tr)), ad_gap = None \<rparr>,
        snd (transcript_apply num qs tr))"
proof -
  let ?ad = "\<lparr> ad_accepted = [], ad_gap = None \<rparr>"
  obtain xs where xs: "ad_accepted (snd (apply_loop num qs (tr_state tr) ?ad)) = xs"
      "apply_loop num xs (tr_state tr) ?ad
         = (fst (apply_loop num qs (tr_state tr) ?ad), \<lparr> ad_accepted = xs, ad_gap = None \<rparr>)"
    using accepted_prefix [where num = num and qs = qs and st = "tr_state tr" and ad = ?ad and ys = "[]"] by auto
  then show ?thesis by (simp add: transcript_apply_def case_prod_beta Let_def)
qed

end
