(* ===== verification/TranscriptShape.thy ===== *)
theory TranscriptShape
  imports TranscriptStream
begin

text \<open>
  The shape of the state of a transcript and that operations keep it: every item, step and frame has its
  own id, turns and steps stand in the order of their ordinals, entities are keyed by their ids, and the
  pending interactions are exactly those whose state is pending.
\<close>

section \<open>Shape\<close>

definition turns_of :: "transcript_item list \<Rightarrow> transcript_turn list" where
  "turns_of xs = concat (map (\<lambda>e. case e of TurnI t \<Rightarrow> [t] | _ \<Rightarrow> []) xs)"

definition step_ordinal :: "to_num \<Rightarrow> jstr \<Rightarrow> jstr \<Rightarrow> rat" where
  "step_ordinal num tid sid = sp_ordinal (skeletonStep num sid tid)"

definition step_ok :: "to_num \<Rightarrow> jstr \<Rightarrow> transcript_step \<Rightarrow> bool" where
  "step_ok num tid s \<longleftrightarrow> sp_ordinal s = step_ordinal num tid (sp_stepId s) \<and> distinct (map frameIdOf (sp_frames s))"

definition turn_ok :: "to_num \<Rightarrow> transcript_turn \<Rightarrow> bool" where
  "turn_ok num t \<longleftrightarrow>
     tn_ordinal t = turnOrdinal num (tn_turnId t) \<and> distinct (map sp_stepId (tn_steps t)) \<and>
     sorted (map sp_ordinal (tn_steps t)) \<and> list_all (step_ok num (tn_turnId t)) (tn_steps t)"

definition timeline_ok :: "to_num \<Rightarrow> transcript_item list \<Rightarrow> bool" where
  "timeline_ok num xs \<longleftrightarrow>
     distinct (map itemIdOf xs) \<and> sorted (map tn_ordinal (turns_of xs)) \<and> list_all (turn_ok num) (turns_of xs)"

definition keyed_by :: "('v \<Rightarrow> 'k) \<Rightarrow> ('k, 'v) jmap \<Rightarrow> bool" where
  "keyed_by key m \<longleftrightarrow> jmap_ok m \<and> list_all (\<lambda>(k, v). k = key v) m"

definition pending_ok :: "agent_state \<Rightarrow> bool" where
  "pending_ok st \<longleftrightarrow> distinct (ag_pending st) \<and>
     set (ag_pending st) = fst ` set (filter (\<lambda>(k, i). ia_state i = IPending) (ag_interactions st))"

definition agent_ok :: "to_num \<Rightarrow> agent_state \<Rightarrow> bool" where
  "agent_ok num st \<longleftrightarrow>
     timeline_ok num (ag_items st) \<and> keyed_by tk_taskId (ag_tasks st) \<and>
     keyed_by ia_interactionId (ag_interactions st) \<and> keyed_by ac_attachmentId (ag_attachments st) \<and>
     keyed_by td_todoId (ag_todos st) \<and> keyed_by pr_promptId (ag_prompts st) \<and> pending_ok st"

text \<open>
  What the producer of operations keeps to: ids are natural keys, so the ordinal of a turn or step is the one
  its id names, and no marker or task reference has the id of a turn.
\<close>

definition id_free :: "(transcript_item \<Rightarrow> bool) \<Rightarrow> agent_state \<Rightarrow> jstr \<Rightarrow> bool" where
  "id_free other st i \<longleftrightarrow> list_all (\<lambda>e. other e \<longrightarrow> itemIdOf e \<noteq> i) (ag_items st)"

definition op_ok :: "to_num \<Rightarrow> agent_state \<Rightarrow> transcript_operation \<Rightarrow> bool" where
  "op_ok num st q =
     (case q of
        ResetOp sn \<Rightarrow> timeline_ok num (sn_items sn) \<and> distinct (map ia_interactionId (sn_interactions sn))
      | TurnUpsertOp h \<Rightarrow>
          tn_ordinal h = turnOrdinal num (tn_turnId h) \<and> id_free (\<lambda>e. \<not> is_turn e) st (tn_turnId h)
      | StepUpsertOp tid h \<Rightarrow>
          sp_ordinal h = step_ordinal num tid (sp_stepId h) \<and> id_free (\<lambda>e. \<not> is_turn e) st tid
      | FrameUpsertOp tid sid f \<Rightarrow> id_free (\<lambda>e. \<not> is_turn e) st tid
      | MarkerUpsertOp m b \<Rightarrow> id_free is_turn st (mk_markerId m)
      | TaskRefUpsertOp r b \<Rightarrow> id_free is_turn st (rf_refId r)
      | _ \<Rightarrow> True)"

fun ops_ok :: "to_num \<Rightarrow> agent_state \<Rightarrow> transcript_operation list \<Rightarrow> bool" where
  "ops_ok num st [] = True"
| "ops_ok num st (q # qs) = (op_ok num st q \<and> ops_ok num (after num st q) qs)"

section \<open>The timeline\<close>

lemma is_turn_simps [simp]: "is_turn (TurnI t)" "\<not> is_turn (MarkerI m)" "\<not> is_turn (TaskRefI r)"
  by (simp_all add: is_turn_def)

lemma turns_of_simps [simp]:
  "turns_of [] = []" "turns_of (TurnI t # xs) = t # turns_of xs" "turns_of (MarkerI m # xs) = turns_of xs"
  "turns_of (TaskRefI r # xs) = turns_of xs" "turns_of (xs @ ys) = turns_of xs @ turns_of ys"
  by (simp_all add: turns_of_def)

lemma turns_of_Cons: "turns_of (e # xs) = turns_of [e] @ turns_of xs"
  by (cases e) simp_all

lemma mem_turns_of: "t \<in> set (turns_of xs) \<longleftrightarrow> TurnI t \<in> set xs"
  by (auto simp: turns_of_def split: transcript_item.splits)

lemma turns_of_single: "\<not> is_turn e \<Longrightarrow> turns_of [e] = []"
  by (cases e) simp_all

lemma timeline_ok_turn: "timeline_ok num xs \<Longrightarrow> find_turn tid xs = Some t \<Longrightarrow> turn_ok num t \<and> tn_turnId t = tid"
  by (auto simp: timeline_ok_def list_all_iff mem_turns_of dest: find_turn_mem find_turn_id)

lemma insert_before_ex:
  "\<exists>us vs. xs = us @ vs \<and> insert_before P x xs = us @ x # vs \<and> (\<forall>y\<in>set us. \<not> P y) \<and> (vs = [] \<or> P (hd vs))"
  by (rule insert_before_split [of xs P x]) blast

lemma turns_sorted_insert:
  assumes "sorted (map tn_ordinal (turns_of xs))"
  shows "sorted (map tn_ordinal (turns_of (insertTurn xs t)))"
proof -
  let ?P = "turn_ordinals (\<lambda>n. n > tn_ordinal t)"
  obtain us vs where s: "xs = us @ vs" "insert_before ?P (TurnI t) xs = us @ TurnI t # vs"
      "\<forall>y\<in>set us. \<not> ?P y" "vs = [] \<or> ?P (hd vs)"
    using insert_before_ex [of xs ?P "TurnI t"] by (elim exE conjE)
  have ins: "insertTurn xs t = us @ TurnI t # vs" by (simp only: insertTurn_def s(2))
  have "tn_ordinal u \<le> tn_ordinal t" if "u \<in> set (turns_of us)" for u
    using s(3) that by (force simp: mem_turns_of turn_ordinals_def)
  moreover have "tn_ordinal t \<le> tn_ordinal v" if v: "v \<in> set (turns_of vs)" for v
  proof (cases vs)
    case (Cons e es)
    then obtain u where e: "e = TurnI u" "tn_ordinal u > tn_ordinal t"
      using s(4) by (cases e) (auto simp: turn_ordinals_def)
    with assms v show ?thesis by (auto simp: s(1) Cons sorted_append)
  qed (use v in simp)
  ultimately show ?thesis using assms by (simp add: ins) (auto simp: s(1) sorted_append)
qed

lemma distinct_insert_before: "distinct (map f (insert_before P x xs)) \<longleftrightarrow> f x \<notin> f ` set xs \<and> distinct (map f xs)"
proof -
  obtain us vs where s: "xs = us @ vs" "insert_before P x xs = us @ x # vs" by (rule insert_before_split)
  show ?thesis by (simp add: s(2)) (auto simp: s(1))
qed

lemma timeline_insert:
  assumes "timeline_ok num xs" "turn_ok num t" "\<And>e. e \<in> set xs \<Longrightarrow> itemIdOf e \<noteq> tn_turnId t"
  shows "timeline_ok num (insertTurn xs t)"
proof -
  have "set (turns_of (insertTurn xs t)) = insert t (set (turns_of xs))"
    by (auto simp: mem_turns_of insertTurn_def)
  moreover have "tn_turnId t \<notin> itemIdOf ` set xs" using assms(3) by (metis imageE)
  then have "distinct (map itemIdOf (insertTurn xs t))"
    using assms(1) by (simp add: insertTurn_def distinct_insert_before timeline_ok_def)
  ultimately show ?thesis using assms(1, 2) by (simp add: timeline_ok_def turns_sorted_insert list_all_iff)
qed

lemma replace_ids: "(\<And>t. tn_turnId t = tid \<Longrightarrow> tn_turnId (f t) = tid) \<Longrightarrow> map itemIdOf (replaceTurn xs tid f) = map itemIdOf xs"
  by (auto simp: replaceTurn_def split: transcript_item.splits)

lemma replace_turns: "turns_of (replaceTurn xs tid f) = map (\<lambda>t. if tn_turnId t = tid then f t else t) (turns_of xs)"
  by (induction xs) (auto simp: replaceTurn_def turns_of_def split: transcript_item.splits)

lemma timeline_replace:
  assumes ok: "timeline_ok num xs"
    and f: "\<And>t. TurnI t \<in> set xs \<Longrightarrow> tn_turnId t = tid \<Longrightarrow> turn_ok num (f t)"
      "\<And>t. tn_turnId t = tid \<Longrightarrow> tn_turnId (f t) = tid"
  shows "timeline_ok num (replaceTurn xs tid f)"
proof -
  have "map tn_ordinal (turns_of (replaceTurn xs tid f)) = map tn_ordinal (turns_of xs)"
    using ok f by (auto simp: replace_turns timeline_ok_def list_all_iff mem_turns_of turn_ok_def)
  moreover have "list_all (turn_ok num) (turns_of (replaceTurn xs tid f))"
    using ok f by (auto simp: replace_turns timeline_ok_def list_all_iff mem_turns_of)
  ultimately show ?thesis using ok f(2) by (simp add: timeline_ok_def replace_ids)
qed

lemma id_free_turn:
  assumes "id_free (\<lambda>e. \<not> is_turn e) st tid" "getTurn st tid = None" "e \<in> set (ag_items st)"
  shows "itemIdOf e \<noteq> tid"
  using assms by (cases e) (auto simp: id_free_def list_all_iff getTurn_def find_turn_None)

lemma timeline_put:
  assumes "timeline_ok num (ag_items st)" "turn_ok num t" "tn_turnId t = tid" "id_free (\<lambda>e. \<not> is_turn e) st tid"
  shows "timeline_ok num (ag_items (put_turn st tid t))"
proof (cases "getTurn st tid")
  case None
  then show ?thesis using assms id_free_turn [OF assms(4) None] by (simp add: put_turn_def timeline_insert)
next
  case (Some u)
  then show ?thesis using assms by (simp add: put_turn_def timeline_replace)
qed

lemma turn_or_skeleton_ok: "timeline_ok num (ag_items st) \<Longrightarrow> turn_ok num (turn_or_skeleton num st tid)"
  by (auto simp: turn_or_skeleton_def getTurn_def dest: timeline_ok_turn split: option.splits)
    (simp add: skeletonTurn_def turn_ok_def)

lemma map_if_ids: "(\<And>y. k y = i \<Longrightarrow> k (f y) = i) \<Longrightarrow> map k (map (\<lambda>y. if k y = i then f y else y) xs) = map k xs"
  by simp

lemma sort_key_ids: "distinct (map k (sort_key g xs)) \<longleftrightarrow> distinct (map k xs)"
  by (rule mset_eq_imp_distinct_iff) simp

lemma steps_insert_ok:
  assumes "turn_ok num t" "find_step (sp_stepId s) (tn_steps t) = None" "step_ok num (tn_turnId t) s"
  shows "turn_ok num (t\<lparr> tn_steps := sort_key sp_ordinal (tn_steps t @ [s]) \<rparr>)"
proof -
  have "distinct (map sp_stepId (sort_key sp_ordinal (tn_steps t @ [s])))"
    unfolding sort_key_ids using assms by (auto simp: turn_ok_def find_step_None)
  with assms show ?thesis by (auto simp: turn_ok_def list_all_iff)
qed

lemma steps_map_ok:
  assumes "turn_ok num t"
    and f: "\<And>s. s \<in> set (tn_steps t) \<Longrightarrow> sp_stepId s = sid \<Longrightarrow> sp_stepId (f s) = sid \<and> step_ok num (tn_turnId t) (f s)"
  shows "turn_ok num (t\<lparr> tn_steps := map (\<lambda>s. if sp_stepId s = sid then f s else s) (tn_steps t) \<rparr>)"
proof -
  let ?ss = "map (\<lambda>s. if sp_stepId s = sid then f s else s) (tn_steps t)"
  have "map sp_stepId ?ss = map sp_stepId (tn_steps t)" using f by auto
  moreover have "map sp_ordinal ?ss = map sp_ordinal (tn_steps t)"
    using assms by (auto simp: turn_ok_def step_ok_def list_all_iff)
  ultimately show ?thesis using assms by (auto simp: turn_ok_def list_all_iff simp del: map_map)
qed

section \<open>Each operation\<close>

lemma turn_upsert_ok:
  assumes "timeline_ok num (ag_items st)" "op_ok num st (TurnUpsertOp h)"
  shows "timeline_ok num (ag_items (re_state (applyTurnUpsert st h)))"
proof -
  have h: "turn_ok num (turnHeaderToTurn h ss)" if "turn_ok num t" "tn_steps t = ss" "tn_turnId t = tn_turnId h" for ss t
    using that assms(2) by (simp add: turn_ok_def op_ok_def)
  have h0: "turn_ok num (turnHeaderToTurn h [])" using assms(2) by (simp add: turn_ok_def op_ok_def)
  show ?thesis
  proof (cases "getTurn st (tn_turnId h)")
    case None
    with assms h0 id_free_turn [of st "tn_turnId h"] show ?thesis
      by (simp add: applyTurnUpsert_def op_ok_def timeline_insert)
  next
    case (Some t)
    have "timeline_ok num (replaceTurn (ag_items st) (tn_turnId h) (\<lambda>turn. turnHeaderToTurn h (tn_steps turn)))"
    proof (rule timeline_replace [OF assms(1)])
      fix t assume "TurnI t \<in> set (ag_items st)" "tn_turnId t = tn_turnId h"
      then show "turn_ok num (turnHeaderToTurn h (tn_steps t))"
        using assms(1) by (intro h [of t]) (auto simp: timeline_ok_def list_all_iff mem_turns_of)
    qed simp
    with Some assms(1) show ?thesis by (simp add: applyTurnUpsert_def)
  qed
qed

lemma step_upsert_ok:
  assumes "timeline_ok num (ag_items st)" "op_ok num st (StepUpsertOp tid h)"
  shows "timeline_ok num (ag_items (re_state (applyStepUpsert num st tid h)))"
proof -
  let ?t = "turn_or_skeleton num st tid"
  have t: "turn_ok num ?t" using assms(1) by (rule turn_or_skeleton_ok)
  have free: "id_free (\<lambda>e. \<not> is_turn e) st tid" and ord: "sp_ordinal h = step_ordinal num tid (sp_stepId h)"
    using assms(2) by (simp_all add: op_ok_def)
  show ?thesis
  proof (cases "find_step (sp_stepId h) (tn_steps ?t)")
    case None
    have "turn_ok num (?t\<lparr> tn_steps := sort_key sp_ordinal (tn_steps ?t @ [stepHeaderToStep h []]) \<rparr>)"
      using None t ord by (intro steps_insert_ok) (simp_all add: step_ok_def)
    then show ?thesis using None assms(1) free by (simp add: applyStepUpsert_def Let_def timeline_put)
  next
    case (Some s)
    have "turn_ok num (?t\<lparr> tn_steps :=
        map (\<lambda>s. if sp_stepId s = sp_stepId h then stepHeaderToStep h (sp_frames s) else s) (tn_steps ?t) \<rparr>)"
      using t ord by (intro steps_map_ok) (auto simp: step_ok_def turn_ok_def list_all_iff)
    then show ?thesis using Some assms(1) free by (simp add: applyStepUpsert_def Let_def timeline_put)
  qed
qed

lemma upsert_frame_ok: "distinct (map frameIdOf fs) \<Longrightarrow> distinct (map frameIdOf (upsert_frame f fs))"
proof (cases "find_frame (frameIdOf f) fs")
  case None
  then have "frameIdOf f \<notin> frameIdOf ` set fs" by (auto simp: find_frame_None)
  then show "distinct (map frameIdOf fs) \<Longrightarrow> ?thesis" by (simp add: upsert_frame_def None)
next
  case (Some g)
  have "map frameIdOf (map (\<lambda>g. if frameIdOf g = frameIdOf f then f else g) fs) = map frameIdOf fs" by simp
  with Some show "distinct (map frameIdOf fs) \<Longrightarrow> ?thesis" by (simp only: upsert_frame_def option.case)
qed

lemma upsert_step_ok:
  assumes "turn_ok num t" "step_ok num (tn_turnId t) s"
  shows "turn_ok num (t\<lparr> tn_steps := upsert_step s (tn_steps t) \<rparr>)"
proof (cases "\<exists>e\<in>set (tn_steps t). sp_stepId e = sp_stepId s")
  case True
  with steps_map_ok [OF assms(1), of "sp_stepId s" "\<lambda>e. s"] assms(2) show ?thesis by (simp add: upsert_step_def)
next
  case False
  then have "find_step (sp_stepId s) (tn_steps t) = None" by (simp add: find_step_None)
  with steps_insert_ok [OF assms(1) _ assms(2)] False show ?thesis by (simp add: upsert_step_def)
qed

lemma if_P: "P a \<Longrightarrow> P b \<Longrightarrow> P (if c then a else b)"
  by simp

lemma frame_upsert_ok:
  assumes "timeline_ok num (ag_items st)" "op_ok num st (FrameUpsertOp tid sid f)"
  shows "timeline_ok num (ag_items (re_state (applyFrameUpsert num st tid sid f)))"
proof -
  let ?t = "turn_or_skeleton num st tid"
  let ?s = "case find_step sid (tn_steps ?t) of Some s \<Rightarrow> s | None \<Rightarrow> skeletonStep num sid tid"
  have t: "turn_ok num ?t" using assms(1) by (rule turn_or_skeleton_ok)
  have "step_ok num tid ?s"
    using t by (auto simp: turn_ok_def list_all_iff step_ok_def step_ordinal_def dest!: find_step_id split: option.splits)
      (simp_all add: skeletonStep_def)
  then have "step_ok num tid (?s\<lparr> sp_frames := upsert_frame f (sp_frames ?s) \<rparr>)"
    by (simp add: step_ok_def upsert_frame_ok)
  then have "turn_ok num (?t\<lparr> tn_steps := upsert_step (?s\<lparr> sp_frames := upsert_frame f (sp_frames ?s) \<rparr>) (tn_steps ?t) \<rparr>)"
    using t by (intro upsert_step_ok) simp_all
  then have put: "timeline_ok num (ag_items (put_turn st tid
      (?t\<lparr> tn_steps := upsert_step (?s\<lparr> sp_frames := upsert_frame f (sp_frames ?s) \<rparr>) (tn_steps ?t) \<rparr>)))"
    using assms by (intro timeline_put) (simp_all add: op_ok_def)
  show ?thesis
    unfolding applyFrameUpsert_def Let_def if_distrib [of re_state] result_simps
    using assms(1) put by (rule if_P [where P = "\<lambda>x. timeline_ok num (ag_items x)"])
qed

lemma with_text_ids: "\<forall>g\<in>set fs. frameIdOf g = fid \<longrightarrow> frameIdOf (h g) = fid \<Longrightarrow>
    map frameIdOf (map (\<lambda>e. if frameIdOf e = fid then h e else e) fs) = map frameIdOf fs"
  by auto

lemma applyAppend_ok:
  assumes "timeline_ok num (ag_items st)"
  shows "timeline_ok num (ag_items (re_state (applyAppend st a)))"
proof (cases "ao_target a")
  case (TaskTarget k)
  then show ?thesis
    using assms by (auto simp: applyAppend_def applyTaskAppend_def Let_def split: option.splits)
next
  case (FrameTarget tid sid fid)
  show ?thesis
  proof (cases "append_place st tid sid fid")
    case None
    with FrameTarget assms show ?thesis by (simp add: applyAppend_def)
  next
    case (Some place)
    obtain t s f x where place: "place = (t, s, f, x)" by (cases place)
    have p: "getTurn st tid = Some t" "find_step sid (tn_steps t) = Some s" "find_frame fid (sp_frames s) = Some f"
      using Some by (auto simp: place append_place_def split: option.splits)
    have t: "turn_ok num t" "tn_turnId t = tid" using p(1) assms timeline_ok_turn by (auto simp: getTurn_def)
    have s: "step_ok num tid s" "sp_stepId s = sid"
      using t p(2) find_step_id [OF p(2)] by (auto simp: turn_ok_def list_all_iff)
    have f: "frameIdOf f = fid" using find_frame_id [OF p(3)] by simp
    have ids: "map frameIdOf (map (\<lambda>e. if frameIdOf e = fid then with_text y f else e) (sp_frames s)) = map frameIdOf (sp_frames s)" for y
      by (rule with_text_ids) (simp add: f)
    have "turn_ok num (t\<lparr> tn_steps := map (\<lambda>e. if sp_stepId e = sid
        then s\<lparr> sp_frames := map (\<lambda>e. if frameIdOf e = fid then with_text y f else e) (sp_frames s) \<rparr> else e) (tn_steps t) \<rparr>)"
      for y using t s by (intro steps_map_ok) (simp_all add: step_ok_def ids del: map_map)
    then have "timeline_ok num (replaceTurn (ag_items st) tid (\<lambda>u. t\<lparr> tn_steps := map (\<lambda>e. if sp_stepId e = sid
        then s\<lparr> sp_frames := map (\<lambda>e. if frameIdOf e = fid then with_text y f else e) (sp_frames s) \<rparr> else e) (tn_steps t) \<rparr>))"
      for y using assms t(2) by (intro timeline_replace) simp_all
    with FrameTarget Some assms show ?thesis
      by (auto simp: applyAppend_def place Let_def split: option.splits)
  qed
qed

lemma timeline_other:
  assumes "timeline_ok num xs" "map itemIdOf ys = map itemIdOf xs" "turns_of ys = turns_of xs"
  shows "timeline_ok num ys"
  using assms by (simp add: timeline_ok_def)

lemma turns_of_insert_before: "\<not> is_turn x \<Longrightarrow> turns_of (insert_before P x xs) = turns_of xs"
proof -
  assume x: "\<not> is_turn x"
  obtain us vs where s: "xs = us @ vs" "insert_before P x xs = us @ x # vs" by (rule insert_before_split)
  have "turns_of (x # vs) = turns_of vs" using x turns_of_Cons [of x vs] by (simp add: turns_of_single)
  then show ?thesis by (simp add: s(2)) (simp add: s(1))
qed

lemma turns_of_map:
  "(\<And>e. e \<in> set xs \<Longrightarrow> if is_turn e then g e = e else \<not> is_turn (g e)) \<Longrightarrow> turns_of (map g xs) = turns_of xs"
proof (induction xs)
  case (Cons e xs)
  have "turns_of [g e] = turns_of [e]"
    using Cons.prems [of e] by (cases "is_turn e") (simp_all add: turns_of_single)
  then show ?case using Cons turns_of_Cons [of e xs] turns_of_Cons [of "g e" "map g xs"] by simp
qed simp

lemma item_upsert_ok:
  assumes ok: "timeline_ok num (ag_items st)" and free: "id_free is_turn st i" and x: "\<not> is_turn x" "itemIdOf x = i"
  shows "timeline_ok num (ag_items (re_state (applyItemUpsert st x i b)))"
proof (cases "\<exists>e\<in>set (ag_items st). itemIdOf e = i")
  case True
  let ?g = "\<lambda>e. if itemIdOf e \<noteq> i \<or> same_item e x then e else x"
  have "timeline_ok num (map ?g (ag_items st))"
  proof (rule timeline_other [OF ok])
    show "map itemIdOf (map ?g (ag_items st)) = map itemIdOf (ag_items st)" using x by auto
    show "turns_of (map ?g (ag_items st)) = turns_of (ag_items st)"
      using free x by (intro turns_of_map) (auto simp: id_free_def list_all_iff)
  qed
  with True ok show ?thesis by (auto simp: applyItemUpsert_def)
next
  case False
  have "timeline_ok num (insert_before P x (ag_items st))" for P
    using ok x False by (auto simp: timeline_ok_def distinct_insert_before turns_of_insert_before)
  moreover have "timeline_ok num (ag_items st @ [x])"
    using ok x False by (auto simp: timeline_ok_def turns_of_single)
  ultimately show ?thesis using False by (auto simp: applyItemUpsert_def split: option.splits)
qed

lemma turns_of_filter: "\<exists>P. turns_of (filter Q xs) = filter P (turns_of xs)"
proof
  show "turns_of (filter Q xs) = filter (\<lambda>t. Q (TurnI t)) (turns_of xs)"
    by (induction xs) (auto simp: turns_of_def split: transcript_item.splits)
qed

lemma timeline_filter:
  assumes "timeline_ok num xs"
  shows "timeline_ok num (filter Q xs)"
proof -
  obtain P where "turns_of (filter Q xs) = filter P (turns_of xs)" using turns_of_filter by blast
  with assms show ?thesis by (auto simp: timeline_ok_def distinct_map_filter sorted_filter list_all_iff)
qed

section \<open>Entities\<close>

lemma keyed_set [simp]: "keyed_by key m \<Longrightarrow> keyed_by key (jset (key x) x m)"
proof -
  assume m: "keyed_by key m"
  have "k = key v" if "(k, v) \<in> set (jset (key x) x m)" for k v
    using that m by (auto simp: keyed_by_def list_all_iff jget_mem split: if_splits)
  with m show ?thesis by (auto simp: keyed_by_def list_all_iff)
qed

lemma set_jdel: "set (jdel k m) = {(j, v). (j, v) \<in> set m \<and> j \<noteq> k}"
  by (induction m) auto

lemma keyed_del [simp]: "keyed_by key m \<Longrightarrow> keyed_by key (jdel k m)"
  by (auto simp: keyed_by_def list_all_iff set_jdel)

lemma keyed_dels [simp]: "keyed_by key m \<Longrightarrow> keyed_by key (fold jdel ks m)"
  by (induction ks arbitrary: m) simp_all

lemma keyed_map_by [simp]: "keyed_by key (map_by key xs)"
proof -
  have "keyed_by key m \<Longrightarrow> keyed_by key (fold (\<lambda>x. jset (key x) x) xs m)" for m
    by (induction xs arbitrary: m) simp_all
  then show ?thesis by (simp add: map_by_def keyed_by_def)
qed

lemma keyed_tail: "keyed_by tk_taskId m \<Longrightarrow> jget m k = Some t \<Longrightarrow> keyed_by tk_taskId (jset k (t\<lparr> tk_outputTail := x \<rparr>) m)"
proof -
  assume "keyed_by tk_taskId m" "jget m k = Some t"
  moreover from this have "k = tk_taskId (t\<lparr> tk_outputTail := x \<rparr>)"
    by (auto simp: keyed_by_def list_all_iff dest!: map_of_SomeD)
  ultimately show ?thesis by (metis keyed_set)
qed

lemma task_applyAppend_ok:
  assumes "keyed_by tk_taskId (ag_tasks st)"
  shows "keyed_by tk_taskId (ag_tasks (re_state (applyAppend st a)))"
proof (cases "ao_target a")
  case (TaskTarget k)
  show ?thesis
  proof (cases "jget (ag_tasks st) k")
    case None
    have "keyed_by tk_taskId (jset k t (ag_tasks st))" if "tk_taskId t = k" for t
      using keyed_set [OF assms, of t] that by simp
    with None TaskTarget assms show ?thesis
      by (auto simp: applyAppend_def applyTaskAppend_def Let_def split: option.splits)
  next
    case (Some t)
    with TaskTarget assms show ?thesis
      by (auto simp: applyAppend_def applyTaskAppend_def Let_def keyed_tail split: option.splits)
  qed
next
  case (FrameTarget t s f)
  with assms show ?thesis by (auto simp: applyAppend_def Let_def split: option.splits)
qed

section \<open>Pending interactions\<close>

lemma pending_iff:
  assumes "jmap_ok (ag_interactions st)"
  shows "pending_ok st \<longleftrightarrow> distinct (ag_pending st) \<and>
    (\<forall>k. k \<in> set (ag_pending st) \<longleftrightarrow> (\<exists>i. jget (ag_interactions st) k = Some i \<and> ia_state i = IPending))"
proof -
  have "k \<in> fst ` set (filter (\<lambda>(k, i). ia_state i = IPending) (ag_interactions st))
      \<longleftrightarrow> (\<exists>i. jget (ag_interactions st) k = Some i \<and> ia_state i = IPending)" for k
    using assms by (force simp: jget_mem [symmetric])
  then show ?thesis by (auto simp: pending_ok_def set_eq_iff)
qed

lemma pending_upsert:
  assumes "keyed_by ia_interactionId (ag_interactions st)" "pending_ok st"
  shows "pending_ok (re_state (applyInteractionUpsert st x))"
proof -
  have ok: "jmap_ok (ag_interactions st)" using assms(1) by (simp add: keyed_by_def)
  show ?thesis
    using assms(2) ok by (auto simp: applyInteractionUpsert_def pending_iff)
qed

lemma jget_dels: "jget (fold jdel ks m) k = (if k \<in> set ks then None else jget m k)"
  by (induction ks arbitrary: m) auto

lemma dels_ok [simp]: "jmap_ok m \<Longrightarrow> jmap_ok (fold jdel ks m)"
  by (induction ks arbitrary: m) simp_all

lemma set_dels [simp]: "set (fold set_del ks xs) = set xs - set ks" "distinct xs \<Longrightarrow> distinct (fold set_del ks xs)"
  by (induction ks arbitrary: xs) auto

lemma pending_remove:
  assumes "keyed_by ia_interactionId (ag_interactions st)" "pending_ok st"
  shows "pending_ok (re_state (applyItemsRemove st ids))"
proof -
  have ok: "jmap_ok (ag_interactions st)" using assms(1) by (simp add: keyed_by_def)
  show ?thesis
    using assms(2) ok by (auto simp: applyItemsRemove_def Let_def pending_iff jget_dels)
qed

lemma set_pending_of: "set (pending_of xs) = {ia_interactionId i |i. i \<in> set xs \<and> ia_state i = IPending}"
  and distinct_pending_of: "distinct (pending_of xs)"
proof -
  let ?f = "\<lambda>i p. if ia_state i = IPending then set_add (ia_interactionId i) p else p"
  have "set (fold ?f xs p) = set p \<union> {ia_interactionId i |i. i \<in> set xs \<and> ia_state i = IPending}" for p
    by (induction xs arbitrary: p) auto
  then show "set (pending_of xs) = {ia_interactionId i |i. i \<in> set xs \<and> ia_state i = IPending}"
    by (simp add: pending_of_def)
  have "distinct p \<Longrightarrow> distinct (fold ?f xs p)" for p
    by (induction xs arbitrary: p) auto
  then show "distinct (pending_of xs)" by (simp add: pending_of_def)
qed

lemma map_by_distinct: "distinct (map key xs) \<Longrightarrow> map_by key xs = map (\<lambda>x. (key x, x)) xs"
proof -
  have "distinct (map fst m @ map key xs) \<Longrightarrow> fold (\<lambda>x m. jset (key x) x m) xs m = m @ map (\<lambda>x. (key x, x)) xs" for m
    by (induction xs arbitrary: m) (auto simp: jset_absent)
  from this [of "[]"] show "distinct (map key xs) \<Longrightarrow> ?thesis" by (simp add: map_by_def)
qed

lemma pending_reset:
  assumes "distinct (map ia_interactionId (sn_interactions sn))"
  shows "pending_ok (re_state (applyReset sn))"
  using assms by (auto simp: pending_ok_def applyReset_def map_by_distinct set_pending_of distinct_pending_of image_iff)

section \<open>Every operation\<close>

lemma agent_ok_operation:
  assumes ok: "agent_ok num st" and q: "op_ok num st q"
  shows "agent_ok num (after num st q)"
proof -
  note defs = agent_ok_def applyOperation_def
  have tl: "timeline_ok num (ag_items st)" and ia: "keyed_by ia_interactionId (ag_interactions st)" and pe: "pending_ok st"
    using ok by (simp_all add: agent_ok_def)
  have pe': "pending_ok st'" if "ag_pending st' = ag_pending st" "ag_interactions st' = ag_interactions st" for st'
    using pe that by (simp add: pending_ok_def)
  show ?thesis
  proof (cases q)
    case (ResetOp sn)
    then show ?thesis using q pending_reset by (simp add: defs op_ok_def) (simp add: applyReset_def)
  next
    case (TurnUpsertOp h)
    have "\<exists>xs. re_state (applyTurnUpsert st h) = st\<lparr> ag_items := xs \<rparr> \<or> re_state (applyTurnUpsert st h) = st"
      by (auto simp: applyTurnUpsert_def split: option.splits)
    then show ?thesis using TurnUpsertOp ok turn_upsert_ok [OF tl, of h] q pe'
      by (auto simp: defs)
  next
    case (StepUpsertOp tid h)
    have "\<exists>xs. re_state (applyStepUpsert num st tid h) = st\<lparr> ag_items := xs \<rparr> \<or> re_state (applyStepUpsert num st tid h) = st"
      by (auto simp: applyStepUpsert_def Let_def put_turn_def split: option.splits)
    then show ?thesis using StepUpsertOp ok step_upsert_ok [OF tl, of tid h] q pe' by (auto simp: defs)
  next
    case (FrameUpsertOp tid sid f)
    have "\<exists>xs. re_state (applyFrameUpsert num st tid sid f) = st\<lparr> ag_items := xs \<rparr> \<or> re_state (applyFrameUpsert num st tid sid f) = st"
      by (auto simp: applyFrameUpsert_def Let_def put_turn_def)
    then show ?thesis using FrameUpsertOp ok frame_upsert_ok [OF tl, of tid sid f] q pe' by (auto simp: defs)
  next
    case (AppendOp a)
    have "ag_interactions (re_state (applyAppend st a)) = ag_interactions st \<and> ag_pending (re_state (applyAppend st a)) = ag_pending st \<and>
        ag_attachments (re_state (applyAppend st a)) = ag_attachments st \<and> ag_todos (re_state (applyAppend st a)) = ag_todos st \<and>
        ag_prompts (re_state (applyAppend st a)) = ag_prompts st"
      by (auto simp: applyAppend_def applyTaskAppend_def Let_def split: append_target.splits option.splits)
    then show ?thesis using AppendOp ok applyAppend_ok [OF tl] task_applyAppend_ok pe' by (simp add: defs)
  next
    case (MarkerUpsertOp m b)
    have "\<exists>xs. re_state (applyItemUpsert st x i b) = st\<lparr> ag_items := xs \<rparr> \<or> re_state (applyItemUpsert st x i b) = st" for x i
      by (auto simp: applyItemUpsert_def split: option.splits)
    from this [of "MarkerI m" "mk_markerId m"] show ?thesis
      using MarkerUpsertOp ok item_upsert_ok [OF tl, of "mk_markerId m" "MarkerI m" b] q pe' by (auto simp: defs op_ok_def)
  next
    case (TaskRefUpsertOp r b)
    have "\<exists>xs. re_state (applyItemUpsert st x i b) = st\<lparr> ag_items := xs \<rparr> \<or> re_state (applyItemUpsert st x i b) = st" for x i
      by (auto simp: applyItemUpsert_def split: option.splits)
    from this [of "TaskRefI r" "rf_refId r"] show ?thesis
      using TaskRefUpsertOp ok item_upsert_ok [OF tl, of "rf_refId r" "TaskRefI r" b] q pe' by (auto simp: defs op_ok_def)
  next
    case (InteractionUpsertOp x)
    then show ?thesis using ok pending_upsert [OF ia pe, of x] by (auto simp: defs applyInteractionUpsert_def)
  next
    case (ItemsRemoveOp ids)
    have "timeline_ok num (ag_items (re_state (applyItemsRemove st ids)))"
      using tl by (simp add: applyItemsRemove_def Let_def timeline_filter)
    then show ?thesis using ItemsRemoveOp ok pending_remove [OF ia pe, of ids] by (auto simp: defs applyItemsRemove_def Let_def)
  qed (use ok pe' in \<open>auto simp: defs applyTaskUpsert_def applyAttachmentUpsert_def applyTodoUpsert_def applyPromptUpsert_def
      applyMetaMerge_def Let_def\<close>)
qed

lemma agent_ok_fold: "agent_ok num st \<Longrightarrow> ops_ok num st qs \<Longrightarrow> agent_ok num (fold (\<lambda>q st. after num st q) qs st)"
  by (induction qs arbitrary: st) (simp_all add: agent_ok_operation)

text \<open>C6: whatever operations a transcript receives, as long as ids are natural keys (the ordinal of a turn or step is
  the one its id names, markers do not take the ids of turns, a snapshot is in shape itself), its state keeps
  its shape: every item, step and frame occurs once, turns and the steps of a turn stand in the order of their
  ordinals, every entity is found under its own id, and the pending interactions are exactly the interactions whose
  state is pending, also after turns were removed with the interactions anchored in them.\<close>

theorem transcript_keeps_shape:
  assumes "agent_ok num (tr_state tr)" "ops_ok num (tr_state tr) qs"
  shows "agent_ok num (tr_state (snd (snd (transcript_apply num qs tr))))"
  using agent_ok_fold [OF assms] by (simp add: transcript_apply_def case_prod_beta apply_loop_state)

theorem transcript_keeps_shape_witness:
  "agent_ok sample_num (tr_state sample_transcript)"
proof -
  have "agent_ok sample_num (tr_state (new_transcript (lit ''main'')))"
    by (simp add: new_transcript_def EMPTY_AGENT_STATE_def agent_ok_def timeline_ok_def keyed_by_def pending_ok_def)
  moreover have "ops_ok sample_num (tr_state (new_transcript (lit ''main'')))
      [FrameUpsertOp (lit ''t1'') (lit ''t1.1'') sample_frame]"
    by (simp add: new_transcript_def EMPTY_AGENT_STATE_def op_ok_def id_free_def)
  ultimately show ?thesis unfolding sample_transcript_def by (rule transcript_keeps_shape)
qed

end
