(* ===== verification/TranscriptPages.thy ===== *)
theory TranscriptPages
  imports TranscriptShape
begin

text \<open>
  Pages of a timeline (\<open>packages/transcript/src/pagination/paginate.ts\<close>) and windowed snapshots
  (\<open>store/agentTranscript.ts\<close>): paging back from the newest page visits every item once, and a snapshot
  window is the newest page.
\<close>

section \<open>The code\<close>

record turn_page_query =
  pq_beforeTurn :: "jstr option"
  pq_afterTurn :: "jstr option"
  pq_pageSize :: int

record turn_page =
  tp_items :: "transcript_item list"
  tp_hasMore :: bool

record segment =
  sg_items :: "transcript_item list"
  sg_turnId :: "jstr option"

definition compareTurnIds :: "to_num \<Rightarrow> jstr \<Rightarrow> jstr \<Rightarrow> rat" where
  "compareTurnIds num a b = turnOrdinal num a - turnOrdinal num b"

definition flush_segment :: "transcript_item list \<Rightarrow> jstr option \<Rightarrow> segment list" where
  "flush_segment cur turn = (if cur \<noteq> [] then [\<lparr> sg_items = cur, sg_turnId = turn \<rparr>] else [])"

fun split_loop :: "transcript_item list \<Rightarrow> jstr option \<Rightarrow> transcript_item list \<Rightarrow> segment list" where
  "split_loop cur turn [] = flush_segment cur turn"
| "split_loop cur turn (e # es) =
     (case e of
        TurnI t \<Rightarrow> flush_segment cur turn @ split_loop [e] (Some (tn_turnId t)) es
      | _ \<Rightarrow> split_loop (cur @ [e]) turn es)"

definition splitSegments :: "transcript_item list \<Rightarrow> segment list" where
  "splitSegments xs = split_loop [] None xs"

definition flatten_segments :: "segment list \<Rightarrow> transcript_item list" where
  "flatten_segments ss = concat (map sg_items ss)"

datatype page_direction = Older | Newer

definition page :: "segment list \<Rightarrow> int \<Rightarrow> page_direction \<Rightarrow> turn_page" where
  "page segments pageSize direction =
     (let head = (case segments of s # ss \<Rightarrow> if sg_turnId s = None then Some s else None | [] \<Rightarrow> None);
          turnSegments = (if head \<noteq> None then drop 1 segments else segments) in
      case direction of
        Older \<Rightarrow>
          (let selected = slice_from turnSegments (- pageSize);
               reachesFirstTurn = (length selected = length turnSegments) in
           \<lparr> tp_items = flatten_segments ((case head of Some s \<Rightarrow> if reachesFirstTurn then [s] else [] | None \<Rightarrow> []) @ selected),
             tp_hasMore = (length turnSegments > length selected \<and> selected \<noteq> []) \<rparr>)
      | Newer \<Rightarrow>
          (let selected = slice turnSegments 0 pageSize in
           \<lparr> tp_items = flatten_segments selected,
             tp_hasMore = (length turnSegments > length selected \<and> selected \<noteq> []) \<rparr>))"

text \<open>\<open>seg.turnId && compareTurnIds(seg.turnId, cursor) > 0\<close>, and the same with \<open>!seg.turnId ||\<close> in front.\<close>

definition newer_than :: "to_num \<Rightarrow> jstr \<Rightarrow> segment \<Rightarrow> bool" where
  "newer_than num c s = (case sg_turnId s of Some i \<Rightarrow> i \<noteq> [] \<and> compareTurnIds num i c > 0 | None \<Rightarrow> False)"

definition older_than :: "to_num \<Rightarrow> jstr \<Rightarrow> segment \<Rightarrow> bool" where
  "older_than num c s = (case sg_turnId s of Some i \<Rightarrow> i = [] \<or> compareTurnIds num i c < 0 | None \<Rightarrow> True)"

definition paginateTurns :: "to_num \<Rightarrow> transcript_item list \<Rightarrow> turn_page_query \<Rightarrow> turn_page" where
  "paginateTurns num xs q =
     (let pageSize = max 1 (pq_pageSize q); segments = splitSegments xs in
      if segments = [] then \<lparr> tp_items = [], tp_hasMore = False \<rparr>
      else case pq_afterTurn q of
        Some c \<Rightarrow> page (filter (newer_than num c) segments) pageSize Newer
      | None \<Rightarrow>
          (case pq_beforeTurn q of
             Some c \<Rightarrow> page (filter (older_than num c) segments) pageSize Older
           | None \<Rightarrow> page segments pageSize Older))"

section \<open>Segments\<close>

text \<open>The items before the first turn, and the segments of the turns.\<close>

definition head_items :: "transcript_item list \<Rightarrow> transcript_item list" where
  "head_items xs = takeWhile (\<lambda>e. \<not> is_turn e) xs"

definition turn_segments :: "transcript_item list \<Rightarrow> segment list" where
  "turn_segments xs = filter (\<lambda>s. sg_turnId s \<noteq> None) (splitSegments xs)"

lemma split_loop_turn:
  "list_all (\<lambda>s. sg_turnId s \<noteq> None) (split_loop cur (Some i) xs)"
  "cur \<noteq> [] \<Longrightarrow> flatten_segments (split_loop cur t xs) = cur @ xs"
  "cur \<noteq> [] \<Longrightarrow> map sg_turnId (split_loop cur t xs) = t # map (\<lambda>t. Some (tn_turnId t)) (turns_of xs)"
proof -
  show "list_all (\<lambda>s. sg_turnId s \<noteq> None) (split_loop cur (Some i) xs)"
    by (induction cur "Some i" xs arbitrary: i rule: split_loop.induct)
      (auto simp: flush_segment_def split: transcript_item.splits)
  show "cur \<noteq> [] \<Longrightarrow> flatten_segments (split_loop cur t xs) = cur @ xs"
    by (induction cur t xs rule: split_loop.induct)
      (auto simp: flush_segment_def flatten_segments_def split: transcript_item.splits)
  show "cur \<noteq> [] \<Longrightarrow> map sg_turnId (split_loop cur t xs) = t # map (\<lambda>t. Some (tn_turnId t)) (turns_of xs)"
    by (induction cur t xs rule: split_loop.induct)
      (auto simp: flush_segment_def turns_of_def split: transcript_item.splits)
qed

lemma split_loop_head:
  "split_loop cur None xs = flush_segment (cur @ takeWhile (\<lambda>e. \<not> is_turn e) xs) None
     @ split_loop [] None (dropWhile (\<lambda>e. \<not> is_turn e) xs)"
  by (induction cur "None :: jstr option" xs rule: split_loop.induct)
    (auto simp: flush_segment_def split: transcript_item.splits)

lemma splitSegments_split: "splitSegments xs = flush_segment (head_items xs) None @ turn_segments xs"
proof -
  let ?r = "dropWhile (\<lambda>e. \<not> is_turn e) xs"
  have s: "splitSegments xs = flush_segment (head_items xs) None @ split_loop [] None ?r"
    using split_loop_head [of "[]" xs] by (simp add: splitSegments_def head_items_def)
  have "list_all (\<lambda>s. sg_turnId s \<noteq> None) (split_loop [] None ?r)"
  proof (cases ?r)
    case (Cons e es)
    then have "is_turn e" using hd_dropWhile [of "\<lambda>e. \<not> is_turn e" xs] by simp
    then show ?thesis using Cons split_loop_turn(1) by (cases e) (simp_all add: flush_segment_def)
  next
    case Nil
    show ?thesis unfolding Nil by (simp add: flush_segment_def)
  qed
  then have "filter (\<lambda>s. sg_turnId s \<noteq> None) (split_loop [] None ?r) = split_loop [] None ?r"
    by (simp add: list_all_iff)
  then show ?thesis by (simp add: s turn_segments_def) (simp add: flush_segment_def)
qed

lemma turn_segments_facts:
  "head_items xs @ flatten_segments (turn_segments xs) = xs"
  "map sg_turnId (turn_segments xs) = map (\<lambda>t. Some (tn_turnId t)) (turns_of xs)"
proof -
  let ?r = "dropWhile (\<lambda>e. \<not> is_turn e) xs"
  have ts: "turn_segments xs = split_loop [] None ?r"
    using splitSegments_split [of xs] split_loop_head [of "[]" xs] by (simp add: splitSegments_def head_items_def)
  have no: "turns_of (takeWhile (\<lambda>e. \<not> is_turn e) xs) = []"
    using turns_of_single by (auto simp: turns_of_def split: transcript_item.splits dest: set_takeWhileD)
  have t: "turns_of xs = turns_of ?r" using no turns_of_simps(5) [of "takeWhile (\<lambda>e. \<not> is_turn e) xs" ?r] by simp
  have "flatten_segments (split_loop [] None ?r) = ?r \<and>
      map sg_turnId (split_loop [] None ?r) = map (\<lambda>t. Some (tn_turnId t)) (turns_of ?r)"
  proof (cases ?r)
    case (Cons e es)
    then have "is_turn e" using hd_dropWhile [of "\<lambda>e. \<not> is_turn e" xs] by simp
    then show ?thesis using Cons split_loop_turn(2, 3) [of "[e]" _ es]
      by (cases e) (simp_all add: flush_segment_def)
  next
    case Nil
    show ?thesis unfolding Nil by (simp add: flush_segment_def flatten_segments_def)
  qed
  then show "head_items xs @ flatten_segments (turn_segments xs) = xs"
    "map sg_turnId (turn_segments xs) = map (\<lambda>t. Some (tn_turnId t)) (turns_of xs)"
    by (simp_all add: ts t head_items_def)
qed

lemma turn_segments_id: "s \<in> set (turn_segments xs) \<Longrightarrow> sg_turnId s \<noteq> None"
  by (simp add: turn_segments_def)

lemma length_turn_segments: "length (turn_segments xs) = turn_count xs"
proof -
  have "length (turns_of xs) = turn_count xs" for xs
    by (induction xs) (auto simp: turns_of_def turn_count_def is_turn_def split: transcript_item.splits)
  then show ?thesis using arg_cong [OF turn_segments_facts(2), of length xs] by simp
qed

section \<open>One page\<close>

text \<open>A page of size \<open>n\<close> of the timeline cut before its \<open>k\<close>-th turn.\<close>

definition page_before :: "nat \<Rightarrow> nat \<Rightarrow> transcript_item list \<Rightarrow> turn_page" where
  "page_before n k xs =
     \<lparr> tp_items = (if k \<le> n then head_items xs else []) @ flatten_segments (drop (k - n) (take k (turn_segments xs))),
       tp_hasMore = (k > n) \<rparr>"

lemma page_older:
  assumes "\<And>s. s \<in> set ts \<Longrightarrow> sg_turnId s \<noteq> None" "0 < n"
  shows "page (flush_segment h None @ ts) (int n) Older =
    \<lparr> tp_items = (if length ts \<le> n then h else []) @ flatten_segments (drop (length ts - n) ts), tp_hasMore = (length ts > n) \<rparr>"
proof -
  have sl: "slice_from ts (- int n) = drop (length ts - n) ts" using assms(2) by (simp add: slice_from_def slice_pos_def nat_diff_distrib')
  have len: "length (drop (length ts - n) ts) = length ts \<longleftrightarrow> length ts \<le> n \<or> ts = []" using assms(2) by auto
  show ?thesis
  proof (cases "h = []")
    case True
    have "(case ts of s # ss \<Rightarrow> if sg_turnId s = None then Some s else None | [] \<Rightarrow> None) = None"
      using assms(1) by (cases ts) auto
    then show ?thesis using assms(2) True by (auto simp: page_def flush_segment_def sl Let_def flatten_segments_def)
  next
    case False
    then show ?thesis using assms(2) by (auto simp: page_def flush_segment_def sl Let_def flatten_segments_def)
  qed
qed

lemma newest_page:
  assumes "0 < n"
  shows "paginateTurns num xs \<lparr> pq_beforeTurn = None, pq_afterTurn = None, pq_pageSize = int n \<rparr>
    = page_before n (turn_count xs) xs"
proof (cases "splitSegments xs = []")
  case True
  then have "head_items xs = []" "turn_segments xs = []"
    using splitSegments_split [of xs] by (auto simp: flush_segment_def split: if_splits)
  then show ?thesis using True assms length_turn_segments [of xs]
    by (simp add: paginateTurns_def page_before_def flatten_segments_def)
next
  case False
  have m: "max 1 (int n) = int n" using assms by simp
  have "page (flush_segment (head_items xs) None @ turn_segments xs) (int n) Older = page_before n (turn_count xs) xs"
    using page_older [of "turn_segments xs" n "head_items xs"] turn_segments_id [of _ xs] assms
    by (simp add: page_before_def length_turn_segments)
  then have "page (splitSegments xs) (int n) Older = page_before n (turn_count xs) xs"
    by (simp only: splitSegments_split [symmetric])
  then show ?thesis using False by (simp add: paginateTurns_def m Let_def)
qed

text \<open>Turns whose ids give strictly increasing ordinals: the \<open>k\<close>-th turn as a cursor cuts the timeline there.\<close>

definition cursors_ok :: "to_num \<Rightarrow> transcript_item list \<Rightarrow> bool" where
  "cursors_ok num xs \<longleftrightarrow>
     sorted_wrt (\<lambda>a b. turnOrdinal num (tn_turnId a) < turnOrdinal num (tn_turnId b)) (turns_of xs) \<and>
     list_all (\<lambda>t. tn_turnId t \<noteq> []) (turns_of xs)"

lemma filter_sorted_prefix:
  assumes "sorted_wrt (\<lambda>a b. f a < (f b :: rat)) ys" "k < length ys"
  shows "filter (\<lambda>y. f y < f (ys ! k)) ys = take k ys"
proof -
  have "filter (\<lambda>y. f y < f (ys ! k)) (take k ys) = take k ys"
    using assms by (intro filter_True) (auto simp: in_set_conv_nth intro!: sorted_wrt_nth_less [of "\<lambda>a b. f a < f b" ys])
  moreover have "filter (\<lambda>y. f y < f (ys ! k)) (drop k ys) = []"
  proof (rule filter_False, rule ballI)
    fix y assume "y \<in> set (drop k ys)"
    then obtain i where "y = ys ! (k + i)" "k + i < length ys" by (auto simp: in_set_conv_nth)
    then show "\<not> f y < f (ys ! k)" using assms by (cases "i = 0") (auto dest!: sorted_wrt_nth_less [of "\<lambda>a b. f a < f b" ys k "k + i"])
  qed
  ultimately show ?thesis by (metis append_take_drop_id filter_append append_Nil2)
qed

lemma older_segments:
  assumes "cursors_ok num xs" "k < turn_count xs"
  shows "filter (older_than num (tn_turnId (turns_of xs ! k))) (splitSegments xs)
    = flush_segment (head_items xs) None @ take k (turn_segments xs)"
proof -
  let ?ts = "turn_segments xs" and ?ord = "\<lambda>s. turnOrdinal num (the (sg_turnId s))"
  have len: "length (turns_of xs) = turn_count xs" "length ?ts = turn_count xs"
    using length_turn_segments [of xs] arg_cong [OF turn_segments_facts(2), of length xs] by simp_all
  have id: "sg_turnId (?ts ! i) = Some (tn_turnId (turns_of xs ! i))" if "i < turn_count xs" for i
    using arg_cong [OF turn_segments_facts(2), of "\<lambda>ys. ys ! i" xs] that len by simp
  have "sorted_wrt (\<lambda>a b. ?ord a < ?ord b) ?ts"
    using assms(1) by (auto simp: sorted_wrt_iff_nth_less cursors_ok_def len id)
  then have "filter (\<lambda>s. ?ord s < ?ord (?ts ! k)) ?ts = take k ?ts"
    using assms(2) by (intro filter_sorted_prefix) (simp_all add: len)
  moreover have "older_than num (tn_turnId (turns_of xs ! k)) s \<longleftrightarrow> ?ord s < ?ord (?ts ! k)" if s: "s \<in> set ?ts" for s
  proof -
    obtain i where i: "i < turn_count xs" "s = ?ts ! i" using s by (auto simp: in_set_conv_nth len)
    then have "tn_turnId (turns_of xs ! i) \<noteq> []" using assms(1) by (simp add: cursors_ok_def list_all_length len)
    with i assms(2) show ?thesis by (simp add: older_than_def id compareTurnIds_def)
  qed
  ultimately have "filter (older_than num (tn_turnId (turns_of xs ! k))) ?ts = take k ?ts"
    by (metis (no_types, lifting) filter_cong)
  then show ?thesis by (simp add: splitSegments_split [of xs]) (simp add: flush_segment_def older_than_def)
qed

lemma page_at_cursor:
  assumes "cursors_ok num xs" "k < turn_count xs" "0 < n"
  shows "paginateTurns num xs \<lparr> pq_beforeTurn = Some (tn_turnId (turns_of xs ! k)), pq_afterTurn = None, pq_pageSize = int n \<rparr>
    = page_before n k xs"
proof -
  have ne: "splitSegments xs \<noteq> []"
    using assms(2) splitSegments_split [of xs] length_turn_segments [of xs] by auto
  have len: "length (take k (turn_segments xs)) = k" using assms(2) length_turn_segments [of xs] by simp
  have id: "s \<in> set (take k (turn_segments xs)) \<Longrightarrow> sg_turnId s \<noteq> None" for s
    using turn_segments_id by (auto dest: in_set_takeD)
  have "max 1 (int n) = int n" using assms(3) by simp
  then show ?thesis
    using ne page_older [where ts = "take k (turn_segments xs)" and n = n and h = "head_items xs", OF id assms(3)]
    by (simp only: paginateTurns_def Let_def turn_page_query.simps option.case if_False older_segments [OF assms(1, 2)] page_before_def len)
qed

section \<open>All pages\<close>

text \<open>
  A client that pages back: it asks for the newest page, then for the page before the first turn of the page it
  got, until a page has no more before it. \<open>fuel\<close> bounds the number of pages.
\<close>

definition first_turn :: "transcript_item list \<Rightarrow> jstr option" where
  "first_turn xs = (case turns_of xs of t # ts \<Rightarrow> Some (tn_turnId t) | [] \<Rightarrow> None)"

fun page_back :: "to_num \<Rightarrow> nat \<Rightarrow> nat \<Rightarrow> transcript_item list \<Rightarrow> jstr option \<Rightarrow> transcript_item list list option" where
  "page_back num 0 n xs cursor = None"
| "page_back num (Suc fuel) n xs cursor =
     (let p = paginateTurns num xs \<lparr> pq_beforeTurn = cursor, pq_afterTurn = None, pq_pageSize = int n \<rparr> in
      if tp_hasMore p then map_option (\<lambda>ps. ps @ [tp_items p]) (page_back num fuel n xs (first_turn (tp_items p)))
      else Some [tp_items p])"

lemma turns_of_head [simp]: "turns_of (head_items xs) = []"
  by (induction xs) (auto simp: head_items_def is_turn_def split: transcript_item.splits)

lemma split_loop_turns:
  "cur \<noteq> [] \<Longrightarrow> map (\<lambda>s. turns_of (sg_items s)) (split_loop cur t xs) = turns_of cur # map (\<lambda>t. [t]) (turns_of xs)"
proof (induction cur t xs rule: split_loop.induct)
  case (2 cur turn e es)
  then show ?case by (cases e) (simp_all add: flush_segment_def)
qed (simp add: flush_segment_def)

lemma segment_turns: "map (\<lambda>s. turns_of (sg_items s)) (turn_segments xs) = map (\<lambda>t. [t]) (turns_of xs)"
proof -
  let ?r = "dropWhile (\<lambda>e. \<not> is_turn e) xs"
  have ts: "turn_segments xs = split_loop [] None ?r"
    using splitSegments_split [of xs] split_loop_head [of "[]" xs] by (simp add: splitSegments_def head_items_def)
  have t: "turns_of xs = turns_of ?r"
    using turns_of_head [of xs] turns_of_simps(5) [of "takeWhile (\<lambda>e. \<not> is_turn e) xs" ?r] by (simp add: head_items_def)
  show ?thesis
  proof (cases ?r)
    case (Cons e es)
    then have "is_turn e" using hd_dropWhile [of "\<lambda>e. \<not> is_turn e" xs] by simp
    then show ?thesis using Cons split_loop_turns [of "[e]" _ es] by (cases e) (simp_all add: ts t flush_segment_def)
  next
    case Nil
    show ?thesis unfolding ts t Nil by (simp add: flush_segment_def)
  qed
qed

lemma turns_flatten:
  assumes "map (\<lambda>s. turns_of (sg_items s)) ss = map (\<lambda>t. [t]) ys"
  shows "turns_of (flatten_segments ss) = ys"
  using assms
proof (induction ss arbitrary: ys)
  case (Cons s ss)
  then show ?case by (cases ys) (auto simp: flatten_segments_def)
qed (simp add: flatten_segments_def)

lemma page_turns:
  assumes "k \<le> turn_count xs"
  shows "turns_of (tp_items (page_before n k xs)) = drop (k - n) (take k (turns_of xs))"
proof -
  have "map (\<lambda>s. turns_of (sg_items s)) (drop (k - n) (take k (turn_segments xs))) = map (\<lambda>t. [t]) (drop (k - n) (take k (turns_of xs)))"
    using segment_turns [of xs] by (metis drop_map take_map)
  then show ?thesis by (simp add: page_before_def turns_flatten)
qed

lemma flatten_append: "flatten_segments (xs @ ys) = flatten_segments xs @ flatten_segments ys"
  by (simp add: flatten_segments_def)

lemma split_loop_hd:
  "cur \<noteq> [] \<Longrightarrow> is_turn (hd cur) \<Longrightarrow> sg \<in> set (split_loop cur t xs) \<Longrightarrow> sg_items sg \<noteq> [] \<and> is_turn (hd (sg_items sg))"
proof (induction cur t xs rule: split_loop.induct)
  case (2 cur turn e es)
  then show ?case by (cases e) (auto simp: flush_segment_def)
qed (simp add: flush_segment_def)

text \<open>The segment of a turn begins with the turn.\<close>

lemma turn_segment_hd:
  assumes "sg \<in> set (turn_segments xs)"
  shows "sg_items sg \<noteq> [] \<and> is_turn (hd (sg_items sg))"
proof -
  let ?r = "dropWhile (\<lambda>e. \<not> is_turn e) xs"
  have ts: "turn_segments xs = split_loop [] None ?r"
    using splitSegments_split [of xs] split_loop_head [of "[]" xs] by (simp add: splitSegments_def head_items_def)
  show ?thesis
  proof (cases ?r)
    case (Cons e es)
    then have "is_turn e" using hd_dropWhile [of "\<lambda>e. \<not> is_turn e" xs] by simp
    then show ?thesis using Cons assms split_loop_hd [of "[e]" sg _ es] by (cases e) (simp_all add: ts flush_segment_def)
  next
    case Nil
    show ?thesis using assms unfolding ts Nil by (simp add: flush_segment_def)
  qed
qed

lemma flatten_hd:
  "ss \<noteq> [] \<Longrightarrow> (\<And>sg. sg \<in> set ss \<Longrightarrow> sg_items sg \<noteq> [] \<and> is_turn (hd (sg_items sg))) \<Longrightarrow>
     flatten_segments ss \<noteq> [] \<and> is_turn (hd (flatten_segments ss))"
  by (cases ss) (simp_all add: flatten_segments_def)

lemma turn_count_turns: "turn_count xs = length (turns_of xs)"
  by (induction xs) (auto simp: turn_count_def turns_of_def split: transcript_item.splits)

text \<open>A page that is not the oldest is full and begins with a turn.\<close>

definition full_page :: "nat \<Rightarrow> transcript_item list \<Rightarrow> bool" where
  "full_page n p \<longleftrightarrow> p \<noteq> [] \<and> is_turn (hd p) \<and> turn_count p = n"

lemma page_full:
  assumes "0 < n" "n < k" "k \<le> turn_count xs"
  shows "full_page n (tp_items (page_before n k xs))"
proof -
  have len: "length (turns_of xs) = turn_count xs" by (simp add: turn_count_turns)
  let ?ss = "drop (k - n) (take k (turn_segments xs))"
  have "?ss \<noteq> []" using assms by (simp add: length_turn_segments)
  moreover have "sg_items sg \<noteq> [] \<and> is_turn (hd (sg_items sg))" if "sg \<in> set ?ss" for sg
    using that turn_segment_hd in_set_dropD in_set_takeD by metis
  ultimately have "flatten_segments ?ss \<noteq> [] \<and> is_turn (hd (flatten_segments ?ss))" by (rule flatten_hd)
  moreover have "turn_count (tp_items (page_before n k xs)) = n"
    using assms by (simp add: turn_count_turns [of "tp_items _"] page_turns len)
  ultimately show ?thesis using assms(2) by (simp add: full_page_def page_before_def)
qed

lemma page_back_from:
  assumes "cursors_ok num xs" "0 < n" "k \<le> turn_count xs" "k < fuel"
    and p: "paginateTurns num xs \<lparr> pq_beforeTurn = cur, pq_afterTurn = None, pq_pageSize = int n \<rparr> = page_before n k xs"
  shows "\<exists>ps. page_back num fuel n xs cur = Some ps \<and>
      concat ps = head_items xs @ flatten_segments (take k (turn_segments xs)) \<and> ps \<noteq> [] \<and> turn_count (hd ps) \<le> n \<and>
      (\<forall>q\<in>set (tl ps). full_page n q)"
  using assms(3-)
proof (induction fuel arbitrary: k cur)
  case (Suc fuel)
  have count: "turn_count (tp_items (page_before n k xs)) \<le> n"
  proof -
    have "turn_count ys = length (turns_of ys)" for ys
      using length_turn_segments [of ys] arg_cong [OF turn_segments_facts(2), of length ys] by simp
    then show ?thesis using Suc.prems(1) by (simp add: page_turns)
  qed
  show ?case
  proof (cases "k \<le> n")
    case True
    then show ?thesis using Suc.prems(3) count by (simp add: Let_def page_before_def)
  next
    case False
    have len: "length (turns_of xs) = turn_count xs"
      using length_turn_segments [of xs] arg_cong [OF turn_segments_facts(2), of length xs] by simp
    have "drop (k - n) (take k (turns_of xs)) = turns_of xs ! (k - n) # drop (Suc (k - n)) (take k (turns_of xs))"
      using False Suc.prems(1) assms(2) by (subst Cons_nth_drop_Suc [symmetric]) (simp_all add: len)
    then have first: "first_turn (tp_items (page_before n k xs)) = Some (tn_turnId (turns_of xs ! (k - n)))"
      using Suc.prems(1) by (simp add: first_turn_def page_turns)
    have lt: "k - n < turn_count xs" and lf: "k - n < fuel" using False Suc.prems(1, 2) assms(2) by simp_all
    from Suc.IH [OF less_imp_le [OF lt] lf page_at_cursor [OF assms(1) lt assms(2)]]
    obtain ps where ps: "page_back num fuel n xs (Some (tn_turnId (turns_of xs ! (k - n)))) = Some ps"
        "concat ps = head_items xs @ flatten_segments (take (k - n) (turn_segments xs))" "ps \<noteq> []" "turn_count (hd ps) \<le> n"
        "\<forall>q\<in>set (tl ps). full_page n q"
      by (elim exE conjE)
    have "take (k - n) (turn_segments xs) @ drop (k - n) (take k (turn_segments xs)) = take k (turn_segments xs)"
      by (metis append_take_drop_id take_take min.absorb1 diff_le_self)
    then have "flatten_segments (take (k - n) (turn_segments xs)) @ flatten_segments (drop (k - n) (take k (turn_segments xs)))
        = flatten_segments (take k (turn_segments xs))" by (metis flatten_append)
    moreover have "tp_hasMore (page_before n k xs)" "tp_items (page_before n k xs) = flatten_segments (drop (k - n) (take k (turn_segments xs)))"
      using False by (simp_all add: page_before_def)
    moreover have "full_page n (tp_items (page_before n k xs))" using page_full [OF assms(2) _ Suc.prems(1)] False by simp
    ultimately show ?thesis using ps Suc.prems(3) first by (auto simp: Let_def)
  qed
qed simp

text \<open>C15: a client that pages back from the newest page with the first turn of each page as the next cursor gets,
  within one page per turn and one more, a page that says it is the last. The pages in order are exactly the
  timeline, every item once; the oldest has at most \<open>n\<close> turns and every other page exactly \<open>n\<close>, and begins with a
  turn - so markers and task references are on the page of the turn they follow, and the items before the
  first turn on the oldest page. (Turn ids are not empty and name increasing ordinals.)\<close>

theorem paging_back_visits_all:
  assumes "cursors_ok num xs" "0 < n"
  shows "\<exists>oldest pages. page_back num (Suc (turn_count xs)) n xs None = Some (oldest # pages) \<and> oldest @ concat pages = xs \<and>
      turn_count oldest \<le> n \<and> (\<forall>p\<in>set pages. p \<noteq> [] \<and> is_turn (hd p) \<and> turn_count p = n)"
proof -
  obtain ps where ps: "page_back num (Suc (turn_count xs)) n xs None = Some ps"
      "concat ps = head_items xs @ flatten_segments (take (turn_count xs) (turn_segments xs))" "ps \<noteq> []"
      "turn_count (hd ps) \<le> n" "\<forall>q\<in>set (tl ps). full_page n q"
    using page_back_from [OF assms order_refl lessI newest_page [OF assms(2)]] by blast
  obtain o1 qs where o1: "ps = o1 # qs" using ps(3) by (cases ps) simp_all
  have "o1 @ concat qs = xs" using ps(2) turn_segments_facts(1) [of xs] by (simp add: o1 length_turn_segments)
  then show ?thesis using ps by (auto simp: o1 full_page_def)
qed

definition sample_turn :: "nat \<Rightarrow> transcript_item" where
  "sample_turn i = TurnI (skeletonTurn sample_num [116, 48 + i])"

definition sample_timeline :: "transcript_item list" where
  "sample_timeline =
     [TaskRefI \<lparr> rf_self = 0, rf_refId = lit ''r0'', rf_taskId = lit ''k'', rf_at = None \<rparr>, sample_turn 1, sample_turn 2,
      MarkerI \<lparr> mk_self = 1, mk_markerId = lit ''m1'', mk_marker = lit ''skill'', mk_payload = JUndef, mk_at = None \<rparr>, sample_turn 3]"

lemma sample_cursors: "cursors_ok sample_num sample_timeline"
  by (simp add: cursors_ok_def sample_timeline_def sample_turn_def skeletonTurn_def turnOrdinal_def sample_num_def
      is_digit_def digits_nat_def)

theorem paging_back_visits_all_witness:
  "\<exists>oldest pages. page_back sample_num (Suc (turn_count sample_timeline)) 2 sample_timeline None = Some (oldest # pages) \<and>
     oldest @ concat pages = sample_timeline \<and> turn_count oldest \<le> 2 \<and>
     (\<forall>p\<in>set pages. p \<noteq> [] \<and> is_turn (hd p) \<and> turn_count p = 2)"
  by (rule paging_back_visits_all [OF sample_cursors]) simp

section \<open>Snapshots\<close>

lemma keep_tail_all: "keep_tail skip (Suc skip) xs = xs"
proof -
  have "skip < seen \<Longrightarrow> keep_tail skip seen xs = xs" for seen
    by (induction skip seen xs rule: keep_tail.induct) (auto split: transcript_item.splits)
  then show ?thesis by simp
qed

lemma flatten_flush: "flatten_segments (flush_segment cur t @ ss) = cur @ flatten_segments ss"
  by (simp add: flatten_segments_def flush_segment_def)

lemma keep_tail_more: "skip < seen \<Longrightarrow> keep_tail skip seen xs = xs"
  by (induction skip seen xs rule: keep_tail.induct) (auto split: transcript_item.splits)

text \<open>With \<open>seen\<close> turns already passed and one segment open, the tail starts at the segment after the last skipped one.\<close>

lemma keep_tail_segments:
  "cur \<noteq> [] \<Longrightarrow> seen \<le> skip \<Longrightarrow> keep_tail skip seen xs = flatten_segments (drop (Suc (skip - seen)) (split_loop cur t xs))"
proof (induction cur t xs arbitrary: seen rule: split_loop.induct)
  case (1 cur t)
  then show ?case by (simp add: flush_segment_def flatten_segments_def)
next
  case (2 cur t e es)
  show ?case
  proof (cases e)
    case (TurnI u)
    show ?thesis
    proof (cases "seen < skip")
      case True
      then have "Suc (skip - Suc seen) = skip - seen" by simp
      with 2(1) [OF TurnI, of "Suc seen"] True TurnI "2.prems" show ?thesis by (simp add: flush_segment_def)
    next
      case False
      then show ?thesis
        using "2.prems" TurnI split_loop_turn(2) [of "[e]" "Some (tn_turnId u)" es] by (simp add: flush_segment_def keep_tail_more)
    qed
  next
    case (MarkerI m)
    then show ?thesis using 2(2) [OF MarkerI] "2.prems" by simp
  next
    case (TaskRefI r)
    then show ?thesis using 2 by simp
  qed
qed

lemma keep_tail_nonturn: "seen \<le> skip \<Longrightarrow> list_all (\<lambda>e. \<not> is_turn e) us \<Longrightarrow> keep_tail skip seen (us @ vs) = keep_tail skip seen vs"
  by (induction us) (auto simp: is_turn_def split: transcript_item.splits)

lemma keep_tail_drop:
  assumes "0 < skip"
  shows "keep_tail skip 0 xs = flatten_segments (drop skip (turn_segments xs))"
proof -
  let ?r = "dropWhile (\<lambda>e. \<not> is_turn e) xs"
  have ts: "turn_segments xs = split_loop [] None ?r"
    using splitSegments_split [of xs] split_loop_head [of "[]" xs] by (simp add: splitSegments_def head_items_def)
  have "list_all (\<lambda>e. \<not> is_turn e) (takeWhile (\<lambda>e. \<not> is_turn e) xs)"
    by (auto simp: list_all_iff dest: set_takeWhileD)
  then have k: "keep_tail skip 0 xs = keep_tail skip 0 ?r"
    using keep_tail_nonturn [of 0 skip "takeWhile (\<lambda>e. \<not> is_turn e) xs" ?r] by simp
  show ?thesis
  proof (cases ?r)
    case (Cons e es)
    then have "is_turn e" using hd_dropWhile [of "\<lambda>e. \<not> is_turn e" xs] by simp
    then obtain u where "e = TurnI u" by (cases e) simp_all
    then show ?thesis
      using Cons assms keep_tail_segments [of "[e]" 1 skip es "Some (tn_turnId u)"] by (simp add: k ts flush_segment_def)
  next
    case Nil
    show ?thesis unfolding k ts Nil by (simp add: flush_segment_def flatten_segments_def)
  qed
qed

text \<open>C38: the items of a snapshot with a window of \<open>n\<close> turns (\<open>AgentTranscript.snapshot\<close>) are the items of the newest
  page of size \<open>n\<close> (\<open>paginateTurns\<close>), and it says that older turns exist when the page has more or
  the transcript itself was loaded from a window.\<close>

theorem snapshot_window_is_newest_page:
  assumes "0 < n"
  shows "sn_items (snapshot (Some n) tr) = tp_items (paginateTurns num (ag_items (tr_state tr))
        \<lparr> pq_beforeTurn = None, pq_afterTurn = None, pq_pageSize = int n \<rparr>) \<and>
    sn_hasMoreOlder (snapshot (Some n) tr) = Some (tp_hasMore (paginateTurns num (ag_items (tr_state tr))
        \<lparr> pq_beforeTurn = None, pq_afterTurn = None, pq_pageSize = int n \<rparr>) \<or> ag_hasMoreOlder (tr_state tr))"
proof -
  let ?xs = "ag_items (tr_state tr)"
  have "keep_tail (turn_count ?xs - n) 0 ?xs = flatten_segments (drop (turn_count ?xs - n) (turn_segments ?xs))" if "n < turn_count ?xs"
    using that by (intro keep_tail_drop) simp
  then show ?thesis
    using turn_segments_facts(1) [of ?xs]
    by (simp add: newest_page [OF assms] page_before_def snapshot_def Let_def length_turn_segments flip: length_turn_segments)
qed

theorem snapshot_window_is_newest_page_witness:
  "sn_items (snapshot (Some 2) sample_transcript) = tp_items (paginateTurns sample_num (ag_items (tr_state sample_transcript))
        \<lparr> pq_beforeTurn = None, pq_afterTurn = None, pq_pageSize = int 2 \<rparr>)"
  using snapshot_window_is_newest_page [of 2 sample_transcript sample_num] by simp

lemma map_by_keyed: "keyed_by key m \<Longrightarrow> map_by key (map snd m) = m"
proof -
  assume m: "keyed_by key m"
  then have "map key (map snd m) = map fst m" by (auto simp: keyed_by_def list_all_iff)
  then have "distinct (map key (map snd m))" using m by (simp only: keyed_by_def jmap_ok_def)
  moreover have "map (\<lambda>x. (key x, x)) (map snd m) = m" using m by (auto simp: keyed_by_def list_all_iff intro!: map_idI)
  ultimately show ?thesis by (simp only: map_by_distinct)
qed

lemma keyed_pending:
  assumes "keyed_by ia_interactionId m"
  shows "{ia_interactionId i |i. i \<in> snd ` set m \<and> ia_state i = IPending} = fst ` set (filter (\<lambda>(k, i). ia_state i = IPending) m)"
proof -
  have "k = ia_interactionId i" if "(k, i) \<in> set m" for k i
    using that assms by (auto simp: keyed_by_def list_all_iff)
  then show ?thesis by force
qed

text \<open>C39: a full snapshot carries everything: a transcript that is reset with it has the same timeline, entities, meta
  state and window flag as the one it was taken from, and the same pending interactions.\<close>

theorem snapshot_reset_roundtrip:
  assumes "agent_ok num (tr_state tr)"
  shows "(re_state (applyOperation num st (ResetOp (snapshot None tr))))\<lparr> ag_pending := ag_pending (tr_state tr) \<rparr> = tr_state tr \<and>
    set (ag_pending (re_state (applyOperation num st (ResetOp (snapshot None tr))))) = set (ag_pending (tr_state tr))"
proof
  show "(re_state (applyOperation num st (ResetOp (snapshot None tr))))\<lparr> ag_pending := ag_pending (tr_state tr) \<rparr> = tr_state tr"
    using assms by (simp add: applyOperation_def applyReset_def snapshot_def Let_def agent_ok_def map_by_keyed)
  show "set (ag_pending (re_state (applyOperation num st (ResetOp (snapshot None tr))))) = set (ag_pending (tr_state tr))"
    using assms keyed_pending [of "ag_interactions (tr_state tr)"]
    by (simp add: applyOperation_def applyReset_def snapshot_def Let_def agent_ok_def pending_ok_def set_pending_of)
qed

theorem snapshot_reset_roundtrip_witness:
  "(re_state (applyOperation sample_num EMPTY_AGENT_STATE (ResetOp (snapshot None sample_transcript))))
     \<lparr> ag_pending := ag_pending (tr_state sample_transcript) \<rparr> = tr_state sample_transcript"
proof -
  have "agent_ok sample_num (tr_state sample_transcript)" by code_simp
  from snapshot_reset_roundtrip [OF this] show ?thesis by blast
qed

end
