(* ===== verification/TranscriptHistory.thy ===== *)
theory TranscriptHistory
  imports TranscriptPages
begin

text \<open>
  Rebuilding the timeline of an agent from its message list: \<open>groupMessagesIntoSnapshot\<close> of
  \<open>packages/transcript/src/history/groupTurns.ts\<close>. \<open>json\<close> is \<open>JSON.parse\<close> (no value where it throws); objects the
  code allocates take their identities from a counter. The rebuilt timeline is in shape and numbers its turns from 0.
\<close>

section \<open>Messages\<close>

datatype history_source = UrlSource jstr | Base64Source jstr jstr | FileSource jstr

datatype media_kind = Image | Video | Audio

text \<open>A bare part has a type and none of the fields the code looks for.\<close>

datatype history_part =
    TextPart jstr
  | ThinkPart jstr
  | MediaPart media_kind history_source
  | FilePart jstr jstr jstr jsv
  | BarePart jstr



section \<open>Origins\<close>















section \<open>Drafts\<close>

text \<open>\<open>String(n)\<close> of a counter: its decimal digits.\<close>

fun nat_text :: "nat \<Rightarrow> jstr" where
  "nat_text n = (if n < 10 then [48 + n] else nat_text (n div 10) @ [48 + n mod 10])"

declare nat_text.simps [simp del]

record step_draft =
  sd_stepId :: jstr
  sd_ordinal :: nat
  sd_frames :: "transcript_frame list"

record turn_draft =
  dr_turnId :: jstr
  dr_ordinal :: nat
  dr_origin :: turn_origin
  dr_prompt :: "jstr option"
  dr_attachmentIds :: jsv
  dr_steps :: "step_draft list"

definition draft_step :: "jstr \<Rightarrow> step_draft \<Rightarrow> transcript_step" where
  "draft_step tid s =
     \<lparr> sp_stepId = sd_stepId s, sp_turnId = tid, sp_ordinal = of_nat (sd_ordinal s), sp_state = SCompleted,
       sp_startedAt = None, sp_endedAt = None, sp_usage = JUndef, sp_finishReason = None, sp_timing = JUndef,
       sp_retry = JUndef, sp_endReason = None, sp_endMessage = None, sp_frames = sd_frames s \<rparr>"

definition draftToTurnItem :: "turn_draft \<Rightarrow> transcript_item" where
  "draftToTurnItem d =
     TurnI \<lparr> tn_turnId = dr_turnId d, tn_ordinal = of_nat (dr_ordinal d), tn_state = TCompleted, tn_origin = dr_origin d,
       tn_prompt = dr_prompt d, tn_attachmentIds = dr_attachmentIds d, tn_startedAt = None, tn_endedAt = None,
       tn_usage = JUndef, tn_durationMs = JUndef, tn_error = None, tn_steps = map (draft_step (dr_turnId d)) (dr_steps d) \<rparr>"








section \<open>The messages of a turn\<close>
















section \<open>Decimal digits\<close>


lemma digits_nat_text: "digits_nat (nat_text n) = n"
proof (induction n rule: less_induct)
  case (less n)
  show ?case
  proof (cases "n < 10")
    case False
    then have "digits_nat (nat_text (n div 10)) = n div 10" by (intro less) simp
    with False show ?thesis by (subst nat_text.simps) (simp add: digits_nat_def)
  qed (subst nat_text.simps, simp add: digits_nat_def)
qed

lemma nat_text_inj [simp]: "nat_text m = nat_text n \<longleftrightarrow> m = n"
  by (metis digits_nat_text)



section \<open>Drafts in shape\<close>










section \<open>The loop\<close>


lemma draft_item [simp]: "is_turn (draftToTurnItem d)" "itemIdOf (draftToTurnItem d) = dr_turnId d"
  by (simp_all add: draftToTurnItem_def)






















section \<open>How many turns\<close>













end
