(* ===== verification/TranscriptGrade.thy ===== *)
theory TranscriptGrade
  imports TranscriptShape
begin

text \<open>
  Subscription grades (\<open>packages/transcript/src/granularity\<close>): which operations a subscriber is sent, what a
  reset snapshot is stripped of, and that a subscriber at grade \<open>turn\<close> follows the producer up to the detail the
  grade leaves out, except for the interactions of turns that are removed.
\<close>

section \<open>The code\<close>

datatype transcript_grade = GOff | GTurn | GBlock | GDelta

definition GRADE_RANK :: "transcript_grade \<Rightarrow> nat" where
  "GRADE_RANK g = (case g of GOff \<Rightarrow> 0 | GTurn \<Rightarrow> 1 | GBlock \<Rightarrow> 2 | GDelta \<Rightarrow> 3)"

text \<open>A spec holds a grade or \<open>undefined\<close> per agent.\<close>

type_synonym grade_spec = "(jstr, transcript_grade option) jmap"

definition spec_entry :: "grade_spec \<Rightarrow> jstr \<Rightarrow> transcript_grade option" where
  "spec_entry spec k = (case jget spec k of Some g \<Rightarrow> g | None \<Rightarrow> None)"

definition gradeFor :: "grade_spec option \<Rightarrow> jstr \<Rightarrow> transcript_grade" where
  "gradeFor spec aid =
     (case spec of
        None \<Rightarrow> GOff
      | Some m \<Rightarrow>
          (case spec_entry m aid of
             Some g \<Rightarrow> g
           | None \<Rightarrow> (case spec_entry m (lit ''*'') of Some g \<Rightarrow> g | None \<Rightarrow> GOff)))"

definition needsResetOnTransition :: "transcript_grade \<Rightarrow> transcript_grade \<Rightarrow> bool" where
  "needsResetOnTransition prev next \<longleftrightarrow> GRADE_RANK next > GRADE_RANK prev"

definition detach_one :: "jstr \<Rightarrow> grade_spec \<Rightarrow> grade_spec" where
  "detach_one aid m = (if aid = lit ''*'' then jdel (lit ''*'') m else jset aid (Some GOff) m)"

definition detachGrades :: "grade_spec option \<Rightarrow> jstr list \<Rightarrow> grade_spec option" where
  "detachGrades spec ids =
     (case spec of
        None \<Rightarrow> None
      | Some m \<Rightarrow>
          (let next = fold detach_one ids m in
           if \<exists>g\<in>snd ` set next. g \<noteq> None \<and> g \<noteq> Some GOff then Some next else None))"

definition admits :: "transcript_grade \<Rightarrow> transcript_operation \<Rightarrow> bool" where
  "admits g q =
     (case q of
        AppendOp a \<Rightarrow> GRADE_RANK g \<ge> GRADE_RANK GDelta
      | StepUpsertOp t h \<Rightarrow> GRADE_RANK g \<ge> GRADE_RANK GBlock
      | FrameUpsertOp t s f \<Rightarrow> GRADE_RANK g \<ge> GRADE_RANK GBlock
      | _ \<Rightarrow> True)"

definition filterOpsForGrade :: "transcript_grade \<Rightarrow> transcript_operation list \<Rightarrow> transcript_operation list" where
  "filterOpsForGrade g qs = (if GRADE_RANK g = 0 then [] else filter (admits g) qs)"

definition is_append :: "transcript_operation \<Rightarrow> bool" where
  "is_append q = (case q of AppendOp a \<Rightarrow> True | _ \<Rightarrow> False)"

definition isAppendOnly :: "transcript_operation list \<Rightarrow> bool" where
  "isAppendOnly qs \<longleftrightarrow> qs \<noteq> [] \<and> list_all is_append qs"

definition strip_item :: "transcript_item \<Rightarrow> transcript_item" where
  "strip_item e = (case e of TurnI t \<Rightarrow> TurnI (t\<lparr> tn_steps := [] \<rparr>) | _ \<Rightarrow> e)"

definition redactSnapshotForGrade :: "transcript_grade \<Rightarrow> transcript_snapshot \<Rightarrow> transcript_snapshot" where
  "redactSnapshotForGrade g sn =
     (if GRADE_RANK g \<ge> GRADE_RANK GBlock then sn else sn\<lparr> sn_items := map strip_item (sn_items sn) \<rparr>)"

section \<open>Grades of a subscriber\<close>

lemma fold_detach_get:
  "jget (fold detach_one ids m) k =
     (if k \<in> set ids then (if k = lit ''*'' then None else Some (Some GOff)) else jget m k)"
proof (induction ids arbitrary: m)
  case (Cons i ids)
  show ?case unfolding list.simps fold_Cons o_apply Cons.IH by (auto simp: detach_one_def)
qed simp

text \<open>After agents are detached from a subscription, each of them is at grade \<open>off\<close>, also where a default for all
  agents remains, and while the default is not among them every other agent keeps the grade it had.\<close>

theorem detached_agents_are_off:
  "(aid \<in> set ids \<and> aid \<noteq> lit ''*'' \<longrightarrow> gradeFor (detachGrades spec ids) aid = GOff) \<and>
    (aid \<notin> set ids \<and> lit ''*'' \<notin> set ids \<longrightarrow> gradeFor (detachGrades spec ids) aid = gradeFor spec aid)"
proof (cases spec)
  case None
  then show ?thesis by (simp add: detachGrades_def gradeFor_def)
next
  case spec: (Some m)
  let ?n = "fold detach_one ids m"
  show ?thesis
  proof (cases "\<exists>g\<in>snd ` set ?n. g \<noteq> None \<and> g \<noteq> Some GOff")
    case True
    then have "detachGrades spec ids = Some ?n" by (simp only: detachGrades_def spec option.case Let_def if_True)
    then show ?thesis
      unfolding gradeFor_def spec by (simp only: option.case spec_entry_def fold_detach_get) auto
  next
    case False
    then have "detachGrades spec ids = None" by (simp only: detachGrades_def spec option.case Let_def if_False)
    then have off: "gradeFor (detachGrades spec ids) aid = GOff" by (simp only: gradeFor_def option.case)
    have dead: "spec_entry ?n k = None \<or> spec_entry ?n k = Some GOff" for k
    proof (cases "jget ?n k")
      case (Some g)
      then have "g \<in> snd ` set ?n" by (force dest: map_of_SomeD)
      with False Some show ?thesis by (auto simp: spec_entry_def)
    qed (simp add: spec_entry_def)
    have "gradeFor spec aid = GOff" if "aid \<notin> set ids" "lit ''*'' \<notin> set ids"
      using dead [of aid] dead [of "lit ''*''"] that unfolding gradeFor_def spec
      by (auto simp only: option.case spec_entry_def fold_detach_get if_False split: option.splits)
    with off show ?thesis by (auto simp del: lit_simps)
  qed
qed

theorem detached_agents_are_off_witness:
  "gradeFor (detachGrades (Some [(lit ''*'', Some GDelta), (lit ''b'', Some GTurn)]) [lit ''a'']) (lit ''a'') = GOff \<and>
   gradeFor (detachGrades (Some [(lit ''*'', Some GDelta), (lit ''b'', Some GTurn)]) [lit ''a'']) (lit ''b'') = GTurn"
proof -
  have "gradeFor (Some [(lit ''*'', Some GDelta), (lit ''b'', Some GTurn)]) (lit ''b'') = GTurn" by code_simp
  then show ?thesis
    using detached_agents_are_off [of "lit ''a''" "[lit ''a'']" "Some [(lit ''*'', Some GDelta), (lit ''b'', Some GTurn)]"]
      detached_agents_are_off [of "lit ''b''" "[lit ''a'']" "Some [(lit ''*'', Some GDelta), (lit ''b'', Some GTurn)]"]
    by simp
qed

section \<open>A subscriber at grade turn\<close>

text \<open>What grade \<open>turn\<close> leaves out: the steps of the turns and the output of the tasks.\<close>

definition coarse_task :: "transcript_task \<Rightarrow> transcript_task" where
  "coarse_task t = t\<lparr> tk_outputTail := [] \<rparr>"

definition coarse :: "agent_state \<Rightarrow> agent_state" where
  "coarse st = st\<lparr> ag_items := map strip_item (ag_items st),
                   ag_tasks := map (\<lambda>(k, t). (k, coarse_task t)) (ag_tasks st) \<rparr>"

definition no_steps :: "agent_state \<Rightarrow> bool" where
  "no_steps st \<longleftrightarrow> list_all (\<lambda>t. tn_steps t = []) (turns_of (ag_items st))"

text \<open>The operations a subscriber at a grade receives for one operation of the producer.\<close>

definition sent :: "transcript_grade \<Rightarrow> transcript_operation \<Rightarrow> transcript_operation list" where
  "sent g q =
     map (\<lambda>q. case q of ResetOp sn \<Rightarrow> ResetOp (redactSnapshotForGrade g sn) | _ \<Rightarrow> q) (filterOpsForGrade g [q])"

text \<open>
  What the producer does: steps and frames arrive after their turn, output after its task; an object that is sent
  again as the usage of a task has the same content; and a removed turn has no interaction anchored in it.
\<close>

definition follow_ok :: "agent_state \<Rightarrow> transcript_operation \<Rightarrow> bool" where
  "follow_ok st q =
     (case q of
        StepUpsertOp tid h \<Rightarrow> getTurn st tid \<noteq> None
      | FrameUpsertOp tid sid f \<Rightarrow> getTurn st tid \<noteq> None
      | AppendOp a \<Rightarrow> (case ao_target a of TaskTarget k \<Rightarrow> jget (ag_tasks st) k \<noteq> None | _ \<Rightarrow> True)
      | TaskUpsertOp x \<Rightarrow>
          (case jget (ag_tasks st) (tk_taskId x) of
             Some t \<Rightarrow> strict_eq (tk_usage t) (tk_usage x) \<longrightarrow> tk_usage t = tk_usage x | None \<Rightarrow> True)
      | ItemsRemoveOp ids \<Rightarrow>
          list_all (\<lambda>(k, i). \<not> anchored_in (removed_calls ids (ag_items st)) i) (ag_interactions st)
      | _ \<Rightarrow> True)"

lemma strip_item_simps [simp]:
  "strip_item (TurnI t) = TurnI (t\<lparr> tn_steps := [] \<rparr>)" "strip_item (MarkerI m) = MarkerI m" "strip_item (TaskRefI r) = TaskRefI r"
  by (simp_all add: strip_item_def)

lemma strip_id [simp]: "itemIdOf (strip_item e) = itemIdOf e"
  by (cases e) simp_all

lemma strip_twice [simp]: "strip_item (strip_item e) = strip_item e"
  by (cases e) simp_all

lemma strip_ordinals [simp]: "turn_ordinals P (strip_item e) = turn_ordinals P e"
  by (cases e) (simp_all add: turn_ordinals_def)

lemma find_turn_strip: "find_turn tid (map strip_item xs) = map_option (\<lambda>t. t\<lparr> tn_steps := [] \<rparr>) (find_turn tid xs)"
  by (induction xs) (auto split: transcript_item.splits simp: strip_item_def)

lemma strip_insert: "map strip_item (insert_before (turn_ordinals P) x xs) = insert_before (turn_ordinals P) (strip_item x) (map strip_item xs)"
  by (simp add: insert_before_def takeWhile_map dropWhile_map o_def)

lemma coarse_upd:
  "coarse (st\<lparr> ag_items := xs \<rparr>) = (coarse st)\<lparr> ag_items := map strip_item xs \<rparr>"
  "coarse (st\<lparr> ag_tasks := ts \<rparr>) = (coarse st)\<lparr> ag_tasks := map (\<lambda>(k, t). (k, coarse_task t)) ts \<rparr>"
  by (simp_all add: coarse_def)

lemma coarse_fields:
  "ag_items (coarse st) = map strip_item (ag_items st)" "ag_tasks (coarse st) = map (\<lambda>(k, t). (k, coarse_task t)) (ag_tasks st)"
  "ag_interactions (coarse st) = ag_interactions st" "ag_attachments (coarse st) = ag_attachments st"
  "ag_todos (coarse st) = ag_todos st" "ag_prompts (coarse st) = ag_prompts st" "ag_meta (coarse st) = ag_meta st"
  "ag_pending (coarse st) = ag_pending st" "ag_hasMoreOlder (coarse st) = ag_hasMoreOlder st"
  by (simp_all add: coarse_def)

lemma map_upd_coarse: "map (\<lambda>(k, t). (k, coarse_task t)) (jset k x m) = jset k (coarse_task x) (map (\<lambda>(k, t). (k, coarse_task t)) m)"
  by (induction m) auto

lemma jget_coarse: "jget (map (\<lambda>(k, t). (k, coarse_task t)) m) k = map_option coarse_task (jget m k)"
  by (induction m) auto

lemma coarse_task_twice [simp]: "coarse_task (coarse_task t) = coarse_task t"
  by (simp add: coarse_task_def)

lemma coarse_twice [simp]: "coarse (coarse st) = coarse st"
  by (simp add: coarse_def o_def case_prod_beta)

lemma turnEquals_strip [simp]: "turnEquals (t\<lparr> tn_steps := ss \<rparr>) h = turnEquals t h"
  by (simp add: turnEquals_def)

lemma header_strip [simp]: "(turnHeaderToTurn h ss)\<lparr> tn_steps := ts \<rparr> = turnHeaderToTurn h ts"
  by (simp add: turnHeaderToTurn_def turn_header.defs transcript_turn.defs)

lemma strip_replace:
  "map strip_item (replaceTurn xs tid (\<lambda>t. turnHeaderToTurn h (tn_steps t)))
     = replaceTurn (map strip_item xs) tid (\<lambda>t. turnHeaderToTurn h (tn_steps t))"
  by (auto simp: replaceTurn_def split: transcript_item.splits)

lemma coarse_turn_upsert: "coarse (re_state (applyTurnUpsert st h)) = coarse (re_state (applyTurnUpsert (coarse st) h))"
proof -
  have "coarse (coarse st\<lparr> ag_items := map strip_item xs \<rparr>) = coarse (st\<lparr> ag_items := xs \<rparr>)" for xs
    by (simp add: coarse_upd coarse_fields o_def)
  note up = this [symmetric]
  show ?thesis
  proof (cases "getTurn st (tn_turnId h)")
    case None
    then show ?thesis
      by (simp add: applyTurnUpsert_def getTurn_def coarse_fields find_turn_strip up insertTurn_def strip_insert)
  next
    case (Some t)
    then show ?thesis
      by (auto simp: applyTurnUpsert_def getTurn_def coarse_fields find_turn_strip up strip_replace)
  qed
qed

lemma same_item_strip: "\<not> is_turn x \<Longrightarrow> same_item (strip_item e) x = same_item e x"
  by (cases e; cases x) (simp_all add: same_item_def)

lemma strip_nonturn: "\<not> is_turn x \<Longrightarrow> strip_item x = x"
  by (cases x) simp_all

lemma coarse_item_upsert:
  assumes x: "\<not> is_turn x"
  shows "coarse (re_state (applyItemUpsert st x i b)) = coarse (re_state (applyItemUpsert (coarse st) x i b))"
proof -
  have "coarse (coarse st\<lparr> ag_items := map strip_item xs \<rparr>) = coarse (st\<lparr> ag_items := xs \<rparr>)" for xs
    by (simp add: coarse_upd coarse_fields o_def)
  note up = this [symmetric]
  have m: "map strip_item (map (\<lambda>e. if itemIdOf e \<noteq> i \<or> same_item e x then e else x) (ag_items st))
      = map (\<lambda>e. if itemIdOf e \<noteq> i \<or> same_item e x then e else x) (map strip_item (ag_items st))"
    using x by (auto simp: same_item_strip strip_nonturn)
  have a: "map strip_item (ag_items st @ [x]) = map strip_item (ag_items st) @ [x]"
    using x by (simp add: strip_nonturn)
  have bex: "(\<exists>e\<in>set (ag_items (coarse st)). itemIdOf e = i) = (\<exists>e\<in>set (ag_items st). itemIdOf e = i)"
    "(\<exists>e\<in>set (ag_items (coarse st)). itemIdOf e = i \<and> \<not> same_item e x) = (\<exists>e\<in>set (ag_items st). itemIdOf e = i \<and> \<not> same_item e x)"
    using x by (simp_all add: coarse_fields same_item_strip)
  show ?thesis
  proof (cases "\<exists>e\<in>set (ag_items st). itemIdOf e = i")
    case True
    then show ?thesis
      unfolding applyItemUpsert_def bex by (auto simp only: if_True if_False result_simps up m coarse_twice coarse_fields(1) split: if_split)
  next
    case False
    then show ?thesis
      using x unfolding applyItemUpsert_def bex
      by (simp only: if_False) (cases b; simp only: option.case result_simps up a strip_insert strip_nonturn [OF x] coarse_fields(1))
  qed
qed

lemma coarse_task_upsert:
  assumes "follow_ok st (TaskUpsertOp x)" "keyed_by tk_taskId (ag_tasks st)"
  shows "coarse (re_state (applyTaskUpsert st x)) = (coarse st)\<lparr> ag_tasks := jset (tk_taskId x) (coarse_task x) (ag_tasks (coarse st)) \<rparr>"
proof (cases "known taskEquals (ag_tasks st) (tk_taskId x) x")
  case False
  then show ?thesis by (simp add: applyTaskUpsert_def coarse_upd coarse_fields map_upd_coarse)
next
  case True
  then obtain t where t: "jget (ag_tasks st) (tk_taskId x) = Some t" "taskEquals t x" by (auto simp: known_def split: option.splits)
  then have "tk_taskId t = tk_taskId x" using assms(2) by (auto simp: keyed_by_def list_all_iff dest!: map_of_SomeD)
  then have "coarse_task t = coarse_task x" using t assms(1) by (simp add: taskEquals_def coarse_task_def follow_ok_def)
  moreover have "jset (tk_taskId x) (coarse_task t) (ag_tasks (coarse st)) = ag_tasks (coarse st)"
    using t(1) by (intro jset_same) (simp add: coarse_fields jget_coarse)
  ultimately show ?thesis using True by (simp add: applyTaskUpsert_def)
qed

lemma replace_hidden:
  assumes "distinct (map itemIdOf xs)" "find_turn tid xs = Some t" "u\<lparr> tn_steps := [] \<rparr> = t\<lparr> tn_steps := [] \<rparr>"
  shows "map strip_item (replaceTurn xs tid (\<lambda>v. u)) = map strip_item xs"
proof -
  have mem: "TurnI t \<in> set xs" "itemIdOf (TurnI t) = tid" using assms(2) by (auto dest: find_turn_mem find_turn_id)
  have "v = t" if "TurnI v \<in> set xs" "tn_turnId v = tid" for v
  proof -
    have "inj_on itemIdOf (set xs)" using assms(1) by (simp add: distinct_map)
    then have "TurnI v = TurnI t" by (rule inj_onD) (use mem that in simp_all)
    then show ?thesis by simp
  qed
  then show ?thesis using assms(3) by (auto simp: replaceTurn_def split: transcript_item.splits)
qed

text \<open>Steps, frames and appended text stay below the grade.\<close>

lemma coarse_hidden:
  assumes "timeline_ok num (ag_items st)" "\<not> admits GTurn q" "follow_ok st q"
  shows "coarse (after num st q) = coarse st"
proof -
  have d: "distinct (map itemIdOf (ag_items st))" using assms(1) by (simp add: timeline_ok_def)
  have same: "coarse (st\<lparr> ag_items := replaceTurn (ag_items st) tid (\<lambda>v. t\<lparr> tn_steps := ss \<rparr>) \<rparr>) = coarse st"
    if "getTurn st tid = Some t" for tid t ss
    using replace_hidden [OF d, of tid t "t\<lparr> tn_steps := ss \<rparr>"] that by (simp add: coarse_upd getTurn_def) (simp add: coarse_def)
  have put: "coarse (put_turn st tid (t\<lparr> tn_steps := ss \<rparr>)) = coarse st" if "getTurn st tid = Some t" for tid t ss
    using same [OF that] that by (simp add: put_turn_def)
  show ?thesis
  proof (cases q)
    case (StepUpsertOp tid h)
    then obtain t where "getTurn st tid = Some t" using assms(3) by (auto simp: follow_ok_def)
    then show ?thesis
      using StepUpsertOp put by (auto simp: applyOperation_def applyStepUpsert_def turn_or_skeleton_def Let_def split: option.splits)
  next
    case (FrameUpsertOp tid sid f)
    then obtain t where "getTurn st tid = Some t" using assms(3) by (auto simp: follow_ok_def)
    then show ?thesis
      using FrameUpsertOp put by (simp add: applyOperation_def applyFrameUpsert_def turn_or_skeleton_def Let_def)
  next
    case (AppendOp a)
    show ?thesis
    proof (cases "ao_target a")
      case (TaskTarget k)
      then obtain t where t: "jget (ag_tasks st) k = Some t" using AppendOp assms(3) by (auto simp: follow_ok_def)
      have "jset k (coarse_task t) (ag_tasks (coarse st)) = ag_tasks (coarse st)"
        using t by (intro jset_same) (simp add: coarse_fields jget_coarse)
      moreover have "coarse_task (t\<lparr> tk_outputTail := x \<rparr>) = coarse_task t" for x by (simp add: coarse_task_def)
      ultimately have "coarse (st\<lparr> ag_tasks := jset k (t\<lparr> tk_outputTail := x \<rparr>) (ag_tasks st) \<rparr>) = coarse st" for x
        by (simp add: coarse_upd map_upd_coarse coarse_fields)
      then show ?thesis using AppendOp TaskTarget t
        by (auto simp: applyOperation_def applyAppend_def applyTaskAppend_def Let_def split: option.splits)
    next
      case (FrameTarget tid sid fid)
      then show ?thesis using AppendOp same
        by (auto simp: applyOperation_def applyAppend_def append_place_def Let_def split: option.splits)
    qed
  qed (use assms(2) in \<open>simp_all add: admits_def GRADE_RANK_def\<close>)
qed

lemma removed_calls_none: "no_steps st \<Longrightarrow> removed_calls ids (ag_items st) = []"
  by (auto simp: no_steps_def removed_calls_def list_all_iff mem_turns_of tool_calls_def split: transcript_item.splits)

lemma remove_plain:
  assumes "list_all (\<lambda>(k, i). \<not> anchored_in (removed_calls ids (ag_items st)) i) (ag_interactions st)"
  shows "re_state (applyItemsRemove st ids) = st\<lparr> ag_items := filter (\<lambda>e. itemIdOf e \<notin> set ids) (ag_items st) \<rparr>"
proof -
  have "filter (\<lambda>(k, i). anchored_in (removed_calls ids (ag_items st)) i) (ag_interactions st) = []"
    using assms by (auto simp: list_all_iff filter_empty_conv)
  moreover have "filter (\<lambda>e. itemIdOf e \<notin> set ids) (ag_items st) = ag_items st"
    if "length (filter (\<lambda>e. itemIdOf e \<notin> set ids) (ag_items st)) = length (ag_items st)"
    using that by (metis length_filter_less less_irrefl filter_True)
  ultimately show ?thesis by (auto simp: applyItemsRemove_def Let_def)
qed

lemma coarse_upd_entities:
  "coarse (st\<lparr> ag_interactions := a, ag_pending := p \<rparr>) = (coarse st)\<lparr> ag_interactions := a, ag_pending := p \<rparr>"
  "coarse (st\<lparr> ag_attachments := b \<rparr>) = (coarse st)\<lparr> ag_attachments := b \<rparr>"
  "coarse (st\<lparr> ag_todos := d \<rparr>) = (coarse st)\<lparr> ag_todos := d \<rparr>"
  "coarse (st\<lparr> ag_prompts := e \<rparr>) = (coarse st)\<lparr> ag_prompts := e \<rparr>"
  "coarse (st\<lparr> ag_meta := m \<rparr>) = (coarse st)\<lparr> ag_meta := m \<rparr>"
  by (simp_all add: coarse_def)

lemma coarse_eqD:
  assumes "coarse st = coarse c"
  shows "map strip_item (ag_items st) = map strip_item (ag_items c)" "ag_interactions st = ag_interactions c"
    "ag_pending st = ag_pending c" "ag_attachments st = ag_attachments c" "ag_todos st = ag_todos c"
    "ag_prompts st = ag_prompts c" "ag_meta st = ag_meta c" "ag_hasMoreOlder st = ag_hasMoreOlder c"
  using arg_cong [OF assms, of ag_items] arg_cong [OF assms, of ag_interactions] arg_cong [OF assms, of ag_pending]
    arg_cong [OF assms, of ag_attachments] arg_cong [OF assms, of ag_todos] arg_cong [OF assms, of ag_prompts]
    arg_cong [OF assms, of ag_meta] arg_cong [OF assms, of ag_hasMoreOlder]
  by (simp_all add: coarse_fields)

lemma coarse_task_same:
  assumes "coarse st = coarse c"
  shows "map_option coarse_task (jget (ag_tasks st) k) = map_option coarse_task (jget (ag_tasks c) k)"
    "keyed_by tk_taskId (ag_tasks st) \<Longrightarrow> keyed_by tk_taskId (ag_tasks c)"
proof -
  have e: "map (\<lambda>(k, t). (k, coarse_task t)) (ag_tasks st) = map (\<lambda>(k, t). (k, coarse_task t)) (ag_tasks c)"
    using arg_cong [OF assms, of ag_tasks] by (simp add: coarse_fields)
  show "map_option coarse_task (jget (ag_tasks st) k) = map_option coarse_task (jget (ag_tasks c) k)"
    by (simp add: e flip: jget_coarse)
  have "keyed_by tk_taskId m \<longleftrightarrow> keyed_by tk_taskId (map (\<lambda>(k, t). (k, coarse_task t)) m)" for m
    by (induction m) (auto simp: keyed_by_def coarse_task_def image_iff)
  from this [of "ag_tasks st"] this [of "ag_tasks c"] e
  show "keyed_by tk_taskId (ag_tasks st) \<Longrightarrow> keyed_by tk_taskId (ag_tasks c)" by simp
qed

lemma follow_task_same:
  assumes "coarse st = coarse c" "follow_ok st (TaskUpsertOp x)"
  shows "follow_ok c (TaskUpsertOp x)"
proof (cases "jget (ag_tasks c) (tk_taskId x)")
  case (Some u)
  then obtain t where t: "jget (ag_tasks st) (tk_taskId x) = Some t" "coarse_task t = coarse_task u"
    using coarse_task_same(1) [OF assms(1), of "tk_taskId x"] by auto
  have "tk_usage t = tk_usage u" using arg_cong [OF t(2), of tk_usage] by (simp add: coarse_task_def)
  then show ?thesis using assms(2) t Some by (simp add: follow_ok_def)
qed (simp add: follow_ok_def)

lemma no_steps_iff: "no_steps st \<longleftrightarrow> map strip_item (ag_items st) = ag_items st"
proof -
  have "map strip_item xs = xs \<longleftrightarrow> list_all (\<lambda>t. tn_steps t = []) (turns_of xs)" for xs
  proof (induction xs)
    case (Cons e xs)
    have "t\<lparr> tn_steps := [] \<rparr> = t \<longleftrightarrow> tn_steps t = []" for t :: transcript_turn
      by (cases t) auto
    then show ?case using Cons by (cases e) simp_all
  qed simp
  then show ?thesis by (simp add: no_steps_def)
qed

lemma no_steps_upd [simp]:
  "no_steps (st\<lparr> ag_tasks := ts \<rparr>) = no_steps st" "no_steps (st\<lparr> ag_interactions := a, ag_pending := p \<rparr>) = no_steps st"
  "no_steps (st\<lparr> ag_attachments := b \<rparr>) = no_steps st" "no_steps (st\<lparr> ag_todos := d \<rparr>) = no_steps st"
  "no_steps (st\<lparr> ag_prompts := e \<rparr>) = no_steps st" "no_steps (st\<lparr> ag_meta := m \<rparr>) = no_steps st"
  by (simp_all add: no_steps_def)

lemma meta_if_follows:
  "coarse st = coarse c \<Longrightarrow> no_steps c \<Longrightarrow>
   coarse (re_state (if b then unchanged st else changed_to (st\<lparr> ag_meta := x \<rparr>)))
     = coarse (re_state (if b then unchanged c else changed_to (c\<lparr> ag_meta := x \<rparr>))) \<and>
   no_steps (re_state (if b then unchanged c else changed_to (c\<lparr> ag_meta := x \<rparr>)))"
  by (simp add: coarse_upd_entities)

text \<open>The entities that are copied as they are.\<close>

lemma entity_follows:
  assumes rel: "coarse st = coarse c" and ns: "no_steps c"
  shows "coarse (re_state (applyInteractionUpsert st i)) = coarse (re_state (applyInteractionUpsert c i)) \<and> no_steps (re_state (applyInteractionUpsert c i))"
    "coarse (re_state (applyAttachmentUpsert st a)) = coarse (re_state (applyAttachmentUpsert c a)) \<and> no_steps (re_state (applyAttachmentUpsert c a))"
    "coarse (re_state (applyTodoUpsert st d)) = coarse (re_state (applyTodoUpsert c d)) \<and> no_steps (re_state (applyTodoUpsert c d))"
    "coarse (re_state (applyPromptUpsert st p)) = coarse (re_state (applyPromptUpsert c p)) \<and> no_steps (re_state (applyPromptUpsert c p))"
    "coarse (re_state (applyMetaMerge st m)) = coarse (re_state (applyMetaMerge c m)) \<and> no_steps (re_state (applyMetaMerge c m))"
proof -
  note eqs = coarse_eqD(2-7) [OF rel]
  show "coarse (re_state (applyInteractionUpsert st i)) = coarse (re_state (applyInteractionUpsert c i)) \<and> no_steps (re_state (applyInteractionUpsert c i))"
    using rel ns by (simp add: applyInteractionUpsert_def eqs coarse_upd_entities)
  show "coarse (re_state (applyAttachmentUpsert st a)) = coarse (re_state (applyAttachmentUpsert c a)) \<and> no_steps (re_state (applyAttachmentUpsert c a))"
    using rel ns by (simp add: applyAttachmentUpsert_def eqs coarse_upd_entities)
  show "coarse (re_state (applyTodoUpsert st d)) = coarse (re_state (applyTodoUpsert c d)) \<and> no_steps (re_state (applyTodoUpsert c d))"
    using rel ns by (simp add: applyTodoUpsert_def eqs coarse_upd_entities)
  show "coarse (re_state (applyPromptUpsert st p)) = coarse (re_state (applyPromptUpsert c p)) \<and> no_steps (re_state (applyPromptUpsert c p))"
    using rel ns by (simp add: applyPromptUpsert_def eqs coarse_upd_entities)
  show "coarse (re_state (applyMetaMerge st m)) = coarse (re_state (applyMetaMerge c m)) \<and> no_steps (re_state (applyMetaMerge c m))"
    unfolding applyMetaMerge_def Let_def eqs using rel ns by (rule meta_if_follows)
qed

lemma turn_upsert_no_steps: "no_steps c \<Longrightarrow> no_steps (re_state (applyTurnUpsert c h))"
proof -
  assume c: "no_steps c"
  have "map strip_item (insertTurn xs t) = insertTurn (map strip_item xs) (t\<lparr> tn_steps := [] \<rparr>)" for xs t
    by (simp add: insertTurn_def strip_insert)
  then show ?thesis
    using c by (auto simp: no_steps_iff applyTurnUpsert_def strip_replace split: option.splits)
qed

lemma item_upsert_no_steps: "no_steps c \<Longrightarrow> \<not> is_turn x \<Longrightarrow> no_steps (re_state (applyItemUpsert c x i b))"
proof -
  assume c: "no_steps c" and x: "\<not> is_turn x"
  have e: "strip_item e = e" if "e \<in> set (ag_items c)" for e
    using c that by (metis no_steps_iff map_eq_conv map_ident)
  then show ?thesis
    using c x
    by (auto simp: no_steps_iff applyItemUpsert_def strip_insert strip_nonturn split: option.splits)
qed

section \<open>Following\<close>

lemma turn_follows:
  assumes ok: "agent_ok num st" and rel: "coarse st = coarse c" and ns: "no_steps c" and q: "follow_ok st q"
  defines "c' \<equiv> fold (\<lambda>q c. after num c q) (sent GTurn q) c"
  shows "coarse (after num st q) = coarse c' \<and> no_steps c'"
proof (cases "admits GTurn q")
  case False
  then have "c' = c" by (simp add: c'_def sent_def filterOpsForGrade_def)
  moreover have "timeline_ok num (ag_items st)" using ok by (simp add: agent_ok_def)
  ultimately show ?thesis using coarse_hidden [OF _ False q] rel ns by simp
next
  case True
  then have sent: "c' = after num c (case q of ResetOp sn \<Rightarrow> ResetOp (redactSnapshotForGrade GTurn sn) | _ \<Rightarrow> q)"
    by (simp add: c'_def sent_def filterOpsForGrade_def GRADE_RANK_def)
  note eqs = coarse_eqD [OF rel]
  note simps = sent applyOperation_def rel ns
  have tasks: "keyed_by tk_taskId (ag_tasks st)" "keyed_by tk_taskId (ag_tasks c)"
    using ok coarse_task_same(2) [OF rel] by (simp_all add: agent_ok_def)
  show ?thesis
  proof (cases q)
    case (ResetOp sn)
    then show ?thesis
      by (simp add: sent applyOperation_def applyReset_def redactSnapshotForGrade_def GRADE_RANK_def coarse_def no_steps_iff o_def)
  next
    case (TurnUpsertOp h)
    then show ?thesis
      using coarse_turn_upsert [of st h] coarse_turn_upsert [of c h] turn_upsert_no_steps [OF ns] by (simp add: simps)
  next
    case (MarkerUpsertOp m b)
    then show ?thesis
      using coarse_item_upsert [of "MarkerI m" st "mk_markerId m" b] coarse_item_upsert [of "MarkerI m" c "mk_markerId m" b]
        item_upsert_no_steps [OF ns, of "MarkerI m"] by (simp add: simps)
  next
    case (TaskRefUpsertOp r b)
    then show ?thesis
      using coarse_item_upsert [of "TaskRefI r" st "rf_refId r" b] coarse_item_upsert [of "TaskRefI r" c "rf_refId r" b]
        item_upsert_no_steps [OF ns, of "TaskRefI r"] by (simp add: simps)
  next
    case (TaskUpsertOp x)
    then have "follow_ok c (TaskUpsertOp x)" using follow_task_same [OF rel] q by simp
    moreover have "no_steps (re_state (applyTaskUpsert c x))" using ns by (simp add: applyTaskUpsert_def)
    ultimately show ?thesis
      using TaskUpsertOp q tasks coarse_task_upsert [of st x] coarse_task_upsert [of c x] by (simp add: simps)
  next
    case (ItemsRemoveOp ids)
    have "re_state (applyItemsRemove c ids) = c\<lparr> ag_items := filter (\<lambda>e. itemIdOf e \<notin> set ids) (ag_items c) \<rparr>"
      using ns by (intro remove_plain) (simp add: removed_calls_none anchored_in_def list_all_iff split: option.splits)
    moreover have "re_state (applyItemsRemove st ids) = st\<lparr> ag_items := filter (\<lambda>e. itemIdOf e \<notin> set ids) (ag_items st) \<rparr>"
      using q ItemsRemoveOp by (intro remove_plain) (simp add: follow_ok_def)
    moreover have "map strip_item (filter (\<lambda>e. itemIdOf e \<notin> set ids) xs) = filter (\<lambda>e. itemIdOf e \<notin> set ids) (map strip_item xs)" for xs
      by (simp add: filter_map o_def)
    ultimately show ?thesis
      using ItemsRemoveOp eqs(1) ns by (simp add: simps coarse_upd no_steps_iff)
  qed (use True entity_follows [OF rel ns] in \<open>simp_all add: sent applyOperation_def admits_def GRADE_RANK_def\<close>)
qed

text \<open>A batch the producer may make.\<close>

fun follows_ok :: "to_num \<Rightarrow> agent_state \<Rightarrow> transcript_operation list \<Rightarrow> bool" where
  "follows_ok num st [] = True"
| "follows_ok num st (q # qs) = (op_ok num st q \<and> follow_ok st q \<and> follows_ok num (after num st q) qs)"

text \<open>C11: a subscriber at grade \<open>turn\<close> that starts from what a redacted snapshot gives follows the producer: sent
  only what the grade admits of each operation, it has the producer's turn headers, markers, task
  references, tasks, interactions, attachments, todos, prompts and meta state; it lacks the steps and the
  output of the tasks, and holds no step at all. Assumed of the producer: its state is in shape; each
  operation has natural keys (the ordinals its ids name, no marker or task reference with the id of a turn) and a reset
  carries a timeline in shape with distinct interactions; steps and frames arrive after their turn and
  output after its task; a usage object sent again with a task is unchanged; and removed turns have no interaction anchored
  in them.\<close>

theorem turn_grade_follows:
  assumes "agent_ok num st" "coarse st = coarse c" "no_steps c" "follows_ok num st qs"
  shows "coarse (fold (\<lambda>q st. after num st q) qs st)
      = coarse (fold (\<lambda>q c. after num c q) (concat (map (sent GTurn) qs)) c) \<and>
    no_steps (fold (\<lambda>q c. after num c q) (concat (map (sent GTurn) qs)) c)"
  using assms
proof (induction qs arbitrary: st c)
  case (Cons q qs)
  then have q: "op_ok num st q" "follow_ok st q" "follows_ok num (after num st q) qs" by simp_all
  from turn_follows [OF Cons.prems(1-3) q(2)] Cons.IH [OF agent_ok_operation [OF Cons.prems(1) q(1)] _ _ q(3)]
  show ?case by simp
qed simp

definition sample_header :: turn_header where
  "sample_header = turn_header.truncate (skeletonTurn sample_num (lit ''t1''))"

definition sample_ops :: "transcript_operation list" where
  "sample_ops = [TurnUpsertOp sample_header, FrameUpsertOp (lit ''t1'') (lit ''t1.1'') sample_frame,
     AppendOp \<lparr> ao_target = FrameTarget (lit ''t1'') (lit ''t1.1'') (lit ''t1.1.f1''), ao_offset = 3, ao_text = lit ''lo'' \<rparr>]"

theorem turn_grade_follows_witness:
  "coarse (fold (\<lambda>q st. after sample_num st q) sample_ops EMPTY_AGENT_STATE)
     = coarse (fold (\<lambda>q c. after sample_num c q) (concat (map (sent GTurn) sample_ops)) EMPTY_AGENT_STATE)"
proof -
  have "agent_ok sample_num EMPTY_AGENT_STATE" "no_steps EMPTY_AGENT_STATE"
    "follows_ok sample_num EMPTY_AGENT_STATE sample_ops" by code_simp+
  from turn_grade_follows [OF this(1) refl this(2, 3)] show ?thesis by simp
qed

section \<open>Removed turns\<close>

text \<open>C40: a subscriber at grade \<open>turn\<close> does not follow the removal of a turn that a pending interaction is anchored in:
  the producer drops the interaction with the turn, but the subscriber never saw the tool call that ties them
  together, so the interaction stays pending for it.\<close>

theorem removal_strands_interaction:
  assumes "jget (ag_interactions st) k = Some i" "ia_interactionId i = k" "ia_state i = IPending"
    and "anchored_in (removed_calls ids (ag_items st)) i"
    and "coarse st = coarse c" "no_steps c" "k \<in> set (ag_pending st)"
  shows "k \<notin> set (ag_pending (after num st (ItemsRemoveOp ids))) \<and>
    jget (ag_interactions (after num st (ItemsRemoveOp ids))) k = None \<and>
    sent GTurn (ItemsRemoveOp ids) = [ItemsRemoveOp ids] \<and>
    k \<in> set (ag_pending (after num c (ItemsRemoveOp ids))) \<and>
    jget (ag_interactions (after num c (ItemsRemoveOp ids))) k = Some i"
proof -
  let ?dead = "map (\<lambda>(k, i). ia_interactionId i)
    (filter (\<lambda>(k, i). anchored_in (removed_calls ids (ag_items st)) i) (ag_interactions st))"
  have "(k, i) \<in> set (ag_interactions st)" using assms(1) by (rule map_of_SomeD)
  then have dead: "k \<in> set ?dead" using assms(2, 4) by force
  have "\<exists>e\<in>set (ag_items st). itemIdOf e \<in> set ids"
  proof (rule ccontr)
    assume none: "\<not> ?thesis"
    have "removed_calls ids (ag_items st) = []"
      using none by (fastforce simp: removed_calls_def split: transcript_item.splits)
    with assms(4) show False by (simp add: anchored_in_def split: option.splits)
  qed
  then have "length (filter (\<lambda>e. itemIdOf e \<notin> set ids) (ag_items st)) < length (ag_items st)"
    by (elim bexE) (rule length_filter_less, assumption, simp)
  then have st: "after num st (ItemsRemoveOp ids) = st\<lparr> ag_items := filter (\<lambda>e. itemIdOf e \<notin> set ids) (ag_items st),
      ag_interactions := fold jdel ?dead (ag_interactions st), ag_pending := fold set_del ?dead (ag_pending st) \<rparr>"
    by (simp add: applyOperation_def applyItemsRemove_def Let_def)
  have c: "after num c (ItemsRemoveOp ids) = c\<lparr> ag_items := filter (\<lambda>e. itemIdOf e \<notin> set ids) (ag_items c) \<rparr>"
    using assms(6) unfolding applyOperation_def transcript_operation.case
    by (intro remove_plain) (simp add: removed_calls_none anchored_in_def list_all_iff split: option.splits)
  show ?thesis
    using dead assms(1, 7) coarse_eqD(2, 3) [OF assms(5)]
    by (simp add: st c jget_dels sent_def filterOpsForGrade_def admits_def GRADE_RANK_def del: set_map)
qed

definition sample_call :: transcript_frame where
  "sample_call = ToolF \<lparr> uf_frameId = lit ''c1'', uf_toolCallId = lit ''c1'', uf_name = lit ''Bash'', uf_view = None,
     uf_state = ToolRunning, uf_input = JUndef, uf_output = JUndef, uf_display = JUndef, uf_error = None, uf_inputText = None,
     uf_progress = JUndef, uf_taskId = None, uf_approvalId = None, uf_todoId = None, uf_agentRefs = JUndef \<rparr>"

definition sample_approval :: transcript_interaction where
  "sample_approval = \<lparr> ia_interactionId = lit ''i1'', ia_interactionKind = Approval, ia_toolCallId = Some (lit ''c1''),
     ia_state = IPending, ia_request = JUndef, ia_response = JUndef \<rparr>"

definition sample_gate :: "transcript_operation list" where
  "sample_gate = [TurnUpsertOp sample_header, FrameUpsertOp (lit ''t1'') (lit ''t1.1'') sample_call,
     InteractionUpsertOp sample_approval]"

theorem removal_strands_interaction_witness:
  "lit ''i1'' \<in> set (ag_pending (after sample_num
      (fold (\<lambda>q c. after sample_num c q) (concat (map (sent GTurn) sample_gate)) EMPTY_AGENT_STATE) (ItemsRemoveOp [lit ''t1''])))"
proof -
  let ?st = "fold (\<lambda>q st. after sample_num st q) sample_gate EMPTY_AGENT_STATE"
  let ?c = "fold (\<lambda>q c. after sample_num c q) (concat (map (sent GTurn) sample_gate)) EMPTY_AGENT_STATE"
  have "jget (ag_interactions ?st) (lit ''i1'') = Some sample_approval" "ia_interactionId sample_approval = lit ''i1''"
    "ia_state sample_approval = IPending" "anchored_in (removed_calls [lit ''t1''] (ag_items ?st)) sample_approval"
    "coarse ?st = coarse ?c" "no_steps ?c" "lit ''i1'' \<in> set (ag_pending ?st)" by code_simp+
  from removal_strands_interaction [OF this, of sample_num] show ?thesis by blast
qed

end
