(* ===== verification/Spec2Isabelle.thy ===== *)
theory Spec2Isabelle
  imports SkipList Compaction UniqueChecks TextBuild DbQuery DbExpire TranscriptHistory TranscriptGrade
begin

text \<open>
  A development for two packages of the echadron monorepo. \<open>packages/minidb\<close> is an embedded database: a
  key-value store in memory, made durable by a write-ahead log and snapshots, with datetime, compound,
  secondary and full-text indexes and a query planner over them. \<open>packages/transcript\<close> is the data
  model of what an agent did: a timeline of turns, steps and frames, built from a stream of
  operations at the producer and at every subscriber. The two share the model of JavaScript values
  and nothing else. Paths of the database are relative to \<open>packages/minidb/src\<close>, paths of the transcript
  to \<open>packages/transcript/src\<close>.

  \<^bold>\<open>The database and how its parts meet.\<close> A write of the facade (\<open>index.ts\<close>) is prepared (checked and
  encoded), appended to the log (\<open>wal.ts\<close>) as one frame (\<open>codec.ts\<close>, \<open>crc32.ts\<close>), applied to the store
  (\<open>store.ts\<close>) and to every derived index (\<open>dt-index.ts\<close>, \<open>compound-index.ts\<close>, \<open>index-manager.ts\<close>,
  \<open>text-index.ts\<close>), and then waits for the log. When the append fails the write is undone key by key; when
  it failed because compaction sealed the log, the commit runs again. Compaction (\<open>compaction.ts\<close>)
  writes a snapshot of the store while writers go on (\<open>snapshot.ts\<close>), copies the end of the log behind it,
  renames both files into place and remaps the disk pointers. At open, recovery (\<open>recovery.ts\<close>) replays the
  snapshot and the log. Queries take candidates from the indexes and filter them (\<open>query.ts\<close>).

  \<^bold>\<open>The transcript and how its parts meet.\<close> The state of one agent (\<open>model\<close>) is changed by a reducer over
  operations (\<open>ops/apply.ts\<close>): upserts of turns, steps, frames and the entities beside them, appended text
  with offsets, removals and resets. A store per agent and per session (\<open>store\<close>) accepts batches of
  operations and calls listeners; a snapshot of it resets another store. A subscriber at a lower grade
  (\<open>granularity\<close>) is sent part of the operations. Old turns are fetched in pages (\<open>pagination\<close>), and a
  timeline can be rebuilt from the messages of a session (\<open>history/groupTurns.ts\<close>).

  \<^bold>\<open>How the code is represented.\<close> Bytes are 8-bit words and a buffer is their list. A JavaScript string
  is the list of its UTF-16 units, a key of the store the list of its bytes. A \<open>Map\<close> is an association
  list in insertion order (\<open>jget\<close>, \<open>jset\<close>, \<open>jdel\<close>); \<open>jmap_ok\<close> says that its keys are distinct. A call that
  may throw returns \<open>Inl\<close> of a \<open>js_error\<close> or \<open>Inr\<close>. An \<open>async\<close> function is the pure functions of its
  stretches between two awaits; what the awaited call reports is an input, so interleavings are
  sequences of steps. A commit is two of them, the body up to its await and the end at a later clock on
  whatever the database has become. \<open>Date.now()\<close> is a parameter \<open>now\<close> of every stretch that reads the clock.
  The record \<open>world\<close> holds what is not under \<open>src/\<close>: the value codec, \<open>JSON\<close> on metadata, number printing and
  parsing, \<open>toLowerCase\<close>, RegExp matching; the transcript takes \<open>Number(s)\<close> (\<open>num\<close>) and \<open>JSON.parse\<close> (\<open>json\<close>)
  as parameters. Random levels of the skip list are a list of coin flips.

  \<^bold>\<open>Theories.\<close>
  \<^item> \<open>Prelude\<close>: the types above, lemmas on them, the hint collection. \<open>FileIO\<close>: the short-read and
    short-write loops. \<open>Json\<close>, \<open>Utf8Text\<close>: JavaScript values and the UTF-8 text of a key.
  \<^item> \<open>Crc32\<close>, \<open>Codec\<close>: the checksum and the frame and batch formats. Lemmas: the table-driven loop is
    the bitwise CRC, every burst of up to 32 bits changes it; frames and batches round trip; a damaged frame is
    not accepted.
  \<^item> \<open>FrameScan\<close>: \<open>parseBuffer\<close>, the scanner over a file and the incremental \<open>FrameParser\<close>; they agree with
    each other, and strict parsing of damaged bytes gives the longest undamaged prefix.
  \<^item> \<open>OrderedIndex\<close> states the interface \<open>ordered_index\<close> (insert, delete, range over a sorted list), which
    \<open>SkipList\<close> implements: nodes in a heap with spans and back pointers, refined to the sorted list.
  \<^item> \<open>MinHeap\<close>, \<open>Store\<close>: the expiry heap and the store with its byte counters; it refines a map in which
    expired records are absent.
  \<^item> \<open>DerivedIndex\<close> states the interface \<open>derived_index\<close> of the indexes (after any puts and removes the rows of a
    key are those of its last put), with \<open>DtIndex\<close>, \<open>CompoundIndex\<close>, \<open>IndexManager\<close>, \<open>TextIndex\<close> as its
    interpretations; \<open>UniqueChecks\<close> shows that the unique checks refuse exactly the writes that would
    break uniqueness. \<open>Postings\<close> is the postings file; \<open>TextSearch\<close> and \<open>TextBuild\<close> say what a search answers.
  \<^item> \<open>Wal\<close>: the log as a state machine of appends, flushes and replies. \<open>Recovery\<close>: replay and replica
    catch-up. \<open>SnapshotWriter\<close>, \<open>FuzzySnapshot\<close>, \<open>Compaction\<close>: the snapshot under concurrent writes, why
    replaying the copied end of the log repairs it, and every phase of a compaction, with how each call
    that may fail ends as an input.
  \<^item> \<open>MiniDb\<close>, \<open>MiniDbWrite\<close>, \<open>MiniDbRead\<close>, \<open>Planner\<close>: the facade, function by function.
  \<^item> \<open>IndexRows\<close>, \<open>DbInvariant\<close>, \<open>DbCommit\<close>, \<open>DbReach\<close>: the invariant of a database (every index holds of every
    key the row its record gives; \<open>db_inv True\<close> allows a dt row of a key without a record, which
    rolling back an expired record leaves behind), that each step keeps it, and the reachable states
    of any number of tasks as the relation \<open>db_step\<close>. \<open>DbQuery\<close> shows that a planned query answers what a
    scan answers, \<open>DbExpire\<close> that \<open>expire\<close> changes the expiry of a record and nothing else.
  \<^item> \<open>TranscriptModel\<close>, \<open>TranscriptApply\<close>: the timeline, the operations and the reducer, function by function.
    \<open>TranscriptLaws\<close>: an operation that arrives twice is absorbed. \<open>TranscriptStore\<close>: the stores of an agent
    and of a session. \<open>TranscriptStream\<close>: text that arrives in chunks, in any order and repeated, converges.
    \<open>TranscriptShape\<close>: the invariant of the state (unique ids, turns and steps in order, the pending
    interactions) under every operation.
  \<^item> \<open>TranscriptPages\<close>: pages by turns, windows of a snapshot, and a reset from a snapshot. \<open>TranscriptGrade\<close>: a
    subscriber at grade \<open>turn\<close> follows the producer up to what the grade leaves out. \<open>TranscriptHistory\<close>: the
    timeline rebuilt from messages is in shape.

  \<^bold>\<open>Bounds and fuel.\<close> Loops recurse on what they consume (bytes left, records left, attempts left of a
  bounded retry) with a termination proof; the rename retries and the passes of the precopy are
  bounded by the code's constants. Three kinds of loop take a bound instead. The pointer loops of
  \<open>SkipList\<close> take the number of nodes plus one (\<open>fuel\<close>), which \<open>fuel_enough\<close> shows to be more than any walk
  needs. \<open>page_back\<close> of \<open>TranscriptPages\<close>, a client that follows cursors, takes the number of requests, and the
  theorem on it shows that one per turn and one more is enough. The eviction loop of \<open>MiniDbWrite\<close> and the drain of
  \<open>Compaction\<close> take the list of the replies they await, and a list that ends early is a promise that never
  settles; \<open>drain_ends\<close> gives two rounds for a sealed log. Frame sizes use the code's limits (\<open>MAX_KEY_LEN\<close>,
  \<open>MAX_VAL_LEN\<close>), as hypotheses where a length field must not wrap.

  \<^bold>\<open>Assumptions of the facade theorems.\<close> What the value codec decodes from an encoded value has the index
  rows of the value (\<open>codec_keeps\<close>); the values of the database live in memory where a theorem follows
  commits. A step of \<open>db_step\<close> is one stretch between two awaits - a commit body, the end of a waiting
  commit, a read, a tick, a change of the log - and steps of any tasks follow each other in any order,
  so what runs while an append, a rotation or an eviction is awaited is any run of steps. A retried
  \<open>expire\<close>, which would write the value it read before its first attempt, is outside the relation.

  \<^bold>\<open>Assumptions of the transcript theorems.\<close> The producer gives natural keys: the ordinal of a turn or step is
  the one its id gives, and an id of a turn is not that of another item (\<open>op_ok\<close>); each theorem states
  what else it needs. Ordinals are finite numbers, so an id whose number is infinite is not represented.

  \<^bold>\<open>Not modelled.\<close> Of \<open>packages/minidb\<close>: opening, closing, backup and restore of a database, the lock file, the
  server and the cluster (calls of the file system, of sockets and of other processes around the parts
  above), timers as such (each tick is an operation), and \<open>Buffer\<close> values of the binary codec. The sleeping
  between retries and the fsync of a directory have no effect on the modelled state; closing the reader
  before the renames on Windows is modelled, and \<open>windows_reader_lost\<close> shows what it costs. Of
  \<open>packages/transcript\<close>: the schemas, the views, and \<open>history/foldFacts.ts\<close>. The other packages and
  applications of the repository are the agent engine, its servers, clients and user interfaces; they are
  effects around external services.
\<close>

end
